(* ===== verification/GC_Prelude.thy ===== *)
theory GC_Prelude
  imports Main "HOL-Library.Word"
begin

text \<open>
  Shared vocabulary of the development: the constants of the configuration that the
  iPhone build selects (32-bit words, 4096-byte heap blocks, one mark bit per 8-byte
  granule), machine-word arithmetic on \<^typ>\<open>nat\<close> with the wrap-around written out, and
  arrays of 32-bit words used as bit sets (mark bits, page hash tables).
\<close>

unbundle bit_operations_syntax

named_theorems gc_consts \<open>the numeric values of the configuration constants\<close>
named_theorems bit_array \<open>reading and writing single bits of a word array\<close>

section \<open>Configuration constants\<close>

type_synonym hblk = nat
  \<comment> \<open>a \<open>struct hblk *\<close>, counted in blocks: the byte address divided by \<open>HBLKSIZE\<close>; 0 is NULL\<close>

type_synonym addr = nat
  \<comment> \<open>a byte address\<close>

definition WORDSZ :: nat where
  [gc_consts]: "WORDSZ = 32"

definition HBLKSIZE :: nat where
  [gc_consts]: "HBLKSIZE = 4096"

definition GRANULE_BYTES :: nat where
  [gc_consts]: "GRANULE_BYTES = 8"

definition MAXOBJBYTES :: nat where
  [gc_consts]: "MAXOBJBYTES = HBLKSIZE div 2"

definition MAXOBJGRANULES :: nat where
  [gc_consts]: "MAXOBJGRANULES = MAXOBJBYTES div GRANULE_BYTES"

definition MAXHINCR :: nat where
  [gc_consts]: "MAXHINCR = 4096"

definition MINHINCR :: nat where
  [gc_consts]: "MINHINCR = 64"

definition divHBLKSZ :: "nat \<Rightarrow> nat" where
  "divHBLKSZ n = n div HBLKSIZE"

definition OBJ_SZ_TO_BLOCKS :: "nat \<Rightarrow> nat" where
  "OBJ_SZ_TO_BLOCKS sz = divHBLKSZ (sz + HBLKSIZE - 1)"

definition BYTES_TO_GRANULES :: "nat \<Rightarrow> nat" where
  "BYTES_TO_GRANULES n = n div 8"

definition hblk_addr :: "hblk \<Rightarrow> addr" where
  "hblk_addr h = h * HBLKSIZE"

lemma HBLKSIZE_pos [simp]: "0 < HBLKSIZE"
  by (simp add: HBLKSIZE_def)

lemma HBLKSIZE_nonzero [simp]: "HBLKSIZE \<noteq> 0"
  by (simp add: HBLKSIZE_def)

lemma OBJ_SZ_TO_BLOCKS_ge: "sz \<le> OBJ_SZ_TO_BLOCKS sz * HBLKSIZE"
  unfolding OBJ_SZ_TO_BLOCKS_def divHBLKSZ_def HBLKSIZE_def by arith

lemma OBJ_SZ_TO_BLOCKS_multiple [simp]: "OBJ_SZ_TO_BLOCKS (n * HBLKSIZE) = n"
  unfolding OBJ_SZ_TO_BLOCKS_def divHBLKSZ_def HBLKSIZE_def by arith

section \<open>Machine words\<close>

text \<open>
  A \<open>word\<close> (an unsigned 32-bit integer) is a \<^typ>\<open>nat\<close> reduced modulo \<open>2 ^ 32\<close>;
  \<open>(signed_word) x\<close> is its two's complement reading.
\<close>

definition word32 :: "nat \<Rightarrow> nat" where
  "word32 x = x mod 2 ^ 32"

definition signed_word :: "nat \<Rightarrow> int" where
  "signed_word x = (if word32 x < 2 ^ 31 then int (word32 x) else int (word32 x) - 2 ^ 32)"

lemma word32_id [simp]: "x < 2 ^ 32 \<Longrightarrow> word32 x = x"
  by (simp add: word32_def)

lemma word32_less [simp]: "word32 x < 2 ^ 32"
  by (simp add: word32_def)

text \<open>Unsigned addition and subtraction with their wrap-around.\<close>

definition wadd :: "nat \<Rightarrow> nat \<Rightarrow> nat" where
  "wadd x y = word32 (x + y)"

definition wsub :: "nat \<Rightarrow> nat \<Rightarrow> nat" where
  "wsub x y = word32 (x + 2 ^ 32 - word32 y)"

lemma wadd_id [simp]: "x + y < 2 ^ 32 \<Longrightarrow> wadd x y = x + y"
  by (simp add: wadd_def)

lemma wsub_id [simp]: "y \<le> x \<Longrightarrow> x < 2 ^ 32 \<Longrightarrow> wsub x y = x - y"
  by (simp add: wsub_def word32_def) (metis diff_add_assoc2 less_imp_diff_less mod_add_self2 mod_less)

lemma wadd_wadd [simp]: "wadd (wadd a b) c = wadd a (b + c)"
  by (simp add: wadd_def word32_def mod_add_left_eq add.assoc)

lemma signed_word_pos_iff: "x < 2 ^ 32 \<Longrightarrow> 0 < signed_word x \<longleftrightarrow> 0 < x \<and> x < 2 ^ 31"
  by (simp add: signed_word_def)

lemma signed_word_neg_iff: "x < 2 ^ 32 \<Longrightarrow> signed_word x < 0 \<longleftrightarrow> 2 ^ 31 \<le> x"
  by (auto simp add: signed_word_def)

section \<open>Word arrays as bit sets\<close>

type_synonym bit_words = "nat \<Rightarrow> 32 word"

definition get_bit_entry :: "bit_words \<Rightarrow> nat \<Rightarrow> bool" where
  "get_bit_entry a n \<longleftrightarrow> bit (a (n div 32)) (n mod 32)"

definition set_bit_entry :: "nat \<Rightarrow> bit_words \<Rightarrow> bit_words" where
  "set_bit_entry n a = a (n div 32 := a (n div 32) OR push_bit (n mod 32) 1)"

definition clear_bit_entry :: "nat \<Rightarrow> bit_words \<Rightarrow> bit_words" where
  "clear_bit_entry n a = a (n div 32 := a (n div 32) AND NOT (push_bit (n mod 32) 1))"

definition zero_words :: bit_words where
  "zero_words = (\<lambda>_. 0)"

lemma div_mod_32_eq_iff: "m div 32 = n div 32 \<and> m mod 32 = n mod 32 \<longleftrightarrow> m = (n::nat)"
  by (metis div_mult_mod_eq)

lemma get_zero_words [simp, bit_array]: "\<not> get_bit_entry zero_words n"
  by (simp add: get_bit_entry_def zero_words_def)

lemma get_set_bit_entry [simp, bit_array]:
  "get_bit_entry (set_bit_entry n a) m \<longleftrightarrow> m = n \<or> get_bit_entry a m"
  using div_mod_32_eq_iff [of m n]
  by (auto simp: get_bit_entry_def set_bit_entry_def bit_simps)

lemma get_clear_bit_entry [simp, bit_array]:
  "get_bit_entry (clear_bit_entry n a) m \<longleftrightarrow> m \<noteq> n \<and> get_bit_entry a m"
  using div_mod_32_eq_iff [of m n]
  by (auto simp: get_bit_entry_def clear_bit_entry_def bit_simps)

lemma get_bit_entry_zero_word: "a (n div 32) = 0 \<Longrightarrow> \<not> get_bit_entry a n"
  by (simp add: get_bit_entry_def)

section \<open>Sequencing\<close>

text \<open>A fallible step for each element of a list.\<close>

fun each :: "('b \<Rightarrow> 's \<Rightarrow> 's option) \<Rightarrow> 'b list \<Rightarrow> 's \<Rightarrow> 's option" where
  "each f [] st = Some st"
| "each f (x # xs) st = Option.bind (f x st) (each f xs)"

lemma each_append: "each f (xs @ ys) st = Option.bind (each f xs st) (each f ys)"
proof (induction xs arbitrary: st)
  case (Cons x xs)
  then show ?case by (cases "f x st") simp_all
qed simp

lemma each_Some: "each (\<lambda>x st. Some (f x st)) xs st = Some (fold f xs st)"
  by (induction xs arbitrary: st) simp_all

end
