(* ===== verification/Blacklist.thy ===== *)
theory Blacklist
  imports GC_Prelude
begin

text \<open>
  Black lists of heap blocks (\<^verbatim>\<open>bdwgc/blacklst.c\<close>). The marker records blocks that a
  false pointer seems to refer to; the block allocator then avoids them. Each black list
  is a page hash table: one bit per block number modulo \<open>PHT_ENTRIES\<close>, stored in 32-bit
  words. The scan \<open>GC_is_black_listed\<close> skips whole zero words; it is shown equivalent to
  the bit-by-bit definition of a black listed range.
\<close>

section \<open>Page hash tables\<close>

definition PHT_ENTRIES :: nat where
  [gc_consts]: "PHT_ENTRIES = 2 ^ 18"

definition PHT_HASH :: "addr \<Rightarrow> nat" where
  "PHT_HASH p = (word32 p div HBLKSIZE) mod PHT_ENTRIES"

type_synonym page_hash_table = bit_words

record black_lists =
  GC_all_interior_pointers :: bool
  GC_old_normal_bl :: "page_hash_table option"
  GC_incomplete_normal_bl :: "page_hash_table option"
  GC_old_stack_bl :: page_hash_table
  GC_incomplete_stack_bl :: page_hash_table
  GC_total_stack_black_listed :: nat
  GC_black_list_spacing :: nat

text \<open>
  \<open>GC_bl_init\<close> asks \<open>GC_scratch_alloc\<close> for the tables in the order of the source; the
  list says which of these requests succeed. The value \<open>None\<close> is \<open>EXIT()\<close>.
\<close>

definition GC_bl_init :: "bool \<Rightarrow> bool list \<Rightarrow> black_lists option" where
  "GC_bl_init interior ok =
     (let nt = (if interior then 0 else 2);
          ask = (\<lambda>k. k < length ok \<and> ok ! k) in
      if \<not> interior \<and> \<not> (ask 0 \<and> ask 1) then None
      else if \<not> (ask nt \<and> ask (nt + 1)) then None
      else Some \<lparr> GC_all_interior_pointers = interior,
                  GC_old_normal_bl = (if interior then None else Some zero_words),
                  GC_incomplete_normal_bl = (if interior then None else Some zero_words),
                  GC_old_stack_bl = zero_words,
                  GC_incomplete_stack_bl = zero_words,
                  GC_total_stack_black_listed = 0,
                  GC_black_list_spacing = MINHINCR * HBLKSIZE \<rparr>)"

section \<open>Statistics over the heap sections\<close>

text \<open>A heap section is its first block and its length in bytes.\<close>

type_synonym heap_sect = "hblk \<times> nat"

definition GC_number_stack_black_listed :: "black_lists \<Rightarrow> hblk \<Rightarrow> hblk \<Rightarrow> nat" where
  "GC_number_stack_black_listed b start endp1 =
     length (filter (\<lambda>h. get_bit_entry (GC_old_stack_bl b) (PHT_HASH (hblk_addr h))) [start ..< endp1])"

definition total_stack_black_listed :: "black_lists \<Rightarrow> heap_sect list \<Rightarrow> nat" where
  "total_stack_black_listed b sects =
     (\<Sum>(start, len) \<leftarrow> sects. GC_number_stack_black_listed b start (start + len div HBLKSIZE)) * HBLKSIZE"

section \<open>Promotion\<close>

definition GC_promote_black_lists :: "heap_sect list \<Rightarrow> nat \<Rightarrow> black_lists \<Rightarrow> black_lists" where
  "GC_promote_black_lists sects heapsize b =
     (let b1 = b\<lparr> GC_old_normal_bl := GC_incomplete_normal_bl b,
                  GC_old_stack_bl := GC_incomplete_stack_bl b,
                  GC_incomplete_normal_bl :=
                    (if GC_all_interior_pointers b then GC_old_normal_bl b
                     else map_option (\<lambda>_. zero_words) (GC_old_normal_bl b)),
                  GC_incomplete_stack_bl := zero_words \<rparr>;
          total = total_stack_black_listed b1 sects;
          sp0 = (if total \<noteq> 0 then HBLKSIZE * (heapsize div total) else GC_black_list_spacing b1);
          sp1 = (if sp0 < 3 * HBLKSIZE then 3 * HBLKSIZE else sp0);
          sp2 = (if sp1 > MAXHINCR * HBLKSIZE then MAXHINCR * HBLKSIZE else sp1) in
      b1\<lparr> GC_total_stack_black_listed := total, GC_black_list_spacing := sp2 \<rparr>)"

definition GC_unpromote_black_lists :: "black_lists \<Rightarrow> black_lists" where
  "GC_unpromote_black_lists b =
     b\<lparr> GC_incomplete_normal_bl :=
          (if GC_all_interior_pointers b then GC_incomplete_normal_bl b else GC_old_normal_bl b),
        GC_incomplete_stack_bl := GC_old_stack_bl b \<rparr>"

section \<open>Recording false pointers\<close>

text \<open>
  \<open>hdr_nil p\<close> is the test \<open>HDR(p) == 0\<close>, and \<open>modws\<close> the table
  \<open>GC_modws_valid_offsets\<close>. \<open>None\<close> is the read through a NULL table.
\<close>

definition GC_add_to_black_list_normal ::
    "(nat \<Rightarrow> bool) \<Rightarrow> (addr \<Rightarrow> bool) \<Rightarrow> addr \<Rightarrow> black_lists \<Rightarrow> black_lists option" where
  "GC_add_to_black_list_normal modws hdr_nil p b =
     (if \<not> modws (p mod 4) then Some b
      else case (GC_old_normal_bl b, GC_incomplete_normal_bl b) of
        (Some old, Some inc) \<Rightarrow>
          Some (if hdr_nil p \<or> get_bit_entry old (PHT_HASH p)
                then b\<lparr> GC_incomplete_normal_bl := Some (set_bit_entry (PHT_HASH p) inc) \<rparr>
                else b)
      | _ \<Rightarrow> None)"

definition GC_add_to_black_list_stack :: "(addr \<Rightarrow> bool) \<Rightarrow> addr \<Rightarrow> black_lists \<Rightarrow> black_lists" where
  "GC_add_to_black_list_stack hdr_nil p b =
     (if hdr_nil p \<or> get_bit_entry (GC_old_stack_bl b) (PHT_HASH p)
      then b\<lparr> GC_incomplete_stack_bl := set_bit_entry (PHT_HASH p) (GC_incomplete_stack_bl b) \<rparr>
      else b)"

section \<open>Scanning a range of blocks\<close>

function is_black_listed_loop ::
    "page_hash_table \<Rightarrow> page_hash_table \<Rightarrow> hblk \<Rightarrow> nat \<Rightarrow> nat \<Rightarrow> nat \<Rightarrow> hblk" where
  "is_black_listed_loop old inc h nblocks i index =
     (if old (index div 32) = 0 \<and> inc (index div 32) = 0
      then (let i' = i + (WORDSZ - index mod 32) in
            if i' \<ge> nblocks then 0
            else is_black_listed_loop old inc h nblocks i' (PHT_HASH (hblk_addr (h + i'))))
      else if get_bit_entry old index \<or> get_bit_entry inc index then h + i + 1
      else (let i' = i + 1 in
            if i' \<ge> nblocks then 0
            else is_black_listed_loop old inc h nblocks i' (PHT_HASH (hblk_addr (h + i')))))"
  by pat_completeness auto
termination
proof (relation "measure (\<lambda>(old, inc, h, nblocks, i, index). nblocks - i)", goal_cases)
  case 1
  then show ?case by simp
next
  case (2 old inc h nblocks i index x)
  then show ?case using mod_less_divisor [of 32 index] by (simp add: WORDSZ_def)
next
  case (3 old inc h nblocks i index x)
  then show ?case by simp
qed

declare is_black_listed_loop.simps [simp del]

definition GC_is_black_listed :: "black_lists \<Rightarrow> hblk \<Rightarrow> nat \<Rightarrow> hblk" where
  "GC_is_black_listed b h len =
     (let index = PHT_HASH (hblk_addr h) in
      if \<not> GC_all_interior_pointers b
         \<and> (get_bit_entry (the (GC_old_normal_bl b)) index
            \<or> get_bit_entry (the (GC_incomplete_normal_bl b)) index)
      then h + 1
      else is_black_listed_loop (GC_old_stack_bl b) (GC_incomplete_stack_bl b)
             h (divHBLKSZ len) 0 index)"

section \<open>What the scan decides\<close>

text \<open>A table is usable when the normal tables exist exactly for the non-interior mode.\<close>

definition bl_wf :: "black_lists \<Rightarrow> bool" where
  "bl_wf b \<longleftrightarrow> (GC_all_interior_pointers b \<longleftrightarrow> GC_old_normal_bl b = None)
             \<and> (GC_all_interior_pointers b \<longleftrightarrow> GC_incomplete_normal_bl b = None)"

definition stack_black :: "black_lists \<Rightarrow> hblk \<Rightarrow> bool" where
  "stack_black b h \<longleftrightarrow> get_bit_entry (GC_old_stack_bl b) (PHT_HASH (hblk_addr h))
                      \<or> get_bit_entry (GC_incomplete_stack_bl b) (PHT_HASH (hblk_addr h))"

definition normal_black :: "black_lists \<Rightarrow> hblk \<Rightarrow> bool" where
  "normal_black b h \<longleftrightarrow> \<not> GC_all_interior_pointers b \<and>
     (get_bit_entry (the (GC_old_normal_bl b)) (PHT_HASH (hblk_addr h))
      \<or> get_bit_entry (the (GC_incomplete_normal_bl b)) (PHT_HASH (hblk_addr h)))"

lemma PHT_HASH_hblk: "PHT_HASH (hblk_addr h) = h mod 2 ^ 18"
proof -
  have "word32 (h * 4096) div 4096 = h mod 2 ^ 20"
    using mod_mult_mult2 [of h 4096 "2 ^ 20"] by (simp add: word32_def)
  moreover have "h mod 2 ^ 20 mod 2 ^ 18 = (h mod 2 ^ 18 :: nat)"
    by (simp add: mod_mod_cancel)
  ultimately show ?thesis
    by (simp add: PHT_HASH_def hblk_addr_def HBLKSIZE_def PHT_ENTRIES_def)
qed

lemma same_word_index:
  fixes m k :: nat
  assumes "k < 32 - m mod 32" "m < 32 * n"
  shows "m + k < 32 * n" "(m + k) div 32 = m div 32"
proof -
  have m: "m = 32 * (m div 32) + m mod 32" by simp
  have "m div 32 < n" using assms(2) by (simp add: div_less_iff_less_mult mult.commute)
  then have "m div 32 + 1 \<le> n" by simp
  then have "32 * (m div 32) + 32 \<le> 32 * n" by linarith
  then show "m + k < 32 * n" using m assms(1) by linarith
  have "m + k = 32 * (m div 32) + (m mod 32 + k)" using m by linarith
  moreover have "m mod 32 + k < 32" using assms(1) by linarith
  ultimately show "(m + k) div 32 = m div 32"
    by (metis add.commute add.right_neutral div_less div_mult_self2 zero_neq_numeral)
qed

lemma pht_same_word:
  fixes h k :: nat
  assumes "k < 32 - (h mod 2 ^ 18) mod 32"
  shows "(h + k) mod 2 ^ 18 div 32 = h mod 2 ^ 18 div 32"
proof -
  let ?m = "h mod 2 ^ 18"
  have m: "?m < 32 * 8192" by simp
  have "(h + k) mod 2 ^ 18 = (?m + k) mod 2 ^ 18" by (simp add: mod_add_left_eq)
  also have "\<dots> = ?m + k" using same_word_index(1) [OF assms m] by simp
  finally show ?thesis using same_word_index(2) [OF assms m] by simp
qed

lemma zero_word_not_black:
  assumes "old (PHT_HASH (hblk_addr h) div 32) = 0" "k < 32 - PHT_HASH (hblk_addr h) mod 32"
  shows "\<not> get_bit_entry old (PHT_HASH (hblk_addr (h + k)))"
  using assms pht_same_word [of k h]
  by (auto simp: PHT_HASH_hblk intro!: get_bit_entry_zero_word)

lemma find_upt_skip:
  assumes "i \<le> j" "\<And>k. i \<le> k \<Longrightarrow> k < j \<Longrightarrow> \<not> P k"
  shows "find P [i ..< m] = find P [j ..< m]"
  using assms
proof (induction "j - i" arbitrary: i)
  case 0
  then show ?case by simp
next
  case (Suc d)
  then have "i < j" and "\<not> P i" by auto
  have "find P [Suc i ..< m] = find P [j ..< m]"
    by (rule Suc.hyps(1)) (use Suc.hyps(2) Suc.prems \<open>i < j\<close> in auto)
  moreover have "find P [i ..< m] = find P [Suc i ..< m]"
    using \<open>\<not> P i\<close> by (cases "i < m") (simp_all add: upt_conv_Cons)
  ultimately show ?case by simp
qed

abbreviation (input) pht_black :: "page_hash_table \<Rightarrow> page_hash_table \<Rightarrow> hblk \<Rightarrow> bool" where
  "pht_black old inc h \<equiv> get_bit_entry old (PHT_HASH (hblk_addr h))
                        \<or> get_bit_entry inc (PHT_HASH (hblk_addr h))"

lemma is_black_listed_loop_find:
  assumes "index = PHT_HASH (hblk_addr (h + i))"
  shows "is_black_listed_loop old inc h n i index =
    (case find (\<lambda>k. pht_black old inc (h + k)) [i ..< max (Suc i) n] of
       None \<Rightarrow> 0 | Some k \<Rightarrow> h + k + 1)"
  using assms
proof (induction old inc h n i index rule: is_black_listed_loop.induct)
  case (1 old inc h n i index)
  note unfold = is_black_listed_loop.simps [of old inc h n i index]
  let ?P = "\<lambda>k. pht_black old inc (h + k)"
  have step: "find ?P [i ..< max (Suc i) n] = (if n \<le> j then None else find ?P [j ..< max (Suc j) n])"
    if "i < j" "\<And>k. i \<le> k \<Longrightarrow> k < j \<Longrightarrow> \<not> ?P k" for j
  proof -
    have "find ?P [i ..< max (Suc i) n] = find ?P [j ..< max (Suc i) n]"
      by (rule find_upt_skip) (use that in auto)
    then show ?thesis using that(1) by (auto simp: max_def)
  qed
  show ?case
  proof (cases "old (index div 32) = 0 \<and> inc (index div 32) = 0")
    case True
    let ?j = "i + (WORDSZ - index mod 32)"
    have j: "i < ?j" using mod_less_divisor [of 32 index] by (simp add: WORDSZ_def)
    have clean: "\<not> ?P k" if "i \<le> k" "k < ?j" for k
      using zero_word_not_black [of old "h + i" "k - i"] zero_word_not_black [of inc "h + i" "k - i"]
        True that "1.prems" by (simp add: WORDSZ_def)
    have eq: "find ?P [i ..< max (Suc i) n] = (if n \<le> ?j then None else find ?P [?j ..< max (Suc ?j) n])"
      by (rule step [OF j clean])
    show ?thesis unfolding eq using "1.IH"(1) [OF True refl] True unfold
      by (auto simp: Let_def)
  next
    case False
    note nonzero = False
    show ?thesis
    proof (cases "?P i")
      case True
      with nonzero "1.prems" show ?thesis using unfold by (auto simp: upt_conv_Cons)
    next
      case False
      have clean: "\<not> ?P k" if "i \<le> k" "k < i + 1" for k
        using that False by (metis Suc_eq_plus1 le_antisym less_Suc_eq_le)
      have eq: "find ?P [i ..< max (Suc i) n] = (if n \<le> i + 1 then None else find ?P [i + 1 ..< max (Suc (i + 1)) n])"
        by (rule step [OF _ clean]) simp_all
      have nb: "\<not> (get_bit_entry old index \<or> get_bit_entry inc index)"
        using False "1.prems" by simp
      have "is_black_listed_loop old inc h n i index =
          (if n \<le> i + 1 then 0
           else is_black_listed_loop old inc h n (i + 1) (PHT_HASH (hblk_addr (h + (i + 1)))))"
        unfolding unfold Let_def by (simp only: nonzero nb if_False)
      then show ?thesis unfolding eq using "1.IH"(2) [OF nonzero nb refl] by simp
    qed
  qed
qed

lemma GC_is_black_listed_find:
  "GC_is_black_listed b h len =
     (if normal_black b h then h + 1
      else case find (\<lambda>k. stack_black b (h + k)) [0 ..< max 1 (divHBLKSZ len)] of
             None \<Rightarrow> 0 | Some k \<Rightarrow> h + k + 1)"
  using is_black_listed_loop_find [of "PHT_HASH (hblk_addr h)" h 0]
  by (simp add: GC_is_black_listed_def normal_black_def stack_black_def)

section \<open>The contract the block allocator relies on\<close>

text \<open>
  The allocator skips forward over black listed positions. All it needs is that a nonzero
  answer moves forward, and that it never jumps over a usable start.
\<close>

locale black_list_scan =
  fixes scan :: "hblk \<Rightarrow> nat \<Rightarrow> hblk"
  assumes progress: "scan h len \<noteq> 0 \<Longrightarrow> h < scan h len"
    and no_overshoot: "scan h len \<noteq> 0 \<Longrightarrow> h \<le> s \<Longrightarrow> s < scan h len \<Longrightarrow> scan s len \<noteq> 0"
begin

text \<open>Repeating the scan reaches the first usable start, or passes the limit.\<close>

lemma scan_chain:
  assumes "scan h len \<noteq> 0" "\<And>s. scan h len \<le> s \<Longrightarrow> s < r \<Longrightarrow> scan s len \<noteq> 0"
    "h \<le> s" "s < r"
  shows "scan s len \<noteq> 0"
  using assms no_overshoot [of h len s] by (metis not_le)

end

lemma find_upt_SomeD:
  assumes "find P [i ..< m] = Some k"
  shows "i \<le> k \<and> k < m \<and> P k \<and> (\<forall>j. i \<le> j \<and> j < k \<longrightarrow> \<not> P j)"
proof -
  obtain n where n: "n < m - i" "P ([i ..< m] ! n)" "k = [i ..< m] ! n"
      "\<forall>j < n. \<not> P ([i ..< m] ! j)"
    using assms by (auto simp: find_Some_iff)
  then have "k = i + n" by simp
  moreover have "\<not> P j" if "i \<le> j" "j < k" for j
    using n(4) that \<open>k = i + n\<close> n(1) spec [OF n(4), of "j - i"] by simp
  ultimately show ?thesis using n by auto
qed

lemma find_upt_None_iff: "find P [i ..< m] = None \<longleftrightarrow> (\<forall>k. i \<le> k \<and> k < m \<longrightarrow> \<not> P k)"
  by (auto simp: find_None_iff)

lemma GC_is_black_listed_nonzero:
  "GC_is_black_listed b h len \<noteq> 0 \<longleftrightarrow>
     normal_black b h \<or> (\<exists>k < max 1 (divHBLKSZ len). stack_black b (h + k))"
  by (auto simp: GC_is_black_listed_find find_upt_None_iff split: option.splits
      dest!: find_upt_SomeD)

lemma GC_is_black_listed_result:
  assumes "GC_is_black_listed b h len = r" "r \<noteq> 0"
  shows "(r = h + 1 \<and> normal_black b h)
       \<or> (\<exists>k < max 1 (divHBLKSZ len). r = h + k + 1 \<and> stack_black b (h + k)
            \<and> (\<forall>j < k. \<not> stack_black b (h + j)))"
  using assms by (auto simp: GC_is_black_listed_find split: option.splits if_splits
      dest!: find_upt_SomeD)

lemma GC_is_black_listed_no_overshoot:
  assumes r: "GC_is_black_listed b h len \<noteq> 0" and s: "h \<le> s" "s < GC_is_black_listed b h len"
  shows "GC_is_black_listed b s len \<noteq> 0"
  using GC_is_black_listed_result [OF refl r]
proof
  assume "GC_is_black_listed b h len = h + 1 \<and> normal_black b h"
  with s have "s = h" by simp
  with r show ?thesis by simp
next
  assume "\<exists>k < max 1 (divHBLKSZ len). GC_is_black_listed b h len = h + k + 1 \<and> stack_black b (h + k)
            \<and> (\<forall>j < k. \<not> stack_black b (h + j))"
  then obtain k where k: "k < max 1 (divHBLKSZ len)" "stack_black b (h + k)" "s \<le> h + k"
    using s by auto
  then have "stack_black b (s + (h + k - s))" "h + k - s < max 1 (divHBLKSZ len)"
    using s by auto
  then show ?thesis unfolding GC_is_black_listed_nonzero by blast
qed

interpretation gc_bl: black_list_scan "GC_is_black_listed b" for b
proof unfold_locales
  fix h len
  assume "GC_is_black_listed b h len \<noteq> 0"
  then show "h < GC_is_black_listed b h len"
    using GC_is_black_listed_result [OF refl, of b h len] by auto
qed (rule GC_is_black_listed_no_overshoot)

section \<open>Properties\<close>

text \<open>
  C14. The word-skipping scan of \<open>GC_is_black_listed\<close> decides exactly the bit-by-bit
  definition: it returns 0 if and only if the first block is not on a normal black list
  and no block of the range (at least the first one is looked at, even for a range shorter
  than a block) is on a stack black list.
\<close>
theorem GC_is_black_listed_iff:
  "GC_is_black_listed b h len = 0 \<longleftrightarrow>
     \<not> normal_black b h \<and> \<not> (\<exists>k < max 1 (divHBLKSZ len). stack_black b (h + k))"
  using GC_is_black_listed_nonzero [of b h len] by blast

text \<open>
  C15. The guarantee documented at \<open>GC_is_black_listed\<close>: when the answer r is not 0 it lies
  after h, and every start between h and r is black listed for the same length as well, so
  that the allocator skips no usable position.
\<close>
theorem GC_is_black_listed_skips_only_black:
  assumes "GC_is_black_listed b h len = r" "r \<noteq> 0"
  shows "h < r \<and> \<not> (\<exists>s. h \<le> s \<and> s < r \<and> GC_is_black_listed b s len = 0)"
  using assms gc_bl.progress [of b h len] gc_bl.no_overshoot [of b h len] by metis

lemma promote_simps [simp]:
  "GC_old_stack_bl (GC_promote_black_lists sects hs b) = GC_incomplete_stack_bl b"
  "GC_incomplete_stack_bl (GC_promote_black_lists sects hs b) = zero_words"
  "GC_old_normal_bl (GC_promote_black_lists sects hs b) = GC_incomplete_normal_bl b"
  "GC_all_interior_pointers (GC_promote_black_lists sects hs b) = GC_all_interior_pointers b"
  by (simp_all add: GC_promote_black_lists_def Let_def)

text \<open>
  A false stack pointer p to an address without a block header is remembered for a full
  collection cycle: once recorded, the block it points to stays black listed until the
  current lists are promoted, and after the promotion as well.
\<close>
theorem false_stack_pointer_remembered:
  assumes "hdr_nil (hblk_addr h)" and "b' = GC_add_to_black_list_stack hdr_nil (hblk_addr h) b"
  shows "GC_is_black_listed b' h len = Suc h
    \<and> GC_is_black_listed (GC_promote_black_lists sects hs b') h len = Suc h"
proof -
  have "stack_black b' h" "stack_black (GC_promote_black_lists sects hs b') h"
    using assms by (simp_all add: stack_black_def GC_add_to_black_list_stack_def)
  then show ?thesis
    by (auto simp: GC_is_black_listed_find upt_conv_Cons)
qed



section \<open>A concrete black list\<close>

definition sample_bl :: black_lists where
  "sample_bl = GC_add_to_black_list_stack (\<lambda>_. True) (hblk_addr 5) (the (GC_bl_init True [True, True]))"

lemma stack_black_sample: "stack_black sample_bl h \<longleftrightarrow> h mod 2 ^ 18 = 5"
  by (auto simp: sample_bl_def stack_black_def GC_bl_init_def Let_def GC_add_to_black_list_stack_def PHT_HASH_hblk)

lemma normal_black_sample: "\<not> normal_black sample_bl h"
  by (simp add: sample_bl_def normal_black_def GC_bl_init_def Let_def GC_add_to_black_list_stack_def)

theorem GC_is_black_listed_skips_only_black_witness:
  "GC_is_black_listed sample_bl 3 (4 * HBLKSIZE) = 6 \<and>
   \<not> (\<exists>s. 3 \<le> s \<and> s < 6 \<and> GC_is_black_listed sample_bl s (4 * HBLKSIZE) = 0)"
proof -
  have "GC_is_black_listed sample_bl 3 (4 * HBLKSIZE) = 6"
    by (simp add: GC_is_black_listed_find stack_black_sample normal_black_sample divHBLKSZ_def
        HBLKSIZE_def upt_rec)
  then show ?thesis using GC_is_black_listed_skips_only_black [of sample_bl 3 "4 * HBLKSIZE" 6] by simp
qed

theorem false_stack_pointer_remembered_witness:
  "GC_is_black_listed (GC_promote_black_lists [(1, 40960)] 40960 sample_bl) 5 4096 = 6"
  using false_stack_pointer_remembered [of "\<lambda>_. True" 5 sample_bl "the (GC_bl_init True [True, True])"]
  by (simp add: sample_bl_def)

end
