(* ===== verification/Heap_Headers.thy ===== *)
theory Heap_Headers
  imports GC_Prelude
begin

text \<open>
  Block headers and the map from block addresses to headers (\<^verbatim>\<open>bdwgc/headers.c\<close>,
  \<^verbatim>\<open>include/private/gc_hdrs.h\<close>). The map is a two level tree: the high ten address bits
  select a bottom index (or the shared all-nil one), the next ten bits an entry of it. An
  entry is a header, or a number of at most \<open>MAX_JUMP\<close>: 0 for "no block starts here", and
  otherwise a forwarding count, the distance in blocks towards the start of a large object.
\<close>

section \<open>Headers\<close>

definition IGNORE_OFF_PAGE :: "8 word" where
  [gc_consts]: "IGNORE_OFF_PAGE = 1"

definition FREE_BLK :: "8 word" where
  [gc_consts]: "FREE_BLK = 4"

definition MAX_JUMP :: nat where
  [gc_consts]: "MAX_JUMP = HBLKSIZE - 1"

definition BOTTOM_SZ :: nat where
  [gc_consts]: "BOTTOM_SZ = 1024"

record hdr =
  hb_next :: hblk
  hb_prev :: hblk
  hb_block :: hblk
  hb_obj_kind :: nat
  hb_flags :: "8 word"
  hb_last_reclaimed :: nat
  hb_sz :: nat
  hb_descr :: nat
  hb_large_block :: bool
  hb_map :: "nat option"
  hb_n_marks :: nat
  hb_marks :: bit_words

definition zero_hdr :: hdr where
  "zero_hdr = \<lparr> hb_next = 0, hb_prev = 0, hb_block = 0, hb_obj_kind = 0, hb_flags = 0,
                hb_last_reclaimed = 0, hb_sz = 0, hb_descr = 0, hb_large_block = False,
                hb_map = None, hb_n_marks = 0, hb_marks = zero_words \<rparr>"

definition HBLK_IS_FREE :: "hdr \<Rightarrow> bool" where
  "HBLK_IS_FREE hh \<longleftrightarrow> hb_flags hh AND FREE_BLK \<noteq> 0"

definition blocks_of :: "hdr \<Rightarrow> nat" where
  "blocks_of hh = OBJ_SZ_TO_BLOCKS (hb_sz hh)"

lemma flag_free_iff: "(w :: 8 word) AND 4 \<noteq> 0 \<longleftrightarrow> bit w 2"
proof -
  have "(4 :: 8 word) = push_bit 2 1" by simp
  then show ?thesis by (metis and_exp_eq_0_iff_not_bit push_bit_of_1)
qed

lemma HBLK_IS_FREE_set [simp]: "HBLK_IS_FREE (hh\<lparr>hb_flags := f OR FREE_BLK\<rparr>)"
  unfolding HBLK_IS_FREE_def FREE_BLK_def flag_free_iff by (simp add: bit_simps)

lemma HBLK_IS_FREE_zero [simp]: "\<not> HBLK_IS_FREE (hh\<lparr>hb_flags := 0\<rparr>)"
  by (simp add: HBLK_IS_FREE_def)

lemma HBLK_IS_FREE_ignore [simp]: "\<not> HBLK_IS_FREE (hh\<lparr>hb_flags := IGNORE_OFF_PAGE\<rparr>)"
  by (simp add: HBLK_IS_FREE_def FREE_BLK_def IGNORE_OFF_PAGE_def)

section \<open>The two level index\<close>

datatype hdr_entry = Fwd nat | Hdr hdr

type_synonym bottom_index = "nat \<Rightarrow> hdr_entry"

text \<open>
  \<open>GC_all_bottom_indices\<close> lists the keys of the bottom indices along their ascending
  links; the descending links are the same list read backwards. \<open>hdr_free_list\<close> holds the
  recycled headers with their stale contents. \<open>scratch_ok i\<close> is the outcome of the i-th
  coming request to \<open>GC_scratch_alloc\<close>, which fails when the operating system refuses memory.
\<close>

record hdr_index =
  GC_top_index :: "nat \<Rightarrow> bottom_index option"
  GC_all_nils :: bottom_index
  GC_all_bottom_indices :: "nat list"
  hdr_free_list :: "hdr list"
  scratch_ok :: "nat \<Rightarrow> bool"

definition GC_find_header :: "'a hdr_index_scheme \<Rightarrow> hblk \<Rightarrow> hdr_entry" where
  "GC_find_header st h =
     (case GC_top_index st (h div BOTTOM_SZ) of
        None \<Rightarrow> GC_all_nils st (h mod BOTTOM_SZ)
      | Some bi \<Rightarrow> bi (h mod BOTTOM_SZ))"

abbreviation HDR :: "'a hdr_index_scheme \<Rightarrow> hblk \<Rightarrow> hdr_entry" where
  "HDR \<equiv> GC_find_header"

text \<open>Without a bottom index, \<open>SET_HDR\<close> writes into the shared all-nil index.\<close>

definition SET_HDR :: "hblk \<Rightarrow> hdr_entry \<Rightarrow> 'a hdr_index_scheme \<Rightarrow> 'a hdr_index_scheme" where
  "SET_HDR h e st =
     (case GC_top_index st (h div BOTTOM_SZ) of
        None \<Rightarrow> st\<lparr> GC_all_nils := (GC_all_nils st)(h mod BOTTOM_SZ := e) \<rparr>
      | Some bi \<Rightarrow> st\<lparr> GC_top_index :=
                        (GC_top_index st)(h div BOTTOM_SZ \<mapsto> bi(h mod BOTTOM_SZ := e)) \<rparr>)"

definition IS_FORWARDING_ADDR_OR_NIL :: "hdr_entry \<Rightarrow> bool" where
  "IS_FORWARDING_ADDR_OR_NIL e = (case e of Fwd _ \<Rightarrow> True | Hdr _ \<Rightarrow> False)"

definition GC_init_headers :: "'a hdr_index_scheme \<Rightarrow> 'a hdr_index_scheme" where
  "GC_init_headers st = st\<lparr> GC_all_nils := (\<lambda>_. Fwd 0), GC_top_index := (\<lambda>_. None) \<rparr>"

definition scratch_request :: "'a hdr_index_scheme \<Rightarrow> bool \<times> 'a hdr_index_scheme" where
  "scratch_request st =
     (scratch_ok st 0, st\<lparr> scratch_ok := (\<lambda>i. scratch_ok st (Suc i)) \<rparr>)"

definition alloc_hdr :: "'a hdr_index_scheme \<Rightarrow> hdr option \<times> 'a hdr_index_scheme" where
  "alloc_hdr st =
     (case hdr_free_list st of
        [] \<Rightarrow> (case scratch_request st of (ok, st') \<Rightarrow> (if ok then Some zero_hdr else None, st'))
      | hh # hhs \<Rightarrow> (Some hh, st\<lparr> hdr_free_list := hhs \<rparr>))"

definition free_hdr :: "hdr \<Rightarrow> 'a hdr_index_scheme \<Rightarrow> 'a hdr_index_scheme" where
  "free_hdr hh st = st\<lparr> hdr_free_list := hh # hdr_free_list st \<rparr>"

text \<open>The new index is linked in behind the last one with a smaller key.\<close>

fun link_bottom_index :: "nat \<Rightarrow> nat list \<Rightarrow> nat list" where
  "link_bottom_index hi [] = [hi]"
| "link_bottom_index hi (k # ks) = (if k < hi then k # link_bottom_index hi ks else hi # k # ks)"

definition get_index :: "hblk \<Rightarrow> 'a hdr_index_scheme \<Rightarrow> bool \<times> 'a hdr_index_scheme" where
  "get_index h st =
     (let hi = h div BOTTOM_SZ in
      if GC_top_index st hi \<noteq> None then (True, st)
      else case scratch_request st of
        (False, st') \<Rightarrow> (False, st')
      | (True, st') \<Rightarrow>
          (True, st'\<lparr> GC_top_index := (GC_top_index st')(hi \<mapsto> (\<lambda>_. Fwd 0)),
                      GC_all_bottom_indices := link_bottom_index hi (GC_all_bottom_indices st') \<rparr>))"

definition GC_install_header :: "hblk \<Rightarrow> 'a hdr_index_scheme \<Rightarrow> hdr option \<times> 'a hdr_index_scheme" where
  "GC_install_header h st =
     (case get_index h st of
        (False, st1) \<Rightarrow> (None, st1)
      | (True, st1) \<Rightarrow>
          (case alloc_hdr st1 of
             (None, st2) \<Rightarrow> (None, SET_HDR h (Fwd 0) st2)
           | (Some hh, st2) \<Rightarrow> (Some hh, SET_HDR h (Hdr hh) st2)))"

function install_counts_indices ::
    "hblk \<Rightarrow> addr \<Rightarrow> 'a hdr_index_scheme \<Rightarrow> bool \<times> 'a hdr_index_scheme" where
  "install_counts_indices hbp lim st =
     (if hblk_addr hbp < lim
      then (case get_index hbp st of
              (False, st') \<Rightarrow> (False, st')
            | (True, st') \<Rightarrow> install_counts_indices (hbp + BOTTOM_SZ) lim st')
      else (True, st))"
  by pat_completeness auto
termination
  by (relation "measure (\<lambda>(hbp, lim, st). lim - hblk_addr hbp)")
    (auto simp: hblk_addr_def HBLKSIZE_def BOTTOM_SZ_def)

function install_counts_entries ::
    "hblk \<Rightarrow> hblk \<Rightarrow> addr \<Rightarrow> 'a hdr_index_scheme \<Rightarrow> 'a hdr_index_scheme" where
  "install_counts_entries h hbp lim st =
     (if hblk_addr hbp < lim
      then install_counts_entries h (hbp + 1) lim
             (SET_HDR hbp (Fwd (if hbp - h > MAX_JUMP then MAX_JUMP else hbp - h)) st)
      else st)"
  by pat_completeness auto
termination
  by (relation "measure (\<lambda>(h, hbp, lim, st). lim - hblk_addr hbp)")
    (auto simp: hblk_addr_def HBLKSIZE_def)

definition GC_install_counts :: "hblk \<Rightarrow> nat \<Rightarrow> 'a hdr_index_scheme \<Rightarrow> bool \<times> 'a hdr_index_scheme" where
  "GC_install_counts h sz st =
     (case install_counts_indices h (hblk_addr h + sz) st of
        (False, st1) \<Rightarrow> (False, st1)
      | (True, st1) \<Rightarrow>
          (case get_index ((hblk_addr h + sz - 1) div HBLKSIZE) st1 of
             (False, st2) \<Rightarrow> (False, st2)
           | (True, st2) \<Rightarrow> (True, install_counts_entries h (h + 1) (hblk_addr h + sz) st2)))"

definition GC_remove_header :: "hblk \<Rightarrow> 'a hdr_index_scheme \<Rightarrow> 'a hdr_index_scheme" where
  "GC_remove_header h st =
     SET_HDR h (Fwd 0) (case HDR st h of Hdr hh \<Rightarrow> free_hdr hh st | Fwd _ \<Rightarrow> st)"

function remove_counts_entries :: "hblk \<Rightarrow> addr \<Rightarrow> 'a hdr_index_scheme \<Rightarrow> 'a hdr_index_scheme" where
  "remove_counts_entries hbp lim st =
     (if hblk_addr hbp < lim then remove_counts_entries (hbp + 1) lim (SET_HDR hbp (Fwd 0) st) else st)"
  by pat_completeness auto
termination
  by (relation "measure (\<lambda>(hbp, lim, st). lim - hblk_addr hbp)")
    (auto simp: hblk_addr_def HBLKSIZE_def)

definition GC_remove_counts :: "hblk \<Rightarrow> nat \<Rightarrow> 'a hdr_index_scheme \<Rightarrow> 'a hdr_index_scheme" where
  "GC_remove_counts h sz st = remove_counts_entries (h + 1) (hblk_addr h + sz) st"

declare install_counts_indices.simps [simp del] install_counts_entries.simps [simp del]
  remove_counts_entries.simps [simp del]

section \<open>Searching the index\<close>

text \<open>
  The inner loops run inside one bottom index. They stop at its ends; a free block of size
  0 would keep \<open>GC_next_used_block\<close> in place for ever, which is the result \<open>None\<close>.
\<close>

function prev_block_in :: "bottom_index \<Rightarrow> int \<Rightarrow> nat option" where
  "prev_block_in bi j =
     (if j < 0 then None
      else case bi (nat j) of
        Fwd k \<Rightarrow> (if k = 0 then prev_block_in bi (j - 1) else prev_block_in bi (j - int k))
      | Hdr _ \<Rightarrow> Some (nat j))"
  by pat_completeness auto
termination
  by (relation "measure (\<lambda>(bi, j). nat (j + 1))") auto

declare prev_block_in.simps [simp del]

fun prev_block_from :: "'a hdr_index_scheme \<Rightarrow> nat list \<Rightarrow> int \<Rightarrow> hblk" where
  "prev_block_from st [] j = 0"
| "prev_block_from st (k # ks) j =
     (case GC_top_index st k of
        None \<Rightarrow> 0
      | Some bi \<Rightarrow>
          (case prev_block_in bi j of
             Some i \<Rightarrow> k * BOTTOM_SZ + i
           | None \<Rightarrow> prev_block_from st ks (int BOTTOM_SZ - 1)))"

text \<open>The keys at most (below) \<open>hi\<close> in descending link order.\<close>

definition GC_prev_block :: "'a hdr_index_scheme \<Rightarrow> hblk \<Rightarrow> hblk" where
  "GC_prev_block st h =
     (let hi = h div BOTTOM_SZ;
          desc = dropWhile (\<lambda>k. k > hi) (rev (GC_all_bottom_indices st)) in
      if GC_top_index st hi = None
      then prev_block_from st desc (int BOTTOM_SZ - 1)
      else prev_block_from st desc (int (h mod BOTTOM_SZ)))"

partial_function (option) next_used_in :: "bottom_index \<Rightarrow> nat \<Rightarrow> nat option option" where
  "next_used_in bi j =
     (if j \<ge> BOTTOM_SZ then Some None
      else case bi j of
        Fwd _ \<Rightarrow> next_used_in bi (j + 1)
      | Hdr hh \<Rightarrow> (if HBLK_IS_FREE hh then next_used_in bi (j + divHBLKSZ (hb_sz hh))
                   else Some (Some j)))"

fun next_used_from :: "'a hdr_index_scheme \<Rightarrow> nat list \<Rightarrow> nat \<Rightarrow> hblk option" where
  "next_used_from st [] j = Some 0"
| "next_used_from st (k # ks) j =
     (case GC_top_index st k of
        None \<Rightarrow> Some 0
      | Some bi \<Rightarrow>
          (case next_used_in bi j of
             None \<Rightarrow> None
           | Some (Some i) \<Rightarrow> Some (k * BOTTOM_SZ + i)
           | Some None \<Rightarrow> next_used_from st ks 0))"

definition GC_next_used_block :: "'a hdr_index_scheme \<Rightarrow> hblk \<Rightarrow> hblk option" where
  "GC_next_used_block st h =
     (let hi = h div BOTTOM_SZ;
          asc = dropWhile (\<lambda>k. k < hi) (GC_all_bottom_indices st) in
      if GC_top_index st hi = None
      then next_used_from st asc 0
      else next_used_from st asc (h mod BOTTOM_SZ))"

text \<open>
  \<open>GC_apply_to_all_blocks\<close> applies a state transformer to every allocated block: the bottom
  indices upwards, the entries of each downwards. The entry is read from the current state,
  since the transformer may free blocks. \<open>None\<close> is an abort inside of the transformer.
\<close>

function apply_to_index ::
    "(hblk \<Rightarrow> 'a hdr_index_scheme \<Rightarrow> 'a hdr_index_scheme option) \<Rightarrow> nat \<Rightarrow> int
      \<Rightarrow> 'a hdr_index_scheme \<Rightarrow> 'a hdr_index_scheme option" where
  "apply_to_index fn key j st =
     (if j < 0 then Some st
      else case HDR st (key * BOTTOM_SZ + nat j) of
        Hdr hh \<Rightarrow>
          Option.bind (if HBLK_IS_FREE hh then Some st else fn (key * BOTTOM_SZ + nat j) st)
            (apply_to_index fn key (j - 1))
      | Fwd k \<Rightarrow> (if k = 0 then apply_to_index fn key (j - 1) st
                  else apply_to_index fn key (j - int k) st))"
  by pat_completeness auto
termination
  by (relation "measure (\<lambda>(fn, key, j, st). nat (j + 1))") auto

declare apply_to_index.simps [simp del]

definition GC_apply_to_all_blocks ::
    "(hblk \<Rightarrow> 'a hdr_index_scheme \<Rightarrow> 'a hdr_index_scheme option)
      \<Rightarrow> 'a hdr_index_scheme \<Rightarrow> 'a hdr_index_scheme option" where
  "GC_apply_to_all_blocks fn st =
     each (\<lambda>key. apply_to_index fn key (int BOTTOM_SZ - 1)) (GC_all_bottom_indices st) st"

text \<open>
  Following forwarding counts from inside a large object: the loop of
  \<open>GC_header_cache_miss\<close>. A count of 0 (no block at all) would never leave the loop.
\<close>

partial_function (option) forward_to_start ::
    "'a hdr_index_scheme \<Rightarrow> hblk \<Rightarrow> nat \<Rightarrow> (hblk \<times> hdr) option" where
  "forward_to_start st cur k =
     (case HDR st (cur - k) of
        Hdr hh \<Rightarrow> Some (cur - k, hh)
      | Fwd k' \<Rightarrow> forward_to_start st (cur - k) k')"

text \<open>
  The answer of \<open>GC_header_cache_miss\<close>: the block whose header is returned (0 for none),
  whether p goes to the black list, and whether the cache entry is filled.
\<close>

record cache_miss_result =
  cm_block :: hblk
  cm_black :: bool
  cm_cached :: bool

definition GC_header_cache_miss ::
    "bool \<Rightarrow> 'a hdr_index_scheme \<Rightarrow> addr \<Rightarrow> cache_miss_result option" where
  "GC_header_cache_miss interior st p =
     (let b = p div HBLKSIZE in
      case HDR st b of
        Fwd k \<Rightarrow>
          (if interior
           then (if k \<noteq> 0
                 then (case forward_to_start st b k of
                         None \<Rightarrow> None
                       | Some (cur, hh) \<Rightarrow>
                           (if hb_flags hh AND IGNORE_OFF_PAGE \<noteq> 0
                            then Some \<lparr> cm_block = 0, cm_black = False, cm_cached = False \<rparr>
                            else if HBLK_IS_FREE hh \<or> p - hblk_addr cur \<ge> hb_sz hh
                            then Some \<lparr> cm_block = 0, cm_black = True, cm_cached = False \<rparr>
                            else Some \<lparr> cm_block = cur, cm_black = False, cm_cached = False \<rparr>))
                 else Some \<lparr> cm_block = 0, cm_black = True, cm_cached = False \<rparr>)
           else Some \<lparr> cm_block = 0, cm_black = (k = 0), cm_cached = False \<rparr>)
      | Hdr hh \<Rightarrow>
          (if HBLK_IS_FREE hh
           then Some \<lparr> cm_block = 0, cm_black = True, cm_cached = False \<rparr>
           else Some \<lparr> cm_block = b, cm_black = False, cm_cached = True \<rparr>))"

section \<open>Well-formed indices\<close>

definition mapped :: "'a hdr_index_scheme \<Rightarrow> hblk \<Rightarrow> bool" where
  "mapped st h \<longleftrightarrow> GC_top_index st (h div BOTTOM_SZ) \<noteq> None"

definition index_wf :: "'a hdr_index_scheme \<Rightarrow> bool" where
  "index_wf st \<longleftrightarrow> sorted_wrt (<) (GC_all_bottom_indices st)
     \<and> set (GC_all_bottom_indices st) = {k. GC_top_index st k \<noteq> None}
     \<and> GC_all_nils st = (\<lambda>_. Fwd 0)"

lemma BOTTOM_SZ_pos [simp]: "0 < BOTTOM_SZ"
  by (simp add: BOTTOM_SZ_def)

lemma div_mod_BOTTOM_eq_iff:
  "h div BOTTOM_SZ = h' div BOTTOM_SZ \<and> h mod BOTTOM_SZ = h' mod BOTTOM_SZ \<longleftrightarrow> h = h'"
  by (metis div_mult_mod_eq)

lemma HDR_SET_HDR: "mapped st h \<Longrightarrow> HDR (SET_HDR h e st) h' = (if h' = h then e else HDR st h')"
  using div_mod_BOTTOM_eq_iff [of h' h]
  by (auto simp: mapped_def GC_find_header_def SET_HDR_def split: option.splits)

lemma HDR_unmapped: "index_wf st \<Longrightarrow> \<not> mapped st h \<Longrightarrow> HDR st h = Fwd 0"
  by (auto simp: index_wf_def mapped_def GC_find_header_def)

lemma HDR_Hdr_mapped: "index_wf st \<Longrightarrow> HDR st h = Hdr hh \<Longrightarrow> mapped st h"
  using HDR_unmapped [of st h] by auto

lemma mapped_SET_HDR [simp]: "mapped (SET_HDR h e st) h' = mapped st h'"
  by (auto simp: mapped_def SET_HDR_def split: option.splits)

lemma index_wf_SET_HDR [simp]: "mapped st h \<Longrightarrow> index_wf (SET_HDR h e st) = index_wf st"
  by (auto simp: mapped_def index_wf_def SET_HDR_def split: option.splits)

lemma SET_HDR_frame [simp]:
  "GC_all_bottom_indices (SET_HDR h e st) = GC_all_bottom_indices st"
  "hdr_free_list (SET_HDR h e st) = hdr_free_list st"
  "scratch_ok (SET_HDR h e st) = scratch_ok st"
  "hdr_index.more (SET_HDR h e st) = hdr_index.more st"
  by (auto simp: SET_HDR_def split: option.splits)

lemma HDR_cong: "GC_top_index st = GC_top_index st' \<Longrightarrow> GC_all_nils st = GC_all_nils st' \<Longrightarrow> HDR st = HDR st'"
  by (simp add: GC_find_header_def fun_eq_iff split: option.split)

lemma HDR_frame [simp]:
  "HDR (st\<lparr>hdr_free_list := x\<rparr>) = HDR st"
  "HDR (st\<lparr>scratch_ok := y\<rparr>) = HDR st"
  "HDR (st\<lparr>GC_all_bottom_indices := z\<rparr>) = HDR st"
  by (rule HDR_cong; simp)+

lemma free_hdr_simps [simp]:
  "HDR (free_hdr hh st) = HDR st" "mapped (free_hdr hh st) = mapped st"
  "index_wf (free_hdr hh st) = index_wf st"
  "hdr_index.more (free_hdr hh st) = hdr_index.more st"
  by (auto simp: free_hdr_def mapped_def index_wf_def fun_eq_iff)

lemma set_link_bottom_index [simp]: "set (link_bottom_index hi ks) = insert hi (set ks)"
  by (induction ks) auto

lemma sorted_link_bottom_index:
  "sorted_wrt (<) ks \<Longrightarrow> hi \<notin> set ks \<Longrightarrow> sorted_wrt (<) (link_bottom_index hi ks)"
  by (induction ks) (auto simp: not_less le_less)

lemma scratch_request_simps:
  assumes "scratch_request st = (ok, st')"
  shows "HDR st' = HDR st" "mapped st' = mapped st" "index_wf st' = index_wf st"
    "hdr_index.more st' = hdr_index.more st" "GC_all_bottom_indices st' = GC_all_bottom_indices st"
    "hdr_free_list st' = hdr_free_list st" "GC_top_index st' = GC_top_index st"
    "GC_all_nils st' = GC_all_nils st"
  using assms by (auto simp: scratch_request_def mapped_def index_wf_def
      fun_eq_iff split: list.splits)

lemma get_index_spec:
  assumes "get_index h st = (ok, st')" "index_wf st"
  shows "HDR st' = HDR st" "index_wf st'" "mapped st b \<Longrightarrow> mapped st' b"
    "ok \<Longrightarrow> mapped st' h" "hdr_index.more st' = hdr_index.more st"
    "hdr_free_list st' = hdr_free_list st" "mapped st h \<Longrightarrow> st' = st \<and> ok"
proof -
  obtain ok2 st2 where r: "scratch_request st = (ok2, st2)" by fastforce
  note s = scratch_request_simps [OF r]
  show "HDR st' = HDR st" using assms s r
    by (auto simp: get_index_def Let_def index_wf_def GC_find_header_def fun_eq_iff
        split: bool.splits if_splits option.splits)
  show "index_wf st'" using assms s r
    by (auto simp: get_index_def Let_def index_wf_def
        intro!: sorted_link_bottom_index split: bool.splits if_splits)
  show "mapped st b \<Longrightarrow> mapped st' b" using assms s r
    by (auto simp: get_index_def Let_def mapped_def split: bool.splits if_splits)
  show "ok \<Longrightarrow> mapped st' h" using assms s r
    by (auto simp: get_index_def Let_def mapped_def split: bool.splits if_splits)
  show "hdr_index.more st' = hdr_index.more st" "hdr_free_list st' = hdr_free_list st"
    using assms s r by (auto simp: get_index_def Let_def split: bool.splits if_splits)
  show "mapped st h \<Longrightarrow> st' = st \<and> ok"
    using assms(1) by (auto simp: get_index_def Let_def mapped_def)
qed

lemma alloc_hdr_spec:
  assumes "alloc_hdr st = (r, st')"
  shows "HDR st' = HDR st" "mapped st' = mapped st" "index_wf st' = index_wf st"
    "hdr_index.more st' = hdr_index.more st"
proof -
  obtain ok2 st2 where r: "scratch_request st = (ok2, st2)" by fastforce
  note s = scratch_request_simps [OF r]
  show "HDR st' = HDR st" "mapped st' = mapped st" "index_wf st' = index_wf st"
    "hdr_index.more st' = hdr_index.more st"
    using assms r s by (auto simp: alloc_hdr_def mapped_def index_wf_def
        fun_eq_iff split: list.splits)
qed

lemma GC_install_header_spec:
  assumes "GC_install_header h st = (r, st')" "index_wf st"
  shows "index_wf st'" "hdr_index.more st' = hdr_index.more st"
    "r = Some hh \<Longrightarrow> HDR st' = (HDR st)(h := Hdr hh)"
    "r = None \<Longrightarrow> HDR st h = Fwd 0 \<Longrightarrow> HDR st' = HDR st"
proof -
  obtain ok1 st1 where g: "get_index h st = (ok1, st1)" by fastforce
  obtain r2 st2 where a: "alloc_hdr st1 = (r2, st2)" by fastforce
  note gs = get_index_spec [OF g assms(2)] and as = alloc_hdr_spec [OF a]
  note gi = assms(1) [unfolded GC_install_header_def g prod.case]
  have m: "ok1 \<Longrightarrow> mapped st2 h" using gs as by simp
  show "index_wf st'" "hdr_index.more st' = hdr_index.more st"
    using gi gs as a m by (auto split: bool.splits option.splits)
  show "r = Some hh \<Longrightarrow> HDR st' = (HDR st)(h := Hdr hh)"
    using gi gs as a m by (auto simp: HDR_SET_HDR fun_eq_iff split: bool.splits option.splits)
  show "r = None \<Longrightarrow> HDR st h = Fwd 0 \<Longrightarrow> HDR st' = HDR st"
    using gi gs as a m by (auto simp: HDR_SET_HDR fun_eq_iff split: bool.splits option.splits)
qed

lemma GC_remove_header_spec:
  assumes "mapped st h"
  shows "HDR (GC_remove_header h st) = (HDR st)(h := Fwd 0)"
    "index_wf (GC_remove_header h st) = index_wf st"
    "mapped (GC_remove_header h st) = mapped st"
    "hdr_index.more (GC_remove_header h st) = hdr_index.more st"
proof -
  define st1 where "st1 = (case HDR st h of Hdr hh \<Rightarrow> free_hdr hh st | Fwd _ \<Rightarrow> st)"
  have "HDR st1 = HDR st" "mapped st1 = mapped st" "index_wf st1 = index_wf st"
      "hdr_index.more st1 = hdr_index.more st"
    by (auto simp: st1_def split: hdr_entry.splits)
  moreover have "GC_remove_header h st = SET_HDR h (Fwd 0) st1"
    by (simp add: GC_remove_header_def st1_def)
  ultimately show "HDR (GC_remove_header h st) = (HDR st)(h := Fwd 0)"
    "index_wf (GC_remove_header h st) = index_wf st"
    "mapped (GC_remove_header h st) = mapped st"
    "hdr_index.more (GC_remove_header h st) = hdr_index.more st"
    using assms by (auto simp: HDR_SET_HDR fun_eq_iff)
qed

section \<open>Installing and removing forwarding counts\<close>

lemma hblk_addr_mono: "a \<le> b \<Longrightarrow> hblk_addr a \<le> hblk_addr b"
  by (simp add: hblk_addr_def)

definition count_entry :: "hblk \<Rightarrow> hblk \<Rightarrow> hdr_entry" where
  "count_entry h b = Fwd (min (b - h) MAX_JUMP)"

lemma install_counts_entries_spec:
  assumes "\<And>b. hbp \<le> b \<Longrightarrow> hblk_addr b < lim \<Longrightarrow> mapped st b"
  shows "HDR (install_counts_entries h hbp lim st) =
      (\<lambda>b. if hbp \<le> b \<and> hblk_addr b < lim then count_entry h b else HDR st b)
    \<and> index_wf (install_counts_entries h hbp lim st) = index_wf st
    \<and> mapped (install_counts_entries h hbp lim st) = mapped st
    \<and> hdr_index.more (install_counts_entries h hbp lim st) = hdr_index.more st"
  using assms
proof (induction h hbp lim st rule: install_counts_entries.induct)
  case (1 h hbp lim st)
  show ?case
  proof (cases "hblk_addr hbp < lim")
    case True
    let ?st = "SET_HDR hbp (count_entry h hbp) st"
    have e: "Fwd (if hbp - h > MAX_JUMP then MAX_JUMP else hbp - h) = count_entry h hbp"
      by (simp add: count_entry_def min_def)
    have m: "mapped st hbp" using "1.prems" True by simp
    have IH: "HDR (install_counts_entries h (hbp + 1) lim ?st) =
      (\<lambda>b. if hbp + 1 \<le> b \<and> hblk_addr b < lim then count_entry h b else HDR ?st b)
      \<and> index_wf (install_counts_entries h (hbp + 1) lim ?st) = index_wf ?st
      \<and> mapped (install_counts_entries h (hbp + 1) lim ?st) = mapped ?st
      \<and> hdr_index.more (install_counts_entries h (hbp + 1) lim ?st) = hdr_index.more ?st"
      by (rule "1.IH" [OF True, unfolded e]) (use "1.prems" in auto)
    show ?thesis
      unfolding install_counts_entries.simps [of h hbp] e using IH True m
      by (auto simp: HDR_SET_HDR fun_eq_iff)
  next
    case False
    then have "\<not> hblk_addr b < lim" if "hbp \<le> b" for b
      using that hblk_addr_mono [of hbp b] by simp
    with False show ?thesis
      by (auto simp: install_counts_entries.simps [of h hbp] fun_eq_iff)
  qed
qed

lemma remove_counts_entries_spec:
  assumes "\<And>b. hbp \<le> b \<Longrightarrow> hblk_addr b < lim \<Longrightarrow> mapped st b"
  shows "HDR (remove_counts_entries hbp lim st) =
      (\<lambda>b. if hbp \<le> b \<and> hblk_addr b < lim then Fwd 0 else HDR st b)
    \<and> index_wf (remove_counts_entries hbp lim st) = index_wf st
    \<and> mapped (remove_counts_entries hbp lim st) = mapped st
    \<and> hdr_index.more (remove_counts_entries hbp lim st) = hdr_index.more st"
  using assms
proof (induction hbp lim st rule: remove_counts_entries.induct)
  case (1 hbp lim st)
  show ?case
  proof (cases "hblk_addr hbp < lim")
    case True
    let ?st = "SET_HDR hbp (Fwd 0) st"
    have m: "mapped st hbp" using "1.prems" True by simp
    have IH: "HDR (remove_counts_entries (hbp + 1) lim ?st) =
      (\<lambda>b. if hbp + 1 \<le> b \<and> hblk_addr b < lim then Fwd 0 else HDR ?st b)
      \<and> index_wf (remove_counts_entries (hbp + 1) lim ?st) = index_wf ?st
      \<and> mapped (remove_counts_entries (hbp + 1) lim ?st) = mapped ?st
      \<and> hdr_index.more (remove_counts_entries (hbp + 1) lim ?st) = hdr_index.more ?st"
      by (rule "1.IH" [OF True]) (use "1.prems" in auto)
    show ?thesis
      unfolding remove_counts_entries.simps [of hbp] using IH True m
      by (auto simp: HDR_SET_HDR fun_eq_iff)
  next
    case False
    then have "\<not> hblk_addr b < lim" if "hbp \<le> b" for b
      using that hblk_addr_mono [of hbp b] by simp
    with False show ?thesis
      by (auto simp: remove_counts_entries.simps [of hbp] fun_eq_iff)
  qed
qed

lemma install_counts_indices_spec:
  assumes "install_counts_indices hbp lim st = (ok, st')" "index_wf st"
  shows "HDR st' = HDR st \<and> index_wf st' \<and> (\<forall>b. mapped st b \<longrightarrow> mapped st' b)
    \<and> hdr_index.more st' = hdr_index.more st
    \<and> (ok \<longrightarrow> (\<forall>k. hblk_addr (hbp + k * BOTTOM_SZ) < lim \<longrightarrow> mapped st' (hbp + k * BOTTOM_SZ)))"
  using assms
proof (induction hbp lim st arbitrary: ok st' rule: install_counts_indices.induct)
  case (1 hbp lim st)
  show ?case
  proof (cases "hblk_addr hbp < lim")
    case True
    obtain ok1 st1 where g: "get_index hbp st = (ok1, st1)" by fastforce
    note gs = get_index_spec [OF g "1.prems"(2)]
    show ?thesis
    proof (cases ok1)
      case False
      with True g "1.prems"(1) have "ok = False" "st' = st1"
        by (simp_all add: install_counts_indices.simps [of hbp])
      with gs show ?thesis by simp
    next
      case ok1: True
      with True g "1.prems"(1) have r: "install_counts_indices (hbp + BOTTOM_SZ) lim st1 = (ok, st')"
        by (simp add: install_counts_indices.simps [of hbp])
      note IH = "1.IH" [OF True g [symmetric] _ r gs(2)]
      have "mapped st' (hbp + k * BOTTOM_SZ)" if "ok" "hblk_addr (hbp + k * BOTTOM_SZ) < lim" for k
        using that IH gs ok1 by (cases k) (auto simp: add.assoc)
      with IH gs ok1 show ?thesis by auto
    qed
  next
    case False
    then have "\<not> hblk_addr (hbp + k * BOTTOM_SZ) < lim" for k
      by (simp add: hblk_addr_def add_mult_distrib)
    with False "1.prems" show ?thesis
      by (auto simp: install_counts_indices.simps [of hbp])
  qed
qed

lemma range_mapped:
  assumes idx: "\<And>k. hblk_addr (h + k * BOTTOM_SZ) < hblk_addr h + sz \<Longrightarrow> mapped st (h + k * BOTTOM_SZ)"
    and last: "mapped st ((hblk_addr h + sz - 1) div HBLKSIZE)"
    and b: "h \<le> b" "hblk_addr b < hblk_addr h + sz"
  shows "mapped st b"
proof -
  define L where "L = (hblk_addr h + sz - 1) div HBLKSIZE"
  define k where "k = (b - h) div BOTTOM_SZ"
  have bL: "b \<le> L" using b(2) unfolding L_def hblk_addr_def
    by (simp add: less_eq_div_iff_mult_less_eq)
  have k: "h + k * BOTTOM_SZ \<le> b" "b < h + k * BOTTOM_SZ + BOTTOM_SZ"
    using b(1) div_mult_mod_eq [of "b - h" BOTTOM_SZ] mod_less_divisor [OF BOTTOM_SZ_pos, of "b - h"]
    unfolding k_def by linarith+
  have m1: "mapped st (h + k * BOTTOM_SZ)"
  proof (rule idx)
    have "hblk_addr (h + k * BOTTOM_SZ) \<le> hblk_addr b" using k(1) by (simp add: hblk_addr_def)
    with b(2) show "hblk_addr (h + k * BOTTOM_SZ) < hblk_addr h + sz" by simp
  qed
  consider "b div BOTTOM_SZ = (h + k * BOTTOM_SZ) div BOTTOM_SZ"
    | "b div BOTTOM_SZ = (h + (k + 1) * BOTTOM_SZ) div BOTTOM_SZ"
    using k unfolding BOTTOM_SZ_def by (simp only: add_mult_distrib) linarith
  then show ?thesis
  proof cases
    case 1
    with m1 show ?thesis by (simp add: mapped_def)
  next
    case 2
    show ?thesis
    proof (cases "h + (k + 1) * BOTTOM_SZ \<le> L")
      case True
      have "mapped st (h + (k + 1) * BOTTOM_SZ)"
      proof (rule idx)
        have "(h + (k + 1) * BOTTOM_SZ) * HBLKSIZE \<le> L * HBLKSIZE" using True by (rule mult_le_mono1)
        also have "\<dots> \<le> hblk_addr h + sz - 1" unfolding L_def by simp
        also have "\<dots> < hblk_addr h + sz" using b by (simp add: hblk_addr_def)
        finally show "hblk_addr (h + (k + 1) * BOTTOM_SZ) < hblk_addr h + sz"
          by (simp add: hblk_addr_def)
      qed
      with 2 show ?thesis by (simp add: mapped_def)
    next
      case False
      then have "L div BOTTOM_SZ \<le> (h + (k + 1) * BOTTOM_SZ) div BOTTOM_SZ"
        by (intro div_le_mono) simp
      moreover have "b div BOTTOM_SZ \<le> L div BOTTOM_SZ" by (rule div_le_mono [OF bL])
      ultimately have "L div BOTTOM_SZ = b div BOTTOM_SZ" using 2 by simp
      with last show ?thesis by (simp add: mapped_def L_def)
    qed
  qed
qed

lemma GC_install_counts_spec:
  assumes "GC_install_counts h sz st = (ok, st')" "index_wf st"
  shows "index_wf st'" "hdr_index.more st' = hdr_index.more st"
    "ok \<Longrightarrow> HDR st' = (\<lambda>b. if h < b \<and> hblk_addr b < hblk_addr h + sz then count_entry h b else HDR st b)"
    "\<not> ok \<Longrightarrow> HDR st' = HDR st"
proof -
  obtain ok1 st1 where i: "install_counts_indices h (hblk_addr h + sz) st = (ok1, st1)" by fastforce
  note ix = install_counts_indices_spec [OF i assms(2)]
  obtain ok2 st2 where g: "get_index ((hblk_addr h + sz - 1) div HBLKSIZE) st1 = (ok2, st2)" by fastforce
  have wf1: "index_wf st1" using ix by simp
  note gs = get_index_spec [OF g wf1]
  note def = assms(1) [unfolded GC_install_counts_def i prod.case]
  have m: "mapped st2 b" if "ok1" "ok2" "h + 1 \<le> b" "hblk_addr b < hblk_addr h + sz" for b
    by (rule range_mapped [of h sz]) (use that ix gs in auto)
  note es = install_counts_entries_spec [of "h + 1" "hblk_addr h + sz" st2 h]
  show "index_wf st'" "hdr_index.more st' = hdr_index.more st"
    "ok \<Longrightarrow> HDR st' = (\<lambda>b. if h < b \<and> hblk_addr b < hblk_addr h + sz then count_entry h b else HDR st b)"
    "\<not> ok \<Longrightarrow> HDR st' = HDR st"
    using def ix gs g es m by (auto simp: Suc_le_eq split: bool.splits)
qed

lemma GC_remove_counts_spec:
  assumes "\<And>b. h < b \<Longrightarrow> hblk_addr b < hblk_addr h + sz \<Longrightarrow> mapped st b"
  shows "HDR (GC_remove_counts h sz st) =
      (\<lambda>b. if h < b \<and> hblk_addr b < hblk_addr h + sz then Fwd 0 else HDR st b)"
    "index_wf (GC_remove_counts h sz st) = index_wf st"
    "mapped (GC_remove_counts h sz st) = mapped st"
    "hdr_index.more (GC_remove_counts h sz st) = hdr_index.more st"
  using remove_counts_entries_spec [of "h + 1" "hblk_addr h + sz" st] assms
  by (auto simp: GC_remove_counts_def Suc_le_eq)

section \<open>The layout of the heap\<close>

text \<open>
  A header describes the blocks from its own up to \<open>blocks_of\<close> of them. Behind an allocated
  header stand forwarding counts, behind a free one nothing, and every forwarding count
  belongs to an allocated header.
\<close>

definition layout_ok :: "'a hdr_index_scheme \<Rightarrow> bool" where
  "layout_ok st \<longleftrightarrow>
     (\<forall>h hh. HDR st h = Hdr hh \<longrightarrow> 0 < blocks_of hh \<and>
        (\<forall>b. h < b \<and> b < h + blocks_of hh \<longrightarrow>
           HDR st b = (if HBLK_IS_FREE hh then Fwd 0 else count_entry h b)))
   \<and> (\<forall>b k. HDR st b = Fwd k \<and> 0 < k \<longrightarrow>
        (\<exists>h hh. HDR st h = Hdr hh \<and> \<not> HBLK_IS_FREE hh \<and> h < b \<and> b < h + blocks_of hh))"

lemma layout_inside:
  "layout_ok st \<Longrightarrow> HDR st h = Hdr hh \<Longrightarrow> h < b \<Longrightarrow> b < h + blocks_of hh \<Longrightarrow>
     HDR st b = (if HBLK_IS_FREE hh then Fwd 0 else count_entry h b)"
  unfolding layout_ok_def by blast

lemma layout_blocks_pos: "layout_ok st \<Longrightarrow> HDR st h = Hdr hh \<Longrightarrow> 0 < blocks_of hh"
  unfolding layout_ok_def by blast

lemma layout_Fwd_owner:
  assumes "layout_ok st" "HDR st b = Fwd k" "0 < k"
  obtains h hh where "HDR st h = Hdr hh" "\<not> HBLK_IS_FREE hh" "h < b" "b < h + blocks_of hh"
    "k = min (b - h) MAX_JUMP"
proof -
  obtain h hh where o: "HDR st h = Hdr hh" "\<not> HBLK_IS_FREE hh" "h < b" "b < h + blocks_of hh"
    using assms unfolding layout_ok_def by blast
  moreover have "k = min (b - h) MAX_JUMP"
    using layout_inside [OF assms(1) o(1,3,4)] o(2) assms(2) by (simp add: count_entry_def)
  ultimately show ?thesis using that by blast
qed

text \<open>Two headers never overlap: each block has at most one owner.\<close>

lemma layout_disjoint:
  assumes "layout_ok st" "HDR st h = Hdr hh" "HDR st h' = Hdr hh'" "h < h'"
  shows "h + blocks_of hh \<le> h'"
proof (rule ccontr)
  assume "\<not> h + blocks_of hh \<le> h'"
  then have "HDR st h' = (if HBLK_IS_FREE hh then Fwd 0 else count_entry h h')"
    using layout_inside [OF assms(1,2,4)] by simp
  with assms(3) show False by (simp add: count_entry_def split: if_splits)
qed

lemma forward_to_start_counts:
  assumes hh: "HDR st h = Hdr hh"
    and counts: "\<And>c. h < c \<Longrightarrow> c \<le> b \<Longrightarrow> HDR st c = count_entry h c"
    and b: "h < b"
  shows "forward_to_start st b (min (b - h) MAX_JUMP) = Some (h, hh)"
  using b counts
proof (induction "b - h" arbitrary: b rule: less_induct)
  case less
  show ?case
  proof (cases "b - h \<le> MAX_JUMP")
    case True
    then show ?thesis using less.prems hh
      by (subst forward_to_start.simps) simp
  next
    case False
    let ?c = "b - MAX_JUMP"
    have c: "h < ?c" "?c < b" using False less.prems by (auto simp: MAX_JUMP_def HBLKSIZE_def)
    then have "HDR st ?c = Fwd (min (?c - h) MAX_JUMP)"
      using less.prems(2) [of ?c] by (simp add: count_entry_def)
    moreover have "forward_to_start st ?c (min (?c - h) MAX_JUMP) = Some (h, hh)"
      by (rule less.hyps) (use c less.prems in auto)
    ultimately show ?thesis using False
      by (subst forward_to_start.simps) (simp add: min_def)
  qed
qed

text \<open>The jump from a forwarding count skips no header.\<close>

lemma jump_skips_no_header:
  assumes "layout_ok st" "HDR st b = Fwd k" "0 < k" "b < c + k" "c \<le> b"
  shows "HDR st c \<noteq> Hdr hh"
proof -
  obtain h hh' where o: "HDR st h = Hdr hh'" "\<not> HBLK_IS_FREE hh'" "h < b" "b < h + blocks_of hh'"
      "k = min (b - h) MAX_JUMP"
    using layout_Fwd_owner [OF assms(1-3)] by blast
  then have "h < c" using assms(4) by linarith
  then have "HDR st c = count_entry h c"
    using layout_inside [OF assms(1) o(1), of c] o assms(5) by simp
  then show ?thesis by (simp add: count_entry_def)
qed

section \<open>Correctness of the searches\<close>

lemma prev_block_in_spec:
  assumes "layout_ok st" "GC_top_index st key = Some bi" "j < int BOTTOM_SZ"
  shows "case prev_block_in bi j of
      Some i \<Rightarrow> int i \<le> j \<and> (\<exists>hh. HDR st (key * BOTTOM_SZ + i) = Hdr hh)
                \<and> (\<forall>c hh. i < c \<and> int c \<le> j \<longrightarrow> HDR st (key * BOTTOM_SZ + c) \<noteq> Hdr hh)
    | None \<Rightarrow> (\<forall>c hh. int c \<le> j \<longrightarrow> HDR st (key * BOTTOM_SZ + c) \<noteq> Hdr hh)"
  using assms(3)
proof (induction "nat (j + 1)" arbitrary: j rule: less_induct)
  case less
  have look: "HDR st (key * BOTTOM_SZ + c) = bi c" if "int c \<le> j" for c
    using that less.prems assms(2) by (simp add: GC_find_header_def)
  show ?case
  proof (cases "j < 0")
    case True
    then show ?thesis by (simp add: prev_block_in.simps [of bi j])
  next
    case False
    note j0 = False
    have bj: "HDR st (key * BOTTOM_SZ + nat j) = bi (nat j)" using look [of "nat j"] False by simp
    show ?thesis
    proof (cases "bi (nat j)")
      case (Hdr hh)
      with bj False show ?thesis by (auto simp: prev_block_in.simps [of bi j])
    next
      case (Fwd k)
      define j' where "j' = (if k = 0 then j - 1 else j - int k)"
      have lt: "j' < j" using j0 by (simp add: j'_def)
      have rec: "prev_block_in bi j = prev_block_in bi j'"
        using j0 Fwd by (simp add: prev_block_in.simps [of bi j] j'_def)
      have none: "HDR st (key * BOTTOM_SZ + c) \<noteq> Hdr hh" if "j' < int c" "int c \<le> j" for c hh
      proof (cases "k = 0")
        case True
        with that have "c = nat j" by (auto simp: j'_def)
        with bj Fwd show ?thesis by simp
      next
        case False
        show ?thesis
          by (rule jump_skips_no_header [OF assms(1), of "key * BOTTOM_SZ + nat j" k])
            (use False bj Fwd that j0 in \<open>auto simp: j'_def\<close>)
      qed
      have IH: "case prev_block_in bi j' of
          Some i \<Rightarrow> int i \<le> j' \<and> (\<exists>hh. HDR st (key * BOTTOM_SZ + i) = Hdr hh)
                    \<and> (\<forall>c hh. i < c \<and> int c \<le> j' \<longrightarrow> HDR st (key * BOTTOM_SZ + c) \<noteq> Hdr hh)
        | None \<Rightarrow> (\<forall>c hh. int c \<le> j' \<longrightarrow> HDR st (key * BOTTOM_SZ + c) \<noteq> Hdr hh)"
        by (rule less.hyps) (use lt j0 less.prems in auto)
      show ?thesis
      proof (cases "prev_block_in bi j'")
        case None
        with IH rec none show ?thesis by simp (metis not_le)
      next
        case (Some i)
        with IH rec none lt show ?thesis by simp (metis (no_types, lifting) not_le order.trans order_less_imp_le)
      qed
    qed
  qed
qed

definition is_Hdr :: "hdr_entry \<Rightarrow> bool" where
  "is_Hdr e = (case e of Hdr _ \<Rightarrow> True | Fwd _ \<Rightarrow> False)"

lemma is_Hdr_iff: "is_Hdr e \<longleftrightarrow> (\<exists>hh. e = Hdr hh)"
  by (cases e) (auto simp: is_Hdr_def)

text \<open>The blocks that lie below position \<open>j\<close> of the first index, or in a later one.\<close>

fun below :: "nat list \<Rightarrow> int \<Rightarrow> hblk \<Rightarrow> bool" where
  "below [] j b = False"
| "below (k # ks) j b \<longleftrightarrow>
     b div BOTTOM_SZ = k \<and> int (b mod BOTTOM_SZ) \<le> j \<or> b div BOTTOM_SZ \<in> set ks"

lemma below_top: "below ks (int BOTTOM_SZ - 1) b \<longleftrightarrow> b div BOTTOM_SZ \<in> set ks"
  using mod_less_divisor [OF BOTTOM_SZ_pos, of b] by (cases ks) auto

lemma bottom_index_order: "b div BOTTOM_SZ < k \<Longrightarrow> b < k * BOTTOM_SZ + i"
  by (simp add: div_less_iff_less_mult trans_less_add1)

lemma div_mod_BOTTOM [simp]: "i < BOTTOM_SZ \<Longrightarrow> (k * BOTTOM_SZ + i) div BOTTOM_SZ = k"
  "i < BOTTOM_SZ \<Longrightarrow> (k * BOTTOM_SZ + i) mod BOTTOM_SZ = i"
  by (simp_all add: BOTTOM_SZ_def)

lemma index_range_iff:
  "k * BOTTOM_SZ \<le> b \<and> b < BOTTOM_SZ + k * BOTTOM_SZ \<longleftrightarrow> b div BOTTOM_SZ = k"
  unfolding BOTTOM_SZ_def by linarith

lemma div_mod_le_iff:
  fixes b h n :: nat
  shows "b div n = h div n \<and> b mod n \<le> h mod n \<or> b div n < h div n \<longleftrightarrow> b \<le> h"
proof (cases "b div n = h div n")
  case True
  have "b = b div n * n + b mod n" by simp
  moreover have "h = b div n * n + h mod n" unfolding True by simp
  ultimately have "b \<le> h \<longleftrightarrow> b mod n \<le> h mod n" by linarith
  with True show ?thesis by simp
next
  case False
  then show ?thesis using div_le_mono [of b h n] div_le_mono [of h b n] by linarith
qed

lemma prev_block_from_spec:
  assumes "layout_ok st" "sorted_wrt (>) ks" "\<And>k. k \<in> set ks \<Longrightarrow> GC_top_index st k \<noteq> None"
    "j < int BOTTOM_SZ"
  defines "hits \<equiv> {b. below ks j b \<and> is_Hdr (HDR st b)}"
  shows "(hits = {} \<longrightarrow> prev_block_from st ks j = 0)
       \<and> (hits \<noteq> {} \<longrightarrow> prev_block_from st ks j \<in> hits \<and> (\<forall>b \<in> hits. b \<le> prev_block_from st ks j))"
  using assms(2-4) unfolding hits_def
proof (induction ks arbitrary: j)
  case Nil
  then show ?case by simp
next
  case (Cons k ks)
  let ?hits = "\<lambda>ks j. {b. below ks j b \<and> is_Hdr (HDR st b)}"
  obtain bi where bi: "GC_top_index st k = Some bi" using Cons.prems(2) by auto
  have split: "b = k * BOTTOM_SZ + b mod BOTTOM_SZ" if "b div BOTTOM_SZ = k" for b
    using div_mult_mod_eq [of b BOTTOM_SZ] that by simp
  have lower: "b div BOTTOM_SZ < k" if "b div BOTTOM_SZ \<in> set ks" for b
    using that Cons.prems(1) by auto
  note pin = prev_block_in_spec [OF assms(1) bi Cons.prems(3)]
  show ?case
  proof (cases "prev_block_in bi j")
    case None
    have "is_Hdr (HDR st b) \<Longrightarrow> below (k # ks) j b \<longleftrightarrow> below ks (int BOTTOM_SZ - 1) b" for b
      using pin None split [of b] by (auto simp: is_Hdr_iff below_top dest: lower)
    then have "?hits (k # ks) j = ?hits ks (int BOTTOM_SZ - 1)" by auto
    moreover have "prev_block_from st (k # ks) j = prev_block_from st ks (int BOTTOM_SZ - 1)"
      using None bi by simp
    moreover have "(?hits ks (int BOTTOM_SZ - 1) = {} \<longrightarrow> prev_block_from st ks (int BOTTOM_SZ - 1) = 0)
       \<and> (?hits ks (int BOTTOM_SZ - 1) \<noteq> {} \<longrightarrow> prev_block_from st ks (int BOTTOM_SZ - 1) \<in> ?hits ks (int BOTTOM_SZ - 1)
         \<and> (\<forall>b \<in> ?hits ks (int BOTTOM_SZ - 1). b \<le> prev_block_from st ks (int BOTTOM_SZ - 1)))"
      by (rule Cons.IH) (use Cons.prems in auto)
    ultimately show ?thesis by simp
  next
    case (Some i)
    then have i: "int i \<le> j" "is_Hdr (HDR st (k * BOTTOM_SZ + i))"
        "\<And>c. i < c \<Longrightarrow> int c \<le> j \<Longrightarrow> \<not> is_Hdr (HDR st (k * BOTTOM_SZ + c))"
      using pin by (auto simp: is_Hdr_iff)
    have r: "prev_block_from st (k # ks) j = k * BOTTOM_SZ + i" using Some bi by simp
    have iB: "i < BOTTOM_SZ" using i(1) Cons.prems(3) by simp
    have "b \<le> k * BOTTOM_SZ + i" if b: "below (k # ks) j b" "is_Hdr (HDR st b)" for b
    proof (cases "b div BOTTOM_SZ = k")
      case True
      have "\<not> i < b mod BOTTOM_SZ"
        using i(3) [of "b mod BOTTOM_SZ"] b split [OF True] True lower [of b] by auto
      with split [OF True] show ?thesis by linarith
    next
      case False
      with b have "b div BOTTOM_SZ < k" using lower [of b] by simp
      then show ?thesis using bottom_index_order [of b k i] by simp
    qed
    then have ub: "\<forall>b \<in> ?hits (k # ks) j. b \<le> k * BOTTOM_SZ + i" by blast
    have mem: "k * BOTTOM_SZ + i \<in> ?hits (k # ks) j" using i iB by simp
    show ?thesis unfolding r using ub mem by blast
  qed
qed

lemma GC_prev_block_max:
  fixes st :: "'a hdr_index_scheme" and h :: hblk
  assumes "index_wf st" "layout_ok st"
  defines "hits \<equiv> {b. b \<le> h \<and> is_Hdr (HDR st b)}"
  shows "(hits = {} \<longrightarrow> GC_prev_block st h = 0)
       \<and> (hits \<noteq> {} \<longrightarrow> GC_prev_block st h \<in> hits \<and> (\<forall>b \<in> hits. b \<le> GC_prev_block st h))"
proof -
  define hi where "hi = h div BOTTOM_SZ"
  define desc where "desc = dropWhile (\<lambda>k. k > hi) (rev (GC_all_bottom_indices st))"
  define j where "j = (if GC_top_index st hi = None then int BOTTOM_SZ - 1 else int (h mod BOTTOM_SZ))"
  have sorted: "sorted_wrt (>) (rev (GC_all_bottom_indices st))"
    using assms(1) by (simp add: index_wf_def sorted_wrt_rev)
  then have sd: "sorted_wrt (>) desc"
    unfolding desc_def by (metis sorted_wrt_append takeWhile_dropWhile_id)
  have set_desc: "set desc = {k. GC_top_index st k \<noteq> None \<and> k \<le> hi}"
  proof -
    have "set (dropWhile (\<lambda>k. k > hi) ks) = {k \<in> set ks. k \<le> hi}" if "sorted_wrt (>) ks" for ks :: "nat list"
      using that by (induction ks) auto
    from this [OF sorted] show ?thesis using assms(1) by (auto simp: desc_def index_wf_def)
  qed
  have jB: "j < int BOTTOM_SZ"
    using mod_less_divisor [OF BOTTOM_SZ_pos, of h] by (simp add: j_def)
  have res: "GC_prev_block st h = prev_block_from st desc j"
    by (simp add: GC_prev_block_def Let_def desc_def hi_def j_def)
  have "below desc j b \<longleftrightarrow> b \<le> h" if b: "is_Hdr (HDR st b)" for b
  proof -
    have mb: "GC_top_index st (b div BOTTOM_SZ) \<noteq> None"
      using b HDR_Hdr_mapped [OF assms(1)] unfolding is_Hdr_iff mapped_def by blast
    show ?thesis
    proof (cases "GC_top_index st hi = None")
      case True
      then have "below desc j b \<longleftrightarrow> b div BOTTOM_SZ < hi"
        using mb set_desc by (auto simp: j_def below_top order_le_less)
      moreover have "b \<le> h \<longleftrightarrow> b div BOTTOM_SZ < hi"
      proof -
        have "b div BOTTOM_SZ \<noteq> hi" using True mb by auto
        then show ?thesis unfolding hi_def
          using div_le_mono [of b h BOTTOM_SZ] div_le_mono [of h b BOTTOM_SZ] by linarith
      qed
      ultimately show ?thesis by simp
    next
      case False
      then have jh: "j = int (h mod BOTTOM_SZ)" by (auto simp: j_def)
      from False have "hi \<in> set desc" using set_desc by simp
      then obtain ks where ks: "desc = hi # ks"
        using sd set_desc by (cases desc) fastforce+
      have "set ks = {k. GC_top_index st k \<noteq> None \<and> k < hi}"
        using set_desc sd unfolding ks by (auto simp: order_le_less)
      then have "below desc j b \<longleftrightarrow>
          (b div BOTTOM_SZ = hi \<and> b mod BOTTOM_SZ \<le> h mod BOTTOM_SZ) \<or> b div BOTTOM_SZ < hi"
        using mb jh by (simp add: ks)
      also have "\<dots> \<longleftrightarrow> b \<le> h" unfolding hi_def by (rule div_mod_le_iff)
      finally show ?thesis .
    qed
  qed
  then have "hits = {b. below desc j b \<and> is_Hdr (HDR st b)}" by (auto simp: hits_def)
  then show ?thesis
    using prev_block_from_spec [OF assms(2) sd _ jB] set_desc unfolding res by auto
qed

text \<open>
  Two states have the same layout if their headers differ only in fields other than the size
  and the flag for free blocks.
\<close>

primrec entry_shape :: "hdr_entry \<Rightarrow> nat + bool \<times> nat" where
  "entry_shape (Hdr hh) = Inr (HBLK_IS_FREE hh, blocks_of hh)"
| "entry_shape (Fwd k) = Inl k"

definition same_layout :: "'a hdr_index_scheme \<Rightarrow> 'a hdr_index_scheme \<Rightarrow> bool" where
  "same_layout st st' \<longleftrightarrow> (\<forall>c. entry_shape (HDR st' c) = entry_shape (HDR st c))"

lemma same_layout_refl [simp]: "same_layout st st"
  by (simp add: same_layout_def)

lemma same_layout_sym: "same_layout st st' \<Longrightarrow> same_layout st' st"
  by (simp add: same_layout_def)

lemma same_layout_trans: "same_layout a b \<Longrightarrow> same_layout b c \<Longrightarrow> same_layout a c"
  by (simp add: same_layout_def)

lemma same_layout_Fwd: "same_layout st st' \<Longrightarrow> HDR st c = Fwd k \<Longrightarrow> HDR st' c = Fwd k"
  by (cases "HDR st' c") (auto simp: same_layout_def dest: spec [of _ c])

lemma same_layout_Hdr:
  assumes "same_layout st st'" "HDR st c = Hdr hh"
  obtains hh' where "HDR st' c = Hdr hh'" "HBLK_IS_FREE hh' = HBLK_IS_FREE hh" "blocks_of hh' = blocks_of hh"
proof -
  have "entry_shape (HDR st' c) = entry_shape (HDR st c)" using assms(1) by (simp add: same_layout_def)
  then show thesis using assms(2) that by (cases "HDR st' c") auto
qed

lemma layout_ok_same:
  assumes s: "same_layout st st'" and l: "layout_ok st"
  shows "layout_ok st'"
  unfolding layout_ok_def
proof (intro conjI allI impI)
  fix h hh' assume h': "HDR st' h = Hdr hh'"
  obtain hh where h: "HDR st h = Hdr hh" "HBLK_IS_FREE hh = HBLK_IS_FREE hh'" "blocks_of hh = blocks_of hh'"
    using same_layout_Hdr [OF same_layout_sym [OF s] h'] by metis
  show "0 < blocks_of hh'" using layout_blocks_pos [OF l h(1)] h(3) by simp
  fix b assume "h < b \<and> b < h + blocks_of hh'"
  then have "HDR st b = (if HBLK_IS_FREE hh' then Fwd 0 else count_entry h b)"
    using layout_inside [OF l h(1)] h(2,3) by simp
  then show "HDR st' b = (if HBLK_IS_FREE hh' then Fwd 0 else count_entry h b)"
    using same_layout_Fwd [OF s, of b] by (cases "HBLK_IS_FREE hh'") (simp_all add: count_entry_def)
next
  fix b k assume "HDR st' b = Fwd k \<and> 0 < k"
  then have "HDR st b = Fwd k" "0 < k" using same_layout_Fwd [OF same_layout_sym [OF s]] by auto
  then obtain h hh where o: "HDR st h = Hdr hh" "\<not> HBLK_IS_FREE hh" "h < b" "b < h + blocks_of hh"
    using l unfolding layout_ok_def by blast
  obtain hh' where "HDR st' h = Hdr hh'" "HBLK_IS_FREE hh' = HBLK_IS_FREE hh" "blocks_of hh' = blocks_of hh"
    by (rule same_layout_Hdr [OF s o(1)])
  with o show "\<exists>h hh. HDR st' h = Hdr hh \<and> \<not> HBLK_IS_FREE hh \<and> h < b \<and> b < h + blocks_of hh"
    by (intro exI [of _ h] exI [of _ hh']) simp
qed

definition is_used :: "hdr_entry \<Rightarrow> bool" where
  "is_used e = (case e of Hdr hh \<Rightarrow> \<not> HBLK_IS_FREE hh | Fwd _ \<Rightarrow> False)"

text \<open>
  The blocks \<open>GC_apply_to_all_blocks\<close> visits, in its order, when a visit changes the use of no
  other block.
\<close>

definition used_in_index :: "'a hdr_index_scheme \<Rightarrow> nat \<Rightarrow> int \<Rightarrow> hblk list" where
  "used_in_index st key j =
     filter (\<lambda>b. is_used (HDR st b)) (map (\<lambda>i. key * BOTTOM_SZ + i) (rev [0 ..< nat (j + 1)]))"

definition used_blocks :: "'a hdr_index_scheme \<Rightarrow> hblk list" where
  "used_blocks st =
     concat (map (\<lambda>key. used_in_index st key (int BOTTOM_SZ - 1)) (GC_all_bottom_indices st))"

lemma used_in_index_cong:
  assumes "\<And>i. int i \<le> j \<Longrightarrow> is_used (HDR st' (key * BOTTOM_SZ + i)) = is_used (HDR st (key * BOTTOM_SZ + i))"
  shows "used_in_index st' key j = used_in_index st key j"
  unfolding used_in_index_def
proof (rule filter_cong [OF refl])
  fix x assume "x \<in> set (map (\<lambda>i. key * BOTTOM_SZ + i) (rev [0 ..< nat (j + 1)]))"
  then obtain i where "x = key * BOTTOM_SZ + i" "i < nat (j + 1)" unfolding set_map set_rev set_upt by (elim imageE) simp
  then show "is_used (HDR st' x) = is_used (HDR st x)" using assms [of i] by simp
qed

lemma used_in_index_skip:
  assumes "j' < j" "\<And>c hh. j' < int c \<Longrightarrow> int c \<le> j \<Longrightarrow> HDR st (key * BOTTOM_SZ + c) \<noteq> Hdr hh"
  shows "used_in_index st key j = used_in_index st key j'"
proof -
  have "nat (j' + 1) \<le> nat (j + 1)" using assms(1) by simp
  then have "[0 ..< nat (j + 1)] = [0 ..< nat (j' + 1)] @ [nat (j' + 1) ..< nat (j + 1)]"
    by (metis le_add_diff_inverse upt_add_eq_append zero_le)
  moreover have "filter (\<lambda>i. is_used (HDR st (key * BOTTOM_SZ + i))) (rev [nat (j' + 1) ..< nat (j + 1)]) = []"
    using assms(2) by (auto simp: filter_empty_conv is_used_def split: hdr_entry.splits)
  ultimately show ?thesis by (simp add: used_in_index_def filter_map o_def)
qed

lemma used_in_index_key:
  assumes "b \<in> set (used_in_index st key (int BOTTOM_SZ - 1))"
  shows "b div BOTTOM_SZ = key"
  using assms unfolding index_range_iff [symmetric] by (auto simp: used_in_index_def)

lemma distinct_used_in_index: "distinct (used_in_index st key j)"
  by (simp add: used_in_index_def distinct_map inj_on_def)

lemma used_in_index_used: "b \<in> set (used_in_index st key j) \<Longrightarrow> is_used (HDR st b)"
  by (simp add: used_in_index_def)

text \<open>
  What \<open>GC_apply_to_all_blocks\<close> asks of its argument: it keeps an invariant that includes the layout of the heap
  and may speak of the set of blocks that were visited; and it may free the block it is called for
  but changes the use of no other.
\<close>

locale block_visitor =
  fixes I :: "hblk set \<Rightarrow> 'a hdr_index_scheme \<Rightarrow> bool"
    and fn :: "hblk \<Rightarrow> 'a hdr_index_scheme \<Rightarrow> 'a hdr_index_scheme option"
  assumes layout: "I V st \<Longrightarrow> layout_ok st"
    and visit: "I V st \<Longrightarrow> b \<notin> V \<Longrightarrow> is_used (HDR st b) \<Longrightarrow>
      \<exists>st'. fn b st = Some st' \<and> I (insert b V) st' \<and> (\<forall>c. c \<noteq> b \<longrightarrow> is_used (HDR st' c) = is_used (HDR st c))"
begin

lemma each_visits:
  assumes "I V st" "distinct bs" "\<forall>b \<in> set bs. is_used (HDR st b)" "set bs \<inter> V = {}"
  shows "\<exists>st'. each fn bs st = Some st' \<and> I (V \<union> set bs) st' \<and> (\<forall>c. c \<notin> set bs \<longrightarrow> is_used (HDR st' c) = is_used (HDR st c))"
  using assms
proof (induction bs arbitrary: st V)
  case (Cons b bs)
  obtain s where s: "fn b st = Some s" "I (insert b V) s" "\<And>c. c \<noteq> b \<Longrightarrow> is_used (HDR s c) = is_used (HDR st c)"
    using visit [OF Cons.prems(1), of b] Cons.prems(3,4) by auto
  have "\<forall>c \<in> set bs. is_used (HDR s c)" using s(3) Cons.prems(2,3) by (metis distinct.simps(2) list.set_intros(2))
  then obtain st' where "each fn bs s = Some st'" "I (insert b V \<union> set bs) st'" "\<And>c. c \<notin> set bs \<Longrightarrow> is_used (HDR st' c) = is_used (HDR s c)"
    using Cons.IH [OF s(2)] Cons.prems(2,4) by auto
  with s show ?case by (intro exI [of _ st']) simp
qed simp

lemma apply_index:
  assumes "I V st" "set (used_in_index st key j) \<inter> V = {}"
  shows "apply_to_index fn key j st = each fn (used_in_index st key j) st"
  using assms
proof (induction "nat (j + 1)" arbitrary: j st V rule: less_induct)
  case less
  show ?case
  proof (cases "j < 0")
    case True
    then show ?thesis by (simp add: apply_to_index.simps [of fn key j] used_in_index_def)
  next
    case False
    note j0 = False
    let ?b = "key * BOTTOM_SZ + nat j"
    have IH: "apply_to_index fn key j' s = each fn (used_in_index s key j') s" if "j' < j" "I V' s" "set (used_in_index s key j') \<inter> V' = {}" for j' s V'
      using less.hyps [of j' V' s] that j0 by simp
    show ?thesis
    proof (cases "HDR st ?b")
      case (Hdr hh)
      have sp: "used_in_index st key j = (if HBLK_IS_FREE hh then [] else [?b]) @ used_in_index st key (j - 1)"
      proof -
        have "rev [0 ..< nat (j + 1)] = nat j # rev [0 ..< nat (j - 1 + 1)]" using j0 by (simp add: nat_add_distrib)
        then show ?thesis using Hdr by (simp add: used_in_index_def is_used_def)
      qed
      show ?thesis
      proof (cases "HBLK_IS_FREE hh")
        case True
        then show ?thesis using IH [of "j - 1" V st] less.prems sp Hdr j0 by (simp add: apply_to_index.simps [of fn key j])
      next
        case False
        then obtain s where s: "fn ?b st = Some s" "I (insert ?b V) s" "\<And>c. c \<noteq> ?b \<Longrightarrow> is_used (HDR s c) = is_used (HDR st c)"
          using visit [OF less.prems(1), of ?b] Hdr less.prems(2) sp by (auto simp: is_used_def)
        have u: "used_in_index s key (j - 1) = used_in_index st key (j - 1)"
          by (rule used_in_index_cong) (use s(3) j0 in auto)
        moreover have "distinct ([?b] @ used_in_index st key (j - 1))" using distinct_used_in_index [of st key j] sp False by simp
        then have "set (used_in_index s key (j - 1)) \<inter> insert ?b V = {}" using less.prems(2) sp False unfolding u by auto
        then show ?thesis using IH [of "j - 1" "insert ?b V" s] u s(1,2) sp Hdr j0 False by (simp add: apply_to_index.simps [of fn key j])
      qed
    next
      case (Fwd k)
      define j' where "j' = (if k = 0 then j - 1 else j - int k)"
      have lt: "j' < j" using j0 by (simp add: j'_def)
      have "HDR st (key * BOTTOM_SZ + c) \<noteq> Hdr hh" if "j' < int c" "int c \<le> j" for c hh
      proof (cases "k = 0")
        case True
        with that have "c = nat j" by (auto simp: j'_def)
        with Fwd show ?thesis by simp
      next
        case False
        show ?thesis
          by (rule jump_skips_no_header [OF layout [OF less.prems(1)], of ?b k])
            (use False Fwd that j0 in \<open>auto simp: j'_def\<close>)
      qed
      then have u: "used_in_index st key j = used_in_index st key j'" by (rule used_in_index_skip [OF lt])
      have "apply_to_index fn key j st = apply_to_index fn key j' st"
        using j0 Fwd by (simp add: apply_to_index.simps [of fn key j] j'_def)
      then show ?thesis using IH [OF lt less.prems(1)] less.prems(2) u by simp
    qed
  qed
qed

lemma apply_indices:
  assumes "I V s" "distinct keys" "\<forall>key \<in> set keys. set (used_in_index s key (int BOTTOM_SZ - 1)) \<inter> V = {}"
    "\<forall>key \<in> set keys. used_in_index s key (int BOTTOM_SZ - 1) = used_in_index st key (int BOTTOM_SZ - 1)"
  shows "each (\<lambda>key. apply_to_index fn key (int BOTTOM_SZ - 1)) keys s =
    each fn (concat (map (\<lambda>key. used_in_index st key (int BOTTOM_SZ - 1)) keys)) s"
  using assms
proof (induction keys arbitrary: s V)
  case (Cons key keys)
  let ?j = "int BOTTOM_SZ - 1"
  let ?bs = "used_in_index s key ?j"
  obtain s' where s': "each fn ?bs s = Some s'" "I (V \<union> set ?bs) s'" "\<And>c. c \<notin> set ?bs \<Longrightarrow> is_used (HDR s' c) = is_used (HDR s c)"
    using each_visits [OF Cons.prems(1) distinct_used_in_index, of s key ?j] used_in_index_used Cons.prems(3) by (metis list.set_intros(1))
  have same: "used_in_index s' k ?j = used_in_index s k ?j" "set (used_in_index s k ?j) \<inter> set ?bs = {}" if k: "k \<in> set keys" for k
  proof -
    have ne: "k \<noteq> key" using k Cons.prems(2) by auto
    show "set (used_in_index s k ?j) \<inter> set ?bs = {}" using ne used_in_index_key [of _ s k] used_in_index_key [of _ s key] by blast
    show "used_in_index s' k ?j = used_in_index s k ?j"
    proof (rule used_in_index_cong, rule s'(3))
      fix i assume "int i \<le> ?j"
      then have "(k * BOTTOM_SZ + i) div BOTTOM_SZ = k" using index_range_iff [of k "k * BOTTOM_SZ + i"] by auto
      then show "k * BOTTOM_SZ + i \<notin> set ?bs" using ne used_in_index_key [of "k * BOTTOM_SZ + i" s key] by auto
    qed
  qed
  have "\<forall>k \<in> set keys. set (used_in_index s' k ?j) \<inter> (V \<union> set ?bs) = {}" "\<forall>k \<in> set keys. used_in_index s' k ?j = used_in_index st k ?j"
    using same Cons.prems(3,4) by auto
  then have "each (\<lambda>key. apply_to_index fn key ?j) keys s' = each fn (concat (map (\<lambda>key. used_in_index st key ?j) keys)) s'"
    using Cons.IH [OF s'(2)] Cons.prems(2) by simp
  then show ?case using apply_index [OF Cons.prems(1)] s'(1) Cons.prems(3,4) by (simp add: each_append)
qed simp

lemma apply_all:
  assumes "I {} st" "distinct (GC_all_bottom_indices st)"
  shows "GC_apply_to_all_blocks fn st = each fn (used_blocks st) st"
  using apply_indices [OF assms, of st] by (simp add: GC_apply_to_all_blocks_def used_blocks_def)

end

lemma used_blocks_set:
  assumes "index_wf st"
  shows "set (used_blocks st) = {b. is_used (HDR st b)}"
proof -
  have "b \<in> set (used_blocks st)" if "HDR st b = Hdr hh" "\<not> HBLK_IS_FREE hh" for b hh
  proof -
    have "b div BOTTOM_SZ \<in> set (GC_all_bottom_indices st)"
      using HDR_Hdr_mapped [OF assms that(1)] assms by (auto simp: index_wf_def mapped_def)
    moreover have "b \<in> set (used_in_index st (b div BOTTOM_SZ) (int BOTTOM_SZ - 1))"
      using that index_range_iff [of "b div BOTTOM_SZ" b] by (auto simp: used_in_index_def is_used_def)
    ultimately show ?thesis by (auto simp: used_blocks_def)
  qed
  moreover have "is_used (HDR st b)" if "b \<in> set (used_blocks st)" for b
    using that used_in_index_used by (auto simp: used_blocks_def)
  moreover have "\<exists>hh. HDR st b = Hdr hh \<and> \<not> HBLK_IS_FREE hh" if "is_used (HDR st b)" for b
    using that by (cases "HDR st b") (auto simp: is_used_def)
  ultimately show ?thesis by blast
qed

lemma distinct_concat_used:
  "distinct ks \<Longrightarrow> distinct (concat (map (\<lambda>key. used_in_index st key (int BOTTOM_SZ - 1)) ks))"
proof (induction ks)
  case Nil
  then show ?case by simp
next
  case (Cons k ks)
  note distinct_used_in_index [of st k "int BOTTOM_SZ - 1"]
  moreover have "set (used_in_index st k (int BOTTOM_SZ - 1)) \<inter> set (used_in_index st k' (int BOTTOM_SZ - 1)) = {}"
    if "k' \<in> set ks" for k'
    using that Cons.prems used_in_index_key [of _ st k] used_in_index_key [of _ st k'] by force
  ultimately show ?case using Cons by auto
qed

lemma distinct_used_blocks:
  assumes "index_wf st"
  shows "distinct (used_blocks st)"
  using assms distinct_concat_used [of "GC_all_bottom_indices st" st]
  by (auto simp: used_blocks_def index_wf_def strict_sorted_iff)

text \<open>Free blocks have the size of whole heap blocks.\<close>

definition free_sizes_ok :: "'a hdr_index_scheme \<Rightarrow> bool" where
  "free_sizes_ok st \<longleftrightarrow>
     (\<forall>h hh. HDR st h = Hdr hh \<and> HBLK_IS_FREE hh \<longrightarrow> hb_sz hh = blocks_of hh * HBLKSIZE)"

lemma next_used_in_spec:
  assumes "layout_ok st" "free_sizes_ok st" "GC_top_index st key = Some bi"
  shows "\<exists>r. next_used_in bi j = Some r \<and>
    (case r of
       Some i \<Rightarrow> j \<le> i \<and> i < BOTTOM_SZ \<and> is_used (HDR st (key * BOTTOM_SZ + i))
                 \<and> (\<forall>c. j \<le> c \<and> c < i \<longrightarrow> \<not> is_used (HDR st (key * BOTTOM_SZ + c)))
     | None \<Rightarrow> (\<forall>c. j \<le> c \<and> c < BOTTOM_SZ \<longrightarrow> \<not> is_used (HDR st (key * BOTTOM_SZ + c))))"
proof (induction "BOTTOM_SZ - j" arbitrary: j rule: less_induct)
  case less
  show ?case
  proof (cases "BOTTOM_SZ \<le> j")
    case True
    then show ?thesis by (auto simp: next_used_in.simps [of bi j])
  next
    case False
    have look: "HDR st (key * BOTTOM_SZ + j) = bi j"
      using False assms(3) by (simp add: GC_find_header_def)
    show ?thesis
    proof (cases "is_used (bi j)")
      case True
      then have "next_used_in bi j = Some (Some j)"
        using False by (cases "bi j") (auto simp: next_used_in.simps [of bi j] is_used_def)
      with look True False show ?thesis by auto
    next
      case unused: False
      define j' where "j' = (case bi j of Fwd _ \<Rightarrow> j + 1 | Hdr hh \<Rightarrow> j + divHBLKSZ (hb_sz hh))"
      have rec: "next_used_in bi j = next_used_in bi j'"
        using False unused
        by (cases "bi j") (auto simp: next_used_in.simps [of bi j] is_used_def j'_def)
      have skip: "j < j' \<and> (\<forall>c. j \<le> c \<and> c < j' \<longrightarrow> \<not> is_used (HDR st (key * BOTTOM_SZ + c)))"
      proof (cases "bi j")
        case (Fwd k)
        have "\<not> is_used (HDR st (key * BOTTOM_SZ + c))" if "j \<le> c" "c < j + 1" for c
        proof -
          have "c = j" using that by simp
          then show ?thesis using Fwd look by (simp add: is_used_def)
        qed
        then show ?thesis using Fwd by (simp add: j'_def)
      next
        case (Hdr hh)
        have H: "HDR st (key * BOTTOM_SZ + j) = Hdr hh" using Hdr look by simp
        have fr: "HBLK_IS_FREE hh" using unused Hdr by (simp add: is_used_def)
        have d: "divHBLKSZ (hb_sz hh) = blocks_of hh"
          using assms(2) H fr unfolding free_sizes_ok_def divHBLKSZ_def by fastforce
        have "\<not> is_used (HDR st (key * BOTTOM_SZ + c))" if "j \<le> c" "c < j + blocks_of hh" for c
        proof (cases "c = j")
          case True
          then show ?thesis using H fr by (simp add: is_used_def)
        next
          case False
          then show ?thesis
            using layout_inside [OF assms(1) H, of "key * BOTTOM_SZ + c"] that fr
            by (simp add: is_used_def)
        qed
        then show ?thesis using Hdr d layout_blocks_pos [OF assms(1) H] by (simp add: j'_def)
      qed
      have closer: "BOTTOM_SZ - j' < BOTTOM_SZ - j" using skip False by linarith
      obtain r where r: "next_used_in bi j' = Some r" "case r of
          Some i \<Rightarrow> j' \<le> i \<and> i < BOTTOM_SZ \<and> is_used (HDR st (key * BOTTOM_SZ + i))
                    \<and> (\<forall>c. j' \<le> c \<and> c < i \<longrightarrow> \<not> is_used (HDR st (key * BOTTOM_SZ + c)))
        | None \<Rightarrow> (\<forall>c. j' \<le> c \<and> c < BOTTOM_SZ \<longrightarrow> \<not> is_used (HDR st (key * BOTTOM_SZ + c)))"
        using less.hyps [OF closer] by blast
      show ?thesis
      proof (intro exI conjI)
        show "next_used_in bi j = Some r" using rec r(1) by simp
        show "case r of
          Some i \<Rightarrow> j \<le> i \<and> i < BOTTOM_SZ \<and> is_used (HDR st (key * BOTTOM_SZ + i))
                    \<and> (\<forall>c. j \<le> c \<and> c < i \<longrightarrow> \<not> is_used (HDR st (key * BOTTOM_SZ + c)))
        | None \<Rightarrow> (\<forall>c. j \<le> c \<and> c < BOTTOM_SZ \<longrightarrow> \<not> is_used (HDR st (key * BOTTOM_SZ + c)))"
          using r(2) skip by (cases r) (auto, (metis not_le)+)
      qed
    qed
  qed
qed

fun above :: "nat list \<Rightarrow> nat \<Rightarrow> hblk \<Rightarrow> bool" where
  "above [] j b = False"
| "above (k # ks) j b \<longleftrightarrow>
     b div BOTTOM_SZ = k \<and> j \<le> b mod BOTTOM_SZ \<or> b div BOTTOM_SZ \<in> set ks"

lemma above_zero: "above ks 0 b \<longleftrightarrow> b div BOTTOM_SZ \<in> set ks"
  by (cases ks) auto

lemma next_used_from_spec:
  fixes st :: "'a hdr_index_scheme" and j :: nat
  assumes "layout_ok st" "free_sizes_ok st" "sorted_wrt (<) ks"
    "\<And>k. k \<in> set ks \<Longrightarrow> GC_top_index st k \<noteq> None"
  defines "hits \<equiv> {b. above ks j b \<and> is_used (HDR st b)}"
  shows "\<exists>r. next_used_from st ks j = Some r \<and> (hits = {} \<longrightarrow> r = 0)
       \<and> (hits \<noteq> {} \<longrightarrow> r \<in> hits \<and> (\<forall>b \<in> hits. r \<le> b))"
  using assms(3,4) unfolding hits_def
proof (induction ks arbitrary: j)
  case Nil
  then show ?case by simp
next
  case (Cons k ks)
  let ?hits = "\<lambda>ks j. {b. above ks j b \<and> is_used (HDR st b)}"
  obtain bi where bi: "GC_top_index st k = Some bi" using Cons.prems(2) by auto
  have split: "b = k * BOTTOM_SZ + b mod BOTTOM_SZ" if "b div BOTTOM_SZ = k" for b
    using div_mult_mod_eq [of b BOTTOM_SZ] that by simp
  have upper: "k < b div BOTTOM_SZ" if "b div BOTTOM_SZ \<in> set ks" for b
    using that Cons.prems(1) by auto
  obtain r where r: "next_used_in bi j = Some r" "case r of
          Some i \<Rightarrow> j \<le> i \<and> i < BOTTOM_SZ \<and> is_used (HDR st (k * BOTTOM_SZ + i))
                    \<and> (\<forall>c. j \<le> c \<and> c < i \<longrightarrow> \<not> is_used (HDR st (k * BOTTOM_SZ + c)))
        | None \<Rightarrow> (\<forall>c. j \<le> c \<and> c < BOTTOM_SZ \<longrightarrow> \<not> is_used (HDR st (k * BOTTOM_SZ + c)))"
    using next_used_in_spec [OF assms(1,2) bi, of j] by blast
  show ?case
  proof (cases r)
    case None
    have "is_used (HDR st b) \<Longrightarrow> above (k # ks) j b \<longleftrightarrow> above ks 0 b" for b
      using r(2) None split [of b] mod_less_divisor [OF BOTTOM_SZ_pos, of b]
      by (auto simp: above_zero dest: upper)
    then have "?hits (k # ks) j = ?hits ks 0" by auto
    moreover have "next_used_from st (k # ks) j = next_used_from st ks 0"
      using None bi r(1) by simp
    ultimately show ?thesis using Cons.IH [of 0] Cons.prems by simp
  next
    case (Some i)
    then have i: "j \<le> i" "i < BOTTOM_SZ" "is_used (HDR st (k * BOTTOM_SZ + i))"
        "\<And>c. j \<le> c \<Longrightarrow> c < i \<Longrightarrow> \<not> is_used (HDR st (k * BOTTOM_SZ + c))"
      using r(2) by auto
    have res: "next_used_from st (k # ks) j = Some (k * BOTTOM_SZ + i)" using Some bi r(1) by simp
    have "k * BOTTOM_SZ + i \<le> b" if b: "above (k # ks) j b" "is_used (HDR st b)" for b
    proof (cases "b div BOTTOM_SZ = k")
      case True
      have "\<not> b mod BOTTOM_SZ < i"
        using i(4) [of "b mod BOTTOM_SZ"] b split [OF True] True upper [of b] by auto
      with split [OF True] show ?thesis by linarith
    next
      case False
      with b have "k < b div BOTTOM_SZ" using upper [of b] by simp
      then have "(k + 1) * BOTTOM_SZ \<le> b div BOTTOM_SZ * BOTTOM_SZ" by (intro mult_le_mono1) simp
      also have "\<dots> \<le> b" by simp
      finally show ?thesis using i(2) by simp
    qed
    then have lb: "\<forall>b \<in> ?hits (k # ks) j. k * BOTTOM_SZ + i \<le> b" by blast
    have mem: "k * BOTTOM_SZ + i \<in> ?hits (k # ks) j" using i by simp
    show ?thesis unfolding res using lb mem by blast
  qed
qed

lemma GC_next_used_block_least:
  fixes st :: "'a hdr_index_scheme" and h :: hblk
  assumes "index_wf st" "layout_ok st" "free_sizes_ok st"
  defines "hits \<equiv> {b. h \<le> b \<and> is_used (HDR st b)}"
  shows "\<exists>r. GC_next_used_block st h = Some r \<and> (hits = {} \<longrightarrow> r = 0)
       \<and> (hits \<noteq> {} \<longrightarrow> r \<in> hits \<and> (\<forall>b \<in> hits. r \<le> b))"
proof -
  define hi where "hi = h div BOTTOM_SZ"
  define asc where "asc = dropWhile (\<lambda>k. k < hi) (GC_all_bottom_indices st)"
  define j where "j = (if GC_top_index st hi = None then 0 else h mod BOTTOM_SZ)"
  have sorted: "sorted_wrt (<) (GC_all_bottom_indices st)"
    using assms(1) by (simp add: index_wf_def)
  then have sa: "sorted_wrt (<) asc"
    unfolding asc_def by (metis sorted_wrt_append takeWhile_dropWhile_id)
  have set_asc: "set asc = {k. GC_top_index st k \<noteq> None \<and> hi \<le> k}"
  proof -
    have "set (dropWhile (\<lambda>k. k < hi) ks) = {k \<in> set ks. hi \<le> k}" if "sorted_wrt (<) ks" for ks :: "nat list"
      using that by (induction ks) auto
    from this [OF sorted] show ?thesis using assms(1) by (auto simp: asc_def index_wf_def)
  qed
  have res: "GC_next_used_block st h = next_used_from st asc j"
    by (simp add: GC_next_used_block_def Let_def asc_def hi_def j_def)
  have "above asc j b \<longleftrightarrow> h \<le> b" if b: "is_used (HDR st b)" for b
  proof -
    have mb: "GC_top_index st (b div BOTTOM_SZ) \<noteq> None"
      using b HDR_unmapped [OF assms(1), of b] unfolding mapped_def is_used_def by force
    show ?thesis
    proof (cases "GC_top_index st hi = None")
      case True
      then have "above asc j b \<longleftrightarrow> hi < b div BOTTOM_SZ"
        using mb set_asc by (auto simp: j_def above_zero order_le_less)
      moreover have "b div BOTTOM_SZ \<noteq> hi" using True mb by auto
      ultimately show ?thesis unfolding hi_def
        using div_le_mono [of b h BOTTOM_SZ] div_le_mono [of h b BOTTOM_SZ] by linarith
    next
      case False
      then have jh: "j = h mod BOTTOM_SZ" by (auto simp: j_def)
      from False have "hi \<in> set asc" using set_asc by simp
      then obtain ks where ks: "asc = hi # ks"
        using sa set_asc by (cases asc) fastforce+
      have "set ks = {k. GC_top_index st k \<noteq> None \<and> hi < k}"
        using set_asc sa unfolding ks by (auto simp: order_le_less)
      then have "above asc j b \<longleftrightarrow>
          (hi = b div BOTTOM_SZ \<and> h mod BOTTOM_SZ \<le> b mod BOTTOM_SZ) \<or> hi < b div BOTTOM_SZ"
        using mb jh by (auto simp: ks)
      also have "\<dots> \<longleftrightarrow> h \<le> b" unfolding hi_def by (rule div_mod_le_iff)
      finally show ?thesis .
    qed
  qed
  then have "hits = {b. above asc j b \<and> is_used (HDR st b)}" by (auto simp: hits_def)
  then show ?thesis
    using next_used_from_spec [OF assms(2,3) sa, of j] set_asc unfolding res by auto
qed

section \<open>Properties\<close>

text \<open>
  C17. Once \<open>GC_install_counts\<close> has succeeded for an allocated block h of sz bytes, every
  further block b of it holds a usable forwarding count: following the counts from b ends
  (it does not loop) at h and yields the header of h.
\<close>
theorem install_counts_forward_to_start:
  assumes "GC_install_counts h sz st = (True, st')" "index_wf st" "HDR st h = Hdr hh"
    "h < b" "hblk_addr b < hblk_addr h + sz"
  shows "\<exists>k. HDR st' b = Fwd k \<and> 0 < k \<and> k \<le> MAX_JUMP \<and> forward_to_start st' b k = Some (h, hh)"
proof -
  note H = GC_install_counts_spec(3) [OF assms(1,2) TrueI]
  have lim: "hblk_addr c < hblk_addr h + sz" if "c \<le> b" for c
    using hblk_addr_mono [OF that] assms(5) by simp
  have "forward_to_start st' b (min (b - h) MAX_JUMP) = Some (h, hh)"
    by (rule forward_to_start_counts) (use H assms lim in auto)
  then show ?thesis using H assms by (auto simp: count_entry_def MAX_JUMP_def HBLKSIZE_def)
qed

text \<open>
  C18. What \<open>GC_header_cache_miss\<close> documents, with interior pointers recognised: it always
  returns; the block it answers is allocated (never free) and its object contains p; and the
  header cache is only filled for a pointer to the first block of an object.
\<close>
theorem header_cache_miss_sound:
  assumes "layout_ok st"
  shows "\<exists>r. GC_header_cache_miss True st p = Some r
    \<and> (cm_block r = 0 \<or> (\<exists>hh. HDR st (cm_block r) = Hdr hh \<and> \<not> HBLK_IS_FREE hh
          \<and> cm_block r \<le> p div HBLKSIZE \<and> p div HBLKSIZE < cm_block r + blocks_of hh
          \<and> (cm_block r \<noteq> p div HBLKSIZE \<longrightarrow> p - hblk_addr (cm_block r) < hb_sz hh)))
    \<and> (cm_cached r \<longrightarrow> cm_block r = p div HBLKSIZE)"
proof (cases "HDR st (p div HBLKSIZE)")
  case (Hdr hh)
  then show ?thesis
    using layout_blocks_pos [OF assms Hdr] by (auto simp: GC_header_cache_miss_def)
next
  case (Fwd k)
  show ?thesis
  proof (cases "k = 0")
    case True
    with Fwd show ?thesis by (simp add: GC_header_cache_miss_def)
  next
    case False
    then obtain h hh where o: "HDR st h = Hdr hh" "\<not> HBLK_IS_FREE hh" "h < p div HBLKSIZE"
        "p div HBLKSIZE < h + blocks_of hh" "k = min (p div HBLKSIZE - h) MAX_JUMP"
      using layout_Fwd_owner [OF assms Fwd] by blast
    have "forward_to_start st (p div HBLKSIZE) k = Some (h, hh)"
      unfolding o(5)
      by (rule forward_to_start_counts [OF o(1)]) (use layout_inside [OF assms o(1)] o in auto)
    with False Fwd o show ?thesis by (auto simp: GC_header_cache_miss_def)
  qed
qed

text \<open>
  \<open>GC_prev_block\<close> finds the last block at or below h that has a header, free or
  allocated, jumping over large objects by their forwarding counts; it answers 0 only when
  there is none.
\<close>
theorem GC_prev_block_correct:
  assumes "index_wf st" "layout_ok st" "b \<le> h" "HDR st b = Hdr hh"
  shows "GC_prev_block st h \<le> h \<and> is_Hdr (HDR st (GC_prev_block st h)) \<and> b \<le> GC_prev_block st h"
  using GC_prev_block_max [OF assms(1,2), of h] assms(3,4) by (auto simp: is_Hdr_iff)

text \<open>
  C19. \<open>GC_next_used_block\<close> terminates and finds the first allocated block at or above h,
  skipping free blocks by their size.
\<close>
theorem GC_next_used_block_correct:
  assumes "index_wf st" "layout_ok st" "free_sizes_ok st" "h \<le> b" "is_used (HDR st b)"
  shows "\<exists>r. GC_next_used_block st h = Some r \<and> h \<le> r \<and> is_used (HDR st r) \<and> r \<le> b"
  using GC_next_used_block_least [OF assms(1-3), of h] assms(4,5) by auto

text \<open>
  C20. \<open>GC_apply_to_all_blocks\<close> applies its function to every allocated block exactly once, and to
  nothing else. The function may free the block it is called for, as the sweeper does, as long as it keeps the
  layout of the heap and changes the use of no other block; then the iteration returns if
  every call does, and an invariant of the calls that may speak of the visited blocks holds in the end.
\<close>
theorem apply_to_all_blocks_exactly_once:
  assumes "\<And>V s b. I V s \<Longrightarrow> b \<notin> V \<Longrightarrow> is_used (HDR s b) \<Longrightarrow>
      \<exists>s'. fn b s = Some s' \<and> I (insert b V) s' \<and> (\<forall>c. c \<noteq> b \<longrightarrow> is_used (HDR s' c) = is_used (HDR s c))"
    and "\<And>V s. I V s \<Longrightarrow> layout_ok s" and "I {} st" "index_wf st"
  shows "\<exists>bs st'. GC_apply_to_all_blocks fn st = Some st' \<and> each fn bs st = Some st' \<and> distinct bs
    \<and> set bs = {b. is_used (HDR st b)} \<and> I (set bs) st'"
proof -
  have v: "block_visitor I fn" by unfold_locales (use assms(1,2) in auto)
  have bs: "distinct (used_blocks st)" "set (used_blocks st) = {b. is_used (HDR st b)}"
    using distinct_used_blocks [OF assms(4)] used_blocks_set [OF assms(4)] by simp_all
  have "distinct (GC_all_bottom_indices st)" using assms(4) by (simp add: index_wf_def strict_sorted_iff)
  then have "GC_apply_to_all_blocks fn st = each fn (used_blocks st) st" by (rule block_visitor.apply_all [OF v assms(3)])
  moreover obtain st' where "each fn (used_blocks st) st = Some st'" "I (set (used_blocks st)) st'"
    using block_visitor.each_visits [OF v assms(3) bs(1)] bs(2) by auto
  ultimately show ?thesis using bs by (intro exI [of _ "used_blocks st"] exI [of _ st']) simp
qed

section \<open>A concrete index\<close>

text \<open>
  One allocated object of 10000 bytes (three blocks) at block 5, before and after its
  forwarding counts are installed. The properties above are applied to it.
\<close>

definition sample_hdr :: hdr where
  "sample_hdr = zero_hdr\<lparr> hb_sz := 10000, hb_block := 5 \<rparr>"

definition sample_base :: hdr_index where
  "sample_base = \<lparr> GC_top_index = [0 \<mapsto> (\<lambda>_. Fwd 0)(5 := Hdr sample_hdr)], GC_all_nils = (\<lambda>_. Fwd 0),
                   GC_all_bottom_indices = [0], hdr_free_list = [], scratch_ok = (\<lambda>_. True) \<rparr>"

definition sample_index :: hdr_index where
  "sample_index = snd (GC_install_counts 5 10000 sample_base)"

lemma index_wf_sample_base: "index_wf sample_base"
  by (simp add: index_wf_def sample_base_def)

lemma HDR_sample_base: "HDR sample_base b = (if b = 5 then Hdr sample_hdr else Fwd 0)"
  using div_mod_BOTTOM_eq_iff [of b 5]
  by (auto simp: GC_find_header_def sample_base_def BOTTOM_SZ_def)

lemma install_counts_sample: "GC_install_counts 5 10000 sample_base = (True, sample_index)"
proof -
  have "fst (GC_install_counts 5 10000 sample_base)"
    by (simp add: GC_install_counts_def install_counts_indices.simps get_index_def sample_base_def
        hblk_addr_def HBLKSIZE_def BOTTOM_SZ_def)
  then show ?thesis by (simp add: sample_index_def prod_eq_iff)
qed

lemma index_wf_sample: "index_wf sample_index"
  using GC_install_counts_spec(1) [OF install_counts_sample index_wf_sample_base] .

lemma HDR_sample:
  "HDR sample_index b = (if b = 5 then Hdr sample_hdr else if b = 6 then Fwd 1 else if b = 7 then Fwd 2 else Fwd 0)"
proof -
  have "5 < b \<and> hblk_addr b < hblk_addr 5 + 10000 \<longleftrightarrow> b = 6 \<or> b = 7"
    by (auto simp: hblk_addr_def HBLKSIZE_def)
  then show ?thesis
    unfolding GC_install_counts_spec(3) [OF install_counts_sample index_wf_sample_base TrueI]
    by (auto simp: HDR_sample_base count_entry_def MAX_JUMP_def HBLKSIZE_def)
qed

lemma sample_hdr_simps [simp]:
  "blocks_of sample_hdr = 3" "\<not> HBLK_IS_FREE sample_hdr" "hb_sz sample_hdr = 10000"
  by (simp_all add: sample_hdr_def zero_hdr_def blocks_of_def OBJ_SZ_TO_BLOCKS_def divHBLKSZ_def
      HBLKSIZE_def HBLK_IS_FREE_def)

lemma layout_sample: "layout_ok sample_index"
proof -
  have "(5::nat) < b \<and> b < 8 \<longleftrightarrow> b = 6 \<or> b = 7" for b by auto
  then show ?thesis
    by (auto simp: layout_ok_def HDR_sample count_entry_def MAX_JUMP_def HBLKSIZE_def split: if_splits)
qed

theorem install_counts_forward_to_start_witness:
  "\<exists>k. HDR sample_index 7 = Fwd k \<and> 0 < k \<and> k \<le> MAX_JUMP
       \<and> forward_to_start sample_index 7 k = Some (5, sample_hdr)"
  by (rule install_counts_forward_to_start [OF install_counts_sample index_wf_sample_base])
    (simp_all add: HDR_sample_base hblk_addr_def HBLKSIZE_def)

theorem header_cache_miss_sound_witness:
  "\<exists>r. GC_header_cache_miss True sample_index 30000 = Some r \<and> (cm_cached r \<longrightarrow> cm_block r = 7)"
  using header_cache_miss_sound [OF layout_sample, of 30000] by (auto simp: HBLKSIZE_def)

theorem GC_prev_block_correct_witness:
  "5 \<le> GC_prev_block sample_index 7 \<and> GC_prev_block sample_index 7 \<le> 7"
  using GC_prev_block_correct [OF index_wf_sample layout_sample, of 5 7 sample_hdr]
  by (simp add: HDR_sample)

theorem GC_next_used_block_correct_witness: "GC_next_used_block sample_index 2 = Some 5"
proof -
  have "free_sizes_ok sample_index" by (auto simp: free_sizes_ok_def HDR_sample split: if_splits)
  then show ?thesis
    using GC_next_used_block_correct [OF index_wf_sample layout_sample _, of 2 5]
    by (auto simp: HDR_sample is_used_def split: if_splits)
qed

theorem apply_to_all_blocks_exactly_once_witness:
  "\<exists>bs. GC_apply_to_all_blocks (\<lambda>b s. Some s) sample_index = Some sample_index
        \<and> each (\<lambda>b s. Some s) bs sample_index = Some sample_index \<and> distinct bs \<and> set bs = {5 :: hblk}"
proof -
  have "{b. is_used (HDR sample_index b)} = {5}" by (auto simp: HDR_sample is_used_def split: if_splits)
  then show ?thesis
    using apply_to_all_blocks_exactly_once [of "\<lambda>_ s. s = sample_index" "\<lambda>b s. Some s" sample_index] layout_sample index_wf_sample by auto
qed

end
