(* ===== verification/Obj_Map.thy ===== *)
theory Obj_Map
  imports Heap_Headers
begin

text \<open>
  Object maps and mark bits (\<^verbatim>\<open>bdwgc/obj_map.c\<close>, the mark bit routines of
  \<^verbatim>\<open>bdwgc/mark.c\<close> and of \<^verbatim>\<open>bdwgc/include/private/gc_priv.h\<close>, and the counting of mark
  bits in \<^verbatim>\<open>bdwgc/reclaim.c\<close>). A block header carries one mark bit per granule and a bit
  behind the last object that is always set; \<open>hb_n_marks\<close> counts the marked objects. An
  object map gives for each granule of a block its distance from the start of its object.
\<close>

section \<open>Mark bits of a header\<close>

definition MARK_BITS_PER_HBLK :: nat where
  [gc_consts]: "MARK_BITS_PER_HBLK = HBLKSIZE div GRANULE_BYTES"

definition MARK_BITS_SZ :: nat where
  [gc_consts]: "MARK_BITS_SZ = MARK_BITS_PER_HBLK div WORDSZ + 1"

definition HBLK_OBJS :: "nat \<Rightarrow> nat" where
  "HBLK_OBJS sz = HBLKSIZE div sz"

definition MARK_BIT_NO :: "nat \<Rightarrow> nat" where
  "MARK_BIT_NO offset = BYTES_TO_GRANULES offset"

definition MARK_BIT_OFFSET :: "nat \<Rightarrow> nat" where
  "MARK_BIT_OFFSET sz = BYTES_TO_GRANULES sz"

definition FINAL_MARK_BIT :: "nat \<Rightarrow> nat" where
  "FINAL_MARK_BIT sz =
     (if sz > MAXOBJBYTES then MARK_BITS_PER_HBLK else BYTES_TO_GRANULES (sz * HBLK_OBJS sz))"

definition mark_bit_from_hdr :: "hdr \<Rightarrow> nat \<Rightarrow> bool" where
  "mark_bit_from_hdr hh n = get_bit_entry (hb_marks hh) n"

definition set_mark_bit_from_hdr :: "hdr \<Rightarrow> nat \<Rightarrow> hdr" where
  "set_mark_bit_from_hdr hh n = hh\<lparr> hb_marks := set_bit_entry n (hb_marks hh) \<rparr>"

definition clear_mark_bit_from_hdr :: "hdr \<Rightarrow> nat \<Rightarrow> hdr" where
  "clear_mark_bit_from_hdr hh n = hh\<lparr> hb_marks := clear_bit_entry n (hb_marks hh) \<rparr>"

definition GC_clear_hdr_marks :: "hdr \<Rightarrow> hdr" where
  "GC_clear_hdr_marks hh =
     (let last_bit = FINAL_MARK_BIT (hb_sz hh);
          hh1 = hh\<lparr> hb_marks := (\<lambda>i. if i < MARK_BITS_SZ then 0 else hb_marks hh i) \<rparr> in
      (set_mark_bit_from_hdr hh1 last_bit)\<lparr> hb_n_marks := 0 \<rparr>)"

definition GC_set_hdr_marks :: "hdr \<Rightarrow> hdr" where
  "GC_set_hdr_marks hh =
     (let sz = hb_sz hh; n_marks = FINAL_MARK_BIT sz in
      hh\<lparr> hb_marks := (\<lambda>i. if i < (n_marks + WORDSZ) div WORDSZ then - 1 else hb_marks hh i),
          hb_n_marks := HBLK_OBJS sz \<rparr>)"

section \<open>Marking objects of the heap\<close>

definition PTRFREE :: nat where [gc_consts]: "PTRFREE = 0"
definition NORMAL :: nat where [gc_consts]: "NORMAL = 1"
definition UNCOLLECTABLE :: nat where [gc_consts]: "UNCOLLECTABLE = 2"
definition AUNCOLLECTABLE :: nat where [gc_consts]: "AUNCOLLECTABLE = 3"

text \<open>\<open>((k) & ~1) == UNCOLLECTABLE\<close>\<close>

definition IS_UNCOLLECTABLE :: "nat \<Rightarrow> bool" where
  "IS_UNCOLLECTABLE k \<longleftrightarrow> k - k mod 2 = UNCOLLECTABLE"

text \<open>
  Writing fields of the header of block \<open>h\<close>. The source writes through a \<open>hdr *\<close> it has read
  from the index, so that nothing is written where the index holds no header.
\<close>

definition upd_hdr :: "hblk \<Rightarrow> (hdr \<Rightarrow> hdr) \<Rightarrow> 'a hdr_index_scheme \<Rightarrow> 'a hdr_index_scheme" where
  "upd_hdr h f st = (case HDR st h of Hdr hh \<Rightarrow> SET_HDR h (Hdr (f hh)) st | Fwd _ \<Rightarrow> st)"

definition HBLKPTR :: "addr \<Rightarrow> hblk" where
  "HBLKPTR p = p div HBLKSIZE"

definition GC_set_mark_bit :: "addr \<Rightarrow> 'a hdr_index_scheme \<Rightarrow> 'a hdr_index_scheme" where
  "GC_set_mark_bit p st =
     (let h = HBLKPTR p; bit_no = MARK_BIT_NO (p - hblk_addr h) in
      upd_hdr h (\<lambda>hh. if mark_bit_from_hdr hh bit_no then hh
                      else (set_mark_bit_from_hdr hh bit_no)\<lparr> hb_n_marks := wadd (hb_n_marks hh) 1 \<rparr>) st)"

definition GC_clear_mark_bit :: "addr \<Rightarrow> 'a hdr_index_scheme \<Rightarrow> 'a hdr_index_scheme" where
  "GC_clear_mark_bit p st =
     (let h = HBLKPTR p; bit_no = MARK_BIT_NO (p - hblk_addr h) in
      upd_hdr h (\<lambda>hh. if mark_bit_from_hdr hh bit_no
                      then (clear_mark_bit_from_hdr hh bit_no)\<lparr> hb_n_marks := wsub (hb_n_marks hh) 1 \<rparr>
                      else hh) st)"

text \<open>\<open>None\<close> is the read through a pointer that is no header.\<close>

definition GC_is_marked :: "'a hdr_index_scheme \<Rightarrow> addr \<Rightarrow> bool option" where
  "GC_is_marked st p =
     (let h = HBLKPTR p; bit_no = MARK_BIT_NO (p - hblk_addr h) in
      case HDR st h of Hdr hh \<Rightarrow> Some (mark_bit_from_hdr hh bit_no) | Fwd _ \<Rightarrow> None)"

definition clear_marks_for_block :: "hblk \<Rightarrow> 'a hdr_index_scheme \<Rightarrow> 'a hdr_index_scheme" where
  "clear_marks_for_block h st =
     upd_hdr h (\<lambda>hh. if IS_UNCOLLECTABLE (hb_obj_kind hh) then hh else GC_clear_hdr_marks hh) st"

section \<open>Counting mark bits\<close>

text \<open>The loop of \<open>set_bits\<close> shifts the word until it is 0.\<close>

function set_bits :: "nat \<Rightarrow> nat" where
  "set_bits m = (if m > 0 then m mod 2 + set_bits (m div 2) else 0)"
  by pat_completeness auto
termination
  by (relation "measure id") auto

declare set_bits.simps [simp del]

definition GC_n_set_marks :: "hdr \<Rightarrow> int" where
  "GC_n_set_marks hh =
     (let n_mark_words = MARK_BITS_SZ in
      int (\<Sum>i \<leftarrow> [0 ..< n_mark_words - 1]. set_bits (unat (hb_marks hh i)))
      + int (set_bits (unat (hb_marks hh (n_mark_words - 1)))) - 1)"

section \<open>Object maps\<close>

record obj_maps = hdr_index +
  GC_obj_map :: "nat \<Rightarrow> nat list option"
  GC_valid_offsets :: "nat \<Rightarrow> bool"
  GC_modws_valid_offsets :: "nat \<Rightarrow> bool"
  offsets_initialized :: bool

definition VALID_OFFSET_SZ :: nat where
  [gc_consts]: "VALID_OFFSET_SZ = HBLKSIZE"

definition GC_register_displacement_inner ::
    "nat \<Rightarrow> 'a obj_maps_scheme \<Rightarrow> 'a obj_maps_scheme option" where
  "GC_register_displacement_inner offset st =
     (if offset \<ge> VALID_OFFSET_SZ then None
      else if \<not> GC_valid_offsets st offset
      then Some (st\<lparr> GC_valid_offsets := (GC_valid_offsets st)(offset := True),
                     GC_modws_valid_offsets := (GC_modws_valid_offsets st)(offset mod 4 := True) \<rparr>)
      else Some st)"

definition GC_add_map_entry :: "nat \<Rightarrow> 'a obj_maps_scheme \<Rightarrow> bool \<times> 'a obj_maps_scheme" where
  "GC_add_map_entry granules0 st =
     (let granules = (if granules0 > BYTES_TO_GRANULES MAXOBJBYTES then 0 else granules0) in
      if GC_obj_map st granules \<noteq> None then (True, st)
      else case scratch_request st of
        (False, st1) \<Rightarrow> (False, st1)
      | (True, st1) \<Rightarrow>
          (let new_map = (if granules = 0 then map (\<lambda>displ. 1) [0 ..< BYTES_TO_GRANULES HBLKSIZE]
                          else map (\<lambda>displ. displ mod granules) [0 ..< BYTES_TO_GRANULES HBLKSIZE]) in
           (True, st1\<lparr> GC_obj_map := (GC_obj_map st1)(granules \<mapsto> new_map) \<rparr>)))"

definition GC_initialize_offsets :: "bool \<Rightarrow> 'a obj_maps_scheme \<Rightarrow> 'a obj_maps_scheme" where
  "GC_initialize_offsets interior st =
     (if \<not> offsets_initialized st
      then st\<lparr> GC_valid_offsets := (\<lambda>i. if interior \<and> i < VALID_OFFSET_SZ then True else GC_valid_offsets st i),
               offsets_initialized := True \<rparr>
      else st)"

section \<open>Headers after an update\<close>

lemma HDR_upd_hdr:
  assumes "index_wf st"
  shows "HDR (upd_hdr h f st) b = (if b = h then (case HDR st h of Hdr hh \<Rightarrow> Hdr (f hh) | e \<Rightarrow> e) else HDR st b)"
  using HDR_Hdr_mapped [OF assms, of h]
  by (auto simp: upd_hdr_def HDR_SET_HDR split: hdr_entry.splits)

lemma upd_hdr_frame [simp]:
  "GC_all_bottom_indices (upd_hdr h f st) = GC_all_bottom_indices st"
  "hdr_free_list (upd_hdr h f st) = hdr_free_list st"
  "scratch_ok (upd_hdr h f st) = scratch_ok st"
  "hdr_index.more (upd_hdr h f st) = hdr_index.more st"
  by (auto simp: upd_hdr_def split: hdr_entry.splits)

lemma index_wf_upd_hdr [simp]: "index_wf st \<Longrightarrow> index_wf (upd_hdr h f st)"
  by (auto simp: upd_hdr_def HDR_Hdr_mapped split: hdr_entry.splits)

section \<open>Counting bits\<close>

lemma finite_bits_nat: "finite {i. bit (n::nat) i}"
proof (rule finite_subset)
  have "i < n" if "bit n i" for i
  proof -
    have "\<not> n < 2 ^ i" using that by (auto simp: bit_nat_def)
    then show ?thesis using less_exp [of i] by linarith
  qed
  then show "{i. bit n i} \<subseteq> {..< n}" by auto
qed simp

lemma set_bits_card: "set_bits n = card {i. bit n i}"
proof (induction n rule: set_bits.induct)
  case (1 m)
  show ?case
  proof (cases "m > 0")
    case True
    have "{i. bit m i} = (if odd m then {0} else {}) \<union> Suc ` {i. bit (m div 2) i}" (is "_ = ?A \<union> ?B")
    proof (rule set_eqI)
      fix i show "i \<in> {i. bit m i} \<longleftrightarrow> i \<in> ?A \<union> ?B"
        by (cases i) (auto simp: bit_0 bit_Suc)
    qed
    moreover have "finite ?B" by (simp add: finite_bits_nat)
    ultimately have "card {i. bit m i} = card ?A + card {i. bit (m div 2) i}"
      by (simp add: card_Un_disjoint card_image)
    also have "card ?A = m mod 2" by (simp add: odd_iff_mod_2_eq_one)
    finally show ?thesis using 1 True by (simp add: set_bits.simps [of m])
  qed (simp add: set_bits.simps)
qed

lemma set_bits_unat: "set_bits (unat (w :: 32 word)) = card {i. i < 32 \<and> bit w i}"
proof -
  have "bit (unat w) i \<longleftrightarrow> i < 32 \<and> bit w i" for i
    using bit_imp_le_length [of w i] by (auto simp: bit_unsigned_iff)
  then show ?thesis by (simp add: set_bits_card)
qed

text \<open>The positions of the set bits among the first \<open>n\<close> words of an array.\<close>

definition set_positions :: "bit_words \<Rightarrow> nat \<Rightarrow> nat set" where
  "set_positions a n = {m. m < n * 32 \<and> get_bit_entry a m}"

lemma finite_set_positions [simp]: "finite (set_positions a n)"
  by (simp add: set_positions_def)

lemma sum_set_bits: "(\<Sum>i \<leftarrow> [0 ..< n]. set_bits (unat (a i))) = card (set_positions a n)"
proof (induction n)
  case (Suc n)
  let ?B = "(\<lambda>i. n * 32 + i) ` {i. i < 32 \<and> bit (a n) i}"
  have "set_positions a (Suc n) = set_positions a n \<union> ?B" (is "?L = _")
  proof
    show "?L \<subseteq> set_positions a n \<union> ?B"
    proof
      fix m assume m: "m \<in> ?L"
      show "m \<in> set_positions a n \<union> ?B"
      proof (cases "m < n * 32")
        case False
        then have "m div 32 = n" "m = n * 32 + m mod 32"
          using m by (auto simp: set_positions_def div_nat_eqI dividend_less_div_times)
            (metis add.commute div_mult_mod_eq div_nat_eqI linorder_not_less mult.commute mult_Suc)
        then have "bit (a n) (m mod 32)" using m by (auto simp: set_positions_def get_bit_entry_def)
        then show ?thesis using \<open>m = n * 32 + m mod 32\<close> by (intro UnI2 image_eqI) auto
      qed (use m in \<open>simp add: set_positions_def\<close>)
    qed
    show "set_positions a n \<union> ?B \<subseteq> ?L"
      by (auto simp: set_positions_def get_bit_entry_def)
  qed
  moreover have "set_positions a n \<inter> ?B = {}" by (auto simp: set_positions_def)
  ultimately have "card (set_positions a (Suc n)) = card (set_positions a n) + card {i. i < 32 \<and> bit (a n) i}"
    by (simp add: card_Un_disjoint card_image inj_on_def)
  with Suc show ?case by (simp add: set_bits_unat)
qed (simp add: set_positions_def)

lemma GC_n_set_marks_card: "GC_n_set_marks hh = int (card (set_positions (hb_marks hh) MARK_BITS_SZ)) - 1"
proof -
  have "(\<Sum>i \<leftarrow> [0 ..< MARK_BITS_SZ]. set_bits (unat (hb_marks hh i))) =
      (\<Sum>i \<leftarrow> [0 ..< MARK_BITS_SZ - 1]. set_bits (unat (hb_marks hh i)))
      + set_bits (unat (hb_marks hh (MARK_BITS_SZ - 1)))"
    by (simp add: MARK_BITS_SZ_def)
  then show ?thesis by (simp add: GC_n_set_marks_def Let_def sum_set_bits)
qed

section \<open>The mark bits of a block\<close>

lemma FINAL_MARK_BIT_le: "FINAL_MARK_BIT sz \<le> MARK_BITS_PER_HBLK"
proof -
  have "sz * (4096 div sz) \<le> 4096" by simp
  then have "sz * (4096 div sz) div 8 \<le> 512" by linarith
  then show ?thesis
    by (simp add: FINAL_MARK_BIT_def MARK_BITS_PER_HBLK_def HBLKSIZE_def GRANULE_BYTES_def
        BYTES_TO_GRANULES_def HBLK_OBJS_def)
qed

text \<open>
  The bits of objects that are marked, when the final bit is set and the count is exact.
\<close>

definition marks_are :: "nat set \<Rightarrow> hdr \<Rightarrow> bool" where
  "marks_are S hh \<longleftrightarrow> S \<subseteq> {..< FINAL_MARK_BIT (hb_sz hh)}
     \<and> set_positions (hb_marks hh) MARK_BITS_SZ = insert (FINAL_MARK_BIT (hb_sz hh)) S
     \<and> hb_n_marks hh = card S"

lemma marks_are_exact:
  assumes "marks_are S hh"
  shows "int (hb_n_marks hh) = GC_n_set_marks hh"
    "n < FINAL_MARK_BIT (hb_sz hh) \<Longrightarrow> mark_bit_from_hdr hh n \<longleftrightarrow> n \<in> S"
proof -
  have S: "finite S" "FINAL_MARK_BIT (hb_sz hh) \<notin> S"
    using assms finite_subset [of S "{..< FINAL_MARK_BIT (hb_sz hh)}"] by (auto simp: marks_are_def)
  then show "int (hb_n_marks hh) = GC_n_set_marks hh"
    using assms by (simp add: GC_n_set_marks_card marks_are_def)
  show "n < FINAL_MARK_BIT (hb_sz hh) \<Longrightarrow> mark_bit_from_hdr hh n \<longleftrightarrow> n \<in> S"
  proof -
    assume n: "n < FINAL_MARK_BIT (hb_sz hh)"
    then have "n < MARK_BITS_SZ * 32"
      using FINAL_MARK_BIT_le [of "hb_sz hh"] by (simp add: gc_consts)
    then have "mark_bit_from_hdr hh n \<longleftrightarrow> n \<in> set_positions (hb_marks hh) MARK_BITS_SZ"
      by (simp add: set_positions_def mark_bit_from_hdr_def)
    with assms n show ?thesis by (simp add: marks_are_def)
  qed
qed

lemma marks_are_clear: "marks_are {} (GC_clear_hdr_marks hh)"
proof -
  let ?z = "\<lambda>i. if i < MARK_BITS_SZ then 0 else hb_marks hh i"
  have "\<not> get_bit_entry ?z m" if "m < MARK_BITS_SZ * 32" for m
    using that by (simp add: get_bit_entry_def less_mult_imp_div_less)
  moreover have "FINAL_MARK_BIT (hb_sz hh) < MARK_BITS_SZ * 32"
    using FINAL_MARK_BIT_le [of "hb_sz hh"] by (simp add: gc_consts)
  ultimately show ?thesis
    by (auto simp: marks_are_def GC_clear_hdr_marks_def Let_def set_mark_bit_from_hdr_def set_positions_def)
qed

lemma set_positions_set:
  "n < k * 32 \<Longrightarrow> set_positions (set_bit_entry n a) k = insert n (set_positions a k)"
  by (auto simp: set_positions_def)

lemma set_positions_clear: "set_positions (clear_bit_entry n a) k = set_positions a k - {n}"
  by (auto simp: set_positions_def)

definition set_mark :: "nat \<Rightarrow> hdr \<Rightarrow> hdr" where
  "set_mark n hh = (if mark_bit_from_hdr hh n then hh
                    else (set_mark_bit_from_hdr hh n)\<lparr> hb_n_marks := wadd (hb_n_marks hh) 1 \<rparr>)"

definition clear_mark :: "nat \<Rightarrow> hdr \<Rightarrow> hdr" where
  "clear_mark n hh = (if mark_bit_from_hdr hh n
                      then (clear_mark_bit_from_hdr hh n)\<lparr> hb_n_marks := wsub (hb_n_marks hh) 1 \<rparr> else hh)"

lemma mark_sz [simp]: "hb_sz (set_mark n hh) = hb_sz hh" "hb_sz (clear_mark n hh) = hb_sz hh"
  "hb_sz (GC_clear_hdr_marks hh) = hb_sz hh"
  by (simp_all add: set_mark_def clear_mark_def set_mark_bit_from_hdr_def clear_mark_bit_from_hdr_def
      GC_clear_hdr_marks_def Let_def)

lemma marks_are_bound:
  assumes "marks_are S hh"
  shows "finite S" "card S \<le> 512"
proof -
  have "S \<subseteq> {..< 512}" using assms FINAL_MARK_BIT_le [of "hb_sz hh"]
    by (auto simp: marks_are_def gc_consts)
  then show "finite S" "card S \<le> 512"
    using finite_subset card_mono [of "{..< 512::nat}" S] by auto
qed

lemma marks_are_set:
  assumes m: "marks_are S hh" and n: "n < FINAL_MARK_BIT (hb_sz hh)"
  shows "marks_are (insert n S) (set_mark n hh)"
proof (cases "n \<in> S")
  case True
  then have "set_mark n hh = hh" using marks_are_exact(2) [OF m n] by (simp add: set_mark_def)
  with m True show ?thesis by (simp add: insert_absorb)
next
  case False
  have lt: "n < MARK_BITS_SZ * 32" using n FINAL_MARK_BIT_le [of "hb_sz hh"] by (simp add: gc_consts)
  with False m n marks_are_exact(2) [OF m n] marks_are_bound [OF m] show ?thesis
    by (auto simp: marks_are_def set_mark_def set_mark_bit_from_hdr_def set_positions_set wadd_def word32_def)
qed

lemma marks_are_clear_mark:
  assumes m: "marks_are S hh" and n: "n < FINAL_MARK_BIT (hb_sz hh)"
  shows "marks_are (S - {n}) (clear_mark n hh)"
proof (cases "n \<in> S")
  case False
  then have "clear_mark n hh = hh" using marks_are_exact(2) [OF m n] by (simp add: clear_mark_def)
  with m False show ?thesis by simp
next
  case True
  have "0 < card S" using True marks_are_bound [OF m] by (auto simp: card_gt_0_iff)
  then have "wsub (card S) 1 = card S - 1" using marks_are_bound [OF m] by (intro wsub_id) auto
  with True m n marks_are_exact(2) [OF m n] show ?thesis
    by (auto simp: marks_are_def clear_mark_def clear_mark_bit_from_hdr_def set_positions_clear)
qed

text \<open>A history of marking and unmarking objects, and the set of bits it should leave set.\<close>

datatype mark_op = Mark addr | Unmark addr

primrec mark_op_addr :: "mark_op \<Rightarrow> addr" where
  "mark_op_addr (Mark p) = p"
| "mark_op_addr (Unmark p) = p"

primrec run_mark_op :: "mark_op \<Rightarrow> 'a hdr_index_scheme \<Rightarrow> 'a hdr_index_scheme" where
  "run_mark_op (Mark p) = GC_set_mark_bit p"
| "run_mark_op (Unmark p) = GC_clear_mark_bit p"

definition op_bit :: "mark_op \<Rightarrow> nat" where
  "op_bit m = MARK_BIT_NO (mark_op_addr m - hblk_addr (HBLKPTR (mark_op_addr m)))"

primrec op_effect :: "mark_op \<Rightarrow> nat set \<Rightarrow> nat set" where
  "op_effect (Mark p) S = insert (op_bit (Mark p)) S"
| "op_effect (Unmark p) S = S - {op_bit (Unmark p)}"

lemma run_mark_op_hdr:
  "run_mark_op m st = upd_hdr (HBLKPTR (mark_op_addr m))
     (case m of Mark _ \<Rightarrow> set_mark (op_bit m) | Unmark _ \<Rightarrow> clear_mark (op_bit m)) st"
  by (cases m) (simp_all add: GC_set_mark_bit_def GC_clear_mark_bit_def Let_def op_bit_def
      set_mark_def [abs_def] clear_mark_def [abs_def])

lemma run_mark_ops_marks:
  assumes "index_wf st" "HDR st h = Hdr hh" "marks_are S hh"
    "list_all (\<lambda>m. HBLKPTR (mark_op_addr m) = h \<and> op_bit m < FINAL_MARK_BIT (hb_sz hh)) ops"
  shows "\<exists>hh'. HDR (fold run_mark_op ops st) h = Hdr hh' \<and> hb_sz hh' = hb_sz hh
           \<and> marks_are (fold op_effect ops S) hh'"
  using assms
proof (induction ops arbitrary: st hh S)
  case (Cons m ops)
  let ?hh = "(case m of Mark _ \<Rightarrow> set_mark (op_bit m) | Unmark _ \<Rightarrow> clear_mark (op_bit m)) hh"
  have h: "HBLKPTR (mark_op_addr m) = h" and b: "op_bit m < FINAL_MARK_BIT (hb_sz hh)"
    using Cons.prems(4) by auto
  have 1: "HDR (run_mark_op m st) h = Hdr ?hh" "index_wf (run_mark_op m st)"
    using Cons.prems(1,2) h by (simp_all add: run_mark_op_hdr HDR_upd_hdr)
  have 2: "marks_are (op_effect m S) ?hh" "hb_sz ?hh = hb_sz hh"
    using marks_are_set [OF Cons.prems(3) b] marks_are_clear_mark [OF Cons.prems(3) b]
    by (cases m; simp)+
  from Cons.IH [OF 1(2,1) 2(1)] Cons.prems(4) 2(2) show ?case by simp
qed auto

section \<open>Maps in use\<close>

definition map_for :: "nat \<Rightarrow> nat list" where
  "map_for g = (if g = 0 then map (\<lambda>displ. 1) [0 ..< BYTES_TO_GRANULES HBLKSIZE]
                else map (\<lambda>displ. displ mod g) [0 ..< BYTES_TO_GRANULES HBLKSIZE])"

definition maps_ok :: "'a obj_maps_scheme \<Rightarrow> bool" where
  "maps_ok st \<longleftrightarrow> (\<forall>g m. GC_obj_map st g = Some m \<longrightarrow> g \<le> BYTES_TO_GRANULES MAXOBJBYTES \<and> m = map_for g)"

lemma GC_add_map_entry_spec:
  assumes "GC_add_map_entry g st = (ok, st')" "maps_ok st"
  shows "maps_ok st'" "HDR st' = HDR st" "index_wf st' = index_wf st"
    "ok \<Longrightarrow> GC_obj_map st' (if g > BYTES_TO_GRANULES MAXOBJBYTES then 0 else g) \<noteq> None"
proof -
  obtain ok1 st1 where r: "scratch_request st = (ok1, st1)" by fastforce
  note s = scratch_request_simps [OF r]
  have gm: "GC_obj_map st1 = GC_obj_map st" "maps_ok st1 = maps_ok st"
    using r by (auto simp: scratch_request_def maps_ok_def)
  show "maps_ok st'"
    using assms r gm unfolding GC_add_map_entry_def Let_def map_for_def [symmetric]
    by (auto simp: maps_ok_def split: if_splits bool.splits)
  show "HDR st' = HDR st" "index_wf st' = index_wf st"
    using assms(1) r s unfolding GC_add_map_entry_def Let_def
    by (auto simp: index_wf_def intro!: HDR_cong split: if_splits bool.splits)
  show "ok \<Longrightarrow> GC_obj_map st' (if g > BYTES_TO_GRANULES MAXOBJBYTES then 0 else g) \<noteq> None"
    using assms(1) r unfolding GC_add_map_entry_def Let_def
    by (auto split: if_splits bool.splits)
qed

section \<open>Properties\<close>

text \<open>
  C11. The count of marked objects of a block is exact: after \<open>GC_clear_hdr_marks\<close> and any
  history of \<open>GC_set_mark_bit\<close> and \<open>GC_clear_mark_bit\<close> on objects of the block, \<open>hb_n_marks\<close>
  is the number that \<open>GC_n_set_marks\<close> counts, and exactly the bits are set that the history
  leaves marked. In particular a count of 0 means that the block is empty.
\<close>

theorem n_marks_exact:
  assumes "index_wf st" "HDR st h = Hdr hh"
    "list_all (\<lambda>m. HBLKPTR (mark_op_addr m) = h \<and> op_bit m < FINAL_MARK_BIT (hb_sz hh)) ops"
  shows "\<exists>hh'. HDR (fold run_mark_op ops (upd_hdr h GC_clear_hdr_marks st)) h = Hdr hh'
    \<and> int (hb_n_marks hh') = GC_n_set_marks hh'
    \<and> (\<forall>n < FINAL_MARK_BIT (hb_sz hh). mark_bit_from_hdr hh' n \<longleftrightarrow> n \<in> fold op_effect ops {})
    \<and> (hb_n_marks hh' = 0 \<longleftrightarrow> fold op_effect ops {} = {})"
proof -
  let ?st = "upd_hdr h GC_clear_hdr_marks st"
  have "HDR ?st h = Hdr (GC_clear_hdr_marks hh)" "index_wf ?st"
    using assms(1,2) by (simp_all add: HDR_upd_hdr)
  then obtain hh' where hh': "HDR (fold run_mark_op ops ?st) h = Hdr hh'" "hb_sz hh' = hb_sz hh"
      "marks_are (fold op_effect ops {}) hh'"
    using run_mark_ops_marks [OF _ _ marks_are_clear, of ?st h hh ops] assms(3) by auto
  have "hb_n_marks hh' = card (fold op_effect ops {})" using hh'(3) by (simp add: marks_are_def)
  with hh' marks_are_exact [OF hh'(3)] marks_are_bound(1) [OF hh'(3)] show ?thesis by auto
qed

theorem n_marks_exact_witness:
  "\<exists>hh'. HDR (fold run_mark_op [Mark 20480, Mark 20480, Mark 20488, Unmark 20480]
                (upd_hdr 5 GC_clear_hdr_marks sample_index)) 5 = Hdr hh'
     \<and> mark_bit_from_hdr hh' 1 \<and> \<not> mark_bit_from_hdr hh' 0"
proof -
  have "FINAL_MARK_BIT (hb_sz sample_hdr) = 512" by (simp add: FINAL_MARK_BIT_def gc_consts)
  then show ?thesis
    using n_marks_exact [OF index_wf_sample, of 5 sample_hdr "[Mark 20480, Mark 20480, Mark 20488, Unmark 20480]"]
    by (auto simp: HDR_sample op_bit_def HBLKPTR_def MARK_BIT_NO_def BYTES_TO_GRANULES_def hblk_addr_def HBLKSIZE_def)
qed

text \<open>
  C33. The object map installed by \<open>GC_add_map_entry\<close> leads from every granule of a block
  to the start of its object: the entry is smaller than the object size, and going back that
  many granules gives a multiple of it. Large objects share the map of size 0, whose entries
  are all nonzero. A request that cannot get memory changes no map.
\<close>

theorem add_map_entry_object_start:
  assumes "GC_add_map_entry g st = (ok, st')" "maps_ok st"
  shows "maps_ok st' \<and>
    (ok \<longrightarrow> (if 0 < g \<and> g \<le> BYTES_TO_GRANULES MAXOBJBYTES
            then \<exists>m. GC_obj_map st' g = Some m \<and> (\<forall>d < BYTES_TO_GRANULES HBLKSIZE.
                   m ! d < g \<and> m ! d \<le> d \<and> g dvd d - m ! d)
            else \<exists>m. GC_obj_map st' 0 = Some m \<and> (\<forall>d < BYTES_TO_GRANULES HBLKSIZE. m ! d \<noteq> 0))) \<and>
    (\<not> ok \<longrightarrow> GC_obj_map st' = GC_obj_map st)"
proof -
  note sp = GC_add_map_entry_spec [OF assms]
  let ?B = "BYTES_TO_GRANULES HBLKSIZE"
  have "\<exists>m. GC_obj_map st' g = Some m \<and> (\<forall>d < ?B. m ! d < g \<and> m ! d \<le> d \<and> g dvd d - m ! d)"
    if g: "ok" "0 < g" "g \<le> BYTES_TO_GRANULES MAXOBJBYTES"
  proof -
    obtain m where m: "GC_obj_map st' g = Some m" using sp(4) g by auto
    then have "m = map_for g" using sp(1) by (auto simp: maps_ok_def)
    then have "m = map (\<lambda>displ. displ mod g) [0 ..< ?B]" using g by (simp add: map_for_def)
    with m g show ?thesis by (auto simp: dvd_minus_mod)
  qed
  moreover have "\<exists>m. GC_obj_map st' 0 = Some m \<and> (\<forall>d < ?B. m ! d \<noteq> 0)"
    if g: "ok" "\<not> (0 < g \<and> g \<le> BYTES_TO_GRANULES MAXOBJBYTES)"
  proof -
    obtain m where m: "GC_obj_map st' 0 = Some m" using sp(4) g by (auto split: if_splits)
    then have "m = map_for 0" using sp(1) by (auto simp: maps_ok_def)
    then have "m = map (\<lambda>displ. 1) [0 ..< ?B]" by (simp add: map_for_def)
    with m show ?thesis by auto
  qed
  moreover have "\<not> ok \<Longrightarrow> GC_obj_map st' = GC_obj_map st"
    using assms(1) by (auto simp: GC_add_map_entry_def Let_def scratch_request_def split: if_splits bool.splits)
  ultimately show ?thesis using sp(1) by auto
qed

definition sample_maps :: obj_maps where
  "sample_maps = hdr_index.extend sample_base
     \<lparr> GC_obj_map = (\<lambda>_. None), GC_valid_offsets = (\<lambda>_. False), GC_modws_valid_offsets = (\<lambda>_. False),
       offsets_initialized = False \<rparr>"

theorem add_map_entry_object_start_witness:
  "\<exists>m st'. GC_add_map_entry 3 sample_maps = (True, st') \<and> GC_obj_map st' 3 = Some m \<and> m ! 500 = 2"
proof -
  have "maps_ok sample_maps" by (simp add: maps_ok_def sample_maps_def hdr_index.defs)
  moreover obtain ok st' where r: "GC_add_map_entry 3 sample_maps = (ok, st')" by fastforce
  moreover have "scratch_ok sample_maps 0"
    by (simp add: sample_maps_def sample_base_def hdr_index.defs)
  then have ok
    using r by (auto simp: GC_add_map_entry_def Let_def sample_maps_def hdr_index.defs scratch_request_def)
  ultimately obtain m where m: "GC_obj_map st' 3 = Some m" "m ! 500 < 3" "m ! 500 \<le> 500" "3 dvd 500 - m ! 500"
    using add_map_entry_object_start [of 3 sample_maps ok st']
    by (auto simp: BYTES_TO_GRANULES_def MAXOBJBYTES_def HBLKSIZE_def)
  then have "m ! 500 = 2" by presburger
  with m r \<open>ok\<close> show ?thesis by auto
qed

end
