(* ===== verification/Heap_Blocks.thy ===== *)
theory Heap_Blocks
  imports Obj_Map Blacklist
begin

text \<open>
  The allocator of heap blocks (\<^verbatim>\<open>bdwgc/allchblk.c\<close>): free blocks on doubly linked lists by
  size class, allocation with splitting and avoidance of black listed blocks, deallocation
  with coalescing, and the counters kept beside the lists. The invariant \<open>heap_inv\<close> says that
  the headers tile the heap, that the free lists hold exactly the free blocks of their size
  class, and that the counters are the sums of the lists.

  A header is always reached through its block. This is what the code does except inside
  \<open>GC_allochblk_nth\<close>, which keeps the pointer \<open>hhdr\<close> over the call of \<open>GC_get_first_part\<close>; the two
  agree unless the request is for 0 bytes, where the rest of the block starts at the block.
\<close>

section \<open>State\<close>

text \<open>
  The part of \<open>struct obj_kind\<close> the block allocator reads. The static variable \<open>count\<close> of
  \<open>GC_allochblk_nth\<close> is \<open>drop_count\<close>. \<open>GC_mem\<close> is the contents of the heap, by word address.
  \<open>should_collect\<close> is the answer of \<open>GC_should_collect\<close> in \<^verbatim>\<open>alloc.c\<close>.
\<close>

record obj_kind =
  ok_descriptor :: nat
  ok_relocate_descr :: bool
  ok_init :: bool

record gc_heap = obj_maps +
  GC_hblkfreelist :: "nat \<Rightarrow> hblk"
  GC_free_bytes :: "nat \<Rightarrow> nat"
  GC_large_free_bytes :: nat
  GC_large_allocd_bytes :: nat
  GC_max_large_allocd_bytes :: nat
  GC_heapsize :: nat
  GC_requested_heapsize :: nat
  GC_bytes_dropped :: nat
  GC_finalizer_bytes_freed :: nat
  GC_fail_count :: nat
  GC_gc_no :: nat
  GC_large_alloc_warn_suppressed :: nat
  GC_large_alloc_warn_interval :: nat
  drop_count :: nat
  GC_use_entire_heap :: bool
  GC_dont_gc :: bool
  GC_incremental :: bool
  GC_find_leak :: bool
  GC_debugging_started :: bool
  should_collect :: bool
  GC_obj_kinds :: "nat \<Rightarrow> obj_kind"
  GC_black_lists :: black_lists
  GC_mem :: "nat \<Rightarrow> 32 word"

section \<open>Size classes\<close>

definition MAX_BLACK_LIST_ALLOC :: nat where
  [gc_consts]: "MAX_BLACK_LIST_ALLOC = 2 * HBLKSIZE"

definition UNIQUE_THRESHOLD :: nat where
  [gc_consts]: "UNIQUE_THRESHOLD = 32"

definition HUGE_THRESHOLD :: nat where
  [gc_consts]: "HUGE_THRESHOLD = 256"

definition FL_COMPRESSION :: nat where
  [gc_consts]: "FL_COMPRESSION = 8"

definition N_HBLK_FLS :: nat where
  [gc_consts]: "N_HBLK_FLS = (HUGE_THRESHOLD - UNIQUE_THRESHOLD) div FL_COMPRESSION + UNIQUE_THRESHOLD"

definition GC_hblk_fl_from_blocks :: "nat \<Rightarrow> nat" where
  "GC_hblk_fl_from_blocks blocks_needed =
     (if blocks_needed \<le> UNIQUE_THRESHOLD then blocks_needed
      else if blocks_needed \<ge> HUGE_THRESHOLD then N_HBLK_FLS
      else (blocks_needed - UNIQUE_THRESHOLD) div FL_COMPRESSION + UNIQUE_THRESHOLD)"

text \<open>The loop of \<open>GC_enough_large_bytes_left\<close> over the lists \<open>n\<close>, \<open>n - 1\<close>, ..., 0.\<close>

fun enough_large_bytes :: "'a gc_heap_scheme \<Rightarrow> nat \<Rightarrow> nat \<Rightarrow> nat" where
  "enough_large_bytes st bytes n =
     (let bytes' = wadd bytes (GC_free_bytes st n) in
      if bytes' \<ge> GC_max_large_allocd_bytes st then n
      else case n of 0 \<Rightarrow> 0 | Suc n' \<Rightarrow> enough_large_bytes st bytes' n')"

definition GC_enough_large_bytes_left :: "'a gc_heap_scheme \<Rightarrow> nat" where
  "GC_enough_large_bytes_left st = enough_large_bytes st (GC_large_allocd_bytes st) N_HBLK_FLS"

text \<open>
  \<open>OBJ_SZ_TO_BLOCKS\<close> as the machine computes it: the sum that rounds up wraps around for
  sizes within one block of the word size.
\<close>

definition obj_sz_to_blocks :: "nat \<Rightarrow> nat" where
  "obj_sz_to_blocks sz = divHBLKSZ (wadd sz (HBLKSIZE - 1))"

section \<open>Headers of blocks\<close>

definition setup_header ::
    "hblk \<Rightarrow> nat \<Rightarrow> nat \<Rightarrow> 8 word \<Rightarrow> 'a gc_heap_scheme \<Rightarrow> bool \<times> 'a gc_heap_scheme" where
  "setup_header block byte_sz kind flags st =
     (let ok = GC_obj_kinds st kind;
          descr = (if ok_relocate_descr ok then wadd (ok_descriptor ok) byte_sz else ok_descriptor ok);
          large = byte_sz > MAXOBJBYTES;
          st1 = upd_hdr block (\<lambda>hh. hh\<lparr> hb_sz := byte_sz, hb_obj_kind := kind mod 256, hb_flags := flags,
                                        hb_block := block, hb_descr := descr, hb_large_block := large \<rparr>) st;
          granules = BYTES_TO_GRANULES byte_sz in
      case GC_add_map_entry granules st1 of
        (False, st2) \<Rightarrow>
          (False, upd_hdr block (\<lambda>hh. hh\<lparr> hb_sz := HBLKSIZE, hb_descr := 0, hb_large_block := True,
                                          hb_map := None \<rparr>) st2)
      | (True, st2) \<Rightarrow>
          (True, upd_hdr block (\<lambda>hh. (GC_clear_hdr_marks (hh\<lparr> hb_map := Some (if large then 0 else granules) \<rparr>))
                                       \<lparr> hb_last_reclaimed := GC_gc_no st2 mod 2 ^ 16 \<rparr>) st2))"

section \<open>Free lists\<close>

definition hdr_at :: "'a hdr_index_scheme \<Rightarrow> hblk \<Rightarrow> hdr" where
  "hdr_at st h = (case HDR st h of Hdr hh \<Rightarrow> hh | Fwd _ \<Rightarrow> zero_hdr)"

definition INCR_FREE_BYTES :: "nat \<Rightarrow> nat \<Rightarrow> 'a gc_heap_scheme \<Rightarrow> 'a gc_heap_scheme" where
  "INCR_FREE_BYTES n b st = st\<lparr> GC_free_bytes := (GC_free_bytes st)(n := wadd (GC_free_bytes st n) b) \<rparr>"

definition DECR_FREE_BYTES :: "nat \<Rightarrow> nat \<Rightarrow> 'a gc_heap_scheme \<Rightarrow> 'a gc_heap_scheme" where
  "DECR_FREE_BYTES n b st = st\<lparr> GC_free_bytes := (GC_free_bytes st)(n := wsub (GC_free_bytes st n) b) \<rparr>"

text \<open>The list index \<open>None\<close> is \<open>FL_UNKNOWN\<close>.\<close>

definition GC_remove_from_fl :: "hblk \<Rightarrow> nat option \<Rightarrow> 'a gc_heap_scheme \<Rightarrow> 'a gc_heap_scheme" where
  "GC_remove_from_fl h n st =
     (let hhdr = hdr_at st h;
          index = (case n of None \<Rightarrow> GC_hblk_fl_from_blocks (divHBLKSZ (hb_sz hhdr)) | Some i \<Rightarrow> i);
          st1 = (if hb_prev hhdr = 0
                 then st\<lparr> GC_hblkfreelist := (GC_hblkfreelist st)(index := hb_next hhdr) \<rparr>
                 else upd_hdr (hb_prev hhdr) (\<lambda>phdr. phdr\<lparr> hb_next := hb_next hhdr \<rparr>) st);
          st2 = DECR_FREE_BYTES index (hb_sz hhdr) st1 in
      if hb_next hhdr \<noteq> 0
      then upd_hdr (hb_next hhdr) (\<lambda>nhdr. nhdr\<lparr> hb_prev := hb_prev hhdr \<rparr>) st2
      else st2)"

text \<open>Walking back over forwarding counts; stops at a header or at an empty entry.\<close>

function walk_back :: "'a hdr_index_scheme \<Rightarrow> hblk \<Rightarrow> hblk" where
  "walk_back st p =
     (case HDR st p of
        Hdr _ \<Rightarrow> p
      | Fwd k \<Rightarrow> (if k = 0 \<or> p = 0 then p else walk_back st (p - k)))"
  by pat_completeness auto
termination
  by (relation "measure (\<lambda>(st, p). p)") auto

declare walk_back.simps [simp del]

definition GC_free_block_ending_at :: "'a hdr_index_scheme \<Rightarrow> hblk \<Rightarrow> hblk" where
  "GC_free_block_ending_at st h =
     (let p = walk_back st (h - 1) in
      case HDR st p of
        Hdr phdr \<Rightarrow> (if HBLK_IS_FREE phdr then p else 0)
      | Fwd _ \<Rightarrow>
          (let p = GC_prev_block st (h - 1) in
           if p \<noteq> 0
           then (let phdr = hdr_at st p in
                 if HBLK_IS_FREE phdr \<and> hblk_addr p + hb_sz phdr = hblk_addr h then p else 0)
           else 0))"

definition GC_add_to_fl :: "hblk \<Rightarrow> 'a gc_heap_scheme \<Rightarrow> 'a gc_heap_scheme" where
  "GC_add_to_fl h st =
     (let hhdr = hdr_at st h;
          index = GC_hblk_fl_from_blocks (divHBLKSZ (hb_sz hhdr));
          second = GC_hblkfreelist st index;
          st1 = st\<lparr> GC_hblkfreelist := (GC_hblkfreelist st)(index := h) \<rparr>;
          st2 = INCR_FREE_BYTES index (hb_sz hhdr) st1;
          st3 = upd_hdr h (\<lambda>hh. hh\<lparr> hb_next := second, hb_prev := 0 \<rparr>) st2;
          st4 = (if second \<noteq> 0 then upd_hdr second (\<lambda>shdr. shdr\<lparr> hb_prev := h \<rparr>) st3 else st3) in
      upd_hdr h (\<lambda>hh. hh\<lparr> hb_flags := hb_flags hh OR FREE_BLK \<rparr>) st4)"

section \<open>Splitting\<close>

text \<open>The result 0 says that no header could be allocated for the rest of the block.\<close>

definition GC_get_first_part ::
    "hblk \<Rightarrow> nat \<Rightarrow> nat \<Rightarrow> 'a gc_heap_scheme \<Rightarrow> hblk \<times> 'a gc_heap_scheme" where
  "GC_get_first_part h bytes index st =
     (let total_size = hb_sz (hdr_at st h);
          st1 = GC_remove_from_fl h (Some index) st in
      if total_size = bytes then (h, st1)
      else
        (let rest = h + divHBLKSZ bytes in
         case GC_install_header rest st1 of
           (None, st2) \<Rightarrow> (0, st2)
         | (Some _, st2) \<Rightarrow>
             (h, GC_add_to_fl rest
                   (upd_hdr rest (\<lambda>rh. rh\<lparr> hb_sz := total_size - bytes, hb_flags := 0 \<rparr>) st2))))"

definition GC_split_block :: "hblk \<Rightarrow> hblk \<Rightarrow> nat \<Rightarrow> 'a gc_heap_scheme \<Rightarrow> 'a gc_heap_scheme" where
  "GC_split_block h n index st =
     (let hhdr = hdr_at st h;
          total_size = hb_sz hhdr;
          h_size = hblk_addr n - hblk_addr h;
          prev = hb_prev hhdr;
          nxt = hb_next hhdr;
          st1 = upd_hdr n (\<lambda>nh. nh\<lparr> hb_prev := prev, hb_next := nxt, hb_sz := total_size - h_size,
                                    hb_flags := 0 \<rparr>) st;
          st2 = (if prev \<noteq> 0 then upd_hdr prev (\<lambda>ph. ph\<lparr> hb_next := n \<rparr>) st1
                 else st1\<lparr> GC_hblkfreelist := (GC_hblkfreelist st1)(index := n) \<rparr>);
          st3 = (if nxt \<noteq> 0 then upd_hdr nxt (\<lambda>xh. xh\<lparr> hb_prev := n \<rparr>) st2 else st2);
          st4 = DECR_FREE_BYTES index h_size st3;
          st5 = upd_hdr h (\<lambda>hh. hh\<lparr> hb_sz := h_size \<rparr>) st4;
          st6 = GC_add_to_fl h st5 in
      upd_hdr n (\<lambda>nh. nh\<lparr> hb_flags := hb_flags nh OR FREE_BLK \<rparr>) st6)"

section \<open>Allocation\<close>

text \<open>
  The search for a place in a free block that starts outside the black lists:
  \<open>lasthbp\<close> moves forward as long as the range behind it is black listed.
\<close>

function skip_black_listed :: "black_lists \<Rightarrow> nat \<Rightarrow> hblk \<Rightarrow> hblk \<Rightarrow> hblk" where
  "skip_black_listed bl eff_size_needed search_end lasthbp =
     (if lasthbp \<le> search_end
      then (let thishbp = GC_is_black_listed bl lasthbp eff_size_needed in
            if thishbp \<noteq> 0 then skip_black_listed bl eff_size_needed search_end thishbp else lasthbp)
      else lasthbp)"
  by pat_completeness auto
termination
proof (relation "measure (\<lambda>(bl, eff, e, l). Suc e - l)", goal_cases)
  case (2 bl eff e l x)
  then show ?case using GC_is_black_listed_result [of bl l eff x] by auto
qed simp

declare skip_black_listed.simps [simp del]

definition bzero_block :: "hblk \<Rightarrow> (nat \<Rightarrow> 32 word) \<Rightarrow> nat \<Rightarrow> 32 word" where
  "bzero_block h mem = (\<lambda>w. if w div (HBLKSIZE div 4) = h then 0 else mem w)"

text \<open>
  Dropping a completely black listed block: it is taken off its list and handed out as
  pointer-free blocks of one heap block each. The loop runs over \<open>[hbp ..< limit]\<close>.
\<close>

definition drop_one :: "hblk \<Rightarrow> hblk \<Rightarrow> 'a gc_heap_scheme \<Rightarrow> 'a gc_heap_scheme" where
  "drop_one hbp h st =
     (case (if h = hbp then (True, st)
            else case GC_install_header h st of (r, st1) \<Rightarrow> (r \<noteq> None, st1)) of
        (False, st1) \<Rightarrow> st1
      | (True, st1) \<Rightarrow>
          (let st2 = snd (setup_header h HBLKSIZE PTRFREE 0 st1) in
           if GC_debugging_started st2 then st2\<lparr> GC_mem := bzero_block h (GC_mem st2) \<rparr> else st2))"

definition drop_block :: "hblk \<Rightarrow> nat \<Rightarrow> 'a gc_heap_scheme \<Rightarrow> 'a gc_heap_scheme" where
  "drop_block hbp n st =
     (let total_size = hb_sz (hdr_at st hbp);
          limit = hbp + divHBLKSZ total_size;
          st1 = st\<lparr> GC_large_free_bytes := wsub (GC_large_free_bytes st) total_size,
                    GC_bytes_dropped := wadd (GC_bytes_dropped st) total_size \<rparr>;
          st2 = GC_remove_from_fl hbp (Some n) st1 in
      fold (drop_one hbp) [hbp ..< limit] st2)"

definition next_is_better :: "nat \<Rightarrow> hdr \<Rightarrow> 'a gc_heap_scheme \<Rightarrow> bool" where
  "next_is_better size_needed hhdr st \<longleftrightarrow>
     (let thishbp = hb_next hhdr in
      thishbp \<noteq> 0 \<and>
      (let next_size = signed_word (hb_sz (hdr_at st thishbp)) in
       next_size < signed_word (hb_sz hhdr) \<and> next_size \<ge> signed_word size_needed
       \<and> GC_is_black_listed (GC_black_lists st) thishbp size_needed = 0))"

text \<open>
  The search of \<open>GC_allochblk_nth\<close> from block \<open>hbp\<close> of free list \<open>n\<close> on. The result is the
  block to use, taken off its list, or 0. Dropping the first block of the list starts the
  search again, as the call of \<open>GC_allochblk_nth\<close> in tail position does. \<open>None\<close> is a
  search that does not return, or that reads through a pointer that is no header.
\<close>

partial_function (option) allochblk_search ::
    "nat \<Rightarrow> nat \<Rightarrow> 8 word \<Rightarrow> nat \<Rightarrow> bool \<Rightarrow> hblk \<Rightarrow> 'a gc_heap_scheme \<Rightarrow> (hblk \<times> 'a gc_heap_scheme) option" where
  "allochblk_search size_needed kind flags n may_split hbp st =
     (if hbp = 0 then Some (0, st)
      else case HDR st hbp of
        Fwd _ \<Rightarrow> None
      | Hdr hhdr \<Rightarrow>
        (let size_avail = signed_word (hb_sz hhdr); needed = signed_word size_needed in
         if size_avail < needed
         then allochblk_search size_needed kind flags n may_split (hb_next hhdr) st
         else if size_avail \<noteq> needed \<and> (\<not> may_split \<or> next_is_better size_needed hhdr st)
         then allochblk_search size_needed kind flags n may_split (hb_next hhdr) st
         else if IS_UNCOLLECTABLE kind \<or> (kind = PTRFREE \<and> size_needed \<le> MAX_BLACK_LIST_ALLOC)
         then Some (GC_get_first_part hbp size_needed n st)
         else
           (let search_end = hbp + divHBLKSZ (nat (size_avail - needed));
                eff_size_needed = (if flags AND IGNORE_OFF_PAGE \<noteq> 0 then HBLKSIZE else size_needed);
                bl_limit = int (GC_black_list_spacing (GC_black_lists st));
                thishbp = skip_black_listed (GC_black_lists st) eff_size_needed search_end hbp;
                avail = size_avail - int (hblk_addr thishbp - hblk_addr hbp) in
            if avail \<ge> needed
            then (if thishbp \<noteq> hbp
                  then (case GC_install_header thishbp st of
                          (None, st1) \<Rightarrow> Some (GC_get_first_part hbp size_needed n st1)
                        | (Some _, st1) \<Rightarrow>
                            Some (GC_get_first_part thishbp size_needed n (GC_split_block hbp thishbp n st1)))
                  else Some (GC_get_first_part hbp size_needed n st))
            else if needed > bl_limit \<and> size_avail - needed > bl_limit
            then (let w = GC_large_alloc_warn_suppressed st + 1 in
                  Some (GC_get_first_part hbp size_needed n
                    (st\<lparr> GC_large_alloc_warn_suppressed :=
                           (if w \<ge> GC_large_alloc_warn_interval st then 0 else w) \<rparr>)))
            else if avail = 0 \<and> size_needed = HBLKSIZE \<and> \<not> GC_find_leak st
            then (let c = wadd (drop_count st) 1; st1 = st\<lparr> drop_count := c \<rparr> in
                  if c mod 4 = 0
                  then (let st2 = drop_block hbp n st1; prev = hb_prev hhdr in
                        if prev = 0
                        then allochblk_search size_needed kind flags n may_split (GC_hblkfreelist st2 n) st2
                        else allochblk_search size_needed kind flags n may_split (hb_next (hdr_at st2 prev)) st2)
                  else allochblk_search size_needed kind flags n may_split (hb_next hhdr) st1)
            else allochblk_search size_needed kind flags n may_split (hb_next hhdr) st)))"

definition GC_allochblk_nth ::
    "nat \<Rightarrow> nat \<Rightarrow> 8 word \<Rightarrow> nat \<Rightarrow> bool \<Rightarrow> 'a gc_heap_scheme \<Rightarrow> (hblk \<times> 'a gc_heap_scheme) option" where
  "GC_allochblk_nth sz kind flags n may_split st =
     (let size_needed = HBLKSIZE * obj_sz_to_blocks sz in
      case allochblk_search size_needed kind flags n may_split (GC_hblkfreelist st n) st of
        None \<Rightarrow> None
      | Some (hbp, st1) \<Rightarrow>
          (if hbp = 0 then Some (0, st1)
           else case GC_install_counts hbp size_needed st1 of
             (False, st2) \<Rightarrow> Some (0, st2)
           | (True, st2) \<Rightarrow>
               (case setup_header hbp sz kind flags st2 of
                  (False, st3) \<Rightarrow> Some (0, GC_remove_counts hbp size_needed st3)
                | (True, st3) \<Rightarrow>
                    Some (hbp, st3\<lparr> GC_fail_count := 0,
                                    GC_large_free_bytes := wsub (GC_large_free_bytes st3) size_needed \<rparr>))))"

fun allochblk_lists ::
    "nat \<Rightarrow> nat \<Rightarrow> 8 word \<Rightarrow> nat list \<Rightarrow> 'a gc_heap_scheme \<Rightarrow> (hblk \<times> 'a gc_heap_scheme) option" where
  "allochblk_lists sz kind flags [] st = Some (0, st)"
| "allochblk_lists sz kind flags (i # is) st =
     (case GC_allochblk_nth sz kind flags i True st of
        None \<Rightarrow> None
      | Some (result, st') \<Rightarrow>
          (if result \<noteq> 0 then Some (result, st') else allochblk_lists sz kind flags is st'))"

definition USED_HEAP_SIZE :: "'a gc_heap_scheme \<Rightarrow> nat" where
  "USED_HEAP_SIZE st = wsub (GC_heapsize st) (GC_large_free_bytes st)"

definition split_limit :: "'a gc_heap_scheme \<Rightarrow> nat" where
  "split_limit st =
     (if GC_use_entire_heap st \<or> GC_dont_gc st \<or> USED_HEAP_SIZE st < GC_requested_heapsize st
         \<or> GC_incremental st \<or> \<not> should_collect st
      then N_HBLK_FLS
      else if GC_finalizer_bytes_freed st > GC_heapsize st div 16 then 0
      else GC_enough_large_bytes_left st)"

definition GC_allochblk ::
    "nat \<Rightarrow> nat \<Rightarrow> 8 word \<Rightarrow> 'a gc_heap_scheme \<Rightarrow> (hblk \<times> 'a gc_heap_scheme) option" where
  "GC_allochblk sz kind flags st =
     (let blocks = obj_sz_to_blocks sz in
      if signed_word (word32 (blocks * HBLKSIZE)) < 0 then Some (0, st)
      else
        (let start_list = GC_hblk_fl_from_blocks blocks in
         case GC_allochblk_nth sz kind flags start_list False st of
           None \<Rightarrow> None
         | Some (result, st1) \<Rightarrow>
             (if result \<noteq> 0 then Some (result, st1)
              else
                (let first = (if start_list < UNIQUE_THRESHOLD then start_list + 1 else start_list) in
                 allochblk_lists sz kind flags [first ..< split_limit st1 + 1] st1))))"

section \<open>Deallocation\<close>

text \<open>Merging the free block \<open>hbp\<close> of \<open>bytes\<close> bytes with a free block behind it.\<close>

definition coalesce_next :: "hblk \<Rightarrow> nat \<Rightarrow> 'a gc_heap_scheme \<Rightarrow> 'a gc_heap_scheme" where
  "coalesce_next hbp bytes st =
     (let nxt = hbp + divHBLKSZ bytes in
      case HDR st nxt of
        Hdr nexthdr \<Rightarrow>
          (if HBLK_IS_FREE nexthdr \<and> signed_word (wadd (hb_sz (hdr_at st hbp)) (hb_sz nexthdr)) > 0
           then GC_remove_header nxt
                  (upd_hdr hbp (\<lambda>hh. hh\<lparr> hb_sz := wadd (hb_sz hh) (hb_sz nexthdr) \<rparr>)
                    (GC_remove_from_fl nxt None st))
           else st)
      | Fwd _ \<Rightarrow> st)"

text \<open>Merging it with the free block \<open>prev\<close> in front of it, 0 if there is none.\<close>

definition coalesce_prev :: "hblk \<Rightarrow> hblk \<Rightarrow> 'a gc_heap_scheme \<Rightarrow> hblk \<times> 'a gc_heap_scheme" where
  "coalesce_prev prev hbp st =
     (let hsz = hb_sz (hdr_at st hbp) in
      if prev \<noteq> 0 \<and> signed_word (wadd hsz (hb_sz (hdr_at st prev))) > 0
      then (prev, GC_remove_header hbp
                    (upd_hdr prev (\<lambda>ph. ph\<lparr> hb_sz := wadd (hb_sz ph) hsz \<rparr>)
                      (GC_remove_from_fl prev None st)))
      else (hbp, st))"

text \<open>\<open>None\<close> is \<open>ABORT\<close>: a block that is too large, or one that is already free.\<close>

definition GC_freehblk :: "hblk \<Rightarrow> 'a gc_heap_scheme \<Rightarrow> 'a gc_heap_scheme option" where
  "GC_freehblk hbp st =
     (let bytes = word32 (HBLKSIZE * obj_sz_to_blocks (hb_sz (hdr_at st hbp))) in
      if signed_word bytes \<le> 0 then None
      else
        (let st1 = upd_hdr hbp (\<lambda>hh. hh\<lparr> hb_sz := bytes \<rparr>) (GC_remove_counts hbp bytes st) in
         if HBLK_IS_FREE (hdr_at st1 hbp) then None
         else
           (let st2 = upd_hdr hbp (\<lambda>hh. hh\<lparr> hb_flags := hb_flags hh OR FREE_BLK \<rparr>) st1;
                prev = GC_free_block_ending_at st2 hbp;
                st3 = coalesce_next hbp bytes st2;
                (hbp', st4) = coalesce_prev prev hbp st3 in
            Some (GC_add_to_fl hbp'
                    (st4\<lparr> GC_large_free_bytes := wadd (GC_large_free_bytes st4) bytes \<rparr>)))))"

end
