(* ===== verification/Heap_Lists.thy ===== *)
theory Heap_Lists
  imports Heap_Blocks
begin

text \<open>
  The free lists of heap blocks as mathematical lists. \<open>fl_ok L X st\<close> relates the links in the
  headers to the lists \<open>L n\<close> of the size classes; \<open>X\<close> names the blocks that are exempt because
  an operation is moving them. \<open>GC_remove_from_fl\<close> and \<open>GC_add_to_fl\<close> are shown to be removal
  from and consing onto these lists.
\<close>

section \<open>Reading the state\<close>

definition free_at :: "'a hdr_index_scheme \<Rightarrow> hblk \<Rightarrow> bool" where
  "free_at st h = (case HDR st h of Hdr hh \<Rightarrow> HBLK_IS_FREE hh | Fwd _ \<Rightarrow> False)"

definition size_at :: "'a hdr_index_scheme \<Rightarrow> hblk \<Rightarrow> nat" where
  "size_at st h = hb_sz (hdr_at st h)"

definition class_at :: "'a hdr_index_scheme \<Rightarrow> hblk \<Rightarrow> nat" where
  "class_at st h = GC_hblk_fl_from_blocks (divHBLKSZ (size_at st h))"

text \<open>A header entry without its list links.\<close>

definition core :: "hdr_entry \<Rightarrow> hdr_entry" where
  "core e = (case e of Hdr hh \<Rightarrow> Hdr (hh\<lparr> hb_next := 0, hb_prev := 0 \<rparr>) | Fwd k \<Rightarrow> Fwd k)"

lemma is_Hdr_core: "core e = core e' \<Longrightarrow> is_Hdr e = is_Hdr e'"
  by (auto simp: core_def is_Hdr_def split: hdr_entry.splits)

lemma core_Hdr:
  assumes "core (Hdr hh) = core (Hdr hh')"
  shows "hb_sz hh = hb_sz hh'" "hb_flags hh = hb_flags hh'" "HBLK_IS_FREE hh = HBLK_IS_FREE hh'"
    "blocks_of hh = blocks_of hh'"
proof -
  have e: "hh\<lparr>hb_next := 0, hb_prev := 0\<rparr> = hh'\<lparr>hb_next := 0, hb_prev := 0\<rparr>"
    using assms by (simp add: core_def)
  show *: "hb_sz hh = hb_sz hh'" "hb_flags hh = hb_flags hh'"
    using arg_cong [OF e, of hb_sz] arg_cong [OF e, of hb_flags] by simp_all
  then show "HBLK_IS_FREE hh = HBLK_IS_FREE hh'" "blocks_of hh = blocks_of hh'"
    by (simp_all add: HBLK_IS_FREE_def blocks_of_def)
qed

lemma core_Fwd [simp]: "core e = Fwd k \<longleftrightarrow> e = Fwd k" "core (Fwd k) = Fwd k"
  "Fwd k = core e \<longleftrightarrow> e = Fwd k"
  by (auto simp: core_def split: hdr_entry.splits)

lemma core_links [simp]:
  "core (Hdr (hh\<lparr>hb_next := x\<rparr>)) = core (Hdr hh)" "core (Hdr (hh\<lparr>hb_prev := y\<rparr>)) = core (Hdr hh)"
  by (simp_all add: core_def)

lemma hdr_at_Hdr [simp]: "HDR st h = Hdr hh \<Longrightarrow> hdr_at st h = hh"
  by (simp add: hdr_at_def)

lemma free_at_Hdr: "free_at st h \<Longrightarrow> is_Hdr (HDR st h)"
  by (auto simp: free_at_def is_Hdr_def split: hdr_entry.splits)

lemma is_Hdr_upd [simp]: "index_wf st \<Longrightarrow> is_Hdr (HDR (upd_hdr h f st) b) = is_Hdr (HDR st b)"
  by (auto simp: HDR_upd_hdr is_Hdr_def split: hdr_entry.splits)

lemma hdr_at_upd:
  "index_wf st \<Longrightarrow> hdr_at (upd_hdr h f st) b = (if b = h \<and> is_Hdr (HDR st h) then f (hdr_at st h) else hdr_at st b)"
  by (auto simp: hdr_at_def HDR_upd_hdr is_Hdr_def split: hdr_entry.splits)

section \<open>Variables outside the index and the lists\<close>

definition vars :: "'a gc_heap_scheme \<Rightarrow> 'a gc_heap_scheme" where
  "vars st = st\<lparr> GC_top_index := (\<lambda>_. None), GC_all_nils := (\<lambda>_. Fwd 0), GC_all_bottom_indices := [],
                 hdr_free_list := [], GC_hblkfreelist := (\<lambda>_. 0), GC_free_bytes := (\<lambda>_. 0) \<rparr>"

lemma vars_eqD:
  assumes "vars st = vars st'"
  shows "scratch_ok st = scratch_ok st'" "GC_obj_map st = GC_obj_map st'"
    "GC_large_free_bytes st = GC_large_free_bytes st'" "GC_obj_kinds st = GC_obj_kinds st'"
    "GC_black_lists st = GC_black_lists st'" "GC_mem st = GC_mem st'" "drop_count st = drop_count st'"
    "GC_find_leak st = GC_find_leak st'" "GC_gc_no st = GC_gc_no st'"
    "GC_debugging_started st = GC_debugging_started st'"
  using assms [THEN arg_cong, of scratch_ok] assms [THEN arg_cong, of GC_obj_map]
    assms [THEN arg_cong, of GC_large_free_bytes] assms [THEN arg_cong, of GC_obj_kinds]
    assms [THEN arg_cong, of GC_black_lists] assms [THEN arg_cong, of GC_mem]
    assms [THEN arg_cong, of drop_count] assms [THEN arg_cong, of GC_find_leak]
    assms [THEN arg_cong, of GC_gc_no] assms [THEN arg_cong, of GC_debugging_started]
  by (simp_all add: vars_def)

lemma vars_simps [simp]:
  "vars (SET_HDR h e st) = vars st"
  "vars (upd_hdr h f st) = vars st"
  "vars (free_hdr hh st) = vars st"
  "vars (GC_remove_header h st) = vars st"
  "vars (INCR_FREE_BYTES n b st) = vars st"
  "vars (DECR_FREE_BYTES n b st) = vars st"
  "vars (st\<lparr>GC_hblkfreelist := x\<rparr>) = vars st"
  by (simp_all add: vars_def SET_HDR_def upd_hdr_def free_hdr_def GC_remove_header_def
      INCR_FREE_BYTES_def DECR_FREE_BYTES_def split: option.splits hdr_entry.splits)

lemma list_vars_upd [simp]:
  "GC_hblkfreelist (SET_HDR h e st) = GC_hblkfreelist st" "GC_free_bytes (SET_HDR h e st) = GC_free_bytes st"
  "GC_hblkfreelist (upd_hdr h f st) = GC_hblkfreelist st" "GC_free_bytes (upd_hdr h f st) = GC_free_bytes st"
  "GC_hblkfreelist (free_hdr hh st) = GC_hblkfreelist st" "GC_free_bytes (free_hdr hh st) = GC_free_bytes st"
  "GC_hblkfreelist (GC_remove_header h st) = GC_hblkfreelist st"
  "GC_free_bytes (GC_remove_header h st) = GC_free_bytes st"
  by (simp_all add: SET_HDR_def upd_hdr_def free_hdr_def GC_remove_header_def
      split: option.splits hdr_entry.splits)

lemma HDR_heap_vars [simp]:
  "HDR (st\<lparr>GC_hblkfreelist := x\<rparr>) = HDR st" "HDR (st\<lparr>GC_free_bytes := y\<rparr>) = HDR st"
  "HDR (st\<lparr>GC_large_free_bytes := z\<rparr>) = HDR st" "HDR (INCR_FREE_BYTES n b st) = HDR st"
  "HDR (DECR_FREE_BYTES n b st) = HDR st" "HDR (st\<lparr>GC_bytes_dropped := w\<rparr>) = HDR st"
  "HDR (st\<lparr>drop_count := v\<rparr>) = HDR st" "HDR (st\<lparr>GC_large_alloc_warn_suppressed := u\<rparr>) = HDR st"
  "HDR (st\<lparr>GC_fail_count := t\<rparr>) = HDR st" "HDR (st\<lparr>GC_mem := s\<rparr>) = HDR st"
  by (rule HDR_cong; simp add: INCR_FREE_BYTES_def DECR_FREE_BYTES_def)+

lemma index_wf_heap_vars [simp]:
  "index_wf (st\<lparr>GC_hblkfreelist := x\<rparr>) = index_wf st" "index_wf (st\<lparr>GC_free_bytes := y\<rparr>) = index_wf st"
  "index_wf (st\<lparr>GC_large_free_bytes := z\<rparr>) = index_wf st" "index_wf (INCR_FREE_BYTES n b st) = index_wf st"
  "index_wf (DECR_FREE_BYTES n b st) = index_wf st" "index_wf (st\<lparr>GC_bytes_dropped := w\<rparr>) = index_wf st"
  "index_wf (st\<lparr>drop_count := v\<rparr>) = index_wf st"
  "index_wf (st\<lparr>GC_large_alloc_warn_suppressed := u\<rparr>) = index_wf st"
  "index_wf (st\<lparr>GC_fail_count := t\<rparr>) = index_wf st" "index_wf (st\<lparr>GC_mem := s\<rparr>) = index_wf st"
  by (simp_all add: index_wf_def INCR_FREE_BYTES_def DECR_FREE_BYTES_def)

text \<open>All of these read only the index.\<close>

lemma at_cong:
  assumes "HDR st = HDR st'"
  shows "free_at st = free_at st'" "size_at st = size_at st'" "class_at st = class_at st'" "hdr_at st = hdr_at st'"
  using assms by (auto simp: free_at_def size_at_def class_at_def hdr_at_def fun_eq_iff)

section \<open>Doubly linked list segments\<close>

primrec dlist :: "'a hdr_index_scheme \<Rightarrow> hblk \<Rightarrow> hblk list \<Rightarrow> hblk \<Rightarrow> bool" where
  "dlist st p [] q \<longleftrightarrow> True"
| "dlist st p (x # xs) q \<longleftrightarrow> is_Hdr (HDR st x) \<and> hb_prev (hdr_at st x) = p
     \<and> hb_next (hdr_at st x) = hd (xs @ [q]) \<and> dlist st x xs q"

lemma hd_append_hd: "hd (xs @ ys @ [q]) = hd (xs @ [hd (ys @ [q])])"
  by (cases xs) auto

lemma dlist_append:
  "dlist st p (xs @ ys) q \<longleftrightarrow> dlist st p xs (hd (ys @ [q])) \<and> dlist st (last (p # xs)) ys q"
proof (induction xs arbitrary: p)
  case (Cons x xs)
  then show ?case by (auto simp: hd_append_hd)
qed simp

lemma dlist_cong:
  assumes "\<And>x. x \<in> set xs \<Longrightarrow> is_Hdr (HDR st' x) = is_Hdr (HDR st x) \<and>
      hb_prev (hdr_at st' x) = hb_prev (hdr_at st x) \<and> hb_next (hdr_at st' x) = hb_next (hdr_at st x)"
  shows "dlist st' p xs q = dlist st p xs q"
  using assms by (induction xs arbitrary: p) auto

lemma dlist_next:
  "dlist st p (xs @ x # ys) q \<Longrightarrow> hb_next (hdr_at st x) = hd (ys @ [q]) \<and> hb_prev (hdr_at st x) = last (p # xs)"
  by (simp add: dlist_append)

text \<open>Relinking the last element of a segment, and the first.\<close>

lemma dlist_snoc: "dlist st p (xs @ [a]) q \<longleftrightarrow>
    dlist st p xs a \<and> is_Hdr (HDR st a) \<and> hb_prev (hdr_at st a) = last (p # xs) \<and> hb_next (hdr_at st a) = q"
  by (simp add: dlist_append)

lemma dlist_set_next:
  assumes "index_wf st" "dlist st p xs q" "distinct xs" "xs \<noteq> []"
  shows "dlist (upd_hdr (last xs) (\<lambda>hh. hh\<lparr> hb_next := q' \<rparr>) st) p xs q'"
proof -
  obtain ys a where xs: "xs = ys @ [a]" using assms(4) by (cases xs rule: rev_cases) auto
  let ?st = "upd_hdr a (\<lambda>hh. hh\<lparr> hb_next := q' \<rparr>) st"
  have "a \<notin> set ys" using assms(3) xs by simp
  then have "dlist ?st p ys a = dlist st p ys a"
    using assms(1) by (intro dlist_cong) (auto simp: hdr_at_upd)
  with assms(1,2) show ?thesis unfolding xs by (simp add: dlist_snoc hdr_at_upd)
qed

lemma dlist_set_prev:
  assumes "index_wf st" "dlist st p xs q" "distinct xs" "xs \<noteq> []"
  shows "dlist (upd_hdr (hd xs) (\<lambda>hh. hh\<lparr> hb_prev := p' \<rparr>) st) p' xs q"
proof -
  obtain a ys where xs: "xs = a # ys" using assms(4) by (cases xs) auto
  let ?st = "upd_hdr a (\<lambda>hh. hh\<lparr> hb_prev := p' \<rparr>) st"
  have "a \<notin> set ys" using assms(3) xs by simp
  then have "dlist ?st a ys q = dlist st a ys q"
    using assms(1) by (intro dlist_cong) (auto simp: hdr_at_upd)
  with assms(1,2) show ?thesis unfolding xs by (simp add: hdr_at_upd)
qed

lemma dlist_upd_other:
  "index_wf st \<Longrightarrow> h \<notin> set xs \<Longrightarrow> dlist (upd_hdr h f st) p xs q = dlist st p xs q"
  by (intro dlist_cong) (auto simp: hdr_at_upd)

lemma dlist_HDR_cong: "HDR st = HDR st' \<Longrightarrow> dlist st p xs q = dlist st' p xs q"
  by (intro dlist_cong) (auto simp: at_cong(4) [of st st'])

section \<open>The free lists\<close>

definition fl_ok :: "(nat \<Rightarrow> hblk list) \<Rightarrow> hblk set \<Rightarrow> 'a gc_heap_scheme \<Rightarrow> bool" where
  "fl_ok L X st \<longleftrightarrow>
     (\<forall>n. dlist st 0 (L n) 0 \<and> GC_hblkfreelist st n = hd (L n @ [0]) \<and> distinct (L n)
          \<and> GC_free_bytes st n = word32 (\<Sum>h \<leftarrow> L n. size_at st h))
   \<and> (\<forall>n h. h \<in> set (L n) \<longrightarrow> h \<noteq> 0 \<and> free_at st h \<and> (h \<notin> X \<longrightarrow> class_at st h = n))
   \<and> (\<forall>h. free_at st h \<and> h \<notin> X \<longrightarrow> h \<in> set (L (class_at st h)))
   \<and> (\<forall>n m h. h \<in> set (L n) \<and> h \<in> set (L m) \<longrightarrow> n = m)"

lemma fl_okD:
  assumes "fl_ok L X st"
  shows "dlist st 0 (L n) 0" "GC_hblkfreelist st n = hd (L n @ [0])" "distinct (L n)"
    "GC_free_bytes st n = word32 (\<Sum>h \<leftarrow> L n. size_at st h)"
    "h \<in> set (L n) \<Longrightarrow> h \<noteq> 0" "h \<in> set (L n) \<Longrightarrow> free_at st h"
    "h \<in> set (L n) \<Longrightarrow> h \<notin> X \<Longrightarrow> class_at st h = n"
    "free_at st h \<Longrightarrow> h \<notin> X \<Longrightarrow> h \<in> set (L (class_at st h))"
    "h \<in> set (L n) \<Longrightarrow> h \<in> set (L m) \<Longrightarrow> n = m"
  using assms unfolding fl_ok_def by blast+

lemma fl_okI:
  assumes "\<And>n. dlist st 0 (L n) 0" "\<And>n. GC_hblkfreelist st n = hd (L n @ [0])" "\<And>n. distinct (L n)"
    "\<And>n. GC_free_bytes st n = word32 (\<Sum>h \<leftarrow> L n. size_at st h)"
    "\<And>n h. h \<in> set (L n) \<Longrightarrow> h \<noteq> 0 \<and> free_at st h \<and> (h \<notin> X \<longrightarrow> class_at st h = n)"
    "\<And>h. free_at st h \<Longrightarrow> h \<notin> X \<Longrightarrow> h \<in> set (L (class_at st h))"
    "\<And>n m h. h \<in> set (L n) \<Longrightarrow> h \<in> set (L m) \<Longrightarrow> n = m"
  shows "fl_ok L X st"
  using assms unfolding fl_ok_def by blast

text \<open>Changes to headers that are on no list.\<close>

lemma fl_ok_frame:
  assumes fl: "fl_ok L X st"
    and same: "\<And>b n. b \<in> set (L n) \<Longrightarrow> HDR st' b = HDR st b"
    and vars: "GC_hblkfreelist st' = GC_hblkfreelist st" "GC_free_bytes st' = GC_free_bytes st"
    and free: "\<And>b. free_at st' b \<Longrightarrow> b \<notin> X' \<Longrightarrow> b \<notin> X \<and> free_at st b \<and> class_at st' b = class_at st b"
    and X: "\<And>b n. b \<in> set (L n) \<Longrightarrow> b \<in> X \<Longrightarrow> b \<in> X'"
  shows "fl_ok L X' st'"
proof -
  have at: "free_at st' b = free_at st b" "size_at st' b = size_at st b" "class_at st' b = class_at st b"
      "hdr_at st' b = hdr_at st b" if "b \<in> set (L n)" for b n
    using same [OF that] by (simp_all add: free_at_def size_at_def class_at_def hdr_at_def)
  show ?thesis
  proof (rule fl_okI)
    show "dlist st' 0 (L n) 0" for n
      using fl_okD(1) [OF fl, of n] same at by (subst dlist_cong [of _ _ st]) auto
    show "GC_free_bytes st' n = word32 (\<Sum>h \<leftarrow> L n. size_at st' h)" for n
      using fl_okD(4) [OF fl, of n] vars(2) at(2) by (simp cong: map_cong)
    show "h \<noteq> 0 \<and> free_at st' h \<and> (h \<notin> X' \<longrightarrow> class_at st' h = n)" if "h \<in> set (L n)" for n h
      using that fl_okD(5-7) [OF fl that] at [OF that] X [OF that] by auto
    show "h \<in> set (L (class_at st' h))" if "free_at st' h" "h \<notin> X'" for h
      using free [OF that] fl_okD(8) [OF fl, of h] by auto
  qed (use fl_okD [OF fl] vars in auto)
qed

text \<open>
  What list surgery leaves of the headers: everything but the links, and headers of blocks
  in use completely.
\<close>

definition hdr_sim :: "'a hdr_index_scheme \<Rightarrow> 'b hdr_index_scheme \<Rightarrow> bool" where
  "hdr_sim st st' \<longleftrightarrow> (\<forall>b. core (HDR st' b) = core (HDR st b) \<and> (\<not> free_at st b \<longrightarrow> HDR st' b = HDR st b))"

lemma core_at:
  assumes "core (HDR st' b) = core (HDR st b)"
  shows "free_at st' b = free_at st b" "size_at st' b = size_at st b" "class_at st' b = class_at st b"
    "is_Hdr (HDR st' b) = is_Hdr (HDR st b)"
proof -
  consider k where "HDR st b = Fwd k" "HDR st' b = Fwd k"
    | hh hh' where "HDR st b = Hdr hh" "HDR st' b = Hdr hh'" "core (Hdr hh) = core (Hdr hh')"
    using assms by (cases "HDR st b"; cases "HDR st' b") auto
  then have "free_at st' b = free_at st b \<and> size_at st' b = size_at st b
      \<and> is_Hdr (HDR st' b) = is_Hdr (HDR st b)"
  proof cases
    case 2
    note c = core_Hdr [OF 2(3)]
    from 2(1,2) c(1,3) show ?thesis by (simp add: free_at_def size_at_def hdr_at_def is_Hdr_def)
  qed (simp add: free_at_def size_at_def hdr_at_def is_Hdr_def)
  then show "free_at st' b = free_at st b" "size_at st' b = size_at st b" "class_at st' b = class_at st b"
      "is_Hdr (HDR st' b) = is_Hdr (HDR st b)"
    by (simp_all add: class_at_def)
qed

lemma hdr_simD:
  assumes "hdr_sim st st'"
  shows "core (HDR st' b) = core (HDR st b)" "\<not> free_at st b \<Longrightarrow> HDR st' b = HDR st b"
    "free_at st' b = free_at st b" "size_at st' b = size_at st b" "class_at st' b = class_at st b"
    "is_Hdr (HDR st' b) = is_Hdr (HDR st b)"
  using assms core_at [of st' b st] unfolding hdr_sim_def by auto

lemma hdr_sim_refl [simp]: "hdr_sim st st"
  by (simp add: hdr_sim_def)

lemma hdr_sim_trans: "hdr_sim a b \<Longrightarrow> hdr_sim b c \<Longrightarrow> hdr_sim a c"
  unfolding hdr_sim_def by (metis core_at(1))

lemma hdr_sim_link:
  assumes "index_wf st" "free_at st h" "\<And>hh. core (Hdr (f hh)) = core (Hdr hh)"
  shows "hdr_sim st (upd_hdr h f st)"
  using assms unfolding hdr_sim_def by (auto simp: HDR_upd_hdr split: hdr_entry.splits)

lemma hdr_sim_HDR: "HDR st' = HDR st \<Longrightarrow> hdr_sim st st'"
  by (simp add: hdr_sim_def)

lemma mod_shift: "((a + b) mod n + n - b mod n) mod n = a mod (n :: int)"
proof -
  have "((a + b) mod n + n - b mod n) mod n = ((a + b) mod n - b mod n + n) mod n"
    by (simp add: algebra_simps)
  also have "\<dots> = ((a + b) mod n - b mod n) mod n" by (rule mod_add_self2)
  also have "\<dots> = (a + b - b) mod n" by (rule mod_diff_eq)
  finally show ?thesis by simp
qed

lemma wsub_word32: "wsub (word32 (a + b)) b = word32 a"
proof -
  have "int (((a + b) mod 2 ^ 32 + 2 ^ 32 - b mod 2 ^ 32) mod 2 ^ 32) = int (a mod 2 ^ 32)"
  proof -
    have "b mod 2 ^ 32 \<le> (a + b) mod 2 ^ 32 + 2 ^ 32"
      by (metis mod_le_divisor trans_le_add2 zero_less_numeral zero_less_power)
    then have "int ((a + b) mod 2 ^ 32 + 2 ^ 32 - b mod 2 ^ 32) =
        (int a + int b) mod 2 ^ 32 + 2 ^ 32 - int b mod 2 ^ 32"
      by (simp add: of_nat_diff zmod_int)
    also have "\<dots> mod 2 ^ 32 = int a mod 2 ^ 32" by (rule mod_shift)
    finally show ?thesis by (simp add: zmod_int)
  qed
  then show ?thesis by (simp add: wsub_def word32_def)
qed

lemma wadd_word32: "wadd (word32 a) b = word32 (a + b)"
  by (simp add: wadd_def word32_def mod_add_left_eq)

lemma fl_lists_apart:
  assumes "fl_ok L X st" "b \<in> set (L n)" "m \<noteq> n"
  shows "b \<notin> set (L m)"
  using assms fl_okD(9) by blast

lemma GC_remove_from_fl_unfold:
  assumes fl: "fl_ok L X st" and Ln: "L n = xs @ h # ys"
    and k: "k = Some n \<or> k = None \<and> class_at st h = n"
  shows "GC_remove_from_fl h k st =
     (let st1 = (if xs = [] then st\<lparr> GC_hblkfreelist := (GC_hblkfreelist st)(n := hd (ys @ [0])) \<rparr>
                 else upd_hdr (last xs) (\<lambda>ph. ph\<lparr> hb_next := hd (ys @ [0]) \<rparr>) st);
          st2 = DECR_FREE_BYTES n (size_at st h) st1 in
      if ys = [] then st2 else upd_hdr (hd ys) (\<lambda>nh. nh\<lparr> hb_prev := last (0 # xs) \<rparr>) st2)"
proof -
  have l: "hb_next (hdr_at st h) = hd (ys @ [0])" "hb_prev (hdr_at st h) = last (0 # xs)"
    using dlist_next [of st 0 xs h ys 0] fl_okD(1) [OF fl, of n] Ln by auto
  have nz: "b \<noteq> 0" if "b \<in> set xs \<union> set ys" for b using fl_okD(5) [OF fl, of b n] Ln that by auto
  have "last (0 # xs) = 0 \<longleftrightarrow> xs = []" using nz last_in_set [of xs] by auto
  moreover have "hd (ys @ [0]) = 0 \<longleftrightarrow> ys = []" using nz hd_in_set [of ys] by (cases ys) auto
  moreover have "(case k of None \<Rightarrow> GC_hblk_fl_from_blocks (divHBLKSZ (hb_sz (hdr_at st h))) | Some i \<Rightarrow> i) = n"
    using k by (auto simp: class_at_def size_at_def)
  ultimately show ?thesis
    unfolding GC_remove_from_fl_def Let_def l by (auto simp: size_at_def)
qed

lemma GC_remove_from_fl_spec:
  assumes wf: "index_wf st" and fl: "fl_ok L X st" and Ln: "L n = xs @ h # ys"
    and k: "k = Some n \<or> k = None \<and> class_at st h = n"
  defines "st' \<equiv> GC_remove_from_fl h k st"
  shows "fl_ok (L(n := xs @ ys)) (insert h X) st'" "hdr_sim st st'" "index_wf st'" "vars st' = vars st"
proof -
  define st1 where "st1 = (if xs = [] then st\<lparr> GC_hblkfreelist := (GC_hblkfreelist st)(n := hd (ys @ [0])) \<rparr>
                 else upd_hdr (last xs) (\<lambda>ph. ph\<lparr> hb_next := hd (ys @ [0]) \<rparr>) st)"
  define st2 where "st2 = DECR_FREE_BYTES n (size_at st h) st1"
  have st': "st' = (if ys = [] then st2 else upd_hdr (hd ys) (\<lambda>nh. nh\<lparr> hb_prev := last (0 # xs) \<rparr>) st2)"
    unfolding st'_def st2_def st1_def GC_remove_from_fl_unfold [OF fl Ln k] Let_def ..
  have mem: "b \<in> set (L n)" if "b \<in> set xs \<union> set ys" for b using Ln that by auto
  have dist: "distinct xs" "distinct ys" "set xs \<inter> set ys = {}" "h \<notin> set xs" "h \<notin> set ys"
    using fl_okD(3) [OF fl, of n] Ln by auto
  have wf1: "index_wf st1" "index_wf st2" using wf by (simp_all add: st1_def st2_def)
  then show wf': "index_wf st'" by (simp add: st')
  show "vars st' = vars st" by (simp add: st' st2_def st1_def)
  have sim1: "hdr_sim st st1"
    using hdr_sim_link [OF wf, of "last xs"] fl_okD(6) [OF fl mem, of "last xs"]
    by (auto simp: st1_def intro: hdr_sim_HDR)
  have sim2: "hdr_sim st st2" using hdr_sim_trans [OF sim1 hdr_sim_HDR, of st2] by (simp add: st2_def)
  show sim: "hdr_sim st st'"
    using hdr_sim_trans [OF sim2 hdr_sim_link [OF wf1(2)]] sim2 hdr_simD(3) [OF sim2]
      fl_okD(6) [OF fl mem, of "hd ys"] by (auto simp: st')
  have H2: "HDR st2 = HDR st1" by (simp add: st2_def)
  have d: "dlist st 0 xs h" "dlist st h ys 0" using fl_okD(1) [OF fl, of n] Ln by (auto simp: dlist_append)
  have ends: "xs \<noteq> [] \<Longrightarrow> last xs \<notin> set ys" "ys \<noteq> [] \<Longrightarrow> hd ys \<notin> set xs"
    using dist(3) last_in_set [of xs] hd_in_set [of ys] by blast+
  have d1: "dlist st1 0 xs (hd (ys @ [0]))" "dlist st1 h ys 0"
    using ends dlist_set_next [OF wf d(1) dist(1)] d(2) wf
    by (auto simp: st1_def dlist_upd_other dlist_HDR_cong [of "st\<lparr>GC_hblkfreelist := _\<rparr>" st])
  have d2: "dlist st2 0 xs (hd (ys @ [0]))" "dlist st2 h ys 0"
    using d1 by (simp_all add: dlist_HDR_cong [OF H2])
  have dn: "dlist st' 0 (xs @ ys) 0"
    using ends dlist_set_prev [OF wf1(2) d2(2) dist(2)] d2(1) wf1(2)
    by (auto simp: st' dlist_append dlist_upd_other)
  have dm: "dlist st' 0 (L m) 0" if "m \<noteq> n" for m
  proof -
    have "last xs \<notin> set (L m)" if "xs \<noteq> []"
      using that \<open>m \<noteq> n\<close> fl_lists_apart [OF fl mem] by simp
    then have "dlist st1 0 (L m) 0"
      using fl_okD(1) [OF fl, of m] wf
      by (auto simp: st1_def dlist_upd_other dlist_HDR_cong [of "st\<lparr>GC_hblkfreelist := _\<rparr>" st])
    then have "dlist st2 0 (L m) 0" by (simp add: dlist_HDR_cong [OF H2])
    moreover have "hd ys \<notin> set (L m)" if "ys \<noteq> []"
      using that \<open>m \<noteq> n\<close> fl_lists_apart [OF fl mem] by simp
    ultimately show ?thesis using wf1(2) by (auto simp: st' dlist_upd_other)
  qed
  have heads: "GC_hblkfreelist st' m = hd ((L(n := xs @ ys)) m @ [0])" for m
    using fl_okD(2) [OF fl, of m] Ln by (cases xs) (auto simp: st' st2_def st1_def DECR_FREE_BYTES_def)
  have fb: "GC_free_bytes st' = (GC_free_bytes st)(n := wsub (GC_free_bytes st n) (size_at st h))"
    by (simp add: st' st2_def st1_def DECR_FREE_BYTES_def)
  have sz: "size_at st' = size_at st" using hdr_simD(4) [OF sim] by blast
  have bytes: "GC_free_bytes st' m = word32 (\<Sum>b \<leftarrow> (L(n := xs @ ys)) m. size_at st' b)" for m
  proof (cases "m = n")
    case True
    have "GC_free_bytes st n = word32 ((\<Sum>b \<leftarrow> xs @ ys. size_at st b) + size_at st h)"
      using fl_okD(4) [OF fl, of n] Ln by (simp add: add.commute add.left_commute)
    with True show ?thesis unfolding fb sz by (simp add: wsub_word32)
  next
    case False
    then show ?thesis using fl_okD(4) [OF fl, of m] unfolding fb sz by simp
  qed
  show "fl_ok (L(n := xs @ ys)) (insert h X) st'"
  proof (rule fl_okI)
    show "b \<noteq> 0 \<and> free_at st' b \<and> (b \<notin> insert h X \<longrightarrow> class_at st' b = m)"
      if "b \<in> set ((L(n := xs @ ys)) m)" for m b
    proof -
      have "b \<in> set (L m)" using that mem by (auto split: if_splits)
      then show ?thesis using fl_okD(5-7) [OF fl] by (auto simp: hdr_simD [OF sim])
    qed
    show "b \<in> set ((L(n := xs @ ys)) (class_at st' b))" if "free_at st' b" "b \<notin> insert h X" for b
      using that fl_okD(8) [OF fl, of b] Ln by (auto simp: hdr_simD [OF sim])
    show "m = m'" if "b \<in> set ((L(n := xs @ ys)) m)" "b \<in> set ((L(n := xs @ ys)) m')" for m m' b
      using that fl_okD(9) [OF fl, of b] mem by (auto split: if_splits)
  qed (use dn dm heads bytes dist fl_okD(3) [OF fl] in \<open>auto split: if_splits\<close>)
qed

lemma GC_add_to_fl_spec:
  assumes wf: "index_wf st" and fl: "fl_ok L X st" and h: "is_Hdr (HDR st h)" "h \<noteq> 0" "\<And>n. h \<notin> set (L n)"
    and c: "c = class_at st h"
  defines "st' \<equiv> GC_add_to_fl h st"
  shows "fl_ok (L(c := h # L c)) (X - {h}) st'" "index_wf st'" "vars st' = vars st"
    "\<And>b. b \<noteq> h \<Longrightarrow> core (HDR st' b) = core (HDR st b)"
    "\<And>b. b \<noteq> h \<Longrightarrow> \<not> free_at st b \<Longrightarrow> HDR st' b = HDR st b"
    "core (HDR st' h) = core (Hdr ((hdr_at st h)\<lparr> hb_flags := hb_flags (hdr_at st h) OR FREE_BLK \<rparr>))"
proof -
  let ?s = "GC_hblkfreelist st c"
  define st2 where "st2 = INCR_FREE_BYTES c (size_at st h) (st\<lparr> GC_hblkfreelist := (GC_hblkfreelist st)(c := h) \<rparr>)"
  define st3 where "st3 = upd_hdr h (\<lambda>hh. hh\<lparr> hb_next := ?s, hb_prev := 0 \<rparr>) st2"
  define st4 where "st4 = (if ?s \<noteq> 0 then upd_hdr ?s (\<lambda>hh. hh\<lparr> hb_prev := h \<rparr>) st3 else st3)"
  have st': "st' = upd_hdr h (\<lambda>hh. hh\<lparr> hb_flags := hb_flags hh OR FREE_BLK \<rparr>) st4"
    by (simp add: st'_def GC_add_to_fl_def Let_def c class_at_def size_at_def st4_def st3_def st2_def)
  have wfs: "index_wf st2" "index_wf st3" "index_wf st4" using wf by (simp_all add: st2_def st3_def st4_def)
  show "index_wf st'" using wfs by (simp add: st')
  show v: "vars st' = vars st" by (simp add: st' st4_def st3_def st2_def)
  have sec: "?s = hd (L c @ [0])" using fl_okD(2) [OF fl] .
  have second: "?s \<in> set (L c) \<and> free_at st ?s \<and> ?s \<noteq> h" if "?s \<noteq> 0"
  proof -
    have "L c \<noteq> []" using that sec by auto
    then have "?s \<in> set (L c)" using sec by (cases "L c") auto
    then show ?thesis using fl_okD(6) [OF fl] h(3) by auto
  qed
  have sec0: "?s = 0 \<longleftrightarrow> L c = []"
    using second sec fl_okD(5) [OF fl, of _ c] by (cases "L c") auto
  have H2: "HDR st2 = HDR st" by (simp add: st2_def)
  have H: "HDR st' b = (if b = h then (case HDR st h of Hdr hh \<Rightarrow>
              Hdr (hh\<lparr> hb_next := ?s, hb_prev := 0, hb_flags := hb_flags hh OR FREE_BLK \<rparr>) | e \<Rightarrow> e)
            else if b = ?s \<and> ?s \<noteq> 0 then (case HDR st b of Hdr hh \<Rightarrow> Hdr (hh\<lparr> hb_prev := h \<rparr>) | e \<Rightarrow> e)
            else HDR st b)" for b
    using wfs second fl_okD(5) [OF fl] H2
    by (auto simp: st' HDR_upd_hdr st4_def st3_def free_at_def is_Hdr_def split: hdr_entry.splits)
  show C: "core (HDR st' b) = core (HDR st b)" if "b \<noteq> h" for b
    using that by (auto simp: H split: hdr_entry.splits)
  show E: "HDR st' b = HDR st b" if "b \<noteq> h" "\<not> free_at st b" for b
    using that second by (auto simp: H free_at_def split: hdr_entry.splits)
  obtain hh where hh: "HDR st h = Hdr hh" using h(1) by (auto simp: is_Hdr_iff)
  show Ch: "core (HDR st' h) = core (Hdr ((hdr_at st h)\<lparr> hb_flags := hb_flags (hdr_at st h) OR FREE_BLK \<rparr>))"
    by (simp add: H hh core_def)
  have at: "free_at st' b = (b = h \<or> free_at st b)" "size_at st' b = size_at st b" "class_at st' b = class_at st b" for b
  proof -
    have "free_at st' h" "size_at st' h = size_at st h"
      by (simp_all add: free_at_def size_at_def hdr_at_def H hh)
    then show "free_at st' b = (b = h \<or> free_at st b)" "size_at st' b = size_at st b" "class_at st' b = class_at st b"
      using core_at [OF C, of b] by (cases "b = h"; simp add: class_at_def)+
  qed
  have d3: "dlist st3 0 (L m) 0" for m
    using fl_okD(1) [OF fl, of m] h(3) wfs(1) by (simp add: st3_def dlist_upd_other dlist_HDR_cong [OF H2])
  have dc: "dlist st4 h (L c) 0"
  proof (cases "L c = []")
    case False
    then have "hd (L c) = ?s" using sec by (cases "L c") auto
    then show ?thesis
      using False sec0 dlist_set_prev [OF wfs(2) d3 fl_okD(3) [OF fl] False, of h] by (simp add: st4_def)
  qed simp
  have dm: "dlist st4 0 (L m) 0" if "m \<noteq> c" for m
    using d3 that second fl_lists_apart [OF fl, of ?s c m] wfs(2) by (auto simp: st4_def dlist_upd_other)
  have "hdr_at st' h = hh\<lparr> hb_next := ?s, hb_prev := 0, hb_flags := hb_flags hh OR FREE_BLK \<rparr>"
    by (simp add: hdr_at_def H hh)
  moreover have "is_Hdr (HDR st' h)" by (simp add: H hh is_Hdr_def)
  moreover have "dlist st' h (L c) 0" "\<And>m. m \<noteq> c \<Longrightarrow> dlist st' 0 (L m) 0"
    using dc dm h(3) wfs(3) by (simp_all add: st' dlist_upd_other)
  ultimately have dist': "dlist st' 0 ((L(c := h # L c)) m) 0" for m using sec by auto
  have heads: "GC_hblkfreelist st' m = hd ((L(c := h # L c)) m @ [0])" for m
    using fl_okD(2) [OF fl, of m] by (simp add: st' st4_def st3_def st2_def INCR_FREE_BYTES_def)
  have fb: "GC_free_bytes st' = (GC_free_bytes st)(c := wadd (GC_free_bytes st c) (size_at st h))"
    by (simp add: st' st4_def st3_def st2_def INCR_FREE_BYTES_def)
  show "fl_ok (L(c := h # L c)) (X - {h}) st'"
  proof (rule fl_okI)
    show "GC_free_bytes st' m = word32 (\<Sum>b \<leftarrow> (L(c := h # L c)) m. size_at st' b)" for m
      using fl_okD(4) [OF fl, of m] unfolding fb at(2) by (auto simp: wadd_word32 add.commute)
    show "b \<noteq> 0 \<and> free_at st' b \<and> (b \<notin> X - {h} \<longrightarrow> class_at st' b = m)"
      if "b \<in> set ((L(c := h # L c)) m)" for m b
    proof (cases "b = h")
      case True
      then have "m = c" using that h(3) by (auto split: if_splits)
      with True h(2) c at show ?thesis by simp
    next
      case False
      then have "b \<in> set (L m)" using that by (auto split: if_splits)
      with False at show ?thesis using fl_okD(5-7) [OF fl] by auto
    qed
    show "b \<in> set ((L(c := h # L c)) (class_at st' b))" if "free_at st' b" "b \<notin> X - {h}" for b
      using that at fl_okD(8) [OF fl, of b] c by (cases "b = h") auto
    show "m = m'" if "b \<in> set ((L(c := h # L c)) m)" "b \<in> set ((L(c := h # L c)) m')" for m m' b
      using that fl_okD(9) [OF fl, of b] h(3) by (auto split: if_splits)
  qed (use dist' heads h(3) fl_okD(3) [OF fl] in auto)
qed

end
