(* ===== verification/Heap_Tiling.thy ===== *)
theory Heap_Tiling
  imports Heap_Lists
begin

text \<open>
  The tiling of the heap by blocks and the invariant of the block allocator. Freeing a block
  (\<open>GC_freehblk\<close>) is shown to keep the invariant, to add exactly its heap blocks to the free
  ones, and to leave every other block in use untouched.
\<close>

section \<open>Tilings\<close>

definition tiled :: "'a hdr_index_scheme \<Rightarrow> bool" where
  "tiled st \<longleftrightarrow> index_wf st \<and> layout_ok st \<and> free_sizes_ok st \<and> \<not> is_Hdr (HDR st 0)
     \<and> (\<forall>h hh. HDR st h = Hdr hh \<longrightarrow> h + blocks_of hh \<le> 2 ^ 20)
     \<and> (\<forall>h. free_at st h \<longrightarrow> size_at st h < 2 ^ 31)"

definition free_cells :: "'a hdr_index_scheme \<Rightarrow> hblk set" where
  "free_cells st = {b. \<exists>h hh. HDR st h = Hdr hh \<and> HBLK_IS_FREE hh \<and> h \<le> b \<and> b < h + blocks_of hh}"

text \<open>The header of a block in use.\<close>

definition used_at :: "'a hdr_index_scheme \<Rightarrow> hblk \<Rightarrow> hdr option" where
  "used_at st b = (case HDR st b of Hdr hh \<Rightarrow> (if HBLK_IS_FREE hh then None else Some hh) | Fwd _ \<Rightarrow> None)"

definition heap_inv :: "(nat \<Rightarrow> hblk list) \<Rightarrow> 'a gc_heap_scheme \<Rightarrow> bool" where
  "heap_inv L st \<longleftrightarrow> tiled st \<and> fl_ok L {} st
     \<and> GC_large_free_bytes st = card (free_cells st) * HBLKSIZE"

lemma tiledD:
  assumes "tiled st"
  shows "index_wf st" "layout_ok st" "free_sizes_ok st" "\<not> is_Hdr (HDR st 0)"
    "HDR st h = Hdr hh \<Longrightarrow> h + blocks_of hh \<le> 2 ^ 20" "free_at st h \<Longrightarrow> size_at st h < 2 ^ 31"
  using assms by (auto simp: tiled_def)

lemma tiled_Hdr_pos: "tiled st \<Longrightarrow> HDR st h = Hdr hh \<Longrightarrow> 0 < h"
  using tiledD(4) [of st] by (cases h) (auto simp: is_Hdr_def)

lemma tiled_free_size:
  assumes "tiled st" "HDR st h = Hdr hh" "HBLK_IS_FREE hh"
  shows "hb_sz hh = blocks_of hh * HBLKSIZE" "divHBLKSZ (hb_sz hh) = blocks_of hh" "0 < blocks_of hh"
proof -
  show s: "hb_sz hh = blocks_of hh * HBLKSIZE"
    using tiledD(3) [OF assms(1)] assms(2,3) by (auto simp: free_sizes_ok_def)
  show "divHBLKSZ (hb_sz hh) = blocks_of hh" unfolding s divHBLKSZ_def by simp
  show "0 < blocks_of hh" using layout_blocks_pos [OF tiledD(2) [OF assms(1)] assms(2)] .
qed

lemma tiled_cong:
  assumes "HDR st' = HDR st" "index_wf st' = index_wf st"
  shows "tiled st' = tiled st" "free_cells st' = free_cells st" "used_at st' = used_at st"
  using assms by (auto simp: tiled_def layout_ok_def free_sizes_ok_def free_cells_def used_at_def
      free_at_def size_at_def hdr_at_def fun_eq_iff)

text \<open>List surgery does not change the tiling.\<close>

lemma hdr_sim_Hdr:
  assumes "hdr_sim st st'" "HDR st h = Hdr hh"
  obtains hh' where "HDR st' h = Hdr hh'" "blocks_of hh' = blocks_of hh" "HBLK_IS_FREE hh' = HBLK_IS_FREE hh"
    "hb_sz hh' = hb_sz hh"
proof -
  have c: "core (HDR st' h) = core (Hdr hh)" using hdr_simD(1) [OF assms(1), of h] assms(2) by simp
  then obtain hh' where hh': "HDR st' h = Hdr hh'" by (cases "HDR st' h") auto
  show ?thesis using that [OF hh'] core_Hdr [of hh' hh] c hh' by simp
qed

lemma hdr_sim_Fwd: "hdr_sim st st' \<Longrightarrow> HDR st' b = Fwd k \<longleftrightarrow> HDR st b = Fwd k"
  using hdr_simD(1) [of st st' b] by (metis core_Fwd(1))

lemma hdr_sim_back:
  assumes "hdr_sim st st'" "HDR st' h = Hdr hh"
  obtains hh' where "HDR st h = Hdr hh'" "blocks_of hh = blocks_of hh'" "HBLK_IS_FREE hh = HBLK_IS_FREE hh'"
    "hb_sz hh = hb_sz hh'"
proof -
  have c: "core (HDR st h) = core (Hdr hh)" using hdr_simD(1) [OF assms(1), of h] assms(2) by simp
  then obtain hh' where hh': "HDR st h = Hdr hh'" by (cases "HDR st h") auto
  show ?thesis using that [OF hh'] core_Hdr [of hh hh'] c hh' by simp
qed

lemma hdr_sim_layout:
  assumes sim: "hdr_sim st st'" and l: "layout_ok st"
  shows "layout_ok st'"
  unfolding layout_ok_def
proof (intro conjI allI impI)
  fix h hh assume "HDR st' h = Hdr hh"
  then obtain hh' where h: "HDR st h = Hdr hh'" "blocks_of hh = blocks_of hh'" "HBLK_IS_FREE hh = HBLK_IS_FREE hh'"
    by (rule hdr_sim_back [OF sim])
  show "0 < blocks_of hh" using layout_blocks_pos [OF l h(1)] h(2) by simp
  fix b assume "h < b \<and> b < h + blocks_of hh"
  then show "HDR st' b = (if HBLK_IS_FREE hh then Fwd 0 else count_entry h b)"
    using layout_inside [OF l h(1), of b] h(2,3) hdr_sim_Fwd [OF sim, of b]
    by (auto simp: count_entry_def)
next
  fix b k assume "HDR st' b = Fwd k \<and> 0 < k"
  then have "HDR st b = Fwd k" "0 < k" using hdr_sim_Fwd [OF sim] by auto
  then obtain h hh where "HDR st h = Hdr hh" "\<not> HBLK_IS_FREE hh" "h < b" "b < h + blocks_of hh"
    by (rule layout_Fwd_owner [OF l])
  then show "\<exists>h hh. HDR st' h = Hdr hh \<and> \<not> HBLK_IS_FREE hh \<and> h < b \<and> b < h + blocks_of hh"
    using hdr_sim_Hdr [OF sim] by metis
qed

lemma hdr_sim_tiled:
  assumes sim: "hdr_sim st st'" and t: "tiled st" and wf: "index_wf st'"
  shows "tiled st'" "free_cells st' = free_cells st" "used_at st' = used_at st"
proof -
  have "free_sizes_ok st'"
    unfolding free_sizes_ok_def
  proof (intro allI impI)
    fix h hh assume a: "HDR st' h = Hdr hh \<and> HBLK_IS_FREE hh"
    then obtain hh' where "HDR st h = Hdr hh'" "blocks_of hh = blocks_of hh'" "HBLK_IS_FREE hh = HBLK_IS_FREE hh'"
        "hb_sz hh = hb_sz hh'"
      using hdr_sim_back [OF sim] by blast
    with a tiled_free_size(1) [OF t] show "hb_sz hh = blocks_of hh * HBLKSIZE" by simp
  qed
  moreover have "h + blocks_of hh \<le> 2 ^ 20" if "HDR st' h = Hdr hh" for h hh
    using hdr_sim_back [OF sim that] tiledD(5) [OF t, of h] by metis
  ultimately show "tiled st'"
    using t wf hdr_sim_layout [OF sim] hdr_simD(3,4,6) [OF sim] by (auto simp: tiled_def)
  show "free_cells st' = free_cells st"
    unfolding free_cells_def using hdr_sim_Hdr [OF sim] hdr_sim_back [OF sim] by (metis (no_types, lifting))
  show "used_at st' = used_at st"
  proof
    fix b show "used_at st' b = used_at st b"
      using hdr_simD(2,3) [OF sim, of b] hdr_simD(6) [OF sim, of b]
      by (cases "HDR st b"; cases "HDR st' b") (auto simp: used_at_def free_at_def is_Hdr_def)
  qed
qed

section \<open>Replacing a range of blocks\<close>

definition no_cut :: "'a hdr_index_scheme \<Rightarrow> hblk \<Rightarrow> hblk \<Rightarrow> bool" where
  "no_cut st s e \<longleftrightarrow> (\<forall>h hh. HDR st h = Hdr hh \<longrightarrow>
     h + blocks_of hh \<le> s \<or> s \<le> h \<and> h + blocks_of hh \<le> e \<or> e \<le> h)"

lemma no_cutI:
  assumes l: "layout_ok st" and s: "HDR st s = Hdr sh" and h: "HDR st h = Hdr hh" "s \<le> h"
  shows "no_cut st s (h + blocks_of hh)"
  unfolding no_cut_def
proof (intro allI impI)
  fix g gh assume g: "HDR st g = Hdr gh"
  consider "g < s" | "s \<le> g" "g < h" | "g = h" | "h < g" by linarith
  then show "g + blocks_of gh \<le> s \<or> s \<le> g \<and> g + blocks_of gh \<le> h + blocks_of hh \<or> h + blocks_of hh \<le> g"
  proof cases
    case 1
    then show ?thesis using layout_disjoint [OF l g s] by simp
  next
    case 2
    then show ?thesis using layout_disjoint [OF l g h(1)] by simp
  next
    case 3
    then show ?thesis using g h by simp
  next
    case 4
    then show ?thesis using layout_disjoint [OF l h(1) g] by simp
  qed
qed

text \<open>The blocks inside a range, as \<open>tiled\<close> wants them.\<close>

definition tile_ok :: "'a hdr_index_scheme \<Rightarrow> hblk \<Rightarrow> hblk \<Rightarrow> hdr \<Rightarrow> bool" where
  "tile_ok st e h hh \<longleftrightarrow> 0 < blocks_of hh \<and> h + blocks_of hh \<le> e
     \<and> (\<forall>b. h < b \<and> b < h + blocks_of hh \<longrightarrow> HDR st b = (if HBLK_IS_FREE hh then Fwd 0 else count_entry h b))
     \<and> (HBLK_IS_FREE hh \<longrightarrow> hb_sz hh = blocks_of hh * HBLKSIZE \<and> hb_sz hh < 2 ^ 31)"

lemma core_Hdr_obtain:
  assumes "core (HDR st' h) = core (HDR st h)" "HDR st' h = Hdr hh"
  obtains hh' where "HDR st h = Hdr hh'" "blocks_of hh' = blocks_of hh" "HBLK_IS_FREE hh' = HBLK_IS_FREE hh"
    "hb_sz hh' = hb_sz hh"
proof -
  obtain hh' where hh': "HDR st h = Hdr hh'" using assms by (cases "HDR st h") auto
  show ?thesis using that [OF hh'] core_Hdr [of hh' hh] assms hh' by simp
qed

lemma tiled_replace:
  assumes t: "tiled st" and wf: "index_wf st'" and s: "0 < s" "e \<le> 2 ^ 20"
    and out: "\<And>b. b < s \<or> e \<le> b \<Longrightarrow> core (HDR st' b) = core (HDR st b)"
    and cut: "no_cut st s e"
    and ins: "\<And>h hh. HDR st' h = Hdr hh \<Longrightarrow> s \<le> h \<Longrightarrow> h < e \<Longrightarrow> tile_ok st' e h hh"
    and fwd: "\<And>b k. HDR st' b = Fwd k \<Longrightarrow> 0 < k \<Longrightarrow> s \<le> b \<Longrightarrow> b < e \<Longrightarrow>
        \<exists>h hh. s \<le> h \<and> HDR st' h = Hdr hh \<and> \<not> HBLK_IS_FREE hh \<and> h < b \<and> b < h + blocks_of hh"
  shows "tiled st'"
proof -
  note l = tiledD(2) [OF t]
  have tile: "0 < blocks_of hh \<and> h + blocks_of hh \<le> 2 ^ 20
      \<and> (HBLK_IS_FREE hh \<longrightarrow> hb_sz hh = blocks_of hh * HBLKSIZE \<and> hb_sz hh < 2 ^ 31)
      \<and> (\<forall>b. h < b \<and> b < h + blocks_of hh \<longrightarrow> HDR st' b = (if HBLK_IS_FREE hh then Fwd 0 else count_entry h b))"
    if h: "HDR st' h = Hdr hh" for h hh
  proof (cases "s \<le> h \<and> h < e")
    case True
    then show ?thesis using ins [OF h] s(2) by (auto simp: tile_ok_def)
  next
    case False
    then obtain hh' where o: "HDR st h = Hdr hh'" "blocks_of hh' = blocks_of hh"
        "HBLK_IS_FREE hh' = HBLK_IS_FREE hh" "hb_sz hh' = hb_sz hh"
      using core_Hdr_obtain [OF out h] by (metis not_le)
    have apart: "h + blocks_of hh \<le> s \<or> e \<le> h" using False cut o(1,2) unfolding no_cut_def by (metis not_le)
    have "HDR st' b = (if HBLK_IS_FREE hh then Fwd 0 else count_entry h b)" if b: "h < b" "b < h + blocks_of hh" for b
    proof -
      have "core (HDR st' b) = core (HDR st b)" using out [of b] apart b by linarith
      moreover have "HDR st b = (if HBLK_IS_FREE hh then Fwd 0 else count_entry h b)"
        using layout_inside [OF l o(1), of b] b o by simp
      ultimately show ?thesis by (auto simp: count_entry_def)
    qed
    moreover have "hb_sz hh < 2 ^ 31" if "HBLK_IS_FREE hh"
      using tiledD(6) [OF t, of h] o that by (simp add: free_at_def size_at_def hdr_at_def)
    ultimately show ?thesis
      using layout_blocks_pos [OF l o(1)] tiledD(5) [OF t o(1)] tiled_free_size(1) [OF t o(1)] o by auto
  qed
  have "\<exists>h hh. HDR st' h = Hdr hh \<and> \<not> HBLK_IS_FREE hh \<and> h < b \<and> b < h + blocks_of hh"
    if b: "HDR st' b = Fwd k" "0 < k" for b k
  proof (cases "s \<le> b \<and> b < e")
    case True
    then show ?thesis using fwd [of b k] b by blast
  next
    case False
    then have "core (HDR st' b) = core (HDR st b)" using out [of b] by linarith
    then have "HDR st b = Fwd k" using b by (simp add: core_Fwd)
    then obtain h hh where h: "HDR st h = Hdr hh" "\<not> HBLK_IS_FREE hh" "h < b" "b < h + blocks_of hh"
      using layout_Fwd_owner [OF l _ b(2)] by metis
    have "h + blocks_of hh \<le> s \<or> s \<le> h \<and> h + blocks_of hh \<le> e \<or> e \<le> h" using cut h(1) unfolding no_cut_def by blast
    then have "core (HDR st h) = core (HDR st' h)" using out [of h] False h(3,4) by (metis le_less_trans less_le_trans not_le order.strict_trans)
    from core_Hdr_obtain [OF this h(1)] h show ?thesis by metis
  qed
  with tile have "layout_ok st'" unfolding layout_ok_def by blast
  moreover have "free_sizes_ok st'" unfolding free_sizes_ok_def using tile by blast
  moreover have "\<not> is_Hdr (HDR st' 0)" using out [of 0] s(1) tiledD(4) [OF t] is_Hdr_core by blast
  moreover have "size_at st' h < 2 ^ 31" if f: "free_at st' h" for h
  proof -
    obtain hh where "HDR st' h = Hdr hh" "HBLK_IS_FREE hh" using f by (auto simp: free_at_def split: hdr_entry.splits)
    then show ?thesis using tile [of h hh] by (simp add: size_at_def)
  qed
  ultimately show ?thesis using wf tile by (simp add: tiled_def)
qed

text \<open>The free heap blocks change only inside the range.\<close>

lemma replace_cells_into:
  assumes "layout_ok st" "\<And>b. b < s \<or> e \<le> b \<Longrightarrow> core (HDR st' b) = core (HDR st b)" "no_cut st s e"
    "b < s \<or> e \<le> b" "b \<in> free_cells st"
  shows "b \<in> free_cells st'"
proof -
  obtain h hh where h: "HDR st h = Hdr hh" "HBLK_IS_FREE hh" "h \<le> b" "b < h + blocks_of hh"
    using assms(5) by (auto simp: free_cells_def)
  have "h + blocks_of hh \<le> s \<or> s \<le> h \<and> h + blocks_of hh \<le> e \<or> e \<le> h"
    using assms(3) h(1) unfolding no_cut_def by blast
  then have "h < s \<or> e \<le> h" using assms(4) h(3,4) by linarith
  then have "core (HDR st h) = core (HDR st' h)" using assms(2) [of h] by simp
  then obtain hh' where "HDR st' h = Hdr hh'" "blocks_of hh' = blocks_of hh" "HBLK_IS_FREE hh' = HBLK_IS_FREE hh"
    using core_Hdr_obtain [OF _ h(1)] by metis
  with h have "HDR st' h = Hdr hh' \<and> HBLK_IS_FREE hh' \<and> h \<le> b \<and> b < h + blocks_of hh'" by simp
  then show ?thesis unfolding free_cells_def by blast
qed

lemma replace_cells:
  assumes "layout_ok st" "layout_ok st'" and out: "\<And>b. b < s \<or> e \<le> b \<Longrightarrow> core (HDR st' b) = core (HDR st b)"
    and "no_cut st s e" "no_cut st' s e" and "b < s \<or> e \<le> b"
  shows "b \<in> free_cells st' \<longleftrightarrow> b \<in> free_cells st"
  using replace_cells_into [of st s e st' b] replace_cells_into [of st' s e st b] assms by auto

section \<open>Merging neighbours\<close>

lemma free_cells_member:
  assumes "tiled st" "HDR st h = Hdr hh" "h \<le> b" "b < h + blocks_of hh"
  shows "b \<in> free_cells st \<longleftrightarrow> HBLK_IS_FREE hh"
proof
  assume "b \<in> free_cells st"
  then obtain g gh where g: "HDR st g = Hdr gh" "HBLK_IS_FREE gh" "g \<le> b" "b < g + blocks_of gh"
    by (auto simp: free_cells_def)
  have "g = h"
    using layout_disjoint [OF tiledD(2) [OF assms(1)] g(1) assms(2)]
      layout_disjoint [OF tiledD(2) [OF assms(1)] assms(2) g(1)] g assms(3,4) by linarith
  with g assms(2) show "HBLK_IS_FREE hh" by simp
qed (use assms in \<open>auto simp: free_cells_def\<close>)

lemma blocks_of_sz: "blocks_of (hh\<lparr>hb_sz := n * HBLKSIZE\<rparr>) = n"
  by (simp add: blocks_of_def)

lemma merge_tiles:
  assumes t: "tiled st" and a: "HDR st a = Hdr ha" "HBLK_IS_FREE ha"
    and b: "b = a + blocks_of ha" "HDR st b = Hdr hb" "HBLK_IS_FREE hb"
    and small: "hb_sz ha + hb_sz hb < 2 ^ 31" and wf: "index_wf st'"
    and H: "HDR st' = (HDR st)(a := Hdr (ha\<lparr> hb_sz := hb_sz ha + hb_sz hb \<rparr>), b := Fwd 0)"
  shows "tiled st'" "free_cells st' = free_cells st" "used_at st' = used_at st"
proof -
  let ?e = "b + blocks_of hb" and ?hh = "ha\<lparr> hb_sz := hb_sz ha + hb_sz hb \<rparr>"
  note l = tiledD(2) [OF t]
  note sa = tiled_free_size [OF t a] and sb = tiled_free_size [OF t b(2,3)]
  have sz: "hb_sz ha + hb_sz hb = (blocks_of ha + blocks_of hb) * HBLKSIZE" using sa sb by (simp add: add_mult_distrib)
  have bl: "blocks_of ?hh = blocks_of ha + blocks_of hb" unfolding sz blocks_of_sz ..
  have fr: "HBLK_IS_FREE ?hh" using a(2) by (simp add: HBLK_IS_FREE_def)
  have ab: "a < b" using b(1) sa(3) by simp
  have cut: "no_cut st a ?e" by (rule no_cutI [OF l a(1) b(2)]) (use ab in simp)
  have inner: "HDR st' c = Fwd 0" if "a < c" "c < ?e" for c
  proof -
    consider "c < b" | "c = b" | "b < c" by linarith
    then show ?thesis
      using that layout_inside [OF l a(1), of c] layout_inside [OF l b(2), of c] a(2) b by cases (simp_all add: H)
  qed
  have Ha: "HDR st' a = Hdr ?hh" using ab by (simp add: H)
  have range: "\<And>c hh. HDR st' c = Hdr hh \<Longrightarrow> a \<le> c \<Longrightarrow> c < ?e \<Longrightarrow> c = a \<and> hh = ?hh"
    using inner Ha by (metis hdr_entry.distinct(1) hdr_entry.inject(2) le_neq_implies_less)
  have endp: "a + blocks_of ?hh = ?e" using bl b(1) by simp
  have tok: "tile_ok st' ?e a ?hh"
    using inner small sz endp bl fr sb(3) unfolding tile_ok_def by simp
  have a0: "0 < a" using tiled_Hdr_pos [OF t a(1)] .
  have out: "core (HDR st' c) = core (HDR st c)" if "c < a \<or> ?e \<le> c" for c using that ab sb(3) by (auto simp: H)
  show t': "tiled st'"
  proof (rule tiled_replace [OF t wf a0 tiledD(5) [OF t b(2)] out cut])
    show "tile_ok st' ?e h hh" if "HDR st' h = Hdr hh" "a \<le> h" "h < ?e" for h hh
      using range [OF that] tok by simp
    show "\<exists>h hh. a \<le> h \<and> HDR st' h = Hdr hh \<and> \<not> HBLK_IS_FREE hh \<and> h < c \<and> c < h + blocks_of hh"
      if "HDR st' c = Fwd k" "0 < k" "a \<le> c" "c < ?e" for c k
      using that inner [of c] Ha by (cases "c = a") auto
  qed auto
  show "free_cells st' = free_cells st"
  proof
    have cut': "no_cut st' a ?e" using no_cutI [OF tiledD(2) [OF t'] Ha Ha] endp by simp
    have "c \<in> free_cells st' \<longleftrightarrow> c \<in> free_cells st" for c
    proof (cases "c < a \<or> ?e \<le> c")
      case True
      then show ?thesis using replace_cells [OF l tiledD(2) [OF t'] out cut cut'] by blast
    next
      case False
      then have "c \<in> free_cells st'" using free_cells_member [OF t' Ha] endp fr by simp
      moreover have "c \<in> free_cells st"
        using False free_cells_member [OF t a(1), of c] free_cells_member [OF t b(2), of c] a(2) b
        by (cases "c < b") auto
      ultimately show ?thesis by simp
    qed
    then show "free_cells st' \<subseteq> free_cells st" "free_cells st \<subseteq> free_cells st'" by blast+
  qed
  show "used_at st' = used_at st"
    using a b fr by (auto simp: fun_eq_iff used_at_def H)
qed

section \<open>Finding the free block in front\<close>

lemma walk_back_stop: "HDR st p = Hdr hh \<Longrightarrow> walk_back st p = p" "HDR st p = Fwd 0 \<Longrightarrow> walk_back st p = p"
  by (subst walk_back.simps; simp)+

lemma walk_back_jump: "HDR st p = Fwd k \<Longrightarrow> 0 < k \<Longrightarrow> 0 < p \<Longrightarrow> walk_back st p = walk_back st (p - k)"
  by (subst walk_back.simps) simp

lemma walk_back_owner:
  assumes l: "layout_ok st" and h: "HDR st h = Hdr hh" "\<not> HBLK_IS_FREE hh"
  shows "h \<le> b \<Longrightarrow> b < h + blocks_of hh \<Longrightarrow> walk_back st b = h"
proof (induction b rule: less_induct)
  case (less b)
  show ?case
  proof (cases "b = h")
    case True
    then show ?thesis using h(1) by (simp add: walk_back_stop)
  next
    case False
    let ?k = "min (b - h) MAX_JUMP"
    have "HDR st b = Fwd ?k" using layout_inside [OF l h(1), of b] False less.prems h(2) by (simp add: count_entry_def)
    moreover have "0 < ?k" "b - ?k < b" "h \<le> b - ?k"
      using False less.prems by (auto simp: MAX_JUMP_def HBLKSIZE_def)
    ultimately show ?thesis using less.IH [of "b - ?k"] less.prems walk_back_jump [of st b ?k] by simp
  qed
qed

lemma GC_free_block_ending_at_spec:
  assumes t: "tiled st" and h: "HDR st h = Hdr hh"
  defines "p \<equiv> GC_free_block_ending_at st h"
  shows "p \<noteq> 0 \<Longrightarrow> \<exists>ph. HDR st p = Hdr ph \<and> HBLK_IS_FREE ph \<and> p + blocks_of ph = h"
    "HDR st q = Hdr qh \<Longrightarrow> HBLK_IS_FREE qh \<Longrightarrow> q + blocks_of qh = h \<Longrightarrow> p = q"
proof -
  note l = tiledD(2) [OF t]
  have h0: "0 < h" using tiled_Hdr_pos [OF t h] .
  have own: "q < h \<and> (q = h - 1 \<or> HDR st (h - 1) = Fwd 0)"
    if "HDR st q = Hdr qh" "HBLK_IS_FREE qh" "q + blocks_of qh = h" for q qh
    using that layout_inside [OF l that(1), of "h - 1"] layout_blocks_pos [OF l that(1)] h0
    by (cases "q = h - 1") auto
  have "(p \<noteq> 0 \<longrightarrow> (\<exists>ph. HDR st p = Hdr ph \<and> HBLK_IS_FREE ph \<and> p + blocks_of ph = h))
      \<and> (\<forall>q qh. HDR st q = Hdr qh \<and> HBLK_IS_FREE qh \<and> q + blocks_of qh = h \<longrightarrow> p = q)"
  proof (cases "HDR st (h - 1)")
    case (Hdr ph)
    have "h - 1 + blocks_of ph \<le> h" using layout_disjoint [OF l Hdr h] h0 by simp
    then have b: "h - 1 + blocks_of ph = h" using layout_blocks_pos [OF l Hdr] h0 by simp
    have p: "p = (if HBLK_IS_FREE ph then h - 1 else 0)"
      using Hdr by (simp add: p_def GC_free_block_ending_at_def walk_back_stop)
    have "q = h - 1" if "HDR st q = Hdr qh" "HBLK_IS_FREE qh" "q + blocks_of qh = h" for q qh
      using own [OF that] Hdr by auto
    with p b Hdr show ?thesis by (metis hdr_entry.inject(2))
  next
    case (Fwd k)
    show ?thesis
    proof (cases "k = 0")
      case False
      then have k0: "0 < k" by simp
      obtain ow oh where o: "HDR st ow = Hdr oh" "\<not> HBLK_IS_FREE oh" "ow < h - 1" "h - 1 < ow + blocks_of oh"
        by (rule layout_Fwd_owner [OF l Fwd k0])
      then have "walk_back st (h - 1) = ow" using walk_back_owner [OF l o(1,2)] by simp
      with o have p: "p = 0" by (simp add: p_def GC_free_block_ending_at_def)
      have "False" if "HDR st q = Hdr qh" "HBLK_IS_FREE qh" "q + blocks_of qh = h" for q qh
        using own [OF that] Fwd False that(1) by auto
      with p show ?thesis by auto
    next
      case True
      let ?p = "GC_prev_block st (h - 1)" and ?hits = "{b. b \<le> h - 1 \<and> is_Hdr (HDR st b)}"
      note m = GC_prev_block_max [OF tiledD(1) [OF t] l, of "h - 1"]
      have p: "p = (if ?p \<noteq> 0 \<and> HBLK_IS_FREE (hdr_at st ?p) \<and> hblk_addr ?p + hb_sz (hdr_at st ?p) = hblk_addr h
                    then ?p else 0)"
        using Fwd True by (simp add: p_def GC_free_block_ending_at_def walk_back_stop Let_def)
      have ends: "hblk_addr g + hb_sz gh = hblk_addr h \<longleftrightarrow> g + blocks_of gh = h"
        if "HDR st g = Hdr gh" "HBLK_IS_FREE gh" for g gh
        unfolding tiled_free_size(1) [OF t that] hblk_addr_def add_mult_distrib [symmetric]
        by (simp only: mult_cancel2) (simp add: HBLKSIZE_def)
      have 1: "\<exists>ph. HDR st p = Hdr ph \<and> HBLK_IS_FREE ph \<and> p + blocks_of ph = h" if "p \<noteq> 0"
      proof -
        have pp: "p = ?p" "HBLK_IS_FREE (hdr_at st ?p)" "hblk_addr ?p + hb_sz (hdr_at st ?p) = hblk_addr h"
          using that p by (auto split: if_splits)
        have "?hits \<noteq> {}" using m that pp(1) by auto
        then obtain ph where "HDR st ?p = Hdr ph" using m by (auto simp: is_Hdr_iff)
        with pp ends [of ?p ph] show ?thesis by auto
      qed
      have 2: "p = q" if q: "HDR st q = Hdr qh" "HBLK_IS_FREE qh" "q + blocks_of qh = h" for q qh
      proof -
        have "q < h" using own [OF q] by simp
        then have "q \<in> ?hits" using q by (auto simp: is_Hdr_def)
        then have pm: "?p \<le> h - 1" "is_Hdr (HDR st ?p)" "q \<le> ?p" using m by auto
        have "?p = q"
          using pm layout_inside [OF l q(1), of ?p] q(2,3) h0 by (cases "q = ?p") (auto simp: is_Hdr_def)
        moreover have "q \<noteq> 0" using tiled_Hdr_pos [OF t q(1)] by simp
        ultimately show ?thesis using p q ends [OF q(1,2)] by simp
      qed
      from 1 2 show ?thesis by blast
    qed
  qed
  then show "p \<noteq> 0 \<Longrightarrow> \<exists>ph. HDR st p = Hdr ph \<and> HBLK_IS_FREE ph \<and> p + blocks_of ph = h"
    "HDR st q = Hdr qh \<Longrightarrow> HBLK_IS_FREE qh \<Longrightarrow> q + blocks_of qh = h \<Longrightarrow> p = q" by blast+
qed

section \<open>Coalescing\<close>

text \<open>A free block \<open>h\<close> has been taken off the lists while it is being changed.\<close>

definition mid :: "(nat \<Rightarrow> hblk list) \<Rightarrow> hblk \<Rightarrow> 'a gc_heap_scheme \<Rightarrow> bool" where
  "mid L h st \<longleftrightarrow> tiled st \<and> fl_ok L {h} st \<and> free_at st h \<and> (\<forall>n. h \<notin> set (L n))"

text \<open>Nothing but lists and the sizes of free blocks has changed.\<close>

definition same_use :: "'a gc_heap_scheme \<Rightarrow> 'a gc_heap_scheme \<Rightarrow> bool" where
  "same_use st st' \<longleftrightarrow> free_cells st' = free_cells st \<and> used_at st' = used_at st \<and> vars st' = vars st"

lemma same_use_refl [simp]: "same_use st st"
  by (simp add: same_use_def)

lemma same_use_trans: "same_use a b \<Longrightarrow> same_use b c \<Longrightarrow> same_use a c"
  by (simp add: same_use_def)

lemma no_overflow:
  assumes "x < 2 ^ 31" "y < 2 ^ 31"
  shows "signed_word (wadd x y) > 0 \<longleftrightarrow> 0 < x + y \<and> x + y < 2 ^ 31" "wadd x y = x + y"
proof -
  show w: "wadd x y = x + y" using assms by (intro wadd_id) simp
  show "signed_word (wadd x y) > 0 \<longleftrightarrow> 0 < x + y \<and> x + y < 2 ^ 31"
    unfolding w using assms by (subst signed_word_pos_iff) auto
qed

lemma free_at_obtain:
  assumes "free_at st h"
  obtains hh where "HDR st h = Hdr hh" "HBLK_IS_FREE hh"
  using assms by (auto simp: free_at_def split: hdr_entry.splits)

lemma size_at_Hdr [simp]: "HDR st h = Hdr hh \<Longrightarrow> size_at st h = hb_sz hh"
  by (simp add: size_at_def)

lemma merge_step:
  assumes t: "tiled st" and fl: "fl_ok L {a, b} st" and off: "\<And>n. a \<notin> set (L n)" "\<And>n. b \<notin> set (L n)"
    and a: "HDR st a = Hdr ha" "HBLK_IS_FREE ha" and b: "b = a + blocks_of ha" "HDR st b = Hdr hb" "HBLK_IS_FREE hb"
    and small: "hb_sz ha + hb_sz hb < 2 ^ 31"
  defines "st' \<equiv> GC_remove_header b (upd_hdr a (\<lambda>hh. hh\<lparr> hb_sz := wadd (hb_sz hh) (hb_sz hb) \<rparr>) st)"
  shows "mid L a st'" "same_use st st'" "\<And>c. c \<noteq> a \<Longrightarrow> c \<noteq> b \<Longrightarrow> HDR st' c = HDR st c"
    "HDR st' a = Hdr (ha\<lparr> hb_sz := hb_sz ha + hb_sz hb \<rparr>)" "HDR st' b = Fwd 0"
proof -
  let ?st1 = "upd_hdr a (\<lambda>hh. hh\<lparr> hb_sz := wadd (hb_sz hh) (hb_sz hb) \<rparr>) st"
  note wf = tiledD(1) [OF t]
  have ab: "a \<noteq> b" using b(1) tiled_free_size(3) [OF t a] by simp
  have w: "wadd (hb_sz ha) (hb_sz hb) = hb_sz ha + hb_sz hb" using small by (intro wadd_id) simp
  have "mapped ?st1 b" using HDR_Hdr_mapped [of ?st1 b hb] wf b(2) ab by (simp add: HDR_upd_hdr)
  then have H: "HDR st' = (HDR st)(a := Hdr (ha\<lparr> hb_sz := hb_sz ha + hb_sz hb \<rparr>), b := Fwd 0)"
      and wf': "index_wf st'"
    using wf a(1) ab w unfolding st'_def by (auto simp: GC_remove_header_spec HDR_upd_hdr fun_eq_iff)
  note m = merge_tiles [OF t a b small wf' H]
  show use: "same_use st st'" using m(2,3) by (simp add: same_use_def st'_def)
  show "\<And>c. c \<noteq> a \<Longrightarrow> c \<noteq> b \<Longrightarrow> HDR st' c = HDR st c"
    "HDR st' a = Hdr (ha\<lparr> hb_sz := hb_sz ha + hb_sz hb \<rparr>)" "HDR st' b = Fwd 0" using ab by (simp_all add: H)
  have "fl_ok L {a} st'"
  proof (rule fl_ok_frame [OF fl])
    fix c n assume c: "c \<in> set (L n)"
    then show "HDR st' c = HDR st c" using off by (auto simp: H)
    show "c \<in> {a, b} \<Longrightarrow> c \<in> {a}" using c off by auto
  next
    fix c assume c: "free_at st' c" "c \<notin> {a}"
    then have "c \<noteq> b" by (auto simp: H free_at_def)
    with c show "c \<notin> {a, b} \<and> free_at st c \<and> class_at st' c = class_at st c"
      by (auto simp: H free_at_def class_at_def size_at_def hdr_at_def)
  qed (simp_all add: st'_def)
  moreover have "free_at st' a" using ab a(2) by (simp add: H free_at_def HBLK_IS_FREE_def)
  ultimately show "mid L a st'" using m(1) off by (simp add: mid_def)
qed

lemma mid_take:
  assumes m: "mid L h st" and x: "free_at st x" "x \<noteq> h"
  defines "st' \<equiv> GC_remove_from_fl x None st"
  obtains L' where "fl_ok L' {x, h} st'" "tiled st'" "\<And>n. h \<notin> set (L' n)" "\<And>n. x \<notin> set (L' n)"
    "hdr_sim st st'" "same_use st st'"
proof -
  have fl: "fl_ok L {h} st" and t: "tiled st" using m by (auto simp: mid_def)
  have "x \<in> set (L (class_at st x))" using fl_okD(8) [OF fl x(1)] x(2) by simp
  then obtain xs ys where Ln: "L (class_at st x) = xs @ x # ys" by (meson split_list)
  note r = GC_remove_from_fl_spec [OF tiledD(1) [OF t] fl Ln, of None, folded st'_def]
  let ?L = "L(class_at st x := xs @ ys)"
  have r: "fl_ok ?L {x, h} st'" "hdr_sim st st'" "index_wf st'" "vars st' = vars st" using r by auto
  have d: "x \<notin> set xs" "x \<notin> set ys" using fl_okD(3) [OF fl, of "class_at st x"] Ln by auto
  have "x \<notin> set (?L n)" for n
    using d fl_lists_apart [OF fl, of x "class_at st x" n] Ln by auto
  moreover have "h \<notin> set (?L n)" for n
    using m Ln by (auto simp: mid_def) (metis in_set_conv_decomp Un_iff set_append insertI2 list.set(2))+
  moreover note hdr_sim_tiled [OF r(2) t r(3)]
  ultimately show thesis using that [of ?L] r by (auto simp: same_use_def)
qed

lemma coalesce_next_spec:
  assumes m: "mid L h st" and h: "HDR st h = Hdr hh"
  defines "st' \<equiv> coalesce_next h (hb_sz hh) st" and "nxt \<equiv> h + blocks_of hh"
  obtains L' where "mid L' h st'" "same_use st st'"
    "\<And>c. c \<noteq> h \<Longrightarrow> c \<noteq> nxt \<Longrightarrow> core (HDR st' c) = core (HDR st c)"
    "size_at st' h = (if free_at st nxt \<and> hb_sz hh + size_at st nxt < 2 ^ 31 then hb_sz hh + size_at st nxt else hb_sz hh)"
    "free_at st nxt \<and> hb_sz hh + size_at st nxt < 2 ^ 31 \<and> \<not> free_at st' nxt \<or>
     \<not> (free_at st nxt \<and> hb_sz hh + size_at st nxt < 2 ^ 31) \<and> st' = st"
proof -
  have t: "tiled st" using m by (simp add: mid_def)
  have hf: "HBLK_IS_FREE hh" using m h by (simp add: mid_def free_at_def)
  note sh = tiled_free_size [OF t h hf]
  have nx: "h + divHBLKSZ (hb_sz hh) = nxt" unfolding sh(2) nxt_def ..
  have neq: "nxt \<noteq> h" using sh(3) by (simp add: nxt_def)
  have hs: "hb_sz hh < 2 ^ 31" using tiledD(6) [OF t, of h] m h by (simp add: mid_def)
  show thesis
  proof (cases "free_at st nxt \<and> hb_sz hh + size_at st nxt < 2 ^ 31")
    case True
    then obtain nh where n: "HDR st nxt = Hdr nh" "HBLK_IS_FREE nh" using free_at_obtain by blast
    obtain L' where L': "fl_ok L' {nxt, h} (GC_remove_from_fl nxt None st)" "tiled (GC_remove_from_fl nxt None st)"
        "\<And>n. h \<notin> set (L' n)" "\<And>n. nxt \<notin> set (L' n)" "hdr_sim st (GC_remove_from_fl nxt None st)"
        "same_use st (GC_remove_from_fl nxt None st)"
      using mid_take [OF m _ neq] True by blast
    let ?r = "GC_remove_from_fl nxt None st"
    obtain hh' where h': "HDR ?r h = Hdr hh'" "blocks_of hh' = blocks_of hh" "HBLK_IS_FREE hh'" "hb_sz hh' = hb_sz hh"
      using hdr_sim_Hdr [OF L'(5) h] hf by metis
    obtain nh' where n': "HDR ?r nxt = Hdr nh'" "HBLK_IS_FREE nh'" "hb_sz nh' = hb_sz nh"
      using hdr_sim_Hdr [OF L'(5) n(1)] n(2) by metis
    have ns: "hb_sz nh < 2 ^ 31" using tiledD(6) [OF t, of nxt] n by (simp add: free_at_def)
    have small: "hb_sz hh' + hb_sz nh' < 2 ^ 31" using True n(1) h' n' by simp
    have "0 < hb_sz hh" using sh by (simp add: HBLKSIZE_def)
    then have "signed_word (wadd (hb_sz hh) (hb_sz nh)) > 0"
      using no_overflow(1) [OF hs ns] True n(1) by simp
    then have st': "st' = GC_remove_header nxt (upd_hdr h (\<lambda>hh. hh\<lparr> hb_sz := wadd (hb_sz hh) (hb_sz nh') \<rparr>) ?r)"
      using n n' h nx by (simp add: st'_def coalesce_next_def Let_def)
    have fl: "fl_ok L' {h, nxt} ?r" using L'(1) by (simp add: insert_commute)
    note ms = merge_step [OF L'(2) fl L'(3,4) h'(1,3) _ n'(1,2) small, folded st']
    have ms: "mid L' h st'" "same_use ?r st'" "\<And>c. c \<noteq> h \<Longrightarrow> c \<noteq> nxt \<Longrightarrow> HDR st' c = HDR ?r c"
        "HDR st' h = Hdr (hh'\<lparr>hb_sz := hb_sz hh' + hb_sz nh'\<rparr>)" "HDR st' nxt = Fwd 0"
      using ms h'(2) nxt_def by auto
    show thesis
    proof (rule that [OF ms(1)])
      show "same_use st st'" by (rule same_use_trans [OF L'(6) ms(2)])
      show "core (HDR st' c) = core (HDR st c)" if "c \<noteq> h" "c \<noteq> nxt" for c
        using ms(3) [OF that] hdr_simD(1) [OF L'(5), of c] by simp
      show "size_at st' h = (if free_at st nxt \<and> hb_sz hh + size_at st nxt < 2 ^ 31 then hb_sz hh + size_at st nxt else hb_sz hh)"
        using ms(4) True n n' h' by simp
      show "free_at st nxt \<and> hb_sz hh + size_at st nxt < 2 ^ 31 \<and> \<not> free_at st' nxt \<or>
          \<not> (free_at st nxt \<and> hb_sz hh + size_at st nxt < 2 ^ 31) \<and> st' = st"
        using ms(5) True by (simp add: free_at_def)
    qed
  next
    case False
    have "\<not> (HBLK_IS_FREE nh \<and> signed_word (wadd (hb_sz hh) (hb_sz nh)) > 0)" if "HDR st nxt = Hdr nh" for nh
      using False no_overflow(1) [OF hs, of "hb_sz nh"] tiledD(6) [OF t, of nxt] that by (auto simp: free_at_def)
    then have st': "st' = st" using h nx by (auto simp: st'_def coalesce_next_def Let_def split: hdr_entry.splits)
    show thesis by (rule that [of L]) (use m False h in \<open>auto simp: st'\<close>)
  qed
qed

lemma coalesce_prev_spec:
  assumes m: "mid L h st" and h: "HDR st h = Hdr hh"
    and p: "prev \<noteq> 0 \<Longrightarrow> HDR st prev = Hdr ph \<and> HBLK_IS_FREE ph \<and> prev + blocks_of ph = h"
  defines "r \<equiv> fst (coalesce_prev prev h st)" and "st' \<equiv> snd (coalesce_prev prev h st)"
  obtains L' where "mid L' r st'" "same_use st st'" "r \<noteq> 0"
    "\<And>c. c \<noteq> h \<Longrightarrow> c \<noteq> prev \<Longrightarrow> core (HDR st' c) = core (HDR st c)"
    "prev \<noteq> 0 \<and> size_at st prev + hb_sz hh < 2 ^ 31 \<and> r = prev \<and> size_at st' prev = size_at st prev + hb_sz hh
       \<and> \<not> free_at st' h
     \<or> \<not> (prev \<noteq> 0 \<and> size_at st prev + hb_sz hh < 2 ^ 31) \<and> r = h \<and> st' = st"
proof -
  have t: "tiled st" using m by (simp add: mid_def)
  have hf: "HBLK_IS_FREE hh" using m h by (simp add: mid_def free_at_def)
  note sh = tiled_free_size [OF t h hf]
  have hs: "hb_sz hh < 2 ^ 31" using tiledD(6) [OF t, of h] m h by (simp add: mid_def)
  have h0: "h \<noteq> 0" using tiled_Hdr_pos [OF t h] by simp
  show thesis
  proof (cases "prev \<noteq> 0 \<and> size_at st prev + hb_sz hh < 2 ^ 31")
    case True
    then have p: "HDR st prev = Hdr ph" "HBLK_IS_FREE ph" "prev + blocks_of ph = h" using p by auto
    note sp = tiled_free_size [OF t p(1,2)]
    have neq: "prev \<noteq> h" using sp(3) p(3) by simp
    have pf: "free_at st prev" using p by (simp add: free_at_def)
    let ?r = "GC_remove_from_fl prev None st"
    obtain L' where L': "fl_ok L' {prev, h} ?r" "tiled ?r" "\<And>n. h \<notin> set (L' n)" "\<And>n. prev \<notin> set (L' n)"
        "hdr_sim st ?r" "same_use st ?r"
      by (rule mid_take [OF m pf neq]) blast
    obtain hh' where h': "HDR ?r h = Hdr hh'" "HBLK_IS_FREE hh'" "hb_sz hh' = hb_sz hh"
      using hdr_sim_Hdr [OF L'(5) h] hf by metis
    obtain ph' where p': "HDR ?r prev = Hdr ph'" "blocks_of ph' = blocks_of ph" "HBLK_IS_FREE ph'" "hb_sz ph' = hb_sz ph"
      using hdr_sim_Hdr [OF L'(5) p(1)] p(2) by metis
    have ps: "hb_sz ph < 2 ^ 31" using tiledD(6) [OF t pf] p by simp
    have small: "hb_sz ph' + hb_sz hh' < 2 ^ 31" using True p(1) h' p' by simp
    have "0 < hb_sz hh" using sh by (simp add: HBLKSIZE_def)
    then have "signed_word (wadd (hb_sz hh) (hb_sz ph)) > 0"
      using no_overflow(1) [OF hs ps] True p(1) by (simp add: add.commute)
    then have r: "r = prev" and st': "st' = GC_remove_header h (upd_hdr prev (\<lambda>hh. hh\<lparr> hb_sz := wadd (hb_sz hh) (hb_sz hh') \<rparr>) ?r)"
      using p(1) h h'(3) True by (simp_all add: r_def st'_def coalesce_prev_def Let_def)
    note ms = merge_step [OF L'(2,1) L'(4,3) p'(1,3) _ h'(1,2) small, folded st']
    have ms: "mid L' prev st'" "same_use ?r st'" "\<And>c. c \<noteq> prev \<Longrightarrow> c \<noteq> h \<Longrightarrow> HDR st' c = HDR ?r c"
        "HDR st' prev = Hdr (ph'\<lparr>hb_sz := hb_sz ph' + hb_sz hh'\<rparr>)" "HDR st' h = Fwd 0"
      using ms p'(2) p(3) by auto
    show thesis
    proof (rule that)
      show "mid L' r st'" using ms(1) r by simp
      show "same_use st st'" by (rule same_use_trans [OF L'(6) ms(2)])
      show "core (HDR st' c) = core (HDR st c)" if "c \<noteq> h" "c \<noteq> prev" for c
        using ms(3) that hdr_simD(1) [OF L'(5), of c] by simp
      show "r \<noteq> 0" using True r by simp
      have "\<not> free_at st' h" using ms(5) by (simp add: free_at_def)
      then show "prev \<noteq> 0 \<and> size_at st prev + hb_sz hh < 2 ^ 31 \<and> r = prev \<and> size_at st' prev = size_at st prev + hb_sz hh
       \<and> \<not> free_at st' h \<or> \<not> (prev \<noteq> 0 \<and> size_at st prev + hb_sz hh < 2 ^ 31) \<and> r = h \<and> st' = st"
        using ms(4) True p p' h' r by simp
    qed
  next
    case False
    have "\<not> (prev \<noteq> 0 \<and> signed_word (wadd (hb_sz hh) (hb_sz (hdr_at st prev))) > 0)"
      using False no_overflow(1) [OF hs, of "size_at st prev"] tiledD(6) [OF t, of prev] p
      by (auto simp: free_at_def size_at_def add.commute)
    then have "r = h" "st' = st" using h by (auto simp: r_def st'_def coalesce_prev_def Let_def)
    then show thesis using that [of L] m False h0 by auto
  qed
qed

section \<open>Freeing a block\<close>

lemma SET_HDR_nil:
  assumes "index_wf st"
  shows "HDR (SET_HDR h (Fwd 0) st) = (HDR st)(h := Fwd 0)" "index_wf (SET_HDR h (Fwd 0) st)"
proof -
  have "HDR (SET_HDR h (Fwd 0) st) = (HDR st)(h := Fwd 0) \<and> index_wf (SET_HDR h (Fwd 0) st)"
  proof (cases "mapped st h")
    case True
    then show ?thesis using assms by (auto simp: HDR_SET_HDR fun_eq_iff)
  next
    case False
    then have "SET_HDR h (Fwd 0) st = st"
      using assms by (simp add: SET_HDR_def mapped_def index_wf_def fun_upd_idem)
    then show ?thesis using assms HDR_unmapped [OF assms False] by (simp add: fun_upd_idem)
  qed
  then show "HDR (SET_HDR h (Fwd 0) st) = (HDR st)(h := Fwd 0)" "index_wf (SET_HDR h (Fwd 0) st)" by auto
qed

lemma remove_counts_entries_all:
  fixes st :: "'a gc_heap_scheme"
  assumes "index_wf st"
  shows "HDR (remove_counts_entries b lim st) = (\<lambda>c. if b \<le> c \<and> hblk_addr c < lim then Fwd 0 else HDR st c)
    \<and> index_wf (remove_counts_entries b lim st) \<and> vars (remove_counts_entries b lim st) = vars st
    \<and> GC_hblkfreelist (remove_counts_entries b lim st) = GC_hblkfreelist st
    \<and> GC_free_bytes (remove_counts_entries b lim st) = GC_free_bytes st"
  using assms
proof (induction "lim - hblk_addr b" arbitrary: b st rule: less_induct)
  case less
  show ?case
  proof (cases "hblk_addr b < lim")
    case True
    let ?st = "SET_HDR b (Fwd 0) st"
    have "lim - hblk_addr (b + 1) < lim - hblk_addr b" using True by (simp add: hblk_addr_def HBLKSIZE_def)
    from less.hyps [OF this SET_HDR_nil(2) [OF less.prems]] True SET_HDR_nil(1) [OF less.prems]
    show ?thesis by (auto simp: remove_counts_entries.simps [of b] fun_eq_iff)
  next
    case False
    then have "\<not> hblk_addr c < lim" if "b \<le> c" for c using hblk_addr_mono [OF that] by simp
    with False less.prems show ?thesis by (auto simp: remove_counts_entries.simps [of b] fun_eq_iff)
  qed
qed

lemma GC_remove_counts_all:
  fixes st :: "'a gc_heap_scheme"
  assumes "index_wf st"
  shows "HDR (GC_remove_counts h (n * HBLKSIZE) st) = (\<lambda>c. if h < c \<and> c < h + n then Fwd 0 else HDR st c)"
    "index_wf (GC_remove_counts h (n * HBLKSIZE) st)" "vars (GC_remove_counts h (n * HBLKSIZE) st) = vars st"
    "GC_hblkfreelist (GC_remove_counts h (n * HBLKSIZE) st) = GC_hblkfreelist st"
    "GC_free_bytes (GC_remove_counts h (n * HBLKSIZE) st) = GC_free_bytes st"
proof -
  have "hblk_addr c < hblk_addr h + n * HBLKSIZE \<longleftrightarrow> c < h + n" for c
    unfolding hblk_addr_def add_mult_distrib [symmetric] by simp
  then show "HDR (GC_remove_counts h (n * HBLKSIZE) st) = (\<lambda>c. if h < c \<and> c < h + n then Fwd 0 else HDR st c)"
    "index_wf (GC_remove_counts h (n * HBLKSIZE) st)" "vars (GC_remove_counts h (n * HBLKSIZE) st) = vars st"
    "GC_hblkfreelist (GC_remove_counts h (n * HBLKSIZE) st) = GC_hblkfreelist st"
    "GC_free_bytes (GC_remove_counts h (n * HBLKSIZE) st) = GC_free_bytes st"
    using remove_counts_entries_all [OF assms, of "h + 1" "hblk_addr h + n * HBLKSIZE"]
    by (auto simp: GC_remove_counts_def Suc_le_eq)
qed

lemma free_flag_idem: "HBLK_IS_FREE hh \<Longrightarrow> hb_flags hh OR FREE_BLK = hb_flags hh"
proof -
  assume f: "HBLK_IS_FREE hh"
  have "bit (FREE_BLK :: 8 word) n \<longleftrightarrow> n = 2" for n
  proof -
    have e: "FREE_BLK = push_bit 2 (1 :: 8 word)" by (simp add: FREE_BLK_def)
    show ?thesis unfolding e by (simp only: bit_push_bit_iff bit_1_iff) auto
  qed
  moreover have "bit (hb_flags hh) 2" using f by (simp add: HBLK_IS_FREE_def FREE_BLK_def flag_free_iff)
  ultimately show ?thesis by (intro bit_eqI) (auto simp: bit_or_iff)
qed

lemma mid_put_back:
  assumes m: "mid L r st"
  defines "st' \<equiv> GC_add_to_fl r st"
  obtains L' where "tiled st'" "fl_ok L' {} st'" "same_use st st'" "hdr_sim st st'"
proof -
  have t: "tiled st" and fl: "fl_ok L {r} st" and f: "free_at st r" and off: "\<And>n. r \<notin> set (L n)"
    using m by (auto simp: mid_def)
  obtain rh where rh: "HDR st r = Hdr rh" "HBLK_IS_FREE rh" using free_at_obtain [OF f] by blast
  have r0: "r \<noteq> 0" using tiled_Hdr_pos [OF t rh(1)] by simp
  note a = GC_add_to_fl_spec [OF tiledD(1) [OF t] fl free_at_Hdr [OF f] r0 off refl, folded st'_def]
  have "hdr_sim st st'"
    unfolding hdr_sim_def
  proof (intro allI conjI impI)
    fix b
    show "core (HDR st' b) = core (HDR st b)"
      using a(4) [of b] a(6) rh free_flag_idem [OF rh(2)] by (cases "b = r") auto
    assume "\<not> free_at st b"
    with a(5) [of b] f show "HDR st' b = HDR st b" by auto
  qed
  moreover from hdr_sim_tiled [OF this t a(2)] a(3) have "tiled st'" "same_use st st'" by (auto simp: same_use_def)
  ultimately show thesis using that [of "L(class_at st r := r # L (class_at st r))"] a(1) by auto
qed

text \<open>
  The state in which \<open>GC_freehblk\<close> starts to coalesce: the block has the size of whole heap
  blocks, its forwarding counts are gone and it is flagged free.
\<close>

definition claim_free :: "hblk \<Rightarrow> hdr \<Rightarrow> 'a gc_heap_scheme \<Rightarrow> 'a gc_heap_scheme" where
  "claim_free h hh st =
     upd_hdr h (\<lambda>hh. hh\<lparr> hb_flags := hb_flags hh OR FREE_BLK \<rparr>)
       (upd_hdr h (\<lambda>x. x\<lparr> hb_sz := blocks_of hh * HBLKSIZE \<rparr>) (GC_remove_counts h (blocks_of hh * HBLKSIZE) st))"

lemma claim_free_spec:
  assumes wf: "index_wf st" and h: "HDR st h = Hdr hh"
  shows "HDR (claim_free h hh st) = (\<lambda>c. if c = h then Hdr (hh\<lparr> hb_sz := blocks_of hh * HBLKSIZE,
              hb_flags := hb_flags hh OR FREE_BLK \<rparr>) else if h < c \<and> c < h + blocks_of hh then Fwd 0 else HDR st c)"
    "index_wf (claim_free h hh st)" "vars (claim_free h hh st) = vars st"
    "GC_hblkfreelist (claim_free h hh st) = GC_hblkfreelist st" "GC_free_bytes (claim_free h hh st) = GC_free_bytes st"
  using GC_remove_counts_all [OF wf, of h "blocks_of hh"] h
  by (auto simp: claim_free_def HDR_upd_hdr fun_eq_iff)

definition adjacent :: "'a hdr_index_scheme \<Rightarrow> hblk \<Rightarrow> hblk \<Rightarrow> bool" where
  "adjacent st a b \<longleftrightarrow> free_at st a \<and> free_at st b \<and> b = a + divHBLKSZ (size_at st a)"

text \<open>Adjacent free blocks are left apart only when together they exceed a signed word.\<close>

definition coalesced :: "'a hdr_index_scheme \<Rightarrow> bool" where
  "coalesced st \<longleftrightarrow> (\<forall>a b. adjacent st a b \<longrightarrow> 2 ^ 31 \<le> size_at st a + size_at st b)"

lemma free_div_add:
  assumes "tiled st" "free_at st a"
  shows "divHBLKSZ (size_at st a + m) = divHBLKSZ (size_at st a) + divHBLKSZ m" "0 < divHBLKSZ (size_at st a)"
proof -
  obtain ha where a: "HDR st a = Hdr ha" "HBLK_IS_FREE ha" using free_at_obtain [OF assms(2)] by blast
  note s = tiled_free_size [OF assms(1) a]
  show "divHBLKSZ (size_at st a + m) = divHBLKSZ (size_at st a) + divHBLKSZ m"
    using a(1) s(1) by (simp add: divHBLKSZ_def)
  show "0 < divHBLKSZ (size_at st a)" using a(1) s(2,3) by simp
qed

lemma coalesced_next:
  assumes t: "tiled st" and h: "free_at st h" and nxt: "nxt = h + divHBLKSZ (size_at st h)"
    and C: "\<And>a b. adjacent st a b \<Longrightarrow> a \<noteq> h \<Longrightarrow> b \<noteq> h \<Longrightarrow> 2 ^ 31 \<le> size_at st a + size_at st b"
    and same: "\<And>c. c \<noteq> h \<Longrightarrow> c \<noteq> nxt \<Longrightarrow> core (HDR st' c) = core (HDR st c)"
    and alt: "free_at st nxt \<and> size_at st h + size_at st nxt < 2 ^ 31 \<and> \<not> free_at st' nxt
        \<and> size_at st' h = size_at st h + size_at st nxt
      \<or> \<not> (free_at st nxt \<and> size_at st h + size_at st nxt < 2 ^ 31) \<and> st' = st"
    and ab: "adjacent st' a b" "b \<noteq> h"
  shows "2 ^ 31 \<le> size_at st' a + size_at st' b"
proof (cases "st' = st")
  case True
  then show ?thesis
    using C [of a b] ab alt nxt by (cases "a = h") (auto simp: adjacent_def)
next
  case False
  with alt have m: "free_at st nxt" "\<not> free_at st' nxt" "size_at st' h = size_at st h + size_at st nxt" by auto
  have b: "free_at st b" "size_at st' b = size_at st b" "b \<noteq> nxt"
    using ab m(2) core_at [OF same, of b] by (auto simp: adjacent_def)
  show ?thesis
  proof (cases "a = h")
    case True
    then have "b = nxt + divHBLKSZ (size_at st nxt)"
      using ab m(3) free_div_add(1) [OF t h] nxt by (simp add: adjacent_def)
    then have "adjacent st nxt b" using m(1) b(1) by (simp add: adjacent_def)
    moreover have "nxt \<noteq> h" using nxt free_div_add(2) [OF t h] by simp
    ultimately show ?thesis using C [of nxt b] ab(2) m(3) b(2) True by simp
  next
    case False
    then have "a \<noteq> nxt" using ab m(2) by (auto simp: adjacent_def)
    then have a: "free_at st a" "size_at st' a = size_at st a"
      using ab core_at [OF same, of a] False by (auto simp: adjacent_def)
    then have "adjacent st a b" using ab b by (auto simp: adjacent_def)
    with C [of a b] ab(2) False a b show ?thesis by simp
  qed
qed

lemma coalesced_prev:
  assumes t: "tiled st" and h: "free_at st h"
    and C: "\<And>a b. adjacent st a b \<Longrightarrow> b \<noteq> h \<Longrightarrow> 2 ^ 31 \<le> size_at st a + size_at st b"
    and p: "prev \<noteq> 0 \<Longrightarrow> adjacent st prev h" "\<And>q. adjacent st q h \<Longrightarrow> prev = q \<and> q \<noteq> 0"
    and same: "\<And>c. c \<noteq> h \<Longrightarrow> c \<noteq> prev \<Longrightarrow> core (HDR st' c) = core (HDR st c)"
    and alt: "prev \<noteq> 0 \<and> size_at st prev + size_at st h < 2 ^ 31 \<and> size_at st' prev = size_at st prev + size_at st h
        \<and> \<not> free_at st' h
      \<or> \<not> (prev \<noteq> 0 \<and> size_at st prev + size_at st h < 2 ^ 31) \<and> st' = st"
  shows "coalesced st'"
  unfolding coalesced_def
proof (intro allI impI)
  fix a b assume ab: "adjacent st' a b"
  show "2 ^ 31 \<le> size_at st' a + size_at st' b"
  proof (cases "st' = st")
    case True
    then show ?thesis using ab C [of a b] p(2) [of a] alt h by (cases "b = h") auto
  next
    case False
    with alt have m: "prev \<noteq> 0" "\<not> free_at st' h" "size_at st' prev = size_at st prev + size_at st h" by auto
    have pf: "free_at st prev" "h = prev + divHBLKSZ (size_at st prev)" using p(1) [OF m(1)] by (auto simp: adjacent_def)
    have neq: "a \<noteq> h" "b \<noteq> h" using ab m(2) by (auto simp: adjacent_def)
    have other: "free_at st c \<and> size_at st' c = size_at st c" if "free_at st' c" "c \<noteq> prev" for c
      using that m(2) core_at [OF same, of c] by (cases "c = h") auto
    show ?thesis
    proof (cases "a = prev")
      case True
      have b: "b = h + divHBLKSZ (size_at st h)"
        using ab True m(3) free_div_add(1) [OF t pf(1)] pf(2) by (simp add: adjacent_def)
      then have "b \<noteq> prev" using pf(2) free_div_add(2) [OF t h] by simp
      then have "adjacent st h b" "size_at st' b = size_at st b"
        using b h ab other [of b] by (auto simp: adjacent_def)
      with C [of h b] neq m(3) True show ?thesis by simp
    next
      case False
      then have a: "free_at st a" "size_at st' a = size_at st a" using ab other [of a] by (auto simp: adjacent_def)
      have "adjacent st a b" using ab a pf other [of b] by (cases "b = prev") (auto simp: adjacent_def)
      with C [of a b] neq have "2 ^ 31 \<le> size_at st a + size_at st b" by simp
      moreover have "size_at st b \<le> size_at st' b" using m(3) other [of b] ab by (cases "b = prev") (auto simp: adjacent_def)
      ultimately show ?thesis using a by simp
    qed
  qed
qed

lemma GC_freehblk_core:
  fixes st :: "'a gc_heap_scheme"
  assumes wf: "index_wf st" and h: "HDR st h = Hdr hh" "\<not> HBLK_IS_FREE hh"
    and n: "0 < blocks_of hh" "blocks_of hh * HBLKSIZE < 2 ^ 31" and m: "mid L h (claim_free h hh st)"
    and co: "\<And>a b. adjacent (claim_free h hh st) a b \<Longrightarrow> a \<noteq> h \<Longrightarrow> b \<noteq> h \<Longrightarrow>
        2 ^ 31 \<le> size_at (claim_free h hh st) a + size_at (claim_free h hh st) b"
  obtains L' st' where "GC_freehblk h st = Some st'" "tiled st'" "fl_ok L' {} st'" "coalesced st'"
    "free_cells st' = free_cells (claim_free h hh st)" "used_at st' = used_at (claim_free h hh st)"
    "vars st' = (vars st)\<lparr> GC_large_free_bytes := wadd (GC_large_free_bytes st) (blocks_of hh * HBLKSIZE) \<rparr>"
proof -
  let ?n = "blocks_of hh * HBLKSIZE" and ?st2 = "claim_free h hh st"
  note c = claim_free_spec [OF wf h(1)]
  define hh2 where "hh2 = hh\<lparr> hb_sz := ?n, hb_flags := hb_flags hh OR FREE_BLK \<rparr>"
  have H2: "HDR ?st2 h = Hdr hh2" by (simp add: c(1) hh2_def)
  have hh2: "hb_sz hh2 = ?n" "blocks_of hh2 = blocks_of hh"
    by (simp_all add: hh2_def blocks_of_def)
  have t2: "tiled ?st2" using m by (simp add: mid_def)
  have "hb_sz hh \<le> ?n" using OBJ_SZ_TO_BLOCKS_ge [of "hb_sz hh"] by (simp add: blocks_of_def)
  then have "wadd (hb_sz hh) (HBLKSIZE - 1) = hb_sz hh + HBLKSIZE - 1"
    using n(2) by (subst wadd_id) (auto simp: HBLKSIZE_def)
  then have ob: "obj_sz_to_blocks (hb_sz hh) = blocks_of hh"
    by (simp add: obj_sz_to_blocks_def blocks_of_def OBJ_SZ_TO_BLOCKS_def)
  have sz: "word32 (HBLKSIZE * obj_sz_to_blocks (hb_sz (hdr_at st h))) = ?n" "signed_word ?n > 0"
    using n h(1) ob signed_word_pos_iff [of ?n] by (auto simp: mult.commute HBLKSIZE_def)
  define prev where "prev = GC_free_block_ending_at ?st2 h"
  define st3 where "st3 = coalesce_next h ?n ?st2"
  define r where "r = fst (coalesce_prev prev h st3)"
  define st4 where "st4 = snd (coalesce_prev prev h st3)"
  define st5 where "st5 = st4\<lparr> GC_large_free_bytes := wadd (GC_large_free_bytes st4) ?n \<rparr>"
  define st1 where "st1 = upd_hdr h (\<lambda>x. x\<lparr> hb_sz := ?n \<rparr>) (GC_remove_counts h ?n st)"
  have "hdr_at st1 h = hh\<lparr> hb_sz := ?n \<rparr>"
    using GC_remove_counts_all [OF wf, of h "blocks_of hh"] h(1) by (simp add: st1_def hdr_at_def HDR_upd_hdr)
  then have nf: "\<not> HBLK_IS_FREE (hdr_at st1 h)" using h(2) by (simp add: HBLK_IS_FREE_def)
  have cf: "?st2 = upd_hdr h (\<lambda>hh. hh\<lparr> hb_flags := hb_flags hh OR FREE_BLK \<rparr>) st1"
    by (simp add: claim_free_def st1_def)
  have run: "GC_freehblk h st = Some (GC_add_to_fl r st5)"
    using sz(2) nf unfolding GC_freehblk_def sz(1) Let_def st5_def st4_def r_def st3_def prev_def cf st1_def
    by (simp add: case_prod_unfold)
  obtain L3 where L3: "mid L3 h st3" "same_use ?st2 st3"
      "\<And>c. c \<noteq> h \<Longrightarrow> c \<noteq> h + blocks_of hh \<Longrightarrow> core (HDR st3 c) = core (HDR ?st2 c)"
      "size_at st3 h = (if free_at ?st2 (h + blocks_of hh) \<and> ?n + size_at ?st2 (h + blocks_of hh) < 2 ^ 31
                        then ?n + size_at ?st2 (h + blocks_of hh) else ?n)"
      "free_at ?st2 (h + blocks_of hh) \<and> ?n + size_at ?st2 (h + blocks_of hh) < 2 ^ 31 \<and> \<not> free_at st3 (h + blocks_of hh) \<or>
       \<not> (free_at ?st2 (h + blocks_of hh) \<and> ?n + size_at ?st2 (h + blocks_of hh) < 2 ^ 31) \<and> st3 = ?st2"
    using coalesce_next_spec [OF m H2, folded st3_def [folded hh2(1)], unfolded hh2] by blast
  have t3: "tiled st3" and f3: "free_at st3 h" using L3(1) by (auto simp: mid_def)
  obtain hh3 where h3: "HDR st3 h = Hdr hh3" "HBLK_IS_FREE hh3" using free_at_obtain [OF f3] by blast
  have hh2f: "HBLK_IS_FREE hh2" using m H2 by (simp add: mid_def free_at_def)
  have nx: "h + blocks_of hh = h + divHBLKSZ (size_at ?st2 h)"
    using tiled_free_size(2) [OF t2 H2 hh2f] H2 hh2 by simp
  have C3: "2 ^ 31 \<le> size_at st3 a + size_at st3 b" if "adjacent st3 a b" "b \<noteq> h" for a b
    by (rule coalesced_next [OF t2 _ nx co L3(3) _ that]) (use m L3(4,5) H2 hh2 in \<open>auto simp: mid_def\<close>)
  note e = GC_free_block_ending_at_spec [OF t2 H2, folded prev_def]
  have prev3: "core (HDR st3 q) = core (HDR ?st2 q)" if "q < h" for q using L3(3) [of q] that by simp
  have p3: "\<exists>ph. HDR st3 prev = Hdr ph \<and> HBLK_IS_FREE ph \<and> prev + blocks_of ph = h" if p0: "prev \<noteq> 0"
  proof -
    obtain ph where ph: "HDR ?st2 prev = Hdr ph" "HBLK_IS_FREE ph" "prev + blocks_of ph = h" using e(1) p0 by blast
    then have "prev < h" using tiled_free_size(3) [OF t2 ph(1,2)] by simp
    then obtain ph' where "HDR st3 prev = Hdr ph'" "core (Hdr ph') = core (Hdr ph)"
      using prev3 [of prev] ph(1) by (cases "HDR st3 prev") auto
    with core_Hdr [of ph' ph] ph show ?thesis by auto
  qed
  then obtain ph where ph: "prev \<noteq> 0 \<Longrightarrow> HDR st3 prev = Hdr ph \<and> HBLK_IS_FREE ph \<and> prev + blocks_of ph = h" by blast
  obtain L4 where L4: "mid L4 r st4" "same_use st3 st4" "r \<noteq> 0"
      "\<And>c. c \<noteq> h \<Longrightarrow> c \<noteq> prev \<Longrightarrow> core (HDR st4 c) = core (HDR st3 c)"
      "prev \<noteq> 0 \<and> size_at st3 prev + hb_sz hh3 < 2 ^ 31 \<and> r = prev \<and> size_at st4 prev = size_at st3 prev + hb_sz hh3
         \<and> \<not> free_at st4 h \<or> \<not> (prev \<noteq> 0 \<and> size_at st3 prev + hb_sz hh3 < 2 ^ 31) \<and> r = h \<and> st4 = st3"
    using coalesce_prev_spec [OF L3(1) h3(1) ph, folded r_def st4_def] by blast
  have "coalesced st4"
  proof (rule coalesced_prev [OF t3 f3 C3])
    show "adjacent st3 prev h" if "prev \<noteq> 0"
      using ph [OF that] tiled_free_size(2) [OF t3] f3 by (auto simp: adjacent_def free_at_def)
    show "prev = q \<and> q \<noteq> 0" if a: "adjacent st3 q h" for q
    proof -
      have qf: "free_at st3 q" "h = q + divHBLKSZ (size_at st3 q)" using a by (auto simp: adjacent_def)
      then have "q < h" using free_div_add(2) [OF t3 qf(1)] by simp
      note c3 = core_at [OF prev3 [OF this]]
      have "free_at ?st2 q" using c3(1) qf(1) by simp
      then obtain qh where qh: "HDR ?st2 q = Hdr qh" "HBLK_IS_FREE qh" by (rule free_at_obtain)
      have qs: "hb_sz qh = size_at st3 q" using c3(2) qh(1) by simp
      have "q + blocks_of qh = h" using tiled_free_size(2) [OF t2 qh(1,2)] qf(2) qs by simp
      with e(2) [OF qh(1,2)] tiled_Hdr_pos [OF t2 qh(1)] show ?thesis by simp
    qed
  qed (use L4(4,5) h3 in auto)
  have "HDR st5 = HDR st4" "index_wf st5 = index_wf st4" by (simp_all add: st5_def)
  note cong5 = tiled_cong [OF this] and at5 = at_cong [OF \<open>HDR st5 = HDR st4\<close>]
  have "mid L4 r st5"
    using L4(1) fl_ok_frame [of L4 "{r}" st4 st5 "{r}"] cong5(1) at5
    by (auto simp: mid_def \<open>HDR st5 = HDR st4\<close>) (auto simp: st5_def)
  then obtain L' where L': "tiled (GC_add_to_fl r st5)" "fl_ok L' {} (GC_add_to_fl r st5)"
      "same_use st5 (GC_add_to_fl r st5)" "hdr_sim st5 (GC_add_to_fl r st5)"
    by (rule mid_put_back)
  have u: "same_use ?st2 st4" by (rule same_use_trans [OF L3(2) L4(2)])
  have v4: "vars st4 = vars st" using u c(3) by (simp add: same_use_def)
  have "vars (GC_add_to_fl r st5) = vars st5" using L'(3) by (simp add: same_use_def)
  also have "\<dots> = (vars st4)\<lparr> GC_large_free_bytes := wadd (GC_large_free_bytes st4) ?n \<rparr>"
    by (simp add: st5_def vars_def)
  also have "\<dots> = (vars st)\<lparr> GC_large_free_bytes := wadd (GC_large_free_bytes st) ?n \<rparr>"
    using v4 vars_eqD(3) [OF v4] by simp
  finally have v: "vars (GC_add_to_fl r st5) = (vars st)\<lparr> GC_large_free_bytes := wadd (GC_large_free_bytes st) ?n \<rparr>" .
  have "coalesced (GC_add_to_fl r st5)"
    using \<open>coalesced st4\<close> hdr_simD(3,4) [OF L'(4)] at5 by (simp add: coalesced_def adjacent_def)
  then show thesis
    using that [OF run L'(1,2)] L'(3) u cong5 v by (simp add: same_use_def)
qed

text \<open>Turning a range into one free block.\<close>

lemma put_free_tile:
  assumes t: "tiled st" and wf: "index_wf st'" and se: "0 < s" "s < e" "e \<le> 2 ^ 20" and cut: "no_cut st s e"
    and fh: "HBLK_IS_FREE fh" "hb_sz fh = (e - s) * HBLKSIZE" "hb_sz fh < 2 ^ 31"
    and H: "HDR st' = (\<lambda>c. if c = s then Hdr fh else if s < c \<and> c < e then Fwd 0 else HDR st c)"
  shows "tiled st'" "free_cells st' = free_cells st \<union> {s ..< e}"
    "used_at st' = (\<lambda>b. if s \<le> b \<and> b < e then None else used_at st b)"
proof -
  have bl: "blocks_of fh = e - s" by (simp add: blocks_of_def fh(2))
  have Hs: "HDR st' s = Hdr fh" by (simp add: H)
  have out: "core (HDR st' b) = core (HDR st b)" if "b < s \<or> e \<le> b" for b using that se by (auto simp: H)
  show t': "tiled st'"
  proof (rule tiled_replace [OF t wf se(1,3) out cut])
    show "tile_ok st' e h hh" if "HDR st' h = Hdr hh" "s \<le> h" "h < e" for h hh
      using that bl fh se by (auto simp: H tile_ok_def split: if_splits)
  qed (auto simp: H split: if_splits)
  have cut': "no_cut st' s e"
    using no_cutI [OF tiledD(2) [OF t'] Hs Hs] bl se by simp
  have "c \<in> free_cells st' \<longleftrightarrow> c \<in> free_cells st \<union> {s ..< e}" for c
  proof (cases "c < s \<or> e \<le> c")
    case True
    then show ?thesis using replace_cells [OF tiledD(2) [OF t] tiledD(2) [OF t'] out cut cut' True] by auto
  next
    case False
    then show ?thesis using free_cells_member [OF t' Hs, of c] bl fh(1) by auto
  qed
  then show "free_cells st' = free_cells st \<union> {s ..< e}" by blast
  show "used_at st' = (\<lambda>b. if s \<le> b \<and> b < e then None else used_at st b)"
    using fh(1) se(2) by (auto simp: used_at_def H fun_eq_iff)
qed

lemma free_cells_bound:
  assumes "tiled st"
  shows "free_cells st \<subseteq> {1 ..< 2 ^ 20}" "finite (free_cells st)"
proof -
  show s: "free_cells st \<subseteq> {1 ..< 2 ^ 20}"
  proof
    fix b assume "b \<in> free_cells st"
    then obtain h hh where h: "HDR st h = Hdr hh" "h \<le> b" "b < h + blocks_of hh" by (auto simp: free_cells_def)
    with tiled_Hdr_pos [OF assms h(1)] tiledD(5) [OF assms h(1)] show "b \<in> {1 ..< 2 ^ 20}" by auto
  qed
  show "finite (free_cells st)" using finite_subset [OF s] by simp
qed

lemma add_free_bytes:
  assumes "tiled st'" "free_cells st' = free_cells st \<union> {s ..< e}" "free_cells st \<inter> {s ..< e} = {}"
  shows "wadd (card (free_cells st) * HBLKSIZE) ((e - s) * HBLKSIZE) = card (free_cells st') * HBLKSIZE"
    "card (free_cells st') * HBLKSIZE < 2 ^ 32"
proof -
  note f = free_cells_bound [OF assms(1)]
  have fin: "finite (free_cells st)" using f(2) assms(2) by simp
  have "card (free_cells st') \<le> 2 ^ 20 - 1" using card_mono [OF _ f(1)] by simp
  then show b: "card (free_cells st') * HBLKSIZE < 2 ^ 32" by (simp add: HBLKSIZE_def)
  have c: "card (free_cells st') = card (free_cells st) + (e - s)"
    unfolding assms(2) using card_Un_disjoint [OF fin _ assms(3)] by simp
  with b show "wadd (card (free_cells st) * HBLKSIZE) ((e - s) * HBLKSIZE) = card (free_cells st') * HBLKSIZE"
    by (subst wadd_id) (auto simp: add_mult_distrib)
qed

lemma vars_large_free:
  assumes "vars st' = (vars st)\<lparr> GC_large_free_bytes := x \<rparr>"
  shows "GC_large_free_bytes st' = x" "GC_black_lists st' = GC_black_lists st" "GC_mem st' = GC_mem st"
    "scratch_ok st' = scratch_ok st" "GC_obj_map st' = GC_obj_map st"
  using arg_cong [OF assms, of GC_large_free_bytes] arg_cong [OF assms, of GC_black_lists]
    arg_cong [OF assms, of GC_mem] arg_cong [OF assms, of scratch_ok] arg_cong [OF assms, of GC_obj_map]
  by (simp_all add: vars_def)

text \<open>
  Freeing the block \<open>h\<close> of \<open>n\<close> heap blocks, which is in use or newly added: \<open>st0\<close> is the
  state before its header was written, with no block inside the range.
\<close>

lemma GC_freehblk_range:
  fixes st :: "'a gc_heap_scheme"
  assumes t0: "tiled st0" and fl: "fl_ok L {} st0" and wf: "index_wf st" and h: "HDR st h = Hdr hh" "\<not> HBLK_IS_FREE hh"
    and n: "0 < h" "0 < blocks_of hh" "blocks_of hh * HBLKSIZE < 2 ^ 31" "h + blocks_of hh \<le> 2 ^ 20"
    and out: "\<And>c. c < h \<or> h + blocks_of hh \<le> c \<Longrightarrow> HDR st c = HDR st0 c"
    and cut: "no_cut st0 h (h + blocks_of hh)" and nofree: "free_cells st0 \<inter> {h ..< h + blocks_of hh} = {}"
    and lists: "GC_hblkfreelist st = GC_hblkfreelist st0" "GC_free_bytes st = GC_free_bytes st0"
    and large: "GC_large_free_bytes st = card (free_cells st0) * HBLKSIZE" and co: "coalesced st0"
  obtains L' st' where "GC_freehblk h st = Some st'" "heap_inv L' st'" "coalesced st'"
    "free_cells st' = free_cells st0 \<union> {h ..< h + blocks_of hh}"
    "used_at st' = (\<lambda>b. if h \<le> b \<and> b < h + blocks_of hh then None else used_at st0 b)"
    "vars st' = (vars st)\<lparr> GC_large_free_bytes := card (free_cells st') * HBLKSIZE \<rparr>"
proof -
  let ?e = "h + blocks_of hh" and ?c = "claim_free h hh st"
  let ?fh = "hh\<lparr> hb_sz := blocks_of hh * HBLKSIZE, hb_flags := hb_flags hh OR FREE_BLK \<rparr>"
  note c = claim_free_spec [OF wf h(1)]
  have H: "HDR ?c = (\<lambda>c. if c = h then Hdr ?fh else if h < c \<and> c < ?e then Fwd 0 else HDR st0 c)"
    unfolding c(1) fun_eq_iff using out by auto
  have fh: "HBLK_IS_FREE ?fh" "hb_sz ?fh = (?e - h) * HBLKSIZE" "hb_sz ?fh < 2 ^ 31" using n by simp_all
  have lt: "h < ?e" using n(2) by simp
  note p = put_free_tile [OF t0 c(2) n(1) lt n(4) cut fh H]
  have inside: "\<not> free_at st0 b" if "h \<le> b" "b < ?e" for b
  proof
    assume "free_at st0 b"
    then obtain bh where "HDR st0 b = Hdr bh" "HBLK_IS_FREE bh" by (rule free_at_obtain)
    then have "b \<in> free_cells st0" using free_cells_member [OF t0, of b bh b] layout_blocks_pos [OF tiledD(2) [OF t0]] by simp
    with nofree that show False by auto
  qed
  have same: "HDR ?c b = HDR st0 b" if "b < h \<or> ?e \<le> b" for b using that n(2) by (auto simp: H)
  have at: "free_at ?c b = (b = h \<or> free_at st0 b)" "b \<noteq> h \<Longrightarrow> free_at ?c b \<Longrightarrow> size_at ?c b = size_at st0 b" for b
    using inside [of b] fh(1) by (auto simp: H free_at_def size_at_def hdr_at_def split: if_splits)
  have flc: "fl_ok L {h} ?c"
  proof (rule fl_ok_frame [OF fl])
    fix b n assume "b \<in> set (L n)"
    then have "free_at st0 b" using fl_okD(6) [OF fl] by blast
    then show "HDR ?c b = HDR st0 b" using inside [of b] same [of b] by (cases "h \<le> b \<and> b < ?e") auto
  qed (use at c(4,5) lists in \<open>auto simp: class_at_def\<close>)
  have off: "h \<notin> set (L n)" for n using fl_okD(6) [OF fl, of h n] inside [of h] lt by auto
  have mid: "mid L h ?c" using p(1) flc at(1) off by (simp add: mid_def)
  have coc: "2 ^ 31 \<le> size_at ?c a + size_at ?c b" if "adjacent ?c a b" "a \<noteq> h" "b \<noteq> h" for a b
    using that co at [of a] at [of b] by (auto simp: adjacent_def coalesced_def)
  obtain L' st' where r: "GC_freehblk h st = Some st'" "tiled st'" "fl_ok L' {} st'" "coalesced st'"
      "free_cells st' = free_cells ?c" "used_at st' = used_at ?c"
      "vars st' = (vars st)\<lparr> GC_large_free_bytes := wadd (GC_large_free_bytes st) (blocks_of hh * HBLKSIZE) \<rparr>"
    by (rule GC_freehblk_core [OF wf h n(2,3) mid coc])
  have fc: "free_cells st' = free_cells st0 \<union> {h ..< ?e}" using r(5) p(2) by simp
  have bytes: "wadd (GC_large_free_bytes st) (blocks_of hh * HBLKSIZE) = card (free_cells st') * HBLKSIZE"
    using add_free_bytes(1) [OF r(2) fc nofree] large by simp
  have "heap_inv L' st'" using r(2,3) vars_large_free(1) [OF r(7)] bytes by (simp add: heap_inv_def)
  then show thesis using that [OF r(1) _ r(4) fc] r(6,7) p(3) bytes by simp
qed

lemma heap_invD:
  assumes "heap_inv L st"
  shows "tiled st" "fl_ok L {} st" "GC_large_free_bytes st = card (free_cells st) * HBLKSIZE"
  using assms by (auto simp: heap_inv_def)

lemma used_block_range:
  assumes t: "tiled st" and h: "HDR st h = Hdr hh" "\<not> HBLK_IS_FREE hh"
  shows "free_cells st \<inter> {h ..< h + blocks_of hh} = {}"
    "(\<lambda>b. if h \<le> b \<and> b < h + blocks_of hh then None else used_at st b) = (used_at st)(h := None)"
proof -
  show "free_cells st \<inter> {h ..< h + blocks_of hh} = {}"
    using free_cells_member [OF t h(1)] h(2) by auto
  have "used_at st b = None" if "h < b" "b < h + blocks_of hh" for b
    using layout_inside [OF tiledD(2) [OF t] h(1) that] h(2) by (simp add: used_at_def count_entry_def)
  then show "(\<lambda>b. if h \<le> b \<and> b < h + blocks_of hh then None else used_at st b) = (used_at st)(h := None)"
    using layout_blocks_pos [OF tiledD(2) [OF t] h(1)] by (auto simp: fun_eq_iff)
qed

section \<open>A concrete heap\<close>

text \<open>Three heap blocks in use at 5 and four free ones at 8, in an otherwise empty heap.\<close>

definition sample_free_hdr :: hdr where
  "sample_free_hdr = zero_hdr\<lparr> hb_sz := 16384, hb_flags := 4 \<rparr>"

definition sample_kinds :: "nat \<Rightarrow> obj_kind" where
  "sample_kinds k = \<lparr> ok_descriptor = 0, ok_relocate_descr = (k = 1), ok_init = (k \<noteq> 0) \<rparr>"

definition sample_bottom :: bottom_index where
  "sample_bottom = (\<lambda>_. Fwd 0)(5 := Hdr sample_hdr, 6 := Fwd 1, 7 := Fwd 2, 8 := Hdr sample_free_hdr)"

definition sample_heap :: gc_heap where
  "sample_heap = \<lparr> GC_top_index = [0 \<mapsto> sample_bottom], GC_all_nils = (\<lambda>_. Fwd 0),
     GC_all_bottom_indices = [0], hdr_free_list = [], scratch_ok = (\<lambda>_. True),
     GC_obj_map = (\<lambda>_. None), GC_valid_offsets = (\<lambda>_. False), GC_modws_valid_offsets = (\<lambda>_. False),
     offsets_initialized = False,
     GC_hblkfreelist = (\<lambda>_. 0)(4 := 8), GC_free_bytes = (\<lambda>_. 0)(4 := 16384),
     GC_large_free_bytes = 16384, GC_large_allocd_bytes = 12288, GC_max_large_allocd_bytes = 12288,
     GC_heapsize = 28672, GC_requested_heapsize = 0, GC_bytes_dropped = 0, GC_finalizer_bytes_freed = 0,
     GC_fail_count = 0, GC_gc_no = 0, GC_large_alloc_warn_suppressed = 0, GC_large_alloc_warn_interval = 5,
     drop_count = 0, GC_use_entire_heap = False, GC_dont_gc = False, GC_incremental = False,
     GC_find_leak = False, GC_debugging_started = False, should_collect = False,
     GC_obj_kinds = sample_kinds, GC_black_lists = sample_bl, GC_mem = (\<lambda>_. 0) \<rparr>"

lemma sample_free_hdr_simps [simp]:
  "hb_sz sample_free_hdr = 16384" "HBLK_IS_FREE sample_free_hdr" "blocks_of sample_free_hdr = 4"
  "hb_next sample_free_hdr = 0" "hb_prev sample_free_hdr = 0"
  by (simp_all add: sample_free_hdr_def zero_hdr_def HBLK_IS_FREE_def FREE_BLK_def blocks_of_def
      OBJ_SZ_TO_BLOCKS_def divHBLKSZ_def HBLKSIZE_def)

lemma HDR_sample_heap:
  "HDR sample_heap b = (if b = 5 then Hdr sample_hdr else if b = 6 then Fwd 1 else if b = 7 then Fwd 2
     else if b = 8 then Hdr sample_free_hdr else Fwd 0)"
proof (cases "b < 1024")
  case True
  then show ?thesis by (simp add: GC_find_header_def sample_heap_def sample_bottom_def BOTTOM_SZ_def)
next
  case False
  then have "b div 1024 \<noteq> 0" by (simp add: div_eq_0_iff)
  with False show ?thesis by (simp add: GC_find_header_def sample_heap_def BOTTOM_SZ_def)
qed

lemma free_at_sample: "free_at sample_heap b \<longleftrightarrow> b = 8"
  by (simp add: free_at_def HDR_sample_heap)

lemma tiled_sample: "tiled sample_heap"
proof -
  have i: "index_wf sample_heap" by (simp add: index_wf_def sample_heap_def)
  have "5 < b \<and> b < 8 \<longleftrightarrow> b = 6 \<or> b = (7::nat)" "8 < b \<and> b < 12 \<longleftrightarrow> b = 9 \<or> b = 10 \<or> b = (11::nat)" for b by auto
  then have "layout_ok sample_heap"
    by (auto simp: layout_ok_def HDR_sample_heap count_entry_def MAX_JUMP_def HBLKSIZE_def split: if_splits)
      (intro exI [of _ 5], simp)+
  moreover have "free_sizes_ok sample_heap"
    by (auto simp: free_sizes_ok_def HDR_sample_heap HBLKSIZE_def split: if_splits)
  ultimately show ?thesis
    using i by (auto simp: tiled_def HDR_sample_heap is_Hdr_def free_at_sample size_at_def hdr_at_def split: if_splits)
qed

lemma free_cells_sample: "free_cells sample_heap = {8, 9, 10, 11}"
proof -
  have "(8::nat) \<le> b \<and> b < 12 \<longleftrightarrow> b = 8 \<or> b = 9 \<or> b = 10 \<or> b = 11" for b by auto
  then show ?thesis by (auto simp: free_cells_def HDR_sample_heap split: if_splits)
qed

lemma heap_inv_sample: "heap_inv ((\<lambda>_. [])(4 := [8])) sample_heap"
proof -
  have c: "class_at sample_heap 8 = 4" "size_at sample_heap 8 = 16384"
    by (simp_all add: class_at_def size_at_def hdr_at_def HDR_sample_heap GC_hblk_fl_from_blocks_def
        UNIQUE_THRESHOLD_def divHBLKSZ_def HBLKSIZE_def)
  have "fl_ok ((\<lambda>_. [])(4 := [8])) {} sample_heap"
  proof (rule fl_okI)
    show "GC_hblkfreelist sample_heap n = hd (((\<lambda>_. [])(4 := [8])) n @ [0])" for n by (simp add: sample_heap_def)
    show "GC_free_bytes sample_heap n = word32 (\<Sum>h\<leftarrow>((\<lambda>_. [])(4 := [8])) n. size_at sample_heap h)" for n
      using c by (simp add: word32_def) (simp add: sample_heap_def)
  qed (use c in \<open>auto simp: free_at_sample HDR_sample_heap hdr_at_def is_Hdr_def split: if_splits\<close>)
  moreover have "GC_large_free_bytes sample_heap = 4 * HBLKSIZE" by (simp add: sample_heap_def HBLKSIZE_def)
  ultimately show ?thesis using tiled_sample free_cells_sample by (simp add: heap_inv_def)
qed

lemma coalesced_sample: "coalesced sample_heap"
  by (simp add: coalesced_def adjacent_def free_at_sample size_at_def hdr_at_def HDR_sample_heap
      divHBLKSZ_def HBLKSIZE_def)

section \<open>Properties\<close>

text \<open>
  C8. Freeing a block in use: \<open>GC_freehblk\<close> returns, keeps the invariant of the heap (the
  tiling by headers, the free lists and their byte counts) with exactly the heap blocks of
  the freed block added to the free ones, leaves every other block in use as it was, and
  again merges adjacent free blocks unless their size would exceed a signed word.
\<close>

theorem GC_freehblk_correct:
  assumes "heap_inv L st" "coalesced st" "HDR st h = Hdr hh" "\<not> HBLK_IS_FREE hh"
    "blocks_of hh * HBLKSIZE < 2 ^ 31"
  shows "\<exists>L' st'. GC_freehblk h st = Some st' \<and> heap_inv L' st' \<and> coalesced st'
    \<and> free_cells st' = free_cells st \<union> {h ..< h + blocks_of hh}
    \<and> used_at st' = (used_at st)(h := None)
    \<and> GC_large_free_bytes st' = GC_large_free_bytes st + blocks_of hh * HBLKSIZE"
proof -
  note i = heap_invD [OF assms(1)]
  note t = i(1) and l = tiledD(2) [OF i(1)]
  obtain L' st' where r: "GC_freehblk h st = Some st'" "heap_inv L' st'" "coalesced st'"
      "free_cells st' = free_cells st \<union> {h ..< h + blocks_of hh}"
      "used_at st' = (\<lambda>b. if h \<le> b \<and> b < h + blocks_of hh then None else used_at st b)"
    by (rule GC_freehblk_range [OF t i(2) tiledD(1) [OF t] assms(3,4) tiled_Hdr_pos [OF t assms(3)]
          layout_blocks_pos [OF l assms(3)] assms(5) tiledD(5) [OF t assms(3)] refl
          no_cutI [OF l assms(3) assms(3)] used_block_range(1) [OF t assms(3,4)] refl refl i(3) assms(2)])
      auto
  have "card (free_cells st') = card (free_cells st) + blocks_of hh"
    unfolding r(4) using card_Un_disjoint [OF free_cells_bound(2) [OF t] _ used_block_range(1) [OF t assms(3,4)]] by simp
  then have "GC_large_free_bytes st' = GC_large_free_bytes st + blocks_of hh * HBLKSIZE"
    using i(3) heap_invD(3) [OF r(2)] by (simp add: add_mult_distrib)
  with r used_block_range(2) [OF t assms(3,4)] show ?thesis by auto
qed

theorem GC_freehblk_correct_witness:
  "\<exists>L' st'. GC_freehblk 5 sample_heap = Some st' \<and> heap_inv L' st' \<and> coalesced st'
     \<and> GC_large_free_bytes st' = 28672 \<and> used_at st' 5 = None"
proof -
  have "GC_large_free_bytes sample_heap = 16384" by (simp add: sample_heap_def)
  with GC_freehblk_correct [OF heap_inv_sample coalesced_sample, of 5 sample_hdr] show ?thesis
    by (auto simp: HDR_sample_heap HBLKSIZE_def)
qed

text \<open>
  A block that is already free is never freed again: \<open>GC_freehblk\<close> aborts.
\<close>

theorem GC_freehblk_duplicate_aborts:
  assumes "index_wf st" "free_at st h"
  shows "GC_freehblk h st = None"
proof -
  obtain hh where hh: "HDR st h = Hdr hh" "HBLK_IS_FREE hh" using free_at_obtain [OF assms(2)] by blast
  let ?n = "obj_sz_to_blocks (hb_sz (hdr_at st h))"
  have "HBLK_IS_FREE (hdr_at (upd_hdr h (\<lambda>x. x\<lparr> hb_sz := ?n * HBLKSIZE \<rparr>) (GC_remove_counts h (?n * HBLKSIZE) st)) h)"
    using GC_remove_counts_all [OF assms(1), of h ?n] hh
    by (simp add: hdr_at_def HDR_upd_hdr HBLK_IS_FREE_def)
  moreover have "word32 (HBLKSIZE * ?n) = ?n * HBLKSIZE"
  proof -
    have "?n \<le> 2 ^ 20 - 1"
      by (simp add: obj_sz_to_blocks_def divHBLKSZ_def wadd_def word32_def HBLKSIZE_def)
    then have "HBLKSIZE * ?n < 2 ^ 32" by (simp add: HBLKSIZE_def)
    then show ?thesis by (simp add: mult.commute)
  qed
  ultimately show ?thesis by (simp add: GC_freehblk_def Let_def)
qed

theorem GC_freehblk_duplicate_aborts_witness: "GC_freehblk 8 sample_heap = None"
  by (rule GC_freehblk_duplicate_aborts) (simp_all add: tiledD(1) [OF tiled_sample] free_at_sample)

end
