(* ===== verification/Heap_Alloc.thy ===== *)
theory Heap_Alloc
  imports Heap_Tiling
begin

text \<open>
  Allocation of heap blocks. When memory for headers is available, \<open>GC_allochblk_nth\<close> and
  \<open>GC_allochblk\<close> return, keep the invariant of the heap, and hand out a range of free heap
  blocks that does not start in the black lists; without black lists they fail only if no
  free block is large enough.
\<close>

section \<open>When memory is available\<close>

abbreviation memory_ok :: "'a hdr_index_scheme \<Rightarrow> bool" where
  "memory_ok st \<equiv> scratch_ok st = (\<lambda>_. True)"

lemma scratch_request_ok: "memory_ok st \<Longrightarrow> scratch_request st = (True, st)"
  by (cases st) (simp add: scratch_request_def)

lemma get_index_ok:
  fixes st :: "'a gc_heap_scheme"
  assumes "memory_ok st" "index_wf st"
  obtains st' where "get_index h st = (True, st')" "vars st' = vars st" "GC_hblkfreelist st' = GC_hblkfreelist st"
    "GC_free_bytes st' = GC_free_bytes st" "memory_ok st'"
proof -
  obtain ok st' where g: "get_index h st = (ok, st')" by fastforce
  then have "ok" "vars st' = vars st" "GC_hblkfreelist st' = GC_hblkfreelist st"
      "GC_free_bytes st' = GC_free_bytes st" "memory_ok st'"
    using scratch_request_ok [OF assms(1)] assms(1)
    by (auto simp: get_index_def Let_def vars_def split: if_splits)
  with g that show thesis by simp
qed

lemma GC_install_header_ok:
  fixes st :: "'a gc_heap_scheme"
  assumes "memory_ok st" "index_wf st"
  obtains hh st' where "GC_install_header h st = (Some hh, st')" "HDR st' = (HDR st)(h := Hdr hh)" "index_wf st'"
    "vars st' = vars st" "GC_hblkfreelist st' = GC_hblkfreelist st" "GC_free_bytes st' = GC_free_bytes st"
proof -
  obtain st1 where g: "get_index h st = (True, st1)" "vars st1 = vars st" "GC_hblkfreelist st1 = GC_hblkfreelist st"
      "GC_free_bytes st1 = GC_free_bytes st" "memory_ok st1"
    using get_index_ok [OF assms] by blast
  obtain hh st2 where a: "alloc_hdr st1 = (Some hh, st2)" "vars st2 = vars st1" "GC_hblkfreelist st2 = GC_hblkfreelist st1"
      "GC_free_bytes st2 = GC_free_bytes st1"
    using scratch_request_ok [OF g(5)]
    by (cases "hdr_free_list st1") (auto simp: alloc_hdr_def vars_def)
  have r: "GC_install_header h st = (Some hh, SET_HDR h (Hdr hh) st2)"
    using g(1) a(1) by (simp add: GC_install_header_def)
  from that [OF r] GC_install_header_spec [OF r assms(2)] g a show thesis by simp
qed

lemma install_counts_indices_ok:
  fixes st :: "'a gc_heap_scheme"
  assumes "memory_ok st" "index_wf st"
  shows "\<exists>st'. install_counts_indices hbp lim st = (True, st') \<and> vars st' = vars st
    \<and> GC_hblkfreelist st' = GC_hblkfreelist st \<and> GC_free_bytes st' = GC_free_bytes st \<and> memory_ok st' \<and> index_wf st'"
  using assms
proof (induction "lim - hblk_addr hbp" arbitrary: hbp st rule: less_induct)
  case less
  show ?case
  proof (cases "hblk_addr hbp < lim")
    case True
    obtain st1 where g: "get_index hbp st = (True, st1)" "vars st1 = vars st" "GC_hblkfreelist st1 = GC_hblkfreelist st"
        "GC_free_bytes st1 = GC_free_bytes st" "memory_ok st1"
      using get_index_ok [OF less.prems] by blast
    have "lim - hblk_addr (hbp + BOTTOM_SZ) < lim - hblk_addr hbp"
      using True by (simp add: hblk_addr_def HBLKSIZE_def BOTTOM_SZ_def)
    from less.hyps [OF this g(5) get_index_spec(2) [OF g(1) less.prems(2)]] g True
    show ?thesis by (auto simp: install_counts_indices.simps [of hbp])
  next
    case False
    then show ?thesis using less.prems by (simp add: install_counts_indices.simps [of hbp])
  qed
qed

lemma install_counts_entries_vars:
  fixes st :: "'a gc_heap_scheme"
  shows "vars (install_counts_entries h hbp lim st) = vars st
    \<and> GC_hblkfreelist (install_counts_entries h hbp lim st) = GC_hblkfreelist st
    \<and> GC_free_bytes (install_counts_entries h hbp lim st) = GC_free_bytes st"
proof (induction "lim - hblk_addr hbp" arbitrary: hbp st rule: less_induct)
  case less
  have "lim - hblk_addr (hbp + 1) < lim - hblk_addr hbp" if "hblk_addr hbp < lim"
    using that by (simp add: hblk_addr_def HBLKSIZE_def)
  then show ?case
    using less.hyps [of "hbp + 1" "SET_HDR hbp (Fwd (if hbp - h > MAX_JUMP then MAX_JUMP else hbp - h)) st"]
    by (cases "hblk_addr hbp < lim") (simp_all add: install_counts_entries.simps [of h hbp])
qed

lemma GC_install_counts_ok:
  fixes st :: "'a gc_heap_scheme"
  assumes "memory_ok st" "index_wf st"
  obtains st' where "GC_install_counts h (n * HBLKSIZE) st = (True, st')"
    "HDR st' = (\<lambda>b. if h < b \<and> b < h + n then count_entry h b else HDR st b)" "index_wf st'"
    "vars st' = vars st" "GC_hblkfreelist st' = GC_hblkfreelist st" "GC_free_bytes st' = GC_free_bytes st"
proof -
  let ?sz = "n * HBLKSIZE"
  obtain st1 where i: "install_counts_indices h (hblk_addr h + ?sz) st = (True, st1)" "vars st1 = vars st"
      "GC_hblkfreelist st1 = GC_hblkfreelist st" "GC_free_bytes st1 = GC_free_bytes st" "memory_ok st1" "index_wf st1"
    using install_counts_indices_ok [OF assms] by blast
  obtain st2 where g: "get_index ((hblk_addr h + ?sz - 1) div HBLKSIZE) st1 = (True, st2)" "vars st2 = vars st1"
      "GC_hblkfreelist st2 = GC_hblkfreelist st1" "GC_free_bytes st2 = GC_free_bytes st1"
    using get_index_ok [OF i(5,6)] by blast
  let ?st' = "install_counts_entries h (h + 1) (hblk_addr h + ?sz) st2"
  have r: "GC_install_counts h ?sz st = (True, ?st')" using i(1) g(1) by (simp add: GC_install_counts_def)
  have "hblk_addr c < hblk_addr h + ?sz \<longleftrightarrow> c < h + n" for c
    unfolding hblk_addr_def add_mult_distrib [symmetric] by simp
  with that [OF r] GC_install_counts_spec [OF r assms(2)] install_counts_entries_vars [of h "h + 1" "hblk_addr h + ?sz" st2] i g
  show thesis by simp
qed

lemma GC_add_map_entry_ok:
  fixes st :: "'a gc_heap_scheme"
  assumes "memory_ok st"
  obtains m where "GC_add_map_entry g st = (True, st\<lparr> GC_obj_map := m \<rparr>)"
proof -
  define g' where "g' = (if g > BYTES_TO_GRANULES MAXOBJBYTES then 0 else g)"
  have "\<exists>m. GC_add_map_entry g st = (True, st\<lparr> GC_obj_map := m \<rparr>)"
  proof (cases "GC_obj_map st g' = None")
    case True
    then show ?thesis using scratch_request_ok [OF assms]
      unfolding GC_add_map_entry_def Let_def g'_def [symmetric] by auto
  next
    case False
    then show ?thesis unfolding GC_add_map_entry_def Let_def g'_def [symmetric]
      by (intro exI [of _ "GC_obj_map st"]) simp
  qed
  with that show thesis by blast
qed

lemma HDR_obj_map [simp]: "HDR (st\<lparr> GC_obj_map := m \<rparr>) = HDR st"
  by (rule HDR_cong) simp_all

lemma index_wf_obj_map [simp]: "index_wf (st\<lparr> GC_obj_map := m \<rparr>) = index_wf st"
  by (simp add: index_wf_def)

text \<open>A new header: the object fields as asked for, and no object marked.\<close>

definition fresh_hdr :: "hblk \<Rightarrow> nat \<Rightarrow> nat \<Rightarrow> 8 word \<Rightarrow> hdr \<Rightarrow> bool" where
  "fresh_hdr h sz kind flags hh \<longleftrightarrow> hb_sz hh = sz \<and> hb_obj_kind hh = kind mod 256 \<and> hb_flags hh = flags
     \<and> hb_block hh = h \<and> hb_large_block hh = (sz > MAXOBJBYTES)
     \<and> hb_map hh = Some (if sz > MAXOBJBYTES then 0 else BYTES_TO_GRANULES sz) \<and> marks_are {} hh"

lemma setup_header_ok:
  fixes st :: "'a gc_heap_scheme"
  assumes "memory_ok st" "index_wf st" "HDR st h = Hdr hh"
  obtains st' hh' where "setup_header h sz kind flags st = (True, st')" "HDR st' = (HDR st)(h := Hdr hh')"
    "fresh_hdr h sz kind flags hh'" "index_wf st'" "vars st' = (vars st)\<lparr> GC_obj_map := GC_obj_map st' \<rparr>"
    "GC_hblkfreelist st' = GC_hblkfreelist st" "GC_free_bytes st' = GC_free_bytes st"
proof -
  define descr where "descr = (if ok_relocate_descr (GC_obj_kinds st kind)
      then wadd (ok_descriptor (GC_obj_kinds st kind)) sz else ok_descriptor (GC_obj_kinds st kind))"
  define f :: "hdr \<Rightarrow> hdr" where "f = (\<lambda>hh. hh\<lparr> hb_sz := sz, hb_obj_kind := kind mod 256, hb_flags := flags, hb_block := h,
      hb_descr := descr, hb_large_block := sz > MAXOBJBYTES \<rparr>)"
  let ?st1 = "upd_hdr h f st"
  have "memory_ok ?st1" using assms(1) by simp
  then obtain m where m: "GC_add_map_entry (BYTES_TO_GRANULES sz) ?st1 = (True, ?st1\<lparr> GC_obj_map := m \<rparr>)"
    by (rule GC_add_map_entry_ok)
  let ?st2 = "?st1\<lparr> GC_obj_map := m \<rparr>"
  define g :: "hdr \<Rightarrow> hdr" where "g = (\<lambda>hh. (GC_clear_hdr_marks (hh\<lparr> hb_map := Some (if sz > MAXOBJBYTES then 0 else BYTES_TO_GRANULES sz) \<rparr>))
      \<lparr> hb_last_reclaimed := GC_gc_no ?st2 mod 2 ^ 16 \<rparr>)"
  let ?st' = "upd_hdr h g ?st2"
  have r: "setup_header h sz kind flags st = (True, ?st')"
    using m by (simp add: setup_header_def Let_def f_def g_def descr_def)
  have H: "HDR ?st' = (HDR st)(h := Hdr (g (f hh)))"
    using assms(2,3) by (auto simp: HDR_upd_hdr fun_eq_iff)
  have "marks_are {} (g (f hh))"
    using marks_are_clear [of "f hh\<lparr> hb_map := Some (if sz > MAXOBJBYTES then 0 else BYTES_TO_GRANULES sz) \<rparr>"]
    by (simp add: g_def marks_are_def)
  then have "fresh_hdr h sz kind flags (g (f hh))"
    by (simp add: fresh_hdr_def g_def f_def GC_clear_hdr_marks_def Let_def set_mark_bit_from_hdr_def)
  moreover have "vars ?st' = (vars st)\<lparr> GC_obj_map := GC_obj_map ?st' \<rparr>"
  proof -
    have "vars ?st' = vars ?st2" by (rule vars_simps)
    also have "\<dots> = (vars ?st1)\<lparr> GC_obj_map := m \<rparr>" by (simp add: vars_def)
    finally have "vars ?st' = (vars ?st1)\<lparr> GC_obj_map := m \<rparr>" .
    moreover have "GC_obj_map ?st' = m" by (simp add: upd_hdr_def SET_HDR_def split: hdr_entry.splits option.splits)
    ultimately show ?thesis by simp
  qed
  ultimately show thesis using that [OF r H] assms(2) by simp
qed

section \<open>Taking the first part of a free block\<close>

text \<open>
  A free block that the search has chosen: it is on list \<open>n\<close>, which need not be the list of
  its size class after a split.
\<close>

definition ready :: "nat \<Rightarrow> nat \<Rightarrow> hblk \<Rightarrow> 'a gc_heap_scheme \<Rightarrow> bool" where
  "ready n k r st \<longleftrightarrow> tiled st \<and> memory_ok st \<and> GC_large_free_bytes st = card (free_cells st) * HBLKSIZE
     \<and> free_at st r \<and> k * HBLKSIZE \<le> size_at st r
     \<and> (\<exists>L xs ys. fl_ok L {r} st \<and> L n = xs @ r # ys)"

text \<open>What \<open>GC_get_first_part\<close> leaves: \<open>r\<close> is off the lists and the rest is a free block.\<close>

lemma GC_get_first_part_spec:
  fixes st :: "'a gc_heap_scheme"
  assumes rd: "ready n k r st" and k: "0 < k"
  defines "e \<equiv> r + divHBLKSZ (size_at st r)"
  obtains L st' where "GC_get_first_part r (k * HBLKSIZE) n st = (r, st')" "fl_ok L {r} st'" "\<And>m. r \<notin> set (L m)"
    "index_wf st'" "vars st' = vars st" "is_Hdr (HDR st' r)"
    "\<And>b. b < r \<or> e \<le> b \<Longrightarrow> core (HDR st' b) = core (HDR st b)"
    "\<And>b. b < r \<or> e \<le> b \<Longrightarrow> \<not> free_at st b \<Longrightarrow> HDR st' b = HDR st b"
    "\<And>b. r + k \<le> b \<Longrightarrow> b < e \<Longrightarrow> (if b = r + k then \<exists>rh. HDR st' b = Hdr rh \<and> HBLK_IS_FREE rh \<and>
        hb_sz rh = (e - (r + k)) * HBLKSIZE else HDR st' b = Fwd 0)" "r + k \<le> e"
    "\<And>b. r < b \<Longrightarrow> b < r + k \<Longrightarrow> HDR st' b = Fwd 0"
proof -
  obtain L xs ys where L: "fl_ok L {r} st" "L n = xs @ r # ys" using rd by (auto simp: ready_def)
  have t: "tiled st" and mem: "memory_ok st" and rf: "free_at st r" and sz: "k * HBLKSIZE \<le> size_at st r"
    using rd by (auto simp: ready_def)
  obtain hh where hh: "HDR st r = Hdr hh" "HBLK_IS_FREE hh" using free_at_obtain [OF rf] by blast
  note sh = tiled_free_size [OF t hh]
  have e: "e = r + blocks_of hh" using sh(2) hh(1) by (simp add: e_def)
  have ke: "r + k \<le> e" using sz sh(1) hh(1) unfolding e by simp
  let ?L1 = "L(n := xs @ ys)" and ?st1 = "GC_remove_from_fl r (Some n) st"
  note R = GC_remove_from_fl_spec [OF tiledD(1) [OF t] L(1,2), of "Some n"]
  have R: "fl_ok ?L1 {r} ?st1" "hdr_sim st ?st1" "index_wf ?st1" "vars ?st1 = vars st" using R by auto
  have off: "r \<notin> set (?L1 m)" for m
    using fl_okD(3) [OF L(1), of n] L(2) fl_lists_apart [OF L(1), of r n m] by auto
  have inner: "HDR ?st1 b = Fwd 0" if "r < b" "b < e" for b
    using layout_inside [OF tiledD(2) [OF t] hh(1), of b] that e hh(2) hdr_sim_Fwd [OF R(2)] by simp
  show thesis
  proof (cases "size_at st r = k * HBLKSIZE")
    case True
    then have "GC_get_first_part r (k * HBLKSIZE) n st = (r, ?st1)"
      by (simp add: GC_get_first_part_def Let_def size_at_def)
    moreover have "e = r + k" using True sh(1) hh(1) by (simp add: e)
    ultimately show thesis
      using that [of ?st1 ?L1] R off hdr_simD [OF R(2)] ke free_at_Hdr [OF rf] inner by auto
  next
    case False
    have lt: "r + k < e" using False ke sh(1) hh(1) unfolding e by (cases "k = blocks_of hh") auto
    have mem1: "memory_ok ?st1" using mem vars_eqD(1) [OF R(4)] by simp
    obtain th st2 where i: "GC_install_header (r + k) ?st1 = (Some th, st2)" "HDR st2 = (HDR ?st1)(r + k := Hdr th)"
        "index_wf st2" "vars st2 = vars ?st1" "GC_hblkfreelist st2 = GC_hblkfreelist ?st1" "GC_free_bytes st2 = GC_free_bytes ?st1"
      using GC_install_header_ok [OF mem1 R(3)] by blast
    let ?rest = "size_at st r - k * HBLKSIZE"
    let ?st3 = "upd_hdr (r + k) (\<lambda>rh. rh\<lparr> hb_sz := ?rest, hb_flags := 0 \<rparr>) st2"
    let ?st' = "GC_add_to_fl (r + k) ?st3"
    have run: "GC_get_first_part r (k * HBLKSIZE) n st = (r, ?st')"
      using i(1) False by (simp add: GC_get_first_part_def Let_def size_at_def divHBLKSZ_def)
    have H3: "HDR ?st3 = (HDR ?st1)(r + k := Hdr (th\<lparr> hb_sz := ?rest, hb_flags := 0 \<rparr>))"
      using i(2,3) by (auto simp: HDR_upd_hdr fun_eq_iff)
    have nf1: "HDR ?st1 (r + k) = Fwd 0" using inner [of "r + k"] lt k by simp
    have offk: "r + k \<notin> set (?L1 m)" for m
      using fl_okD(6) [OF R(1), of "r + k" m] nf1 by (auto simp: free_at_def)
    have fl3: "fl_ok ?L1 {r} ?st3"
    proof (rule fl_ok_frame [OF R(1)])
      fix b m assume "b \<in> set (?L1 m)"
      then show "HDR ?st3 b = HDR ?st1 b" using offk by (auto simp: H3)
    next
      fix b assume b: "free_at ?st3 b" "b \<notin> {r}"
      then have "b \<noteq> r + k" by (auto simp: H3 free_at_def)
      then have "core (HDR ?st3 b) = core (HDR ?st1 b)" by (simp add: H3)
      from core_at [OF this] b show "b \<notin> {r} \<and> free_at ?st1 b \<and> class_at ?st3 b = class_at ?st1 b" by simp
    qed (use i in simp_all)
    have hk: "is_Hdr (HDR ?st3 (r + k))" "r + k \<noteq> 0" using k by (simp_all add: H3 is_Hdr_def)
    have wf3: "index_wf ?st3" using i(3) by simp
    note A = GC_add_to_fl_spec [OF wf3 fl3 hk offk refl]
    let ?L2 = "?L1(class_at ?st3 (r + k) := (r + k) # ?L1 (class_at ?st3 (r + k)))"
    have X: "{r} - {r + k} = {r}" using k by auto
    show thesis
    proof (rule that [OF run])
      show "fl_ok ?L2 {r} ?st'" using A(1) unfolding X .
      show "r \<notin> set (?L2 m)" for m using off k by auto
      show "index_wf ?st'" by (rule A(2))
      show "vars ?st' = vars st" using A(3) i(4) R(4) by simp
      show "is_Hdr (HDR ?st' r)"
        using is_Hdr_core [OF A(4) [of r]] k free_at_Hdr [OF rf] hdr_simD(6) [OF R(2), of r] by (simp add: H3)
      show "core (HDR ?st' b) = core (HDR st b)" if "b < r \<or> e \<le> b" for b
        using A(4) [of b] that lt hdr_simD(1) [OF R(2), of b] by (auto simp: H3)
      show "HDR ?st' b = HDR st b" if b: "b < r \<or> e \<le> b" "\<not> free_at st b" for b
      proof -
        have ne: "b \<noteq> r + k" using b lt by auto
        have "HDR ?st3 b = HDR st b" using ne hdr_simD(2) [OF R(2) b(2)] by (simp add: H3)
        moreover from this have "\<not> free_at ?st3 b" using b(2) by (simp add: free_at_def)
        ultimately show ?thesis using A(5) [OF ne] by simp
      qed
      show "if b = r + k then \<exists>rh. HDR ?st' b = Hdr rh \<and> HBLK_IS_FREE rh \<and> hb_sz rh = (e - (r + k)) * HBLKSIZE
          else HDR ?st' b = Fwd 0" if b: "r + k \<le> b" "b < e" for b
      proof (cases "b = r + k")
        case True
        have c: "core (HDR ?st' (r + k)) = core (Hdr (th\<lparr> hb_sz := ?rest, hb_flags := 0 OR FREE_BLK \<rparr>))"
          using A(6) by (simp add: H3 hdr_at_def)
        then obtain rh where rh: "HDR ?st' (r + k) = Hdr rh" by (cases "HDR ?st' (r + k)") auto
        have "?rest = (e - (r + k)) * HBLKSIZE" using sh(1) hh(1) by (simp add: e diff_mult_distrib)
        moreover have "hb_sz rh = ?rest" "HBLK_IS_FREE rh"
          using core_Hdr [OF c [unfolded rh]] by (simp_all add: HBLK_IS_FREE_def FREE_BLK_def)
        ultimately show ?thesis using True rh by simp
      next
        case False
        then have "HDR ?st3 b = Fwd 0" using inner [of b] b k by (simp add: H3)
        then show ?thesis using A(5) [OF False] False by (simp add: free_at_def)
      qed
      show "r + k \<le> e" by (rule ke)
      show "HDR ?st' b = Fwd 0" if b: "r < b" "b < r + k" for b
        using inner [of b] b lt A(5) [of b] by (simp add: H3 free_at_def)
    qed
  qed
qed

section \<open>Handing the block out\<close>

text \<open>The variables that allocation leaves alone.\<close>

definition same_env :: "'a gc_heap_scheme \<Rightarrow> 'a gc_heap_scheme \<Rightarrow> bool" where
  "same_env st st' \<longleftrightarrow> scratch_ok st' = scratch_ok st \<and> GC_black_lists st' = GC_black_lists st
     \<and> GC_obj_kinds st' = GC_obj_kinds st \<and> GC_find_leak st' = GC_find_leak st
     \<and> GC_heapsize st' = GC_heapsize st"

lemma same_env_refl [simp]: "same_env st st"
  by (simp add: same_env_def)

lemma same_env_trans: "same_env a b \<Longrightarrow> same_env b c \<Longrightarrow> same_env a c"
  by (simp add: same_env_def)

lemma vars_same_env:
  assumes "vars st' = vars st"
  shows "same_env st st'"
  using vars_eqD [OF assms] arg_cong [OF assms, of GC_heapsize] by (simp add: same_env_def) (simp add: vars_def)

lemma vars_map_same_env:
  assumes "vars st' = (vars st)\<lparr> GC_obj_map := m \<rparr>"
  shows "same_env st st'" "GC_large_free_bytes st' = GC_large_free_bytes st"
  using arg_cong [OF assms, of scratch_ok] arg_cong [OF assms, of GC_black_lists] arg_cong [OF assms, of GC_obj_kinds]
    arg_cong [OF assms, of GC_find_leak] arg_cong [OF assms, of GC_heapsize] arg_cong [OF assms, of GC_large_free_bytes]
  by (simp_all add: same_env_def vars_def)

text \<open>The last steps of \<open>GC_allochblk_nth\<close>, on the block that the search has found.\<close>

definition hand_out :: "nat \<Rightarrow> nat \<Rightarrow> 8 word \<Rightarrow> hblk \<times> 'a gc_heap_scheme \<Rightarrow> (hblk \<times> 'a gc_heap_scheme) option" where
  "hand_out sz kind flags res =
     (case res of (hbp, st1) \<Rightarrow>
        if hbp = 0 then Some (0, st1)
        else case GC_install_counts hbp (HBLKSIZE * obj_sz_to_blocks sz) st1 of
          (False, st2) \<Rightarrow> Some (0, st2)
        | (True, st2) \<Rightarrow>
            (case setup_header hbp sz kind flags st2 of
               (False, st3) \<Rightarrow> Some (0, GC_remove_counts hbp (HBLKSIZE * obj_sz_to_blocks sz) st3)
             | (True, st3) \<Rightarrow>
                 Some (hbp, st3\<lparr> GC_fail_count := 0,
                   GC_large_free_bytes := wsub (GC_large_free_bytes st3) (HBLKSIZE * obj_sz_to_blocks sz) \<rparr>)))"

lemma GC_allochblk_nth_hand_out:
  "GC_allochblk_nth sz kind flags n may_split st =
     (case allochblk_search (HBLKSIZE * obj_sz_to_blocks sz) kind flags n may_split (GC_hblkfreelist st n) st of
        None \<Rightarrow> None | Some res \<Rightarrow> hand_out sz kind flags res)"
  by (simp add: GC_allochblk_nth_def hand_out_def Let_def split: option.splits prod.splits)

lemma obj_sz_to_blocks_eq: "sz \<le> 2 ^ 32 - HBLKSIZE \<Longrightarrow> obj_sz_to_blocks sz = OBJ_SZ_TO_BLOCKS sz"
  by (simp add: obj_sz_to_blocks_def OBJ_SZ_TO_BLOCKS_def HBLKSIZE_def wadd_def word32_def add.commute)

text \<open>The tiling after a block has been handed out.\<close>

lemma put_used_tile:
  assumes t: "tiled st" and wf: "index_wf st'" and r: "HDR st r = Hdr gh" "HBLK_IS_FREE gh"
    and e: "e = r + blocks_of gh" and k: "0 < k" "r + k \<le> e"
    and uh: "HDR st' r = Hdr uh" "\<not> HBLK_IS_FREE uh" "blocks_of uh = k"
    and cnt: "\<And>b. r < b \<Longrightarrow> b < r + k \<Longrightarrow> HDR st' b = count_entry r b"
    and rest: "\<And>b. r + k \<le> b \<Longrightarrow> b < e \<Longrightarrow> (if b = r + k then \<exists>rh. HDR st' b = Hdr rh \<and> HBLK_IS_FREE rh \<and>
        hb_sz rh = (e - (r + k)) * HBLKSIZE else HDR st' b = Fwd 0)"
    and out: "\<And>b. b < r \<or> e \<le> b \<Longrightarrow> core (HDR st' b) = core (HDR st b)"
    and used: "\<And>b. b < r \<or> e \<le> b \<Longrightarrow> \<not> free_at st b \<Longrightarrow> HDR st' b = HDR st b"
  shows "tiled st'" "free_cells st' = free_cells st - {r ..< r + k}" "used_at st' = (used_at st)(r \<mapsto> uh)"
proof -
  note l = tiledD(2) [OF t] and sg = tiled_free_size [OF t r]
  have cut: "no_cut st r e" unfolding e by (rule no_cutI [OF l r(1) r(1)]) simp
  have fwd: "HDR st' b = Fwd 0" if "r + k < b" "b < e" for b using rest [of b] that by simp
  have rk: "\<exists>rh. HDR st' (r + k) = Hdr rh \<and> HBLK_IS_FREE rh \<and> hb_sz rh = (e - (r + k)) * HBLKSIZE" if "r + k < e"
    using rest [of "r + k"] that by simp
  have small: "(e - (r + k)) * HBLKSIZE < 2 ^ 31"
  proof -
    have "(e - (r + k)) * HBLKSIZE \<le> blocks_of gh * HBLKSIZE" using e by simp
    also have "\<dots> < 2 ^ 31" using tiledD(6) [OF t, of r] r sg(1) by (simp add: free_at_def)
    finally show ?thesis .
  qed
  have cases_in: "b = r \<or> (r < b \<and> b < r + k) \<or> (b = r + k \<and> r + k < e) \<or> (r + k < b \<and> b < e)"
    if "r \<le> b" "b < e" for b using that by linarith
  show t': "tiled st'"
  proof (rule tiled_replace [OF t wf tiled_Hdr_pos [OF t r(1)] _ out cut])
    show "e \<le> 2 ^ 20" using tiledD(5) [OF t r(1)] e by simp
    show "tile_ok st' e h hh" if h: "HDR st' h = Hdr hh" "r \<le> h" "h < e" for h hh
    proof -
      have "h = r \<or> h = r + k \<and> r + k < e"
        using cases_in [OF h(2,3)] cnt [of h] fwd [of h] h(1) by (auto simp: count_entry_def)
      then show ?thesis
      proof
        assume "h = r"
        then show ?thesis using h(1) uh k cnt by (auto simp: tile_ok_def)
      next
        assume "h = r + k \<and> r + k < e"
        then have hk: "h = r + k" "r + k < e" by auto
        then obtain rh where rh: "hh = rh" "HBLK_IS_FREE rh" "hb_sz rh = (e - (r + k)) * HBLKSIZE" using rk h(1) by auto
        then have "blocks_of rh = e - (r + k)" by (simp add: blocks_of_def)
        then show ?thesis using rh hk small fwd by (auto simp: tile_ok_def)
      qed
    qed
    show "\<exists>h hh. r \<le> h \<and> HDR st' h = Hdr hh \<and> \<not> HBLK_IS_FREE hh \<and> h < b \<and> b < h + blocks_of hh"
      if b: "HDR st' b = Fwd m" "0 < m" "r \<le> b" "b < e" for b m
    proof -
      have "r < b \<and> b < r + k" using cases_in [OF b(3,4)] b(1,2) uh(1) fwd [of b] rk by auto
      then show ?thesis using uh by (intro exI [of _ r] exI [of _ uh]) auto
    qed
  qed
  have cut': "no_cut st' r e"
  proof (cases "r + k < e")
    case True
    then obtain rh where rh: "HDR st' (r + k) = Hdr rh" "hb_sz rh = (e - (r + k)) * HBLKSIZE" using rk by blast
    have "blocks_of rh = e - (r + k)" by (simp add: blocks_of_def rh(2))
    then show ?thesis using no_cutI [OF tiledD(2) [OF t'] uh(1) rh(1)] True by simp
  next
    case False
    then have "e = r + blocks_of uh" using k uh by simp
    then show ?thesis using no_cutI [OF tiledD(2) [OF t'] uh(1) uh(1)] by simp
  qed
  have "c \<in> free_cells st' \<longleftrightarrow> c \<in> free_cells st - {r ..< r + k}" for c
  proof (cases "c < r \<or> e \<le> c")
    case True
    then show ?thesis using replace_cells [OF l tiledD(2) [OF t'] out cut cut' True] k by auto
  next
    case False
    then have f: "c \<in> free_cells st" using free_cells_member [OF t r(1), of c] r(2) e by auto
    show ?thesis
    proof (cases "c < r + k")
      case True
      then show ?thesis using free_cells_member [OF t' uh(1), of c] uh False by auto
    next
      case ge: False
      then have lt: "r + k < e" using False by auto
      then obtain rh where rh: "HDR st' (r + k) = Hdr rh" "HBLK_IS_FREE rh" "hb_sz rh = (e - (r + k)) * HBLKSIZE"
        using rk by blast
      have "blocks_of rh = e - (r + k)" by (simp add: blocks_of_def rh(3))
      then have "c \<in> free_cells st'" using free_cells_member [OF t' rh(1), of c] rh(2) ge False by auto
      with f ge show ?thesis by auto
    qed
  qed
  then show "free_cells st' = free_cells st - {r ..< r + k}" by blast
  have in_st: "used_at st b = None" if "r \<le> b" "b < e" for b
    using layout_inside [OF l r(1), of b] r that e by (cases "b = r") (auto simp: used_at_def)
  show "used_at st' = (used_at st)(r \<mapsto> uh)"
  proof
    fix b show "used_at st' b = ((used_at st)(r \<mapsto> uh)) b"
    proof (cases "r \<le> b \<and> b < e")
      case True
      then show ?thesis
        using cases_in [of b] in_st [of b] uh cnt [of b] fwd [of b] rk by (auto simp: used_at_def count_entry_def)
    next
      case False
      then have b: "b < r \<or> e \<le> b" by auto
      have "b \<noteq> r" using False k by auto
      moreover have "used_at st' b = used_at st b"
      proof (cases "free_at st b")
        case True
        then have "free_at st' b" using core_at [OF out [OF b]] by simp
        with True show ?thesis by (auto simp: used_at_def free_at_def split: hdr_entry.splits)
      qed (use used [OF b] in \<open>simp add: used_at_def\<close>)
      ultimately show ?thesis by simp
    qed
  qed
qed

lemma remove_free_bytes:
  assumes "tiled st" "{s ..< s + k} \<subseteq> free_cells st" "free_cells st' = free_cells st - {s ..< s + k}"
  shows "wsub (card (free_cells st) * HBLKSIZE) (k * HBLKSIZE) = card (free_cells st') * HBLKSIZE"
proof -
  have c: "card (free_cells st') = card (free_cells st) - k"
    unfolding assms(3) using card_Diff_subset [OF _ assms(2)] by simp
  have "k \<le> card (free_cells st)" using card_mono [OF free_cells_bound(2) [OF assms(1)] assms(2)] by simp
  moreover have "card (free_cells st) \<le> 2 ^ 20 - 1" using card_mono [OF _ free_cells_bound(1) [OF assms(1)]] by simp
  then have "card (free_cells st) * HBLKSIZE < 2 ^ 32" by (simp add: HBLKSIZE_def)
  ultimately show ?thesis using c by (subst wsub_id) (simp_all add: diff_mult_distrib)
qed

lemma hand_out_spec:
  fixes st :: "'a gc_heap_scheme"
  assumes rd: "ready n k r st" and k: "0 < k" "k = obj_sz_to_blocks sz" "OBJ_SZ_TO_BLOCKS sz = k"
    and fl: "flags AND FREE_BLK = 0"
  obtains L st' uh where "hand_out sz kind flags (GC_get_first_part r (k * HBLKSIZE) n st) = Some (r, st')"
    "heap_inv L st'" "same_env st st'" "r \<noteq> 0" "{r ..< r + k} \<subseteq> free_cells st"
    "free_cells st' = free_cells st - {r ..< r + k}" "used_at st' = (used_at st)(r \<mapsto> uh)" "fresh_hdr r sz kind flags uh"
proof -
  have t: "tiled st" and mem: "memory_ok st" and rf: "free_at st r"
      and large: "GC_large_free_bytes st = card (free_cells st) * HBLKSIZE"
    using rd by (auto simp: ready_def)
  obtain gh where gh: "HDR st r = Hdr gh" "HBLK_IS_FREE gh" using free_at_obtain [OF rf] by blast
  note sg = tiled_free_size [OF t gh]
  have r0: "r \<noteq> 0" using tiled_Hdr_pos [OF t gh(1)] by simp
  define e where "e = r + divHBLKSZ (size_at st r)"
  have e: "e = r + blocks_of gh" using sg(2) gh(1) by (simp add: e_def)
  obtain L st1 where g: "GC_get_first_part r (k * HBLKSIZE) n st = (r, st1)" "fl_ok L {r} st1" "\<And>m. r \<notin> set (L m)"
      "index_wf st1" "vars st1 = vars st" "is_Hdr (HDR st1 r)"
      "\<And>b. b < r \<or> e \<le> b \<Longrightarrow> core (HDR st1 b) = core (HDR st b)"
      "\<And>b. b < r \<or> e \<le> b \<Longrightarrow> \<not> free_at st b \<Longrightarrow> HDR st1 b = HDR st b"
      "\<And>b. r + k \<le> b \<Longrightarrow> b < e \<Longrightarrow> (if b = r + k then \<exists>rh. HDR st1 b = Hdr rh \<and> HBLK_IS_FREE rh \<and>
        hb_sz rh = (e - (r + k)) * HBLKSIZE else HDR st1 b = Fwd 0)" "r + k \<le> e"
      "\<And>b. r < b \<Longrightarrow> b < r + k \<Longrightarrow> HDR st1 b = Fwd 0"
    by (rule GC_get_first_part_spec [OF rd k(1), folded e_def]) (rule that; assumption)
  have mem1: "memory_ok st1" using mem vars_eqD(1) [OF g(5)] by simp
  obtain st2 where i: "GC_install_counts r (k * HBLKSIZE) st1 = (True, st2)"
      "HDR st2 = (\<lambda>b. if r < b \<and> b < r + k then count_entry r b else HDR st1 b)" "index_wf st2"
      "vars st2 = vars st1" "GC_hblkfreelist st2 = GC_hblkfreelist st1" "GC_free_bytes st2 = GC_free_bytes st1"
    by (rule GC_install_counts_ok [OF mem1 g(4)])
  have mem2: "memory_ok st2" using mem1 vars_eqD(1) [OF i(4)] by simp
  obtain h1 where "HDR st2 r = Hdr h1" using g(6) i(2) by (auto simp: is_Hdr_iff)
  then obtain st3 uh where u: "setup_header r sz kind flags st2 = (True, st3)" "HDR st3 = (HDR st2)(r := Hdr uh)"
      "fresh_hdr r sz kind flags uh" "index_wf st3" "vars st3 = (vars st2)\<lparr> GC_obj_map := GC_obj_map st3 \<rparr>"
      "GC_hblkfreelist st3 = GC_hblkfreelist st2" "GC_free_bytes st3 = GC_free_bytes st2"
    by (rule setup_header_ok [OF mem2 i(3)])
  define st' where "st' = st3\<lparr> GC_fail_count := 0, GC_large_free_bytes := wsub (GC_large_free_bytes st3) (k * HBLKSIZE) \<rparr>"
  have run: "hand_out sz kind flags (GC_get_first_part r (k * HBLKSIZE) n st) = Some (r, st')"
    using g(1) i(1) u(1) r0 k(2) by (simp add: hand_out_def st'_def mult.commute)
  have H: "HDR st' = (\<lambda>b. if b = r then Hdr uh else if r < b \<and> b < r + k then count_entry r b else HDR st1 b)"
    by (auto simp: st'_def u(2) i(2) fun_eq_iff)
  have wf': "index_wf st'" using u(4) by (simp add: st'_def)
  have uh: "HDR st' r = Hdr uh" "\<not> HBLK_IS_FREE uh" "blocks_of uh = k"
    using u(3) fl k(3) by (simp_all add: H fresh_hdr_def HBLK_IS_FREE_def blocks_of_def)
  have cnt: "HDR st' b = count_entry r b" if "r < b" "b < r + k" for b using that by (simp add: H)
  have H1: "HDR st' b = HDR st1 b" if "b < r \<or> r + k \<le> b" for b using that k(1) by (auto simp: H)
  have H1e: "HDR st' b = HDR st1 b" if "b < r \<or> e \<le> b" for b using H1 [of b] that g(10) by linarith
  have rest: "if b = r + k then \<exists>rh. HDR st' b = Hdr rh \<and> HBLK_IS_FREE rh \<and> hb_sz rh = (e - (r + k)) * HBLKSIZE
      else HDR st' b = Fwd 0" if "r + k \<le> b" "b < e" for b
    using g(9) [OF that] H1 [of b] that by (cases "b = r + k") simp_all
  have out: "core (HDR st' b) = core (HDR st b)" if "b < r \<or> e \<le> b" for b using g(7) [OF that] H1e [OF that] by simp
  have used: "HDR st' b = HDR st b" if "b < r \<or> e \<le> b" "\<not> free_at st b" for b
    using g(8) [OF that] H1e [OF that(1)] by simp
  note T = put_used_tile [OF t wf' gh e k(1) g(10) uh cnt rest out used]
  have flf: "fl_ok L {} st'"
  proof (rule fl_ok_frame [OF g(2)])
    fix b m assume b: "b \<in> set (L m)"
    then have "b \<noteq> r" "free_at st1 b" using g(3) fl_okD(6) [OF g(2)] by auto
    then show "HDR st' b = HDR st1 b" using g(11) [of b] by (auto simp: H free_at_def)
    show "b \<in> {r} \<Longrightarrow> b \<in> {}" using b g(3) by auto
  next
    fix b assume "free_at st' b" "b \<notin> {}"
    then have "b \<noteq> r \<and> HDR st' b = HDR st1 b" using uh by (auto simp: H free_at_def count_entry_def split: if_splits)
    then show "b \<notin> {r} \<and> free_at st1 b \<and> class_at st' b = class_at st1 b"
      using \<open>free_at st' b\<close> core_at [of st' b st1] by auto
  qed (simp_all add: st'_def u(6,7) i(5,6))
  have env3: "same_env st st3"
    using vars_same_env [OF g(5)] vars_same_env [OF i(4)] vars_map_same_env(1) [OF u(5)] same_env_trans by blast
  have lf3: "GC_large_free_bytes st3 = card (free_cells st) * HBLKSIZE"
    using vars_map_same_env(2) [OF u(5)] vars_eqD(3) [OF i(4)] vars_eqD(3) [OF g(5)] large by simp
  have sub: "{r ..< r + k} \<subseteq> free_cells st" using free_cells_member [OF t gh(1)] gh(2) g(10) e by auto
  have "GC_large_free_bytes st' = card (free_cells st') * HBLKSIZE"
    using remove_free_bytes [OF t sub T(2)] lf3 by (simp add: st'_def)
  then have inv: "heap_inv L st'" using T(1) flf by (simp add: heap_inv_def)
  have "same_env st st'" using env3 by (simp add: same_env_def st'_def)
  from that [OF run inv this r0 sub T(2,3) u(3)] show thesis .
qed

end
