(* ===== verification/Heap_Search.thy ===== *)
theory Heap_Search
  imports Heap_Alloc
begin

text \<open>
  The search for a free block: splitting a block in front of black listed ones
  (\<open>GC_split_block\<close>), dropping completely black listed blocks, and the search over one and
  over all free lists. The search is shown to return, to keep the invariant and to choose a
  block that is large enough and avoids the black lists.
\<close>

section \<open>Updates that commute\<close>

lemma SET_HDR_twist:
  assumes "mapped st a" "mapped st b" "a \<noteq> b"
  shows "SET_HDR a x (SET_HDR b y st) = SET_HDR b y (SET_HDR a x st)"
proof (cases "a div BOTTOM_SZ = b div BOTTOM_SZ")
  case True
  then have "a mod BOTTOM_SZ \<noteq> b mod BOTTOM_SZ" using assms(3) div_mod_BOTTOM_eq_iff by blast
  with True assms show ?thesis
    by (auto simp: SET_HDR_def mapped_def fun_upd_twist split: option.splits)
next
  case False
  with assms show ?thesis
    by (auto simp: SET_HDR_def mapped_def fun_upd_twist split: option.splits)
qed

lemma SET_HDR_twice: "SET_HDR a x (SET_HDR a y st) = SET_HDR a x st"
  by (auto simp: SET_HDR_def split: option.splits)

lemma upd_hdr_commute:
  assumes "index_wf st" "a \<noteq> b"
  shows "upd_hdr a f (upd_hdr b g st) = upd_hdr b g (upd_hdr a f st)"
proof -
  have "HDR (upd_hdr b g st) a = HDR st a" "HDR (upd_hdr a f st) b = HDR st b"
    using assms by (simp_all add: HDR_upd_hdr)
  moreover have "\<And>hh. HDR st a = Hdr hh \<Longrightarrow> mapped st a" "\<And>hh. HDR st b = Hdr hh \<Longrightarrow> mapped st b"
    using HDR_Hdr_mapped [OF assms(1)] by auto
  ultimately show ?thesis
    using SET_HDR_twist [OF _ _ assms(2)] by (auto simp: upd_hdr_def split: hdr_entry.splits)
qed

lemma upd_hdr_same:
  assumes "index_wf st"
  shows "upd_hdr a f (upd_hdr a g st) = upd_hdr a (\<lambda>hh. f (g hh)) st"
proof -
  have "HDR (upd_hdr a g st) a = (case HDR st a of Hdr hh \<Rightarrow> Hdr (g hh) | e \<Rightarrow> e)"
    using assms by (simp add: HDR_upd_hdr)
  then show ?thesis by (auto simp: upd_hdr_def SET_HDR_twice split: hdr_entry.splits)
qed

lemma upd_hdr_vars_commute:
  "upd_hdr a f (st\<lparr> GC_hblkfreelist := x \<rparr>) = (upd_hdr a f st)\<lparr> GC_hblkfreelist := x \<rparr>"
  "upd_hdr a f (st\<lparr> GC_free_bytes := y \<rparr>) = (upd_hdr a f st)\<lparr> GC_free_bytes := y \<rparr>"
  "upd_hdr a f (INCR_FREE_BYTES n b st) = INCR_FREE_BYTES n b (upd_hdr a f st)"
  "upd_hdr a f (DECR_FREE_BYTES n b st) = DECR_FREE_BYTES n b (upd_hdr a f st)"
  by (auto simp: upd_hdr_def SET_HDR_def INCR_FREE_BYTES_def DECR_FREE_BYTES_def split: hdr_entry.splits option.splits)

lemma GC_add_to_fl_commute:
  fixes st :: "'a gc_heap_scheme"
  assumes wf: "index_wf st" and ne: "t \<noteq> h"
    and f: "\<And>hh x. f (hh\<lparr> hb_prev := x \<rparr>) = (f hh)\<lparr> hb_prev := x \<rparr>"
  shows "upd_hdr t f (GC_add_to_fl h st) = GC_add_to_fl h (upd_hdr t f st)"
proof -
  let ?c = "GC_hblk_fl_from_blocks (divHBLKSZ (hb_sz (hdr_at st h)))"
  let ?s = "GC_hblkfreelist st ?c"
  let ?st2 = "INCR_FREE_BYTES ?c (hb_sz (hdr_at st h)) (st\<lparr> GC_hblkfreelist := (GC_hblkfreelist st)(?c := h) \<rparr>)"
  let ?g = "\<lambda>hh. hh\<lparr> hb_next := ?s, hb_prev := 0 \<rparr>" and ?p = "\<lambda>hh. hh\<lparr> hb_prev := h \<rparr>"
  let ?fl = "\<lambda>hh. hh\<lparr> hb_flags := hb_flags hh OR FREE_BLK \<rparr>"
  have at: "hdr_at (upd_hdr t f st) h = hdr_at st h" using wf ne by (simp add: hdr_at_upd)
  have wf2: "index_wf ?st2" using wf by simp
  have st2: "upd_hdr t f ?st2 = INCR_FREE_BYTES ?c (hb_sz (hdr_at st h))
      ((upd_hdr t f st)\<lparr> GC_hblkfreelist := (GC_hblkfreelist st)(?c := h) \<rparr>)"
    by (simp add: upd_hdr_vars_commute)
  have sec: "upd_hdr t f (upd_hdr ?s ?p x) = upd_hdr ?s ?p (upd_hdr t f x)" if "index_wf x" for x :: "'a gc_heap_scheme"
  proof (cases "t = ?s")
    case True
    then show ?thesis using that f by (simp add: upd_hdr_same)
  next
    case False
    then show ?thesis by (rule upd_hdr_commute [OF that])
  qed
  show ?thesis
    unfolding GC_add_to_fl_def Let_def at
    using ne wf2 by (simp add: upd_hdr_commute [of _ t h] sec st2 [symmetric])
qed

section \<open>Splitting a free block\<close>

text \<open>
  The state of \<open>GC_split_block\<close> before \<open>h\<close> goes back to a free list, with the flag of \<open>t\<close>
  already set: \<open>t\<close> stands in the place of \<open>h\<close> in list \<open>n\<close>.
\<close>

definition swap_in :: "hblk \<Rightarrow> hblk \<Rightarrow> nat \<Rightarrow> 'a gc_heap_scheme \<Rightarrow> 'a gc_heap_scheme" where
  "swap_in h t n st =
     (let hhdr = hdr_at st h; hs = hblk_addr t - hblk_addr h; p = hb_prev hhdr; q = hb_next hhdr;
          st1 = upd_hdr t (\<lambda>nh. nh\<lparr> hb_prev := p, hb_next := q, hb_sz := hb_sz hhdr - hs, hb_flags := 0 OR FREE_BLK \<rparr>) st;
          st2 = (if p \<noteq> 0 then upd_hdr p (\<lambda>ph. ph\<lparr> hb_next := t \<rparr>) st1
                 else st1\<lparr> GC_hblkfreelist := (GC_hblkfreelist st1)(n := t) \<rparr>);
          st3 = (if q \<noteq> 0 then upd_hdr q (\<lambda>xh. xh\<lparr> hb_prev := t \<rparr>) st2 else st2) in
      upd_hdr h (\<lambda>hh. hh\<lparr> hb_sz := hs \<rparr>) (DECR_FREE_BYTES n hs st3))"

lemma GC_split_block_swap:
  fixes st :: "'a gc_heap_scheme"
  assumes wf: "index_wf st" and ne: "t \<noteq> h"
  shows "GC_split_block h t n st = GC_add_to_fl h (swap_in h t n st)"
proof -
  let ?hh = "hdr_at st h" and ?hs = "hblk_addr t - hblk_addr h"
  let ?p = "hb_prev ?hh" and ?q = "hb_next ?hh"
  let ?f1 = "\<lambda>nh :: hdr. nh\<lparr> hb_prev := ?p, hb_next := ?q, hb_sz := hb_sz ?hh - ?hs, hb_flags := 0 \<rparr>"
  let ?fl = "\<lambda>nh :: hdr. nh\<lparr> hb_flags := hb_flags nh OR FREE_BLK \<rparr>"
  let ?nx = "\<lambda>x :: 'a gc_heap_scheme. if ?p \<noteq> 0 then upd_hdr ?p (\<lambda>ph. ph\<lparr> hb_next := t \<rparr>) x
                 else x\<lparr> GC_hblkfreelist := (GC_hblkfreelist x)(n := t) \<rparr>"
  let ?pv = "\<lambda>x :: 'a gc_heap_scheme. if ?q \<noteq> 0 then upd_hdr ?q (\<lambda>xh. xh\<lparr> hb_prev := t \<rparr>) x else x"
  let ?sz = "\<lambda>x :: 'a gc_heap_scheme. upd_hdr h (\<lambda>hh. hh\<lparr> hb_sz := ?hs \<rparr>) (DECR_FREE_BYTES n ?hs x)"
  let ?st1 = "upd_hdr t ?f1 st"
  have link: "upd_hdr t ?fl (upd_hdr b g x) = upd_hdr b g (upd_hdr t ?fl x)"
    if "index_wf x" "\<And>hh. ?fl (g hh) = g (?fl hh)" for b g and x :: "'a gc_heap_scheme"
    using that by (cases "b = t") (simp_all add: upd_hdr_same upd_hdr_commute)
  have wf1: "index_wf ?st1" "index_wf (?nx ?st1)" "index_wf (?pv (?nx ?st1))" using wf by simp_all
  have "upd_hdr t ?fl (?sz (?pv (?nx ?st1))) = ?sz (upd_hdr t ?fl (?pv (?nx ?st1)))"
    using wf1(3) ne by (simp add: upd_hdr_commute [of _ t h] upd_hdr_vars_commute)
  also have "upd_hdr t ?fl (?pv (?nx ?st1)) = ?pv (upd_hdr t ?fl (?nx ?st1))"
    using link [OF wf1(2)] by simp
  also have "upd_hdr t ?fl (?nx ?st1) = ?nx (upd_hdr t ?fl ?st1)"
    using link [OF wf1(1)] by (simp add: upd_hdr_vars_commute)
  also have "upd_hdr t ?fl ?st1 = upd_hdr t (\<lambda>nh. nh\<lparr> hb_prev := ?p, hb_next := ?q, hb_sz := hb_sz ?hh - ?hs,
      hb_flags := 0 OR FREE_BLK \<rparr>) st"
    using wf by (simp add: upd_hdr_same)
  finally have e: "upd_hdr t ?fl (?sz (?pv (?nx ?st1))) = swap_in h t n st"
    by (simp add: swap_in_def Let_def)
  have "GC_split_block h t n st = upd_hdr t ?fl (GC_add_to_fl h (?sz (?pv (?nx ?st1))))"
    by (simp add: GC_split_block_def Let_def)
  also have "\<dots> = GC_add_to_fl h (upd_hdr t ?fl (?sz (?pv (?nx ?st1))))"
    by (rule GC_add_to_fl_commute) (use wf1 ne in simp_all)
  finally show ?thesis unfolding e .
qed

lemma vars_free_bytes [simp]: "vars (st\<lparr> GC_free_bytes := y \<rparr>) = vars st"
  by (simp add: vars_def)

lemma swap_in_HDR:
  fixes st :: "'a gc_heap_scheme"
  assumes wf: "index_wf st" and d: "h \<noteq> t" "p \<noteq> h" "p \<noteq> t" "q \<noteq> h" "q \<noteq> t" "p \<noteq> q \<or> p = 0"
    and h: "HDR st h = Hdr hh" "hb_prev hh = p" "hb_next hh = q" and t: "HDR st t = Hdr th"
  shows "HDR (swap_in h t n st) = (\<lambda>b. if b = h then Hdr (hh\<lparr> hb_sz := hblk_addr t - hblk_addr h \<rparr>)
      else if b = t then Hdr (th\<lparr> hb_prev := p, hb_next := q, hb_sz := hb_sz hh - (hblk_addr t - hblk_addr h),
                                  hb_flags := 0 OR FREE_BLK \<rparr>)
      else if b = p \<and> p \<noteq> 0 then (case HDR st b of Hdr x \<Rightarrow> Hdr (x\<lparr> hb_next := t \<rparr>) | e \<Rightarrow> e)
      else if b = q \<and> q \<noteq> 0 then (case HDR st b of Hdr x \<Rightarrow> Hdr (x\<lparr> hb_prev := t \<rparr>) | e \<Rightarrow> e)
      else HDR st b)" "index_wf (swap_in h t n st)" "vars (swap_in h t n st) = vars st"
    "GC_free_bytes (swap_in h t n st) = (GC_free_bytes st)(n := wsub (GC_free_bytes st n) (hblk_addr t - hblk_addr h))"
    "GC_hblkfreelist (swap_in h t n st) = (if p \<noteq> 0 then GC_hblkfreelist st else (GC_hblkfreelist st)(n := t))"
  using assms
  by (auto simp: swap_in_def Let_def HDR_upd_hdr fun_eq_iff DECR_FREE_BYTES_def split: hdr_entry.splits)

lemma swap_in_lists:
  fixes st :: "'a gc_heap_scheme"
  assumes wf: "index_wf st" and fl: "fl_ok L {t} st" and Ln: "L n = xs @ h # ys"
    and h: "HDR st h = Hdr hh" and t: "HDR st t = Hdr th" "t \<noteq> 0" "\<And>m. t \<notin> set (L m)"
    and hs: "hblk_addr t - hblk_addr h \<le> hb_sz hh"
  shows "fl_ok (L(n := xs @ t # ys)) {h, t} (swap_in h t n st)"
    "\<And>b. b \<noteq> h \<Longrightarrow> b \<noteq> t \<Longrightarrow> core (HDR (swap_in h t n st) b) = core (HDR st b)"
    "\<And>b. b \<noteq> h \<Longrightarrow> b \<noteq> t \<Longrightarrow> \<not> free_at st b \<Longrightarrow> HDR (swap_in h t n st) b = HDR st b"
    "HDR (swap_in h t n st) h = Hdr (hh\<lparr> hb_sz := hblk_addr t - hblk_addr h \<rparr>)"
    "\<exists>th'. HDR (swap_in h t n st) t = Hdr th' \<and> HBLK_IS_FREE th' \<and> hb_sz th' = hb_sz hh - (hblk_addr t - hblk_addr h)"
    "index_wf (swap_in h t n st)" "vars (swap_in h t n st) = vars st"
proof -
  let ?st' = "swap_in h t n st" and ?hs = "hblk_addr t - hblk_addr h"
  define p where "p = last (0 # xs)"
  define q where "q = hd (ys @ [0])"
  have links: "hb_prev hh = p" "hb_next hh = q"
    using dlist_next [of st 0 xs h ys 0] fl_okD(1) [OF fl, of n] Ln h by (auto simp: p_def q_def)
  have mem: "b \<in> set (L n)" if "b \<in> set xs \<union> set ys" for b using Ln that by auto
  have dist: "distinct xs" "distinct ys" "set xs \<inter> set ys = {}" "h \<notin> set xs" "h \<notin> set ys"
    using fl_okD(3) [OF fl, of n] Ln by auto
  have nz: "b \<noteq> 0" if "b \<in> set xs \<union> set ys" for b using fl_okD(5) [OF fl mem [OF that]] .
  have p: "xs \<noteq> [] \<Longrightarrow> p = last xs \<and> p \<in> set xs \<and> p \<noteq> 0" "xs = [] \<Longrightarrow> p = 0"
    using last_in_set [of xs] nz by (auto simp: p_def)
  have q: "ys \<noteq> [] \<Longrightarrow> q = hd ys \<and> q \<in> set ys \<and> q \<noteq> 0" "ys = [] \<Longrightarrow> q = 0"
    using hd_in_set [of ys] nz by (cases ys; auto simp: q_def)+
  have hL: "h \<in> set (L n)" and h0: "h \<noteq> 0" and ht: "h \<noteq> t" using Ln t(3) [of n] fl_okD(5) [OF fl, of h n] by auto
  have tn: "t \<notin> set xs" "t \<notin> set ys" using t(3) [of n] Ln by auto
  have d: "p \<noteq> h" "p \<noteq> t" "q \<noteq> h" "q \<noteq> t" "p \<noteq> q \<or> p = 0"
    using p q dist tn h0 t(2) by (cases "xs = []"; cases "ys = []"; auto)+
  note S = swap_in_HDR [OF wf ht d h links t(1), of n]
  note H = S(1)
  show "index_wf ?st'" "vars ?st' = vars st" by (fact S(2) S(3))+
  show Hh: "HDR ?st' h = Hdr (hh\<lparr> hb_sz := ?hs \<rparr>)" by (simp add: H)
  have Ht: "HDR ?st' t = Hdr (th\<lparr> hb_prev := p, hb_next := q, hb_sz := hb_sz hh - ?hs, hb_flags := 0 OR FREE_BLK \<rparr>)"
    using ht by (simp add: H)
  show "\<exists>th'. HDR ?st' t = Hdr th' \<and> HBLK_IS_FREE th' \<and> hb_sz th' = hb_sz hh - ?hs"
    unfolding Ht by (intro exI conjI, rule refl) (simp_all add: HBLK_IS_FREE_def FREE_BLK_def)
  show C: "core (HDR ?st' b) = core (HDR st b)" if "b \<noteq> h" "b \<noteq> t" for b
    using that by (auto simp: H split: hdr_entry.splits)
  have pf: "free_at st p" if "p \<noteq> 0" using that p fl_okD(6) [OF fl mem, of p] by (cases "xs = []") auto
  have qf: "free_at st q" if "q \<noteq> 0" using that q fl_okD(6) [OF fl mem, of q] by (cases "ys = []") auto
  show E: "HDR ?st' b = HDR st b" if "b \<noteq> h" "b \<noteq> t" "\<not> free_at st b" for b
    using that pf qf by (auto simp: H)
  have at: "hdr_at ?st' b = (if b = p \<and> p \<noteq> 0 then (hdr_at st b)\<lparr> hb_next := t \<rparr>
      else if b = q \<and> q \<noteq> 0 then (hdr_at st b)\<lparr> hb_prev := t \<rparr> else hdr_at st b)"
    if "b \<noteq> h" "b \<noteq> t" "is_Hdr (HDR st b)" for b
    using that d by (auto simp: H hdr_at_def is_Hdr_def split: hdr_entry.splits)
  have hd_: "is_Hdr (HDR ?st' b) = is_Hdr (HDR st b)" if "b \<noteq> h" "b \<noteq> t" for b using is_Hdr_core [OF C [OF that]] .
  have hdrs: "is_Hdr (HDR st b)" if "b \<in> set (L m)" for b m using fl_okD(6) [OF fl that] by (rule free_at_Hdr)
  have dxs: "dlist ?st' 0 xs t"
  proof (cases xs rule: rev_cases)
    case (snoc zs a)
    have "dlist st 0 xs h" using fl_okD(1) [OF fl, of n] Ln by (simp add: dlist_append)
    then have dz: "dlist st 0 zs a" "hb_prev (hdr_at st a) = last (0 # zs)" using snoc by (auto simp: dlist_snoc)
    have a: "a = p" "p \<noteq> 0" using p snoc by auto
    have "x \<noteq> p \<and> x \<noteq> q \<and> x \<noteq> h \<and> x \<noteq> t \<and> is_Hdr (HDR st x)" if "x \<in> set zs" for x
      using that snoc a dist tn q nz [of x] mem [of x] hdrs by (cases "ys = []") auto
    then have "dlist ?st' 0 zs a = dlist st 0 zs a" using at hd_ by (intro dlist_cong) auto
    moreover have "hdr_at ?st' a = (hdr_at st a)\<lparr> hb_next := t \<rparr>" "is_Hdr (HDR ?st' a)"
      using at [of a] hd_ [of a] a d mem [of a] snoc hdrs by auto
    ultimately show ?thesis using dz snoc by (simp add: dlist_snoc)
  qed simp
  have dys: "dlist ?st' t ys 0"
  proof (cases ys)
    case (Cons a zs)
    have dz: "dlist st a zs 0" "hb_next (hdr_at st a) = hd (zs @ [0])"
      using fl_okD(1) [OF fl, of n] Ln Cons by (auto simp: dlist_append)
    have a: "a = q" "q \<noteq> 0" using q Cons by auto
    have "x \<noteq> p \<and> x \<noteq> q \<and> x \<noteq> h \<and> x \<noteq> t \<and> is_Hdr (HDR st x)" if "x \<in> set zs" for x
      using that Cons a dist tn p nz [of x] mem [of x] hdrs by (cases "xs = []") auto
    then have "dlist ?st' a zs 0 = dlist st a zs 0" using at hd_ by (intro dlist_cong) auto
    moreover have "hdr_at ?st' a = (hdr_at st a)\<lparr> hb_prev := t \<rparr>" "is_Hdr (HDR ?st' a)"
      using at [of a] hd_ [of a] a d mem [of a] Cons hdrs by auto
    ultimately show ?thesis using dz Cons by simp
  qed simp
  have dn: "dlist ?st' 0 (xs @ t # ys) 0"
    using dxs dys Ht by (simp add: dlist_append is_Hdr_def p_def q_def)
  have apart: "x \<noteq> p \<and> x \<noteq> q \<and> x \<noteq> h \<and> x \<noteq> t" if "x \<in> set (L m)" "m \<noteq> n" for x m
    using that fl_lists_apart [OF fl that(1), of n] p q mem hL t(3) fl_okD(5) [OF fl that(1)]
    by (cases "xs = []"; cases "ys = []") auto
  have dm: "dlist ?st' 0 (L m) 0" if "m \<noteq> n" for m
  proof -
    have "dlist ?st' 0 (L m) 0 = dlist st 0 (L m) 0"
      using apart [OF _ that] at hd_ hdrs by (intro dlist_cong) auto
    then show ?thesis using fl_okD(1) [OF fl] by simp
  qed
  have sz: "size_at ?st' b = size_at st b" "free_at ?st' b = free_at st b" "class_at ?st' b = class_at st b"
    if "b \<noteq> h" "b \<noteq> t" for b using core_at [OF C [OF that]] by auto
  have sht: "size_at ?st' h = ?hs" "size_at ?st' t = hb_sz hh - ?hs" "free_at ?st' t" "free_at ?st' h"
    using Hh Ht fl_okD(6) [OF fl hL] h by (simp_all add: free_at_def HBLK_IS_FREE_def FREE_BLK_def)
  have mapn: "map (size_at ?st') xs = map (size_at st) xs" "map (size_at ?st') ys = map (size_at st) ys"
    using dist(4,5) tn by (auto intro!: sz(1) map_cong)
  show "fl_ok (L(n := xs @ t # ys)) {h, t} ?st'"
  proof (rule fl_okI)
    show "dlist ?st' 0 ((L(n := xs @ t # ys)) m) 0" for m using dn dm by simp
    show "GC_hblkfreelist ?st' m = hd ((L(n := xs @ t # ys)) m @ [0])" for m
      using fl_okD(2) [OF fl, of m] Ln p by (cases xs) (auto simp: S(5))
    show "distinct ((L(n := xs @ t # ys)) m)" for m using fl_okD(3) [OF fl, of m] dist tn by auto
    show "GC_free_bytes ?st' m = word32 (\<Sum>b \<leftarrow> (L(n := xs @ t # ys)) m. size_at ?st' b)" for m
    proof (cases "m = n")
      case True
      let ?a = "sum_list (map (size_at st) xs) + (hb_sz hh - ?hs) + sum_list (map (size_at st) ys)"
      have "GC_free_bytes st n = word32 (?a + ?hs)"
        using fl_okD(4) [OF fl, of n] Ln h hs by (simp add: add.commute add.left_commute)
      then have "GC_free_bytes ?st' n = word32 ?a" by (simp only: S(4) fun_upd_same wsub_word32)
      moreover have "(\<Sum>b \<leftarrow> xs @ t # ys. size_at ?st' b) = ?a"
        unfolding map_append list.map sum_list.append sum_list.Cons mapn sht(2) by simp
      ultimately show ?thesis using True by simp
    next
      case False
      have e: "map (size_at ?st') (L m) = map (size_at st) (L m)" using apart [OF _ False] sz(1) by auto
      show ?thesis using False fl_okD(4) [OF fl, of m] unfolding S(4) fun_upd_other [OF False] e by simp
    qed
    show "b \<noteq> 0 \<and> free_at ?st' b \<and> (b \<notin> {h, t} \<longrightarrow> class_at ?st' b = m)" if b: "b \<in> set ((L(n := xs @ t # ys)) m)" for m b
    proof (cases "b = t")
      case True
      then show ?thesis using t(2) sht by simp
    next
      case False
      then have m: "b \<in> set (L m)" "b \<noteq> h" using b mem dist apart by (auto split: if_splits)
      then show ?thesis using fl_okD(5-7) [OF fl m(1)] sz [OF m(2) False] False by auto
    qed
    show "b \<in> set ((L(n := xs @ t # ys)) (class_at ?st' b))" if "free_at ?st' b" "b \<notin> {h, t}" for b
      using that sz [of b] fl_okD(8) [OF fl, of b] Ln by auto
    show "m = m'" if "b \<in> set ((L(n := xs @ t # ys)) m)" "b \<in> set ((L(n := xs @ t # ys)) m')" for m m' b
      using that fl_okD(9) [OF fl, of b] mem t(3) by (auto split: if_splits)
  qed
qed

lemma two_free_tiles:
  assumes t: "tiled st" and wf: "index_wf st'" and g: "HDR st g = Hdr gh" "HBLK_IS_FREE gh"
    and e: "e = g + blocks_of gh" and m: "g < m" "m < e"
    and g': "HDR st' g = Hdr ah" "HBLK_IS_FREE ah" "hb_sz ah = (m - g) * HBLKSIZE"
    and m': "HDR st' m = Hdr bh" "HBLK_IS_FREE bh" "hb_sz bh = (e - m) * HBLKSIZE"
    and out: "\<And>b. b \<noteq> g \<Longrightarrow> b \<noteq> m \<Longrightarrow> core (HDR st' b) = core (HDR st b)"
    and used: "\<And>b. b \<noteq> g \<Longrightarrow> b \<noteq> m \<Longrightarrow> \<not> free_at st b \<Longrightarrow> HDR st' b = HDR st b"
  shows "tiled st'" "free_cells st' = free_cells st" "used_at st' = used_at st"
proof -
  note l = tiledD(2) [OF t] and sg = tiled_free_size [OF t g]
  have cut: "no_cut st g e" unfolding e by (rule no_cutI [OF l g(1) g(1)]) simp
  have inner: "HDR st' b = Fwd 0" if "g < b" "b < e" "b \<noteq> m" for b
    using layout_inside [OF l g(1), of b] out [of b] that e g(2) by simp
  have small: "n * HBLKSIZE < 2 ^ 31" if "n \<le> blocks_of gh" for n
  proof -
    have "n * HBLKSIZE \<le> blocks_of gh * HBLKSIZE" using that by simp
    also have "\<dots> < 2 ^ 31" using tiledD(6) [OF t, of g] g sg(1) by (simp add: free_at_def)
    finally show ?thesis .
  qed
  have bl: "blocks_of ah = m - g" "blocks_of bh = e - m" by (simp_all add: blocks_of_def g'(3) m'(3))
  have out': "core (HDR st' b) = core (HDR st b)" if "b < g \<or> e \<le> b" for b using out [of b] that m by auto
  show t': "tiled st'"
  proof (rule tiled_replace [OF t wf tiled_Hdr_pos [OF t g(1)] _ out' cut])
    show "e \<le> 2 ^ 20" using tiledD(5) [OF t g(1)] e by simp
    show "tile_ok st' e h hh" if h: "HDR st' h = Hdr hh" "g \<le> h" "h < e" for h hh
    proof -
      have "h = g \<or> h = m" using inner [of h] h by (cases "h = g"; cases "h = m") auto
      then show ?thesis
        using h(1) g' m' bl m inner small [of "m - g"] small [of "e - m"] e by (auto simp: tile_ok_def)
    qed
    show "\<exists>h hh. g \<le> h \<and> HDR st' h = Hdr hh \<and> \<not> HBLK_IS_FREE hh \<and> h < b \<and> b < h + blocks_of hh"
      if "HDR st' b = Fwd k" "0 < k" "g \<le> b" "b < e" for b k
      using that inner [of b] g'(1) m'(1) by (cases "b = g"; cases "b = m") auto
  qed
  have cut': "no_cut st' g e" using no_cutI [OF tiledD(2) [OF t'] g'(1) m'(1)] bl(2) m by simp
  have "c \<in> free_cells st' \<longleftrightarrow> c \<in> free_cells st" for c
  proof (cases "c < g \<or> e \<le> c")
    case True
    then show ?thesis using replace_cells [OF l tiledD(2) [OF t'] out' cut cut' True] by simp
  next
    case False
    then have "c \<in> free_cells st" using free_cells_member [OF t g(1), of c] g(2) e by auto
    moreover have "c \<in> free_cells st'"
      using False free_cells_member [OF t' g'(1), of c] free_cells_member [OF t' m'(1), of c] bl g'(2) m'(2) m
      by (cases "c < m") auto
    ultimately show ?thesis by simp
  qed
  then show "free_cells st' = free_cells st" by blast
  show "used_at st' = used_at st"
  proof
    fix b show "used_at st' b = used_at st b"
    proof (cases "b = g \<or> b = m")
      case True
      then show ?thesis using g g' m' layout_inside [OF l g(1), of m] m e by (auto simp: used_at_def)
    next
      case False
      then show ?thesis
        using core_at(1) [OF out, of b] used [of b]
        by (cases "free_at st b") (auto simp: used_at_def free_at_def split: hdr_entry.splits)
    qed
  qed
qed

lemma split_ready:
  fixes st :: "'a gc_heap_scheme"
  assumes inv: "heap_inv L st" and mem: "memory_ok st" and Ln: "L n = xs @ g # ys"
    and t: "g < t" "t + k \<le> g + divHBLKSZ (size_at st g)" "0 < k"
    and i: "GC_install_header t st = (Some th, st1)"
  shows "ready n k t (GC_split_block g t n st1)" "same_use st (GC_split_block g t n st1)"
proof -
  let ?st' = "GC_split_block g t n st1" and ?sw = "swap_in g t n st1"
  have T: "tiled st" and fl: "fl_ok L {} st" and large: "GC_large_free_bytes st = card (free_cells st) * HBLKSIZE"
    using heap_invD [OF inv] by auto
  have gL: "g \<in> set (L n)" using Ln by simp
  obtain gh where g: "HDR st g = Hdr gh" "HBLK_IS_FREE gh" using free_at_obtain [OF fl_okD(6) [OF fl gL]] by blast
  note sg = tiled_free_size [OF T g]
  define e where "e = g + blocks_of gh"
  have te: "t < e" "t + k \<le> e" using t g(1) sg(2) by (simp_all add: e_def)
  obtain th' st1' where i': "GC_install_header t st = (Some th', st1')" "HDR st1' = (HDR st)(t := Hdr th')" "index_wf st1'"
      "vars st1' = vars st" "GC_hblkfreelist st1' = GC_hblkfreelist st" "GC_free_bytes st1' = GC_free_bytes st"
    using GC_install_header_ok [OF mem tiledD(1) [OF T]] by blast
  then have H1: "HDR st1 = (HDR st)(t := Hdr th)" and wf1: "index_wf st1" and v1: "vars st1 = vars st"
      and ls: "GC_hblkfreelist st1 = GC_hblkfreelist st" "GC_free_bytes st1 = GC_free_bytes st" using i by auto
  have tn: "HDR st t = Fwd 0" using layout_inside [OF tiledD(2) [OF T] g(1), of t] t te g(2) by (simp add: e_def)
  have toff: "t \<notin> set (L m)" for m using fl_okD(6) [OF fl, of t m] tn by (auto simp: free_at_def)
  have fl1: "fl_ok L {t} st1"
  proof (rule fl_ok_frame [OF fl])
    fix b assume b: "free_at st1 b" "b \<notin> {t}"
    then have "core (HDR st1 b) = core (HDR st b)" by (simp add: H1)
    from core_at [OF this] b show "b \<notin> {} \<and> free_at st b \<and> class_at st1 b = class_at st b" by simp
  qed (use toff ls in \<open>auto simp: H1\<close>)
  have g1: "HDR st1 g = Hdr gh" using g t by (simp add: H1)
  have hs: "hblk_addr t - hblk_addr g = (t - g) * HBLKSIZE" by (simp add: hblk_addr_def diff_mult_distrib)
  have le: "hblk_addr t - hblk_addr g \<le> hb_sz gh" unfolding hs sg(1) using te by (simp add: e_def)
  have t1: "HDR st1 t = Hdr th" "t \<noteq> 0" using t by (simp_all add: H1)
  note W = swap_in_lists [OF wf1 fl1 Ln g1 t1 toff le]
  let ?L1 = "L(n := xs @ t # ys)"
  have goff: "g \<notin> set (?L1 m)" for m
    using fl_okD(3) [OF fl, of n] Ln t fl_lists_apart [OF fl gL, of m] by auto
  have g0: "g \<noteq> 0" using tiled_Hdr_pos [OF T g(1)] by simp
  have gw: "is_Hdr (HDR ?sw g)" using W(4) by (simp add: is_Hdr_def)
  note A = GC_add_to_fl_spec [OF W(6) W(1) gw g0 goff refl]
  have st': "?st' = GC_add_to_fl g ?sw" using GC_split_block_swap [OF wf1, of t g n] t by simp
  let ?c = "class_at ?sw g"
  let ?L2 = "?L1(?c := g # ?L1 ?c)"
  have X: "{g, t} - {g} = {t}" using t by auto
  have fl': "fl_ok ?L2 {t} ?st'" using A(1) unfolding X st' .
  have wf': "index_wf ?st'" and v': "vars ?st' = vars st" using A(2,3) W(7) v1 by (simp_all add: st')
  obtain tw where tw: "HDR ?sw t = Hdr tw" "HBLK_IS_FREE tw" "hb_sz tw = hb_sz gh - (hblk_addr t - hblk_addr g)" using W(5) by blast
  have tsz: "hb_sz tw = (e - t) * HBLKSIZE"
    unfolding tw(3) hs sg(1) using t te by (simp add: e_def diff_mult_distrib [symmetric])
  have ct: "core (HDR ?st' t) = core (Hdr tw)" using A(4) [of t] tw t by (simp add: st')
  then obtain bh where bh: "HDR ?st' t = Hdr bh" by (cases "HDR ?st' t") auto
  have bh': "HBLK_IS_FREE bh" "hb_sz bh = (e - t) * HBLKSIZE"
    using core_Hdr [OF ct [unfolded bh]] tw tsz by simp_all
  have cg: "core (HDR ?st' g) = core (Hdr (gh\<lparr> hb_sz := (t - g) * HBLKSIZE \<rparr>))"
    using A(6) W(4) hs free_flag_idem [OF g(2)] by (simp add: st' hdr_at_def)
  then obtain ah where ah: "HDR ?st' g = Hdr ah" by (cases "HDR ?st' g") auto
  have ah': "HBLK_IS_FREE ah" "hb_sz ah = (t - g) * HBLKSIZE"
    using core_Hdr [OF cg [unfolded ah]] g(2) by (simp_all add: HBLK_IS_FREE_def)
  have out: "core (HDR ?st' b) = core (HDR st b)" if "b \<noteq> g" "b \<noteq> t" for b
    using A(4) [OF that(1)] W(2) [OF that] that by (simp add: st' H1)
  have used: "HDR ?st' b = HDR st b" if b: "b \<noteq> g" "b \<noteq> t" "\<not> free_at st b" for b
  proof -
    have "\<not> free_at st1 b" using b by (simp add: H1 free_at_def)
    then have "HDR ?sw b = HDR st1 b" using W(3) [OF b(1,2)] by simp
    moreover from this have "\<not> free_at ?sw b" using \<open>\<not> free_at st1 b\<close> by (simp add: free_at_def)
    ultimately show ?thesis using A(5) [OF b(1)] b(2) by (simp add: st' H1)
  qed
  note tile = two_free_tiles [OF T wf' g e_def t(1) te(1) ah ah' bh bh' out used]
  show "same_use st ?st'" using tile v' by (simp add: same_use_def)
  have "\<exists>xs' ys'. ?L2 n = xs' @ t # ys'"
  proof (cases "?c = n")
    case True
    then show ?thesis by (intro exI [of _ "g # xs"] exI [of _ ys]) simp
  qed auto
  with fl' have "\<exists>L xs ys. fl_ok L {t} ?st' \<and> L n = xs @ t # ys" by blast
  moreover have "k * HBLKSIZE \<le> size_at ?st' t" using bh bh' te by simp
  moreover have "free_at ?st' t" using bh bh' by (simp add: free_at_def)
  ultimately show "ready n k t ?st'"
    using tile vars_eqD(1,3) [OF v'] mem large by (simp add: ready_def)
qed

section \<open>Dropping a black listed block\<close>

text \<open>
  What a search may do to the heap: some free heap blocks have become blocks in use of one
  heap block each, without pointers.
\<close>

definition evolved :: "'a gc_heap_scheme \<Rightarrow> 'a gc_heap_scheme \<Rightarrow> bool" where
  "evolved st st' \<longleftrightarrow> same_env st st' \<and> free_cells st' \<subseteq> free_cells st
     \<and> (\<forall>b hh. used_at st b = Some hh \<longrightarrow> used_at st' b = Some hh)
     \<and> (\<forall>b hh. used_at st' b = Some hh \<longrightarrow> used_at st b = Some hh
          \<or> b \<in> free_cells st \<and> fresh_hdr b HBLKSIZE PTRFREE 0 hh)"

lemma evolved_refl [simp]: "evolved st st"
  by (simp add: evolved_def)

lemma evolved_trans: "evolved a b \<Longrightarrow> evolved b c \<Longrightarrow> evolved a c"
  unfolding evolved_def using same_env_trans by blast

lemma same_use_evolved: "same_use st st' \<Longrightarrow> evolved st st'"
  by (auto simp: evolved_def same_use_def vars_same_env)

lemma drop_one_ok:
  fixes st :: "'a gc_heap_scheme"
  assumes "memory_ok st" "index_wf st" "h = g \<Longrightarrow> is_Hdr (HDR st g)"
  obtains st' uh where "drop_one g h st = st'" "HDR st' = (HDR st)(h := Hdr uh)" "fresh_hdr h HBLKSIZE PTRFREE 0 uh"
    "index_wf st'" "same_env st st'" "GC_large_free_bytes st' = GC_large_free_bytes st"
    "GC_hblkfreelist st' = GC_hblkfreelist st" "GC_free_bytes st' = GC_free_bytes st" "drop_count st' = drop_count st"
proof -
  obtain hh0 st1 where a: "(if h = g then (True, st) else case GC_install_header h st of (r, st1) \<Rightarrow> (r \<noteq> None, st1)) = (True, st1)"
      "HDR st1 = (HDR st)(h := Hdr hh0)" "index_wf st1" "vars st1 = vars st"
      "GC_hblkfreelist st1 = GC_hblkfreelist st" "GC_free_bytes st1 = GC_free_bytes st"
  proof (cases "h = g")
    case True
    then obtain hh where "HDR st h = Hdr hh" using assms(3) by (auto simp: is_Hdr_iff)
    then show thesis using that [of st hh] True assms(2) by (simp add: fun_upd_idem)
  next
    case False
    obtain hh st1 where "GC_install_header h st = (Some hh, st1)" "HDR st1 = (HDR st)(h := Hdr hh)" "index_wf st1"
        "vars st1 = vars st" "GC_hblkfreelist st1 = GC_hblkfreelist st" "GC_free_bytes st1 = GC_free_bytes st"
      using GC_install_header_ok [OF assms(1,2)] by blast
    then show thesis using that [of st1 hh] False by simp
  qed
  have "memory_ok st1" "HDR st1 h = Hdr hh0" using assms(1) vars_eqD(1) [OF a(4)] a(2) by simp_all
  then obtain st2 uh where u: "setup_header h HBLKSIZE PTRFREE 0 st1 = (True, st2)" "HDR st2 = (HDR st1)(h := Hdr uh)"
      "fresh_hdr h HBLKSIZE PTRFREE 0 uh" "index_wf st2" "vars st2 = (vars st1)\<lparr> GC_obj_map := GC_obj_map st2 \<rparr>"
      "GC_hblkfreelist st2 = GC_hblkfreelist st1" "GC_free_bytes st2 = GC_free_bytes st1"
    using setup_header_ok [OF _ a(3)] by blast
  define st' where "st' = (if GC_debugging_started st2 then st2\<lparr> GC_mem := bzero_block h (GC_mem st2) \<rparr> else st2)"
  have r: "drop_one g h st = st'" using a(1) u(1) by (simp add: drop_one_def st'_def Let_def)
  have env2: "same_env st st2" using vars_same_env [OF a(4)] vars_map_same_env(1) [OF u(5)] same_env_trans by blast
  have "drop_count st2 = drop_count st1" using arg_cong [OF u(5), of drop_count] by (simp add: vars_def)
  then show thesis
    using that [OF r, of uh] u a env2 vars_map_same_env(2) [OF u(5)] vars_eqD(3,7) [OF a(4)]
    by (simp add: st'_def same_env_def)
qed

lemma fold_drop_one:
  fixes st :: "'a gc_heap_scheme"
  assumes "memory_ok st" "index_wf st" "is_Hdr (HDR st g)"
  shows "\<exists>u. HDR (fold (drop_one g) [g ..< g + m] st) = (\<lambda>b. if g \<le> b \<and> b < g + m then Hdr (u b) else HDR st b)
    \<and> (\<forall>b. g \<le> b \<and> b < g + m \<longrightarrow> fresh_hdr b HBLKSIZE PTRFREE 0 (u b))
    \<and> index_wf (fold (drop_one g) [g ..< g + m] st) \<and> same_env st (fold (drop_one g) [g ..< g + m] st)
    \<and> GC_large_free_bytes (fold (drop_one g) [g ..< g + m] st) = GC_large_free_bytes st
    \<and> GC_hblkfreelist (fold (drop_one g) [g ..< g + m] st) = GC_hblkfreelist st
    \<and> GC_free_bytes (fold (drop_one g) [g ..< g + m] st) = GC_free_bytes st
    \<and> drop_count (fold (drop_one g) [g ..< g + m] st) = drop_count st"
proof (induction m)
  case 0
  then show ?case using assms by (intro exI [of _ "\<lambda>_. zero_hdr"]) (auto simp: fun_eq_iff)
next
  case (Suc m)
  let ?s = "fold (drop_one g) [g ..< g + m] st"
  obtain u where u: "HDR ?s = (\<lambda>b. if g \<le> b \<and> b < g + m then Hdr (u b) else HDR st b)"
      "\<forall>b. g \<le> b \<and> b < g + m \<longrightarrow> fresh_hdr b HBLKSIZE PTRFREE 0 (u b)" "index_wf ?s" "same_env st ?s"
      "GC_large_free_bytes ?s = GC_large_free_bytes st" "GC_hblkfreelist ?s = GC_hblkfreelist st"
      "GC_free_bytes ?s = GC_free_bytes st" "drop_count ?s = drop_count st"
    using Suc.IH by blast
  have "memory_ok ?s" using assms(1) u(4) by (simp add: same_env_def)
  moreover have "g + m = g \<Longrightarrow> is_Hdr (HDR ?s g)" using assms(3) by (simp add: u(1))
  ultimately obtain uh where d: "HDR (drop_one g (g + m) ?s) = (HDR ?s)(g + m := Hdr uh)" "fresh_hdr (g + m) HBLKSIZE PTRFREE 0 uh"
      "index_wf (drop_one g (g + m) ?s)" "same_env ?s (drop_one g (g + m) ?s)"
      "GC_large_free_bytes (drop_one g (g + m) ?s) = GC_large_free_bytes ?s"
      "GC_hblkfreelist (drop_one g (g + m) ?s) = GC_hblkfreelist ?s" "GC_free_bytes (drop_one g (g + m) ?s) = GC_free_bytes ?s"
      "drop_count (drop_one g (g + m) ?s) = drop_count ?s"
    using drop_one_ok [OF _ u(3), of "g + m" g] by metis
  have e: "fold (drop_one g) [g ..< g + Suc m] st = drop_one g (g + m) ?s" by simp
  show ?case
    unfolding e
    by (rule exI [of _ "u(g + m := uh)"])
      (use u d same_env_trans [OF u(4) d(4)] in \<open>auto simp: fun_eq_iff\<close>)
qed

lemma drop_block_inv:
  fixes st :: "'a gc_heap_scheme"
  assumes inv: "heap_inv L st" and mem: "memory_ok st" and Ln: "L n = xs @ g # ys"
  defines "st' \<equiv> drop_block g n st"
  shows "heap_inv (L(n := xs @ ys)) st'" "evolved st st'" "drop_count st' = drop_count st"
proof -
  have T: "tiled st" and fl: "fl_ok L {} st" and large: "GC_large_free_bytes st = card (free_cells st) * HBLKSIZE"
    using heap_invD [OF inv] by auto
  have gL: "g \<in> set (L n)" using Ln by simp
  obtain gh where g: "HDR st g = Hdr gh" "HBLK_IS_FREE gh" using free_at_obtain [OF fl_okD(6) [OF fl gL]] by blast
  note sg = tiled_free_size [OF T g]
  let ?N = "blocks_of gh"
  define st1 where "st1 = st\<lparr> GC_large_free_bytes := wsub (GC_large_free_bytes st) (?N * HBLKSIZE),
                    GC_bytes_dropped := wadd (GC_bytes_dropped st) (?N * HBLKSIZE) \<rparr>"
  define st2 where "st2 = GC_remove_from_fl g (Some n) st1"
  have st': "st' = fold (drop_one g) [g ..< g + ?N] st2"
    using g sg by (simp add: st'_def drop_block_def Let_def st2_def st1_def)
  have H1: "HDR st1 = HDR st" "index_wf st1 = index_wf st" by (simp_all add: st1_def)
  have fl1: "fl_ok L {} st1" using fl_ok_frame [OF fl, of st1 "{}"] at_cong [OF H1(1)] by (simp add: H1(1)) (simp add: st1_def)
  have wf1: "index_wf st1" using H1 tiledD(1) [OF T] by simp
  note R = GC_remove_from_fl_spec [OF wf1 fl1 Ln, of "Some n", folded st2_def]
  let ?L' = "L(n := xs @ ys)"
  have R: "fl_ok ?L' {g} st2" "hdr_sim st1 st2" "index_wf st2" "vars st2 = vars st1" using R by auto
  have T2: "tiled st2" "free_cells st2 = free_cells st" "used_at st2 = used_at st"
    using hdr_sim_tiled [OF R(2) _ R(3)] tiled_cong [OF H1] T by simp_all
  have env2: "same_env st st2" using vars_same_env [OF R(4)] by (simp add: same_env_def st1_def)
  have mem2: "memory_ok st2" using mem env2 by (simp add: same_env_def)
  obtain gh2 where g2: "HDR st2 g = Hdr gh2" "blocks_of gh2 = ?N" "HBLK_IS_FREE gh2"
    using hdr_sim_Hdr [OF R(2), of g gh] g H1 by metis
  have "is_Hdr (HDR st2 g)" using g2 by (simp add: is_Hdr_def)
  then obtain u where u: "HDR st' = (\<lambda>b. if g \<le> b \<and> b < g + ?N then Hdr (u b) else HDR st2 b)"
      "\<And>b. g \<le> b \<Longrightarrow> b < g + ?N \<Longrightarrow> fresh_hdr b HBLKSIZE PTRFREE 0 (u b)" "index_wf st'" "same_env st2 st'"
      "GC_large_free_bytes st' = GC_large_free_bytes st2" "GC_hblkfreelist st' = GC_hblkfreelist st2"
      "GC_free_bytes st' = GC_free_bytes st2" "drop_count st' = drop_count st2"
    using fold_drop_one [OF mem2 R(3), of g ?N] unfolding st' by blast
  have ub: "blocks_of (u b) = 1" "\<not> HBLK_IS_FREE (u b)" if "g \<le> b" "b < g + ?N" for b
    using u(2) [OF that] OBJ_SZ_TO_BLOCKS_multiple [of 1] by (simp_all add: fresh_hdr_def blocks_of_def HBLK_IS_FREE_def)
  have out: "core (HDR st' b) = core (HDR st2 b)" if "b < g \<or> g + ?N \<le> b" for b using that by (auto simp: u(1))
  have cut: "no_cut st2 g (g + ?N)" using no_cutI [OF tiledD(2) [OF T2(1)] g2(1) g2(1)] g2(2) by simp
  have T': "tiled st'"
  proof (rule tiled_replace [OF T2(1) u(3) tiled_Hdr_pos [OF T g(1)] tiledD(5) [OF T g(1)] out cut])
    show "tile_ok st' (g + ?N) h hh" if "HDR st' h = Hdr hh" "g \<le> h" "h < g + ?N" for h hh
      using that ub [of h] by (auto simp: u(1) tile_ok_def)
  qed (auto simp: u(1))
  have fc: "free_cells st' = free_cells st - {g ..< g + ?N}"
  proof -
    have inr: "b \<notin> free_cells st'" if "g \<le> b" "b < g + ?N" for b
      using free_cells_member [OF T', of b "u b" b] ub [OF that] that by (simp add: u(1))
    have cut': "no_cut st' g (g + ?N)"
    proof -
      define z where "z = g + (?N - 1)"
      have z: "g \<le> z" "z < g + ?N" "z + 1 = g + ?N" using sg(3) by (simp_all add: z_def)
      have l: "z + blocks_of (u z) = g + ?N" using ub [OF z(1,2)] z(3) by simp
      have "HDR st' g = Hdr (u g)" "HDR st' z = Hdr (u z)" using z sg(3) by (simp_all add: u(1))
      from no_cutI [OF tiledD(2) [OF T'] this z(1)] l show ?thesis by simp
    qed
    have "b \<in> free_cells st' \<longleftrightarrow> b \<in> free_cells st - {g ..< g + ?N}" for b
      using inr [of b] replace_cells [OF tiledD(2) [OF T2(1)] tiledD(2) [OF T'] out cut cut', of b] T2(2)
      by (cases "g \<le> b \<and> b < g + ?N") auto
    then show ?thesis by blast
  qed
  have sub: "{g ..< g + ?N} \<subseteq> free_cells st" using free_cells_member [OF T g(1)] g(2) by auto
  have "GC_large_free_bytes st' = wsub (card (free_cells st) * HBLKSIZE) (?N * HBLKSIZE)"
    using u(5) vars_eqD(3) [OF R(4)] large by (simp add: st1_def)
  then have lf: "GC_large_free_bytes st' = card (free_cells st') * HBLKSIZE"
    using remove_free_bytes [OF T sub fc] by simp
  have fl': "fl_ok ?L' {} st'"
  proof (rule fl_ok_frame [OF R(1)])
    have goff: "g \<notin> set (?L' m)" for m
      using fl_okD(3) [OF fl, of n] Ln fl_lists_apart [OF fl gL, of m] by auto
    fix b m assume b: "b \<in> set (?L' m)"
    show "b \<in> {g} \<Longrightarrow> b \<in> {}" using b goff by auto
    have "free_at st2 b" using fl_okD(6) [OF R(1) b] .
    then have "\<not> (g \<le> b \<and> b < g + ?N)"
      using layout_inside [OF tiledD(2) [OF T2(1)] g2(1), of b] g2 b goff by (cases "b = g") (auto simp: free_at_def)
    then show "HDR st' b = HDR st2 b" by (auto simp: u(1))
  next
    fix b assume b: "free_at st' b" "b \<notin> {}"
    then have "\<not> (g \<le> b \<and> b < g + ?N)" using ub [of b] by (auto simp: u(1) free_at_def)
    then have "HDR st' b = HDR st2 b" "b \<noteq> g" using sg(3) by (auto simp: u(1))
    then show "b \<notin> {g} \<and> free_at st2 b \<and> class_at st' b = class_at st2 b"
      using b core_at [of st' b st2] by auto
  qed (use u in auto)
  show "heap_inv ?L' st'" using T' fl' lf by (simp add: heap_inv_def)
  show "drop_count st' = drop_count st" using u(8) vars_eqD(7) [OF R(4)] by (simp add: st1_def)
  have ua: "used_at st' = (\<lambda>b. if g \<le> b \<and> b < g + ?N then Some (u b) else used_at st b)"
    using ub T2(3) by (auto simp: used_at_def u(1) fun_eq_iff)
  have un: "used_at st b = None" if "g \<le> b" "b < g + ?N" for b
    using layout_inside [OF tiledD(2) [OF T] g(1), of b] that g by (cases "b = g") (auto simp: used_at_def)
  show "evolved st st'"
    unfolding evolved_def
    using same_env_trans [OF env2 u(4)] fc ua un u(2) sub by auto
qed

end
