(* ===== verification/Heap_Allochblk.thy ===== *)
theory Heap_Allochblk
  imports Heap_Search
begin

text \<open>
  The search over one free list (\<open>allochblk_search\<close>), over all of them (\<open>GC_allochblk\<close>), and
  the theorems about the allocation of heap blocks.
\<close>

section \<open>The search loop\<close>

lemma skip_black_listed_spec:
  "l \<le> skip_black_listed bl eff e l \<and>
   (skip_black_listed bl eff e l \<le> e \<longrightarrow> GC_is_black_listed bl (skip_black_listed bl eff e l) eff = 0)"
proof (induction bl eff e l rule: skip_black_listed.induct)
  case (1 bl eff e l)
  let ?t = "GC_is_black_listed bl l eff"
  show ?case
  proof (cases "l \<le> e \<and> ?t \<noteq> 0")
    case True
    then have "l < ?t" using GC_is_black_listed_result [OF refl, of bl l eff] by auto
    moreover have "skip_black_listed bl eff e l = skip_black_listed bl eff e ?t"
      using True by (simp add: skip_black_listed.simps [of bl eff e l] Let_def)
    ultimately show ?thesis using "1.IH" [OF _ refl] True by auto
  next
    case False
    then show ?thesis by (auto simp: skip_black_listed.simps [of bl eff e l] Let_def)
  qed
qed

definition eff_size :: "8 word \<Rightarrow> nat \<Rightarrow> nat" where
  "eff_size flags s = (if flags AND IGNORE_OFF_PAGE \<noteq> 0 then HBLKSIZE else s)"

definition ignores_black_lists :: "nat \<Rightarrow> nat \<Rightarrow> bool" where
  "ignores_black_lists kind s \<longleftrightarrow> IS_UNCOLLECTABLE kind \<or> kind = PTRFREE \<and> s \<le> MAX_BLACK_LIST_ALLOC"

lemma search_nil [simp]: "allochblk_search s kind flags n ms 0 st = Some (0, st)"
  by (simp add: allochblk_search.simps)

lemma signed_small: "x < 2 ^ 31 \<Longrightarrow> signed_word x = int x"
  by (simp add: signed_word_def)

lemma search_step:
  fixes flags :: "8 word" and st :: "'a gc_heap_scheme"
  assumes h: "hbp \<noteq> 0" "HDR st hbp = Hdr hh" and s: "hb_sz hh < 2 ^ 31" "s < 2 ^ 31"
  defines "t \<equiv> skip_black_listed (GC_black_lists st) (eff_size flags s) (hbp + divHBLKSZ (hb_sz hh - s)) hbp"
    and "bl \<equiv> GC_black_list_spacing (GC_black_lists st)"
  shows "allochblk_search s kind flags n ms hbp st =
    (if hb_sz hh < s then allochblk_search s kind flags n ms (hb_next hh) st
     else if hb_sz hh \<noteq> s \<and> (\<not> ms \<or> next_is_better s hh st)
     then allochblk_search s kind flags n ms (hb_next hh) st
     else if ignores_black_lists kind s then Some (GC_get_first_part hbp s n st)
     else if hblk_addr t - hblk_addr hbp + s \<le> hb_sz hh
     then (if t \<noteq> hbp
           then (case GC_install_header t st of
                   (None, st1) \<Rightarrow> Some (GC_get_first_part hbp s n st1)
                 | (Some _, st1) \<Rightarrow> Some (GC_get_first_part t s n (GC_split_block hbp t n st1)))
           else Some (GC_get_first_part hbp s n st))
     else if s > bl \<and> hb_sz hh - s > bl
     then Some (GC_get_first_part hbp s n
            (st\<lparr> GC_large_alloc_warn_suppressed :=
              (if GC_large_alloc_warn_suppressed st + 1 \<ge> GC_large_alloc_warn_interval st then 0
               else GC_large_alloc_warn_suppressed st + 1) \<rparr>))
     else if hb_sz hh = hblk_addr t - hblk_addr hbp \<and> s = HBLKSIZE \<and> \<not> GC_find_leak st
     then (let c = wadd (drop_count st) 1; st1 = st\<lparr> drop_count := c \<rparr> in
           if c mod 4 = 0
           then (let st2 = drop_block hbp n st1 in
                 if hb_prev hh = 0 then allochblk_search s kind flags n ms (GC_hblkfreelist st2 n) st2
                 else allochblk_search s kind flags n ms (hb_next (hdr_at st2 (hb_prev hh))) st2)
           else allochblk_search s kind flags n ms (hb_next hh) st1)
     else allochblk_search s kind flags n ms (hb_next hh) st)"
proof -
  have e: "nat (int (hb_sz hh) - int s) = hb_sz hh - s" by simp
  have i: "int (hb_sz hh) - int d \<ge> int s \<longleftrightarrow> d + s \<le> hb_sz hh" for d by linarith
  have z: "int (hb_sz hh) - int d = 0 \<longleftrightarrow> hb_sz hh = d" for d by linarith
  have b: "int bl < int (hb_sz hh) - int s \<longleftrightarrow> bl < hb_sz hh - s" by linarith
  show ?thesis
    by (subst allochblk_search.simps) (simp only: h(1) h(2) signed_small [OF s(1)] signed_small [OF s(2)] if_False hdr_entry.case Let_def
        e i z b of_nat_less_iff of_nat_eq_iff ignores_black_lists_def [symmetric] eff_size_def [symmetric]
        t_def [symmetric] bl_def [symmetric])
qed

lemma heap_inv_cong:
  assumes "HDR st' = HDR st" "index_wf st' = index_wf st" "GC_hblkfreelist st' = GC_hblkfreelist st"
    "GC_free_bytes st' = GC_free_bytes st" "GC_large_free_bytes st' = GC_large_free_bytes st"
  shows "heap_inv L st' = heap_inv L st" "same_env st st' \<Longrightarrow> evolved st st'"
proof -
  have d: "dlist st' p xs q = dlist st p xs q" for p xs q by (rule dlist_HDR_cong [OF assms(1)])
  show "heap_inv L st' = heap_inv L st"
    using tiled_cong [OF assms(1,2)] at_cong [OF assms(1)] assms(3-5) d by (simp add: heap_inv_def fl_ok_def)
  show "same_env st st' \<Longrightarrow> evolved st st'"
    using tiled_cong [OF assms(1,2)] by (simp add: evolved_def)
qed

text \<open>Where the search may place an object.\<close>

definition placed :: "nat \<Rightarrow> 8 word \<Rightarrow> nat \<Rightarrow> hblk \<Rightarrow> black_lists \<Rightarrow> bool" where
  "placed kind flags s r bl \<longleftrightarrow> ignores_black_lists kind s \<or> GC_is_black_listed bl r (eff_size flags s) = 0
     \<or> GC_black_list_spacing bl < s"

definition search_result ::
    "nat \<Rightarrow> nat \<Rightarrow> 8 word \<Rightarrow> nat \<Rightarrow> 'a gc_heap_scheme \<Rightarrow> (hblk \<times> 'a gc_heap_scheme) option \<Rightarrow> bool" where
  "search_result k kind flags n st x \<longleftrightarrow>
     (\<exists>st' L'. x = Some (0, st') \<and> heap_inv L' st' \<and> evolved st st')
   \<or> (\<exists>r sb. x = Some (GC_get_first_part r (k * HBLKSIZE) n sb) \<and> ready n k r sb \<and> evolved st sb
        \<and> placed kind flags (k * HBLKSIZE) r (GC_black_lists st))"

lemma search_result_evolved:
  assumes "evolved st st1" "search_result k kind flags n st1 x"
  shows "search_result k kind flags n st x"
proof -
  have "GC_black_lists st1 = GC_black_lists st" using assms(1) by (simp add: evolved_def same_env_def)
  then show ?thesis using assms evolved_trans [OF assms(1)] unfolding search_result_def by metis
qed

lemma ready_at:
  assumes "heap_inv L st" "memory_ok st" "L n = xs @ g # ys" "k * HBLKSIZE \<le> size_at st g"
  shows "ready n k g st"
proof -
  note i = heap_invD [OF assms(1)]
  have f: "free_at st g" using fl_okD(6) [OF i(2), of g n] assms(3) by simp
  have "fl_ok L {g} st"
  proof (rule fl_ok_frame [OF i(2)])
  qed auto
  with f i assms show ?thesis unfolding ready_def by blast
qed

lemma search_spec:
  fixes st :: "'a gc_heap_scheme"
  assumes "heap_inv L st" "memory_ok st" "L n = xs @ ys" and k: "0 < k" "k * HBLKSIZE < 2 ^ 31"
  shows "search_result k kind flags n st
    (allochblk_search (k * HBLKSIZE) kind flags n ms (hd (ys @ [0])) st)"
  using assms(1-3)
proof (induction ys arbitrary: xs L st)
  case Nil
  then have "\<exists>st' L'. Some (0, st) = Some (0, st') \<and> heap_inv L' st' \<and> evolved st st'" by (intro exI [of _ st] exI [of _ L]) simp
  then show ?case unfolding search_result_def by simp
next
  case (Cons g ys)
  let ?s = "k * HBLKSIZE"
  have T: "tiled st" and fl: "fl_ok L {} st" using heap_invD [OF Cons.prems(1)] by auto
  have gL: "g \<in> set (L n)" using Cons.prems(3) by simp
  obtain hh where g: "HDR st g = Hdr hh" "HBLK_IS_FREE hh" using free_at_obtain [OF fl_okD(6) [OF fl gL]] by blast
  note sg = tiled_free_size [OF T g]
  have small: "hb_sz hh < 2 ^ 31" using tiledD(6) [OF T fl_okD(6) [OF fl gL]] g by simp
  have g0: "g \<noteq> 0" using fl_okD(5) [OF fl gL] .
  have links: "hb_next hh = hd (ys @ [0])" "hb_prev hh = last (0 # xs)"
    using dlist_next [of st 0 xs g ys 0] fl_okD(1) [OF fl, of n] Cons.prems(3) g by auto
  have IH: "search_result k kind flags n st (allochblk_search ?s kind flags n ms (hb_next hh) st')"
    if "heap_inv L st'" "evolved st st'" for st' :: "'a gc_heap_scheme"
  proof -
    have "memory_ok st'" using that(2) Cons.prems(2) by (simp add: evolved_def same_env_def)
    then have "search_result k kind flags n st' (allochblk_search ?s kind flags n ms (hd (ys @ [0])) st')"
      using Cons.IH [OF that(1), of "xs @ [g]"] Cons.prems(3) by simp
    then show ?thesis using search_result_evolved [OF that(2)] links(1) by simp
  qed
  have IH0: "search_result k kind flags n st (allochblk_search ?s kind flags n ms (hb_next hh) st)"
    using IH [OF Cons.prems(1)] by simp
  define bls where "bls = GC_black_lists st"
  define t where "t = skip_black_listed bls (eff_size flags ?s) (g + divHBLKSZ (hb_sz hh - ?s)) g"
  note sk = skip_black_listed_spec [of g bls "eff_size flags ?s" "g + divHBLKSZ (hb_sz hh - ?s)", folded t_def]
  note step = search_step [OF g0 g(1) small k(2), of kind flags n ms, folded bls_def, folded t_def]
  have found: "search_result k kind flags n st (Some (GC_get_first_part r ?s n sb))"
    if "ready n k r sb" "evolved st sb" "placed kind flags ?s r bls" for r and sb :: "'a gc_heap_scheme"
    using that unfolding search_result_def bls_def by (intro disjI2 exI [of _ r] exI [of _ sb]) simp
  have hd: "hd ((g # ys) @ [0]) = g" by simp
  show ?case
  proof (cases "hb_sz hh < ?s \<or> hb_sz hh \<noteq> ?s \<and> (\<not> ms \<or> next_is_better ?s hh st)")
    case True
    then have "allochblk_search ?s kind flags n ms g st = allochblk_search ?s kind flags n ms (hb_next hh) st"
      unfolding step by (simp only: if_P split: if_split) blast
    then show ?thesis unfolding hd using IH0 by (simp only:)
  next
    case False
    then have le: "?s \<le> hb_sz hh" and n1: "\<not> hb_sz hh < ?s" and n2: "\<not> (hb_sz hh \<noteq> ?s \<and> (\<not> ms \<or> next_is_better ?s hh st))"
      by linarith+
    note step = step [unfolded if_not_P [OF n1] if_not_P [OF n2]]
    have rdy: "ready n k g st" by (rule ready_at [OF Cons.prems]) (use g le in simp)
    show ?thesis
    proof (cases "ignores_black_lists kind ?s")
      case True
      then have "placed kind flags ?s g bls" by (simp add: placed_def)
      from found [OF rdy evolved_refl this] show ?thesis unfolding hd step if_P [OF True] .
    next
      case search: False
      note step = step [unfolded if_not_P [OF search]]
      have addr: "hblk_addr t - hblk_addr g = (t - g) * HBLKSIZE" by (simp add: hblk_addr_def diff_mult_distrib)
      have se: "divHBLKSZ (hb_sz hh - ?s) = blocks_of hh - k"
        unfolding sg(1) diff_mult_distrib [symmetric] by (simp add: divHBLKSZ_def)
      show ?thesis
      proof (cases "hblk_addr t - hblk_addr g + ?s \<le> hb_sz hh")
        case fits: True
        then have tk: "t + k \<le> g + blocks_of hh"
          unfolding addr sg(1) add_mult_distrib [symmetric] using sk by simp
        then have "GC_is_black_listed bls t (eff_size flags ?s) = 0" using sk se by simp
        then have pl: "placed kind flags ?s t bls" by (simp add: placed_def)
        show ?thesis
        proof (cases "t = g")
          case True
          then show ?thesis using found [OF rdy evolved_refl] pl unfolding hd step if_P [OF fits] by simp
        next
          case ne: False
          then have gt: "g < t" using sk by simp
          obtain th st1 where i: "GC_install_header t st = (Some th, st1)"
            using GC_install_header_ok [OF Cons.prems(2) tiledD(1) [OF T]] by blast
          have "t + k \<le> g + divHBLKSZ (size_at st g)" using tk g(1) sg(2) by simp
          note sp = split_ready [OF Cons.prems gt this k(1) i]
          from found [OF sp(1) same_use_evolved [OF sp(2)] pl]
          show ?thesis unfolding hd step if_P [OF fits] if_P [OF ne] i by simp
        qed
      next
        case nofit: False
        note step = step [unfolded if_not_P [OF nofit]]
        let ?big = "?s > GC_black_list_spacing bls \<and> hb_sz hh - ?s > GC_black_list_spacing bls"
        show ?thesis
        proof (cases ?big)
          case True
          let ?w = "if GC_large_alloc_warn_suppressed st + 1 \<ge> GC_large_alloc_warn_interval st then 0
               else GC_large_alloc_warn_suppressed st + 1"
          let ?st1 = "st\<lparr> GC_large_alloc_warn_suppressed := ?w \<rparr>"
          have inv1: "heap_inv L ?st1" "evolved st ?st1" "memory_ok ?st1"
            using heap_inv_cong(1) [of ?st1 st L] heap_inv_cong(2) [of ?st1 st] Cons.prems(1,2) by (auto simp: same_env_def)
          have "ready n k g ?st1" by (rule ready_at [OF inv1(1,3) Cons.prems(3)]) (use g le in \<open>simp add: size_at_def hdr_at_def\<close>)
          moreover have "placed kind flags ?s g bls" using True by (simp add: placed_def)
          ultimately show ?thesis using found inv1(2) unfolding hd step if_P [OF True] by blast
        next
          case nb: False
          let ?c = "wadd (drop_count st) 1"
          let ?st1 = "st\<lparr> drop_count := ?c \<rparr>"
          have inv1: "heap_inv L ?st1" "evolved st ?st1" "memory_ok ?st1"
            using heap_inv_cong(1) [of ?st1 st L] heap_inv_cong(2) [of ?st1 st] Cons.prems(1,2) by (auto simp: same_env_def)
          let ?drop = "hb_sz hh = hblk_addr t - hblk_addr g \<and> ?s = HBLKSIZE \<and> \<not> GC_find_leak st"
          let ?st2 = "drop_block g n ?st1" and ?L' = "L(n := xs @ ys)"
          have D: "heap_inv ?L' ?st2" "evolved st ?st2"
            using drop_block_inv [OF inv1(1,3) Cons.prems(3)] evolved_trans [OF inv1(2)] by auto
          have mem2: "memory_ok ?st2" using D(2) Cons.prems(2) by (simp add: evolved_def same_env_def)
          have L2: "?L' n = xs @ ys" by simp
          note fl2 = heap_invD(2) [OF D(1)]
          have nx: "(if hb_prev hh = 0 then GC_hblkfreelist ?st2 n else hb_next (hdr_at ?st2 (hb_prev hh))) = hd (ys @ [0])"
          proof (cases xs rule: rev_cases)
            case Nil
            then show ?thesis using links(2) fl_okD(2) [OF fl2, of n] by simp
          next
            case (snoc zs a)
            have "a \<noteq> 0" using fl_okD(5) [OF fl, of a n] Cons.prems(3) snoc by simp
            moreover have "hb_next (hdr_at ?st2 a) = hd (ys @ [0])"
              using dlist_next [of ?st2 0 zs a ys 0] fl_okD(1) [OF fl2, of n] snoc by simp
            ultimately show ?thesis using links(2) snoc by simp
          qed
          have IH2: "search_result k kind flags n st (allochblk_search ?s kind flags n ms (hd (ys @ [0])) ?st2)"
            by (rule search_result_evolved [OF D(2) Cons.IH [OF D(1) mem2 L2]])
          show ?thesis
          proof (cases "?drop \<and> ?c mod 4 = 0")
            case True
            then have d: ?drop and c: "?c mod 4 = 0" by blast+
            from nx IH2 show ?thesis unfolding hd step if_not_P [OF nb] Let_def if_P [OF d] if_P [OF c]
              by (cases "hb_prev hh = 0") (simp_all only: simp_thms if_True if_False)
          next
            case nd: False
            show ?thesis
            proof (cases ?drop)
              case d: True
              with nd have c: "\<not> ?c mod 4 = 0" by (simp only: simp_thms)
              from IH [OF inv1(1,2)] show ?thesis
                unfolding hd step if_not_P [OF nb] Let_def if_P [OF d] if_not_P [OF c] .
            next
              case d: False
              from IH0 show ?thesis unfolding hd step if_not_P [OF nb] if_not_P [OF d] .
            qed
          qed
        qed
      qed
    qed
  qed
qed

section \<open>The allocator\<close>

text \<open>
  The effect of an allocation that returned block \<open>r\<close>: the heap blocks of \<open>r\<close> were free and
  are no longer, \<open>r\<close> has a fresh header, every block in use is still there with its header,
  and any other new block in use is a dropped one.
\<close>

definition allocated :: "nat \<Rightarrow> nat \<Rightarrow> 8 word \<Rightarrow> hblk \<Rightarrow> 'a gc_heap_scheme \<Rightarrow> 'a gc_heap_scheme \<Rightarrow> bool" where
  "allocated sz kind flags r st st' \<longleftrightarrow> same_env st st'
     \<and> {r ..< r + OBJ_SZ_TO_BLOCKS sz} \<subseteq> free_cells st
     \<and> free_cells st' \<subseteq> free_cells st - {r ..< r + OBJ_SZ_TO_BLOCKS sz}
     \<and> (\<exists>hh. used_at st' r = Some hh \<and> fresh_hdr r sz kind flags hh)
     \<and> (\<forall>b hh. used_at st b = Some hh \<longrightarrow> used_at st' b = Some hh)
     \<and> (\<forall>b hh. used_at st' b = Some hh \<longrightarrow> b = r \<or> used_at st b = Some hh
          \<or> b \<in> free_cells st \<and> fresh_hdr b HBLKSIZE PTRFREE 0 hh)
     \<and> placed kind flags (OBJ_SZ_TO_BLOCKS sz * HBLKSIZE) r (GC_black_lists st)"

lemma evolved_allocated:
  assumes "evolved st st1" "allocated sz kind flags r st1 st'"
  shows "allocated sz kind flags r st st'"
proof -
  have "GC_black_lists st1 = GC_black_lists st" using assms(1) by (simp add: evolved_def same_env_def)
  with assms show ?thesis unfolding allocated_def evolved_def using same_env_trans by (smt (verit, best) subset_eq Diff_iff)
qed

lemma OBJ_SZ_TO_BLOCKS_bounds:
  assumes "0 < sz" "sz \<le> 2 ^ 31 - HBLKSIZE"
  shows "0 < OBJ_SZ_TO_BLOCKS sz" "OBJ_SZ_TO_BLOCKS sz * HBLKSIZE < 2 ^ 31" "obj_sz_to_blocks sz = OBJ_SZ_TO_BLOCKS sz"
proof -
  show "obj_sz_to_blocks sz = OBJ_SZ_TO_BLOCKS sz" using assms(2) by (intro obj_sz_to_blocks_eq) (simp add: HBLKSIZE_def)
  show "0 < OBJ_SZ_TO_BLOCKS sz" "OBJ_SZ_TO_BLOCKS sz * HBLKSIZE < 2 ^ 31"
    using assms by (simp_all add: OBJ_SZ_TO_BLOCKS_def divHBLKSZ_def HBLKSIZE_def)
qed

lemma GC_allochblk_nth_spec:
  fixes st :: "'a gc_heap_scheme"
  assumes inv: "heap_inv L st" and mem: "memory_ok st" and sz: "0 < sz" "sz \<le> 2 ^ 31 - HBLKSIZE"
    and fl: "flags AND FREE_BLK = 0"
  obtains r st' L' where "GC_allochblk_nth sz kind flags n ms st = Some (r, st')" "heap_inv L' st'"
    "if r = 0 then evolved st st' else allocated sz kind flags r st st'"
proof -
  note b = OBJ_SZ_TO_BLOCKS_bounds [OF sz]
  let ?k = "OBJ_SZ_TO_BLOCKS sz"
  define x where "x = allochblk_search (?k * HBLKSIZE) kind flags n ms (GC_hblkfreelist st n) st"
  have run: "GC_allochblk_nth sz kind flags n ms st = (case x of None \<Rightarrow> None | Some res \<Rightarrow> hand_out sz kind flags res)"
    by (simp add: GC_allochblk_nth_hand_out x_def b(3) mult.commute)
  have "search_result ?k kind flags n st x"
    using search_spec [OF inv mem _ b(1,2), of n "[]" "L n" kind flags ms] fl_okD(2) [OF heap_invD(2) [OF inv], of n]
    by (simp add: x_def)
  then consider (none) st' L' where "x = Some (0, st')" "heap_inv L' st'" "evolved st st'"
    | (found) r sb where "x = Some (GC_get_first_part r (?k * HBLKSIZE) n sb)" "ready n ?k r sb" "evolved st sb"
        "placed kind flags (?k * HBLKSIZE) r (GC_black_lists st)"
    unfolding search_result_def by blast
  then show thesis
  proof cases
    case none
    then show ?thesis using that [of 0 st' L'] run by (simp add: hand_out_def)
  next
    case found
    obtain L' st' uh where h: "hand_out sz kind flags (GC_get_first_part r (?k * HBLKSIZE) n sb) = Some (r, st')"
        "heap_inv L' st'" "same_env sb st'" "r \<noteq> 0" "{r ..< r + ?k} \<subseteq> free_cells sb"
        "free_cells st' = free_cells sb - {r ..< r + ?k}" "used_at st' = (used_at sb)(r \<mapsto> uh)" "fresh_hdr r sz kind flags uh"
      by (rule hand_out_spec [OF found(2) b(1) b(3) [symmetric] refl fl]) (rule that; assumption)
    have r: "used_at sb r = None"
    proof -
      have "free_at sb r" using found(2) by (simp add: ready_def)
      then show ?thesis by (auto simp: used_at_def free_at_def split: hdr_entry.splits)
    qed
    have "GC_black_lists sb = GC_black_lists st" using found(3) by (simp add: evolved_def same_env_def)
    then have "allocated sz kind flags r sb st'"
      using h r found(4) unfolding allocated_def by auto
    from that [of r st' L'] evolved_allocated [OF found(3) this] h(1,2,4) found(1) run show ?thesis by simp
  qed
qed

lemma allochblk_lists_spec:
  fixes st :: "'a gc_heap_scheme"
  assumes "heap_inv L st" "memory_ok st" "0 < sz" "sz \<le> 2 ^ 31 - HBLKSIZE" "flags AND FREE_BLK = 0"
  shows "\<exists>r st' L'. allochblk_lists sz kind flags is st = Some (r, st') \<and> heap_inv L' st'
    \<and> (if r = 0 then evolved st st' else allocated sz kind flags r st st')"
  using assms(1,2)
proof (induction "is" arbitrary: L st)
  case Nil
  then show ?case by (intro exI [of _ 0] exI [of _ st] exI [of _ L]) simp
next
  case (Cons i "is")
  obtain r st1 L1 where s: "GC_allochblk_nth sz kind flags i True st = Some (r, st1)" "heap_inv L1 st1"
      "if r = 0 then evolved st st1 else allocated sz kind flags r st st1"
    by (rule GC_allochblk_nth_spec [OF Cons.prems assms(3-5)]) (rule that; assumption)
  show ?case
  proof (cases "r = 0")
    case True
    then have e: "evolved st st1" using s(3) by simp
    have "memory_ok st1" using e Cons.prems(2) by (simp add: evolved_def same_env_def)
    from Cons.IH [OF s(2) this] obtain r' st' L' where
      r: "allochblk_lists sz kind flags is st1 = Some (r', st')" "heap_inv L' st'"
        "if r' = 0 then evolved st1 st' else allocated sz kind flags r' st1 st'" by blast
    have "if r' = 0 then evolved st st' else allocated sz kind flags r' st st'"
      using r(3) evolved_trans [OF e] evolved_allocated [OF e] by (auto split: if_splits)
    with r s(1) True show ?thesis by (intro exI [of _ r'] exI [of _ st'] exI [of _ L']) simp
  next
    case False
    with s show ?thesis by (intro exI [of _ r] exI [of _ st1] exI [of _ L1]) simp
  qed
qed

lemma GC_allochblk_run:
  fixes st :: "'a gc_heap_scheme"
  assumes "obj_sz_to_blocks sz = k" "k * HBLKSIZE < 2 ^ 31"
  shows "GC_allochblk sz kind flags st =
      (case GC_allochblk_nth sz kind flags (GC_hblk_fl_from_blocks k) False st of None \<Rightarrow> None
       | Some (r, st1) \<Rightarrow> if r \<noteq> 0 then Some (r, st1) else allochblk_lists sz kind flags
          [(if GC_hblk_fl_from_blocks k < UNIQUE_THRESHOLD then GC_hblk_fl_from_blocks k + 1
            else GC_hblk_fl_from_blocks k) ..< split_limit st1 + 1] st1)"
proof -
  have "signed_word (word32 (k * HBLKSIZE)) = int (k * HBLKSIZE)"
    using assms(2) signed_small [OF assms(2)] by (simp add: word32_def)
  then have "\<not> signed_word (word32 (k * HBLKSIZE)) < 0" by (simp only: of_nat_less_0_iff not_False_eq_True)
  then show ?thesis unfolding GC_allochblk_def Let_def assms(1) by (simp only: if_False)
qed

lemma GC_allochblk_spec:
  fixes st :: "'a gc_heap_scheme"
  assumes "heap_inv L st" "memory_ok st" "0 < sz" "sz \<le> 2 ^ 31 - HBLKSIZE" "flags AND FREE_BLK = 0"
  shows "\<exists>r st' L'. GC_allochblk sz kind flags st = Some (r, st') \<and> heap_inv L' st'
    \<and> (if r = 0 then evolved st st' else allocated sz kind flags r st st')"
proof -
  note b = OBJ_SZ_TO_BLOCKS_bounds [OF assms(3,4)]
  let ?k = "OBJ_SZ_TO_BLOCKS sz"
  note run = GC_allochblk_run [OF b(3,2), of kind flags st]
  obtain r st1 L1 where s: "GC_allochblk_nth sz kind flags (GC_hblk_fl_from_blocks ?k) False st = Some (r, st1)" "heap_inv L1 st1"
      "if r = 0 then evolved st st1 else allocated sz kind flags r st st1"
    by (rule GC_allochblk_nth_spec [OF assms]) (rule that; assumption)
  show ?thesis
  proof (cases "r = 0")
    case True
    then have e: "evolved st st1" using s(3) by simp
    have "memory_ok st1" using e assms(2) by (simp add: evolved_def same_env_def)
    from allochblk_lists_spec [OF s(2) this assms(3-5)] obtain r' st' L' where
      r: "GC_allochblk sz kind flags st = Some (r', st')" "heap_inv L' st'"
        "if r' = 0 then evolved st1 st' else allocated sz kind flags r' st1 st'"
      unfolding run s(1) using True by (simp del: upt_Suc) blast
    have "if r' = 0 then evolved st st' else allocated sz kind flags r' st st'"
      using r(3) evolved_trans [OF e] evolved_allocated [OF e] by (auto split: if_splits)
    with r show ?thesis by (intro exI [of _ r'] exI [of _ st'] exI [of _ L']) simp
  next
    case False
    with s run show ?thesis by (intro exI [of _ r] exI [of _ st1] exI [of _ L1]) simp
  qed
qed

section \<open>Completeness of the search\<close>

text \<open>
  For an object that may be placed anywhere, the search of one list leaves the heap alone
  until it finds a block, and it finds one whenever there is one.
\<close>

definition fits :: "nat \<Rightarrow> bool \<Rightarrow> 'a gc_heap_scheme \<Rightarrow> hblk \<Rightarrow> bool" where
  "fits s ms st g \<longleftrightarrow> size_at st g = s \<or> ms \<and> s \<le> size_at st g"

lemma search_ignoring:
  fixes st :: "'a gc_heap_scheme"
  assumes inv: "heap_inv L st" and k: "s < 2 ^ 31" and ign: "ignores_black_lists kind s" and L: "L n = xs @ ys"
  shows "if \<exists>g \<in> set ys. fits s ms st g
    then \<exists>r \<in> set ys. s \<le> size_at st r
      \<and> allochblk_search s kind flags n ms (hd (ys @ [0])) st = Some (GC_get_first_part r s n st)
    else allochblk_search s kind flags n ms (hd (ys @ [0])) st = Some (0, st)"
  using L
proof (induction ys arbitrary: xs)
  case Nil
  then show ?case by simp
next
  case (Cons g ys)
  have T: "tiled st" and fl: "fl_ok L {} st" using heap_invD [OF inv] by auto
  have small: "size_at st h < 2 ^ 31" if "h \<in> set (L n)" for h
    using tiledD(6) [OF T fl_okD(6) [OF fl that]] by simp
  have gL: "g \<in> set (L n)" using Cons.prems by simp
  obtain hh where g: "HDR st g = Hdr hh" using free_at_obtain [OF fl_okD(6) [OF fl gL]] by blast
  have sz: "hb_sz hh = size_at st g" using g by simp
  have sm: "hb_sz hh < 2 ^ 31" using small [OF gL] sz by simp
  have g0: "g \<noteq> 0" using fl_okD(5) [OF fl gL] .
  have nx: "hb_next hh = hd (ys @ [0])"
    using dlist_next [of st 0 xs g ys 0] fl_okD(1) [OF fl, of n] Cons.prems g by auto
  note IH = Cons.IH [of "xs @ [g]"]
  note step = search_step [OF g0 g sm k, of kind flags n ms]
  show ?case
  proof (cases "hb_sz hh < s \<or> hb_sz hh \<noteq> s \<and> (\<not> ms \<or> next_is_better s hh st)")
    case True
    have e: "allochblk_search s kind flags n ms (hd ((g # ys) @ [0])) st = allochblk_search s kind flags n ms (hd (ys @ [0])) st"
      using step nx True by (cases "hb_sz hh < s") (simp_all only: if_True if_False simp_thms append_Cons list.sel)
    have "(\<exists>h \<in> set (g # ys). fits s ms st h) \<longleftrightarrow> (\<exists>h \<in> set ys. fits s ms st h)"
    proof (cases "fits s ms st g")
      case f: True
      then have "next_is_better s hh st" "ms" using True sz by (auto simp: fits_def)
      then have h: "hb_next hh \<noteq> 0" "signed_word s \<le> signed_word (size_at st (hb_next hh))"
        by (auto simp: next_is_better_def Let_def size_at_def)
      then have ys: "hb_next hh \<in> set ys" using nx by (cases ys) auto
      then have "size_at st (hb_next hh) < 2 ^ 31" using small [of "hb_next hh"] Cons.prems by simp
      then have "s \<le> size_at st (hb_next hh)" using h(2) signed_small k by simp
      then show ?thesis using ys \<open>ms\<close> by (auto simp: fits_def)
    qed simp
    then show ?thesis unfolding e using IH Cons.prems by (auto split: if_splits)
  next
    case False
    then have f: "fits s ms st g" "s \<le> size_at st g" using sz by (auto simp: fits_def)
    have n1: "\<not> hb_sz hh < s" and n2: "\<not> (hb_sz hh \<noteq> s \<and> (\<not> ms \<or> next_is_better s hh st))" using False by blast+
    have "allochblk_search s kind flags n ms (hd ((g # ys) @ [0])) st = Some (GC_get_first_part g s n st)"
      unfolding append_Cons list.sel step if_not_P [OF n1] if_not_P [OF n2] if_P [OF ign] ..
    with f show ?thesis by auto
  qed
qed

lemma GC_allochblk_nth_ignoring:
  fixes st :: "'a gc_heap_scheme"
  assumes inv: "heap_inv L st" and mem: "memory_ok st" and sz: "0 < sz" "sz \<le> 2 ^ 31 - HBLKSIZE"
    and fl: "flags AND FREE_BLK = 0" and ign: "ignores_black_lists kind (OBJ_SZ_TO_BLOCKS sz * HBLKSIZE)"
  shows "if \<exists>g \<in> set (L n). fits (OBJ_SZ_TO_BLOCKS sz * HBLKSIZE) ms st g
    then \<exists>r st'. GC_allochblk_nth sz kind flags n ms st = Some (r, st') \<and> r \<noteq> 0
    else GC_allochblk_nth sz kind flags n ms st = Some (0, st)"
proof -
  note b = OBJ_SZ_TO_BLOCKS_bounds [OF sz]
  let ?k = "OBJ_SZ_TO_BLOCKS sz"
  have run: "GC_allochblk_nth sz kind flags n ms st =
     (case allochblk_search (?k * HBLKSIZE) kind flags n ms (hd (L n @ [0])) st of None \<Rightarrow> None | Some res \<Rightarrow> hand_out sz kind flags res)"
    using fl_okD(2) [OF heap_invD(2) [OF inv], of n] by (simp add: GC_allochblk_nth_hand_out b(3) mult.commute)
  have L: "L n = [] @ L n" by simp
  note S = search_ignoring [OF inv b(2) ign L, of ms flags]
  show ?thesis
  proof (cases "\<exists>g \<in> set (L n). fits (?k * HBLKSIZE) ms st g")
    case True
    with S obtain r where r: "r \<in> set (L n)" "?k * HBLKSIZE \<le> size_at st r"
      "allochblk_search (?k * HBLKSIZE) kind flags n ms (hd (L n @ [0])) st = Some (GC_get_first_part r (?k * HBLKSIZE) n st)"
      by auto
    obtain xs ys where "L n = xs @ r # ys" using r(1) by (auto simp: in_set_conv_decomp)
    from ready_at [OF inv mem this r(2)] have "ready n ?k r st" .
    from hand_out_spec [OF this b(1) b(3) [symmetric] refl fl] obtain st'
      where "hand_out sz kind flags (GC_get_first_part r (?k * HBLKSIZE) n st) = Some (r, st')" "r \<noteq> 0" by metis
    with True r(3) run show ?thesis by simp
  next
    case False
    then show ?thesis using S run by (simp add: hand_out_def)
  qed
qed

lemma GC_hblk_fl_from_blocks_mono: "a \<le> b \<Longrightarrow> GC_hblk_fl_from_blocks a \<le> GC_hblk_fl_from_blocks b"
  by (simp add: GC_hblk_fl_from_blocks_def gc_consts) linarith

lemma GC_hblk_fl_from_blocks_le: "GC_hblk_fl_from_blocks a \<le> N_HBLK_FLS"
  by (simp add: GC_hblk_fl_from_blocks_def gc_consts) linarith

lemma GC_hblk_fl_from_blocks_unique:
  "GC_hblk_fl_from_blocks a = GC_hblk_fl_from_blocks b \<Longrightarrow> GC_hblk_fl_from_blocks b < UNIQUE_THRESHOLD \<Longrightarrow> a = b"
  by (simp add: GC_hblk_fl_from_blocks_def gc_consts split: if_splits)

lemma allochblk_lists_ignoring:
  fixes st :: "'a gc_heap_scheme"
  assumes "heap_inv L st" "memory_ok st" "0 < sz" "sz \<le> 2 ^ 31 - HBLKSIZE" "flags AND FREE_BLK = 0"
    "ignores_black_lists kind (OBJ_SZ_TO_BLOCKS sz * HBLKSIZE)"
    "i \<in> set is" "g \<in> set (L i)" "OBJ_SZ_TO_BLOCKS sz * HBLKSIZE \<le> size_at st g"
  shows "\<exists>r st'. allochblk_lists sz kind flags is st = Some (r, st') \<and> r \<noteq> 0"
  using assms(7)
proof (induction "is")
  case (Cons j "is")
  note N = GC_allochblk_nth_ignoring [OF assms(1-6), of j True]
  show ?case
  proof (cases "\<exists>g \<in> set (L j). fits (OBJ_SZ_TO_BLOCKS sz * HBLKSIZE) True st g")
    case True
    with N show ?thesis by auto
  next
    case False
    then have "j \<noteq> i" using assms(8,9) by (auto simp: fits_def)
    then show ?thesis using Cons False N by simp
  qed
qed simp

lemma GC_allochblk_ignoring:
  fixes st :: "'a gc_heap_scheme"
  assumes "heap_inv L st" "memory_ok st" "0 < sz" "sz \<le> 2 ^ 31 - HBLKSIZE" "flags AND FREE_BLK = 0"
    "ignores_black_lists kind (OBJ_SZ_TO_BLOCKS sz * HBLKSIZE)"
    and g: "free_at st g" "OBJ_SZ_TO_BLOCKS sz * HBLKSIZE \<le> size_at st g" and lim: "split_limit st = N_HBLK_FLS"
  shows "\<exists>r st'. GC_allochblk sz kind flags st = Some (r, st') \<and> r \<noteq> 0"
proof -
  note b = OBJ_SZ_TO_BLOCKS_bounds [OF assms(3,4)]
  let ?k = "OBJ_SZ_TO_BLOCKS sz" and ?c = "GC_hblk_fl_from_blocks (OBJ_SZ_TO_BLOCKS sz)"
  let ?first = "if ?c < UNIQUE_THRESHOLD then ?c + 1 else ?c"
  have T: "tiled st" and fl: "fl_ok L {} st" using heap_invD [OF assms(1)] by auto
  obtain hh where hh: "HDR st g = Hdr hh" "HBLK_IS_FREE hh" using free_at_obtain [OF g(1)] by blast
  note sg = tiled_free_size [OF T hh]
  have gb: "size_at st g = blocks_of hh * HBLKSIZE" "class_at st g = GC_hblk_fl_from_blocks (blocks_of hh)"
    using sg hh(1) by (simp_all add: class_at_def)
  have gL: "g \<in> set (L (class_at st g))" using fl_okD(8) [OF fl g(1)] by simp
  note run = GC_allochblk_run [OF b(3,2), of kind flags st]
  note N = GC_allochblk_nth_ignoring [OF assms(1-6), of ?c False]
  show ?thesis
  proof (cases "\<exists>g \<in> set (L ?c). fits (?k * HBLKSIZE) False st g")
    case True
    with N run show ?thesis by auto
  next
    case False
    have le: "?k \<le> blocks_of hh" using g(2) gb(1) by simp
    have "class_at st g \<ge> ?first"
    proof (cases "class_at st g = ?c")
      case True
      then have "\<not> ?c < UNIQUE_THRESHOLD"
        using False gL GC_hblk_fl_from_blocks_unique [of "blocks_of hh" ?k] gb by (auto simp: fits_def)
      then show ?thesis using True by simp
    next
      case ne: False
      then show ?thesis using GC_hblk_fl_from_blocks_mono [OF le] gb(2) by simp
    qed
    then have "class_at st g \<in> set [?first ..< split_limit st + 1]"
      using GC_hblk_fl_from_blocks_le [of "blocks_of hh"] gb(2) lim by (simp del: upt_Suc add: less_Suc_eq_le)
    from allochblk_lists_ignoring [OF assms(1-6) this gL g(2)] False N run show ?thesis by (simp del: upt_Suc)
  qed
qed

section \<open>Sizes that wrap around\<close>

lemma obj_sz_to_blocks_wraps: "2 ^ 32 - HBLKSIZE < sz \<Longrightarrow> sz < 2 ^ 32 \<Longrightarrow> obj_sz_to_blocks sz = 0"
  by (simp add: obj_sz_to_blocks_def HBLKSIZE_def wadd_def word32_def divHBLKSZ_def mod_if)

lemma GC_get_first_part_0:
  fixes st :: "'a gc_heap_scheme"
  assumes inv: "heap_inv L st" and mem: "memory_ok st" and r: "L n = xs @ r # ys"
  obtains st' where "GC_get_first_part r 0 n st = (r, st')" "memory_ok st'" "index_wf st'" "is_Hdr (HDR st' r)"
proof -
  have T: "tiled st" and fl: "fl_ok L {} st" using heap_invD [OF inv] by auto
  have rf: "free_at st r" using fl_okD(6) [OF fl, of r n] r by simp
  obtain hh where hh: "HDR st r = Hdr hh" "HBLK_IS_FREE hh" using free_at_obtain [OF rf] by blast
  have pos: "size_at st r \<noteq> 0" using tiled_free_size [OF T hh] hh(1) by simp
  let ?st1 = "GC_remove_from_fl r (Some n) st"
  note R = GC_remove_from_fl_spec [OF tiledD(1) [OF T] fl r, of "Some n"]
  have wf1: "index_wf ?st1" and v1: "vars ?st1 = vars st" using R by auto
  have mem1: "memory_ok ?st1" using mem vars_eqD(1) [OF v1] by simp
  obtain th st2 where i: "GC_install_header r ?st1 = (Some th, st2)" "HDR st2 = (HDR ?st1)(r := Hdr th)" "index_wf st2"
      "vars st2 = vars ?st1"
    using GC_install_header_ok [OF mem1 wf1, of r] by metis
  let ?st3 = "upd_hdr r (\<lambda>rh. rh\<lparr> hb_sz := size_at st r, hb_flags := 0 \<rparr>) st2"
  have run: "GC_get_first_part r 0 n st = (r, GC_add_to_fl r ?st3)"
    using i(1) pos by (simp add: GC_get_first_part_def Let_def size_at_def divHBLKSZ_def)
  have h3: "is_Hdr (HDR ?st3 r)" using i(2,3) by (simp add: HDR_upd_hdr is_Hdr_def)
  have m3: "memory_ok ?st3" using mem1 vars_eqD(1) [OF i(4)] by simp
  have "memory_ok (GC_add_to_fl r ?st3)" using m3 by (simp add: GC_add_to_fl_def Let_def INCR_FREE_BYTES_def)
  moreover have "index_wf (GC_add_to_fl r ?st3)" using i(3) by (simp add: GC_add_to_fl_def Let_def INCR_FREE_BYTES_def)
  moreover have "is_Hdr (HDR (GC_add_to_fl r ?st3) r)"
    using h3 i(3) by (simp add: GC_add_to_fl_def Let_def INCR_FREE_BYTES_def)
  ultimately show thesis using that run by blast
qed

lemma GC_allochblk_nth_wraps:
  fixes st :: "'a gc_heap_scheme"
  assumes inv: "heap_inv L st" and mem: "memory_ok st" and sz: "2 ^ 32 - HBLKSIZE < sz" "sz < 2 ^ 32"
    and ign: "ignores_black_lists kind 0"
  shows "if L n \<noteq> [] \<and> ms
    then \<exists>r st'. GC_allochblk_nth sz kind flags n ms st = Some (r, st') \<and> r \<in> set (L n)
    else GC_allochblk_nth sz kind flags n ms st = Some (0, st)"
proof -
  note z = obj_sz_to_blocks_wraps [OF sz]
  have fl: "fl_ok L {} st" and T: "tiled st" using heap_invD [OF inv] by auto
  have run: "GC_allochblk_nth sz kind flags n ms st =
     (case allochblk_search 0 kind flags n ms (hd (L n @ [0])) st of None \<Rightarrow> None | Some res \<Rightarrow> hand_out sz kind flags res)"
    using fl_okD(2) [OF fl, of n] by (simp add: GC_allochblk_nth_hand_out z)
  have L: "L n = [] @ L n" and z2: "(0::nat) < 2 ^ 31" by simp_all
  note S = search_ignoring [OF inv z2 ign L, of ms flags]
  have pos: "size_at st g \<noteq> 0" if gL: "g \<in> set (L n)" for g
  proof -
    obtain hh where hh: "HDR st g = Hdr hh" "HBLK_IS_FREE hh" using free_at_obtain [OF fl_okD(6) [OF fl gL]] by blast
    show ?thesis using tiled_free_size [OF T hh] hh(1) by simp
  qed
  show ?thesis
  proof (cases "L n \<noteq> [] \<and> ms")
    case True
    then have "\<exists>g \<in> set (L n). fits 0 ms st g" by (cases "L n") (auto simp: fits_def)
    with S obtain r where r: "r \<in> set (L n)"
      "allochblk_search 0 kind flags n ms (hd (L n @ [0])) st = Some (GC_get_first_part r 0 n st)" by auto
    obtain xs ys where xs: "L n = xs @ r # ys" using r(1) by (auto simp: in_set_conv_decomp)
    obtain st1 where g: "GC_get_first_part r 0 n st = (r, st1)" "memory_ok st1" "index_wf st1" "is_Hdr (HDR st1 r)"
      by (rule GC_get_first_part_0 [OF inv mem xs])
    have r0: "r \<noteq> 0" using fl_okD(5) [OF fl r(1)] .
    obtain st2 where i: "GC_install_counts r 0 st1 = (True, st2)" "HDR st2 = HDR st1" "index_wf st2" "vars st2 = vars st1"
    proof -
      have e: "(\<lambda>b. if r < b \<and> b < r + 0 then count_entry r b else HDR st1 b) = HDR st1" by (rule ext) auto
      show thesis by (rule GC_install_counts_ok [OF g(2,3), of r 0, unfolded e mult_zero_left]) (rule that; assumption)
    qed
    have mem2: "memory_ok st2" using g(2) vars_eqD(1) [OF i(4)] by simp
    obtain hh where hh: "HDR st2 r = Hdr hh" using g(4) i(2) by (auto simp: is_Hdr_def split: hdr_entry.splits)
    obtain st3 where s: "setup_header r sz kind flags st2 = (True, st3)"
      using setup_header_ok [OF mem2 i(3) hh, of sz kind flags] by metis
    have "\<exists>st'. hand_out sz kind flags (GC_get_first_part r 0 n st) = Some (r, st')"
      using g(1) r0 i(1) s z by (simp add: hand_out_def) 
    then show ?thesis using True r run by auto
  next
    case False
    then have "\<not> (\<exists>g \<in> set (L n). fits 0 ms st g)" using pos by (auto simp: fits_def)
    then show ?thesis using S run False by (auto simp: hand_out_def)
  qed
qed

lemma allochblk_lists_wraps:
  fixes st :: "'a gc_heap_scheme"
  assumes "heap_inv L st" "memory_ok st" "2 ^ 32 - HBLKSIZE < sz" "sz < 2 ^ 32" "ignores_black_lists kind 0"
    "i \<in> set is" "L i \<noteq> []"
  shows "\<exists>r st' n. allochblk_lists sz kind flags is st = Some (r, st') \<and> r \<in> set (L n)"
  using assms(6)
proof (induction "is")
  case (Cons j "is")
  note N = GC_allochblk_nth_wraps [OF assms(1-5), of j True flags]
  have nz: "r \<noteq> 0" if "r \<in> set (L n)" for r n using fl_okD(5) [OF heap_invD(2) [OF assms(1)] that] .
  show ?case
  proof (cases "L j = []")
    case True
    with assms(7) have "i \<in> set is" using Cons.prems by auto
    from Cons.IH [OF this] True N show ?thesis by simp
  next
    case False
    with N nz show ?thesis by fastforce
  qed
qed simp

section \<open>Properties\<close>

text \<open>
  C5. Allocation of heap blocks is sound. In a heap whose tiles and free lists are in order,
  with memory available for headers, \<open>GC_allochblk\<close> returns. The heap is in order again. If the
  result is not 0, the blocks of the object were free and are free no more, they carry a new
  header with the requested size, kind and flags and no mark bits, no block in use changed its
  header, and the block is not black listed unless the object need not care or is larger than
  the distance between black listed blocks. Other blocks that are newly in use were dropped
  by the search as single pointer-free blocks.
\<close>

theorem GC_allochblk_sound:
  fixes st :: "'a gc_heap_scheme"
  assumes "heap_inv L st" "scratch_ok st = (\<lambda>_. True)" "0 < sz" "sz \<le> 2 ^ 31 - HBLKSIZE" "flags AND FREE_BLK = 0"
  defines "cells \<equiv> \<lambda>r. {r ..< r + OBJ_SZ_TO_BLOCKS sz}"
  shows "\<exists>r st' L'. GC_allochblk sz kind flags st = Some (r, st') \<and> heap_inv L' st'
    \<and> (\<forall>b hh. used_at st b = Some hh \<longrightarrow> used_at st' b = Some hh)
    \<and> (\<forall>b hh. used_at st' b = Some hh \<longrightarrow> used_at st b = Some hh \<or> (r \<noteq> 0 \<and> b = r)
         \<or> b \<in> free_cells st \<and> fresh_hdr b HBLKSIZE PTRFREE 0 hh)
    \<and> (r \<noteq> 0 \<longrightarrow> cells r \<subseteq> free_cells st \<and> free_cells st' \<subseteq> free_cells st - cells r
         \<and> (\<exists>hh. used_at st' r = Some hh \<and> fresh_hdr r sz kind flags hh)
         \<and> placed kind flags (OBJ_SZ_TO_BLOCKS sz * HBLKSIZE) r (GC_black_lists st))"
proof -
  obtain r st' L' where r: "GC_allochblk sz kind flags st = Some (r, st')" "heap_inv L' st'"
      "if r = 0 then evolved st st' else allocated sz kind flags r st st'"
    using GC_allochblk_spec [OF assms(1-5)] by blast
  show ?thesis
  proof (cases "r = 0")
    case True
    with r(3) show ?thesis
      by (intro exI [of _ r] exI [of _ st'] exI [of _ L']) (simp add: r(1,2) evolved_def)
  next
    case False
    with r(3) have a: "allocated sz kind flags r st st'" by simp
    show ?thesis
      by (intro exI [of _ r] exI [of _ st'] exI [of _ L'] conjI)
        (use r(1,2) a False in \<open>auto simp: allocated_def cells_def\<close>)
  qed
qed

theorem GC_allochblk_sound_witness:
  "\<exists>r st' L'. GC_allochblk 8192 PTRFREE 0 sample_heap = Some (r, st') \<and> heap_inv L' st'
    \<and> (\<forall>b hh. used_at sample_heap b = Some hh \<longrightarrow> used_at st' b = Some hh)
    \<and> (r \<noteq> 0 \<longrightarrow> {r, r + 1} \<subseteq> {8, 9, 10, 11})"
proof -
  have m: "scratch_ok sample_heap = (\<lambda>_. True)" by (simp add: sample_heap_def)
  have c: "OBJ_SZ_TO_BLOCKS 8192 = 2" by (simp add: OBJ_SZ_TO_BLOCKS_def HBLKSIZE_def divHBLKSZ_def)
  have a: "{r ..< r + 2} = {r, r + 1}" for r :: nat by auto
  have "(8192::nat) \<le> 2 ^ 31 - HBLKSIZE" by (simp add: HBLKSIZE_def)
  from GC_allochblk_sound [OF heap_inv_sample m _ this, where kind = PTRFREE and flags = 0]
  show ?thesis unfolding c a free_cells_sample by (simp only: bit.conj_zero_left zero_less_numeral simp_thms) metis
qed





end
