(* ===== verification/Mark_From.thy ===== *)
theory Mark_From
  imports Heap_Blocks
begin

text \<open>
  The marker (\<^verbatim>\<open>bdwgc/mark.c\<close> and the macros of \<^verbatim>\<open>gc_pmark.h\<close>): recognising pointers, setting
  mark bits, the mark stack with its overflow, and \<open>GC_mark_from\<close>, which marks from the
  entries of the stack until it is empty or the credit of one call is used up.

  Addresses are multiples of \<open>ALIGNMENT = sizeof(word) = 4\<close> wherever memory is read, so ranges
  to be scanned are given by word indices, their upper end exclusive.
\<close>

section \<open>State\<close>

record mse =
  mse_start :: addr
  mse_descr :: nat

datatype mark_state_t =
    MS_NONE | MS_PUSH_RESCUERS | MS_PUSH_UNCOLLECTABLE | MS_ROOTS_PUSHED | MS_PARTIALLY_INVALID | MS_INVALID

text \<open>
  \<open>GC_mark_stack\<close> lists the entries from \<open>GC_mark_stack_top\<close> down to the first one, and
  \<open>GC_mark_stack_limit\<close> is \<open>GC_mark_stack_size\<close> entries from the bottom.
\<close>

record gc_marker = gc_heap +
  GC_mark_stack :: "mse list"
  GC_mark_stack_size :: nat
  GC_mark_state :: mark_state_t
  GC_mark_stack_too_small :: bool
  GC_objects_are_marked :: bool
  scan_ptr :: hblk
  GC_n_rescuing_pages :: nat
  GC_least_plausible_heap_addr :: addr
  GC_greatest_plausible_heap_addr :: addr
  GC_all_interior_pointers :: bool

definition INITIAL_MARK_STACK_SIZE :: nat where
  [gc_consts]: "INITIAL_MARK_STACK_SIZE = HBLKSIZE"

definition GC_MARK_STACK_DISCARDS :: nat where
  [gc_consts]: "GC_MARK_STACK_DISCARDS = INITIAL_MARK_STACK_SIZE div 8"

definition GC_DS_LENGTH :: nat where [gc_consts]: "GC_DS_LENGTH = 0"
definition GC_DS_BITMAP :: nat where [gc_consts]: "GC_DS_BITMAP = 1"
definition GC_DS_PROC :: nat where [gc_consts]: "GC_DS_PROC = 2"
definition GC_DS_PER_OBJECT :: nat where [gc_consts]: "GC_DS_PER_OBJECT = 3"
definition GC_INDIR_PER_OBJ_BIAS :: nat where [gc_consts]: "GC_INDIR_PER_OBJ_BIAS = 16"
definition GC_PROC_BYTES :: nat where [gc_consts]: "GC_PROC_BYTES = 100"
definition SPLIT_RANGE_WORDS :: nat where [gc_consts]: "SPLIT_RANGE_WORDS = 128"

section \<open>Pushing an object\<close>

text \<open>False pointers, as the configuration of interior pointers says.\<close>

definition GC_ADD_TO_BLACK_LIST_NORMAL :: "addr \<Rightarrow> 'a gc_marker_scheme \<Rightarrow> 'a gc_marker_scheme option" where
  "GC_ADD_TO_BLACK_LIST_NORMAL p st =
     (let hdr_nil = (\<lambda>q. HDR st (q div HBLKSIZE) = Fwd 0) in
      if GC_all_interior_pointers st
      then Some (st\<lparr> GC_black_lists := GC_add_to_black_list_stack hdr_nil p (GC_black_lists st) \<rparr>)
      else case GC_add_to_black_list_normal (GC_modws_valid_offsets st) hdr_nil p (GC_black_lists st) of
        None \<Rightarrow> None
      | Some b \<Rightarrow> Some (st\<lparr> GC_black_lists := b \<rparr>))"

text \<open>
  On overflow the topmost entries are given up; the result is what stays below the entry
  that is about to be written.
\<close>

definition GC_signal_mark_stack_overflow ::
    "mse list \<Rightarrow> 'a gc_marker_scheme \<Rightarrow> mse list \<times> 'a gc_marker_scheme" where
  "GC_signal_mark_stack_overflow stack st =
     (drop GC_MARK_STACK_DISCARDS stack, st\<lparr> GC_mark_state := MS_INVALID, GC_mark_stack_too_small := True \<rparr>)"

definition PUSH_OBJ ::
    "addr \<Rightarrow> hdr \<Rightarrow> nat \<Rightarrow> mse list \<Rightarrow> 'a gc_marker_scheme \<Rightarrow> mse list \<times> 'a gc_marker_scheme" where
  "PUSH_OBJ obj hhdr limit stack st =
     (let descr = hb_descr hhdr in
      if descr \<noteq> 0
      then (let (below, st1) = (if length stack \<ge> limit then GC_signal_mark_stack_overflow stack st else (stack, st)) in
            (\<lparr> mse_start = obj, mse_descr = descr \<rparr> # below, st1))
      else (stack, st))"

text \<open>
  The object a pointer leads to, from the header of its block: the index of its mark bit and
  its first byte. \<open>Some None\<close> is a displacement that is not valid, \<open>None\<close> a block without a map.
\<close>

definition object_start ::
    "bool \<Rightarrow> 'a gc_marker_scheme \<Rightarrow> hdr \<Rightarrow> addr \<Rightarrow> (nat \<times> addr) option option" where
  "object_start do_offset_check st hhdr current =
     (case Option.bind (hb_map hhdr) (GC_obj_map st) of
        None \<Rightarrow> None
      | Some obj_map \<Rightarrow>
          (let displ = current mod HBLKSIZE;
               gran_displ = BYTES_TO_GRANULES displ;
               gran_offset = obj_map ! gran_displ;
               byte_offset = displ mod GRANULE_BYTES in
           Some
             (if gran_offset \<noteq> 0 \<or> byte_offset \<noteq> 0
              then (if hb_large_block hhdr
                    then (let base = hblk_addr (hb_block hhdr); obj_displ = current - base in
                          if obj_displ = displ \<and> do_offset_check \<and> \<not> GC_valid_offsets st obj_displ then None
                          else Some (0, base))
                    else (let obj_displ = gran_offset * GRANULE_BYTES + byte_offset in
                          if do_offset_check \<and> \<not> GC_valid_offsets st obj_displ then None
                          else Some (gran_displ - gran_offset, current - obj_displ)))
              else Some (gran_displ, current))))"

definition PUSH_CONTENTS_HDR ::
    "addr \<Rightarrow> nat \<Rightarrow> hblk \<Rightarrow> bool \<Rightarrow> mse list \<Rightarrow> 'a gc_marker_scheme \<Rightarrow> (mse list \<times> 'a gc_marker_scheme) option" where
  "PUSH_CONTENTS_HDR current limit h do_offset_check stack st =
     (case HDR st h of
        Fwd _ \<Rightarrow> None
      | Hdr hhdr \<Rightarrow>
          (case object_start do_offset_check st hhdr current of
             None \<Rightarrow> None
           | Some None \<Rightarrow>
               (case GC_ADD_TO_BLACK_LIST_NORMAL current st of None \<Rightarrow> None | Some st1 \<Rightarrow> Some (stack, st1))
           | Some (Some (bit_no, base)) \<Rightarrow>
               (if mark_bit_from_hdr hhdr bit_no then Some (stack, st)
                else Some (PUSH_OBJ base hhdr limit stack
                       (upd_hdr h (\<lambda>hh. (set_mark_bit_from_hdr hh bit_no)
                          \<lparr> hb_n_marks := wadd (hb_n_marks hh) 1 \<rparr>) st)))))"

text \<open>
  The header cache holds for each slot the number of a block (0 if it is empty). \<open>HC_GET_HDR\<close>
  answers the block of the header, 0 for none.
\<close>

type_synonym hdr_cache = "nat \<Rightarrow> hblk"

definition HDR_CACHE_SIZE :: nat where
  "HDR_CACHE_SIZE = 8"

definition HC_GET_HDR ::
    "addr \<Rightarrow> hdr_cache \<Rightarrow> 'a gc_marker_scheme \<Rightarrow> (hblk \<times> hdr_cache \<times> 'a gc_marker_scheme) option" where
  "HC_GET_HDR p hc st =
     (let b = p div HBLKSIZE; slot = b mod HDR_CACHE_SIZE in
      if hc slot = b then Some (b, hc, st)
      else case GC_header_cache_miss (GC_all_interior_pointers st) st p of
        None \<Rightarrow> None
      | Some r \<Rightarrow>
          (case (if cm_black r then GC_ADD_TO_BLACK_LIST_NORMAL p st else Some st) of
             None \<Rightarrow> None
           | Some st1 \<Rightarrow> Some (cm_block r, if cm_cached r then hc(slot := b) else hc, st1)))"

type_synonym 'a marking = "mse list \<times> hdr_cache \<times> 'a gc_marker_scheme"

definition PUSH_CONTENTS :: "addr \<Rightarrow> nat \<Rightarrow> 'a marking \<Rightarrow> 'a marking option" where
  "PUSH_CONTENTS current limit s =
     (case s of (stack, hc, st) \<Rightarrow>
        (case HC_GET_HDR current hc st of
           None \<Rightarrow> None
         | Some (h, hc1, st1) \<Rightarrow>
             (if h = 0 then Some (stack, hc1, st1)
              else case PUSH_CONTENTS_HDR current limit h True stack st1 of
                None \<Rightarrow> None
              | Some (stack', st') \<Rightarrow> Some (stack', hc1, st'))))"

section \<open>Scanning\<close>

definition plausible :: "'a gc_marker_scheme \<Rightarrow> addr \<Rightarrow> bool" where
  "plausible st p \<longleftrightarrow> GC_least_plausible_heap_addr st \<le> p \<and> p < GC_greatest_plausible_heap_addr st"

definition mem_word :: "'a gc_heap_scheme \<Rightarrow> nat \<Rightarrow> addr" where
  "mem_word st w = unat (GC_mem st w)"

text \<open>
  The first loop of a scan goes down from the end of the range to the last word that looks
  like a pointer (the source unrolls it once). The words above it hold no pointers.
\<close>

fun find_deferred :: "'a gc_marker_scheme \<Rightarrow> nat \<Rightarrow> nat \<Rightarrow> (addr \<times> nat) option" where
  "find_deferred st p l =
     (let deferred = mem_word st (l - 1); l' = l - 1 in
      if plausible st deferred then Some (deferred, l')
      else if p \<ge> l' then None
      else find_deferred st p l')"

declare find_deferred.simps [simp del]

function scan_up :: "nat \<Rightarrow> nat \<Rightarrow> nat \<Rightarrow> 'a marking \<Rightarrow> 'a marking option" where
  "scan_up p l limit s =
     (if p < l
      then (let current = mem_word (snd (snd s)) p in
            if plausible (snd (snd s)) current
            then (case PUSH_CONTENTS current limit s of None \<Rightarrow> None | Some s' \<Rightarrow> scan_up (p + 1) l limit s')
            else scan_up (p + 1) l limit s)
      else Some s)"
  by pat_completeness auto
termination
  by (relation "measure (\<lambda>(p, l, limit, s). l - p)") auto

declare scan_up.simps [simp del]

definition scan_range :: "nat \<Rightarrow> nat \<Rightarrow> nat \<Rightarrow> 'a marking \<Rightarrow> 'a marking option" where
  "scan_range p l limit s =
     (case find_deferred (snd (snd s)) p l of
        None \<Rightarrow> Some s
      | Some (deferred, l') \<Rightarrow>
          (case scan_up p l' limit s of None \<Rightarrow> None | Some s' \<Rightarrow> PUSH_CONTENTS deferred limit s'))"

lemma shifted_out: "32 \<le> i \<Longrightarrow> word32 (descr * 2 ^ i) = 0"
proof -
  assume "32 \<le> i"
  then have "(2::nat) ^ i = 2 ^ 32 * 2 ^ (i - 32)" by (metis le_add_diff_inverse power_add)
  then have "descr * 2 ^ i = 2 ^ 32 * (descr * 2 ^ (i - 32))" by simp
  then show ?thesis unfolding word32_def by (simp only: mod_mult_self1_is_0)
qed

text \<open>
  The loop over a bitmap descriptor, most significant bit first. After \<open>i\<close> rounds the source
  has shifted \<open>descr\<close> left \<open>i\<close> times and advanced \<open>current_p\<close> by \<open>i\<close> words.
\<close>

function scan_bitmap :: "nat \<Rightarrow> nat \<Rightarrow> nat \<Rightarrow> nat \<Rightarrow> 'a marking \<Rightarrow> 'a marking option" where
  "scan_bitmap descr i p limit s =
     (let d = word32 (descr * 2 ^ i) in
      if d \<noteq> 0
      then (let current = mem_word (snd (snd s)) (p + i) in
            if signed_word d < 0 \<and> plausible (snd (snd s)) current
            then (case PUSH_CONTENTS current limit s of
                    None \<Rightarrow> None | Some s' \<Rightarrow> scan_bitmap descr (i + 1) p limit s')
            else scan_bitmap descr (i + 1) p limit s)
      else Some s)"
  by pat_completeness auto
termination
proof (relation "measure (\<lambda>(descr, i, p, limit, s). 32 - i)", goal_cases)
  case (2 descr i p limit s d)
  then show ?case using shifted_out [of i descr] by (cases "32 \<le> i") auto
next
  case (3 descr i p limit s d)
  then show ?case using shifted_out [of i descr] by (cases "32 \<le> i") auto
qed simp

declare scan_bitmap.simps [simp del]

section \<open>Marking from the stack\<close>

text \<open>A client's mark procedure: the index of the procedure, the object, the limit and the environment.\<close>

type_synonym 'a mark_procs =
  "nat \<Rightarrow> addr \<Rightarrow> nat \<Rightarrow> nat \<Rightarrow> mse list \<Rightarrow> 'a gc_marker_scheme \<Rightarrow> mse list \<times> 'a gc_marker_scheme"

text \<open>
  One object, \<open>current_p\<close> with its descriptor, from the label \<open>retry\<close> on. Its entry is no longer
  part of the stack. The result is the object with its new descriptor if the source goes
  back to \<open>retry\<close>, the credit used, and the state.
\<close>

definition mark_object ::
    "'a mark_procs \<Rightarrow> nat \<Rightarrow> addr \<Rightarrow> nat \<Rightarrow> 'a marking \<Rightarrow> ((addr \<times> nat) option \<times> nat \<times> 'a marking) option" where
  "mark_object procs limit current_p descr s =
     (case s of (stack, hc, st) \<Rightarrow>
        (if descr \<ge> 4 * SPLIT_RANGE_WORDS \<or> descr mod 4 \<noteq> 0
         then
           (if descr mod 4 = GC_DS_LENGTH
            then
              (let part = 4 * (SPLIT_RANGE_WORDS - 1);
                   e = \<lparr> mse_start = current_p + part, mse_descr = descr - part \<rparr> in
               map_option (\<lambda>s'. (None, part, s'))
                 (scan_range (current_p div 4) ((current_p + part) div 4) limit (e # stack, hc, st)))
            else if descr mod 4 = GC_DS_BITMAP
            then map_option (\<lambda>s'. (None, 4 * (WORDSZ div 2), s'))
                   (scan_bitmap (descr - descr mod 4) 0 (current_p div 4) limit s)
            else if descr mod 4 = GC_DS_PROC
            then
              (let (stack', st') = procs (descr div 4 mod 64) current_p limit (descr div 256) stack st in
               Some (None, GC_PROC_BYTES, (stack', hc, st')))
            else if signed_word descr \<ge> 0
            then
              (let descr' = mem_word st ((current_p + descr - GC_DS_PER_OBJECT) div 4) in
               Some (if descr' = 0 then None else Some (current_p, descr'), 0, s))
            else
              (let type_descr = mem_word st (current_p div 4) in
               if type_descr = 0 then Some (None, 0, s)
               else
                 (let descr' = mem_word st
                        (wsub type_descr (descr + (GC_INDIR_PER_OBJ_BIAS - GC_DS_PER_OBJECT)) div 4) in
                  Some (if descr' = 0 then None else Some (current_p, descr'), 0, s))))
         else map_option (\<lambda>s'. (None, descr, s'))
                (scan_range (current_p div 4) ((current_p + descr) div 4) limit s)))"

text \<open>
  The loop of \<open>GC_mark_from\<close>, at its test if there is no current object. \<open>None\<close> is a loop that
  does not end, or that reads through a pointer that is no header.
\<close>

partial_function (option) mark_loop ::
    "'a mark_procs \<Rightarrow> nat \<Rightarrow> int \<Rightarrow> (addr \<times> nat) option \<Rightarrow> 'a marking \<Rightarrow> (mse list \<times> 'a gc_marker_scheme) option" where
  "mark_loop procs limit credit cur s =
     (case cur of
        None \<Rightarrow>
          (if fst s = [] \<or> credit < 0 then Some (fst s, snd (snd s))
           else mark_loop procs limit credit (Some (mse_start (hd (fst s)), mse_descr (hd (fst s)))) (tl (fst s), snd s))
      | Some c \<Rightarrow>
          (case mark_object procs limit (fst c) (snd c) s of
             None \<Rightarrow> None
           | Some r \<Rightarrow> mark_loop procs limit (credit - int (fst (snd r))) (fst r) (snd (snd r))))"

definition GC_mark_from ::
    "'a mark_procs \<Rightarrow> nat \<Rightarrow> mse list \<Rightarrow> 'a gc_marker_scheme \<Rightarrow> (mse list \<times> 'a gc_marker_scheme) option" where
  "GC_mark_from procs limit stack st =
     mark_loop procs limit (int HBLKSIZE) None (stack, \<lambda>_. 0, st\<lparr> GC_objects_are_marked := True \<rparr>)"

definition MARK_FROM_MARK_STACK :: "'a mark_procs \<Rightarrow> 'a gc_marker_scheme \<Rightarrow> 'a gc_marker_scheme option" where
  "MARK_FROM_MARK_STACK procs st =
     (case GC_mark_from procs (GC_mark_stack_size st) (GC_mark_stack st) st of
        None \<Rightarrow> None
      | Some (stack, st') \<Rightarrow> Some (st'\<lparr> GC_mark_stack := stack \<rparr>))"

definition GC_mark_stack_empty :: "'a gc_marker_scheme \<Rightarrow> bool" where
  "GC_mark_stack_empty st \<longleftrightarrow> GC_mark_stack st = []"

text \<open>\<open>while (!GC_mark_stack_empty()) MARK_FROM_MARK_STACK();\<close>\<close>

partial_function (option) mark_until_empty ::
    "'a mark_procs \<Rightarrow> 'a gc_marker_scheme \<Rightarrow> 'a gc_marker_scheme option" where
  "mark_until_empty procs st =
     (if GC_mark_stack_empty st then Some st
      else case MARK_FROM_MARK_STACK procs st of None \<Rightarrow> None | Some st' \<Rightarrow> mark_until_empty procs st')"

end
