(* ===== verification/Mark_Shape.thy ===== *)
theory Mark_Shape
  imports Mark_From
begin

text \<open>
  What marking leaves alone. Two states have the same objects if they differ only in mark bits
  and mark counts, the mark stack, the control variables of the mark phase and the black lists.
  Which object a word of memory points to depends only on the objects.
\<close>

section \<open>Objects and pointers\<close>

type_synonym obj = "hblk \<times> nat"
  \<comment> \<open>an object: its block and the number of its mark bit\<close>

definition marked :: "'a hdr_index_scheme \<Rightarrow> obj set" where
  "marked st = {(b, n). \<exists>hh. HDR st b = Hdr hh \<and> mark_bit_from_hdr hh n}"

text \<open>The object that the marker finds behind the pointer \<open>v\<close>, and behind word \<open>w\<close> of memory.\<close>

definition target :: "'a gc_marker_scheme \<Rightarrow> addr \<Rightarrow> obj option" where
  "target st v =
     (case GC_header_cache_miss (GC_all_interior_pointers st) st v of
        None \<Rightarrow> None
      | Some r \<Rightarrow>
          (if cm_block r = 0 then None
           else case HDR st (cm_block r) of
             Fwd _ \<Rightarrow> None
           | Hdr hh \<Rightarrow> (case object_start True st hh v of Some (Some (n, _)) \<Rightarrow> Some (cm_block r, n) | _ \<Rightarrow> None)))"

definition pointee :: "'a gc_marker_scheme \<Rightarrow> nat \<Rightarrow> obj option" where
  "pointee st w = (if plausible st (mem_word st w) then target st (mem_word st w) else None)"

text \<open>The words an entry of the mark stack stands for, for length and bitmap descriptors.\<close>

definition simple_descr :: "nat \<Rightarrow> bool" where
  "simple_descr d \<longleftrightarrow> (d mod 4 = GC_DS_LENGTH \<or> d mod 4 = GC_DS_BITMAP) \<and> d < 2 ^ 32"

definition entry_words :: "mse \<Rightarrow> nat set" where
  "entry_words e =
     (let p = mse_start e div 4; d = mse_descr e in
      if d mod 4 = GC_DS_LENGTH then {p ..< (mse_start e + d) div 4}
      else {p + i |i. i < 30 \<and> bit d (31 - i)})"

definition entry_of :: "'a gc_marker_scheme \<Rightarrow> obj \<Rightarrow> mse" where
  "entry_of st ob = \<lparr> mse_start = hblk_addr (fst ob) + snd ob * GRANULE_BYTES, mse_descr = hb_descr (hdr_at st (fst ob)) \<rparr>"

text \<open>
  The mark bits that stand for objects: those of the first granules of the objects of a block. The
  bits between them and the one behind the last object stand for none.
\<close>

definition object_bit :: "nat \<Rightarrow> nat \<Rightarrow> bool" where
  "object_bit sz n \<longleftrightarrow> n < FINAL_MARK_BIT sz \<and> (if sz > MAXOBJBYTES then n = 0 else n mod BYTES_TO_GRANULES sz = 0)"

text \<open>The words of an object in a block in use that are searched for pointers.\<close>

definition contents :: "'a gc_marker_scheme \<Rightarrow> obj \<Rightarrow> nat set" where
  "contents st ob =
     (if is_used (HDR st (fst ob)) \<and> object_bit (hb_sz (hdr_at st (fst ob))) (snd ob) then entry_words (entry_of st ob) else {})"

section \<open>States with the same objects\<close>

lemma HBLK_IS_FREE_marks [simp]: "HBLK_IS_FREE (hh\<lparr> hb_marks := m \<rparr>) = HBLK_IS_FREE hh" "HBLK_IS_FREE (hh\<lparr> hb_n_marks := n \<rparr>) = HBLK_IS_FREE hh"
  by (simp_all add: HBLK_IS_FREE_def)

primrec strip :: "hdr_entry \<Rightarrow> hdr_entry" where
  "strip (Hdr hh) = Hdr (if HBLK_IS_FREE hh then hh else hh\<lparr> hb_marks := zero_words, hb_n_marks := 0 \<rparr>)"
| "strip (Fwd k) = Fwd k"

text \<open>The rest of the state that marking has nothing to do with.\<close>

definition heap_rest where
  "heap_rest st = (GC_hblkfreelist st, GC_free_bytes st, GC_large_free_bytes st, GC_obj_kinds st, GC_find_leak st, GC_dont_gc st, gc_marker.more st)"

definition same_objs :: "'a gc_marker_scheme \<Rightarrow> 'a gc_marker_scheme \<Rightarrow> bool" where
  "same_objs st st' \<longleftrightarrow> (\<forall>b. strip (HDR st' b) = strip (HDR st b)) \<and> GC_obj_map st' = GC_obj_map st
     \<and> GC_valid_offsets st' = GC_valid_offsets st \<and> GC_modws_valid_offsets st' = GC_modws_valid_offsets st
     \<and> GC_mem st' = GC_mem st \<and> GC_all_interior_pointers st' = GC_all_interior_pointers st
     \<and> GC_least_plausible_heap_addr st' = GC_least_plausible_heap_addr st
     \<and> GC_greatest_plausible_heap_addr st' = GC_greatest_plausible_heap_addr st \<and> heap_rest st' = heap_rest st"

lemma same_objs_refl [simp]: "same_objs st st"
  by (simp add: same_objs_def)

lemma same_objs_trans: "same_objs a b \<Longrightarrow> same_objs b c \<Longrightarrow> same_objs a c"
  by (simp add: same_objs_def)

lemma same_objs_HDR:
  assumes "same_objs st st'"
  shows "HDR st b = Fwd k \<longleftrightarrow> HDR st' b = Fwd k"
    "HDR st b = Hdr hh \<Longrightarrow> \<exists>hh'. HDR st' b = Hdr hh' \<and> hh'\<lparr> hb_marks := zero_words, hb_n_marks := 0 \<rparr> = hh\<lparr> hb_marks := zero_words, hb_n_marks := 0 \<rparr>"
    "HDR st' b = Hdr hh' \<Longrightarrow> \<exists>hh. HDR st b = Hdr hh \<and> hh'\<lparr> hb_marks := zero_words, hb_n_marks := 0 \<rparr> = hh\<lparr> hb_marks := zero_words, hb_n_marks := 0 \<rparr>"
proof -
  have "strip (HDR st' b) = strip (HDR st b)" using assms by (simp add: same_objs_def)
  then show "HDR st b = Fwd k \<longleftrightarrow> HDR st' b = Fwd k"
    "HDR st b = Hdr hh \<Longrightarrow> \<exists>hh'. HDR st' b = Hdr hh' \<and> hh'\<lparr> hb_marks := zero_words, hb_n_marks := 0 \<rparr> = hh\<lparr> hb_marks := zero_words, hb_n_marks := 0 \<rparr>"
    "HDR st' b = Hdr hh' \<Longrightarrow> \<exists>hh. HDR st b = Hdr hh \<and> hh'\<lparr> hb_marks := zero_words, hb_n_marks := 0 \<rparr> = hh\<lparr> hb_marks := zero_words, hb_n_marks := 0 \<rparr>"
    by (cases "HDR st b"; cases "HDR st' b"; auto split: if_splits)+
qed

text \<open>Headers that agree up to marks agree on every other field.\<close>

lemma hdr_fields_eq:
  assumes "hh'\<lparr> hb_marks := zero_words, hb_n_marks := 0 \<rparr> = hh\<lparr> hb_marks := zero_words, hb_n_marks := 0 \<rparr>"
  shows "hb_sz hh' = hb_sz hh" "hb_flags hh' = hb_flags hh" "hb_block hh' = hb_block hh" "hb_map hh' = hb_map hh"
    "hb_large_block hh' = hb_large_block hh" "hb_descr hh' = hb_descr hh" "hb_obj_kind hh' = hb_obj_kind hh"
    "HBLK_IS_FREE hh' = HBLK_IS_FREE hh" "blocks_of hh' = blocks_of hh"
  using assms by (cases hh'; cases hh; simp add: HBLK_IS_FREE_def blocks_of_def)+

lemma same_objs_hdr:
  assumes "same_objs st st'" "HDR st b = Hdr hh"
  obtains hh' where "HDR st' b = Hdr hh'" "hb_sz hh' = hb_sz hh" "hb_flags hh' = hb_flags hh" "hb_block hh' = hb_block hh"
    "hb_map hh' = hb_map hh" "hb_large_block hh' = hb_large_block hh" "hb_descr hh' = hb_descr hh"
    "HBLK_IS_FREE hh' = HBLK_IS_FREE hh" "blocks_of hh' = blocks_of hh"
  using same_objs_HDR(2) [OF assms] hdr_fields_eq by metis

lemma same_objs_hdr':
  assumes "same_objs st st'" "HDR st' b = Hdr hh'"
  obtains hh where "HDR st b = Hdr hh" "hb_sz hh' = hb_sz hh" "hb_flags hh' = hb_flags hh" "hb_block hh' = hb_block hh"
    "hb_map hh' = hb_map hh" "hb_large_block hh' = hb_large_block hh" "hb_descr hh' = hb_descr hh"
    "HBLK_IS_FREE hh' = HBLK_IS_FREE hh" "blocks_of hh' = blocks_of hh"
  using same_objs_HDR(3) [OF assms] hdr_fields_eq by metis

lemma same_objs_same_layout: "same_objs st st' \<Longrightarrow> same_layout st st'"
proof -
  assume "same_objs st st'"
  then have "entry_shape (strip (HDR st' c)) = entry_shape (strip (HDR st c))" for c by (simp add: same_objs_def)
  moreover have "entry_shape (strip e) = entry_shape e" for e by (cases e) (simp_all add: blocks_of_def)
  ultimately show ?thesis by (simp add: same_layout_def)
qed

lemma same_objs_layout: "same_objs st st' \<Longrightarrow> layout_ok st \<Longrightarrow> layout_ok st'"
  using layout_ok_same [OF same_objs_same_layout] .

lemma layout_forward:
  assumes "layout_ok st" "HDR st b = Fwd k" "0 < k"
  obtains h hh where "forward_to_start st b k = Some (h, hh)" "HDR st h = Hdr hh" "\<not> HBLK_IS_FREE hh"
    "h < b" "b < h + blocks_of hh"
proof -
  obtain h hh where o: "HDR st h = Hdr hh" "\<not> HBLK_IS_FREE hh" "h < b" "b < h + blocks_of hh" "k = min (b - h) MAX_JUMP"
    using layout_Fwd_owner [OF assms] by metis
  have "forward_to_start st b k = Some (h, hh)"
    unfolding o(5) by (rule forward_to_start_counts [OF o(1)]) (use layout_inside [OF assms(1) o(1)] o in auto)
  with o that show thesis by blast
qed

text \<open>The header lookup of the marker, and what it finds.\<close>

lemma cache_miss_total:
  assumes "layout_ok st"
  obtains r where "GC_header_cache_miss i st p = Some r"
    "cm_block r \<noteq> 0 \<Longrightarrow> \<exists>hh. HDR st (cm_block r) = Hdr hh \<and> \<not> HBLK_IS_FREE hh \<and> cm_block r \<le> p div HBLKSIZE
       \<and> p div HBLKSIZE < cm_block r + blocks_of hh"
    "cm_cached r \<Longrightarrow> cm_block r = p div HBLKSIZE"
proof (cases "HDR st (p div HBLKSIZE)")
  case (Hdr hh)
  show thesis
  proof (cases "HBLK_IS_FREE hh")
    case True
    then show ?thesis using that [of "\<lparr> cm_block = 0, cm_black = True, cm_cached = False \<rparr>"] Hdr
      by (simp add: GC_header_cache_miss_def)
  next
    case False
    then show ?thesis
      using that [of "\<lparr> cm_block = p div HBLKSIZE, cm_black = False, cm_cached = True \<rparr>"] Hdr layout_blocks_pos [OF assms Hdr]
      by (simp add: GC_header_cache_miss_def)
  qed
next
  case (Fwd k)
  show thesis
  proof (cases "i \<and> 0 < k")
    case True
    obtain h hh where f: "forward_to_start st (p div HBLKSIZE) k = Some (h, hh)" "HDR st h = Hdr hh" "\<not> HBLK_IS_FREE hh"
        "h < p div HBLKSIZE" "p div HBLKSIZE < h + blocks_of hh"
      using layout_forward [OF assms Fwd] True by metis
    define r where "r = (if hb_flags hh AND IGNORE_OFF_PAGE \<noteq> 0 then \<lparr> cm_block = 0, cm_black = False, cm_cached = False \<rparr>
      else if HBLK_IS_FREE hh \<or> p - hblk_addr h \<ge> hb_sz hh then \<lparr> cm_block = 0, cm_black = True, cm_cached = False \<rparr>
      else \<lparr> cm_block = h, cm_black = False, cm_cached = False \<rparr>)"
    have run: "GC_header_cache_miss i st p = Some r"
      using True Fwd f(1) by (simp add: GC_header_cache_miss_def r_def)
    have r: "cm_block r = 0 \<or> cm_block r = h" "\<not> cm_cached r" by (simp_all add: r_def)
    show ?thesis
    proof (rule that [OF run])
      assume "cm_block r \<noteq> 0"
      then have "cm_block r = h" using r(1) by simp
      with f show "\<exists>hh. HDR st (cm_block r) = Hdr hh \<and> \<not> HBLK_IS_FREE hh \<and> cm_block r \<le> p div HBLKSIZE
         \<and> p div HBLKSIZE < cm_block r + blocks_of hh" by simp
    qed (use r(2) in simp)
  next
    case False
    then have "GC_header_cache_miss i st p = Some \<lparr> cm_block = 0, cm_black = (k = 0), cm_cached = False \<rparr>"
      using Fwd by (cases i; cases "k = 0") (simp_all add: GC_header_cache_miss_def)
    from that [OF this] show ?thesis by simp
  qed
qed

lemma forward_objs:
  assumes "same_objs st st'" "layout_ok st" "HDR st b = Fwd k" "0 < k"
  obtains h hh hh' where "forward_to_start st b k = Some (h, hh)" "forward_to_start st' b k = Some (h, hh')" "HDR st h = Hdr hh" "HDR st' h = Hdr hh'"
    "\<not> HBLK_IS_FREE hh" "\<not> HBLK_IS_FREE hh'" "h < b" "b < h + blocks_of hh" "hb_sz hh' = hb_sz hh" "hb_flags hh' = hb_flags hh"
proof -
  have F': "HDR st' b = Fwd k" using assms(3) same_objs_HDR(1) [OF assms(1)] by simp
  obtain h hh where f: "forward_to_start st b k = Some (h, hh)" "HDR st h = Hdr hh" "\<not> HBLK_IS_FREE hh" "h < b" "b < h + blocks_of hh"
    using layout_forward [OF assms(2-4)] by metis
  obtain h' hh' where f': "forward_to_start st' b k = Some (h', hh')" "HDR st' h' = Hdr hh'" "\<not> HBLK_IS_FREE hh'" "h' < b" "b < h' + blocks_of hh'"
    using layout_forward [OF same_objs_layout [OF assms(1,2)] F' assms(4)] by metis
  obtain g where g: "HDR st h' = Hdr g" "hb_sz hh' = hb_sz g" "hb_flags hh' = hb_flags g" "blocks_of hh' = blocks_of g"
    using same_objs_hdr' [OF assms(1) f'(2)] by metis
  have "h' = h"
  proof (rule ccontr)
    assume "h' \<noteq> h"
    then consider "h < h'" | "h' < h" by linarith
    then show False
      using layout_disjoint [OF assms(2) f(2) g(1)] layout_disjoint [OF assms(2) g(1) f(2)] f f' g(4) by cases auto
  qed
  with f(2) g(1) have "g = hh" by simp
  with that f f' g \<open>h' = h\<close> show thesis by blast
qed

lemma cache_miss_objs:
  assumes "same_objs st st'" "layout_ok st"
  shows "GC_header_cache_miss i st' p = GC_header_cache_miss i st p"
proof (cases "HDR st (p div HBLKSIZE)")
  case (Hdr hh)
  then obtain hh' where "HDR st' (p div HBLKSIZE) = Hdr hh'" "HBLK_IS_FREE hh' = HBLK_IS_FREE hh"
    using same_objs_hdr [OF assms(1)] by metis
  with Hdr show ?thesis by (simp add: GC_header_cache_miss_def)
next
  case (Fwd k)
  then have F': "HDR st' (p div HBLKSIZE) = Fwd k" using same_objs_HDR(1) [OF assms(1)] by simp
  show ?thesis
  proof (cases "0 < k")
    case True
    obtain h hh hh' where "forward_to_start st (p div HBLKSIZE) k = Some (h, hh)" "forward_to_start st' (p div HBLKSIZE) k = Some (h, hh')"
        "\<not> HBLK_IS_FREE hh" "\<not> HBLK_IS_FREE hh'" "hb_sz hh' = hb_sz hh" "hb_flags hh' = hb_flags hh"
      using forward_objs [OF assms Fwd True] by metis
    with Fwd F' show ?thesis by (simp add: GC_header_cache_miss_def)
  qed (simp add: GC_header_cache_miss_def Fwd F')
qed

lemma object_start_objs:
  assumes "same_objs st st'" "hb_map hh' = hb_map hh" "hb_large_block hh' = hb_large_block hh" "hb_block hh' = hb_block hh"
  shows "object_start c st' hh' v = object_start c st hh v"
proof -
  have "GC_obj_map st' = GC_obj_map st" "GC_valid_offsets st' = GC_valid_offsets st"
    using assms(1) by (simp_all add: same_objs_def)
  then show ?thesis unfolding object_start_def assms(2-4) by (simp only:)
qed

lemma target_objs:
  assumes "same_objs st st'" "layout_ok st"
  shows "target st' v = target st v"
proof -
  have i: "GC_all_interior_pointers st' = GC_all_interior_pointers st" using assms(1) by (simp add: same_objs_def)
  obtain r where r: "GC_header_cache_miss (GC_all_interior_pointers st) st v = Some r"
    using cache_miss_total [OF assms(2)] by metis
  show ?thesis
  proof (cases "HDR st (cm_block r)")
    case (Fwd k)
    then have "HDR st' (cm_block r) = Fwd k" using same_objs_HDR(1) [OF assms(1)] by simp
    with Fwd show ?thesis by (simp add: target_def i cache_miss_objs [OF assms] r)
  next
    case (Hdr hh)
    then obtain hh' where "HDR st' (cm_block r) = Hdr hh'" "hb_map hh' = hb_map hh" "hb_large_block hh' = hb_large_block hh"
        "hb_block hh' = hb_block hh"
      using same_objs_hdr [OF assms(1)] by metis
    with Hdr object_start_objs [OF assms(1)] show ?thesis by (simp add: target_def i cache_miss_objs [OF assms] r)
  qed
qed

lemma objs_simps:
  assumes "same_objs st st'"
  shows "plausible st' v = plausible st v" "mem_word st' w = mem_word st w"
  using assms by (simp_all add: same_objs_def plausible_def mem_word_def)

lemma pointee_objs: "same_objs st st' \<Longrightarrow> layout_ok st \<Longrightarrow> pointee st' w = pointee st w"
  by (simp add: pointee_def objs_simps target_objs)

lemma hdr_at_objs:
  assumes "same_objs st st'"
  shows "hb_descr (hdr_at st' b) = hb_descr (hdr_at st b) \<and> hb_sz (hdr_at st' b) = hb_sz (hdr_at st b)"
proof (cases "HDR st b")
  case (Fwd k)
  then have "HDR st' b = Fwd k" using same_objs_HDR(1) [OF assms] by simp
  with Fwd show ?thesis by (simp add: hdr_at_def)
next
  case (Hdr hh)
  then obtain hh' where "HDR st' b = Hdr hh'" "hb_descr hh' = hb_descr hh" "hb_sz hh' = hb_sz hh"
    using same_objs_hdr [OF assms] by metis
  with Hdr show ?thesis by (simp add: hdr_at_def)
qed

lemma entry_of_objs: "same_objs st st' \<Longrightarrow> entry_of st' = entry_of st"
  by (rule ext) (simp add: entry_of_def hdr_at_objs)

lemma is_used_objs:
  assumes "same_objs st st'"
  shows "is_used (HDR st' b) = is_used (HDR st b)"
proof -
  have "is_used (strip e) = is_used e" for e by (cases e) (simp_all add: is_used_def)
  moreover have "strip (HDR st' b) = strip (HDR st b)" using assms by (simp add: same_objs_def)
  ultimately show ?thesis by metis
qed

lemma contents_objs: "same_objs st st' \<Longrightarrow> contents st' = contents st"
  by (rule ext) (simp add: contents_def entry_of_objs hdr_at_objs is_used_objs)

text \<open>
  Two states of the same shape also agree on the size of the mark stack, on the progress of the
  heap scan and on the memory still available.
\<close>

definition same_shape :: "'a gc_marker_scheme \<Rightarrow> 'a gc_marker_scheme \<Rightarrow> bool" where
  "same_shape st st' \<longleftrightarrow> same_objs st st' \<and> GC_mark_stack_size st' = GC_mark_stack_size st
     \<and> scan_ptr st' = scan_ptr st \<and> scratch_ok st' = scratch_ok st \<and> (GC_objects_are_marked st \<longrightarrow> GC_objects_are_marked st')"

lemma same_shape_objs: "same_shape st st' \<Longrightarrow> same_objs st st'"
  by (simp add: same_shape_def)

lemma same_shape_refl [simp]: "same_shape st st"
  by (simp add: same_shape_def)

lemma same_shape_trans: "same_shape a b \<Longrightarrow> same_shape b c \<Longrightarrow> same_shape a c"
  unfolding same_shape_def using same_objs_trans by metis

lemmas same_shape_HDR = same_objs_HDR [OF same_shape_objs]
lemmas same_shape_hdr = same_objs_hdr [OF same_shape_objs]
lemmas same_shape_hdr' = same_objs_hdr' [OF same_shape_objs]
lemmas same_shape_layout = same_objs_layout [OF same_shape_objs]
lemmas cache_miss_shape = cache_miss_objs [OF same_shape_objs]
lemmas object_start_cong = object_start_objs [OF same_shape_objs]
lemmas target_shape = target_objs [OF same_shape_objs]
lemmas shape_simps = objs_simps [OF same_shape_objs]
lemmas pointee_shape = pointee_objs [OF same_shape_objs]
lemmas entry_of_shape = entry_of_objs [OF same_shape_objs]
lemmas contents_shape = contents_objs [OF same_shape_objs]

end
