(* ===== verification/Marking.thy ===== *)
theory Marking
  imports Mark_Shape
begin

text \<open>
  Correctness of the marker. An abstract marker works on the set of marked objects and the mark
  stack only; every scan of the model is a sequence of its steps. Its invariant is the one the
  source documents: a pointer in a marked object leads to a marked object or lies in a range
  on the mark stack, unless the stack has overflowed.
\<close>

section \<open>Heaps that can be marked\<close>

definition object_hdr :: "'a gc_marker_scheme \<Rightarrow> hblk \<Rightarrow> hdr \<Rightarrow> bool" where
  "object_hdr st b hh \<longleftrightarrow> hb_block hh = b \<and> 0 < hb_sz hh \<and> hb_sz hh mod GRANULE_BYTES = 0
     \<and> hb_large_block hh = (hb_sz hh > MAXOBJBYTES)
     \<and> hb_map hh = Some (if hb_sz hh > MAXOBJBYTES then 0 else BYTES_TO_GRANULES (hb_sz hh))
     \<and> GC_obj_map st (if hb_sz hh > MAXOBJBYTES then 0 else BYTES_TO_GRANULES (hb_sz hh)) \<noteq> None
     \<and> mark_bit_from_hdr hh (FINAL_MARK_BIT (hb_sz hh)) \<and> simple_descr (hb_descr hh)"

definition bl_ok :: "'a gc_marker_scheme \<Rightarrow> bool" where
  "bl_ok st \<longleftrightarrow> GC_all_interior_pointers st
     \<or> GC_old_normal_bl (GC_black_lists st) \<noteq> None \<and> GC_incomplete_normal_bl (GC_black_lists st) \<noteq> None"

text \<open>The count of marks of a block is the number of its marked objects.\<close>

definition count_ok :: "hdr \<Rightarrow> bool" where
  "count_ok hh \<longleftrightarrow> hb_n_marks hh = card {n. object_bit (hb_sz hh) n \<and> mark_bit_from_hdr hh n}"

definition counts_ok :: "'a hdr_index_scheme \<Rightarrow> bool" where
  "counts_ok st \<longleftrightarrow> (\<forall>b hh. HDR st b = Hdr hh \<and> \<not> HBLK_IS_FREE hh \<longrightarrow> count_ok hh)"

definition marker_ok :: "'a gc_marker_scheme \<Rightarrow> bool" where
  "marker_ok st \<longleftrightarrow> index_wf st \<and> layout_ok st \<and> maps_ok st \<and> bl_ok st \<and> counts_ok st \<and> HDR st 0 = Fwd 0
     \<and> HBLKSIZE \<le> GC_least_plausible_heap_addr st
     \<and> (\<forall>b hh. HDR st b = Hdr hh \<and> \<not> HBLK_IS_FREE hh \<longrightarrow> object_hdr st b hh)"

lemma marker_okD:
  assumes "marker_ok st"
  shows "index_wf st" "layout_ok st" "maps_ok st" "bl_ok st" "HBLKSIZE \<le> GC_least_plausible_heap_addr st"
    "HDR st b = Hdr hh \<Longrightarrow> \<not> HBLK_IS_FREE hh \<Longrightarrow> object_hdr st b hh" "counts_ok st" "HDR st 0 = Fwd 0"
  using assms by (auto simp: marker_ok_def)

text \<open>The object start that the map computes.\<close>

lemma map_for_nth:
  assumes "i < 512"
  shows "map_for g ! i = (if g = 0 then 1 else i mod g)"
  using assms by (simp add: map_for_def BYTES_TO_GRANULES_def HBLKSIZE_def)

lemma object_start_ok:
  assumes o: "object_hdr st b hh" "maps_ok st" and v: "b \<le> v div HBLKSIZE" "v div HBLKSIZE < b + blocks_of hh"
  obtains x where "object_start c st hh v = Some x"
    "\<And>n base. x = Some (n, base) \<Longrightarrow> base = hblk_addr b + n * GRANULE_BYTES \<and> n \<le> FINAL_MARK_BIT (hb_sz hh)
       \<and> (n \<noteq> FINAL_MARK_BIT (hb_sz hh) \<longrightarrow> object_bit (hb_sz hh) n)"
proof -
  let ?sz = "hb_sz hh"
  define g where "g = (if ?sz > MAXOBJBYTES then 0 else BYTES_TO_GRANULES ?sz)"
  obtain m where m: "GC_obj_map st g = Some m" using o(1) by (auto simp: object_hdr_def g_def)
  have mm: "m = map_for g" using o(2) m by (simp add: maps_ok_def)
  have bind: "Option.bind (hb_map hh) (GC_obj_map st) = Some m" using o(1) m by (simp add: object_hdr_def g_def)
  define displ where "displ = v mod HBLKSIZE"
  define gd where "gd = BYTES_TO_GRANULES displ"
  have gd: "gd < 512" "displ = gd * 8 + displ mod 8"
    by (simp_all add: gd_def displ_def BYTES_TO_GRANULES_def HBLKSIZE_def)
  note map_gd = map_for_nth [OF gd(1), of g]
  show thesis
  proof (cases "?sz > MAXOBJBYTES")
    case True
    then have L: "hb_large_block hh" "g = 0" "hb_block hh = b" using o(1) by (simp_all add: object_hdr_def g_def)
    have "\<exists>x. object_start c st hh v = Some x \<and> (x = None \<or> x = Some (0, hblk_addr b))"
      unfolding object_start_def bind option.case Let_def displ_def [symmetric] gd_def [symmetric] mm map_gd
      using L by simp
    then obtain x where x: "object_start c st hh v = Some x" "x = None \<or> x = Some (0, hblk_addr b)" by blast
    from that [OF x(1)] x(2) show ?thesis using True by (auto simp: object_bit_def FINAL_MARK_BIT_def)
  next
    case False
    then have S: "\<not> hb_large_block hh" "g = ?sz div 8" using o(1) by (simp_all add: object_hdr_def g_def BYTES_TO_GRANULES_def)
    have sz: "0 < ?sz" "?sz = 8 * g" using o(1) S(2) by (auto simp: object_hdr_def GRANULE_BYTES_def)
    then have g0: "0 < g" by simp
    have "blocks_of hh = 1"
      using False sz(1) by (simp add: blocks_of_def OBJ_SZ_TO_BLOCKS_def divHBLKSZ_def MAXOBJBYTES_def HBLKSIZE_def)
    then have b: "v div HBLKSIZE = b" using v by simp
    have vv: "v = hblk_addr b + displ" by (simp add: hblk_addr_def displ_def b [symmetric])
    let ?n = "gd - gd mod g"
    have n: "?n = g * (gd div g)" by (simp add: minus_mod_eq_mult_div)
    have FB: "FINAL_MARK_BIT ?sz = g * (512 div g)"
      using False sz g0 by (simp add: FINAL_MARK_BIT_def BYTES_TO_GRANULES_def HBLK_OBJS_def HBLKSIZE_def mult.assoc)
    have bound: "?n \<le> FINAL_MARK_BIT ?sz"
      unfolding n FB using gd(1) by (intro mult_le_mono2 div_le_mono) simp
    have base: "v - ((gd mod g) * 8 + displ mod 8) = hblk_addr b + ?n * 8"
    proof -
      have "displ = ?n * 8 + (gd mod g) * 8 + displ mod 8"
        using gd(2) by (simp add: diff_mult_distrib)
      then show ?thesis using vv by simp
    qed
    have "\<exists>x. object_start c st hh v = Some x \<and> (x = None \<or> x = Some (?n, hblk_addr b + ?n * 8))"
    proof (cases "gd mod g \<noteq> 0 \<or> displ mod 8 \<noteq> 0")
      case True
      then show ?thesis
        unfolding object_start_def bind option.case Let_def displ_def [symmetric] gd_def [symmetric] mm map_gd
        using S(1) g0 base by (simp add: GRANULE_BYTES_def)
    next
      case z: False
      have "v = hblk_addr b + gd * 8" using vv gd(2) z by simp
      with z show ?thesis
        unfolding object_start_def bind option.case Let_def displ_def [symmetric] gd_def [symmetric] mm map_gd
        using g0 by (simp add: GRANULE_BYTES_def)
    qed
    then obtain x where x: "object_start c st hh v = Some x" "x = None \<or> x = Some (?n, hblk_addr b + ?n * 8)" by blast
    have "object_bit ?sz ?n" if "?n \<noteq> FINAL_MARK_BIT ?sz"
      using that bound False S(2) n by (simp add: object_bit_def BYTES_TO_GRANULES_def)
    with that [OF x(1)] x(2) bound show ?thesis by (auto simp: GRANULE_BYTES_def)
  qed
qed

section \<open>Updates of the marker\<close>

lemma upd_hdr_marker [simp]:
  fixes st :: "'a gc_marker_scheme"
  shows "GC_obj_map (upd_hdr h f st) = GC_obj_map st" "GC_valid_offsets (upd_hdr h f st) = GC_valid_offsets st"
    "GC_modws_valid_offsets (upd_hdr h f st) = GC_modws_valid_offsets st" "GC_mem (upd_hdr h f st) = GC_mem st"
    "GC_all_interior_pointers (upd_hdr h f st) = GC_all_interior_pointers st"
    "GC_least_plausible_heap_addr (upd_hdr h f st) = GC_least_plausible_heap_addr st"
    "GC_greatest_plausible_heap_addr (upd_hdr h f st) = GC_greatest_plausible_heap_addr st"
    "GC_mark_stack_size (upd_hdr h f st) = GC_mark_stack_size st" "scan_ptr (upd_hdr h f st) = scan_ptr st"
    "GC_mark_stack (upd_hdr h f st) = GC_mark_stack st" "GC_mark_state (upd_hdr h f st) = GC_mark_state st"
    "GC_black_lists (upd_hdr h f st) = GC_black_lists st" "GC_objects_are_marked (upd_hdr h f st) = GC_objects_are_marked st"
    "scratch_ok (upd_hdr h f st) = scratch_ok st"
  by (auto simp: upd_hdr_def SET_HDR_def split: hdr_entry.splits option.splits)

lemma heap_rest_upd [simp]:
  fixes st :: "'a gc_marker_scheme"
  shows "heap_rest (upd_hdr h f st) = heap_rest st" "heap_rest (st\<lparr> GC_black_lists := bl \<rparr>) = heap_rest st" "heap_rest (st\<lparr> GC_mark_state := ms \<rparr>) = heap_rest st"
    "heap_rest (st\<lparr> GC_mark_stack_too_small := ts \<rparr>) = heap_rest st" "heap_rest (st\<lparr> GC_objects_are_marked := om \<rparr>) = heap_rest st"
    "heap_rest (st\<lparr> GC_mark_stack := stk \<rparr>) = heap_rest st" "heap_rest (st\<lparr> scan_ptr := h \<rparr>) = heap_rest st" "heap_rest (st\<lparr> GC_n_rescuing_pages := n \<rparr>) = heap_rest st"
    "heap_rest (st\<lparr> GC_mark_stack_size := n \<rparr>) = heap_rest st" "heap_rest (st\<lparr> scratch_ok := so \<rparr>) = heap_rest st" "heap_rest (st\<lparr> GC_gc_no := n \<rparr>) = heap_rest st"
  by (auto simp: heap_rest_def upd_hdr_def SET_HDR_def split: hdr_entry.splits option.splits)

lemma finite_object_bits [simp]: "finite {n. object_bit sz n \<and> P n}"
  by (rule finite_subset [of _ "{..< FINAL_MARK_BIT sz}"]) (auto simp: object_bit_def)

lemma count_ok_0: "count_ok hh \<Longrightarrow> hb_n_marks hh = 0 \<Longrightarrow> object_bit (hb_sz hh) n \<Longrightarrow> \<not> mark_bit_from_hdr hh n"
  by (auto simp: count_ok_def)

lemma HDR_marker_upd [simp]:
  fixes st :: "'a gc_marker_scheme"
  shows "HDR (st\<lparr> GC_black_lists := bl \<rparr>) = HDR st" "HDR (st\<lparr> GC_mark_state := ms \<rparr>) = HDR st"
    "HDR (st\<lparr> GC_mark_stack_too_small := ts \<rparr>) = HDR st" "HDR (st\<lparr> GC_objects_are_marked := om \<rparr>) = HDR st"
    "HDR (st\<lparr> GC_mark_stack := stk \<rparr>) = HDR st"
  by (rule HDR_cong; simp)+

lemma index_wf_marker_upd [simp]:
  fixes st :: "'a gc_marker_scheme"
  shows "index_wf (st\<lparr> GC_black_lists := bl \<rparr>) = index_wf st" "index_wf (st\<lparr> GC_mark_state := ms \<rparr>) = index_wf st"
    "index_wf (st\<lparr> GC_mark_stack_too_small := ts \<rparr>) = index_wf st" "index_wf (st\<lparr> GC_objects_are_marked := om \<rparr>) = index_wf st"
    "index_wf (st\<lparr> GC_mark_stack := stk \<rparr>) = index_wf st"
  by (simp_all add: index_wf_def)

lemma marked_cong: "HDR st' = HDR st \<Longrightarrow> marked st' = marked st"
  by (simp add: marked_def)

lemma same_shape_upd [simp]:
  fixes st :: "'a gc_marker_scheme"
  shows "same_shape st (st\<lparr> GC_black_lists := bl \<rparr>)" "same_shape st (st\<lparr> GC_mark_state := ms \<rparr>)"
    "same_shape st (st\<lparr> GC_mark_stack_too_small := ts \<rparr>)" "same_shape st (st\<lparr> GC_objects_are_marked := True \<rparr>)"
    "same_shape st (st\<lparr> GC_mark_stack := stk \<rparr>)"
  by (simp_all add: same_shape_def same_objs_def)

lemma counts_ok_cong: "HDR st' = HDR st \<Longrightarrow> counts_ok st' = counts_ok st"
  by (simp add: counts_ok_def)

lemma marker_ok_shape:
  assumes "marker_ok st" "same_shape st st'" "index_wf st'" "bl_ok st'" "marked st \<subseteq> marked st'" "counts_ok st'"
  shows "marker_ok st'"
proof -
  note m = marker_okD [OF assms(1)]
  have e: "GC_obj_map st' = GC_obj_map st" "GC_least_plausible_heap_addr st' = GC_least_plausible_heap_addr st"
    using assms(2) by (simp_all add: same_shape_def same_objs_def)
  have "object_hdr st' b hh'" if h: "HDR st' b = Hdr hh'" "\<not> HBLK_IS_FREE hh'" for b hh'
  proof -
    obtain hh where hh: "HDR st b = Hdr hh" "hb_sz hh' = hb_sz hh" "hb_block hh' = hb_block hh" "hb_map hh' = hb_map hh"
        "hb_large_block hh' = hb_large_block hh" "hb_descr hh' = hb_descr hh" "HBLK_IS_FREE hh' = HBLK_IS_FREE hh"
      using same_shape_hdr' [OF assms(2) h(1)] by metis
    have o: "object_hdr st b hh" using m(6) [OF hh(1)] h(2) hh(7) by simp
    then have "(b, FINAL_MARK_BIT (hb_sz hh)) \<in> marked st" using hh(1) by (simp add: marked_def object_hdr_def)
    then have "mark_bit_from_hdr hh' (FINAL_MARK_BIT (hb_sz hh'))"
      using subsetD [OF assms(5)] h(1) hh(2) by (fastforce simp: marked_def)
    with o show ?thesis unfolding object_hdr_def e(1) hh(2-6) by blast
  qed
  then show ?thesis
    using m(3,5,8) e assms(3,4,6) same_shape_layout [OF assms(2) m(2)] same_shape_HDR(1) [OF assms(2)]
    by (simp add: marker_ok_def maps_ok_def)
qed

lemma blacklist_ok:
  assumes "marker_ok st"
  obtains bl where "GC_ADD_TO_BLACK_LIST_NORMAL p st = Some (st\<lparr> GC_black_lists := bl \<rparr>)" "marker_ok (st\<lparr> GC_black_lists := bl \<rparr>)"
proof -
  have "\<exists>bl. GC_ADD_TO_BLACK_LIST_NORMAL p st = Some (st\<lparr> GC_black_lists := bl \<rparr>) \<and> bl_ok (st\<lparr> GC_black_lists := bl \<rparr>)"
  proof (cases "GC_all_interior_pointers st")
    case True
    then show ?thesis by (auto simp: GC_ADD_TO_BLACK_LIST_NORMAL_def bl_ok_def)
  next
    case False
    then obtain old inc where "GC_old_normal_bl (GC_black_lists st) = Some old" "GC_incomplete_normal_bl (GC_black_lists st) = Some inc"
      using marker_okD(4) [OF assms] by (auto simp: bl_ok_def)
    then have "\<exists>bl. GC_add_to_black_list_normal (GC_modws_valid_offsets st) (\<lambda>q. HDR st (q div HBLKSIZE) = Fwd 0) p (GC_black_lists st) = Some bl
        \<and> GC_old_normal_bl bl \<noteq> None \<and> GC_incomplete_normal_bl bl \<noteq> None"
      by (simp add: GC_add_to_black_list_normal_def)
    with False show ?thesis by (auto simp: GC_ADD_TO_BLACK_LIST_NORMAL_def bl_ok_def)
  qed
  then obtain bl where bl: "GC_ADD_TO_BLACK_LIST_NORMAL p st = Some (st\<lparr> GC_black_lists := bl \<rparr>)" "bl_ok (st\<lparr> GC_black_lists := bl \<rparr>)"
    by blast
  have "marker_ok (st\<lparr> GC_black_lists := bl \<rparr>)"
    by (rule marker_ok_shape [OF assms]) (use bl(2) marker_okD(1,7) [OF assms] in \<open>simp_all add: marked_def counts_ok_def\<close>)
  with bl(1) that show thesis by blast
qed

section \<open>The abstract marker\<close>

text \<open>
  What a word of memory does to the marked objects, the stack and the mark state. The limit of
  the stack is \<open>limit\<close>, and \<open>st\<close> gives the shape of the heap.
\<close>

type_synonym view = "obj set \<times> mse list \<times> mark_state_t"

definition push1 :: "'a gc_marker_scheme \<Rightarrow> nat \<Rightarrow> obj \<Rightarrow> view \<Rightarrow> view" where
  "push1 st limit ob a =
     (case a of (M, stk, ms) \<Rightarrow>
        if ob \<in> M then a
        else if mse_descr (entry_of st ob) = 0 then (insert ob M, stk, ms)
        else if length stk \<ge> limit then (insert ob M, entry_of st ob # drop GC_MARK_STACK_DISCARDS stk, MS_INVALID)
        else (insert ob M, entry_of st ob # stk, ms))"

definition visit :: "'a gc_marker_scheme \<Rightarrow> nat \<Rightarrow> nat \<Rightarrow> view \<Rightarrow> view" where
  "visit st limit w a = (case pointee st w of None \<Rightarrow> a | Some ob \<Rightarrow> push1 st limit ob a)"

definition view_of :: "'a marking \<Rightarrow> view" where
  "view_of s = (marked (snd (snd s)), fst s, GC_mark_state (snd (snd s)))"

definition cache_ok :: "hdr_cache \<Rightarrow> 'a gc_marker_scheme \<Rightarrow> bool" where
  "cache_ok hc st \<longleftrightarrow> (\<forall>i. hc i \<noteq> 0 \<longrightarrow> (\<exists>hh. HDR st (hc i) = Hdr hh \<and> \<not> HBLK_IS_FREE hh))"

text \<open>A marking state that has evolved from \<open>st\<close>.\<close>

definition marking_ok :: "'a gc_marker_scheme \<Rightarrow> 'a marking \<Rightarrow> bool" where
  "marking_ok st s \<longleftrightarrow> same_shape st (snd (snd s)) \<and> marker_ok (snd (snd s)) \<and> cache_ok (fst (snd s)) (snd (snd s))
     \<and> GC_objects_are_marked (snd (snd s))"

lemma cache_ok_shape:
  assumes "cache_ok hc st" "same_shape st st'"
  shows "cache_ok hc st'"
  unfolding cache_ok_def
proof (intro allI impI)
  fix i assume "hc i \<noteq> 0"
  then obtain hh where "HDR st (hc i) = Hdr hh" "\<not> HBLK_IS_FREE hh" using assms(1) by (auto simp: cache_ok_def)
  then show "\<exists>hh. HDR st' (hc i) = Hdr hh \<and> \<not> HBLK_IS_FREE hh" using same_shape_hdr [OF assms(2)] by metis
qed

lemma push1_shape: "same_shape st st' \<Longrightarrow> push1 st' = push1 st"
  by (simp add: push1_def entry_of_shape fun_eq_iff)

text \<open>The header lookup, through the cache or not.\<close>

lemma HC_GET_HDR_ok:
  assumes "marking_ok st0 (stack, hc, st)" "plausible st v"
  obtains h hc' st' where "HC_GET_HDR v hc st = Some (h, hc', st')" "marking_ok st0 (stack, hc', st')" "HDR st' = HDR st"
    "GC_mark_state st' = GC_mark_state st" "same_shape st st'"
    "h \<noteq> 0 \<Longrightarrow> \<exists>hh. HDR st h = Hdr hh \<and> \<not> HBLK_IS_FREE hh \<and> h \<le> v div HBLKSIZE \<and> v div HBLKSIZE < h + blocks_of hh"
    "\<exists>r. GC_header_cache_miss (GC_all_interior_pointers st) st v = Some r \<and> cm_block r = h"
proof -
  have ok: "marker_ok st" "same_shape st0 st" "cache_ok hc st" "GC_objects_are_marked st" using assms(1) by (simp_all add: marking_ok_def)
  note m = marker_okD [OF ok(1)]
  let ?b = "v div HBLKSIZE" and ?slot = "v div HBLKSIZE mod HDR_CACHE_SIZE"
  have b0: "?b \<noteq> 0" using assms(2) m(5) div_le_mono [of HBLKSIZE v HBLKSIZE] by (auto simp: plausible_def)
  show thesis
  proof (cases "hc ?slot = ?b")
    case True
    then obtain hh where hh: "HDR st ?b = Hdr hh" "\<not> HBLK_IS_FREE hh" using ok(3) b0 unfolding cache_ok_def by metis
    have r: "HC_GET_HDR v hc st = Some (?b, hc, st)" using True by (simp add: HC_GET_HDR_def)
    show thesis
    proof (rule that [OF r assms(1) refl refl same_shape_refl])
      show "\<exists>hh. HDR st ?b = Hdr hh \<and> \<not> HBLK_IS_FREE hh \<and> ?b \<le> ?b \<and> ?b < ?b + blocks_of hh"
        using hh layout_blocks_pos [OF m(2) hh(1)] by auto
      show "\<exists>r. GC_header_cache_miss (GC_all_interior_pointers st) st v = Some r \<and> cm_block r = ?b"
        using hh by (simp add: GC_header_cache_miss_def)
    qed
  next
    case miss: False
    obtain r where r: "GC_header_cache_miss (GC_all_interior_pointers st) st v = Some r"
        "cm_block r \<noteq> 0 \<Longrightarrow> \<exists>hh. HDR st (cm_block r) = Hdr hh \<and> \<not> HBLK_IS_FREE hh \<and> cm_block r \<le> ?b \<and> ?b < cm_block r + blocks_of hh"
        "cm_cached r \<Longrightarrow> cm_block r = ?b"
      using cache_miss_total [OF m(2)] by metis
    let ?hc = "if cm_cached r then hc(?slot := ?b) else hc"
    have c: "cache_ok ?hc st" using ok(3) r(2,3) b0 by (auto simp: cache_ok_def)
    obtain bl where bl: "GC_ADD_TO_BLACK_LIST_NORMAL v st = Some (st\<lparr> GC_black_lists := bl \<rparr>)" "marker_ok (st\<lparr> GC_black_lists := bl \<rparr>)"
      by (rule blacklist_ok [OF ok(1)])
    define st' where "st' = (if cm_black r then st\<lparr> GC_black_lists := bl \<rparr> else st)"
    have run: "HC_GET_HDR v hc st = Some (cm_block r, ?hc, st')"
      using miss r(1) bl(1) by (simp add: HC_GET_HDR_def Let_def st'_def)
    have s: "same_shape st st'" "HDR st' = HDR st" "GC_mark_state st' = GC_mark_state st" "marker_ok st'"
      using bl(2) ok(1) by (simp_all add: st'_def)
    show thesis
    proof (rule that [OF run _ s(2,3,1) r(2)])
      show "marking_ok st0 (stack, ?hc, st')"
        using same_shape_trans [OF ok(2) s(1)] s(4) cache_ok_shape [OF c s(1)] ok(4) by (simp add: marking_ok_def st'_def)
    qed (use r in auto)
  qed
qed

text \<open>Setting one mark bit.\<close>

lemma card_object_bits: "card {n. object_bit sz n \<and> P n} \<le> 512"
proof -
  have "card {n. object_bit sz n \<and> P n} \<le> card {..< FINAL_MARK_BIT sz}" by (rule card_mono) (auto simp: object_bit_def)
  then show ?thesis using FINAL_MARK_BIT_le [of sz] by (simp add: gc_consts)
qed

lemma count_ok_set:
  assumes "count_ok hh" "object_bit (hb_sz hh) n" "\<not> mark_bit_from_hdr hh n"
  shows "count_ok ((set_mark_bit_from_hdr hh n)\<lparr> hb_n_marks := wadd (hb_n_marks hh) 1 \<rparr>)"
proof -
  let ?hh = "(set_mark_bit_from_hdr hh n)\<lparr> hb_n_marks := wadd (hb_n_marks hh) 1 \<rparr>"
  let ?M = "\<lambda>hh. {k. object_bit (hb_sz hh) k \<and> mark_bit_from_hdr hh k}"
  have "?M ?hh = insert n (?M hh)" using assms(2) by (auto simp: set_mark_bit_from_hdr_def mark_bit_from_hdr_def)
  moreover have "n \<notin> ?M hh" using assms(3) by simp
  ultimately have "card (?M ?hh) = Suc (hb_n_marks hh)" using assms(1) by (simp add: count_ok_def)
  moreover have "wadd (hb_n_marks hh) 1 = hb_n_marks hh + 1"
    using assms(1) card_object_bits [of "hb_sz hh" "mark_bit_from_hdr hh"] by (intro wadd_id) (simp add: count_ok_def)
  ultimately show ?thesis by (simp add: count_ok_def)
qed

lemma set_mark_ok:
  fixes st :: "'a gc_marker_scheme" and n :: nat
  assumes "marker_ok st" "HDR st h = Hdr hh" "\<not> HBLK_IS_FREE hh" "object_bit (hb_sz hh) n" "\<not> mark_bit_from_hdr hh n"
  defines "st' \<equiv> upd_hdr h (\<lambda>hh. (set_mark_bit_from_hdr hh n)\<lparr> hb_n_marks := wadd (hb_n_marks hh) 1 \<rparr>) st"
  shows "same_shape st st'" "marker_ok st'" "marked st' = insert (h, n) (marked st)"
proof -
  note m = marker_okD [OF assms(1)]
  have H: "HDR st' b = (if b = h then Hdr ((set_mark_bit_from_hdr hh n)\<lparr> hb_n_marks := wadd (hb_n_marks hh) 1 \<rparr>) else HDR st b)" for b
    using assms(2) m(1) by (simp add: st'_def HDR_upd_hdr)
  show s: "same_shape st st'"
    using H assms(2,3) by (simp add: same_shape_def same_objs_def st'_def set_mark_bit_from_hdr_def)
  show M: "marked st' = insert (h, n) (marked st)"
    using H assms(2) by (auto simp: marked_def set_mark_bit_from_hdr_def mark_bit_from_hdr_def split: if_splits)
  show "marker_ok st'"
  proof (rule marker_ok_shape [OF assms(1) s])
    have "count_ok ((set_mark_bit_from_hdr hh n)\<lparr> hb_n_marks := wadd (hb_n_marks hh) 1 \<rparr>)"
      using m(7) assms(2-5) count_ok_set by (auto simp: counts_ok_def)
    then show "counts_ok st'"
      using H m(7) by (auto simp: counts_ok_def HBLK_IS_FREE_def set_mark_bit_from_hdr_def split: if_splits)
  qed (use m(1,4) M in \<open>auto simp: st'_def bl_ok_def\<close>)
qed

lemma signal_overflow_ok:
  fixes st :: "'a gc_marker_scheme"
  assumes "marker_ok st" "GC_signal_mark_stack_overflow stack st = (stack', st')"
  shows "same_shape st st'" "marker_ok st'" "marked st' = marked st" "GC_mark_state st' = MS_INVALID"
    "stack' = drop GC_MARK_STACK_DISCARDS stack"
proof -
  have st': "st' = st\<lparr> GC_mark_state := MS_INVALID, GC_mark_stack_too_small := True \<rparr>" "stack' = drop GC_MARK_STACK_DISCARDS stack"
    using assms(2) by (simp_all add: GC_signal_mark_stack_overflow_def)
  then show "stack' = drop GC_MARK_STACK_DISCARDS stack" "GC_mark_state st' = MS_INVALID" by simp_all
  show s: "same_shape st st'" by (simp add: st' same_shape_def same_objs_def)
  show M: "marked st' = marked st" by (rule marked_cong) (simp add: st')
  show "marker_ok st'"
    by (rule marker_ok_shape [OF assms(1) s]) (use marker_okD(1,4,7) [OF assms(1)] M in \<open>auto simp: st' bl_ok_def counts_ok_def\<close>)
qed

lemma PUSH_OBJ_ok:
  fixes st :: "'a gc_marker_scheme"
  assumes "marker_ok st" "PUSH_OBJ obj hh limit stack st = (stack', st')"
  shows "same_shape st st'" "marker_ok st'" "marked st' = marked st"
    "(stack', GC_mark_state st') =
       (if hb_descr hh = 0 then (stack, GC_mark_state st)
        else if length stack \<ge> limit
        then (\<lparr> mse_start = obj, mse_descr = hb_descr hh \<rparr> # drop GC_MARK_STACK_DISCARDS stack, MS_INVALID)
        else (\<lparr> mse_start = obj, mse_descr = hb_descr hh \<rparr> # stack, GC_mark_state st))"
proof -
  obtain below st1 where o: "GC_signal_mark_stack_overflow stack st = (below, st1)" by fastforce
  note ov = signal_overflow_ok [OF assms(1) o]
  show "same_shape st st'" "marker_ok st'" "marked st' = marked st"
    "(stack', GC_mark_state st') =
       (if hb_descr hh = 0 then (stack, GC_mark_state st)
        else if length stack \<ge> limit
        then (\<lparr> mse_start = obj, mse_descr = hb_descr hh \<rparr> # drop GC_MARK_STACK_DISCARDS stack, MS_INVALID)
        else (\<lparr> mse_start = obj, mse_descr = hb_descr hh \<rparr> # stack, GC_mark_state st))"
    using assms ov by (auto simp: PUSH_OBJ_def Let_def o split: if_splits)
qed

lemma PUSH_CONTENTS_HDR_ok:
  fixes st :: "'a gc_marker_scheme"
  assumes ok: "marker_ok st" and h: "HDR st h = Hdr hh" "\<not> HBLK_IS_FREE hh" "h \<le> v div HBLKSIZE" "v div HBLKSIZE < h + blocks_of hh"
  obtains stack' st' x where "PUSH_CONTENTS_HDR v limit h c stack st = Some (stack', st')" "same_shape st st'" "marker_ok st'"
    "object_start c st hh v = Some x"
    "(marked st', stack', GC_mark_state st') =
      (case x of None \<Rightarrow> (marked st, stack, GC_mark_state st)
       | Some (n, base) \<Rightarrow> push1 st limit (h, n) (marked st, stack, GC_mark_state st))"
proof -
  note m = marker_okD [OF ok]
  obtain x where x: "object_start c st hh v = Some x"
      "\<And>n base. x = Some (n, base) \<Longrightarrow> base = hblk_addr h + n * GRANULE_BYTES \<and> n \<le> FINAL_MARK_BIT (hb_sz hh)
         \<and> (n \<noteq> FINAL_MARK_BIT (hb_sz hh) \<longrightarrow> object_bit (hb_sz hh) n)"
    using object_start_ok [OF m(6) [OF h(1,2)] m(3) h(3,4)] by metis
  show thesis
  proof (cases x)
    case None
    obtain bl where bl: "GC_ADD_TO_BLACK_LIST_NORMAL v st = Some (st\<lparr> GC_black_lists := bl \<rparr>)" "marker_ok (st\<lparr> GC_black_lists := bl \<rparr>)"
      by (rule blacklist_ok [OF ok])
    have run: "PUSH_CONTENTS_HDR v limit h c stack st = Some (stack, st\<lparr> GC_black_lists := bl \<rparr>)"
      using None x(1) h(1) bl(1) by (simp add: PUSH_CONTENTS_HDR_def)
    show ?thesis by (rule that [OF run _ bl(2) x(1)]) (simp_all add: None marked_def)
  next
    case (Some y)
    obtain n base where y: "x = Some (n, base)" using Some by (cases y) auto
    then have base: "base = hblk_addr h + n * GRANULE_BYTES" using x(2) by simp
    show ?thesis
    proof (cases "mark_bit_from_hdr hh n")
      case True
      then have in_M: "(h, n) \<in> marked st" using h(1) by (auto simp: marked_def)
      have run: "PUSH_CONTENTS_HDR v limit h c stack st = Some (stack, st)"
        using y x(1) h(1) True by (simp add: PUSH_CONTENTS_HDR_def)
      show ?thesis by (rule that [OF run same_shape_refl ok x(1)]) (simp add: y push1_def in_M)
    next
      case False
      then have not_M: "(h, n) \<notin> marked st" using h(1) by (auto simp: marked_def)
      define st1 where "st1 = upd_hdr h (\<lambda>hh. (set_mark_bit_from_hdr hh n)\<lparr> hb_n_marks := wadd (hb_n_marks hh) 1 \<rparr>) st"
      have "mark_bit_from_hdr hh (FINAL_MARK_BIT (hb_sz hh))" using m(6) [OF h(1,2)] by (simp add: object_hdr_def)
      then have "object_bit (hb_sz hh) n" using False x(2) [OF y] by (cases "n = FINAL_MARK_BIT (hb_sz hh)") auto
      note s1 = set_mark_ok [OF ok h(1,2) this False, folded st1_def]
      obtain stack' st' where p: "PUSH_OBJ base hh limit stack st1 = (stack', st')" by fastforce
      note P = PUSH_OBJ_ok [OF s1(2) p]
      have run: "PUSH_CONTENTS_HDR v limit h c stack st = Some (stack', st')"
        using y x(1) h(1) False p by (simp add: PUSH_CONTENTS_HDR_def st1_def)
      have e: "entry_of st (h, n) = \<lparr> mse_start = base, mse_descr = hb_descr hh \<rparr>"
        using h(1) base by (simp add: entry_of_def hdr_at_def)
      have ms: "GC_mark_state st1 = GC_mark_state st" by (simp add: st1_def)
      have "(marked st', stack', GC_mark_state st') = push1 st limit (h, n) (marked st, stack, GC_mark_state st)"
        using P(3,4) s1(3) not_M ms by (auto simp: push1_def e split: if_splits)
      then show ?thesis using that [OF run same_shape_trans [OF s1(1) P(1)] P(2) x(1)] y by simp
    qed
  qed
qed

lemma PUSH_CONTENTS_ok:
  assumes ok: "marking_ok st0 s" and p: "plausible st0 v" and lay: "layout_ok st0"
  obtains s' where "PUSH_CONTENTS v limit s = Some s'" "marking_ok st0 s'"
    "view_of s' = (case target st0 v of None \<Rightarrow> view_of s | Some ob \<Rightarrow> push1 st0 limit ob (view_of s))"
proof -
  obtain stack hc st where s: "s = (stack, hc, st)" by (cases s) auto
  have st: "same_shape st0 st" "marker_ok st" using ok by (simp_all add: marking_ok_def s)
  have p': "plausible st v" using p shape_simps(1) [OF st(1)] by simp
  have t: "target st v = target st0 v" by (rule target_shape [OF st(1) lay])
  obtain h hc1 st1 where g: "HC_GET_HDR v hc st = Some (h, hc1, st1)" "marking_ok st0 (stack, hc1, st1)" "HDR st1 = HDR st"
      "GC_mark_state st1 = GC_mark_state st" "same_shape st st1"
      "h \<noteq> 0 \<Longrightarrow> \<exists>hh. HDR st h = Hdr hh \<and> \<not> HBLK_IS_FREE hh \<and> h \<le> v div HBLKSIZE \<and> v div HBLKSIZE < h + blocks_of hh"
      "\<exists>r. GC_header_cache_miss (GC_all_interior_pointers st) st v = Some r \<and> cm_block r = h"
    by (rule HC_GET_HDR_ok [OF ok [unfolded s] p']) (rule that; assumption)
  obtain r where r: "GC_header_cache_miss (GC_all_interior_pointers st) st v = Some r" "cm_block r = h" using g(7) by blast
  have v1: "view_of (stack, hc1, st1) = view_of s" using g(3,4) by (simp add: view_of_def s marked_def)
  show thesis
  proof (cases "h = 0")
    case True
    have "target st v = None" using r True by (simp add: target_def)
    then show ?thesis using that [of "(stack, hc1, st1)"] g(1,2) True v1 t by (simp add: PUSH_CONTENTS_def s)
  next
    case False
    then obtain hh where hh: "HDR st1 h = Hdr hh" "\<not> HBLK_IS_FREE hh" "h \<le> v div HBLKSIZE" "v div HBLKSIZE < h + blocks_of hh"
      using g(3,6) by auto
    have ok1: "marker_ok st1" "same_shape st0 st1" "cache_ok hc1 st1" "GC_objects_are_marked st1" using g(2) by (simp_all add: marking_ok_def)
    obtain stack' st' x where P: "PUSH_CONTENTS_HDR v limit h True stack st1 = Some (stack', st')" "same_shape st1 st'" "marker_ok st'"
        "object_start True st1 hh v = Some x"
        "(marked st', stack', GC_mark_state st') =
          (case x of None \<Rightarrow> (marked st1, stack, GC_mark_state st1)
           | Some (n, base) \<Rightarrow> push1 st1 limit (h, n) (marked st1, stack, GC_mark_state st1))"
      by (rule PUSH_CONTENTS_HDR_ok [OF ok1(1) hh]) (rule that; assumption)
    have x: "object_start True st hh v = Some x" using P(4) object_start_cong [OF g(5), of hh hh] by simp
    have "target st v = map_option (\<lambda>(n, base). (h, n)) x"
      using r False hh(1) x by (simp add: target_def g(3) split: option.splits)
    then have "view_of (stack', hc1, st') = (case target st0 v of None \<Rightarrow> view_of s | Some ob \<Rightarrow> push1 st0 limit ob (view_of s))"
      using P(5) v1 t push1_shape [OF ok1(2)] by (auto simp: view_of_def split: option.splits)
    moreover have "marking_ok st0 (stack', hc1, st')"
      using same_shape_trans [OF ok1(2) P(2)] P(2,3) cache_ok_shape [OF ok1(3) P(2)] ok1(4) by (simp add: marking_ok_def same_shape_def same_objs_def)
    moreover have "PUSH_CONTENTS v limit s = Some (stack', hc1, st')"
      using g(1) False P(1) by (simp add: PUSH_CONTENTS_def s)
    ultimately show ?thesis using that by blast
  qed
qed

section \<open>Scans as steps of the abstract marker\<close>

lemma marking_ok_mem:
  assumes "marking_ok st0 s"
  shows "mem_word (snd (snd s)) w = mem_word st0 w" "plausible (snd (snd s)) v = plausible st0 v"
  using assms shape_simps [of st0 "snd (snd s)"] by (simp_all add: marking_ok_def)

lemma find_deferred_None:
  "find_deferred st p l = None \<Longrightarrow> p < l \<Longrightarrow> p \<le> w \<Longrightarrow> w < l \<Longrightarrow> \<not> plausible st (mem_word st w)"
proof (induction st p l rule: find_deferred.induct)
  case (1 st p l)
  have n: "\<not> plausible st (mem_word st (l - 1))" "p \<ge> l - 1 \<or> find_deferred st p (l - 1) = None"
    using "1.prems"(1) by (auto simp: find_deferred.simps [of st p l] Let_def split: if_splits)
  show ?case
  proof (cases "w = l - 1")
    case False
    then have "w < l - 1" "p < l - 1" using "1.prems" by auto
    then show ?thesis using "1.IH" [OF refl refl n(1)] n(2) "1.prems" by auto
  qed (use n in simp)
qed

lemma find_deferred_Some:
  "find_deferred st p l = Some (v, l') \<Longrightarrow> p < l \<Longrightarrow>
     p \<le> l' \<and> l' < l \<and> v = mem_word st l' \<and> plausible st v \<and> (\<forall>w. l' < w \<and> w < l \<longrightarrow> \<not> plausible st (mem_word st w))"
proof (induction st p l rule: find_deferred.induct)
  case (1 st p l)
  show ?case
  proof (cases "plausible st (mem_word st (l - 1))")
    case True
    then show ?thesis using "1.prems" by (auto simp: find_deferred.simps [of st p l] Let_def)
  next
    case False
    then have "\<not> p \<ge> l - 1" and r: "find_deferred st p (l - 1) = Some (v, l')"
      using "1.prems"(1) by (auto simp: find_deferred.simps [of st p l] Let_def split: if_splits)
    then have i: "p \<le> l'" "l' < l - 1" "v = mem_word st l'" "plausible st v"
        "\<forall>w. l' < w \<and> w < l - 1 \<longrightarrow> \<not> plausible st (mem_word st w)"
      using "1.IH" [OF refl refl False _ r] by auto
    moreover have "\<not> plausible st (mem_word st w)" if "l' < w" "w < l" for w
      using that i(5) False by (cases "w = l - 1") auto
    ultimately show ?thesis by auto
  qed
qed

lemma scan_word:
  assumes ok: "marking_ok st0 s" and lay: "layout_ok st0" and p: "plausible st0 (mem_word st0 w)"
  obtains s' where "PUSH_CONTENTS (mem_word st0 w) limit s = Some s'" "marking_ok st0 s'"
    "view_of s' = visit st0 limit w (view_of s)"
  by (rule PUSH_CONTENTS_ok [OF ok p lay, of limit]) (rule that, auto simp: visit_def pointee_def p)

lemma visit_implausible [simp]: "\<not> plausible st (mem_word st w) \<Longrightarrow> visit st limit w a = a"
  by (simp add: visit_def pointee_def)

lemma scan_up_ok:
  assumes "marking_ok st0 s" "layout_ok st0"
  shows "\<exists>s'. scan_up p l limit s = Some s' \<and> marking_ok st0 s' \<and> view_of s' = fold (visit st0 limit) [p ..< l] (view_of s)"
  using assms(1)
proof (induction "l - p" arbitrary: p s)
  case 0
  then show ?case by (simp add: scan_up.simps [of p])
next
  case (Suc k)
  then have pl: "p < l" and k: "k = l - (p + 1)" by auto
  have u: "[p ..< l] = p # [p + 1 ..< l]" using pl by (simp add: upt_conv_Cons)
  note mm = marking_ok_mem [OF Suc.prems]
  show ?case
  proof (cases "plausible st0 (mem_word st0 p)")
    case True
    obtain s' where s': "PUSH_CONTENTS (mem_word st0 p) limit s = Some s'" "marking_ok st0 s'" "view_of s' = visit st0 limit p (view_of s)"
      by (rule scan_word [OF Suc.prems assms(2) True])
    from Suc.hyps(1) [OF k s'(2)] s' True pl show ?thesis
      unfolding u by (simp add: scan_up.simps [of p] mm Let_def)
  next
    case False
    from Suc.hyps(1) [OF k Suc.prems] False pl show ?thesis
      unfolding u by (simp add: scan_up.simps [of p] mm Let_def)
  qed
qed

lemma fold_visit_id: "(\<And>w. w \<in> set ws \<Longrightarrow> \<not> plausible st (mem_word st w)) \<Longrightarrow> fold (visit st limit) ws a = a"
  by (induction ws arbitrary: a) auto

lemma find_deferred_shape:
  assumes "same_shape st0 st"
  shows "find_deferred st p l = find_deferred st0 p l"
  using shape_simps [OF assms]
proof (induction st p l rule: find_deferred.induct)
  case (1 st p l)
  then show ?case by (subst (1 2) find_deferred.simps) (auto simp: Let_def)
qed

lemma scan_range_ok:
  assumes ok: "marking_ok st0 s" and lay: "layout_ok st0" and pl: "p < l"
  obtains s' ws where "scan_range p l limit s = Some s'" "marking_ok st0 s'" "set ws = {p ..< l}"
    "view_of s' = fold (visit st0 limit) ws (view_of s)"
proof -
  have sh: "same_shape st0 (snd (snd s))" using ok by (simp add: marking_ok_def)
  note fd = find_deferred_shape [OF sh, of p l]
  show thesis
  proof (cases "find_deferred st0 p l")
    case None
    have "fold (visit st0 limit) [p ..< l] (view_of s) = view_of s"
      by (rule fold_visit_id) (use find_deferred_None [OF None pl] in auto)
    then show ?thesis using that [of s "[p ..< l]"] ok None by (simp add: scan_range_def fd)
  next
    case (Some x)
    then obtain v l' where x: "find_deferred st0 p l = Some (v, l')" by (cases x) auto
    have d: "p \<le> l'" "l' < l" "v = mem_word st0 l'" "plausible st0 v" "\<And>w. l' < w \<Longrightarrow> w < l \<Longrightarrow> \<not> plausible st0 (mem_word st0 w)"
      using find_deferred_Some [OF x pl] by auto
    obtain s1 where s1: "scan_up p l' limit s = Some s1" "marking_ok st0 s1" "view_of s1 = fold (visit st0 limit) [p ..< l'] (view_of s)"
      using scan_up_ok [OF ok lay] by blast
    obtain s2 where s2: "PUSH_CONTENTS (mem_word st0 l') limit s1 = Some s2" "marking_ok st0 s2" "view_of s2 = visit st0 limit l' (view_of s1)"
      by (rule scan_word [OF s1(2) lay]) (use d(3,4) in auto)
    let ?ws = "[p ..< l'] @ l' # [l' + 1 ..< l]"
    have set_ws: "set ?ws = {p ..< l}" using d(1,2) by auto
    have "fold (visit st0 limit) [l' + 1 ..< l] a = a" for a
      by (rule fold_visit_id) (use d(5) in auto)
    then have "view_of s2 = fold (visit st0 limit) ?ws (view_of s)" using s1(3) s2(3) by simp
    then show ?thesis using that [OF _ s2(2) set_ws] s1(1) s2(1) d(3) x by (simp add: scan_range_def fd)
  qed
qed

lemma shifted_bit: "i + k < 32 \<Longrightarrow> bit (word32 (d * 2 ^ i)) (i + k) \<longleftrightarrow> bit d k"
proof -
  assume "i + k < 32"
  moreover have "word32 (d * 2 ^ i) = take_bit 32 (push_bit i d)"
    by (simp add: word32_def take_bit_eq_mod push_bit_eq_mult)
  ultimately show ?thesis by (simp add: bit_take_bit_iff bit_push_bit_iff)
qed

lemma sign_bit: "signed_word (word32 x) < 0 \<longleftrightarrow> bit (word32 x) 31"
proof -
  have w: "word32 x < 2 ^ 32" by (rule word32_less)
  then have "word32 x div 2 ^ 31 < 2" by (simp add: less_mult_imp_div_less)
  then have "odd (word32 x div 2 ^ 31) \<longleftrightarrow> word32 x div 2 ^ 31 \<noteq> 0" by (auto simp: less_2_cases_iff)
  also have "\<dots> \<longleftrightarrow> 2 ^ 31 \<le> word32 x" by (simp add: div_eq_0_iff not_less)
  finally show ?thesis using signed_word_neg_iff [OF w] by (simp add: bit_iff_odd)
qed

lemma scan_bitmap_ok:
  assumes "marking_ok st0 s" "layout_ok st0"
  shows "\<exists>s' ws. scan_bitmap d i p limit s = Some s' \<and> marking_ok st0 s'
    \<and> set ws = {p + j |j. i \<le> j \<and> j < 32 \<and> bit d (31 - j)} \<and> view_of s' = fold (visit st0 limit) ws (view_of s)"
  using assms(1)
proof (induction "32 - i" arbitrary: i s)
  case 0
  then have i: "32 \<le> i" by simp
  then have "scan_bitmap d i p limit s = Some s" by (simp add: scan_bitmap.simps [of d i] shifted_out)
  moreover have "{p + j |j. i \<le> j \<and> j < 32 \<and> bit d (31 - j)} = {}" using i by auto
  ultimately show ?case using 0 by (intro exI [of _ s] exI [of _ "[]"]) simp
next
  case (Suc k)
  then have i: "i < 32" and k: "k = 32 - (i + 1)" by auto
  note mm = marking_ok_mem [OF Suc.prems]
  have bits: "j = i \<or> i + 1 \<le> j" if "i \<le> j" for j using that by linarith
  show ?case
  proof (cases "word32 (d * 2 ^ i) = 0")
    case True
    have "\<not> bit d (31 - j)" if "i \<le> j" "j < 32" for j
      using shifted_bit [of i "31 - j" d] True that by simp
    then have "{p + j |j. i \<le> j \<and> j < 32 \<and> bit d (31 - j)} = {}" by auto
    then show ?thesis using True Suc.prems by (intro exI [of _ s] exI [of _ "[]"]) (simp add: scan_bitmap.simps [of d i])
  next
    case nz: False
    have sb: "signed_word (word32 (d * 2 ^ i)) < 0 \<longleftrightarrow> bit d (31 - i)"
      using shifted_bit [of i "31 - i" d] i by (simp add: sign_bit)
    show ?thesis
    proof (cases "bit d (31 - i) \<and> plausible st0 (mem_word st0 (p + i))")
      case True
      obtain s1 where s1: "PUSH_CONTENTS (mem_word st0 (p + i)) limit s = Some s1" "marking_ok st0 s1"
          "view_of s1 = visit st0 limit (p + i) (view_of s)"
        by (rule scan_word [OF Suc.prems assms(2)]) (use True in auto)
      obtain s2 ws where s2: "scan_bitmap d (i + 1) p limit s1 = Some s2" "marking_ok st0 s2"
          "set ws = {p + j |j. i + 1 \<le> j \<and> j < 32 \<and> bit d (31 - j)}" "view_of s2 = fold (visit st0 limit) ws (view_of s1)"
        using Suc.hyps(1) [OF k s1(2)] by blast
      have run: "scan_bitmap d i p limit s = Some s2"
        using nz True sb s1(1) s2(1) by (simp add: scan_bitmap.simps [of d i] Let_def mm)
      have "set ((p + i) # ws) = {p + j |j. i \<le> j \<and> j < 32 \<and> bit d (31 - j)}"
        using s2(3) True i bits by auto
      then show ?thesis using run s2(2,4) s1(3) by (intro exI [of _ s2] exI [of _ "(p + i) # ws"]) simp
    next
      case False
      obtain s2 ws where s2: "scan_bitmap d (i + 1) p limit s = Some s2" "marking_ok st0 s2"
          "set ws = {p + j |j. i + 1 \<le> j \<and> j < 32 \<and> bit d (31 - j)}" "view_of s2 = fold (visit st0 limit) ws (view_of s)"
        using Suc.hyps(1) [OF k Suc.prems] by blast
      have run: "scan_bitmap d i p limit s = Some s2"
        using nz False sb s2(1) by (auto simp: scan_bitmap.simps [of d i] Let_def mm)
      let ?ws = "(if bit d (31 - i) then [p + i] else []) @ ws"
      have "set ?ws = {p + j |j. i \<le> j \<and> j < 32 \<and> bit d (31 - j)}"
        using s2(3) i bits by auto
      then show ?thesis using run s2(2,4) False by (intro exI [of _ s2] exI [of _ ?ws]) auto
    qed
  qed
qed

section \<open>One object\<close>

definition entry_ok :: "mse \<Rightarrow> bool" where
  "entry_ok e \<longleftrightarrow> simple_descr (mse_descr e) \<and> mse_descr e \<noteq> 0 \<and> mse_start e mod 4 = 0"

lemma mark_object_ok:
  assumes ok: "marking_ok st0 (stack, hc, st)" and lay: "layout_ok st0" and e: "entry_ok e"
  obtains c s' ws left where "mark_object procs limit (mse_start e) (mse_descr e) (stack, hc, st) = Some (None, c, s')" "0 < c"
    "marking_ok st0 s'" "view_of s' = fold (visit st0 limit) ws (marked st, left @ stack, GC_mark_state st)"
    "set ws \<union> \<Union> (entry_words ` set left) = entry_words e" "\<And>f. f \<in> set left \<Longrightarrow> entry_ok f"
    "sum_list (map mse_descr left) < mse_descr e" "length left \<le> 1"
proof -
  let ?p = "mse_start e" and ?d = "mse_descr e"
  have d: "?d mod 4 = 0 \<or> ?d mod 4 = 1" "?d < 2 ^ 32" "?d \<noteq> 0" "?p mod 4 = 0"
    using e by (auto simp: entry_ok_def simple_descr_def GC_DS_LENGTH_def GC_DS_BITMAP_def)
  have ok': "marking_ok st0 (x # stack, hc, st)" for x using ok by (simp add: marking_ok_def)
  consider (large) "?d mod 4 = 0" "512 \<le> ?d" | (small) "?d mod 4 = 0" "?d < 512" | (bitmap) "?d mod 4 = 1"
    using d(1) by linarith
  then show thesis
  proof cases
    case large
    let ?f = "\<lparr> mse_start = ?p + 508, mse_descr = ?d - 508 \<rparr>"
    have lt: "?p div 4 < (?p + 508) div 4" using d(4) by linarith
    have m508: "(?d - 508) mod 4 = 0" using large by presburger
    obtain s' ws where s': "scan_range (?p div 4) ((?p + 508) div 4) limit (?f # stack, hc, st) = Some s'" "marking_ok st0 s'"
        "set ws = {?p div 4 ..< (?p + 508) div 4}" "view_of s' = fold (visit st0 limit) ws (view_of (?f # stack, hc, st))"
      by (rule scan_range_ok [OF ok' lay lt])
    have run: "mark_object procs limit ?p ?d (stack, hc, st) = Some (None, 508, s')"
      using large s'(1) by (simp add: mark_object_def SPLIT_RANGE_WORDS_def GC_DS_LENGTH_def)
    have w: "entry_words e = {?p div 4 ..< (?p + ?d) div 4}" "entry_words ?f = {(?p + 508) div 4 ..< (?p + ?d) div 4}"
      using large m508 by (simp_all add: entry_words_def Let_def GC_DS_LENGTH_def)
    show ?thesis
    proof (rule that [OF run _ s'(2), of ws "[?f]"])
      show "set ws \<union> \<Union> (entry_words ` set [?f]) = entry_words e" using w s'(3) large lt by auto
      show "entry_ok f" if "f \<in> set [?f]" for f
        using that large d by (auto simp: entry_ok_def simple_descr_def GC_DS_LENGTH_def)
    qed (use s'(4) large in \<open>simp_all add: view_of_def\<close>)
  next
    case small
    have lt: "?p div 4 < (?p + ?d) div 4" using d(3,4) small(1) by presburger
    obtain s' ws where s': "scan_range (?p div 4) ((?p + ?d) div 4) limit (stack, hc, st) = Some s'" "marking_ok st0 s'"
        "set ws = {?p div 4 ..< (?p + ?d) div 4}" "view_of s' = fold (visit st0 limit) ws (view_of (stack, hc, st))"
      by (rule scan_range_ok [OF ok lay lt])
    have run: "mark_object procs limit ?p ?d (stack, hc, st) = Some (None, ?d, s')"
      using small s'(1) by (simp add: mark_object_def SPLIT_RANGE_WORDS_def)
    show ?thesis
      by (rule that [OF run _ s'(2), of ws "[]"])
        (use d(3) s'(3,4) small in \<open>simp_all add: view_of_def entry_words_def Let_def GC_DS_LENGTH_def\<close>)
  next
    case bitmap
    obtain s' ws where s': "scan_bitmap (?d - ?d mod 4) 0 (?p div 4) limit (stack, hc, st) = Some s'" "marking_ok st0 s'"
        "set ws = {?p div 4 + j |j. 0 \<le> j \<and> j < 32 \<and> bit (?d - ?d mod 4) (31 - j)}"
        "view_of s' = fold (visit st0 limit) ws (view_of (stack, hc, st))"
      using scan_bitmap_ok [OF ok lay, of "?d - ?d mod 4" 0 "?p div 4" limit] by (elim exE conjE) (rule that; assumption)
    have run: "mark_object procs limit ?p ?d (stack, hc, st) = Some (None, 64, s')"
      using bitmap s'(1) by (simp add: mark_object_def GC_DS_LENGTH_def GC_DS_BITMAP_def WORDSZ_def)
    have b: "bit (?d - ?d mod 4) k \<longleftrightarrow> 2 \<le> k \<and> bit ?d k" for k
    proof -
      have "?d - ?d mod 4 = push_bit 2 (drop_bit 2 ?d)"
        by (simp add: push_bit_eq_mult drop_bit_eq_div minus_mod_eq_div_mult)
      then have "bit (?d - ?d mod 4) k \<longleftrightarrow> 2 \<le> k \<and> bit ?d (2 + (k - 2))" by (simp only: bit_push_bit_iff_nat bit_drop_bit_eq o_apply)
      then show ?thesis by (metis le_add_diff_inverse)
    qed
    have "entry_words e = set ws"
      unfolding s'(3) b using bitmap by (auto simp: entry_words_def Let_def GC_DS_LENGTH_def)
    then show ?thesis
      by (intro that [OF run _ s'(2), of ws "[]"]) (use d(3) s'(4) in \<open>simp_all add: view_of_def\<close>)
  qed
qed

section \<open>Properties of the abstract marker\<close>

definition pointees :: "'a gc_marker_scheme \<Rightarrow> nat set \<Rightarrow> obj set" where
  "pointees st W = {ob. \<exists>w \<in> W. pointee st w = Some ob}"

lemma pointees_mono: "V \<subseteq> W \<Longrightarrow> pointees st V \<subseteq> pointees st W"
  by (auto simp: pointees_def)

lemma pointees_simps [simp]:
  "pointees st {} = {}" "pointees st (insert w W) = (case pointee st w of None \<Rightarrow> {} | Some ob \<Rightarrow> {ob}) \<union> pointees st W"
  by (auto simp: pointees_def split: option.splits)

text \<open>What a sequence of pushes does, and a sequence of visits.\<close>

lemma pushes_spec:
  assumes "fold (push1 st limit) obs (M, stk, ms) = (M', stk', ms')"
  shows "M' = M \<union> set obs"
    "set stk' \<subseteq> set stk \<union> entry_of st ` (M' - M)"
    "ms' = ms \<and> set stk \<subseteq> set stk' \<and> (\<forall>ob \<in> M' - M. mse_descr (entry_of st ob) = 0 \<or> entry_of st ob \<in> set stk') \<or> ms' = MS_INVALID"
    "M' = M \<Longrightarrow> stk' = stk \<and> ms' = ms"
    "length stk \<le> limit \<Longrightarrow> 0 < limit \<Longrightarrow> length stk' \<le> limit"
    "\<And>e. e \<in> set stk' \<Longrightarrow> e \<in> set stk \<or> mse_descr e \<noteq> 0"
proof -
  have "M' = M \<union> set obs
    \<and> set stk' \<subseteq> set stk \<union> entry_of st ` (M' - M)
    \<and> (ms' = ms \<and> set stk \<subseteq> set stk' \<and> (\<forall>ob \<in> M' - M. mse_descr (entry_of st ob) = 0 \<or> entry_of st ob \<in> set stk') \<or> ms' = MS_INVALID)
    \<and> (M' = M \<longrightarrow> stk' = stk \<and> ms' = ms)
    \<and> (length stk \<le> limit \<longrightarrow> 0 < limit \<longrightarrow> length stk' \<le> limit)
    \<and> (\<forall>e \<in> set stk'. e \<in> set stk \<or> mse_descr e \<noteq> 0)"
    using assms
  proof (induction obs arbitrary: M stk ms)
    case Nil
    then show ?case by simp
  next
    case (Cons ob obs)
    obtain M1 stk1 ms1 where p: "push1 st limit ob (M, stk, ms) = (M1, stk1, ms1)" by (cases "push1 st limit ob (M, stk, ms)") auto
    have f: "fold (push1 st limit) obs (M1, stk1, ms1) = (M', stk', ms')" using Cons.prems p by simp
    note IH = Cons.IH [OF f]
    have dr: "set (drop GC_MARK_STACK_DISCARDS stk) \<subseteq> set stk" by (rule set_drop_subset)
    have sub: "M1 \<subseteq> M'" using IH by blast
    consider (no) "M1 = M" "stk1 = stk" "ms1 = ms" "ob \<in> M"
      | (leaf) "ob \<notin> M" "M1 = insert ob M" "stk1 = stk" "ms1 = ms" "mse_descr (entry_of st ob) = 0"
      | (over) "ob \<notin> M" "M1 = insert ob M" "stk1 = entry_of st ob # drop GC_MARK_STACK_DISCARDS stk" "ms1 = MS_INVALID"
          "mse_descr (entry_of st ob) \<noteq> 0"
      | (push) "ob \<notin> M" "M1 = insert ob M" "stk1 = entry_of st ob # stk" "ms1 = ms"
          "mse_descr (entry_of st ob) \<noteq> 0" "length stk < limit"
      using p by (cases "ob \<in> M"; cases "mse_descr (entry_of st ob) = 0"; cases "length stk \<ge> limit") (auto simp: push1_def)
    then show ?case
    proof cases
      case no
      then show ?thesis using IH by auto
    next
      case leaf
      then show ?thesis using IH sub by auto
    next
      case over
      have "ms' = MS_INVALID" using IH over(4) by auto
      moreover have "length stk1 \<le> limit" if "length stk \<le> limit" "0 < limit"
        using that over(3) by (simp add: gc_consts)
      ultimately show ?thesis using IH sub over dr by auto
    next
      case push
      then show ?thesis using IH sub by auto
    qed
  qed
  then show "M' = M \<union> set obs"
    "set stk' \<subseteq> set stk \<union> entry_of st ` (M' - M)"
    "ms' = ms \<and> set stk \<subseteq> set stk' \<and> (\<forall>ob \<in> M' - M. mse_descr (entry_of st ob) = 0 \<or> entry_of st ob \<in> set stk') \<or> ms' = MS_INVALID"
    "M' = M \<Longrightarrow> stk' = stk \<and> ms' = ms"
    "length stk \<le> limit \<Longrightarrow> 0 < limit \<Longrightarrow> length stk' \<le> limit"
    "\<And>e. e \<in> set stk' \<Longrightarrow> e \<in> set stk \<or> mse_descr e \<noteq> 0"
    by blast+
qed

lemma visits_pushes: "fold (visit st limit) ws a = fold (push1 st limit) (List.map_filter (pointee st) ws) a"
  by (induction ws arbitrary: a) (simp_all add: visit_def map_filter_simps split: option.splits)

lemma set_map_filter_pointee: "set (List.map_filter (pointee st) ws) = pointees st (set ws)"
  by (induction ws) (auto simp: map_filter_simps split: option.splits)

lemmas visits_spec = pushes_spec [of st limit "List.map_filter (pointee st) ws" for st limit ws,
    folded visits_pushes, unfolded set_map_filter_pointee]

text \<open>Objects that pointers lead to.\<close>

definition all_objs :: "obj set" where
  "all_objs = {..< 2 ^ 20} \<times> {.. 512}"

lemma finite_all_objs [simp]: "finite all_objs"
  by (simp add: all_objs_def)

text \<open>
  An object as pointers lead to it: its mark bit is one of its block, and unless it is marked already the
  entry pushed for it stands for its contents.
\<close>

definition proper_obj :: "'a gc_marker_scheme \<Rightarrow> obj \<Rightarrow> bool" where
  "proper_obj st ob \<longleftrightarrow> ob \<in> all_objs \<and> (ob \<notin> marked st \<longrightarrow> contents st ob = entry_words (entry_of st ob))
     \<and> (mse_descr (entry_of st ob) \<noteq> 0 \<longrightarrow> entry_ok (entry_of st ob))"

lemma entry_ok_used:
  assumes "marker_ok st" "HDR st h = Hdr hh" "\<not> HBLK_IS_FREE hh" "hb_descr hh \<noteq> 0"
  shows "entry_ok (entry_of st (h, n))"
proof -
  have "simple_descr (hb_descr hh)" using marker_okD(6) [OF assms(1-3)] by (simp add: object_hdr_def)
  moreover have "(hblk_addr h + n * GRANULE_BYTES) mod 4 = 0"
    by (simp add: hblk_addr_def HBLKSIZE_def GRANULE_BYTES_def mod_eq_0_iff_dvd)
  ultimately show ?thesis using assms(2,4) by (simp add: entry_ok_def entry_of_def hdr_at_def)
qed

lemma start_proper:
  assumes ok: "marker_ok st" and hh: "HDR st h = Hdr hh" "\<not> HBLK_IS_FREE hh" "h \<le> v div HBLKSIZE" "v div HBLKSIZE < h + blocks_of hh"
    and x: "object_start c st hh v = Some (Some (n, base))" and v: "v < 2 ^ 32"
  shows "proper_obj st (h, n)"
proof -
  note m = marker_okD [OF ok]
  have o: "object_hdr st h hh" by (rule m(6) [OF hh(1,2)])
  have n: "n \<le> FINAL_MARK_BIT (hb_sz hh)" "n \<noteq> FINAL_MARK_BIT (hb_sz hh) \<Longrightarrow> object_bit (hb_sz hh) n"
    using object_start_ok [OF o m(3) hh(3,4), of c] x by (metis option.inject)+
  have "h < 2 ^ 20" using hh(3) v by (simp add: HBLKSIZE_def)
  moreover have "n \<le> 512" using n FINAL_MARK_BIT_le [of "hb_sz hh"] by (simp add: gc_consts)
  moreover have "contents st (h, n) = entry_words (entry_of st (h, n))" if "(h, n) \<notin> marked st"
  proof -
    have "mark_bit_from_hdr hh (FINAL_MARK_BIT (hb_sz hh))" using o by (simp add: object_hdr_def)
    then have "n \<noteq> FINAL_MARK_BIT (hb_sz hh)" using that hh(1) by (auto simp: marked_def)
    then show ?thesis using n(2) hh(1,2) by (simp add: contents_def hdr_at_def is_used_def)
  qed
  ultimately show ?thesis
    using entry_ok_used [OF ok hh(1,2), of n] hh(1) by (auto simp: proper_obj_def all_objs_def entry_of_def hdr_at_def)
qed

lemma target_proper:
  assumes ok: "marker_ok st" and t: "target st v = Some ob" and v: "v < 2 ^ 32"
  shows "proper_obj st ob"
proof -
  obtain r where r: "GC_header_cache_miss (GC_all_interior_pointers st) st v = Some r"
      "cm_block r \<noteq> 0 \<Longrightarrow> \<exists>hh. HDR st (cm_block r) = Hdr hh \<and> \<not> HBLK_IS_FREE hh \<and> cm_block r \<le> v div HBLKSIZE
         \<and> v div HBLKSIZE < cm_block r + blocks_of hh"
    using cache_miss_total [OF marker_okD(2) [OF ok]] by metis
  have b0: "cm_block r \<noteq> 0" using t r(1) by (auto simp: target_def split: if_splits)
  then obtain hh where hh: "HDR st (cm_block r) = Hdr hh" "\<not> HBLK_IS_FREE hh" "cm_block r \<le> v div HBLKSIZE"
      "v div HBLKSIZE < cm_block r + blocks_of hh"
    using r(2) by blast
  obtain n base where "object_start True st hh v = Some (Some (n, base))" "ob = (cm_block r, n)"
    using t r(1) b0 hh(1) by (auto simp: target_def split: option.splits)
  then show ?thesis using start_proper [OF ok hh _ v] by blast
qed

lemma pointee_proper:
  assumes "marker_ok st" "pointee st w = Some ob"
  shows "proper_obj st ob"
proof -
  have "target st (mem_word st w) = Some ob" using assms(2) by (simp add: pointee_def split: if_splits)
  moreover have "mem_word st w < 2 ^ 32" using unsigned_less [of "GC_mem st w"] by (simp add: mem_word_def)
  ultimately show ?thesis by (rule target_proper [OF assms(1)])
qed

lemma entry_words_0: "mse_descr e = 0 \<Longrightarrow> entry_words e = {}"
  by (simp add: entry_words_def GC_DS_LENGTH_def)

section \<open>The invariant of marking\<close>

text \<open>
  \<open>R\<close> is a set of root words and \<open>S\<close> a set of objects that contains everything reachable from
  them. The invariant says that nothing outside \<open>S\<close> is marked or searched, and that, unless the
  stack overflowed, a pointer in a root word of \<open>Q\<close> or in a marked object outside of \<open>D\<close> leads to a
  marked object or is still to be searched. Compared with the state \<open>st\<close>, the mark state changes
  only if an object was marked, new marks are those of objects, and the stack stays within its bounds.
\<close>

definition mark_inv :: "'a gc_marker_scheme \<Rightarrow> nat set \<Rightarrow> nat set \<Rightarrow> obj set \<Rightarrow> obj set \<Rightarrow> view \<Rightarrow> bool" where
  "mark_inv st Q R S D a \<longleftrightarrow>
     (case a of (M, stk, ms) \<Rightarrow>
        marked st \<subseteq> M \<and> M \<subseteq> S \<and> M - marked st \<subseteq> all_objs
      \<and> (\<forall>e \<in> set stk. entry_ok e \<and> entry_words e \<subseteq> R \<union> \<Union> (contents st ` S))
      \<and> (ms = MS_INVALID \<or>
         (\<forall>w \<in> Q \<union> \<Union> (contents st ` (M - D)). \<forall>q. pointee st w = Some q \<longrightarrow> q \<in> M \<or> (\<exists>e \<in> set stk. w \<in> entry_words e)))
      \<and> (M = marked st \<longrightarrow> ms = GC_mark_state st) \<and> (ms = GC_mark_state st \<or> ms = MS_INVALID)
      \<and> (0 < GC_mark_stack_size st \<and> length (GC_mark_stack st) \<le> GC_mark_stack_size st \<longrightarrow> length stk \<le> GC_mark_stack_size st))"

definition closed_under :: "'a gc_marker_scheme \<Rightarrow> nat set \<Rightarrow> obj set \<Rightarrow> bool" where
  "closed_under st R S \<longleftrightarrow> pointees st (R \<union> \<Union> (contents st ` S)) \<subseteq> S"

definition work_left :: "view \<Rightarrow> nat \<times> nat" where
  "work_left a = (case a of (M, stk, ms) \<Rightarrow> (card (all_objs - M), sum_list (map mse_descr stk)))"

abbreviation less_work :: "((nat \<times> nat) \<times> (nat \<times> nat)) set" where
  "less_work \<equiv> less_than <*lex*> less_than"

lemma mark_invD:
  assumes "mark_inv st Q R S D (M, stk, ms)"
  shows "marked st \<subseteq> M" "M \<subseteq> S" "\<And>x. x \<in> set stk \<Longrightarrow> entry_ok x \<and> entry_words x \<subseteq> R \<union> \<Union> (contents st ` S)"
    "ms = MS_INVALID \<or> (\<forall>w \<in> Q \<union> \<Union> (contents st ` (M - D)). \<forall>q. pointee st w = Some q \<longrightarrow> q \<in> M \<or> (\<exists>x \<in> set stk. w \<in> entry_words x))"
    "M = marked st \<Longrightarrow> ms = GC_mark_state st"
    "0 < GC_mark_stack_size st \<Longrightarrow> length (GC_mark_stack st) \<le> GC_mark_stack_size st \<Longrightarrow> length stk \<le> GC_mark_stack_size st"
    "ms = GC_mark_state st \<or> ms = MS_INVALID" "M - marked st \<subseteq> all_objs"
  using assms unfolding mark_inv_def prod.case by (elim conjE; blast)+

text \<open>Pushing objects of \<open>S\<close> keeps the invariant, if what has to be covered is covered after it.\<close>

lemma mark_pushes:
  assumes inv: "mark_inv st {} R S UNIV (M, stk, ms)" and f: "fold (push1 st (GC_mark_stack_size st)) obs (M, stk, ms) = (M', stk', ms')"
    and obs: "set obs \<subseteq> S" "\<And>ob. ob \<in> set obs \<Longrightarrow> proper_obj st ob"
    and cov: "\<And>w q. ms \<noteq> MS_INVALID \<Longrightarrow> w \<in> Q \<union> \<Union> (contents st ` (M - D)) \<Longrightarrow> pointee st w = Some q \<Longrightarrow>
        q \<in> M \<union> set obs \<or> (\<exists>e \<in> set stk. w \<in> entry_words e)"
  shows "mark_inv st Q R S D (M', stk', ms')"
proof -
  note V = pushes_spec [OF f]
  note i = mark_invD [OF inv]
  have MS: "M' \<subseteq> S" using V(1) i(2) obs(1) by auto
  have nc: "contents st ob = entry_words (entry_of st ob)" "mse_descr (entry_of st ob) \<noteq> 0 \<Longrightarrow> entry_ok (entry_of st ob)"
    if "ob \<in> M' - M" for ob
    using that V(1) obs(2) [of ob] i(1) by (auto simp: proper_obj_def)
  have stk': "entry_ok x \<and> entry_words x \<subseteq> R \<union> \<Union> (contents st ` S)" if x: "x \<in> set stk'" for x
  proof (cases "x \<in> set stk")
    case True
    then show ?thesis using i(3) by blast
  next
    case False
    then obtain ob where ob: "ob \<in> M' - M" "x = entry_of st ob" using V(2) x by auto
    then show ?thesis using nc [OF ob(1)] V(6) [OF x] False MS by auto
  qed
  have cov': "q \<in> M' \<or> (\<exists>x \<in> set stk'. u \<in> entry_words x)"
    if ne: "ms' \<noteq> MS_INVALID" and u: "u \<in> Q \<union> \<Union> (contents st ` (M' - D))" "pointee st u = Some q" for u q
  proof -
    have k: "ms' = ms" "set stk \<subseteq> set stk'" "\<And>ob. ob \<in> M' - M \<Longrightarrow> mse_descr (entry_of st ob) = 0 \<or> entry_of st ob \<in> set stk'"
      using V(3) ne by auto
    show ?thesis
    proof (cases "u \<in> Q \<union> \<Union> (contents st ` (M - D))")
      case True
      then show ?thesis using cov [OF _ True u(2)] k(1,2) ne V(1) by auto
    next
      case False
      then obtain ob where ob: "ob \<in> M' - M" "u \<in> contents st ob" using u(1) by auto
      then have "u \<in> entry_words (entry_of st ob)" using nc by simp
      then show ?thesis using k(3) [OF ob(1)] entry_words_0 by auto
    qed
  qed
  have "ms' = MS_INVALID \<or> (\<forall>w \<in> Q \<union> \<Union> (contents st ` (M' - D)). \<forall>q. pointee st w = Some q \<longrightarrow>
      q \<in> M' \<or> (\<exists>x \<in> set stk'. w \<in> entry_words x))"
    using cov' by blast
  moreover have "marked st \<subseteq> M'" using i(1) V(1) by blast
  moreover have "M' - marked st \<subseteq> all_objs" using i(8) V(1) obs(2) by (auto simp: proper_obj_def)
  moreover have "ms' = GC_mark_state st" if "M' = marked st"
  proof -
    have "M = marked st" "M' = M" using that i(1) V(1) by auto
    then show ?thesis using V(4) i(5) by simp
  qed
  moreover have "length stk' \<le> GC_mark_stack_size st"
    if "0 < GC_mark_stack_size st \<and> length (GC_mark_stack st) \<le> GC_mark_stack_size st"
    using that i(6) by (intro V(5)) auto
  moreover have "ms' = GC_mark_state st \<or> ms' = MS_INVALID" using V(3) i(7) by auto
  ultimately show "mark_inv st Q R S D (M', stk', ms')"
    unfolding mark_inv_def prod.case using MS stk' by (intro conjI impI ballI) simp_all
qed

lemma pushes_card:
  assumes "fold (push1 st limit) obs (M, stk, ms) = (M', stk', ms')" "\<And>ob. ob \<in> set obs \<Longrightarrow> proper_obj st ob" "M' \<noteq> M"
  shows "card (all_objs - M') < card (all_objs - M)"
proof -
  note M' = pushes_spec(1) [OF assms(1)]
  then obtain ob where "ob \<in> M' - M" "ob \<in> set obs" using assms(3) by blast
  then have "ob \<in> all_objs" "ob \<in> M' - M" using assms(2) by (auto simp: proper_obj_def)
  then show ?thesis using M' by (intro psubset_card_mono) auto
qed

lemma mark_step:
  assumes ok: "marker_ok st" and cl: "closed_under st R S" and inv: "mark_inv st Q R S D (M, e # stk, ms)"
    and f: "fold (visit st (GC_mark_stack_size st)) ws (M, left @ stk, ms) = (M', stk', ms')"
    and w: "set ws \<union> \<Union> (entry_words ` set left) = entry_words e" "\<And>x. x \<in> set left \<Longrightarrow> entry_ok x"
      "sum_list (map mse_descr left) < mse_descr e" "length left \<le> 1"
  shows "mark_inv st Q R S D (M', stk', ms')" "(work_left (M', stk', ms'), work_left (M, e # stk, ms)) \<in> less_work"
proof -
  let ?obs = "List.map_filter (pointee st) ws"
  note i = mark_invD [OF inv]
  note f' = f [unfolded visits_pushes]
  have e: "entry_words e \<subseteq> R \<union> \<Union> (contents st ` S)" using i(3) [of e] by simp
  have base: "mark_inv st {} R S UNIV (M, left @ stk, ms)"
    unfolding mark_inv_def prod.case
  proof (intro conjI ballI)
    show "entry_ok x" "entry_words x \<subseteq> R \<union> \<Union> (contents st ` S)" if "x \<in> set (left @ stk)" for x
      using that i(3) [of x] w(1,2) e by auto
  qed (use i w(4) in auto)
  have inS: "set ?obs \<subseteq> S"
  proof -
    have "set ws \<subseteq> R \<union> \<Union> (contents st ` S)" using w(1) e by auto
    then show ?thesis using pointees_mono [of "set ws" "R \<union> \<Union> (contents st ` S)" st] cl by (simp add: set_map_filter_pointee closed_under_def)
  qed
  have proper: "proper_obj st ob" if "ob \<in> set ?obs" for ob
    using that pointee_proper [OF ok, of _ ob] by (auto simp: set_map_filter_pointee pointees_def)
  have cov: "q \<in> M \<union> set ?obs \<or> (\<exists>x \<in> set (left @ stk). u \<in> entry_words x)"
    if u: "ms \<noteq> MS_INVALID" "u \<in> Q \<union> \<Union> (contents st ` (M - D))" "pointee st u = Some q" for u q
  proof -
    have "q \<in> M \<or> (\<exists>x \<in> set (e # stk). u \<in> entry_words x)" using i(4) u by blast
    then show ?thesis using w(1) u(3) by (auto simp: set_map_filter_pointee pointees_def)
  qed
  show "mark_inv st Q R S D (M', stk', ms')" by (rule mark_pushes [OF base f' inS proper cov])
  show "(work_left (M', stk', ms'), work_left (M, e # stk, ms)) \<in> less_work"
  proof (cases "M' = M")
    case True
    then have "stk' = left @ stk" using pushes_spec(4) [OF f'] by simp
    then show ?thesis using True w(3) by (simp add: work_left_def)
  next
    case False
    have "card (all_objs - M') < card (all_objs - M)" by (rule pushes_card [OF f' proper False])
    then show ?thesis by (simp add: work_left_def)
  qed
qed

section \<open>The marking loops\<close>

lemma mark_loop_ok:
  fixes s :: "'a marking"
  assumes "marker_ok st0" "closed_under st0 R S"
  shows "marking_ok st0 s \<Longrightarrow> mark_inv st0 Q R S D (view_of s) \<Longrightarrow>
    \<exists>stk' st'. mark_loop procs (GC_mark_stack_size st0) credit None s = Some (stk', st') \<and> same_shape st0 st' \<and> marker_ok st'
      \<and> mark_inv st0 Q R S D (marked st', stk', GC_mark_state st') \<and> GC_objects_are_marked st'
      \<and> (if fst s = [] \<or> credit < 0 then stk' = fst s \<and> st' = snd (snd s)
         else (work_left (marked st', stk', GC_mark_state st'), work_left (view_of s)) \<in> less_work)"
proof (induction "work_left (view_of s)" arbitrary: s credit rule: wf_induct_rule [OF wf_lex_prod [OF wf_less_than wf_less_than]])
  case (1 s credit)
  let ?limit = "GC_mark_stack_size st0"
  obtain stack hc st where s: "s = (stack, hc, st)" by (cases s) auto
  show ?case
  proof (cases "stack = [] \<or> credit < 0")
    case True
    then have "mark_loop procs ?limit credit None s = Some (stack, st)"
      by (subst mark_loop.simps) (simp add: s)
    then show ?thesis using 1(2,3) True by (simp add: s marking_ok_def view_of_def)
  next
    case False
    then obtain e stk where stk: "stack = e # stk" by (cases stack) auto
    have inv: "mark_inv st0 Q R S D (marked st, e # stk, GC_mark_state st)" using 1(3) by (simp add: s stk view_of_def)
    have ok: "marking_ok st0 (stk, hc, st)" using 1(2) by (simp add: s marking_ok_def)
    have e: "entry_ok e" using inv by (simp add: mark_inv_def)
    obtain c s1 ws left where p: "mark_object procs ?limit (mse_start e) (mse_descr e) (stk, hc, st) = Some (None, c, s1)" "0 < c"
        "marking_ok st0 s1" "view_of s1 = fold (visit st0 ?limit) ws (marked st, left @ stk, GC_mark_state st)"
        "set ws \<union> \<Union> (entry_words ` set left) = entry_words e" "\<And>f. f \<in> set left \<Longrightarrow> entry_ok f"
        "sum_list (map mse_descr left) < mse_descr e" "length left \<le> 1"
      by (rule mark_object_ok [OF ok marker_okD(2) [OF assms(1)] e]) (rule that; assumption)
    obtain M' stk' ms' where v: "view_of s1 = (M', stk', ms')" by (cases "view_of s1") auto
    note st = mark_step [OF assms inv p(4) [symmetric, unfolded v] p(5) p(6) p(7,8)]
    have run: "mark_loop procs ?limit credit None s = mark_loop procs ?limit (credit - int c) None s1"
    proof -
      have "mark_loop procs ?limit credit None s = mark_loop procs ?limit credit (Some (mse_start e, mse_descr e)) (stk, hc, st)"
        using False by (subst mark_loop.simps) (simp add: s stk)
      also have "\<dots> = mark_loop procs ?limit (credit - int c) None s1"
        by (subst mark_loop.simps) (simp add: p(1))
      finally show ?thesis .
    qed
    have less: "(work_left (view_of s1), work_left (view_of s)) \<in> less_work" using st(2) v by (simp add: s stk view_of_def)
    from 1(1) [OF less p(3), of "credit - int c"] st(1) v
    obtain stk2 st2 where r: "mark_loop procs ?limit (credit - int c) None s1 = Some (stk2, st2)" "same_shape st0 st2" "marker_ok st2"
        "mark_inv st0 Q R S D (marked st2, stk2, GC_mark_state st2)" "GC_objects_are_marked st2"
        "if fst s1 = [] \<or> credit - int c < 0 then stk2 = fst s1 \<and> st2 = snd (snd s1)
         else (work_left (marked st2, stk2, GC_mark_state st2), work_left (view_of s1)) \<in> less_work"
      by auto
    have "(work_left (marked st2, stk2, GC_mark_state st2), work_left (view_of s)) \<in> less_work"
    proof (cases "fst s1 = [] \<or> credit - int c < 0")
      case True
      then show ?thesis using r(6) less by (simp add: view_of_def)
    next
      case g: False
      then show ?thesis using r(6) less by (meson trans_less_than trans_lex_prod transD)
    qed
    then show ?thesis using run r(1-5) False by (simp add: s)
  qed
qed

lemma GC_mark_from_ok:
  fixes st :: "'a gc_marker_scheme"
  assumes "marker_ok st0" "closed_under st0 R S" "same_shape st0 st" "marker_ok st"
    "mark_inv st0 Q R S D (marked st, stack, GC_mark_state st)"
  obtains stk' st' where "GC_mark_from procs (GC_mark_stack_size st0) stack st = Some (stk', st')" "same_shape st0 st'" "marker_ok st'"
    "mark_inv st0 Q R S D (marked st', stk', GC_mark_state st')" "GC_objects_are_marked st'"
    "stack \<noteq> [] \<Longrightarrow> (work_left (marked st', stk', GC_mark_state st'), work_left (marked st, stack, GC_mark_state st)) \<in> less_work"
    "stack = [] \<Longrightarrow> stk' = [] \<and> st' = st\<lparr> GC_objects_are_marked := True \<rparr>"
proof -
  let ?st1 = "st\<lparr> GC_objects_are_marked := True \<rparr>" and ?hc = "(\<lambda>_. 0) :: hdr_cache"
  have M: "marked ?st1 = marked st" by (simp add: marked_def)
  have ok1: "marker_ok ?st1"
    by (rule marker_ok_shape [OF assms(4)]) (use marker_okD(1,4,7) [OF assms(4)] M in \<open>auto simp: bl_ok_def counts_ok_def\<close>)
  have "same_shape st ?st1" by simp
  then have ok: "marking_ok st0 (stack, ?hc, ?st1)"
    using same_shape_trans [OF assms(3)] ok1 by (simp add: marking_ok_def cache_ok_def)
  have inv: "mark_inv st0 Q R S D (view_of (stack, ?hc, ?st1))" using assms(5) M by (simp add: view_of_def)
  obtain stk' st' where r: "mark_loop procs (GC_mark_stack_size st0) (int HBLKSIZE) None (stack, ?hc, ?st1) = Some (stk', st')" "same_shape st0 st'" "marker_ok st'"
      "mark_inv st0 Q R S D (marked st', stk', GC_mark_state st')" "GC_objects_are_marked st'"
      "if fst (stack, ?hc, ?st1) = [] \<or> int HBLKSIZE < 0 then stk' = fst (stack, ?hc, ?st1) \<and> st' = snd (snd (stack, ?hc, ?st1))
       else (work_left (marked st', stk', GC_mark_state st'), work_left (view_of (stack, ?hc, ?st1))) \<in> less_work"
    using mark_loop_ok [OF assms(1,2) ok inv, of procs "int HBLKSIZE"] by blast
  have run: "GC_mark_from procs (GC_mark_stack_size st0) stack st = Some (stk', st')" using r(1) by (simp add: GC_mark_from_def)
  show thesis
  proof (rule that [OF run r(2-5)])
    assume "stack \<noteq> []"
    then show "(work_left (marked st', stk', GC_mark_state st'), work_left (marked st, stack, GC_mark_state st)) \<in> less_work"
      using r(6) M by (simp add: view_of_def)
  next
    assume "stack = []"
    then show "stk' = [] \<and> st' = ?st1" using r(6) by simp
  qed
qed

lemma marker_stack_upd [simp]:
  fixes st :: "'a gc_marker_scheme"
  shows "marked (st\<lparr> GC_mark_stack := stk \<rparr>) = marked st" "marker_ok (st\<lparr> GC_mark_stack := stk \<rparr>) = marker_ok st"
  by (simp_all add: marked_def marker_ok_def layout_ok_def maps_ok_def bl_ok_def object_hdr_def counts_ok_def)

lemma MARK_FROM_MARK_STACK_ok:
  fixes st :: "'a gc_marker_scheme"
  assumes "marker_ok st0" "closed_under st0 R S" "same_shape st0 st" "marker_ok st"
    "mark_inv st0 Q R S D (marked st, GC_mark_stack st, GC_mark_state st)"
  obtains st' where "MARK_FROM_MARK_STACK procs st = Some st'" "same_shape st0 st'" "marker_ok st'"
    "mark_inv st0 Q R S D (marked st', GC_mark_stack st', GC_mark_state st')" "GC_objects_are_marked st'"
    "GC_mark_stack st \<noteq> [] \<Longrightarrow> (work_left (marked st', GC_mark_stack st', GC_mark_state st'),
       work_left (marked st, GC_mark_stack st, GC_mark_state st)) \<in> less_work"
proof -
  have sz: "GC_mark_stack_size st = GC_mark_stack_size st0" using assms(3) by (simp add: same_shape_def same_objs_def)
  obtain stk' st' where r: "GC_mark_from procs (GC_mark_stack_size st0) (GC_mark_stack st) st = Some (stk', st')" "same_shape st0 st'"
      "marker_ok st'" "mark_inv st0 Q R S D (marked st', stk', GC_mark_state st')" "GC_objects_are_marked st'"
      "GC_mark_stack st \<noteq> [] \<Longrightarrow> (work_left (marked st', stk', GC_mark_state st'),
         work_left (marked st, GC_mark_stack st, GC_mark_state st)) \<in> less_work"
    by (rule GC_mark_from_ok [OF assms]) (rule that; assumption)
  have run: "MARK_FROM_MARK_STACK procs st = Some (st'\<lparr> GC_mark_stack := stk' \<rparr>)"
    using r(1) sz by (simp add: MARK_FROM_MARK_STACK_def)
  have "same_shape st' (st'\<lparr> GC_mark_stack := stk' \<rparr>)" by simp
  note sh = same_shape_trans [OF r(2) this]
  show thesis by (rule that [OF run sh]) (use r(3-6) in simp_all)
qed

lemma mark_until_empty_ok:
  fixes st :: "'a gc_marker_scheme"
  assumes "marker_ok st0" "closed_under st0 R S"
  shows "same_shape st0 st \<Longrightarrow> marker_ok st \<Longrightarrow>
    mark_inv st0 Q R S D (marked st, GC_mark_stack st, GC_mark_state st) \<Longrightarrow>
    \<exists>st'. mark_until_empty procs st = Some st' \<and> GC_mark_stack st' = [] \<and> marker_ok st' \<and> same_shape st0 st'
      \<and> mark_inv st0 Q R S D (marked st', [], GC_mark_state st')"
proof (induction "work_left (marked st, GC_mark_stack st, GC_mark_state st)" arbitrary: st
    rule: wf_induct_rule [OF wf_lex_prod [OF wf_less_than wf_less_than]])
  case (1 st)
  show ?case
  proof (cases "GC_mark_stack st = []")
    case True
    then have "mark_until_empty procs st = Some st" by (subst mark_until_empty.simps) (simp add: GC_mark_stack_empty_def)
    then show ?thesis using 1(2-4) True by simp
  next
    case False
    obtain st1 where s1: "MARK_FROM_MARK_STACK procs st = Some st1" "same_shape st0 st1" "marker_ok st1"
        "mark_inv st0 Q R S D (marked st1, GC_mark_stack st1, GC_mark_state st1)" "GC_objects_are_marked st1"
        "GC_mark_stack st \<noteq> [] \<Longrightarrow> (work_left (marked st1, GC_mark_stack st1, GC_mark_state st1),
           work_left (marked st, GC_mark_stack st, GC_mark_state st)) \<in> less_work"
      by (rule MARK_FROM_MARK_STACK_ok [OF assms 1(2-4)]) (rule that; assumption)
    have "mark_until_empty procs st = mark_until_empty procs st1"
      using False s1(1) by (subst mark_until_empty.simps) (simp add: GC_mark_stack_empty_def)
    with 1(1) [OF s1(6) [OF False] s1(2-4)] show ?thesis by simp
  qed
qed

section \<open>Reachability\<close>

text \<open>The objects that can be reached from a set of words of memory.\<close>

inductive_set reachable :: "'a gc_marker_scheme \<Rightarrow> nat set \<Rightarrow> obj set" for st W where
  root: "w \<in> W \<Longrightarrow> pointee st w = Some ob \<Longrightarrow> ob \<in> reachable st W"
| step: "ob \<in> reachable st W \<Longrightarrow> w \<in> contents st ob \<Longrightarrow> pointee st w = Some q \<Longrightarrow> q \<in> reachable st W"

text \<open>
  Every pointer in a marked object leads to a marked object or lies in a range on the stack:
  the invariant I of \<^verbatim>\<open>gc_pmark.h\<close>, without dirty pages.
\<close>

definition stack_words :: "mse list \<Rightarrow> nat set" where
  "stack_words stk = \<Union> (entry_words ` set stk)"

definition invariant_I :: "'a gc_marker_scheme \<Rightarrow> bool" where
  "invariant_I st \<longleftrightarrow> (\<forall>ob \<in> marked st. \<forall>w \<in> contents st ob. \<forall>q. pointee st w = Some q \<longrightarrow>
     q \<in> marked st \<or> w \<in> stack_words (GC_mark_stack st))"

lemma mark_all_ok:
  fixes st :: "'a gc_marker_scheme"
  assumes ok: "marker_ok st" and stk: "\<And>e. e \<in> set (GC_mark_stack st) \<Longrightarrow> entry_ok e"
    and I: "GC_mark_state st = MS_INVALID \<or> invariant_I st"
  obtains st' where "mark_until_empty procs st = Some st'" "GC_mark_stack st' = []" "same_shape st st'" "marker_ok st'"
    "marked st \<subseteq> marked st'" "marked st' \<subseteq> marked st \<union> reachable st (stack_words (GC_mark_stack st) \<union> \<Union> (contents st ` marked st))"
    "GC_mark_state st' \<noteq> MS_INVALID \<Longrightarrow> invariant_I st \<Longrightarrow> marked st' = marked st \<union> reachable st (stack_words (GC_mark_stack st))"
proof -
  let ?R = "stack_words (GC_mark_stack st)"
  let ?W = "?R \<union> \<Union> (contents st ` marked st)"
  let ?S = "marked st \<union> reachable st ?W"
  have cl: "closed_under st ?R ?S"
    unfolding closed_under_def pointees_def by (auto intro: reachable.root reachable.step)
  have inv_stk: "\<forall>e \<in> set (GC_mark_stack st). entry_ok e \<and> entry_words e \<subseteq> ?R \<union> \<Union> (contents st ` ?S)"
    using stk by (auto simp: stack_words_def)
  have "q \<in> marked st \<or> (\<exists>e \<in> set (GC_mark_stack st). w \<in> entry_words e)"
    if "GC_mark_state st \<noteq> MS_INVALID" "w \<in> ?R \<union> \<Union> (contents st ` marked st)" "pointee st w = Some q" for w q
    using I that unfolding invariant_I_def stack_words_def by blast
  then have "mark_inv st ?R ?R ?S {} (marked st, GC_mark_stack st, GC_mark_state st)"
    unfolding mark_inv_def prod.case using inv_stk by auto
  from mark_until_empty_ok [OF ok cl same_shape_refl ok this, of procs]
  obtain st' where st': "mark_until_empty procs st = Some st'" "GC_mark_stack st' = []" "marker_ok st'" "same_shape st st'"
      "mark_inv st ?R ?R ?S {} (marked st', [], GC_mark_state st')"
    by blast
  have m: "marked st \<subseteq> marked st'" "marked st' \<subseteq> ?S" using st'(5) by (auto simp: mark_inv_def)
  have eq: "marked st' = marked st \<union> reachable st ?R" if ne: "GC_mark_state st' \<noteq> MS_INVALID" "invariant_I st"
  proof
    have c: "\<forall>w \<in> ?R \<union> \<Union> (contents st ` marked st'). \<forall>q. pointee st w = Some q \<longrightarrow> q \<in> marked st' \<or> (\<exists>e \<in> set []. w \<in> entry_words e)"
      using st'(5) ne(1) unfolding mark_inv_def prod.case by blast
    have cov: "q \<in> marked st'" if "w \<in> ?R \<union> \<Union> (contents st ` marked st')" "pointee st w = Some q" for w q
      using bspec [OF c that(1), rule_format, OF that(2)] by simp
    have "ob \<in> marked st'" if "ob \<in> reachable st ?R" for ob
      using that
    proof (induction rule: reachable.induct)
      case (root w ob)
      then show ?case using cov by blast
    next
      case (step ob w q)
      then show ?case using cov by blast
    qed
    then show "marked st \<union> reachable st ?R \<subseteq> marked st'" using m(1) by blast
    have I': "q \<in> marked st \<or> w \<in> ?R" if "ob \<in> marked st" "w \<in> contents st ob" "pointee st w = Some q" for ob w q
      using ne(2) that unfolding invariant_I_def by blast
    have "ob \<in> marked st \<union> reachable st ?R" if "ob \<in> reachable st ?W" for ob
      using that
    proof (induction rule: reachable.induct)
      case (root w ob)
      then show ?case using I' reachable.root [of w ?R st ob] by blast
    next
      case (step ob w q)
      then show ?case using I' [of ob w q] reachable.root [of w ?R st q] reachable.step [of ob st ?R w q] by blast
    qed
    then show "marked st' \<subseteq> marked st \<union> reachable st ?R" using m(2) by blast
  qed
  from that [OF st'(1,2,4,3) m eq] show thesis by blast
qed

section \<open>Properties\<close>

text \<open>
  C4. Marking is exact. Let the invariant of the marker hold, with length and bitmap descriptors
  only. The loop that calls \<open>GC_mark_from\<close> until the mark stack is empty returns, mark bits are only
  set, and every object it marks is reachable. If the stack has not overflowed, the marked objects
  are then precisely those marked before and those reachable from the ranges on the stack.
\<close>

theorem marking_exact:
  fixes st :: "'a gc_marker_scheme"
  assumes "marker_ok st" "invariant_I st" "list_all entry_ok (GC_mark_stack st)"
  shows "\<exists>st'. mark_until_empty procs st = Some st' \<and> GC_mark_stack st' = [] \<and> marker_ok st' \<and> marked st \<subseteq> marked st'
    \<and> marked st' \<subseteq> marked st \<union> reachable st (stack_words (GC_mark_stack st) \<union> \<Union> (contents st ` marked st))
    \<and> (GC_mark_state st' \<noteq> MS_INVALID \<longrightarrow> marked st' = marked st \<union> reachable st (stack_words (GC_mark_stack st)))"
proof -
  have e: "\<And>e. e \<in> set (GC_mark_stack st) \<Longrightarrow> entry_ok e" using assms(3) by (simp add: list_all_iff)
  show ?thesis
    by (rule mark_all_ok [OF assms(1) e disjI2 [OF assms(2)], of procs]) (use assms(2) in blast)+
qed

text \<open>
  A heap with one block of 16-byte objects. The root word 100 points to the first object, and
  the first object points to the second.
\<close>

definition sample_obj_hdr :: hdr where
  "sample_obj_hdr = zero_hdr\<lparr> hb_block := 5, hb_sz := 16, hb_descr := 16, hb_map := Some 2,
     hb_marks := set_bit_entry 512 zero_words \<rparr>"

definition sample_marker :: "'a \<Rightarrow> 'a gc_marker_scheme" where
  "sample_marker x = \<lparr> GC_top_index = [0 \<mapsto> (\<lambda>_. Fwd 0)(5 := Hdr sample_obj_hdr)], GC_all_nils = (\<lambda>_. Fwd 0),
     GC_all_bottom_indices = [0], hdr_free_list = [], scratch_ok = (\<lambda>_. True),
     GC_obj_map = [2 \<mapsto> map_for 2], GC_valid_offsets = (\<lambda>_. False), GC_modws_valid_offsets = (\<lambda>_. False),
     offsets_initialized = True,
     GC_hblkfreelist = (\<lambda>_. 0), GC_free_bytes = (\<lambda>_. 0),
     GC_large_free_bytes = 0, GC_large_allocd_bytes = 0, GC_max_large_allocd_bytes = 0,
     GC_heapsize = 4096, GC_requested_heapsize = 0, GC_bytes_dropped = 0, GC_finalizer_bytes_freed = 0,
     GC_fail_count = 0, GC_gc_no = 0, GC_large_alloc_warn_suppressed = 0, GC_large_alloc_warn_interval = 5,
     drop_count = 0, GC_use_entire_heap = False, GC_dont_gc = False, GC_incremental = False,
     GC_find_leak = False, GC_debugging_started = False, should_collect = False,
     GC_obj_kinds = (\<lambda>_. \<lparr> ok_descriptor = 0, ok_relocate_descr = True, ok_init = True \<rparr>),
     GC_black_lists = the (GC_bl_init True [True, True]), GC_mem = (\<lambda>_. 0)(100 := 20480, 5120 := 20496),
     GC_mark_stack = [\<lparr> mse_start = 400, mse_descr = 8 \<rparr>], GC_mark_stack_size = 4096, GC_mark_state = MS_ROOTS_PUSHED,
     GC_mark_stack_too_small = False, GC_objects_are_marked = False, scan_ptr = 0, GC_n_rescuing_pages = 0,
     GC_least_plausible_heap_addr = 20480, GC_greatest_plausible_heap_addr = 24576, GC_all_interior_pointers = True, \<dots> = x \<rparr>"

lemma HDR_sample_marker: "HDR (sample_marker x) b = (if b = 5 then Hdr sample_obj_hdr else Fwd 0)"
proof (cases "b div BOTTOM_SZ = 0")
  case True
  then show ?thesis by (simp add: GC_find_header_def sample_marker_def BOTTOM_SZ_def)
next
  case False
  then have "b \<noteq> 5" by (auto simp: BOTTOM_SZ_def)
  with False show ?thesis by (simp add: GC_find_header_def sample_marker_def)
qed

lemma sample_obj_hdr_simps [simp]:
  "\<not> HBLK_IS_FREE sample_obj_hdr" "hb_sz sample_obj_hdr = 16" "blocks_of sample_obj_hdr = 1" "hb_descr sample_obj_hdr = 16"
  "hb_block sample_obj_hdr = 5" "hb_map sample_obj_hdr = Some 2" "\<not> hb_large_block sample_obj_hdr"
  "mark_bit_from_hdr sample_obj_hdr n \<longleftrightarrow> n = 512"
  by (simp_all add: sample_obj_hdr_def zero_hdr_def HBLK_IS_FREE_def blocks_of_def OBJ_SZ_TO_BLOCKS_def divHBLKSZ_def HBLKSIZE_def
      mark_bit_from_hdr_def)

lemma marker_ok_sample: "marker_ok (sample_marker x)"
proof -
  have "index_wf (sample_marker x)" by (simp add: index_wf_def sample_marker_def)
  moreover have "layout_ok (sample_marker x)" by (auto simp: layout_ok_def HDR_sample_marker)
  moreover have "maps_ok (sample_marker x)" by (simp add: maps_ok_def sample_marker_def gc_consts BYTES_TO_GRANULES_def)
  moreover have "bl_ok (sample_marker x)" by (simp add: bl_ok_def sample_marker_def)
  moreover have "HBLKSIZE \<le> GC_least_plausible_heap_addr (sample_marker x)" by (simp add: sample_marker_def HBLKSIZE_def)
  moreover have "object_hdr (sample_marker x) 5 sample_obj_hdr"
    by (simp add: object_hdr_def gc_consts BYTES_TO_GRANULES_def HBLK_OBJS_def FINAL_MARK_BIT_def simple_descr_def)
      (simp add: sample_marker_def)
  moreover have "counts_ok (sample_marker x)"
  proof -
    have "\<not> mark_bit_from_hdr sample_obj_hdr n" if "object_bit (hb_sz sample_obj_hdr) n" for n
      using that by (simp add: object_bit_def sample_obj_hdr_def mark_bit_from_hdr_def FINAL_MARK_BIT_def HBLK_OBJS_def gc_consts BYTES_TO_GRANULES_def)
    then have "{n. object_bit (hb_sz sample_obj_hdr) n \<and> mark_bit_from_hdr sample_obj_hdr n} = {}" by blast
    then have "count_ok sample_obj_hdr" unfolding count_ok_def by (simp add: sample_obj_hdr_def zero_hdr_def)
    then show ?thesis by (auto simp: counts_ok_def HDR_sample_marker split: if_splits)
  qed
  ultimately show ?thesis by (simp add: marker_ok_def HDR_sample_marker)
qed

lemma sample_pointees: "pointee (sample_marker x) 100 = Some (5, 0)" "pointee (sample_marker x) 5120 = Some (5, 2)"
proof -
  have i: "GC_all_interior_pointers (sample_marker x)" "GC_obj_map (sample_marker x) = [2 \<mapsto> map_for 2]" by (simp_all add: sample_marker_def)
  have m: "GC_header_cache_miss True (sample_marker x) v = Some \<lparr> cm_block = 5, cm_black = False, cm_cached = True \<rparr>" if "v div 4096 = 5" for v
    using that by (simp add: GC_header_cache_miss_def HDR_sample_marker HBLKSIZE_def)
  have "map_for 2 ! 0 = 0" "map_for 2 ! 2 = 0" by (simp_all add: map_for_nth)
  then have "target (sample_marker x) 20480 = Some (5, 0)" "target (sample_marker x) 20496 = Some (5, 2)"
    by (simp_all add: target_def i m HDR_sample_marker object_start_def HBLKSIZE_def BYTES_TO_GRANULES_def GRANULE_BYTES_def)
  moreover have "mem_word (sample_marker x) 100 = 20480" "mem_word (sample_marker x) 5120 = 20496"
    by (simp_all add: mem_word_def sample_marker_def)
  moreover have "plausible (sample_marker x) 20480" "plausible (sample_marker x) 20496"
    by (simp_all add: plausible_def sample_marker_def)
  ultimately show "pointee (sample_marker x) 100 = Some (5, 0)" "pointee (sample_marker x) 5120 = Some (5, 2)"
    by (simp_all add: pointee_def)
qed

theorem marking_exact_witness:
  "\<exists>st'. mark_until_empty (\<lambda>_ _ _ _ stk st. (stk, st)) (sample_marker ()) = Some st' \<and> GC_mark_stack st' = []
    \<and> (GC_mark_state st' \<noteq> MS_INVALID \<longrightarrow> {(5, 0), (5, 2)} \<subseteq> marked st')"
proof -
  have stk: "GC_mark_stack (sample_marker ()) = [\<lparr> mse_start = 400, mse_descr = 8 \<rparr>]" by (simp add: sample_marker_def)
  have "contents (sample_marker ()) (5, n) = {}" if "n = 512" for n
    using that by (simp add: contents_def object_bit_def hdr_at_def HDR_sample_marker FINAL_MARK_BIT_def HBLK_OBJS_def gc_consts BYTES_TO_GRANULES_def)
  then have I: "invariant_I (sample_marker ())"
    by (auto simp: invariant_I_def marked_def HDR_sample_marker split: if_splits)
  have e: "list_all entry_ok (GC_mark_stack (sample_marker ()))"
    by (simp add: stk entry_ok_def simple_descr_def gc_consts)
  have "100 \<in> stack_words (GC_mark_stack (sample_marker ()))" by (simp add: stk stack_words_def entry_words_def gc_consts)
  then have 0: "(5, 0) \<in> reachable (sample_marker ()) (stack_words (GC_mark_stack (sample_marker ())))"
    by (rule reachable.root [OF _ sample_pointees(1)])
  have "5120 \<in> contents (sample_marker ()) (5, 0)"
    by (simp add: contents_def is_used_def object_bit_def entry_of_def hdr_at_def HDR_sample_marker FINAL_MARK_BIT_def HBLK_OBJS_def gc_consts BYTES_TO_GRANULES_def
        entry_words_def hblk_addr_def)
  then have 2: "(5, 2) \<in> reachable (sample_marker ()) (stack_words (GC_mark_stack (sample_marker ())))"
    by (rule reachable.step [OF 0 _ sample_pointees(2)])
  show ?thesis using marking_exact [OF marker_ok_sample I e, of "\<lambda>_ _ _ _ stk st. (stk, st)"] 0 2 by auto
qed

end
