(* ===== verification/Roots.thy ===== *)
theory Roots
  imports GC_Prelude "HOL-Library.Multiset"
begin

text \<open>
  The root sets (\<^verbatim>\<open>bdwgc/mark_rts.c\<close>): the table of static roots with its hash index, and the
  sorted table of address ranges that are excluded from the roots. Addresses are byte
  addresses; the entries of a table beyond its current length are stale and never read.
\<close>

section \<open>State\<close>

record roots =
  r_start :: addr
  r_end :: addr
  r_next :: "nat option"
  r_tmp :: bool

record exclusion =
  e_start :: addr
  e_end :: addr

text \<open>A \<open>struct roots *\<close> is the index of its entry in \<open>GC_static_roots\<close>.\<close>

record root_tables =
  GC_static_roots :: "nat \<Rightarrow> roots"
  n_root_sets :: nat
  GC_root_index :: "nat \<Rightarrow> nat option"
  GC_root_size :: nat
  roots_were_cleared :: bool
  GC_excl_table :: "exclusion list"

definition MAX_ROOT_SETS :: nat where
  [gc_consts]: "MAX_ROOT_SETS = 2048"

definition MAX_EXCLUSIONS :: nat where
  [gc_consts]: "MAX_EXCLUSIONS = MAX_ROOT_SETS div 4"

definition RT_SIZE :: nat where
  [gc_consts]: "RT_SIZE = 64"

section \<open>Static roots\<close>

definition rt_hash :: "addr \<Rightarrow> nat" where
  "rt_hash a =
     (let r0 = a;
          r1 = r0 XOR drop_bit 24 r0;
          r2 = r1 XOR drop_bit 12 r1;
          r3 = r2 XOR drop_bit 6 r2 in
      r3 mod RT_SIZE)"

text \<open>Following the chain of a bucket. \<open>None\<close> is a chain that does not end.\<close>

partial_function (option) roots_chain :: "root_tables \<Rightarrow> addr \<Rightarrow> nat option \<Rightarrow> nat option option" where
  "roots_chain st b p =
     (case p of
        None \<Rightarrow> Some None
      | Some i \<Rightarrow>
          (if r_start (GC_static_roots st i) = b then Some (Some i)
           else roots_chain st b (r_next (GC_static_roots st i))))"

definition GC_roots_present :: "root_tables \<Rightarrow> addr \<Rightarrow> nat option option" where
  "GC_roots_present st b = roots_chain st b (GC_root_index st (rt_hash b))"

definition add_roots_to_index :: "nat \<Rightarrow> root_tables \<Rightarrow> root_tables" where
  "add_roots_to_index p st =
     (let h = rt_hash (r_start (GC_static_roots st p)) in
      st\<lparr> GC_static_roots := (GC_static_roots st)(p := (GC_static_roots st p)\<lparr> r_next := GC_root_index st h \<rparr>),
          GC_root_index := (GC_root_index st)(h := Some p) \<rparr>)"

text \<open>\<open>None\<close> is \<open>ABORT\<close>, or a chain that does not end.\<close>

definition GC_add_roots_inner :: "addr \<Rightarrow> addr \<Rightarrow> bool \<Rightarrow> root_tables \<Rightarrow> root_tables option" where
  "GC_add_roots_inner b e0 tmp st =
     (let e = e0 - e0 mod 4 in
      if b = e then Some st
      else case GC_roots_present st b of
        None \<Rightarrow> None
      | Some (Some old) \<Rightarrow>
          (if e \<le> r_end (GC_static_roots st old) then Some st
           else Some (st\<lparr> GC_root_size := wadd (GC_root_size st) (wsub e (r_end (GC_static_roots st old))),
                          GC_static_roots := (GC_static_roots st)(old := (GC_static_roots st old)\<lparr> r_end := e \<rparr>) \<rparr>))
      | Some None \<Rightarrow>
          (if n_root_sets st = MAX_ROOT_SETS then None
           else
             (let n = n_root_sets st;
                  st1 = st\<lparr> GC_static_roots := (GC_static_roots st)(n := \<lparr> r_start = b, r_end = e, r_next = None, r_tmp = tmp \<rparr>) \<rparr>;
                  st2 = add_roots_to_index n st1 in
              Some (st2\<lparr> GC_root_size := wadd (GC_root_size st2) (wsub e b), n_root_sets := n + 1 \<rparr>))))"

definition GC_clear_roots :: "root_tables \<Rightarrow> root_tables" where
  "GC_clear_roots st =
     st\<lparr> roots_were_cleared := True, n_root_sets := 0, GC_root_size := 0,
         GC_root_index := (\<lambda>i. if i < RT_SIZE then None else GC_root_index st i) \<rparr>"

definition GC_remove_root_at_pos :: "nat \<Rightarrow> root_tables \<Rightarrow> root_tables" where
  "GC_remove_root_at_pos i st =
     (let r = GC_static_roots st i; l = GC_static_roots st (n_root_sets st - 1) in
      st\<lparr> GC_root_size := wsub (GC_root_size st) (wsub (r_end r) (r_start r)),
          GC_static_roots := (GC_static_roots st)(i := r\<lparr> r_start := r_start l, r_end := r_end l, r_tmp := r_tmp l \<rparr>),
          n_root_sets := n_root_sets st - 1 \<rparr>)"

definition GC_rebuild_root_index :: "root_tables \<Rightarrow> root_tables" where
  "GC_rebuild_root_index st =
     fold add_roots_to_index [0 ..< n_root_sets st]
       (st\<lparr> GC_root_index := (\<lambda>i. if i < RT_SIZE then None else GC_root_index st i) \<rparr>)"

text \<open>
  The loop \<open>for (i = 0; i < n_root_sets; )\<close> that removes the entries with property \<open>P\<close>: the last
  entry moves into the gap and is looked at next.
\<close>

function remove_roots_loop :: "(roots \<Rightarrow> bool) \<Rightarrow> nat \<Rightarrow> root_tables \<Rightarrow> root_tables" where
  "remove_roots_loop P i st =
     (if i < n_root_sets st
      then (if P (GC_static_roots st i) then remove_roots_loop P i (GC_remove_root_at_pos i st)
            else remove_roots_loop P (i + 1) st)
      else st)"
  by pat_completeness auto
termination
  by (relation "measure (\<lambda>(P, i, st). n_root_sets st - i)") (auto simp: GC_remove_root_at_pos_def Let_def)

declare remove_roots_loop.simps [simp del]

definition GC_remove_tmp_roots :: "root_tables \<Rightarrow> root_tables" where
  "GC_remove_tmp_roots st = GC_rebuild_root_index (remove_roots_loop r_tmp 0 st)"

definition GC_remove_roots_inner :: "addr \<Rightarrow> addr \<Rightarrow> root_tables \<Rightarrow> root_tables" where
  "GC_remove_roots_inner b e st =
     GC_rebuild_root_index (remove_roots_loop (\<lambda>r. r_start r \<ge> b \<and> r_end r \<le> e) 0 st)"

definition GC_remove_roots :: "addr \<Rightarrow> addr \<Rightarrow> root_tables \<Rightarrow> root_tables" where
  "GC_remove_roots b e st =
     (if word32 (b + 3) - word32 (b + 3) mod 4 \<ge> e - e mod 4 then st else GC_remove_roots_inner b e st)"

section \<open>Exclusions\<close>

text \<open>The binary search of \<open>GC_next_exclusion\<close>.\<close>

function next_exclusion_loop :: "exclusion list \<Rightarrow> addr \<Rightarrow> nat \<Rightarrow> nat \<Rightarrow> nat" where
  "next_exclusion_loop tbl start_addr low high =
     (if high > low
      then (let mid = (low + high) div 2 in
            if e_end (tbl ! mid) \<le> start_addr then next_exclusion_loop tbl start_addr (mid + 1) high
            else next_exclusion_loop tbl start_addr low mid)
      else low)"
  by pat_completeness auto
termination
  by (relation "measure (\<lambda>(tbl, a, low, high). high - low)") auto

declare next_exclusion_loop.simps [simp del]

text \<open>
  The index of the exclusion found. The outer \<open>None\<close> is an empty table, for which the source
  would read far outside of it.
\<close>

definition GC_next_exclusion :: "exclusion list \<Rightarrow> addr \<Rightarrow> nat option option" where
  "GC_next_exclusion tbl start_addr =
     (if tbl = [] then None
      else (let low = next_exclusion_loop tbl start_addr 0 (length tbl - 1) in
            Some (if e_end (tbl ! low) \<le> start_addr then None else Some low)))"

text \<open>\<open>None\<close> is \<open>ABORT\<close>.\<close>

definition exclude_at :: "nat \<Rightarrow> addr \<Rightarrow> addr \<Rightarrow> root_tables \<Rightarrow> root_tables option" where
  "exclude_at next_index start finish st =
     (let tbl = GC_excl_table st in
      if length tbl = MAX_EXCLUSIONS then None
      else Some (st\<lparr> GC_excl_table := take next_index tbl @ \<lparr> e_start = start, e_end = finish \<rparr> # drop next_index tbl \<rparr>))"

definition GC_exclude_static_roots_inner :: "addr \<Rightarrow> addr \<Rightarrow> root_tables \<Rightarrow> root_tables option" where
  "GC_exclude_static_roots_inner start finish st =
     (let tbl = GC_excl_table st in
      case (if tbl = [] then Some None else GC_next_exclusion tbl start) of
        None \<Rightarrow> None
      | Some None \<Rightarrow> exclude_at (length tbl) start finish st
      | Some (Some i) \<Rightarrow>
          (if e_start (tbl ! i) < finish then None
           else if e_start (tbl ! i) = finish
           then Some (st\<lparr> GC_excl_table := tbl[i := (tbl ! i)\<lparr> e_start := start \<rparr>] \<rparr>)
           else exclude_at i start finish st))"

definition GC_exclude_static_roots :: "addr \<Rightarrow> addr \<Rightarrow> root_tables \<Rightarrow> root_tables option" where
  "GC_exclude_static_roots b e0 st =
     (let e = e0 - e0 mod 4 in if b = e then Some st else GC_exclude_static_roots_inner b e st)"

text \<open>
  The ranges between \<open>bottom\<close> and \<open>top_addr\<close> that are pushed, in the order of the calls of
  \<open>GC_push_conditional\<close>.
\<close>

lemma GC_next_exclusion_end:
  "GC_next_exclusion tbl a = Some (Some i) \<Longrightarrow> a < e_end (tbl ! i)"
  by (auto simp: GC_next_exclusion_def Let_def not_le split: if_splits)

function pushed_ranges :: "exclusion list \<Rightarrow> addr \<Rightarrow> addr \<Rightarrow> (addr \<times> addr) list option" where
  "pushed_ranges tbl bottom top_addr =
     (if bottom < top_addr
      then (case GC_next_exclusion tbl bottom of
              None \<Rightarrow> None
            | Some None \<Rightarrow> Some [(bottom, top_addr)]
            | Some (Some i) \<Rightarrow>
                (if e_start (tbl ! i) \<ge> top_addr then Some [(bottom, top_addr)]
                 else map_option (\<lambda>rs. (if e_start (tbl ! i) > bottom then [(bottom, e_start (tbl ! i))] else []) @ rs)
                        (pushed_ranges tbl (e_end (tbl ! i)) top_addr)))
      else Some [])"
  by pat_completeness auto
termination
proof (relation "measure (\<lambda>(tbl, b, t). t - b)", goal_cases)
  case (2 tbl bottom top_addr x y)
  then show ?case using GC_next_exclusion_end [of tbl bottom y] by auto
qed simp

declare pushed_ranges.simps [simp del]

section \<open>Looking up an exclusion\<close>

text \<open>
  The ranges of the table are not empty, ascending and do not overlap; adjacent ranges may
  touch.
\<close>

definition excl_ok :: "exclusion list \<Rightarrow> bool" where
  "excl_ok tbl \<longleftrightarrow> (\<forall>i < length tbl. e_start (tbl ! i) < e_end (tbl ! i))
     \<and> (\<forall>i j. i < j \<and> j < length tbl \<longrightarrow> e_end (tbl ! i) \<le> e_start (tbl ! j))"

definition excluded :: "exclusion list \<Rightarrow> addr set" where
  "excluded tbl = (\<Union>x \<in> set tbl. {e_start x ..< e_end x})"

lemma in_excluded: "z \<in> excluded tbl \<longleftrightarrow> (\<exists>j < length tbl. e_start (tbl ! j) \<le> z \<and> z < e_end (tbl ! j))"
  by (auto simp: excluded_def set_conv_nth)

text \<open>What a search for the next exclusion promises, and what follows from it.\<close>

locale exclusion_search =
  fixes search :: "exclusion list \<Rightarrow> addr \<Rightarrow> nat option"
  assumes search_None: "excl_ok tbl \<Longrightarrow> search tbl a = None \<Longrightarrow> i < length tbl \<Longrightarrow> e_end (tbl ! i) \<le> a"
    and search_Some: "excl_ok tbl \<Longrightarrow> search tbl a = Some i \<Longrightarrow>
      i < length tbl \<and> a < e_end (tbl ! i) \<and> (\<forall>j < i. e_end (tbl ! j) \<le> a)"
begin

lemma free_above: "excl_ok tbl \<Longrightarrow> search tbl a = None \<Longrightarrow> excluded tbl \<inter> {a ..< t} = {}"
  using search_None [of tbl a] by (fastforce simp: excluded_def in_set_conv_nth)

lemma others_outside:
  assumes "excl_ok tbl" "search tbl a = Some i" "j < length tbl" "j \<noteq> i"
  shows "e_end (tbl ! j) \<le> a \<or> e_end (tbl ! i) \<le> e_start (tbl ! j)"
  using assms search_Some [OF assms(1,2)] by (cases "j < i") (auto simp: excl_ok_def)

lemma excluded_next:
  assumes ok: "excl_ok tbl" and s: "search tbl a = Some i"
  shows "excluded tbl \<inter> {a ..< e_end (tbl ! i)} = {max a (e_start (tbl ! i)) ..< e_end (tbl ! i)}"
proof
  have i: "i < length tbl" using search_Some [OF ok s] by blast
  show "excluded tbl \<inter> {a ..< e_end (tbl ! i)} \<subseteq> {max a (e_start (tbl ! i)) ..< e_end (tbl ! i)}"
  proof
    fix x assume "x \<in> excluded tbl \<inter> {a ..< e_end (tbl ! i)}"
    then obtain j where j: "j < length tbl" "e_start (tbl ! j) \<le> x" "x < e_end (tbl ! j)" "a \<le> x" "x < e_end (tbl ! i)"
      by (auto simp: excluded_def in_set_conv_nth)
    then have "j = i" using others_outside [OF ok s j(1)] by (cases "j = i") auto
    with j show "x \<in> {max a (e_start (tbl ! i)) ..< e_end (tbl ! i)}" by simp
  qed
  show "{max a (e_start (tbl ! i)) ..< e_end (tbl ! i)} \<subseteq> excluded tbl \<inter> {a ..< e_end (tbl ! i)}"
    using nth_mem [OF i] by (auto simp: excluded_def)
qed

lemma free_before:
  assumes ok: "excl_ok tbl" and s: "search tbl a = Some i"
  shows "excluded tbl \<inter> {a ..< e_start (tbl ! i)} = {}"
proof -
  have "e_start (tbl ! i) < e_end (tbl ! i)" using search_Some [OF ok s] ok by (auto simp: excl_ok_def)
  then have "{a ..< e_start (tbl ! i)} \<subseteq> {a ..< e_end (tbl ! i)}" by auto
  then have "excluded tbl \<inter> {a ..< e_start (tbl ! i)} \<subseteq> {max a (e_start (tbl ! i)) ..< e_end (tbl ! i)}"
    using excluded_next [OF assms] by blast
  then show ?thesis by auto
qed

end

text \<open>The binary search keeps the answer between \<open>low\<close> and \<open>high\<close>.\<close>

lemma next_exclusion_loop_spec:
  assumes ok: "excl_ok tbl" and r: "r = next_exclusion_loop tbl a low high"
    and "low \<le> high" "high < length tbl" "\<forall>j < low. e_end (tbl ! j) \<le> a" "high = length tbl - 1 \<or> a < e_end (tbl ! high)"
  shows "r < length tbl \<and> (\<forall>j < r. e_end (tbl ! j) \<le> a) \<and> (r = length tbl - 1 \<or> a < e_end (tbl ! r))"
  using assms(2-)
proof (induction "high - low" arbitrary: low high rule: less_induct)
  case less
  show ?case
  proof (cases "low < high")
    case False
    then have "low = high" using less.prems by simp
    moreover have "r = low" unfolding less.prems(1) using False by (subst next_exclusion_loop.simps) simp
    ultimately show ?thesis using less.prems by simp
  next
    case True
    let ?mid = "(low + high) div 2"
    have mid: "low \<le> ?mid" "?mid < high" "?mid < length tbl" using True less.prems by auto
    show ?thesis
    proof (cases "e_end (tbl ! ?mid) \<le> a")
      case le: True
      have "e_end (tbl ! j) \<le> a" if "j < ?mid + 1" for j
      proof (cases "j = ?mid")
        case False
        then have "j < ?mid" using that by simp
        then have "e_end (tbl ! j) \<le> e_start (tbl ! ?mid)" "e_start (tbl ! ?mid) < e_end (tbl ! ?mid)"
          using mid(3) ok by (auto simp: excl_ok_def)
        then show ?thesis using le by simp
      qed (use le in simp)
      moreover have "r = next_exclusion_loop tbl a (?mid + 1) high"
        using less.prems(1) True le by (simp add: next_exclusion_loop.simps [of tbl a low high] Let_def)
      ultimately show ?thesis
        using less.hyps [of high "?mid + 1"] mid less.prems by auto
    next
      case gt: False
      then have "r = next_exclusion_loop tbl a low ?mid"
        using less.prems(1) True by (simp add: next_exclusion_loop.simps [of tbl a low high] Let_def)
      then show ?thesis using less.hyps [of ?mid low] mid less.prems gt by auto
    qed
  qed
qed

lemma GC_next_exclusion_spec:
  assumes "excl_ok tbl" "tbl \<noteq> []"
  obtains r where "GC_next_exclusion tbl a = Some r"
    "r = None \<Longrightarrow> (\<forall>i < length tbl. e_end (tbl ! i) \<le> a)"
    "\<And>i. r = Some i \<Longrightarrow> i < length tbl \<and> a < e_end (tbl ! i) \<and> (\<forall>j < i. e_end (tbl ! j) \<le> a)"
proof -
  let ?r = "next_exclusion_loop tbl a 0 (length tbl - 1)"
  have s: "?r < length tbl" "\<forall>j < ?r. e_end (tbl ! j) \<le> a" "?r = length tbl - 1 \<or> a < e_end (tbl ! ?r)"
    using next_exclusion_loop_spec [OF assms(1) refl, of 0 "length tbl - 1" a] assms(2) by auto
  have "e_end (tbl ! i) \<le> a" if "e_end (tbl ! ?r) \<le> a" "i < length tbl" for i
    using that s by (cases "i = ?r") auto
  then have n: "\<forall>i < length tbl. e_end (tbl ! i) \<le> a" if "e_end (tbl ! ?r) \<le> a" using that by blast
  have run: "GC_next_exclusion tbl a = Some (if e_end (tbl ! ?r) \<le> a then None else Some ?r)"
    using assms(2) by (simp add: GC_next_exclusion_def Let_def)
  show thesis
  proof (cases "e_end (tbl ! ?r) \<le> a")
    case True
    then show ?thesis using that [of None] run n by simp
  next
    case False
    then show ?thesis using that [of "Some ?r"] run s by simp
  qed
qed

text \<open>The search of the code, where the table has an entry.\<close>

definition next_excl :: "exclusion list \<Rightarrow> addr \<Rightarrow> nat option" where
  "next_excl tbl a = (case GC_next_exclusion tbl a of None \<Rightarrow> None | Some r \<Rightarrow> r)"

interpretation gc_excl: exclusion_search next_excl
proof
  fix tbl :: "exclusion list" and a i
  assume ok: "excl_ok tbl"
  show "e_end (tbl ! i) \<le> a" if "next_excl tbl a = None" "i < length tbl"
  proof -
    have "tbl \<noteq> []" using that(2) by auto
    from GC_next_exclusion_spec [OF ok this, of a] show ?thesis using that by (metis next_excl_def option.simps(5))
  qed
  show "i < length tbl \<and> a < e_end (tbl ! i) \<and> (\<forall>j<i. e_end (tbl ! j) \<le> a)" if "next_excl tbl a = Some i"
  proof -
    have "tbl \<noteq> []" using that by (auto simp: next_excl_def GC_next_exclusion_def)
    from GC_next_exclusion_spec [OF ok this, of a] show ?thesis using that by (metis next_excl_def option.simps(5))
  qed
qed

lemma GC_next_exclusion_next_excl: "tbl \<noteq> [] \<Longrightarrow> GC_next_exclusion tbl a = Some (next_excl tbl a)"
  by (simp add: next_excl_def GC_next_exclusion_def Let_def)

section \<open>Adding an exclusion\<close>

lemma nth_insert:
  assumes "k \<le> length xs" "i < Suc (length xs)"
  shows "(take k xs @ x # drop k xs) ! i = (if i < k then xs ! i else if i = k then x else xs ! (i - 1))"
  using assms by (auto simp: nth_append nth_Cons')

lemma excl_ok_insert:
  assumes ok: "excl_ok tbl" and k: "k \<le> length tbl" and x: "e_start x < e_end x"
    and before: "\<And>i. i < k \<Longrightarrow> e_end (tbl ! i) \<le> e_start x" and after: "\<And>i. k \<le> i \<Longrightarrow> i < length tbl \<Longrightarrow> e_end x \<le> e_start (tbl ! i)"
  shows "excl_ok (take k tbl @ x # drop k tbl)" "excluded (take k tbl @ x # drop k tbl) = excluded tbl \<union> {e_start x ..< e_end x}"
proof -
  let ?t = "take k tbl @ x # drop k tbl"
  have len: "length ?t = Suc (length tbl)" using k by simp
  note nth = nth_insert [OF k, where x = x]
  have "e_end (?t ! i) \<le> e_start (?t ! j)" if ij: "i < j" "j < Suc (length tbl)" for i j
  proof -
    have "i < Suc (length tbl)" using ij by simp
    note e = nth [OF this] nth [OF ij(2)]
    consider "j < k" | "j = k" | "i < k" "k < j" | "i = k" "k < j" | "k < i" using ij by linarith
    then show ?thesis
    proof cases
      case 1
      then show ?thesis using e ij ok k by (auto simp: excl_ok_def)
    next
      case 2
      then show ?thesis using e ij before by simp
    next
      case 3
      then have "i < j - 1" "j - 1 < length tbl" using ij by auto
      then have "e_end (tbl ! i) \<le> e_start (tbl ! (j - 1))" using ok by (simp add: excl_ok_def)
      with 3 e show ?thesis by simp
    next
      case 4
      then show ?thesis using e ij after [of "j - 1"] by simp
    next
      case 5
      then have "i - 1 < j - 1" "j - 1 < length tbl" using ij by auto
      then have "e_end (tbl ! (i - 1)) \<le> e_start (tbl ! (j - 1))" using ok by (simp add: excl_ok_def)
      with 5 e ij show ?thesis by simp
    qed
  qed
  moreover have "e_start (?t ! i) < e_end (?t ! i)" if "i < Suc (length tbl)" for i
  proof -
    have "i < k \<or> i = k \<or> i > k \<and> i - 1 < length tbl" using that by linarith
    then show ?thesis using nth [OF that] ok x k by (auto simp: excl_ok_def)
  qed
  ultimately show "excl_ok ?t" unfolding excl_ok_def len by blast
  have "set tbl = set (take k tbl) \<union> set (drop k tbl)" by (metis append_take_drop_id set_append)
  then show "excluded ?t = excluded tbl \<union> {e_start x ..< e_end x}" by (auto simp: excluded_def)
qed

lemma excl_ok_extend:
  assumes ok: "excl_ok tbl" and i: "i < length tbl" and a: "a < e_start (tbl ! i)" "\<And>j. j < i \<Longrightarrow> e_end (tbl ! j) \<le> a"
  shows "excl_ok (tbl[i := (tbl ! i)\<lparr> e_start := a \<rparr>])"
    "excluded (tbl[i := (tbl ! i)\<lparr> e_start := a \<rparr>]) = excluded tbl \<union> {a ..< e_start (tbl ! i)}"
proof -
  let ?x = "(tbl ! i)\<lparr> e_start := a \<rparr>"
  have i': "e_start (tbl ! i) < e_end (tbl ! i)" using ok i by (simp add: excl_ok_def)
  show "excl_ok (tbl[i := ?x])"
    unfolding excl_ok_def length_list_update
  proof (intro conjI allI impI)
    fix j assume "j < length tbl"
    then show "e_start (tbl[i := ?x] ! j) < e_end (tbl[i := ?x] ! j)"
      using ok less_trans [OF a(1) i'] by (cases "j = i") (simp_all add: excl_ok_def)
  next
    fix j k assume jk: "j < k \<and> k < length tbl"
    then show "e_end (tbl[i := ?x] ! j) \<le> e_start (tbl[i := ?x] ! k)"
      using ok a(2) i by (cases "j = i"; cases "k = i") (simp_all add: excl_ok_def)
  qed
  show "excluded (tbl[i := ?x]) = excluded tbl \<union> {a ..< e_start (tbl ! i)}"
  proof (rule set_eqI)
    fix z
    let ?in = "\<lambda>j. e_start (tbl ! j) \<le> z \<and> z < e_end (tbl ! j)"
    have "z \<in> excluded (tbl[i := ?x]) \<longleftrightarrow> (\<exists>j < length tbl. j \<noteq> i \<and> ?in j) \<or> a \<le> z \<and> z < e_end (tbl ! i)"
      using i by (auto simp: in_excluded nth_list_update split: if_splits)
    also have "\<dots> \<longleftrightarrow> (\<exists>j < length tbl. j \<noteq> i \<and> ?in j) \<or> ?in i \<or> a \<le> z \<and> z < e_start (tbl ! i)"
      using i' a(1) by auto
    also have "\<dots> \<longleftrightarrow> z \<in> excluded tbl \<union> {a ..< e_start (tbl ! i)}"
      using i by (auto simp: in_excluded)
    finally show "z \<in> excluded (tbl[i := ?x]) \<longleftrightarrow> z \<in> excluded tbl \<union> {a ..< e_start (tbl ! i)}" .
  qed
qed

lemma exclude_inner_cases:
  assumes ok: "excl_ok (GC_excl_table st)" and sf: "start < finish"
  shows "(case GC_exclude_static_roots_inner start finish st of
      None \<Rightarrow> excluded (GC_excl_table st) \<inter> {start ..< finish} \<noteq> {} \<or> length (GC_excl_table st) = MAX_EXCLUSIONS
    | Some st' \<Rightarrow> excluded (GC_excl_table st) \<inter> {start ..< finish} = {} \<and> excl_ok (GC_excl_table st')
        \<and> excluded (GC_excl_table st') = excluded (GC_excl_table st) \<union> {start ..< finish})"
proof -
  let ?t = "GC_excl_table st"
  have lookup: "(if ?t = [] then Some None else GC_next_exclusion ?t start) = Some (next_excl ?t start)"
    using GC_next_exclusion_next_excl [of ?t start] by (auto simp: next_excl_def GC_next_exclusion_def)
  show ?thesis
  proof (cases "next_excl ?t start")
    case None
    have le: "\<And>i. i < length ?t \<Longrightarrow> e_end (?t ! i) \<le> start" by (rule gc_excl.search_None [OF ok None])
    have ins: "excl_ok (take (length ?t) ?t @ \<lparr> e_start = start, e_end = finish \<rparr> # drop (length ?t) ?t)"
      "excluded (take (length ?t) ?t @ \<lparr> e_start = start, e_end = finish \<rparr> # drop (length ?t) ?t) = excluded ?t \<union> {start ..< finish}"
      using excl_ok_insert [OF ok, of "length ?t" "\<lparr> e_start = start, e_end = finish \<rparr>"] le sf by simp_all
    show ?thesis
      using ins gc_excl.free_above [OF ok None, of finish]
      by (simp add: GC_exclude_static_roots_inner_def Let_def lookup None exclude_at_def)
  next
    case (Some i)
    have s: "i < length ?t" "start < e_end (?t ! i)" "\<And>j. j < i \<Longrightarrow> e_end (?t ! j) \<le> start"
      using gc_excl.search_Some [OF ok Some] by auto
    have free: "excluded ?t \<inter> {start ..< e_start (?t ! i)} = {}" by (rule gc_excl.free_before [OF ok Some])
    consider (overlap) "e_start (?t ! i) < finish" | (touch) "e_start (?t ! i) = finish" | (gap) "finish < e_start (?t ! i)" by linarith
    then show ?thesis
    proof cases
      case overlap
      have "e_start (?t ! i) < e_end (?t ! i)" using ok s(1) by (simp add: excl_ok_def)
      then have "max start (e_start (?t ! i)) \<in> {max start (e_start (?t ! i)) ..< e_end (?t ! i)}" using s(2) by simp
      then have "max start (e_start (?t ! i)) \<in> excluded ?t" unfolding gc_excl.excluded_next [OF ok Some, symmetric] by (rule IntD1)
      then have "excluded ?t \<inter> {start ..< finish} \<noteq> {}" using overlap sf by auto
      then show ?thesis using overlap by (simp add: GC_exclude_static_roots_inner_def Let_def lookup Some)
    next
      case touch
      then show ?thesis
        using excl_ok_extend [OF ok s(1) _ s(3)] sf free
        by (simp add: GC_exclude_static_roots_inner_def Let_def lookup Some)
    next
      case gap
      have le: "finish \<le> e_start (?t ! j)" if "i \<le> j" "j < length ?t" for j
      proof (cases "j = i")
        case False
        then have "e_end (?t ! i) \<le> e_start (?t ! j)" "e_start (?t ! i) < e_end (?t ! i)" using that ok s(1) by (simp_all add: excl_ok_def)
        then show ?thesis using gap by simp
      qed (use gap in simp)
      have ins: "excl_ok (take i ?t @ \<lparr> e_start = start, e_end = finish \<rparr> # drop i ?t)"
        "excluded (take i ?t @ \<lparr> e_start = start, e_end = finish \<rparr> # drop i ?t) = excluded ?t \<union> {start ..< finish}"
        using excl_ok_insert [OF ok, of i "\<lparr> e_start = start, e_end = finish \<rparr>"] le sf s by simp_all
      have "excluded ?t \<inter> {start ..< finish} = {}" using free gap by auto
      then show ?thesis
        using ins gap by (simp add: GC_exclude_static_roots_inner_def Let_def lookup Some exclude_at_def)
    qed
  qed
qed

section \<open>Pushing what is not excluded\<close>

definition range_union :: "(addr \<times> addr) list \<Rightarrow> addr set" where
  "range_union rs = (\<Union>(b, e) \<in> set rs. {b ..< e})"

lemma range_union_simps [simp]:
  "range_union [] = {}" "range_union ((b, e) # rs) = {b ..< e} \<union> range_union rs" "range_union (xs @ ys) = range_union xs \<union> range_union ys"
  by (auto simp: range_union_def)

lemma pushed_ranges_spec:
  "excl_ok tbl \<Longrightarrow> tbl \<noteq> [] \<Longrightarrow>
    \<exists>rs. pushed_ranges tbl bottom top_addr = Some rs \<and> range_union rs = {bottom ..< top_addr} - excluded tbl
      \<and> (\<forall>(b, e) \<in> set rs. bottom \<le> b \<and> b < e \<and> e \<le> top_addr)"
proof (induction tbl bottom top_addr rule: pushed_ranges.induct)
  case (1 tbl bottom top_addr)
  note ok = "1.prems"(1)
  note run = GC_next_exclusion_next_excl [OF "1.prems"(2), of bottom]
  show ?case
  proof (cases "bottom < top_addr")
    case False
    then show ?thesis by (simp add: pushed_ranges.simps [of tbl bottom top_addr])
  next
    case bt: True
    show ?thesis
    proof (cases "next_excl tbl bottom")
      case None
      then show ?thesis using bt run gc_excl.free_above [OF ok None, of top_addr]
        by (auto simp: pushed_ranges.simps [of tbl bottom top_addr])
    next
      case (Some i)
      let ?s = "e_start (tbl ! i)" and ?e = "e_end (tbl ! i)"
      have se: "bottom < ?e" "?s < ?e" using gc_excl.search_Some [OF ok Some] ok by (auto simp: excl_ok_def)
      note fb = gc_excl.free_before [OF ok Some]
      show ?thesis
      proof (cases "?s \<ge> top_addr")
        case True
        then have "excluded tbl \<inter> {bottom ..< top_addr} = {}" using fb by auto
        then show ?thesis using bt run Some True by (auto simp: pushed_ranges.simps [of tbl bottom top_addr])
      next
        case False
        obtain rs where rs: "pushed_ranges tbl ?e top_addr = Some rs" "range_union rs = {?e ..< top_addr} - excluded tbl"
            "\<forall>(b, e) \<in> set rs. ?e \<le> b \<and> b < e \<and> e \<le> top_addr"
          using "1.IH" [OF bt _ _ False ok "1.prems"(2)] run Some by auto
        let ?rs = "(if ?s > bottom then [(bottom, ?s)] else []) @ rs"
        have "pushed_ranges tbl bottom top_addr = Some ?rs"
          using bt run Some False rs(1) by (simp add: pushed_ranges.simps [of tbl bottom top_addr])
        moreover have "range_union ?rs = {bottom ..< top_addr} - excluded tbl"
        proof -
          have "{bottom ..< top_addr} - excluded tbl = ({bottom ..< ?s} - excluded tbl) \<union> ({max bottom ?s ..< min ?e top_addr} - excluded tbl) \<union> ({?e ..< top_addr} - excluded tbl)"
            using False se by auto
          moreover have "{max bottom ?s ..< min ?e top_addr} \<subseteq> excluded tbl"
          proof -
            have "{max bottom ?s ..< min ?e top_addr} \<subseteq> {max bottom ?s ..< ?e}" by auto
            then show ?thesis unfolding gc_excl.excluded_next [OF ok Some, symmetric] by blast
          qed
          moreover have "{bottom ..< ?s} - excluded tbl = {bottom ..< ?s}" using fb by auto
          moreover have "range_union ?rs = {bottom ..< ?s} \<union> range_union rs" by simp
          ultimately show ?thesis using rs(2) by blast
        qed
        moreover have "\<forall>(b, e) \<in> set ?rs. bottom \<le> b \<and> b < e \<and> e \<le> top_addr"
          using rs(3) se False by (auto dest: less_le_trans)
        ultimately show ?thesis by blast
      qed
    qed
  qed
qed

section \<open>The index of the roots\<close>

primrec chain :: "root_tables \<Rightarrow> nat option \<Rightarrow> nat list \<Rightarrow> bool" where
  "chain st p [] \<longleftrightarrow> p = None"
| "chain st p (i # xs) \<longleftrightarrow> p = Some i \<and> chain st (r_next (GC_static_roots st i)) xs"

lemma chain_cong:
  "(\<And>i. i \<in> set xs \<Longrightarrow> r_next (GC_static_roots st' i) = r_next (GC_static_roots st i)) \<Longrightarrow> chain st' p xs = chain st p xs"
  by (induction xs arbitrary: p) auto

lemma roots_chain_find: "chain st p xs \<Longrightarrow> roots_chain st b p = Some (find (\<lambda>i. r_start (GC_static_roots st i) = b) xs)"
proof (induction xs arbitrary: p)
  case Nil
  then show ?case by (subst roots_chain.simps) simp
next
  case (Cons i xs)
  then show ?case by (subst roots_chain.simps) simp
qed

text \<open>Every bucket holds the entries below \<open>k\<close> that belong there.\<close>

definition index_upto :: "nat \<Rightarrow> root_tables \<Rightarrow> bool" where
  "index_upto k st \<longleftrightarrow> (\<forall>h < RT_SIZE. \<exists>xs. chain st (GC_root_index st h) xs
     \<and> set xs = {i. i < k \<and> rt_hash (r_start (GC_static_roots st i)) = h})"

lemma rt_hash_less: "rt_hash a < RT_SIZE"
  by (simp add: rt_hash_def Let_def RT_SIZE_def)

lemma GC_roots_present_spec:
  assumes "index_upto k st"
  shows "\<exists>r. GC_roots_present st b = Some r \<and>
    (case r of None \<Rightarrow> \<forall>i < k. r_start (GC_static_roots st i) \<noteq> b | Some i \<Rightarrow> i < k \<and> r_start (GC_static_roots st i) = b)"
proof -
  obtain xs where xs: "chain st (GC_root_index st (rt_hash b)) xs"
      "set xs = {i. i < k \<and> rt_hash (r_start (GC_static_roots st i)) = rt_hash b}"
    using assms rt_hash_less [of b] by (auto simp: index_upto_def)
  let ?r = "find (\<lambda>i. r_start (GC_static_roots st i) = b) xs"
  have "GC_roots_present st b = Some ?r" using roots_chain_find [OF xs(1)] by (simp add: GC_roots_present_def)
  moreover have "case ?r of None \<Rightarrow> \<forall>i < k. r_start (GC_static_roots st i) \<noteq> b | Some i \<Rightarrow> i < k \<and> r_start (GC_static_roots st i) = b"
  proof (cases ?r)
    case None
    then have "\<forall>i < k. r_start (GC_static_roots st i) \<noteq> b" using xs(2) by (auto simp: find_None_iff)
    with None show ?thesis by simp
  next
    case (Some i)
    then obtain j where "j < length xs" "r_start (GC_static_roots st (xs ! j)) = b" "i = xs ! j" by (auto simp: find_Some_iff)
    moreover have "xs ! j \<in> set xs" using calculation(1) by simp
    ultimately show ?thesis using Some xs(2) by auto
  qed
  ultimately show ?thesis by blast
qed

lemma add_roots_to_index_upto:
  assumes "index_upto k st"
  shows "index_upto (Suc k) (add_roots_to_index k st)"
  unfolding index_upto_def
proof (intro allI impI)
  fix h assume h: "h < RT_SIZE"
  let ?st = "add_roots_to_index k st" and ?h = "rt_hash (r_start (GC_static_roots st k))"
  have r: "r_start (GC_static_roots ?st i) = r_start (GC_static_roots st i)" for i by (simp add: add_roots_to_index_def Let_def)
  obtain xs where xs: "chain st (GC_root_index st h) xs" "set xs = {i. i < k \<and> rt_hash (r_start (GC_static_roots st i)) = h}"
    using assms h by (auto simp: index_upto_def)
  have c: "chain ?st p xs = chain st p xs" for p
    by (rule chain_cong) (use xs(2) in \<open>auto simp: add_roots_to_index_def Let_def\<close>)
  show "\<exists>xs. chain ?st (GC_root_index ?st h) xs \<and> set xs = {i. i < Suc k \<and> rt_hash (r_start (GC_static_roots ?st i)) = h}"
  proof (cases "h = ?h")
    case True
    have "chain ?st (Some k) (k # xs)" using xs(1) c True by (simp add: add_roots_to_index_def Let_def)
    moreover have "GC_root_index ?st h = Some k" using True by (simp add: add_roots_to_index_def Let_def)
    moreover have "set (k # xs) = {i. i < Suc k \<and> rt_hash (r_start (GC_static_roots ?st i)) = h}"
      using xs(2) True unfolding r by (auto simp: less_Suc_eq)
    ultimately show ?thesis by metis
  next
    case False
    moreover have "GC_root_index ?st h = GC_root_index st h" using False by (simp add: add_roots_to_index_def Let_def)
    moreover have "set xs = {i. i < Suc k \<and> rt_hash (r_start (GC_static_roots ?st i)) = h}"
      using xs(2) False unfolding r by (auto simp: less_Suc_eq)
    ultimately show ?thesis using xs(1) c by metis
  qed
qed

section \<open>The table of roots\<close>

type_synonym root_entry = "addr \<times> addr \<times> bool"

definition entry_at :: "root_tables \<Rightarrow> nat \<Rightarrow> root_entry" where
  "entry_at st i = (r_start (GC_static_roots st i), r_end (GC_static_roots st i), r_tmp (GC_static_roots st i))"

definition root_list :: "root_tables \<Rightarrow> root_entry list" where
  "root_list st = map (entry_at st) [0 ..< n_root_sets st]"

definition root_bytes :: "root_entry multiset \<Rightarrow> nat" where
  "root_bytes M = (\<Sum>x \<in># M. fst (snd x) - fst x)"

text \<open>
  The ranges are not empty, no two start at the same address, and \<open>GC_root_size\<close> is the sum of their
  lengths.
\<close>

definition table_ok :: "root_entry multiset \<Rightarrow> nat \<Rightarrow> bool" where
  "table_ok M sz \<longleftrightarrow> (\<forall>x \<in># M. fst x < fst (snd x) \<and> fst (snd x) < 2 ^ 32)
     \<and> (\<forall>b. count (image_mset fst M) b \<le> 1) \<and> sz = word32 (root_bytes M)"

definition roots_ok :: "root_tables \<Rightarrow> bool" where
  "roots_ok st \<longleftrightarrow> index_upto (n_root_sets st) st \<and> n_root_sets st \<le> MAX_ROOT_SETS \<and> table_ok (mset (root_list st)) (GC_root_size st)"

definition root_addrs :: "root_tables \<Rightarrow> addr set" where
  "root_addrs st = (\<Union>x \<in> set (root_list st). {fst x ..< fst (snd x)})"

lemma wadd_word32': "wadd (word32 a) b = word32 (a + b)"
  by (simp add: wadd_def word32_def mod_add_left_eq)

lemma table_ok_add:
  assumes "table_ok M sz" "b < e" "e < 2 ^ 32" "b \<notin># image_mset fst M"
  shows "table_ok (add_mset (b, e, t) M) (wadd sz (wsub e b))"
proof -
  have "wadd sz (wsub e b) = word32 (root_bytes (add_mset (b, e, t) M))"
    using assms by (simp add: table_ok_def wadd_word32' root_bytes_def add.commute)
  moreover have "count (image_mset fst M) b = 0" using assms(4) by (simp only: count_eq_zero_iff not_False_eq_True)
  ultimately show ?thesis using assms by (simp add: table_ok_def)
qed

lemma table_ok_remove:
  assumes "table_ok M sz" "x \<in># M"
  shows "table_ok (M - {#x#}) (wsub sz (wsub (fst (snd x)) (fst x)))"
proof -
  have x: "fst x < fst (snd x)" "fst (snd x) < 2 ^ 32" using assms by (auto simp: table_ok_def)
  obtain N where N: "M = add_mset x N" using assms(2) by (metis insert_DiffM)
  let ?d = "fst (snd x) - fst x"
  have d: "wsub (fst (snd x)) (fst x) = ?d" "?d < 2 ^ 32" using x by auto
  have "wsub (word32 (?d + n)) ?d = word32 n" for n
  proof -
    have "word32 (word32 (?d + n) + (2 ^ 32 - ?d)) = word32 (?d + n + (2 ^ 32 - ?d))"
      by (simp add: word32_def mod_add_left_eq)
    also have "?d + n + (2 ^ 32 - ?d) = n + 2 ^ 32" using d(2) by simp
    also have "word32 (n + 2 ^ 32) = word32 n" by (simp add: word32_def)
    finally show ?thesis using d(2) by (simp add: wsub_def)
  qed
  then have "wsub sz (wsub (fst (snd x)) (fst x)) = word32 (root_bytes N)"
    using assms(1) d(1) by (simp add: table_ok_def N root_bytes_def)
  moreover have "count (image_mset fst N) b \<le> 1" for b
  proof -
    have "count (image_mset fst N) b \<le> count (image_mset fst M) b" by (simp add: N)
    also have "\<dots> \<le> 1" using assms(1) unfolding table_ok_def by blast
    finally show ?thesis .
  qed
  ultimately show ?thesis using assms(1) by (simp add: table_ok_def N)
qed

lemma root_list_simps [simp]:
  "length (root_list st) = n_root_sets st" "i < n_root_sets st \<Longrightarrow> root_list st ! i = entry_at st i"
  by (simp_all add: root_list_def)

lemma root_addrs_mset: "root_addrs st = (\<Union>x \<in> set_mset (mset (root_list st)). {fst x ..< fst (snd x)})"
  by (simp add: root_addrs_def)

text \<open>Adding a range.\<close>

lemma root_list_cong:
  "n_root_sets st' = n_root_sets st \<Longrightarrow> (\<And>i. i < n_root_sets st \<Longrightarrow> entry_at st' i = entry_at st i) \<Longrightarrow> root_list st' = root_list st"
  by (simp add: root_list_def)

lemma table_ok_extend:
  assumes "table_ok (add_mset (b, old, t) M) sz" "old < e" "e < 2 ^ 32"
  shows "table_ok (add_mset (b, e, t) M) (wadd sz (wsub e old))"
proof -
  have bo: "b < old" "old < 2 ^ 32" using assms(1) by (auto simp: table_ok_def)
  have "old - b + root_bytes M + (e - old) = e - b + root_bytes M" using bo assms(2) by simp
  then have "wadd sz (wsub e old) = word32 (root_bytes (add_mset (b, e, t) M))"
    using assms bo by (simp add: table_ok_def wadd_word32' root_bytes_def)
  then show ?thesis using assms bo by (simp add: table_ok_def)
qed

definition span_union :: "root_entry multiset \<Rightarrow> addr set" where
  "span_union M = (\<Union>x \<in> set_mset M. {fst x ..< fst (snd x)})"

lemma span_union_add [simp]: "span_union (add_mset (b, e, t) M) = {b ..< e} \<union> span_union M"
  by (simp add: span_union_def)

lemma root_addrs_span: "root_addrs st = span_union (mset (root_list st))"
  by (simp add: root_addrs_def span_union_def)

text \<open>The three ways in which \<open>GC_add_roots_inner\<close> returns.\<close>

lemma add_roots_extend:
  assumes ok: "roots_ok st" and i: "i < n_root_sets st" and e: "r_end (GC_static_roots st i) < e" "e < 2 ^ 32"
    and st': "st' = st\<lparr> GC_root_size := wadd (GC_root_size st) (wsub e (r_end (GC_static_roots st i))),
          GC_static_roots := (GC_static_roots st)(i := (GC_static_roots st i)\<lparr> r_end := e \<rparr>) \<rparr>"
  shows "roots_ok st' \<and> root_addrs st' = root_addrs st \<union> {r_start (GC_static_roots st i) ..< e}"
proof -
  let ?b = "r_start (GC_static_roots st i)" and ?old = "r_end (GC_static_roots st i)" and ?t = "r_tmp (GC_static_roots st i)"
  have "entry_at st i \<in># mset (root_list st)" using i by (auto simp: root_list_def)
  then obtain N where N: "mset (root_list st) = add_mset (entry_at st i) N" by (metis insert_DiffM)
  then have M: "mset (root_list st) = add_mset (?b, ?old, ?t) N" by (simp add: entry_at_def)
  have rl: "root_list st' = (root_list st)[i := (?b, e, ?t)]"
    by (rule nth_equalityI) (use i in \<open>auto simp: st' entry_at_def nth_list_update\<close>)
  have M': "mset (root_list st') = add_mset (?b, e, ?t) N"
    unfolding rl using i N by (simp add: mset_update)
  have tab: "table_ok (mset (root_list st)) (GC_root_size st)" using ok by (simp add: roots_ok_def)
  have "table_ok (mset (root_list st')) (GC_root_size st')"
    unfolding M' using table_ok_extend [OF tab [unfolded M] e] by (simp add: st')
  moreover have "index_upto (n_root_sets st') st'"
  proof -
    have "chain st' p xs = chain st p xs" for p xs by (rule chain_cong) (simp add: st')
    moreover have "r_start (GC_static_roots st' j) = r_start (GC_static_roots st j)" for j by (simp add: st')
    ultimately show ?thesis using ok by (simp add: roots_ok_def index_upto_def st')
  qed
  ultimately have "roots_ok st'" using ok by (simp add: roots_ok_def st')
  moreover have "root_addrs st' = root_addrs st \<union> {?b ..< e}"
    unfolding root_addrs_span M' unfolding M span_union_add using e(1) by auto
  ultimately show ?thesis ..
qed

lemma add_roots_new:
  assumes ok: "roots_ok st" and n: "n_root_sets st < MAX_ROOT_SETS" and be: "b < e" "e < 2 ^ 32"
    and fresh: "\<forall>i < n_root_sets st. r_start (GC_static_roots st i) \<noteq> b"
    and st1: "st1 = st\<lparr> GC_static_roots := (GC_static_roots st)(n_root_sets st := \<lparr> r_start = b, r_end = e, r_next = None, r_tmp = tmp \<rparr>) \<rparr>"
    and st': "st' = (add_roots_to_index (n_root_sets st) st1)\<lparr> GC_root_size := wadd (GC_root_size st) (wsub e b), n_root_sets := n_root_sets st + 1 \<rparr>"
  shows "roots_ok st' \<and> root_addrs st' = root_addrs st \<union> {b ..< e}"
proof -
  let ?n = "n_root_sets st" and ?st2 = "add_roots_to_index (n_root_sets st) st1"
  have "index_upto ?n st1"
    unfolding index_upto_def
  proof (intro allI impI)
    fix h assume "h < RT_SIZE"
    then obtain xs where xs: "chain st (GC_root_index st h) xs" "set xs = {i. i < ?n \<and> rt_hash (r_start (GC_static_roots st i)) = h}"
      using ok by (auto simp: roots_ok_def index_upto_def)
    have "chain st1 (GC_root_index st1 h) xs"
      using xs chain_cong [of xs st1 st "GC_root_index st h"] by (auto simp: st1)
    moreover have "set xs = {i. i < ?n \<and> rt_hash (r_start (GC_static_roots st1 i)) = h}" using xs(2) by (auto simp: st1)
    ultimately show "\<exists>xs. chain st1 (GC_root_index st1 h) xs \<and> set xs = {i. i < ?n \<and> rt_hash (r_start (GC_static_roots st1 i)) = h}" by blast
  qed
  from add_roots_to_index_upto [OF this] have idx2: "index_upto (Suc ?n) ?st2" .
  have "index_upto (n_root_sets st') st'"
  proof -
    have "chain st' p xs = chain ?st2 p xs" for p xs by (rule chain_cong) (simp add: st')
    then show ?thesis using idx2 by (simp add: index_upto_def st')
  qed
  moreover have rl: "root_list st' = root_list st @ [(b, e, tmp)]"
    by (rule nth_equalityI) (auto simp: st' st1 add_roots_to_index_def Let_def root_list_def entry_at_def nth_append less_Suc_eq)
  moreover have "b \<notin># image_mset fst (mset (root_list st))"
    using fresh by (auto simp: root_list_def entry_at_def)
  ultimately show ?thesis
    using ok n table_ok_add [OF _ be, of "mset (root_list st)" "GC_root_size st" tmp]
    by (auto simp: roots_ok_def root_addrs_span st')
qed

lemma GC_add_roots_inner_run:
  assumes ok: "roots_ok st" and b: "b < e" "e < 2 ^ 32" "e mod 4 = 0"
  shows "case GC_add_roots_inner b e tmp st of
      None \<Rightarrow> n_root_sets st = MAX_ROOT_SETS \<and> b \<notin> fst ` set (root_list st)
    | Some st' \<Rightarrow> roots_ok st' \<and> root_addrs st' = root_addrs st \<union> {b ..< e}"
proof -
  have idx: "index_upto (n_root_sets st) st" and le: "n_root_sets st \<le> MAX_ROOT_SETS"
    using ok by (auto simp: roots_ok_def)
  have e4: "e - e mod 4 = e" "b \<noteq> e" using b by simp_all
  obtain r where r: "GC_roots_present st b = Some r"
      "case r of None \<Rightarrow> \<forall>i < n_root_sets st. r_start (GC_static_roots st i) \<noteq> b
       | Some i \<Rightarrow> i < n_root_sets st \<and> r_start (GC_static_roots st i) = b"
    using GC_roots_present_spec [OF idx] by blast
  show ?thesis
  proof (cases r)
    case (Some i)
    then have i: "i < n_root_sets st" "r_start (GC_static_roots st i) = b" using r(2) by auto
    show ?thesis
    proof (cases "e \<le> r_end (GC_static_roots st i)")
      case True
      have "entry_at st i \<in> set (root_list st)" using i(1) by (simp add: root_list_def)
      then have "{b ..< r_end (GC_static_roots st i)} \<subseteq> root_addrs st"
        using i(2) unfolding root_addrs_def entry_at_def by force
      then have "root_addrs st = root_addrs st \<union> {b ..< e}" using True by fastforce
      then show ?thesis using Some r(1) True e4 ok by (simp add: GC_add_roots_inner_def)
    next
      case False
      then show ?thesis using Some r(1) e4 add_roots_extend [OF ok i(1) _ b(2) refl] i(2)
        by (simp add: GC_add_roots_inner_def)
    qed
  next
    case None
    then have fresh: "\<forall>i < n_root_sets st. r_start (GC_static_roots st i) \<noteq> b" using r(2) by simp
    show ?thesis
    proof (cases "n_root_sets st = MAX_ROOT_SETS")
      case True
      moreover have "b \<notin> fst ` set (root_list st)" using fresh by (auto simp: root_list_def entry_at_def)
      ultimately show ?thesis using None r(1) e4 by (simp add: GC_add_roots_inner_def)
    next
      case False
      then show ?thesis using None r(1) e4 le add_roots_new [OF ok _ b(1,2) fresh refl refl, of tmp]
        by (simp add: GC_add_roots_inner_def Let_def add_roots_to_index_def)
    qed
  qed
qed

section \<open>Removing roots\<close>

lemma mset_move_last:
  assumes "i < length xs"
  shows "mset (butlast (xs[i := last xs])) = mset xs - {#xs ! i#}"
proof -
  have "xs \<noteq> []" using assms by auto
  then obtain ys z where xs: "xs = ys @ [z]" by (metis rev_exhaust)
  show ?thesis
  proof (cases "i = length ys")
    case False
    then have i: "i < length ys" using assms xs by simp
    then have m: "ys ! i \<in># mset ys" by simp
    have "butlast (xs[i := last xs]) = ys[i := z]" using i by (simp add: xs list_update_append butlast_append)
    then have "mset (butlast (xs[i := last xs])) = add_mset z (mset ys - {#ys ! i#})" using i by (simp add: mset_update)
    also have "\<dots> = mset xs - {#xs ! i#}" using i m by (simp add: xs nth_append)
    finally show ?thesis .
  qed (simp add: xs)
qed

lemma root_list_remove:
  assumes "i < n_root_sets st"
  shows "root_list (GC_remove_root_at_pos i st) = butlast ((root_list st)[i := last (root_list st)])"
proof (rule nth_equalityI)
  show "length (root_list (GC_remove_root_at_pos i st)) = length (butlast ((root_list st)[i := last (root_list st)]))"
    by (simp add: GC_remove_root_at_pos_def Let_def)
next
  fix j assume "j < length (root_list (GC_remove_root_at_pos i st))"
  then have j: "j < n_root_sets st - 1" "j < n_root_sets (GC_remove_root_at_pos i st)" by (simp_all add: GC_remove_root_at_pos_def Let_def)
  have "root_list st \<noteq> []" using assms by (auto simp: root_list_def)
  then have l: "last (root_list st) = entry_at st (n_root_sets st - 1)" using assms by (simp add: last_conv_nth)
  show "root_list (GC_remove_root_at_pos i st) ! j = butlast ((root_list st)[i := last (root_list st)]) ! j"
    using j assms by (simp add: l nth_butlast nth_list_update) (simp add: entry_at_def GC_remove_root_at_pos_def Let_def)
qed

lemma remove_root_ok:
  assumes i: "i < n_root_sets st" and tab: "table_ok (mset (root_list st)) (GC_root_size st)"
  shows "mset (root_list (GC_remove_root_at_pos i st)) = mset (root_list st) - {#entry_at st i#}"
    "table_ok (mset (root_list (GC_remove_root_at_pos i st))) (GC_root_size (GC_remove_root_at_pos i st))"
proof -
  show m: "mset (root_list (GC_remove_root_at_pos i st)) = mset (root_list st) - {#entry_at st i#}"
    using mset_move_last [of i "root_list st"] i by (simp add: root_list_remove)
  have "entry_at st i \<in># mset (root_list st)" using i by (auto simp: root_list_def)
  from table_ok_remove [OF tab this]
  show "table_ok (mset (root_list (GC_remove_root_at_pos i st))) (GC_root_size (GC_remove_root_at_pos i st))"
    unfolding m by (simp add: GC_remove_root_at_pos_def Let_def entry_at_def)
qed

abbreviation entry_pred :: "(root_entry \<Rightarrow> bool) \<Rightarrow> roots \<Rightarrow> bool" where
  "entry_pred Q \<equiv> (\<lambda>r. Q (r_start r, r_end r, r_tmp r))"

lemma remove_roots_loop_spec:
  assumes "table_ok (mset (root_list st)) (GC_root_size st)" "\<forall>j < i. j < n_root_sets st \<longrightarrow> \<not> Q (entry_at st j)"
    "st' = remove_roots_loop (entry_pred Q) i st"
  shows "mset (root_list st') = filter_mset (\<lambda>x. \<not> Q x) (mset (root_list st))
    \<and> table_ok (mset (root_list st')) (GC_root_size st') \<and> n_root_sets st' \<le> n_root_sets st \<and> GC_excl_table st' = GC_excl_table st"
  using assms
proof (induction "n_root_sets st - i" arbitrary: i st rule: less_induct)
  case less
  note tab = less.prems(1)
  show ?case
  proof (cases "i < n_root_sets st")
    case False
    then have "st' = st" using less.prems(3) by (simp add: remove_roots_loop.simps [of _ i st])
    moreover have "\<forall>x \<in> set (root_list st). \<not> Q x" using False less.prems(2) by (auto simp: root_list_def)
    then have "filter_mset (\<lambda>x. \<not> Q x) (mset (root_list st)) = mset (root_list st)" by (simp add: filter_mset_eq_conv)
    ultimately show ?thesis using tab by simp
  next
    case True
    show ?thesis
    proof (cases "Q (entry_at st i)")
      case q: True
      let ?st = "GC_remove_root_at_pos i st"
      have n: "n_root_sets ?st = n_root_sets st - 1" "GC_excl_table ?st = GC_excl_table st" by (simp_all add: GC_remove_root_at_pos_def Let_def)
      have run: "st' = remove_roots_loop (entry_pred Q) i ?st"
        using less.prems(3) True q by (simp add: remove_roots_loop.simps [of _ i st] entry_at_def)
      have below: "\<forall>j < i. j < n_root_sets ?st \<longrightarrow> \<not> Q (entry_at ?st j)"
        using less.prems(2) by (simp add: GC_remove_root_at_pos_def Let_def entry_at_def)
      have "filter_mset (\<lambda>x. \<not> Q x) (mset (root_list ?st)) = filter_mset (\<lambda>x. \<not> Q x) (mset (root_list st))"
        unfolding remove_root_ok(1) [OF True tab] using q by (simp add: filter_diff_mset)
      moreover have "n_root_sets ?st - i < n_root_sets st - i" using True n by simp
      ultimately show ?thesis using less.hyps [OF _ remove_root_ok(2) [OF True tab] below run] n by auto
    next
      case q: False
      have "st' = remove_roots_loop (entry_pred Q) (i + 1) st"
        using less.prems(3) True q by (simp add: remove_roots_loop.simps [of _ i st] entry_at_def)
      moreover have "\<forall>j < i + 1. j < n_root_sets st \<longrightarrow> \<not> Q (entry_at st j)"
        using less.prems(2) q by (auto simp: less_Suc_eq)
      moreover have "n_root_sets st - (i + 1) < n_root_sets st - i" using True by simp
      ultimately show ?thesis using less.hyps [OF _ tab] by blast
    qed
  qed
qed

text \<open>Rebuilding the index from scratch.\<close>

lemma add_roots_to_index_frame [simp]:
  "entry_at (add_roots_to_index k st) i = entry_at st i" "n_root_sets (add_roots_to_index k st) = n_root_sets st"
  "GC_root_size (add_roots_to_index k st) = GC_root_size st" "GC_excl_table (add_roots_to_index k st) = GC_excl_table st"
  by (simp_all add: add_roots_to_index_def Let_def entry_at_def)

lemma fold_index:
  assumes "index_upto 0 st"
  shows "index_upto k (fold add_roots_to_index [0 ..< k] st) \<and> (\<forall>i. entry_at (fold add_roots_to_index [0 ..< k] st) i = entry_at st i)
    \<and> n_root_sets (fold add_roots_to_index [0 ..< k] st) = n_root_sets st
    \<and> GC_root_size (fold add_roots_to_index [0 ..< k] st) = GC_root_size st
    \<and> GC_excl_table (fold add_roots_to_index [0 ..< k] st) = GC_excl_table st"
  by (induction k) (simp_all add: assms add_roots_to_index_upto)

lemma rebuild_ok:
  assumes "n_root_sets st \<le> MAX_ROOT_SETS" "table_ok (mset (root_list st)) (GC_root_size st)"
  shows "roots_ok (GC_rebuild_root_index st)" "root_list (GC_rebuild_root_index st) = root_list st"
    "GC_excl_table (GC_rebuild_root_index st) = GC_excl_table st"
proof -
  let ?st = "st\<lparr> GC_root_index := (\<lambda>i. if i < RT_SIZE then None else GC_root_index st i) \<rparr>"
  have "chain ?st (GC_root_index ?st h) []" if "h < RT_SIZE" for h using that by simp
  then have "index_upto 0 ?st" unfolding index_upto_def by (metis (no_types, lifting) empty_Collect_eq list.set(1) not_less0)
  note f = fold_index [OF this, of "n_root_sets st", folded GC_rebuild_root_index_def]
  have "entry_at ?st i = entry_at st i" for i by (simp add: entry_at_def)
  with f show rl: "root_list (GC_rebuild_root_index st) = root_list st" by (intro root_list_cong) auto
  show "roots_ok (GC_rebuild_root_index st)" unfolding roots_ok_def rl using f assms by simp
  show "GC_excl_table (GC_rebuild_root_index st) = GC_excl_table st" using f by simp
qed

lemma remove_and_rebuild:
  assumes "roots_ok st"
  shows "roots_ok (GC_rebuild_root_index (remove_roots_loop (entry_pred Q) 0 st))"
    "mset (root_list (GC_rebuild_root_index (remove_roots_loop (entry_pred Q) 0 st))) = filter_mset (\<lambda>x. \<not> Q x) (mset (root_list st))"
    "GC_excl_table (GC_rebuild_root_index (remove_roots_loop (entry_pred Q) 0 st)) = GC_excl_table st"
proof -
  let ?r = "remove_roots_loop (entry_pred Q) 0 st"
  have s: "mset (root_list ?r) = filter_mset (\<lambda>x. \<not> Q x) (mset (root_list st))" "table_ok (mset (root_list ?r)) (GC_root_size ?r)"
      "n_root_sets ?r \<le> MAX_ROOT_SETS" "GC_excl_table ?r = GC_excl_table st"
    using remove_roots_loop_spec [OF _ _ refl, of st 0 Q] assms by (auto simp: roots_ok_def)
  note r = rebuild_ok [OF s(3,2)]
  show "roots_ok (GC_rebuild_root_index ?r)" by (rule r(1))
  show "mset (root_list (GC_rebuild_root_index ?r)) = filter_mset (\<lambda>x. \<not> Q x) (mset (root_list st))" by (simp add: r(2) s(1))
  show "GC_excl_table (GC_rebuild_root_index ?r) = GC_excl_table st" by (simp add: r(3) s(4))
qed

lemma GC_remove_roots_inner_spec:
  assumes "roots_ok st"
  shows "roots_ok (GC_remove_roots_inner b e st)"
    "mset (root_list (GC_remove_roots_inner b e st)) = filter_mset (\<lambda>(s, f, t). \<not> (b \<le> s \<and> f \<le> e)) (mset (root_list st))"
    "GC_excl_table (GC_remove_roots_inner b e st) = GC_excl_table st"
  using remove_and_rebuild [OF assms, of "\<lambda>(s, f, t). b \<le> s \<and> f \<le> e"]
  by (simp_all add: GC_remove_roots_inner_def case_prod_unfold)

lemma GC_remove_tmp_roots_spec:
  assumes "roots_ok st"
  shows "roots_ok (GC_remove_tmp_roots st)"
    "mset (root_list (GC_remove_tmp_roots st)) = filter_mset (\<lambda>(s, f, t). \<not> t) (mset (root_list st))"
    "GC_excl_table (GC_remove_tmp_roots st) = GC_excl_table st"
  using remove_and_rebuild [OF assms, of "\<lambda>(s, f, t). t"]
  by (simp_all add: GC_remove_tmp_roots_def case_prod_unfold eta_contract_eq)

lemma GC_clear_roots_spec: "roots_ok (GC_clear_roots st)" "root_list (GC_clear_roots st) = []"
proof -
  have "chain (GC_clear_roots st) (GC_root_index (GC_clear_roots st) h) []" if "h < RT_SIZE" for h
    using that by (simp add: GC_clear_roots_def)
  then have "index_upto 0 (GC_clear_roots st)"
    unfolding index_upto_def by (metis (no_types, lifting) empty_Collect_eq list.set(1) not_less0)
  then show "roots_ok (GC_clear_roots st)" "root_list (GC_clear_roots st) = []"
    by (simp_all add: roots_ok_def GC_clear_roots_def root_list_def table_ok_def root_bytes_def)
qed

section \<open>Properties\<close>

lemma roots_present_iff:
  assumes "roots_ok st"
  shows "\<exists>r. GC_roots_present st a = Some r \<and> (r \<noteq> None \<longleftrightarrow> a \<in> fst ` set (root_list st))"
proof -
  have "index_upto (n_root_sets st) st" using assms by (simp add: roots_ok_def)
  from GC_roots_present_spec [OF this, of a]
  obtain r where r: "GC_roots_present st a = Some r"
    "case r of None \<Rightarrow> \<forall>i < n_root_sets st. r_start (GC_static_roots st i) \<noteq> a
     | Some i \<Rightarrow> i < n_root_sets st \<and> r_start (GC_static_roots st i) = a" by blast
  have "a \<in> fst ` set (root_list st) \<longleftrightarrow> (\<exists>i < n_root_sets st. r_start (GC_static_roots st i) = a)"
    by (auto simp: root_list_def entry_at_def image_image)
  then have "r \<noteq> None \<longleftrightarrow> a \<in> fst ` set (root_list st)" using r(2) by (auto split: option.splits)
  with r(1) show ?thesis by blast
qed

text \<open>
  The calls that change the tables, at any time and in any order. The bounds are addresses;
  a range that the client registers has its start below its rounded end.
\<close>

definition init_roots :: root_tables where
  "init_roots = \<lparr> GC_static_roots = (\<lambda>_. \<lparr> r_start = 0, r_end = 0, r_next = None, r_tmp = False \<rparr>), n_root_sets = 0,
     GC_root_index = (\<lambda>_. None), GC_root_size = 0, roots_were_cleared = False, GC_excl_table = [] \<rparr>"

inductive root_step :: "root_tables \<Rightarrow> root_tables \<Rightarrow> bool" where
  add: "GC_add_roots_inner b e tmp st = Some st' \<Longrightarrow> b \<le> e - e mod 4 \<Longrightarrow> e < 2 ^ 32 \<Longrightarrow> root_step st st'"
| clear: "root_step st (GC_clear_roots st)"
| remove_tmp: "root_step st (GC_remove_tmp_roots st)"
| remove: "root_step st (GC_remove_roots b e st)"
| exclude: "GC_exclude_static_roots b e st = Some st' \<Longrightarrow> b \<le> e - e mod 4 \<Longrightarrow> root_step st st'"

inductive root_state :: "root_tables \<Rightarrow> bool" where
  init: "root_state init_roots"
| step: "root_state st \<Longrightarrow> root_step st st' \<Longrightarrow> root_state st'"

lemma round_down4: "(e - e mod 4) - (e - e mod 4) mod 4 = e - e mod 4" "(e - e mod 4) mod 4 = (0::nat)"
proof -
  have "e - e mod 4 = 4 * (e div 4)" by (simp add: minus_mod_eq_mult_div)
  then show "(e - e mod 4) mod 4 = 0" by simp
  then show "(e - e mod 4) - (e - e mod 4) mod 4 = e - e mod 4" by simp
qed

lemma GC_add_roots_inner_round: "GC_add_roots_inner b (e - e mod 4) tmp st = GC_add_roots_inner b e tmp st"
  by (simp only: GC_add_roots_inner_def Let_def round_down4 diff_zero)

lemma GC_add_roots_inner_excl: "GC_add_roots_inner b e tmp st = Some st' \<Longrightarrow> GC_excl_table st' = GC_excl_table st"
  by (auto simp: GC_add_roots_inner_def Let_def split: if_splits option.splits)

lemma exclude_frame:
  "GC_exclude_static_roots_inner b e st = Some st' \<Longrightarrow> st' = st\<lparr> GC_excl_table := GC_excl_table st' \<rparr>"
  by (auto simp: GC_exclude_static_roots_inner_def exclude_at_def Let_def split: if_splits option.splits)

lemma roots_ok_excl [simp]: "roots_ok (st\<lparr> GC_excl_table := t \<rparr>) = roots_ok st"
proof -
  have "chain (st\<lparr> GC_excl_table := t \<rparr>) p xs = chain st p xs" for p xs by (rule chain_cong) simp
  moreover have "root_list (st\<lparr> GC_excl_table := t \<rparr>) = root_list st" by (rule root_list_cong) (simp_all add: entry_at_def)
  ultimately show ?thesis by (simp add: roots_ok_def index_upto_def)
qed

lemma add_roots_ok:
  assumes "roots_ok st" "GC_add_roots_inner b e tmp st = Some st'" "b \<le> e - e mod 4" "e < 2 ^ 32"
  shows "roots_ok st'"
proof (cases "b = e - e mod 4")
  case True
  then show ?thesis using assms(1,2) by (simp add: GC_add_roots_inner_def)
next
  case False
  have "roots_ok st' \<and> root_addrs st' = root_addrs st \<union> {b ..< e - e mod 4}"
    using GC_add_roots_inner_run [OF assms(1), of b "e - e mod 4" tmp] round_down4(2) [of e] False assms
    by (simp add: GC_add_roots_inner_round)
  then show ?thesis ..
qed

lemma exclude_ok:
  assumes "excl_ok (GC_excl_table st)" "GC_exclude_static_roots b e st = Some st'" "b \<le> e - e mod 4"
  shows "excl_ok (GC_excl_table st')" "roots_ok st' = roots_ok st"
proof -
  have "excl_ok (GC_excl_table st') \<and> roots_ok st' = roots_ok st"
  proof (cases "b = e - e mod 4")
    case True
    then show ?thesis using assms(1,2) by (simp add: GC_exclude_static_roots_def)
  next
    case False
    then have r: "GC_exclude_static_roots_inner b (e - e mod 4) st = Some st'" and l: "b < e - e mod 4"
      using assms(2,3) by (simp_all add: GC_exclude_static_roots_def)
    have "roots_ok (st\<lparr> GC_excl_table := GC_excl_table st' \<rparr>) = roots_ok st" by simp
    then show ?thesis using exclude_inner_cases [OF assms(1) l] r exclude_frame [OF r] by simp
  qed
  then show "excl_ok (GC_excl_table st')" "roots_ok st' = roots_ok st" by auto
qed

lemma root_state_ok:
  assumes "root_state st"
  shows "roots_ok st \<and> excl_ok (GC_excl_table st)"
  using assms
proof (induction rule: root_state.induct)
  case init
  have "roots_ok init_roots"
    by (simp add: roots_ok_def index_upto_def init_roots_def root_list_def table_ok_def root_bytes_def)
  then show ?case by (simp add: init_roots_def excl_ok_def)
next
  case (step st st')
  then have ok: "roots_ok st" "excl_ok (GC_excl_table st)" by auto
  from step.hyps(2) show ?case
  proof (cases rule: root_step.cases)
    case (add b e tmp)
    then show ?thesis using add_roots_ok [OF ok(1)] GC_add_roots_inner_excl ok(2) by metis
  next
    case clear
    then show ?thesis using GC_clear_roots_spec(1) ok(2) by (simp add: GC_clear_roots_def)
  next
    case remove_tmp
    then show ?thesis using GC_remove_tmp_roots_spec [OF ok(1)] ok(2) by simp
  next
    case (remove b e)
    then show ?thesis using GC_remove_roots_inner_spec [OF ok(1)] ok by (simp add: GC_remove_roots_def)
  next
    case (exclude b e)
    then show ?thesis using exclude_ok [OF ok(2)] ok(1) by metis
  qed
qed

lemma root_state_excl_length: "root_state st \<Longrightarrow> length (GC_excl_table st) \<le> MAX_EXCLUSIONS"
proof (induction rule: root_state.induct)
  case init
  then show ?case by (simp add: init_roots_def)
next
  case (step st st')
  have ok: "roots_ok st" using root_state_ok [OF step.hyps(1)] by simp
  from step.hyps(2) show ?case
  proof (cases rule: root_step.cases)
    case (exclude b e)
    then show ?thesis using step.IH
      by (auto simp: GC_exclude_static_roots_def GC_exclude_static_roots_inner_def exclude_at_def Let_def min_def split: if_splits option.splits)
  qed (use step.IH GC_add_roots_inner_excl GC_remove_tmp_roots_spec(3) [OF ok] GC_remove_roots_inner_spec(3) [OF ok] in
      \<open>auto simp: GC_clear_roots_def GC_remove_roots_def\<close>)
qed

lemmas roots_eval = GC_add_roots_inner_def GC_roots_present_def roots_chain.simps add_roots_to_index_def Let_def
  init_roots_def MAX_ROOT_SETS_def wadd_def wsub_def word32_def

lemma sample_roots1: "GC_add_roots_inner 100 122 False init_roots = Some
   (init_roots\<lparr> GC_static_roots := (GC_static_roots init_roots)(0 := \<lparr> r_start = 100, r_end = 120, r_next = None, r_tmp = False \<rparr>),
      n_root_sets := 1, GC_root_index := [rt_hash 100 \<mapsto> 0], GC_root_size := 20 \<rparr>)"
  by (simp add: roots_eval)

text \<open>
  C10. The root tables stay consistent: after any sequence of calls that add, remove or clear roots
  or exclude ranges, every bucket of the index holds precisely the entries that hash to it, no
  two entries start at the same address, no entry is empty, \<open>GC_root_size\<close> is the sum of the
  lengths modulo \<open>2 ^ 32\<close>, the tables are within their bounds, and the exclusions are sorted and
  disjoint.
\<close>

theorem root_tables_invariant:
  assumes "root_state st"
  shows "roots_ok st \<and> excl_ok (GC_excl_table st) \<and> length (GC_excl_table st) \<le> MAX_EXCLUSIONS"
  using root_state_ok [OF assms] root_state_excl_length [OF assms] by blast

theorem root_tables_invariant_witness:
  "root_state (the (GC_add_roots_inner 100 122 False init_roots)) \<and> n_root_sets (the (GC_add_roots_inner 100 122 False init_roots)) = 1
   \<and> roots_ok (the (GC_add_roots_inner 100 122 False init_roots))"
proof -
  have "root_step init_roots (the (GC_add_roots_inner 100 122 False init_roots))"
    by (rule root_step.add [of 100 122 False]) (simp_all add: sample_roots1)
  then have s: "root_state (the (GC_add_roots_inner 100 122 False init_roots))"
    by (rule root_state.step [OF root_state.init])
  from root_tables_invariant [OF s] s show ?thesis by (simp add: sample_roots1)
qed

text \<open>
  C35. \<open>GC_add_roots_inner\<close> registers the range up to its rounded end: the addresses covered by the
  table grow by precisely that range, whether an entry with the same start is extended or a new
  one is made. It aborts only if the table is full and no entry starts at \<open>b\<close>.
\<close>

theorem GC_add_roots_inner_exact:
  assumes "root_state st" "b < e - e mod 4" "e < 2 ^ 32"
  shows "case GC_add_roots_inner b e tmp st of
      None \<Rightarrow> n_root_sets st = MAX_ROOT_SETS \<and> b \<notin> fst ` set (root_list st)
    | Some st' \<Rightarrow> root_state st' \<and> root_addrs st' = root_addrs st \<union> {b ..< e - e mod 4}"
proof -
  have ok: "roots_ok st" using root_state_ok [OF assms(1)] by simp
  have "root_state st'" if "GC_add_roots_inner b e tmp st = Some st'" for st'
    by (rule root_state.step [OF assms(1) root_step.add [OF that]]) (use assms in simp_all)
  then show ?thesis
    using GC_add_roots_inner_run [OF ok assms(2) le_less_trans [OF diff_le_self assms(3)] round_down4(2), of tmp]
    by (auto simp: GC_add_roots_inner_round split: option.splits)
qed

theorem GC_add_roots_inner_exact_witness:
  "\<exists>st'. GC_add_roots_inner 100 122 False init_roots = Some st' \<and> root_addrs st' = {100 ..< 120}"
  using GC_add_roots_inner_exact [OF root_state.init, of 100 122 False]
  by (simp add: sample_roots1) (simp add: root_addrs_def root_list_def init_roots_def)

text \<open>
  C36. \<open>GC_remove_roots\<close> drops precisely the entries that lie inside of the range, each once, whatever
  the order in which the loop moves the last entry into the gaps; it does nothing if the range
  holds no aligned word. The others are still found through the rebuilt index, and only they.
\<close>

theorem GC_remove_roots_exact:
  assumes "root_state st"
  shows "mset (root_list (GC_remove_roots b e st)) =
      (if word32 (b + 3) - word32 (b + 3) mod 4 \<ge> e - e mod 4 then mset (root_list st)
       else filter_mset (\<lambda>(s, f, t). \<not> (b \<le> s \<and> f \<le> e)) (mset (root_list st)))
    \<and> (\<exists>r. GC_roots_present (GC_remove_roots b e st) a = Some r
         \<and> (r \<noteq> None \<longleftrightarrow> a \<in> fst ` set (root_list (GC_remove_roots b e st))))"
proof
  have ok: "roots_ok st" using root_state_ok [OF assms] by simp
  show "mset (root_list (GC_remove_roots b e st)) =
      (if word32 (b + 3) - word32 (b + 3) mod 4 \<ge> e - e mod 4 then mset (root_list st)
       else filter_mset (\<lambda>(s, f, t). \<not> (b \<le> s \<and> f \<le> e)) (mset (root_list st)))"
    using GC_remove_roots_inner_spec(2) [OF ok] by (simp add: GC_remove_roots_def)
  have "roots_ok (GC_remove_roots b e st)"
    using root_state_ok [OF root_state.step [OF assms root_step.remove]] by simp
  then show "\<exists>r. GC_roots_present (GC_remove_roots b e st) a = Some r
      \<and> (r \<noteq> None \<longleftrightarrow> a \<in> fst ` set (root_list (GC_remove_roots b e st)))"
    by (rule roots_present_iff)
qed

theorem GC_remove_roots_exact_witness:
  "mset (root_list (GC_remove_roots 96 124 (the (GC_add_roots_inner 100 122 False init_roots)))) = {#}
   \<and> mset (root_list (GC_remove_roots 96 116 (the (GC_add_roots_inner 100 122 False init_roots)))) = {#(100, 120, False)#}"
proof -
  have "root_step init_roots (the (GC_add_roots_inner 100 122 False init_roots))"
    by (rule root_step.add [of 100 122 False]) (simp_all add: sample_roots1)
  then have s: "root_state (the (GC_add_roots_inner 100 122 False init_roots))"
    by (rule root_state.step [OF root_state.init])
  have l: "root_list (the (GC_add_roots_inner 100 122 False init_roots)) = [(100, 120, False)]"
    by (simp add: sample_roots1) (simp add: root_list_def entry_at_def)
  show ?thesis
    using GC_remove_roots_exact [OF s, of 96 124] GC_remove_roots_exact [OF s, of 96 116]
    by (simp add: l word32_def)
qed

text \<open>
  C37. \<open>GC_exclude_static_roots\<close> adds precisely the range up to its rounded end to the excluded
  addresses, and keeps the table sorted and disjoint. It succeeds only on a range that overlaps
  no earlier one, and aborts only on one that does, or if the table is full.
\<close>

theorem GC_exclude_static_roots_exact:
  assumes "root_state st" "b < e - e mod 4"
  shows "case GC_exclude_static_roots b e st of
      None \<Rightarrow> excluded (GC_excl_table st) \<inter> {b ..< e - e mod 4} \<noteq> {} \<or> length (GC_excl_table st) = MAX_EXCLUSIONS
    | Some st' \<Rightarrow> excluded (GC_excl_table st) \<inter> {b ..< e - e mod 4} = {} \<and> excl_ok (GC_excl_table st')
        \<and> excluded (GC_excl_table st') = excluded (GC_excl_table st) \<union> {b ..< e - e mod 4}"
proof -
  have ok: "excl_ok (GC_excl_table st)" using root_state_ok [OF assms(1)] by simp
  have "GC_exclude_static_roots b e st = GC_exclude_static_roots_inner b (e - e mod 4) st"
    using assms(2) by (simp add: GC_exclude_static_roots_def)
  then show ?thesis using exclude_inner_cases [OF ok assms(2)] by simp
qed

theorem GC_exclude_static_roots_exact_witness:
  "\<exists>st'. GC_exclude_static_roots 100 122 init_roots = Some st' \<and> excluded (GC_excl_table st') = {100 ..< 120}"
  using GC_exclude_static_roots_exact [OF root_state.init, of 100 122]
  by (simp add: GC_exclude_static_roots_def GC_exclude_static_roots_inner_def init_roots_def exclude_at_def MAX_EXCLUSIONS_def MAX_ROOT_SETS_def
      excluded_def)

end
