(* ===== verification/Mark_Phase.thy ===== *)
theory Mark_Phase
  imports Mark_From Roots
begin

text \<open>
  The mark phase (\<^verbatim>\<open>bdwgc/mark.c\<close> and \<^verbatim>\<open>mark_rts.c\<close>): pushing ranges and the roots, pushing what
  marked objects point to after the mark stack overflowed, and the state machine
  \<open>GC_mark_some\<close>, with \<open>GC_base\<close> of \<^verbatim>\<open>misc.c\<close>. Threads are off. \<open>None\<close> is \<open>ABORT\<close>, a loop that does not
  end or a read through a pointer that is no header.
\<close>

section \<open>Rounding\<close>

definition round_up4 :: "addr \<Rightarrow> addr" where
  "round_up4 p = word32 (p + 3) - word32 (p + 3) mod 4"

definition round_down4 :: "addr \<Rightarrow> addr" where
  "round_down4 p = p - p mod 4"

section \<open>The base of an object\<close>

text \<open>The end of \<open>GC_base\<close>, at the block \<open>h\<close> with its header, for the pointer \<open>p\<close>; 0 is \<open>NULL\<close>.\<close>

definition base_in_block :: "addr \<Rightarrow> addr \<Rightarrow> hblk \<Rightarrow> hdr \<Rightarrow> addr" where
  "base_in_block p r0 h hh =
     (if HBLK_IS_FREE hh then 0
      else
        (let r1 = round_down4 r0;
             offset = r1 mod HBLKSIZE;
             sz = hb_sz hh;
             obj_displ = offset mod sz;
             r = r1 - obj_displ;
             limit = r + sz in
         if limit > hblk_addr (h + 1) \<and> sz \<le> HBLKSIZE then 0
         else if p \<ge> limit then 0
         else r))"

definition GC_base :: "'a hdr_index_scheme \<Rightarrow> addr \<Rightarrow> addr option" where
  "GC_base st p =
     (let h = HBLKPTR p in
      case HDR st h of
        Hdr hh \<Rightarrow> Some (base_in_block p p h hh)
      | Fwd k \<Rightarrow>
          (if k = 0 then Some 0
           else case forward_to_start st h k of
             None \<Rightarrow> None
           | Some (h', hh) \<Rightarrow> Some (base_in_block p (hblk_addr h') h' hh)))"

section \<open>Pushing ranges\<close>

definition GC_push_all :: "addr \<Rightarrow> addr \<Rightarrow> 'a gc_marker_scheme \<Rightarrow> 'a gc_marker_scheme option" where
  "GC_push_all bottom0 top0 st =
     (let bottom = round_up4 bottom0; top_addr = round_down4 top0 in
      if top_addr = 0 \<or> bottom = top_addr then Some st
      else if length (GC_mark_stack st) \<ge> GC_mark_stack_size st then None
      else Some (st\<lparr> GC_mark_stack := \<lparr> mse_start = bottom, mse_descr = wsub top_addr bottom \<rparr> # GC_mark_stack st \<rparr>))"

text \<open>
  The loop of \<open>GC_push_selected\<close> over the whole blocks between \<open>h\<close> and the end. The mark stack is
  in danger of overflow if it is more than three quarters full, or empty, since the index of its
  top is compared as an unsigned word.
\<close>

function push_selected_loop ::
    "(hblk \<Rightarrow> bool) \<Rightarrow> hblk \<Rightarrow> addr \<Rightarrow> 'a gc_marker_scheme \<Rightarrow> (hblk option \<times> 'a gc_marker_scheme) option" where
  "push_selected_loop dirty h top_addr st =
     (if hblk_addr (h + 1) \<le> top_addr
      then
        (if dirty h
         then
           (if wsub (length (GC_mark_stack st)) 1 > 3 * GC_mark_stack_size st div 4
            then map_option (\<lambda>st'. (None, st')) (GC_push_all (hblk_addr h) top_addr st)
            else (case GC_push_all (hblk_addr h) (hblk_addr (h + 1)) st of
                    None \<Rightarrow> None
                  | Some st' \<Rightarrow> push_selected_loop dirty (h + 1) top_addr st'))
         else push_selected_loop dirty (h + 1) top_addr st)
      else Some (Some h, st))"
  by pat_completeness auto
termination
  by (relation "measure (\<lambda>(dirty, h, t, st). t - hblk_addr h)") (auto simp: hblk_addr_def HBLKSIZE_def)

declare push_selected_loop.simps [simp del]

definition push_if :: "bool \<Rightarrow> addr \<Rightarrow> addr \<Rightarrow> 'a gc_marker_scheme \<Rightarrow> 'a gc_marker_scheme option" where
  "push_if c bottom top_addr st = (if c then GC_push_all bottom top_addr st else Some st)"

definition GC_push_selected ::
    "addr \<Rightarrow> addr \<Rightarrow> (hblk \<Rightarrow> bool) \<Rightarrow> 'a gc_marker_scheme \<Rightarrow> 'a gc_marker_scheme option" where
  "GC_push_selected bottom0 top0 dirty st =
     (let bottom = round_up4 bottom0; top_addr = round_down4 top0 in
      if top_addr = 0 \<or> bottom = top_addr then Some st
      else
        (let h = HBLKPTR (wadd bottom HBLKSIZE); h1 = HBLKPTR bottom in
         if top_addr \<le> hblk_addr h then push_if (dirty h1) bottom top_addr st
         else
           Option.bind (push_if (dirty h1) bottom (hblk_addr h) st) (\<lambda>st1.
           Option.bind (push_selected_loop dirty h top_addr st1) (\<lambda>(r, st2).
             case r of
               None \<Rightarrow> Some st2
             | Some h' \<Rightarrow>
                 Option.bind (push_if (hblk_addr h' \<noteq> top_addr \<and> dirty h') (hblk_addr h') top_addr st2) (\<lambda>st3.
                   if length (GC_mark_stack st3) > GC_mark_stack_size st3 then None else Some st3)))))"

definition GC_push_conditional ::
    "(hblk \<Rightarrow> bool) \<Rightarrow> bool \<Rightarrow> addr \<times> addr \<Rightarrow> 'a gc_marker_scheme \<Rightarrow> 'a gc_marker_scheme option" where
  "GC_push_conditional dirty all r st =
     (if all then GC_push_all (fst r) (snd r) st else GC_push_selected (fst r) (snd r) dirty st)"

definition GC_push_conditional_with_exclusions ::
    "exclusion list \<Rightarrow> (hblk \<Rightarrow> bool) \<Rightarrow> bool \<Rightarrow> addr \<Rightarrow> addr \<Rightarrow> 'a gc_marker_scheme \<Rightarrow> 'a gc_marker_scheme option" where
  "GC_push_conditional_with_exclusions tbl dirty all bottom top_addr st =
     (case pushed_ranges tbl bottom top_addr of
        None \<Rightarrow> None
      | Some rs \<Rightarrow> each (GC_push_conditional dirty all) rs st)"

section \<open>Marking from single words\<close>

definition GC_mark_and_push ::
    "addr \<Rightarrow> nat \<Rightarrow> mse list \<Rightarrow> 'a gc_marker_scheme \<Rightarrow> (mse list \<times> 'a gc_marker_scheme) option" where
  "GC_mark_and_push p limit stack st =
     (let black = map_option (\<lambda>st'. (stack, st')) (GC_ADD_TO_BLACK_LIST_NORMAL p st);
          push = (\<lambda>h. case HDR st h of
              Fwd k \<Rightarrow> (if k = 0 then black else None)
            | Hdr hh \<Rightarrow> (if HBLK_IS_FREE hh then black else PUSH_CONTENTS_HDR p limit h True stack st)) in
      case HDR st (HBLKPTR p) of
        Hdr _ \<Rightarrow> push (HBLKPTR p)
      | Fwd _ \<Rightarrow>
          (if GC_all_interior_pointers st
           then (case GC_base st p of None \<Rightarrow> None | Some b \<Rightarrow> push (HBLKPTR b))
           else black))"

definition GC_PUSH_ONE_HEAP :: "addr \<Rightarrow> 'a gc_marker_scheme \<Rightarrow> 'a gc_marker_scheme option" where
  "GC_PUSH_ONE_HEAP p st =
     (if plausible st p
      then (case GC_mark_and_push p (GC_mark_stack_size st) (GC_mark_stack st) st of
              None \<Rightarrow> None
            | Some (stack, st') \<Rightarrow> Some (st'\<lparr> GC_mark_stack := stack \<rparr>))
      else Some st)"

definition GC_ADD_TO_BLACK_LIST_STACK :: "addr \<Rightarrow> 'a gc_marker_scheme \<Rightarrow> 'a gc_marker_scheme" where
  "GC_ADD_TO_BLACK_LIST_STACK p st =
     st\<lparr> GC_black_lists := GC_add_to_black_list_stack (\<lambda>q. HDR st (q div HBLKSIZE) = Fwd 0) p (GC_black_lists st) \<rparr>"

definition GC_mark_and_push_stack :: "addr \<Rightarrow> 'a gc_marker_scheme \<Rightarrow> 'a gc_marker_scheme option" where
  "GC_mark_and_push_stack p st =
     (let push = (\<lambda>r. case HDR st (HBLKPTR r) of
              Fwd k \<Rightarrow> (if k = 0 then Some (GC_ADD_TO_BLACK_LIST_STACK p st) else None)
            | Hdr hh \<Rightarrow>
                (if HBLK_IS_FREE hh then GC_ADD_TO_BLACK_LIST_NORMAL p st
                 else case PUSH_CONTENTS_HDR r (GC_mark_stack_size st) (HBLKPTR r) False (GC_mark_stack st) st of
                   None \<Rightarrow> None
                 | Some (stack, st') \<Rightarrow> Some (st'\<lparr> GC_mark_stack := stack \<rparr>))) in
      case HDR st (HBLKPTR p) of
        Hdr _ \<Rightarrow> push p
      | Fwd k \<Rightarrow> (if k = 0 then push p else case GC_base st p of None \<Rightarrow> None | Some r \<Rightarrow> push r))"

definition GC_PUSH_ONE_STACK :: "addr \<Rightarrow> 'a gc_marker_scheme \<Rightarrow> 'a gc_marker_scheme option" where
  "GC_PUSH_ONE_STACK p st = (if plausible st p then GC_mark_and_push_stack p st else Some st)"

text \<open>
  Eager scanning, word by word. The limit \<open>t - 1\<close> wraps if the rounded end is 0 although the end
  is not, and then the loop has no end.
\<close>

definition GC_push_all_eager :: "addr \<Rightarrow> addr \<Rightarrow> 'a gc_marker_scheme \<Rightarrow> 'a gc_marker_scheme option" where
  "GC_push_all_eager bottom top_addr st =
     (let b = round_up4 bottom; t = round_down4 top_addr in
      if top_addr = 0 then Some st
      else if t = 0 then None
      else each (\<lambda>w st. GC_PUSH_ONE_STACK (mem_word st w) st) [b div 4 ..< t div 4] st)"

definition GC_push_all_stack :: "addr \<Rightarrow> addr \<Rightarrow> 'a gc_marker_scheme \<Rightarrow> 'a gc_marker_scheme option" where
  "GC_push_all_stack bottom top_addr st =
     (if GC_all_interior_pointers st then GC_push_all bottom top_addr st else GC_push_all_eager bottom top_addr st)"

section \<open>Roots\<close>

text \<open>
  What the root scan reads besides the heap: the tables of static roots (after the dynamic
  libraries were registered), the free list headers of the object kinds, the variables that
  \<open>GC_push_gc_structures\<close> pushes, the stack between \<open>GC_approx_sp()\<close> and \<open>GC_stackbottom\<close>, the
  traced stack sections, innermost first, as the address of a section and its saved stack
  pointer, \<open>cold_gc_frame\<close>, and the dirty pages, with whether they are known. \<open>GC_push_other_roots\<close> is 0, its
  default without threads.
\<close>

record root_env =
  re_roots :: root_tables
  re_freelists :: "addr list"
  re_structures :: "(addr \<times> addr) list"
  GC_no_dls :: bool
  re_approx_sp :: addr
  GC_stackbottom :: addr
  GC_traced_stack_sect :: "(addr \<times> addr) list"
  cold_gc_frame :: addr
  GC_dirty_maintained :: bool
  GC_page_was_dirty :: "hblk \<Rightarrow> bool"

definition GC_push_all_stack_partially_eager ::
    "addr \<Rightarrow> addr \<Rightarrow> addr \<Rightarrow> 'a gc_marker_scheme \<Rightarrow> 'a gc_marker_scheme option" where
  "GC_push_all_stack_partially_eager bottom top_addr cold st =
     (if GC_all_interior_pointers st
      then (if cold = 0 then GC_push_all_stack bottom top_addr st
            else Option.bind (GC_push_all (wsub cold 4) top_addr st) (GC_push_all_eager bottom cold))
      else GC_push_all_eager bottom top_addr st)"

fun GC_push_all_stack_part_eager_sections ::
    "addr \<Rightarrow> addr \<Rightarrow> addr \<Rightarrow> (addr \<times> addr) list \<Rightarrow> 'a gc_marker_scheme \<Rightarrow> 'a gc_marker_scheme option" where
  "GC_push_all_stack_part_eager_sections lo hi cold [] st = GC_push_all_stack_partially_eager lo hi cold st"
| "GC_push_all_stack_part_eager_sections lo hi cold ((sect, saved_stack_ptr) # sects) st =
     Option.bind (GC_push_all_stack_partially_eager lo sect cold st)
       (GC_push_all_stack_part_eager_sections saved_stack_ptr hi 0 sects)"

definition GC_push_current_stack :: "root_env \<Rightarrow> 'a gc_marker_scheme \<Rightarrow> 'a gc_marker_scheme option" where
  "GC_push_current_stack env =
     GC_push_all_stack_part_eager_sections (re_approx_sp env) (GC_stackbottom env) (cold_gc_frame env) (GC_traced_stack_sect env)"

definition mark_free_list_header :: "addr \<Rightarrow> 'a gc_marker_scheme \<Rightarrow> 'a gc_marker_scheme option" where
  "mark_free_list_header fl st =
     (case GC_base st fl of
        None \<Rightarrow> None
      | Some b \<Rightarrow> Some (if b = 0 then st else GC_set_mark_bit b st))"

definition GC_push_gc_structures :: "root_env \<Rightarrow> 'a gc_marker_scheme \<Rightarrow> 'a gc_marker_scheme option" where
  "GC_push_gc_structures env = each (\<lambda>(b, t). GC_push_all b t) (re_structures env)"

definition push_static_roots :: "bool \<Rightarrow> root_env \<Rightarrow> 'a gc_marker_scheme \<Rightarrow> 'a gc_marker_scheme option" where
  "push_static_roots all env =
     (let rt = re_roots env in
      each (\<lambda>i. GC_push_conditional_with_exclusions (GC_excl_table rt) (GC_page_was_dirty env) all
                  (r_start (GC_static_roots rt i)) (r_end (GC_static_roots rt i)))
        [0 ..< n_root_sets rt])"

definition GC_push_roots :: "bool \<Rightarrow> root_env \<Rightarrow> 'a gc_marker_scheme \<Rightarrow> 'a gc_marker_scheme option" where
  "GC_push_roots all env st =
     Option.bind (push_static_roots all env st) (\<lambda>st1.
     Option.bind (each mark_free_list_header (re_freelists env) st1) (\<lambda>st2.
     Option.bind (if GC_no_dls env \<or> roots_were_cleared (re_roots env) then GC_push_gc_structures env st2 else Some st2)
       (GC_push_current_stack env)))"

section \<open>Pushing marked objects\<close>

text \<open>\<open>PUSH_GRANULE\<close> for granules of two words.\<close>

definition PUSH_GRANULE :: "nat \<Rightarrow> 'a gc_marker_scheme \<Rightarrow> 'a gc_marker_scheme option" where
  "PUSH_GRANULE q = each (\<lambda>w st. GC_PUSH_ONE_HEAP (mem_word st w) st) [q, q + 1]"

text \<open>
  The inner loop of \<open>GC_push_marked1\<close>, \<open>GC_push_marked2\<close> and \<open>GC_push_marked4\<close> over one word of mark bits,
  for objects of \<open>g\<close> granules; \<open>q\<close> is the word of memory that the lowest bit stands for.
\<close>

function push_marked_bits :: "nat \<Rightarrow> nat \<Rightarrow> nat \<Rightarrow> 'a gc_marker_scheme \<Rightarrow> 'a gc_marker_scheme option" where
  "push_marked_bits g mark_word q st =
     (if mark_word \<noteq> 0 \<and> g \<noteq> 0
      then Option.bind (if mark_word mod 2 = 1 then each PUSH_GRANULE (map (\<lambda>i. q + 2 * i) [0 ..< g]) st else Some st)
             (push_marked_bits g (mark_word div 2 ^ g) (q + 2 * g))
      else Some st)"
  by pat_completeness auto
termination
  by (relation "measure (\<lambda>(g, m, q, st). m)") (auto intro!: div_less_dividend one_less_power)

declare push_marked_bits.simps [simp del]

definition push_marked_granules :: "nat \<Rightarrow> hblk \<Rightarrow> 'a gc_marker_scheme \<Rightarrow> 'a gc_marker_scheme option" where
  "push_marked_granules g h =
     each (\<lambda>i st. push_marked_bits g (unat (hb_marks (hdr_at st h) i)) (hblk_addr h div 4 + i * 64) st)
       [0 ..< HBLKSIZE div (4 * 64)]"

definition GC_push_marked1 :: "hblk \<Rightarrow> 'a gc_marker_scheme \<Rightarrow> 'a gc_marker_scheme option" where
  "GC_push_marked1 = push_marked_granules 1"

definition GC_push_marked2 :: "hblk \<Rightarrow> 'a gc_marker_scheme \<Rightarrow> 'a gc_marker_scheme option" where
  "GC_push_marked2 = push_marked_granules 2"

definition GC_push_marked4 :: "hblk \<Rightarrow> 'a gc_marker_scheme \<Rightarrow> 'a gc_marker_scheme option" where
  "GC_push_marked4 = push_marked_granules 4"

definition GC_block_empty :: "hdr \<Rightarrow> bool" where
  "GC_block_empty hh \<longleftrightarrow> hb_n_marks hh = 0"

text \<open>The loop over the objects of a block of any other size.\<close>

function push_marked_objs :: "hdr \<Rightarrow> addr \<Rightarrow> addr \<Rightarrow> nat \<Rightarrow> 'a gc_marker_scheme \<Rightarrow> 'a gc_marker_scheme" where
  "push_marked_objs hh lim p bit_no st =
     (if p \<le> lim \<and> hb_sz hh \<noteq> 0
      then push_marked_objs hh lim (p + hb_sz hh) (bit_no + MARK_BIT_OFFSET (hb_sz hh))
             (if mark_bit_from_hdr hh bit_no
              then (case PUSH_OBJ p hh (GC_mark_stack_size st) (GC_mark_stack st) st of
                      (stack, st') \<Rightarrow> st'\<lparr> GC_mark_stack := stack \<rparr>)
              else st)
      else st)"
  by pat_completeness auto
termination
  by (relation "measure (\<lambda>(hh, lim, p, b, st). Suc lim - p)") auto

declare push_marked_objs.simps [simp del]

definition GC_push_marked :: "hblk \<Rightarrow> 'a gc_marker_scheme \<Rightarrow> 'a gc_marker_scheme option" where
  "GC_push_marked h st =
     (let hhdr = hdr_at st h; sz = hb_sz hhdr in
      if hb_descr hhdr = 0 \<or> GC_block_empty hhdr then Some st
      else
        (let st1 = st\<lparr> GC_n_rescuing_pages := wadd (GC_n_rescuing_pages st) 1, GC_objects_are_marked := True \<rparr>;
             lim = (if sz > MAXOBJBYTES then hblk_addr h else hblk_addr (h + 1) - sz) in
         if BYTES_TO_GRANULES sz = 1 then GC_push_marked1 h st1
         else if BYTES_TO_GRANULES sz = 2 then GC_push_marked2 h st1
         else if BYTES_TO_GRANULES sz = 4 then GC_push_marked4 h st1
         else Some (push_marked_objs hhdr lim (hblk_addr h) 0 st1)))"

text \<open>
  The next block in use at or above \<open>h\<close>, 0 for none. A block number wraps like the address
  it stands for.
\<close>

definition used_from :: "'a hdr_index_scheme \<Rightarrow> hblk \<Rightarrow> hblk option" where
  "used_from st h =
     (case HDR st h of
        Hdr hh \<Rightarrow> (if HBLK_IS_FREE hh then GC_next_used_block st h else Some h)
      | Fwd _ \<Rightarrow> GC_next_used_block st h)"

definition next_hblk :: "'a hdr_index_scheme \<Rightarrow> hblk \<Rightarrow> hblk" where
  "next_hblk st h = (h + obj_sz_to_blocks (hb_sz (hdr_at st h))) mod 2 ^ 20"

definition push_and_next :: "hblk \<Rightarrow> 'a gc_marker_scheme \<Rightarrow> (hblk \<times> 'a gc_marker_scheme) option" where
  "push_and_next h st = map_option (\<lambda>st'. (next_hblk st' h, st')) (GC_push_marked h st)"

definition GC_push_next_marked :: "hblk \<Rightarrow> 'a gc_marker_scheme \<Rightarrow> (hblk \<times> 'a gc_marker_scheme) option" where
  "GC_push_next_marked h st =
     (case used_from st h of
        None \<Rightarrow> None
      | Some h' \<Rightarrow> (if h' = 0 then Some (0, st) else push_and_next h' st))"

text \<open>The first block in use from \<open>h\<close> on that has the property \<open>P\<close>.\<close>

partial_function (option) find_block :: "(hblk \<Rightarrow> hdr \<Rightarrow> bool) \<Rightarrow> 'a hdr_index_scheme \<Rightarrow> hblk \<Rightarrow> hblk option" where
  "find_block P st h =
     (case used_from st h of
        None \<Rightarrow> None
      | Some h' \<Rightarrow>
          (if h' = 0 then Some 0
           else if P h' (hdr_at st h') then Some h'
           else find_block P st (next_hblk st h')))"

definition GC_block_was_dirty :: "(hblk \<Rightarrow> bool) \<Rightarrow> hblk \<Rightarrow> hdr \<Rightarrow> bool" where
  "GC_block_was_dirty dirty h hhdr =
     (let sz = hb_sz hhdr in
      if sz \<le> MAXOBJBYTES then dirty h
      else list_ex dirty [h ..< h + obj_sz_to_blocks sz])"

definition GC_push_next_marked_dirty ::
    "bool \<Rightarrow> (hblk \<Rightarrow> bool) \<Rightarrow> hblk \<Rightarrow> 'a gc_marker_scheme \<Rightarrow> (hblk \<times> 'a gc_marker_scheme) option" where
  "GC_push_next_marked_dirty dirty_maintained dirty h st =
     (if \<not> dirty_maintained then None
      else case find_block (GC_block_was_dirty dirty) st h of
        None \<Rightarrow> None
      | Some h' \<Rightarrow> (if h' = 0 then Some (0, st) else push_and_next h' st))"

definition GC_push_next_marked_uncollectable :: "hblk \<Rightarrow> 'a gc_marker_scheme \<Rightarrow> (hblk \<times> 'a gc_marker_scheme) option" where
  "GC_push_next_marked_uncollectable h st =
     (case find_block (\<lambda>_ hhdr. hb_obj_kind hhdr = UNCOLLECTABLE) st h of
        None \<Rightarrow> None
      | Some h' \<Rightarrow> (if h' = 0 then Some (0, st) else push_and_next h' st))"

section \<open>The state machine\<close>

text \<open>
  \<open>alloc_mark_stack\<close> when there is a mark stack already. If the memory for the new stack is there, the pages of
  the old one are given to the heap, which is \<open>recycle\<close>.
\<close>

definition alloc_mark_stack ::
    "('a gc_marker_scheme \<Rightarrow> 'a gc_marker_scheme) \<Rightarrow> nat \<Rightarrow> 'a gc_marker_scheme \<Rightarrow> 'a gc_marker_scheme" where
  "alloc_mark_stack recycle n st =
     (case scratch_request st of
        (ok, st1) \<Rightarrow>
          (let st2 = st1\<lparr> GC_mark_stack_too_small := False \<rparr>;
               st3 = (if ok then (recycle st2)\<lparr> GC_mark_stack_size := n \<rparr> else st2) in
           st3\<lparr> GC_mark_stack := [] \<rparr>))"

definition GC_initiate_gc :: "'a gc_marker_scheme \<Rightarrow> 'a gc_marker_scheme option" where
  "GC_initiate_gc st0 =
     (let st = st0\<lparr> GC_n_rescuing_pages := 0 \<rparr> in
      if GC_mark_state st = MS_NONE then Some (st\<lparr> GC_mark_state := MS_PUSH_RESCUERS, scan_ptr := 0 \<rparr>)
      else if GC_mark_state st \<noteq> MS_INVALID then None
      else Some (st\<lparr> scan_ptr := 0 \<rparr>))"

definition GC_invalidate_mark_state :: "'a gc_marker_scheme \<Rightarrow> 'a gc_marker_scheme" where
  "GC_invalidate_mark_state st = st\<lparr> GC_mark_state := MS_INVALID, GC_mark_stack := [] \<rparr>"

definition GC_collection_in_progress :: "'a gc_marker_scheme \<Rightarrow> bool" where
  "GC_collection_in_progress st \<longleftrightarrow> GC_mark_state st \<noteq> MS_NONE"

text \<open>The end of the three branches that push the roots once the scan of the heap is over.\<close>

definition finish_scan :: "bool \<Rightarrow> root_env \<Rightarrow> 'a gc_marker_scheme \<Rightarrow> 'a gc_marker_scheme option" where
  "finish_scan all env st =
     Option.bind (GC_push_roots all env st) (\<lambda>st1.
       let st2 = st1\<lparr> GC_objects_are_marked := True \<rparr> in
       Some (if GC_mark_state st2 \<noteq> MS_INVALID then st2\<lparr> GC_mark_state := MS_ROOTS_PUSHED \<rparr> else st2))"

definition grow_if_small ::
    "('a gc_marker_scheme \<Rightarrow> 'a gc_marker_scheme) \<Rightarrow> 'a gc_marker_scheme \<Rightarrow> 'a gc_marker_scheme" where
  "grow_if_small recycle st =
     (if GC_mark_stack_too_small st then alloc_mark_stack recycle (2 * GC_mark_stack_size st) st else st)"

definition GC_mark_some ::
    "'a mark_procs \<Rightarrow> ('a gc_marker_scheme \<Rightarrow> 'a gc_marker_scheme) \<Rightarrow> root_env \<Rightarrow> 'a gc_marker_scheme
      \<Rightarrow> (bool \<times> 'a gc_marker_scheme) option" where
  "GC_mark_some procs recycle env st =
     (let go_on = map_option (\<lambda>st'. (False, st')) in
      case GC_mark_state st of
        MS_NONE \<Rightarrow> Some (False, st)
      | MS_PUSH_RESCUERS \<Rightarrow>
          (if int (length (GC_mark_stack st)) - 1 \<ge> int (GC_mark_stack_size st) - int (INITIAL_MARK_STACK_SIZE div 2)
           then go_on (MARK_FROM_MARK_STACK procs (st\<lparr> GC_mark_stack_too_small := True \<rparr>))
           else go_on (Option.bind (GC_push_next_marked_dirty (GC_dirty_maintained env) (GC_page_was_dirty env) (scan_ptr st) st) (\<lambda>(h, st1).
             let st2 = st1\<lparr> scan_ptr := h \<rparr> in if h = 0 then finish_scan False env st2 else Some st2)))
      | MS_PUSH_UNCOLLECTABLE \<Rightarrow>
          (if int (length (GC_mark_stack st)) - 1 \<ge> int (GC_mark_stack_size st div 4)
           then go_on (MARK_FROM_MARK_STACK procs st)
           else go_on (Option.bind (GC_push_next_marked_uncollectable (scan_ptr st) st) (\<lambda>(h, st1).
             let st2 = st1\<lparr> scan_ptr := h \<rparr> in if h = 0 then finish_scan True env st2 else Some st2)))
      | MS_ROOTS_PUSHED \<Rightarrow>
          (if GC_mark_stack st \<noteq> [] then go_on (MARK_FROM_MARK_STACK procs st)
           else Some (True, grow_if_small recycle (st\<lparr> GC_mark_state := MS_NONE \<rparr>)))
      | _ \<Rightarrow>
          (if \<not> GC_objects_are_marked st then Some (False, st\<lparr> GC_mark_state := MS_PUSH_UNCOLLECTABLE \<rparr>)
           else if GC_mark_stack st \<noteq> [] then go_on (MARK_FROM_MARK_STACK procs st)
           else
             (let st1 = (if scan_ptr st = 0 \<and> GC_mark_state st = MS_INVALID
                         then (grow_if_small recycle st)\<lparr> GC_mark_state := MS_PARTIALLY_INVALID \<rparr> else st) in
              go_on (Option.bind (GC_push_next_marked (scan_ptr st1) st1) (\<lambda>(h, st2).
                let st3 = st2\<lparr> scan_ptr := h \<rparr> in
                if h = 0 \<and> GC_mark_state st3 = MS_PARTIALLY_INVALID then finish_scan True env st3 else Some st3)))))"

text \<open>
  The loop of \<open>GC_stopped_mark\<close>, which calls \<open>GC_mark_some\<close> until marking is done or the stop function asks
  to abandon it; \<open>stop i\<close> is the answer of its \<open>i\<close>th call. The result is whether marking is done, the number of
  calls of \<open>GC_mark_some\<close> that were not the last (\<open>GC_deficit\<close> if marking was abandoned), and the state.
\<close>

partial_function (option) stopped_mark_loop ::
    "'a mark_procs \<Rightarrow> ('a gc_marker_scheme \<Rightarrow> 'a gc_marker_scheme) \<Rightarrow> root_env \<Rightarrow> (nat \<Rightarrow> bool) \<Rightarrow> nat \<Rightarrow> 'a gc_marker_scheme
      \<Rightarrow> (bool \<times> nat \<times> 'a gc_marker_scheme) option" where
  "stopped_mark_loop procs recycle env stop i st =
     (if stop i then Some (False, i, st)
      else case GC_mark_some procs recycle env st of
        None \<Rightarrow> None
      | Some r \<Rightarrow> (if fst r then Some (True, i, snd r) else stopped_mark_loop procs recycle env stop (i + 1) (snd r)))"

definition GC_stopped_mark ::
    "'a mark_procs \<Rightarrow> ('a gc_marker_scheme \<Rightarrow> 'a gc_marker_scheme) \<Rightarrow> root_env \<Rightarrow> (nat \<Rightarrow> bool) \<Rightarrow> 'a gc_marker_scheme
      \<Rightarrow> (bool \<times> nat \<times> 'a gc_marker_scheme) option" where
  "GC_stopped_mark procs recycle env stop st =
     Option.bind (GC_initiate_gc st) (\<lambda>st1.
     Option.bind (stopped_mark_loop procs recycle env stop 0 st1) (\<lambda>(finished, i, st2).
       Some (finished, i, if finished then st2\<lparr> GC_gc_no := wadd (GC_gc_no st2) 1 \<rparr> else st2)))"

definition GC_clear_marks :: "'a gc_marker_scheme \<Rightarrow> 'a gc_marker_scheme option" where
  "GC_clear_marks st =
     map_option (\<lambda>st1. st1\<lparr> GC_objects_are_marked := False, GC_mark_state := MS_INVALID, scan_ptr := 0 \<rparr>)
       (GC_apply_to_all_blocks (\<lambda>h st. Some (clear_marks_for_block h st)) st)"

text \<open>The marking of a full collection in \<open>GC_try_to_collect_inner\<close>.\<close>

definition collect_mark ::
    "'a mark_procs \<Rightarrow> ('a gc_marker_scheme \<Rightarrow> 'a gc_marker_scheme) \<Rightarrow> root_env \<Rightarrow> (nat \<Rightarrow> bool) \<Rightarrow> 'a gc_marker_scheme
      \<Rightarrow> (bool \<times> nat \<times> 'a gc_marker_scheme) option" where
  "collect_mark procs recycle env stop st =
     Option.bind (GC_clear_marks (GC_invalidate_mark_state st)) (GC_stopped_mark procs recycle env stop)"

end
