(* ===== verification/Mark_Steps.thy ===== *)
theory Mark_Steps
  imports Marking Mark_Phase
begin

text \<open>
  What the steps of the mark phase do to the abstract view of the marker: the objects that are
  marked, the mark stack and the mark state.
\<close>

section \<open>Control variables\<close>

definition view_in :: "'a gc_marker_scheme \<Rightarrow> view" where
  "view_in st = (marked st, GC_mark_stack st, GC_mark_state st)"

text \<open>States that differ only in control variables.\<close>

definition ctl_eq :: "'a gc_marker_scheme \<Rightarrow> 'a gc_marker_scheme \<Rightarrow> bool" where
  "ctl_eq st st' \<longleftrightarrow> HDR st' = HDR st \<and> index_wf st' = index_wf st \<and> GC_obj_map st' = GC_obj_map st
     \<and> GC_valid_offsets st' = GC_valid_offsets st \<and> GC_modws_valid_offsets st' = GC_modws_valid_offsets st
     \<and> GC_mem st' = GC_mem st \<and> GC_all_interior_pointers st' = GC_all_interior_pointers st
     \<and> GC_least_plausible_heap_addr st' = GC_least_plausible_heap_addr st
     \<and> GC_greatest_plausible_heap_addr st' = GC_greatest_plausible_heap_addr st
     \<and> GC_black_lists st' = GC_black_lists st \<and> heap_rest st' = heap_rest st"

lemma HDR_ctl_upd [simp]:
  fixes st :: "'a gc_marker_scheme"
  shows "HDR (st\<lparr> scan_ptr := h \<rparr>) = HDR st" "HDR (st\<lparr> GC_n_rescuing_pages := n \<rparr>) = HDR st"
    "HDR (st\<lparr> GC_mark_stack_size := n \<rparr>) = HDR st" "HDR (st\<lparr> scratch_ok := f \<rparr>) = HDR st"
  by (rule HDR_cong; simp)+

lemma ctl_eq_upd [simp]:
  "ctl_eq st (st\<lparr> scan_ptr := h \<rparr>)" "ctl_eq st (st\<lparr> GC_n_rescuing_pages := n \<rparr>)" "ctl_eq st (st\<lparr> scratch_ok := f \<rparr>)"
  "ctl_eq st (st\<lparr> GC_mark_stack := stk \<rparr>)" "ctl_eq st (st\<lparr> GC_mark_state := ms \<rparr>)" "ctl_eq st (st\<lparr> GC_mark_stack_too_small := b \<rparr>)"
  "ctl_eq st (st\<lparr> GC_objects_are_marked := b \<rparr>)" "ctl_eq st (st\<lparr> GC_mark_stack_size := n \<rparr>)" "ctl_eq st st"
  by (simp_all add: ctl_eq_def index_wf_def)

lemma ctl_eq_trans: "ctl_eq a b \<Longrightarrow> ctl_eq b c \<Longrightarrow> ctl_eq a c"
  by (simp add: ctl_eq_def)

lemma ctl_eqD:
  assumes "ctl_eq st st'"
  shows "same_objs st st'" "marker_ok st' = marker_ok st" "marked st' = marked st" "HDR st' = HDR st"
  using assms by (simp_all add: ctl_eq_def same_objs_def marked_def marker_ok_def layout_ok_def maps_ok_def bl_ok_def object_hdr_def counts_ok_def)

section \<open>Single pointers\<close>

text \<open>
  A state \<open>st'\<close> that results from \<open>st\<close> by pushing the objects \<open>obs\<close>, each if it is not marked yet.
\<close>

definition pushed :: "'a gc_marker_scheme \<Rightarrow> obj list \<Rightarrow> 'a gc_marker_scheme \<Rightarrow> bool" where
  "pushed st obs st' \<longleftrightarrow> same_shape st st' \<and> marker_ok st' \<and> view_in st' = fold (push1 st (GC_mark_stack_size st)) obs (view_in st)"

lemma pushed_Nil: "marker_ok st \<Longrightarrow> pushed st [] st"
  by (simp add: pushed_def)

lemma pushed_append:
  assumes "pushed st xs st1" "pushed st1 ys st2"
  shows "pushed st (xs @ ys) st2"
proof -
  have s: "same_shape st st1" using assms(1) by (simp add: pushed_def)
  have "GC_mark_stack_size st1 = GC_mark_stack_size st" using s by (simp add: same_shape_def)
  then show ?thesis
    using assms same_shape_trans [OF s] by (simp add: pushed_def push1_shape [OF s])
qed

lemma pushed_black:
  assumes "marker_ok st"
  obtains st' where "GC_ADD_TO_BLACK_LIST_NORMAL p st = Some st'" "pushed st [] st'"
proof -
  obtain bl where "GC_ADD_TO_BLACK_LIST_NORMAL p st = Some (st\<lparr> GC_black_lists := bl \<rparr>)" "marker_ok (st\<lparr> GC_black_lists := bl \<rparr>)"
    by (rule blacklist_ok [OF assms])
  then show thesis using that [of "st\<lparr> GC_black_lists := bl \<rparr>"] by (simp add: pushed_def view_in_def marked_def)
qed

lemma pushed_contents:
  assumes ok: "marker_ok st" and h: "HDR st h = Hdr hh" "\<not> HBLK_IS_FREE hh" "h \<le> v div HBLKSIZE" "v div HBLKSIZE < h + blocks_of hh"
  obtains stack st' x where "PUSH_CONTENTS_HDR v (GC_mark_stack_size st) h c (GC_mark_stack st) st = Some (stack, st')"
    "object_start c st hh v = Some x" "pushed st (case x of None \<Rightarrow> [] | Some (n, base) \<Rightarrow> [(h, n)]) (st'\<lparr> GC_mark_stack := stack \<rparr>)"
proof -
  obtain stack st' x where P: "PUSH_CONTENTS_HDR v (GC_mark_stack_size st) h c (GC_mark_stack st) st = Some (stack, st')" "same_shape st st'"
      "marker_ok st'" "object_start c st hh v = Some x"
      "(marked st', stack, GC_mark_state st') =
        (case x of None \<Rightarrow> (marked st, GC_mark_stack st, GC_mark_state st)
         | Some (n, base) \<Rightarrow> push1 st (GC_mark_stack_size st) (h, n) (marked st, GC_mark_stack st, GC_mark_state st))"
    by (rule PUSH_CONTENTS_HDR_ok [OF ok h]) (rule that; assumption)
  have s: "same_shape st' (st'\<lparr> GC_mark_stack := stack \<rparr>)" by simp
  have "pushed st (case x of None \<Rightarrow> [] | Some (n, base) \<Rightarrow> [(h, n)]) (st'\<lparr> GC_mark_stack := stack \<rparr>)"
    using same_shape_trans [OF P(2) s] P(3,5) by (auto simp: pushed_def view_in_def split: option.splits)
  with P(1,4) that show thesis by blast
qed

text \<open>
  \<open>GC_mark_and_push\<close> does not honour \<open>IGNORE_OFF_PAGE\<close>, unlike the lookup through the header cache. They
  agree if interior pointers are off, or if no object is allocated with that flag.
\<close>

definition uniform_pointers :: "'a gc_marker_scheme \<Rightarrow> bool" where
  "uniform_pointers st \<longleftrightarrow> GC_all_interior_pointers st \<longrightarrow>
     (\<forall>b hh. HDR st b = Hdr hh \<and> \<not> HBLK_IS_FREE hh \<longrightarrow> hb_flags hh AND IGNORE_OFF_PAGE = 0)"

lemma hblk_addr_div [simp]: "hblk_addr h div HBLKSIZE = h" "hblk_addr h mod HBLKSIZE = 0" "hblk_addr h mod 4 = 0"
  by (simp_all add: hblk_addr_def HBLKSIZE_def mod_eq_0_iff_dvd)

lemma base_in_block_start:
  assumes "\<not> HBLK_IS_FREE hh" "1 < blocks_of hh"
  shows "base_in_block p (hblk_addr h) h hh = (if p \<ge> hblk_addr h + hb_sz hh then 0 else hblk_addr h)"
proof -
  have "\<not> hb_sz hh \<le> HBLKSIZE"
  proof
    assume "hb_sz hh \<le> HBLKSIZE"
    then have "blocks_of hh \<le> 1" by (simp add: blocks_of_def OBJ_SZ_TO_BLOCKS_def divHBLKSZ_def HBLKSIZE_def)
    then show False using assms(2) by simp
  qed
  then show ?thesis using assms(1) by (simp add: base_in_block_def Let_def round_down4_def)
qed

lemma GC_base_forward:
  assumes ok: "marker_ok st" and F: "HDR st (HBLKPTR p) = Fwd k" "0 < k"
  obtains h hh where "HDR st h = Hdr hh" "\<not> HBLK_IS_FREE hh" "h < HBLKPTR p" "HBLKPTR p < h + blocks_of hh" "h \<noteq> 0"
    "forward_to_start st (HBLKPTR p) k = Some (h, hh)" "GC_base st p = Some (if p \<ge> hblk_addr h + hb_sz hh then 0 else hblk_addr h)"
proof -
  note m = marker_okD [OF ok]
  obtain h hh where f: "forward_to_start st (HBLKPTR p) k = Some (h, hh)" "HDR st h = Hdr hh" "\<not> HBLK_IS_FREE hh"
      "h < HBLKPTR p" "HBLKPTR p < h + blocks_of hh"
    using layout_forward [OF m(2) F] by metis
  have "GC_base st p = Some (if p \<ge> hblk_addr h + hb_sz hh then 0 else hblk_addr h)"
    using F f base_in_block_start [OF f(3), of p h] by (simp add: GC_base_def)
  moreover have "h \<noteq> 0" using f(2) m(8) by (cases "h = 0") auto
  ultimately show thesis using that f by blast
qed

lemma target_simps:
  assumes "marker_ok st"
  shows "HDR st (HBLKPTR v) = Hdr hh \<Longrightarrow> HBLK_IS_FREE hh \<Longrightarrow> target st v = None"
    "HDR st (HBLKPTR v) = Hdr hh \<Longrightarrow> \<not> HBLK_IS_FREE hh \<Longrightarrow> object_start True st hh v = Some x \<Longrightarrow>
       target st v = map_option (\<lambda>(n, base). (HBLKPTR v, n)) x"
    "HDR st (HBLKPTR v) = Fwd k \<Longrightarrow> \<not> GC_all_interior_pointers st \<or> k = 0 \<Longrightarrow> target st v = None"
proof -
  have "HDR st h = Hdr hh \<Longrightarrow> h \<noteq> 0" for h hh using marker_okD(8) [OF assms] by (cases "h = 0") auto
  then show "HDR st (HBLKPTR v) = Hdr hh \<Longrightarrow> HBLK_IS_FREE hh \<Longrightarrow> target st v = None"
    "HDR st (HBLKPTR v) = Hdr hh \<Longrightarrow> \<not> HBLK_IS_FREE hh \<Longrightarrow> object_start True st hh v = Some x \<Longrightarrow>
       target st v = map_option (\<lambda>(n, base). (HBLKPTR v, n)) x"
    "HDR st (HBLKPTR v) = Fwd k \<Longrightarrow> \<not> GC_all_interior_pointers st \<or> k = 0 \<Longrightarrow> target st v = None"
    by (auto simp: target_def GC_header_cache_miss_def HBLKPTR_def split: option.splits)
qed

lemma target_forward:
  assumes ok: "marker_ok st" and u: "uniform_pointers st" and F: "HDR st (HBLKPTR v) = Fwd k" "GC_all_interior_pointers st"
    and f: "forward_to_start st (HBLKPTR v) k = Some (h, hh)" "HDR st h = Hdr hh" "\<not> HBLK_IS_FREE hh" "h \<noteq> 0" "0 < k"
  shows "v \<ge> hblk_addr h + hb_sz hh \<Longrightarrow> target st v = None"
    "v < hblk_addr h + hb_sz hh \<Longrightarrow> h < HBLKPTR v \<Longrightarrow> object_start True st hh v = Some x \<Longrightarrow>
       target st v = map_option (\<lambda>(n, base). (h, n)) x"
proof -
  have fl: "hb_flags hh AND IGNORE_OFF_PAGE = 0" using u F(2) f(2,3) by (auto simp: uniform_pointers_def)
  show "target st v = None" if "v \<ge> hblk_addr h + hb_sz hh"
    using that add_le_imp_le_diff [of "hb_sz hh" "hblk_addr h" v] F f fl by (simp add: add.commute target_def GC_header_cache_miss_def HBLKPTR_def)
  show "target st v = map_option (\<lambda>(n, base). (h, n)) x"
    if v: "v < hblk_addr h + hb_sz hh" "h < HBLKPTR v" "object_start True st hh v = Some x"
  proof -
    have "hblk_addr h \<le> v" using v(2) by (simp add: HBLKPTR_def hblk_addr_def HBLKSIZE_def)
    then have "\<not> v - hblk_addr h \<ge> hb_sz hh" using v(1) by simp
    then show ?thesis using v(3) F f fl
      by (simp add: target_def GC_header_cache_miss_def HBLKPTR_def split: option.splits)
  qed
qed

abbreviation obs_of :: "obj option \<Rightarrow> obj list" where
  "obs_of x \<equiv> (case x of None \<Rightarrow> [] | Some ob \<Rightarrow> [ob])"

lemma GC_mark_and_push_ok:
  assumes ok: "marker_ok st" and u: "uniform_pointers st"
  obtains stack st' where "GC_mark_and_push v (GC_mark_stack_size st) (GC_mark_stack st) st = Some (stack, st')"
    "pushed st (obs_of (target st v)) (st'\<lparr> GC_mark_stack := stack \<rparr>)"
proof -
  note m = marker_okD [OF ok]
  obtain stb where b: "GC_ADD_TO_BLACK_LIST_NORMAL v st = Some stb" "pushed st [] stb" by (rule pushed_black [OF ok])
  note result = that
  have stk: "stb\<lparr> GC_mark_stack := GC_mark_stack st \<rparr> = stb" using b(2) by (simp add: pushed_def view_in_def)
  have none: thesis if "GC_mark_and_push v (GC_mark_stack_size st) (GC_mark_stack st) st =
      map_option (\<lambda>st'. (GC_mark_stack st, st')) (GC_ADD_TO_BLACK_LIST_NORMAL v st)" "target st v = None"
    by (rule result [of "GC_mark_stack st" stb]) (use that b stk in simp_all)
  have some: thesis
    if r: "GC_mark_and_push v (GC_mark_stack_size st) (GC_mark_stack st) st = PUSH_CONTENTS_HDR v (GC_mark_stack_size st) h True (GC_mark_stack st) st"
      and h: "HDR st h = Hdr hh" "\<not> HBLK_IS_FREE hh" "h \<le> v div HBLKSIZE" "v div HBLKSIZE < h + blocks_of hh"
      and t: "\<And>x. object_start True st hh v = Some x \<Longrightarrow> target st v = map_option (\<lambda>(n, base). (h, n)) x" for h hh
  proof -
    obtain stack st' x where P: "PUSH_CONTENTS_HDR v (GC_mark_stack_size st) h True (GC_mark_stack st) st = Some (stack, st')"
        "object_start True st hh v = Some x" "pushed st (case x of None \<Rightarrow> [] | Some (n, base) \<Rightarrow> [(h, n)]) (st'\<lparr> GC_mark_stack := stack \<rparr>)"
      by (rule pushed_contents [OF ok h])
    have "obs_of (target st v) = (case x of None \<Rightarrow> [] | Some (n, base) \<Rightarrow> [(h, n)])"
      using t [OF P(2)] by (auto split: option.splits)
    with P r show thesis by (intro result) simp_all
  qed
  show thesis
  proof (cases "HDR st (HBLKPTR v)")
    case (Hdr hh)
    show ?thesis
    proof (cases "HBLK_IS_FREE hh")
      case True
      then show ?thesis using Hdr target_simps(1) [OF ok Hdr] by (intro none) (simp_all add: GC_mark_and_push_def)
    next
      case False
      then show ?thesis using Hdr target_simps(2) [OF ok Hdr False] layout_blocks_pos [OF m(2) Hdr]
        by (intro some [of "HBLKPTR v" hh]) (simp_all add: GC_mark_and_push_def HBLKPTR_def)
    qed
  next
    case (Fwd k)
    show ?thesis
    proof (cases "GC_all_interior_pointers st \<and> 0 < k")
      case False
      then have t: "target st v = None" using target_simps(3) [OF ok Fwd] by auto
      have "GC_mark_and_push v (GC_mark_stack_size st) (GC_mark_stack st) st = map_option (\<lambda>st'. (GC_mark_stack st, st')) (GC_ADD_TO_BLACK_LIST_NORMAL v st)"
        using False Fwd m(8) by (auto simp: GC_mark_and_push_def GC_base_def Let_def HBLKPTR_def)
      then show ?thesis using t by (rule none)
    next
      case True
      obtain h hh where f: "HDR st h = Hdr hh" "\<not> HBLK_IS_FREE hh" "h < HBLKPTR v" "HBLKPTR v < h + blocks_of hh" "h \<noteq> 0"
          "forward_to_start st (HBLKPTR v) k = Some (h, hh)" "GC_base st v = Some (if v \<ge> hblk_addr h + hb_sz hh then 0 else hblk_addr h)"
        using GC_base_forward [OF ok Fwd] True by metis
      note t = target_forward [OF ok u Fwd _ f(6,1,2,5)]
      have b: "HBLKPTR (hblk_addr h) = h" by (simp add: HBLKPTR_def)
      show ?thesis
      proof (cases "v \<ge> hblk_addr h + hb_sz hh")
        case past: True
        then have "GC_mark_and_push v (GC_mark_stack_size st) (GC_mark_stack st) st = map_option (\<lambda>st'. (GC_mark_stack st, st')) (GC_ADD_TO_BLACK_LIST_NORMAL v st)"
          using True Fwd f(7) m(8) by (simp add: GC_mark_and_push_def Let_def HBLKPTR_def)
        then show ?thesis using t(1) past True by (intro none) simp_all
      next
        case False
        then have "GC_mark_and_push v (GC_mark_stack_size st) (GC_mark_stack st) st = PUSH_CONTENTS_HDR v (GC_mark_stack_size st) h True (GC_mark_stack st) st"
          using True Fwd f(1,2,7) b by (simp add: GC_mark_and_push_def Let_def)
        then show ?thesis
          by (rule some [OF _ f(1,2)]) (use f(3,4) t(2) False True in \<open>simp_all add: HBLKPTR_def\<close>)
      qed
    qed
  qed
qed

lemma pushedD:
  assumes "pushed st obs st'"
  shows "same_shape st st'" "marker_ok st'" "marked st' = marked st \<union> set obs"
proof -
  show "same_shape st st'" "marker_ok st'" using assms by (simp_all add: pushed_def)
  have "fold (push1 st (GC_mark_stack_size st)) obs (marked st, GC_mark_stack st, GC_mark_state st) = (marked st', GC_mark_stack st', GC_mark_state st')"
    using assms by (simp add: pushed_def view_in_def)
  from pushes_spec(1) [OF this] show "marked st' = marked st \<union> set obs" .
qed

lemma uniform_pointers_objs:
  assumes "same_objs st st'" "uniform_pointers st"
  shows "uniform_pointers st'"
  unfolding uniform_pointers_def
proof (intro impI allI)
  fix b hh' assume a: "GC_all_interior_pointers st'" "HDR st' b = Hdr hh' \<and> \<not> HBLK_IS_FREE hh'"
  obtain hh where "HDR st b = Hdr hh" "hb_flags hh' = hb_flags hh" "HBLK_IS_FREE hh' = HBLK_IS_FREE hh"
    using same_objs_hdr' [OF assms(1)] a(2) by metis
  then show "hb_flags hh' AND IGNORE_OFF_PAGE = 0" using assms a by (auto simp: uniform_pointers_def same_objs_def)
qed

lemma GC_PUSH_ONE_HEAP_ok:
  assumes ok: "marker_ok st" and u: "uniform_pointers st"
  shows "\<exists>st'. GC_PUSH_ONE_HEAP (mem_word st w) st = Some st' \<and> pushed st (obs_of (pointee st w)) st'"
proof (cases "plausible st (mem_word st w)")
  case True
  obtain stack st' where "GC_mark_and_push (mem_word st w) (GC_mark_stack_size st) (GC_mark_stack st) st = Some (stack, st')"
      "pushed st (obs_of (target st (mem_word st w))) (st'\<lparr> GC_mark_stack := stack \<rparr>)"
    by (rule GC_mark_and_push_ok [OF ok u])
  with True show ?thesis by (simp add: GC_PUSH_ONE_HEAP_def pointee_def)
qed (simp add: GC_PUSH_ONE_HEAP_def pointee_def pushed_Nil [OF ok])

text \<open>Sequences of pushes.\<close>

lemma each_pushed:
  assumes "\<And>x st. x \<in> set xs \<Longrightarrow> same_shape st0 st \<Longrightarrow> marker_ok st \<Longrightarrow> \<exists>st'. f x st = Some st' \<and> pushed st (g x) st'" "marker_ok st0"
  shows "\<exists>st'. each f xs st0 = Some st' \<and> pushed st0 (concat (map g xs)) st'"
  using assms
proof (induction xs arbitrary: st0)
  case Nil
  then show ?case by (simp add: pushed_Nil)
next
  case (Cons x xs)
  obtain st1 where s1: "f x st0 = Some st1" "pushed st0 (g x) st1" using Cons.prems(1) [of x st0] Cons.prems(2) by auto
  note d = pushedD [OF s1(2)]
  obtain st2 where "each f xs st1 = Some st2" "pushed st1 (concat (map g xs)) st2"
    using Cons.IH [of st1] Cons.prems(1) same_shape_trans [OF d(1)] d(2) by auto
  then show ?case using s1 pushed_append [OF s1(2)] by auto
qed

text \<open>Scanning a list of words for pointers into the heap.\<close>

definition scanned :: "'a gc_marker_scheme \<Rightarrow> nat list \<Rightarrow> 'a gc_marker_scheme \<Rightarrow> bool" where
  "scanned st ws st' \<longleftrightarrow> pushed st (List.map_filter (pointee st) ws) st'"

lemma map_filter_concat: "List.map_filter f xs = concat (map (\<lambda>x. obs_of (f x)) xs)"
  by (induction xs) (simp_all add: map_filter_simps split: option.splits)

lemma scanned_append:
  assumes "marker_ok st" "scanned st vs st1" "scanned st1 ws st2"
  shows "scanned st (vs @ ws) st2"
proof -
  have "pointee st1 = pointee st"
    by (rule ext) (rule pointee_shape [OF pushedD(1) [OF assms(2) [unfolded scanned_def]] marker_okD(2) [OF assms(1)]])
  then show ?thesis using assms(2,3) pushed_append by (fastforce simp: scanned_def map_filter_concat)
qed

lemma words_scanned:
  assumes ok: "marker_ok st" and u: "uniform_pointers st"
  shows "\<exists>st'. each (\<lambda>w st. GC_PUSH_ONE_HEAP (mem_word st w) st) ws st = Some st' \<and> scanned st ws st'"
proof -
  have "\<exists>st'. GC_PUSH_ONE_HEAP (mem_word st1 w) st1 = Some st' \<and> pushed st1 (obs_of (pointee st w)) st'"
    if "same_shape st st1" "marker_ok st1" for w st1
    using GC_PUSH_ONE_HEAP_ok [OF that(2) uniform_pointers_objs [OF same_shape_objs [OF that(1)] u]]
      pointee_shape [OF that(1) marker_okD(2) [OF ok]] by simp
  then show ?thesis unfolding scanned_def map_filter_concat by (intro each_pushed ok)
qed

section \<open>Small objects\<close>

lemma each_concat: "each (\<lambda>x. each f (h x)) xs st = each f (concat (map h xs)) st"
proof (induction xs arbitrary: st)
  case (Cons x xs)
  then have "each (\<lambda>x. each f (h x)) xs = each f (concat (map h xs))" by (rule ext)
  then show ?case by (simp add: each_append)
qed simp

lemma granules_words:
  fixes st :: "'a gc_marker_scheme"
  shows "each PUSH_GRANULE (map (\<lambda>i. q + 2 * i) [0 ..< g]) st = each (\<lambda>w st. GC_PUSH_ONE_HEAP (mem_word st w) st) [q ..< q + 2 * g] st"
proof -
  have C: "concat (map (\<lambda>q. [q, q + 1]) (map (\<lambda>i. q + 2 * i) [0 ..< g])) = [q ..< q + 2 * g]"
  proof (induction g)
    case (Suc g)
    have "[q ..< q + 2 * Suc g] = [q ..< q + 2 * g] @ [q + 2 * g, q + 2 * g + 1]" by (simp add: upt_Suc_append)
    with Suc show ?case by simp
  qed simp
  have P: "(PUSH_GRANULE :: nat \<Rightarrow> 'a gc_marker_scheme \<Rightarrow> 'a gc_marker_scheme option) = (\<lambda>q. each (\<lambda>w st. GC_PUSH_ONE_HEAP (mem_word st w) st) [q, q + 1])" by (simp add: PUSH_GRANULE_def fun_eq_iff)
  show ?thesis unfolding P each_concat C ..
qed

text \<open>The words of the objects whose mark bits are set in a word of mark bits.\<close>

definition bit_words :: "nat \<Rightarrow> nat \<Rightarrow> nat \<Rightarrow> nat set" where
  "bit_words g m q = {q + 2 * j + k |j k. bit m j \<and> g dvd j \<and> k < 2 * g}"

lemma bit_words_step:
  assumes "0 < g"
  shows "bit_words g m q = (if odd m then {q ..< q + 2 * g} else {}) \<union> bit_words g (m div 2 ^ g) (q + 2 * g)"
proof -
  have b: "bit (m div 2 ^ g) j \<longleftrightarrow> bit m (g + j)" for j
    by (simp add: drop_bit_eq_div [symmetric] bit_drop_bit_eq)
  have "w \<in> bit_words g m q \<longleftrightarrow> w \<in> (if odd m then {q ..< q + 2 * g} else {}) \<union> bit_words g (m div 2 ^ g) (q + 2 * g)" for w
  proof
    assume "w \<in> bit_words g m q"
    then obtain j k where jk: "w = q + 2 * j + k" "bit m j" "g dvd j" "k < 2 * g" by (auto simp: bit_words_def)
    show "w \<in> (if odd m then {q ..< q + 2 * g} else {}) \<union> bit_words g (m div 2 ^ g) (q + 2 * g)"
    proof (cases "j = 0")
      case True
      then show ?thesis using jk by (simp add: bit_0)
    next
      case False
      then obtain i where i: "j = g + i" "g dvd i" using jk(3) by (metis dvd_add_right_iff dvd_imp_le dvd_refl gr0I le_add_diff_inverse)
      then have "w = q + 2 * g + 2 * i + k" "bit (m div 2 ^ g) i" using jk b by simp_all
      then show ?thesis using i(2) jk(4) by (auto simp: bit_words_def)
    qed
  next
    assume w: "w \<in> (if odd m then {q ..< q + 2 * g} else {}) \<union> bit_words g (m div 2 ^ g) (q + 2 * g)"
    show "w \<in> bit_words g m q"
    proof (cases "w \<in> bit_words g (m div 2 ^ g) (q + 2 * g)")
      case True
      then obtain j k where "w = q + 2 * (g + j) + k" "bit m (g + j)" "g dvd g + j" "k < 2 * g" using b by (auto simp: bit_words_def)
      then show ?thesis unfolding bit_words_def by blast
    next
      case False
      then have "odd m" "w = q + 2 * 0 + (w - q)" "w - q < 2 * g" using w by (auto split: if_splits)
      then show ?thesis unfolding bit_words_def using bit_0 [of m] by fastforce
    qed
  qed
  then show ?thesis by blast
qed

lemma push_marked_bits_ok:
  assumes "0 < g"
  shows "marker_ok st \<Longrightarrow> uniform_pointers st \<Longrightarrow>
    \<exists>st' ws. push_marked_bits g m q st = Some st' \<and> scanned st ws st' \<and> set ws = bit_words g m q"
proof (induction m arbitrary: q st rule: less_induct)
  case (less m)
  show ?case
  proof (cases "m = 0")
    case True
    then have "bit_words g m q = {}" by (simp add: bit_words_def)
    then show ?thesis using True less.prems pushed_Nil
      by (intro exI [of _ st] exI [of _ "[]"]) (simp add: push_marked_bits.simps [of g 0] scanned_def map_filter_simps)
  next
    case False
    let ?ws = "if odd m then [q ..< q + 2 * g] else []"
    obtain st1 where s1: "(if m mod 2 = 1 then each PUSH_GRANULE (map (\<lambda>i. q + 2 * i) [0 ..< g]) st else Some st) = Some st1" "scanned st ?ws st1"
    proof (cases "odd m")
      case True
      then show ?thesis using that words_scanned [OF less.prems, of "[q ..< q + 2 * g]"] by (auto simp: granules_words odd_iff_mod_2_eq_one)
    next
      case False
      then show ?thesis using that [of st] pushed_Nil [OF less.prems(1)] by (simp add: scanned_def map_filter_simps even_iff_mod_2_eq_zero)
    qed
    note d = pushedD [OF s1(2) [unfolded scanned_def]]
    have lt: "m div 2 ^ g < m" using False assms by (intro div_less_dividend one_less_power) auto
    obtain st2 ws where s2: "push_marked_bits g (m div 2 ^ g) (q + 2 * g) st1 = Some st2" "scanned st1 ws st2" "set ws = bit_words g (m div 2 ^ g) (q + 2 * g)"
      using less.IH [OF lt d(2) uniform_pointers_objs [OF same_shape_objs [OF d(1)] less.prems(2)]] by blast
    have "push_marked_bits g m q st = Some st2"
      using False assms s1(1) s2(1) by (simp add: push_marked_bits.simps [of g m])
    moreover have "set (?ws @ ws) = bit_words g m q" using s2(3) bit_words_step [OF assms, of m q] by auto
    ultimately show ?thesis using scanned_append [OF less.prems(1) s1(2) s2(2)] by blast
  qed
qed

text \<open>
  Objects of one, two or four granules are scanned in place, the whole of them. The scan agrees with the
  descriptor if that says to search the whole object.
\<close>

definition whole_descr :: "hdr \<Rightarrow> bool" where
  "whole_descr hh \<longleftrightarrow> BYTES_TO_GRANULES (hb_sz hh) \<in> {1, 2, 4} \<longrightarrow> hb_descr hh = 0 \<or> hb_descr hh = hb_sz hh"

abbreviation block_marks :: "'a gc_marker_scheme \<Rightarrow> hblk \<Rightarrow> obj set" where
  "block_marks st h \<equiv> {ob \<in> marked st. fst ob = h}"

lemma small_contents:
  assumes hh: "HDR st h = Hdr hh" "\<not> HBLK_IS_FREE hh" "hb_sz hh = 8 * g" "hb_descr hh = 8 * g" and g: "g \<in> {1, 2, 4}"
  shows "contents st (h, n) = (if n < 512 \<and> g dvd n then {hblk_addr h div 4 + 2 * n ..< hblk_addr h div 4 + 2 * n + 2 * g} else {})"
proof -
  have "object_bit (8 * g) n \<longleftrightarrow> n < 512 \<and> g dvd n"
    using g by (auto simp: object_bit_def FINAL_MARK_BIT_def HBLK_OBJS_def gc_consts BYTES_TO_GRANULES_def mod_eq_0_iff_dvd)
  moreover have "entry_words (entry_of st (h, n)) = {hblk_addr h div 4 + 2 * n ..< hblk_addr h div 4 + 2 * n + 2 * g}"
    using hh g by (auto simp: entry_words_def entry_of_def hdr_at_def Let_def gc_consts hblk_addr_def)
  ultimately show ?thesis using hh by (simp add: contents_def is_used_def hdr_at_def)
qed

lemma mark_word_contents:
  assumes hh: "HDR st h = Hdr hh" "\<not> HBLK_IS_FREE hh" "hb_sz hh = 8 * g" "hb_descr hh = 8 * g" and g: "g \<in> {1, 2, 4}" and i: "i < 16"
  shows "bit_words g (unat (hb_marks hh i)) (hblk_addr h div 4 + i * 64) = \<Union> (contents st ` {ob \<in> block_marks st h. snd ob div 32 = i})"
proof -
  have g32: "g dvd 32" using g by auto
  note c = small_contents [OF hh g]
  have m: "(h, n) \<in> marked st \<longleftrightarrow> bit (hb_marks hh (n div 32)) (n mod 32)" for n
    using hh(1) by (simp add: marked_def mark_bit_from_hdr_def get_bit_entry_def)
  have "w \<in> bit_words g (unat (hb_marks hh i)) (hblk_addr h div 4 + i * 64) \<longleftrightarrow>
      w \<in> \<Union> (contents st ` {ob \<in> block_marks st h. snd ob div 32 = i})" for w
  proof
    assume "w \<in> bit_words g (unat (hb_marks hh i)) (hblk_addr h div 4 + i * 64)"
    then obtain j k where jk: "w = hblk_addr h div 4 + i * 64 + 2 * j + k" "bit (hb_marks hh i) j" "g dvd j" "k < 2 * g" "j < 32"
      using bit_imp_le_length by (fastforce simp: bit_words_def bit_unsigned_iff)
    let ?n = "32 * i + j"
    have "?n div 32 = i" "?n mod 32 = j" using jk(5) by simp_all
    moreover have "w \<in> contents st (h, ?n)" using jk i g32 by (simp add: c)
    ultimately show "w \<in> \<Union> (contents st ` {ob \<in> block_marks st h. snd ob div 32 = i})" using m [of ?n] jk(2) by force
  next
    assume "w \<in> \<Union> (contents st ` {ob \<in> block_marks st h. snd ob div 32 = i})"
    then obtain n where n: "(h, n) \<in> marked st" "n div 32 = i" "w \<in> contents st (h, n)" by auto
    define j where "j = n mod 32"
    have nj: "n = 32 * i + j" unfolding n(2) [symmetric] j_def by simp
    have "bit (hb_marks hh i) j" using m [of n] n(1,2) by (simp add: j_def)
    moreover have "g dvd n" "hblk_addr h div 4 + 2 * n \<le> w" "w < hblk_addr h div 4 + 2 * n + 2 * g" using n(3) by (simp_all add: c split: if_splits)
    moreover have "g dvd j" using calculation(2) g32 by (simp add: nj dvd_add_right_iff)
    moreover have "w = hblk_addr h div 4 + i * 64 + 2 * j + (w - (hblk_addr h div 4 + 2 * n))" using calculation(3) by (simp add: nj)
    moreover have "w - (hblk_addr h div 4 + 2 * n) < 2 * g" using calculation(3,4) by simp
    moreover have "bit (unat (hb_marks hh i)) j"
      using calculation(1) bit_imp_le_length [OF calculation(1)] by (simp add: bit_unsigned_iff)
    ultimately show "w \<in> bit_words g (unat (hb_marks hh i)) (hblk_addr h div 4 + i * 64)" unfolding bit_words_def by blast
  qed
  then show ?thesis by blast
qed

lemma scannedD:
  assumes "scanned st ws st'"
  shows "same_shape st st'" "marker_ok st'" "marked st' = marked st \<union> pointees st (set ws)"
  using pushedD [OF assms [unfolded scanned_def]] by (simp_all add: set_map_filter_pointee)

lemma push_marked_granules_ok:
  assumes ok: "marker_ok st" "uniform_pointers st" and hh: "HDR st h = Hdr hh" "\<not> HBLK_IS_FREE hh" "hb_sz hh = 8 * g" "hb_descr hh = 8 * g"
    and g: "g \<in> {1, 2, 4}" and S: "marked st \<subseteq> S" "pointees st (\<Union> (contents st ` S)) \<subseteq> S"
  obtains st' ws where "push_marked_granules g h st = Some st'" "scanned st ws st'"
    "\<Union> (contents st ` block_marks st h) \<subseteq> set ws" "set ws \<subseteq> \<Union> (contents st ` S)"
proof -
  let ?f = "\<lambda>i st. push_marked_bits g (unat (hb_marks (hdr_at st h) i)) (hblk_addr h div 4 + i * 64) st"
  have steps: "\<exists>st' ws. each ?f [0 ..< k] st = Some st' \<and> scanned st ws st'
      \<and> \<Union> (contents st ` {ob \<in> block_marks st h. snd ob div 32 < k}) \<subseteq> set ws \<and> set ws \<subseteq> \<Union> (contents st ` S)" if "k \<le> 16" for k
    using that
  proof (induction k)
    case 0
    then show ?case using pushed_Nil [OF ok(1)] by (intro exI [of _ st] exI [of _ "[]"]) (simp add: scanned_def map_filter_simps)
  next
    case (Suc k)
    then obtain st1 vs where s1: "each ?f [0 ..< k] st = Some st1" "scanned st vs st1"
        "\<Union> (contents st ` {ob \<in> block_marks st h. snd ob div 32 < k}) \<subseteq> set vs" "set vs \<subseteq> \<Union> (contents st ` S)"
      by auto
    note d1 = scannedD [OF s1(2)]
    obtain hh1 where h1: "HDR st1 h = Hdr hh1" "\<not> HBLK_IS_FREE hh1" "hb_sz hh1 = 8 * g" "hb_descr hh1 = 8 * g"
      using same_shape_hdr [OF d1(1) hh(1)] hh(2-4) by metis
    have at: "hdr_at st1 h = hh1" using h1(1) by (simp add: hdr_at_def)
    obtain st2 ws where s2: "?f k st1 = Some st2" "scanned st1 ws st2" "set ws = bit_words g (unat (hb_marks hh1 k)) (hblk_addr h div 4 + k * 64)"
      using push_marked_bits_ok [OF _ d1(2) uniform_pointers_objs [OF same_shape_objs [OF d1(1)] ok(2)], of g "unat (hb_marks hh1 k)" "hblk_addr h div 4 + k * 64"] g
      unfolding at by auto
    have ws: "set ws = \<Union> (contents st ` {ob \<in> block_marks st1 h. snd ob div 32 = k})"
      using mark_word_contents [OF h1 g, of k] s2(3) Suc.prems contents_shape [OF d1(1)] by simp
    have "{ob \<in> block_marks st h. snd ob div 32 < Suc k} \<subseteq>
        {ob \<in> block_marks st h. snd ob div 32 < k} \<union> {ob \<in> block_marks st1 h. snd ob div 32 = k}"
      using d1(3) by auto
    from Union_mono [OF image_mono [OF this, of "contents st"]]
    have "\<Union> (contents st ` {ob \<in> block_marks st h. snd ob div 32 < Suc k}) \<subseteq> set (vs @ ws)"
      unfolding image_Un Union_Un_distrib set_append ws using s1(3) by blast
    moreover have "set (vs @ ws) \<subseteq> \<Union> (contents st ` S)"
    proof -
      have "marked st1 \<subseteq> S" using d1(3) S pointees_mono [OF s1(4), of st] by auto
      then show ?thesis using s1(4) ws by auto
    qed
    moreover have "each ?f [0 ..< Suc k] st = Some st2" using s1(1) s2(1) by (simp add: each_append)
    ultimately show ?case using scanned_append [OF ok(1) s1(2) s2(2)] by blast
  qed
  obtain st' ws where r: "each ?f [0 ..< 16] st = Some st'" "scanned st ws st'"
      "\<Union> (contents st ` {ob \<in> block_marks st h. snd ob div 32 < 16}) \<subseteq> set ws" "set ws \<subseteq> \<Union> (contents st ` S)"
    using steps [of 16] by auto
  have "\<Union> (contents st ` block_marks st h) \<subseteq> \<Union> (contents st ` {ob \<in> block_marks st h. snd ob div 32 < 16})"
    using small_contents [OF hh g] by (auto split: if_splits)
  then show thesis using that [OF _ r(2) _ r(4)] r(1,3) by (simp add: push_marked_granules_def HBLKSIZE_def)
qed

section \<open>Other objects\<close>

lemma Collect_nat_split: "{f k |k :: nat. P k} = (if P 0 then {f 0} else {}) \<union> {f (Suc k) |k. P (Suc k)}"
proof -
  have "x \<in> {f k |k. P k} \<longleftrightarrow> x \<in> (if P 0 then {f 0} else {}) \<union> {f (Suc k) |k. P (Suc k)}" for x
  proof
    assume "x \<in> {f k |k. P k}"
    then obtain k where "x = f k" "P k" by blast
    then show "x \<in> (if P 0 then {f 0} else {}) \<union> {f (Suc k) |k. P (Suc k)}" by (cases k) auto
  qed (auto split: if_splits)
  then show ?thesis by blast
qed

lemma push_marked_objs_ok:
  assumes "0 < hb_sz hh" "hb_descr hh \<noteq> 0"
  shows "length (GC_mark_stack st) + (lim + hb_sz hh - p) div hb_sz hh \<le> GC_mark_stack_size st \<Longrightarrow>
    \<exists>es. push_marked_objs hh lim p n st = st\<lparr> GC_mark_stack := es @ GC_mark_stack st \<rparr>
      \<and> length es \<le> (lim + hb_sz hh - p) div hb_sz hh
      \<and> set es = {\<lparr> mse_start = p + k * hb_sz hh, mse_descr = hb_descr hh \<rparr> |k.
           p + k * hb_sz hh \<le> lim \<and> mark_bit_from_hdr hh (n + k * MARK_BIT_OFFSET (hb_sz hh))}"
proof (induction "Suc lim - p" arbitrary: p n st rule: less_induct)
  case less
  let ?sz = "hb_sz hh" and ?e = "\<lambda>p. \<lparr> mse_start = p, mse_descr = hb_descr hh \<rparr>" and ?o = "MARK_BIT_OFFSET (hb_sz hh)"
  show ?case
  proof (cases "p \<le> lim")
    case False
    then show ?thesis by (intro exI [of _ "[]"]) (auto simp: push_marked_objs.simps [of hh lim p])
  next
    case True
    have dv: "(lim + ?sz - p) div ?sz = Suc ((lim + ?sz - (p + ?sz)) div ?sz)"
    proof -
      have "lim + ?sz - p = ?sz + (lim + ?sz - (p + ?sz))" using True by simp
      then show ?thesis using assms(1) by (metis div_add_self1 add.commute Suc_eq_plus1 not_gr_zero)
    qed
    define es1 where "es1 = (if mark_bit_from_hdr hh n then [?e p] else [])"
    define st1 where "st1 = st\<lparr> GC_mark_stack := es1 @ GC_mark_stack st \<rparr>"
    have run: "push_marked_objs hh lim p n st = push_marked_objs hh lim (p + ?sz) (n + ?o) st1"
      using True assms less.prems dv by (simp add: push_marked_objs.simps [of hh lim p] PUSH_OBJ_def st1_def es1_def)
    have "length (GC_mark_stack st1) + (lim + ?sz - (p + ?sz)) div ?sz \<le> GC_mark_stack_size st1"
      using less.prems dv by (simp add: st1_def es1_def)
    moreover have "Suc lim - (p + ?sz) < Suc lim - p" using True assms(1) by simp
    ultimately obtain es2 where es2: "push_marked_objs hh lim (p + ?sz) (n + ?o) st1 = st1\<lparr> GC_mark_stack := es2 @ GC_mark_stack st1 \<rparr>"
        "length es2 \<le> (lim + ?sz - (p + ?sz)) div ?sz"
        "set es2 = {?e (p + ?sz + k * ?sz) |k. p + ?sz + k * ?sz \<le> lim \<and> mark_bit_from_hdr hh (n + ?o + k * ?o)}"
      using less.hyps [of "p + ?sz" st1 "n + ?o"] by blast
    have "set (es2 @ es1) = {?e (p + k * ?sz) |k. p + k * ?sz \<le> lim \<and> mark_bit_from_hdr hh (n + k * ?o)}" (is "_ = {?e (?p k) |k. ?P k}")
    proof -
      have "{?e (?p (Suc k)) |k. ?P (Suc k)} = set es2" unfolding es2(3) by (simp add: add.assoc add.left_commute)
      moreover have "(if ?P 0 then {?e (?p 0)} else {}) = set es1" using True by (simp add: es1_def)
      ultimately show ?thesis unfolding Collect_nat_split [of "\<lambda>k. ?e (?p k)" ?P] by auto
    qed
    moreover have "length (es2 @ es1) \<le> (lim + ?sz - p) div ?sz" using es2(2) dv by (simp add: es1_def)
    moreover have "push_marked_objs hh lim p n st = st\<lparr> GC_mark_stack := (es2 @ es1) @ GC_mark_stack st \<rparr>"
      using run es2(1) by (simp add: st1_def)
    ultimately show ?thesis by blast
  qed
qed

section \<open>Steps of the mark phase\<close>

text \<open>
  What the mark phase asks of the heap: free blocks have the size of whole blocks, used blocks end below the
  top of the address space and their small objects are searched as a whole, interior pointers are
  treated alike everywhere, the mark stack has at least its initial size and cannot grow.
\<close>

definition phase_heap :: "'a gc_marker_scheme \<Rightarrow> bool" where
  "phase_heap st \<longleftrightarrow> free_sizes_ok st \<and> uniform_pointers st \<and> INITIAL_MARK_STACK_SIZE \<le> GC_mark_stack_size st \<and> scratch_ok st = (\<lambda>_. False)
     \<and> (\<forall>b hh. HDR st b = Hdr hh \<and> \<not> HBLK_IS_FREE hh \<longrightarrow> b + blocks_of hh < 2 ^ 20 \<and> whole_descr hh)"

lemma phase_heap_objs:
  assumes s: "same_objs st st'" "GC_mark_stack_size st' = GC_mark_stack_size st" "scratch_ok st' = scratch_ok st" and ok: "phase_heap st"
  shows "phase_heap st'"
proof -
  have "hb_sz hh' = blocks_of hh' * HBLKSIZE" if h: "HDR st' b = Hdr hh'" "HBLK_IS_FREE hh'" for b hh'
  proof -
    obtain hh where "HDR st b = Hdr hh" "hb_sz hh' = hb_sz hh" "HBLK_IS_FREE hh' = HBLK_IS_FREE hh" "blocks_of hh' = blocks_of hh"
      using same_objs_hdr' [OF s(1) h(1)] by metis
    then show ?thesis using ok h(2) by (simp add: phase_heap_def free_sizes_ok_def)
  qed
  moreover have "b + blocks_of hh' < 2 ^ 20 \<and> whole_descr hh'" if h: "HDR st' b = Hdr hh'" "\<not> HBLK_IS_FREE hh'" for b hh'
  proof -
    obtain hh where "HDR st b = Hdr hh" "hb_sz hh' = hb_sz hh" "hb_descr hh' = hb_descr hh" "HBLK_IS_FREE hh' = HBLK_IS_FREE hh" "blocks_of hh' = blocks_of hh"
      using same_objs_hdr' [OF s(1) h(1)] by metis
    then show ?thesis using ok h(2) by (simp add: phase_heap_def whole_descr_def)
  qed
  moreover have "uniform_pointers st'" "INITIAL_MARK_STACK_SIZE \<le> GC_mark_stack_size st" "scratch_ok st = (\<lambda>_. False)"
    using ok uniform_pointers_objs [OF s(1)] by (simp_all add: phase_heap_def)
  ultimately show ?thesis unfolding phase_heap_def free_sizes_ok_def s(2,3) by blast
qed

lemma phase_heap_shape: "same_shape st st' \<Longrightarrow> phase_heap st \<Longrightarrow> phase_heap st'"
  by (rule phase_heap_objs) (simp_all add: same_shape_def)

text \<open>
  \<open>R\<close> are the root words and \<open>S\<close> is closed under pointers from \<open>R\<close> and from objects of \<open>S\<close>. Nothing outside \<open>S\<close> is
  marked or will be searched. In a valid state, pointers in the words of \<open>Q\<close> and in
  marked objects outside of \<open>D\<close> are covered: they lead to a marked object or lie in a range on the stack.
\<close>

definition scan_base :: "nat set \<Rightarrow> obj set \<Rightarrow> 'a gc_marker_scheme \<Rightarrow> bool" where
  "scan_base R S st \<longleftrightarrow> marker_ok st \<and> phase_heap st \<and> closed_under st R S \<and> length (GC_mark_stack st) \<le> GC_mark_stack_size st
     \<and> marked st \<subseteq> S \<and> (\<forall>e \<in> set (GC_mark_stack st). entry_ok e \<and> entry_words e \<subseteq> R \<union> \<Union> (contents st ` S))"

definition covered :: "'a gc_marker_scheme \<Rightarrow> nat set \<Rightarrow> obj set \<Rightarrow> bool" where
  "covered st Q D \<longleftrightarrow> (\<forall>w \<in> Q \<union> \<Union> (contents st ` (marked st - D)). \<forall>q. pointee st w = Some q \<longrightarrow>
     q \<in> marked st \<or> w \<in> stack_words (GC_mark_stack st))"

definition scan_inv :: "nat set \<Rightarrow> obj set \<Rightarrow> nat set \<Rightarrow> obj set \<Rightarrow> 'a gc_marker_scheme \<Rightarrow> bool" where
  "scan_inv R S Q D st \<longleftrightarrow> scan_base R S st \<and> (GC_mark_state st = MS_INVALID \<or> covered st Q D)"

lemma scan_baseD:
  assumes "scan_base R S st"
  shows "marker_ok st" "phase_heap st" "closed_under st R S" "length (GC_mark_stack st) \<le> GC_mark_stack_size st" "marked st \<subseteq> S"
    "\<And>e. e \<in> set (GC_mark_stack st) \<Longrightarrow> entry_ok e" "\<And>e. e \<in> set (GC_mark_stack st) \<Longrightarrow> entry_words e \<subseteq> R \<union> \<Union> (contents st ` S)"
  using assms by (simp_all add: scan_base_def)

lemma scan_inv_mark_inv:
  assumes "scan_inv R S Q D st"
  shows "mark_inv st Q R S D (marked st, GC_mark_stack st, GC_mark_state st)"
  using assms unfolding mark_inv_def prod.case scan_inv_def scan_base_def covered_def stack_words_def by simp

lemma closed_under_objs:
  assumes "same_objs st st'" "layout_ok st"
  shows "closed_under st' R S = closed_under st R S"
  by (simp add: closed_under_def pointees_def contents_objs [OF assms(1)] pointee_objs [OF assms])

text \<open>How a step may change the state: only new marks can make the mark state invalid.\<close>

definition marks :: "'a gc_marker_scheme \<Rightarrow> 'a gc_marker_scheme \<Rightarrow> bool" where
  "marks st st' \<longleftrightarrow> same_shape st st' \<and> marked st \<subseteq> marked st' \<and> marked st' - marked st \<subseteq> all_objs
     \<and> (marked st' = marked st \<longrightarrow> GC_mark_state st' = GC_mark_state st)
     \<and> (GC_mark_state st' = GC_mark_state st \<or> GC_mark_state st' = MS_INVALID)"

lemma marks_refl [simp]: "marks st st"
  by (simp add: marks_def)

lemma marks_trans:
  assumes "marks a b" "marks b c"
  shows "marks a c"
proof -
  have "same_shape a c" using assms same_shape_trans unfolding marks_def by blast
  moreover have "marked b = marked a \<and> marked c = marked b" if "marked c = marked a" using that assms unfolding marks_def by blast
  ultimately show ?thesis using assms unfolding marks_def by auto
qed

lemma layout_marker: "marker_ok st \<Longrightarrow> layout_ok st"
  by (rule marker_okD(2))

lemma phase_heapD:
  assumes "phase_heap st"
  shows "free_sizes_ok st" "uniform_pointers st" "INITIAL_MARK_STACK_SIZE \<le> GC_mark_stack_size st" "scratch_ok st = (\<lambda>_. False)"
    "HDR st b = Hdr hh \<Longrightarrow> \<not> HBLK_IS_FREE hh \<Longrightarrow> b + blocks_of hh < 2 ^ 20" "HDR st b = Hdr hh \<Longrightarrow> \<not> HBLK_IS_FREE hh \<Longrightarrow> whole_descr hh"
  using assms by (auto simp: phase_heap_def)

lemma scan_step:
  assumes base: "scan_base R S st" and s: "same_shape st st'" "marker_ok st'"
    and inv: "mark_inv st Q R S D (marked st', GC_mark_stack st', GC_mark_state st')"
  shows "scan_inv R S Q D st'" "marks st st'"
proof -
  note b = scan_baseD [OF base] and i = mark_invD [OF inv]
  note lay = layout_marker [OF b(1)] and so = same_shape_objs [OF s(1)]
  have size: "GC_mark_stack_size st' = GC_mark_stack_size st" using s(1) by (simp add: same_shape_def)
  have c: "contents st' = contents st" by (rule contents_objs [OF so])
  have p: "pointee st' w = pointee st w" for w by (rule pointee_objs [OF so lay])
  have "length (GC_mark_stack st') \<le> GC_mark_stack_size st'"
    unfolding size by (rule i(6)) (use b(4) phase_heapD(3) [OF b(2)] in \<open>auto simp: gc_consts\<close>)
  then have "scan_base R S st'"
    using s(2) phase_heap_shape [OF s(1) b(2)] closed_under_objs [OF so lay] b(3) i(2,3) by (simp add: scan_base_def c)
  moreover have "GC_mark_state st' = MS_INVALID \<or> covered st' Q D"
    using i(4) unfolding covered_def c p stack_words_def by blast
  ultimately show "scan_inv R S Q D st'" by (simp add: scan_inv_def)
  show "marks st st'" using s(1) i(1,5,7,8) by (simp add: marks_def)
qed

lemma mark_from_step:
  assumes inv: "scan_inv R S Q D st"
  obtains st' where "MARK_FROM_MARK_STACK procs st = Some st'" "scan_inv R S Q D st'" "marks st st'" "GC_objects_are_marked st'"
    "GC_mark_stack st \<noteq> [] \<Longrightarrow> marked st' = marked st \<Longrightarrow> sum_list (map mse_descr (GC_mark_stack st')) < sum_list (map mse_descr (GC_mark_stack st))"
proof -
  have base: "scan_base R S st" using inv by (simp add: scan_inv_def)
  note b = scan_baseD [OF base]
  obtain st' where r: "MARK_FROM_MARK_STACK procs st = Some st'" "same_shape st st'" "marker_ok st'"
      "mark_inv st Q R S D (marked st', GC_mark_stack st', GC_mark_state st')" "GC_objects_are_marked st'"
      "GC_mark_stack st \<noteq> [] \<Longrightarrow> (work_left (marked st', GC_mark_stack st', GC_mark_state st'),
         work_left (marked st, GC_mark_stack st, GC_mark_state st)) \<in> less_work"
    by (rule MARK_FROM_MARK_STACK_ok [OF b(1,3) same_shape_refl b(1) scan_inv_mark_inv [OF inv]]) (rule that; assumption)
  show thesis
  proof (rule that [OF r(1) scan_step [OF base r(2-4)] r(5)])
    assume "GC_mark_stack st \<noteq> []" "marked st' = marked st"
    then show "sum_list (map mse_descr (GC_mark_stack st')) < sum_list (map mse_descr (GC_mark_stack st))"
      using r(6) by (simp add: work_left_def)
  qed
qed

lemma pushes_step:
  assumes base: "scan_base R S st" and p: "pushed st obs st'" and obs: "set obs \<subseteq> S" "\<And>ob. ob \<in> set obs \<Longrightarrow> proper_obj st ob"
    and cov: "\<And>w q. GC_mark_state st \<noteq> MS_INVALID \<Longrightarrow> w \<in> Q \<union> \<Union> (contents st ` (marked st - D)) \<Longrightarrow> pointee st w = Some q \<Longrightarrow>
        q \<in> marked st \<union> set obs \<or> w \<in> stack_words (GC_mark_stack st)"
  shows "scan_inv R S Q D st'" "marks st st'"
proof -
  have s: "same_shape st st'" "marker_ok st'"
    and f: "fold (push1 st (GC_mark_stack_size st)) obs (marked st, GC_mark_stack st, GC_mark_state st) = (marked st', GC_mark_stack st', GC_mark_state st')"
    using p by (simp_all add: pushed_def view_in_def)
  have "scan_inv R S {} UNIV st" using base by (simp add: scan_inv_def covered_def)
  note i = mark_pushes [OF scan_inv_mark_inv [OF this] f obs(1), of Q D]
  have "mark_inv st Q R S D (marked st', GC_mark_stack st', GC_mark_state st')"
    by (rule i) (use obs(2) cov in \<open>auto simp: stack_words_def\<close>)
  from scan_step [OF base s this] show "scan_inv R S Q D st'" "marks st st'" .
qed

lemma entries_step:
  assumes base: "scan_base R S st" and es: "\<And>e. e \<in> set es \<Longrightarrow> entry_ok e \<and> entry_words e \<subseteq> R \<union> \<Union> (contents st ` S)"
    "length es + length (GC_mark_stack st) \<le> GC_mark_stack_size st"
    and cov: "\<And>w q. GC_mark_state st \<noteq> MS_INVALID \<Longrightarrow> w \<in> Q \<union> \<Union> (contents st ` (marked st - D)) \<Longrightarrow> pointee st w = Some q \<Longrightarrow>
        q \<in> marked st \<or> w \<in> stack_words es \<union> stack_words (GC_mark_stack st)"
  shows "scan_inv R S Q D (st\<lparr> GC_mark_stack := es @ GC_mark_stack st \<rparr>)" "marks st (st\<lparr> GC_mark_stack := es @ GC_mark_stack st \<rparr>)"
proof -
  let ?st = "st\<lparr> GC_mark_stack := es @ GC_mark_stack st \<rparr>"
  note b = scan_baseD [OF base]
  have s: "same_shape st ?st" "marker_ok ?st" using b(1) by simp_all
  have "mark_inv st Q R S D (marked st, es @ GC_mark_stack st, GC_mark_state st)"
    unfolding mark_inv_def prod.case
  proof (intro conjI ballI)
    show "GC_mark_state st = MS_INVALID \<or> (\<forall>w \<in> Q \<union> \<Union> (contents st ` (marked st - D)). \<forall>q. pointee st w = Some q \<longrightarrow>
        q \<in> marked st \<or> (\<exists>e \<in> set (es @ GC_mark_stack st). w \<in> entry_words e))"
      using cov unfolding stack_words_def by auto
    show "entry_ok e" "entry_words e \<subseteq> R \<union> \<Union> (contents st ` S)" if "e \<in> set (es @ GC_mark_stack st)" for e
      using that es(1) b(6,7) by auto
  qed (use b(5) es(2) in simp_all)
  from scan_step [OF base s, of Q D] this show "scan_inv R S Q D ?st" "marks st ?st" by simp_all
qed

end
