(* ===== verification/Mark_Blocks.thy ===== *)
theory Mark_Blocks
  imports Mark_Steps
begin

text \<open>
  The scan of the heap for marked objects: \<open>GC_push_marked\<close> for one block, and the search for the next block
  to scan.
\<close>

section \<open>Control variables\<close>

lemma scan_ctl:
  assumes c: "ctl_eq st st'" and e: "GC_mark_stack st' = GC_mark_stack st" "GC_mark_stack_size st' = GC_mark_stack_size st" "scratch_ok st' = scratch_ok st"
  shows "scan_base R S st' = scan_base R S st" "layout_ok st \<Longrightarrow> covered st' Q D = covered st Q D"
proof -
  note d = ctl_eqD [OF c]
  have H: "HDR st' = HDR st" by (rule d(4))
  have p: "phase_heap st' = phase_heap st"
    using c e by (simp add: phase_heap_def free_sizes_ok_def uniform_pointers_def ctl_eq_def)
  have cu: "layout_ok st \<Longrightarrow> closed_under st' R S = closed_under st R S" by (rule closed_under_objs [OF d(1)])
  show "scan_base R S st' = scan_base R S st"
    using cu layout_marker [of st] by (auto simp: scan_base_def d(2,3) p e contents_objs [OF d(1)])
  show "layout_ok st \<Longrightarrow> covered st' Q D = covered st Q D"
    by (simp add: covered_def d(3) e contents_objs [OF d(1)] pointee_objs [OF d(1)])
qed

section \<open>One block\<close>

lemma block_entries:
  assumes o: "object_hdr st h hh" and hh: "HDR st h = Hdr hh"
  defines "lim \<equiv> if hb_sz hh > MAXOBJBYTES then hblk_addr h else hblk_addr (h + 1) - hb_sz hh"
  shows "{\<lparr> mse_start = hblk_addr h + k * hb_sz hh, mse_descr = hb_descr hh \<rparr> |k.
      hblk_addr h + k * hb_sz hh \<le> lim \<and> mark_bit_from_hdr hh (0 + k * MARK_BIT_OFFSET (hb_sz hh))}
    = entry_of st ` {ob \<in> block_marks st h. object_bit (hb_sz hh) (snd ob)}"
    "(lim + hb_sz hh - hblk_addr h) div hb_sz hh \<le> 512"
proof -
  let ?sz = "hb_sz hh" and ?e = "\<lambda>n. \<lparr> mse_start = hblk_addr h + n * 8, mse_descr = hb_descr hh \<rparr>"
  define g where "g = ?sz div 8"
  have sz: "?sz = 8 * g" "0 < g" using o by (auto simp: object_hdr_def g_def GRANULE_BYTES_def)
  have off: "MARK_BIT_OFFSET ?sz = g" by (simp add: MARK_BIT_OFFSET_def BYTES_TO_GRANULES_def g_def)
  have bits: "object_bit ?sz n \<and> hblk_addr h \<le> lim \<longleftrightarrow> (\<exists>k. n = k * g \<and> hblk_addr h + k * ?sz \<le> lim)" for n
  proof (cases "?sz > MAXOBJBYTES")
    case True
    then have "hblk_addr h + k * ?sz \<le> lim \<longleftrightarrow> k = 0" for k using sz by (simp add: lim_def)
    then show ?thesis using True by (auto simp: object_bit_def FINAL_MARK_BIT_def gc_consts lim_def)
  next
    case False
    then have le: "g \<le> 256" using sz(1) by (simp add: MAXOBJBYTES_def HBLKSIZE_def)
    have lim: "lim = hblk_addr h + 4096 - 8 * g" using False sz(1) by (simp add: lim_def hblk_addr_def HBLKSIZE_def)
    have F: "FINAL_MARK_BIT ?sz = g * (512 div g)"
      using False sz by (simp add: FINAL_MARK_BIT_def BYTES_TO_GRANULES_def HBLK_OBJS_def HBLKSIZE_def mult.assoc)
    have k: "k * g < g * (512 div g) \<longleftrightarrow> hblk_addr h + k * ?sz \<le> lim" for k
    proof -
      have "k * g < g * (512 div g) \<longleftrightarrow> Suc k \<le> 512 div g" using sz(2) by (simp add: mult.commute [of k] Suc_le_eq)
      also have "\<dots> \<longleftrightarrow> Suc k * g \<le> 512" using sz(2) by (simp add: less_eq_div_iff_mult_less_eq)
      also have "\<dots> \<longleftrightarrow> hblk_addr h + k * ?sz \<le> lim"
      proof -
        have "a + 8 * x \<le> a + 4096 - 8 * g \<longleftrightarrow> g + x \<le> 512" for a x using le by linarith
        from this [of "hblk_addr h" "k * g"] show ?thesis by (simp add: lim sz(1) mult.left_commute)
      qed
      finally show ?thesis .
    qed
    have ob: "object_bit ?sz n \<longleftrightarrow> n < g * (512 div g) \<and> g dvd n"
      using False F by (simp add: object_bit_def BYTES_TO_GRANULES_def g_def mod_eq_0_iff_dvd)
    have "g dvd n \<longleftrightarrow> (\<exists>k. n = k * g)" by (simp add: dvd_def mult.commute)
    moreover have "hblk_addr h \<le> lim" using le by (simp add: lim)
    ultimately show ?thesis unfolding ob using k by metis
  qed
  have k: "k * ?sz = k * g * 8" for k using sz(1) by simp
  have lim0: "hblk_addr h \<le> lim"
    using sz by (simp add: lim_def hblk_addr_def gc_consts) linarith
  have m: "block_marks st h = {(h, n) |n. mark_bit_from_hdr hh n}" using hh by (auto simp: marked_def)
  have "entry_of st ` {ob \<in> block_marks st h. object_bit ?sz (snd ob)} = {?e n |n. object_bit ?sz n \<and> mark_bit_from_hdr hh n}"
  proof -
    have e: "entry_of st (h, n) = ?e n" for n using hh by (simp add: entry_of_def hdr_at_def GRANULE_BYTES_def)
    have "{ob \<in> block_marks st h. object_bit ?sz (snd ob)} = (\<lambda>n. (h, n)) ` {n. object_bit ?sz n \<and> mark_bit_from_hdr hh n}"
      unfolding m by auto
    then show ?thesis by (simp only: image_image e) blast
  qed
  also have "\<dots> = {?e (k * g) |k. hblk_addr h + k * ?sz \<le> lim \<and> mark_bit_from_hdr hh (k * g)}"
  proof -
    have "object_bit ?sz n \<longleftrightarrow> (\<exists>k. n = k * g \<and> hblk_addr h + k * ?sz \<le> lim)" for n using bits [of n] lim0 by simp
    then show ?thesis by auto
  qed
  finally show "{\<lparr> mse_start = hblk_addr h + k * ?sz, mse_descr = hb_descr hh \<rparr> |k.
      hblk_addr h + k * ?sz \<le> lim \<and> mark_bit_from_hdr hh (0 + k * MARK_BIT_OFFSET ?sz)}
    = entry_of st ` {ob \<in> block_marks st h. object_bit ?sz (snd ob)}"
    by (simp add: off k)
  show "(lim + ?sz - hblk_addr h) div ?sz \<le> 512"
  proof (cases "?sz > MAXOBJBYTES")
    case False
    then have "lim + ?sz - hblk_addr h = 4096" using sz(1) by (simp add: lim_def hblk_addr_def gc_consts)
    moreover have "4096 div ?sz \<le> 4096 div 8" using sz by (intro div_le_mono2) auto
    ultimately show ?thesis by simp
  qed (use sz in \<open>simp add: lim_def\<close>)
qed

text \<open>What has to be covered after the marked objects of a block were pushed.\<close>

definition block_scanned :: "'a gc_marker_scheme \<Rightarrow> hblk \<Rightarrow> obj set \<Rightarrow> obj set \<Rightarrow> bool" where
  "block_scanned st h D D' \<longleftrightarrow> (\<forall>ob \<in> marked st \<inter> D - D'. contents st ob \<noteq> {} \<longrightarrow> fst ob = h)"

lemma block_scanned_words:
  assumes "block_scanned st h D D'" "w \<in> Q \<union> \<Union> (contents st ` (marked st - D'))"
  shows "w \<in> Q \<union> \<Union> (contents st ` (marked st - D)) \<or> w \<in> \<Union> (contents st ` block_marks st h)"
proof -
  have "ob \<in> marked st - D \<or> ob \<in> block_marks st h" if "ob \<in> marked st - D'" "w \<in> contents st ob" for ob
    using assms(1) that unfolding block_scanned_def by blast
  then show ?thesis using assms(2) by blast
qed

lemma contents_unused: "HDR st h = Hdr hh \<Longrightarrow> contents st (h, n) \<noteq> {} \<Longrightarrow> object_bit (hb_sz hh) n \<and> hb_descr hh \<noteq> 0"
  by (auto simp: contents_def hdr_at_def entry_of_def entry_words_0 split: if_splits)

lemma small_block_step:
  assumes base: "scan_base R S st" and cov: "GC_mark_state st \<noteq> MS_INVALID \<Longrightarrow> covered st Q D"
    and hh: "HDR st h = Hdr hh" "\<not> HBLK_IS_FREE hh" "hb_sz hh = 8 * g" "hb_descr hh = 8 * g" and g: "g \<in> {1, 2, 4}"
    and D': "block_scanned st h D D'"
  obtains st' where "push_marked_granules g h st = Some st'" "scan_inv R S Q D' st'" "marks st st'"
proof -
  note b = scan_baseD [OF base]
  have cl: "pointees st (\<Union> (contents st ` S)) \<subseteq> S"
    using b(3) pointees_mono [of "\<Union> (contents st ` S)" "R \<union> \<Union> (contents st ` S)" st] by (simp add: closed_under_def)
  obtain st' ws where r: "push_marked_granules g h st = Some st'" "scanned st ws st'"
      "\<Union> (contents st ` block_marks st h) \<subseteq> set ws" "set ws \<subseteq> \<Union> (contents st ` S)"
    by (rule push_marked_granules_ok [OF b(1) phase_heapD(2) [OF b(2)] hh g b(5) cl])
  let ?obs = "List.map_filter (pointee st) ws"
  have obs: "set ?obs = pointees st (set ws)" by (rule set_map_filter_pointee)
  have inS: "set ?obs \<subseteq> S" using pointees_mono [OF r(4), of st] cl by (simp add: obs)
  have proper: "proper_obj st ob" if "ob \<in> set ?obs" for ob
    using that pointee_proper [OF b(1), of _ ob] by (auto simp: obs pointees_def)
  have cv: "q \<in> marked st \<union> set ?obs \<or> w \<in> stack_words (GC_mark_stack st)"
    if w: "GC_mark_state st \<noteq> MS_INVALID" "w \<in> Q \<union> \<Union> (contents st ` (marked st - D'))" "pointee st w = Some q" for w q
  proof (cases "w \<in> \<Union> (contents st ` block_marks st h)")
    case True
    then have "w \<in> set ws" using r(3) by blast
    then show ?thesis using w(3) by (auto simp: obs pointees_def)
  next
    case False
    then have "w \<in> Q \<union> \<Union> (contents st ` (marked st - D))" using block_scanned_words [OF D' w(2)] by blast
    then show ?thesis using cov [OF w(1)] w(3) unfolding covered_def by blast
  qed
  note step = pushes_step [OF base r(2) [unfolded scanned_def] inS]
  have "scan_inv R S Q D' st'" "marks st st'" by (rule step; use proper cv in blast)+
  with r(1) that show thesis by blast
qed

lemma other_block_step:
  assumes base: "scan_base R S st" and cov: "GC_mark_state st \<noteq> MS_INVALID \<Longrightarrow> covered st Q D"
    and hh: "HDR st h = Hdr hh" "\<not> HBLK_IS_FREE hh" "hb_descr hh \<noteq> 0" and D': "block_scanned st h D D'"
    and room: "length (GC_mark_stack st) + 512 \<le> GC_mark_stack_size st"
  defines "lim \<equiv> if hb_sz hh > MAXOBJBYTES then hblk_addr h else hblk_addr (h + 1) - hb_sz hh"
  shows "scan_inv R S Q D' (push_marked_objs hh lim (hblk_addr h) 0 st)" "marks st (push_marked_objs hh lim (hblk_addr h) 0 st)"
proof -
  note b = scan_baseD [OF base]
  have o: "object_hdr st h hh" by (rule marker_okD(6) [OF b(1) hh(1,2)])
  note be = block_entries [OF o hh(1), folded lim_def]
  have sz: "0 < hb_sz hh" using o by (simp add: object_hdr_def)
  obtain es where es: "push_marked_objs hh lim (hblk_addr h) 0 st = st\<lparr> GC_mark_stack := es @ GC_mark_stack st \<rparr>"
      "length es \<le> 512" "set es = entry_of st ` {ob \<in> block_marks st h. object_bit (hb_sz hh) (snd ob)}"
    using push_marked_objs_ok [OF sz hh(3), of st lim "hblk_addr h" 0] room be by fastforce
  have c: "contents st ob = entry_words (entry_of st ob)" if "fst ob = h" "object_bit (hb_sz hh) (snd ob)" for ob
    using that hh by (simp add: contents_def is_used_def hdr_at_def)
  have words: "stack_words es = \<Union> (contents st ` block_marks st h)"
  proof -
    have "stack_words es = \<Union> (contents st ` {ob \<in> block_marks st h. object_bit (hb_sz hh) (snd ob)})"
      unfolding stack_words_def es(3) using c by auto
    moreover have "contents st ob = {}" if "ob \<in> block_marks st h" "\<not> object_bit (hb_sz hh) (snd ob)" for ob
      using that contents_unused [OF hh(1), of "snd ob"] by (cases ob) auto
    ultimately show ?thesis by blast
  qed
  have "entry_ok e \<and> entry_words e \<subseteq> R \<union> \<Union> (contents st ` S)" if e: "e \<in> set es" for e
  proof -
    obtain n where n: "e = entry_of st (h, n)" "(h, n) \<in> marked st" "object_bit (hb_sz hh) n" using e es(3) by auto
    have "entry_words e \<subseteq> \<Union> (contents st ` S)" using n b(5) c [of "(h, n)"] by auto
    then show ?thesis using entry_ok_used [OF b(1) hh] n(1) by auto
  qed
  moreover have "length es + length (GC_mark_stack st) \<le> GC_mark_stack_size st" using es(2) room by simp
  moreover have "q \<in> marked st \<or> w \<in> stack_words es \<union> stack_words (GC_mark_stack st)"
    if w: "GC_mark_state st \<noteq> MS_INVALID" "w \<in> Q \<union> \<Union> (contents st ` (marked st - D'))" "pointee st w = Some q" for w q
    using cov [OF w(1)] block_scanned_words [OF D' w(2)] w(3) unfolding words covered_def by blast
  ultimately show "scan_inv R S Q D' (push_marked_objs hh lim (hblk_addr h) 0 st)" "marks st (push_marked_objs hh lim (hblk_addr h) 0 st)"
    unfolding es(1) by (blast intro: entries_step [OF base])+
qed

lemma GC_push_marked_step:
  assumes base: "scan_base R S st" and cov: "GC_mark_state st \<noteq> MS_INVALID \<Longrightarrow> covered st Q D"
    and hh: "HDR st h = Hdr hh" "\<not> HBLK_IS_FREE hh" and D': "block_scanned st h D D'"
    and room: "length (GC_mark_stack st) + 512 \<le> GC_mark_stack_size st"
  obtains st' where "GC_push_marked h st = Some st'" "scan_inv R S Q D' st'" "marks st st'" "st' = st \<or> GC_objects_are_marked st'"
proof (cases "hb_descr hh = 0 \<or> GC_block_empty hh")
  case True
  have "contents st ob = {}" if "ob \<in> block_marks st h" for ob
  proof (rule ccontr)
    assume "contents st ob \<noteq> {}"
    then have "object_bit (hb_sz hh) (snd ob)" "hb_descr hh \<noteq> 0" using that contents_unused [OF hh(1), of "snd ob"] by (cases ob; auto)+
    moreover have "count_ok hh" using marker_okD(7) [OF scan_baseD(1) [OF base]] hh by (auto simp: counts_ok_def)
    ultimately have "\<not> mark_bit_from_hdr hh (snd ob)" using True count_ok_0 [of hh "snd ob"] by (auto simp: GC_block_empty_def)
    then show False using that hh(1) by (auto simp: marked_def)
  qed
  then have "covered st Q D'" if "GC_mark_state st \<noteq> MS_INVALID"
    using cov [OF that] block_scanned_words [OF D', of _ Q] unfolding covered_def by blast
  then have "scan_inv R S Q D' st" using base by (auto simp: scan_inv_def)
  moreover have "GC_push_marked h st = Some st" using True hh by (simp add: GC_push_marked_def hdr_at_def)
  ultimately show thesis using that by simp
next
  case False
  define st1 where "st1 = st\<lparr> GC_n_rescuing_pages := wadd (GC_n_rescuing_pages st) 1, GC_objects_are_marked := True \<rparr>"
  have c: "ctl_eq st st1" unfolding st1_def
    by (rule ctl_eq_trans [of st "st\<lparr> GC_n_rescuing_pages := wadd (GC_n_rescuing_pages st) 1 \<rparr>"]) simp_all
  note d = ctl_eqD [OF c]
  have e: "GC_mark_stack st1 = GC_mark_stack st" "GC_mark_stack_size st1 = GC_mark_stack_size st" "scratch_ok st1 = scratch_ok st"
    "GC_mark_state st1 = GC_mark_state st" "GC_objects_are_marked st1" "scan_ptr st1 = scan_ptr st" by (simp_all add: st1_def)
  have b1: "scan_base R S st1" using scan_ctl(1) [OF c e(1-3)] base by simp
  have c1: "covered st1 Q D" if "GC_mark_state st1 \<noteq> MS_INVALID"
    using scan_ctl(2) [OF c e(1-3) layout_marker] scan_baseD(1) [OF base] cov e(4) that by simp
  have m1: "marks st st1" using d e by (simp add: marks_def same_shape_def)
  have hh1: "HDR st1 h = Hdr hh" using hh(1) d(4) by simp
  have D1: "block_scanned st1 h D D'" using D' by (simp add: block_scanned_def d(3) contents_objs [OF d(1)])
  have o: "object_hdr st1 h hh" by (rule marker_okD(6) [OF scan_baseD(1) [OF b1] hh1 hh(2)])
  note result = that
  have fin: thesis if "GC_push_marked h st = Some st'" "scan_inv R S Q D' st'" "marks st1 st'" for st'
    by (rule result [OF that(1,2) marks_trans [OF m1 that(3)]]) (use that(3) e(5) in \<open>simp add: marks_def same_shape_def\<close>)
  show thesis
  proof (cases "BYTES_TO_GRANULES (hb_sz hh) \<in> {1, 2, 4}")
    case True
    let ?g = "BYTES_TO_GRANULES (hb_sz hh)"
    have sz: "hb_sz hh = 8 * ?g" using o by (auto simp: object_hdr_def BYTES_TO_GRANULES_def GRANULE_BYTES_def)
    moreover have "hb_descr hh = hb_sz hh"
      using phase_heapD(6) [OF scan_baseD(2) [OF base] hh] True False unfolding whole_descr_def by blast
    ultimately obtain st' where st': "push_marked_granules ?g h st1 = Some st'" "scan_inv R S Q D' st'" "marks st1 st'"
      using small_block_step [OF b1 c1 hh1 hh(2) sz _ True D1] by auto
    have "GC_push_marked h st = push_marked_granules ?g h st1"
      using True False hh by (auto simp: GC_push_marked_def hdr_at_def Let_def st1_def GC_push_marked1_def GC_push_marked2_def GC_push_marked4_def)
    then show ?thesis using fin st' by simp
  next
    case other: False
    let ?lim = "if hb_sz hh > MAXOBJBYTES then hblk_addr h else hblk_addr (h + 1) - hb_sz hh"
    have "GC_push_marked h st = Some (push_marked_objs hh ?lim (hblk_addr h) 0 st1)"
      using other False hh by (simp add: GC_push_marked_def hdr_at_def Let_def st1_def)
    then show ?thesis
      using fin other_block_step [OF b1 c1 hh1 hh(2) _ D1] False room e(1,2) by simp
  qed
qed

section \<open>The next block\<close>

lemma used_from_least:
  assumes ok: "marker_ok st" "free_sizes_ok st"
  obtains r where "used_from st h = Some r" "\<And>b. r = 0 \<Longrightarrow> h \<le> b \<Longrightarrow> \<not> is_used (HDR st b)"
    "r \<noteq> 0 \<Longrightarrow> h \<le> r \<and> is_used (HDR st r)" "\<And>b. r \<noteq> 0 \<Longrightarrow> h \<le> b \<Longrightarrow> b < r \<Longrightarrow> \<not> is_used (HDR st b)"
proof (cases "is_used (HDR st h)")
  case True
  have "h \<noteq> 0" using True marker_okD(8) [OF ok(1)] by (cases "h = 0") (auto simp: is_used_def)
  moreover have "used_from st h = Some h" using True by (auto simp: used_from_def is_used_def split: hdr_entry.splits)
  ultimately show thesis using that [of h] True by simp
next
  case False
  obtain r where r: "GC_next_used_block st h = Some r" "{b. h \<le> b \<and> is_used (HDR st b)} = {} \<Longrightarrow> r = 0"
      "{b. h \<le> b \<and> is_used (HDR st b)} \<noteq> {} \<Longrightarrow> h \<le> r \<and> is_used (HDR st r) \<and> (\<forall>b. h \<le> b \<and> is_used (HDR st b) \<longrightarrow> r \<le> b)"
    using GC_next_used_block_least [OF marker_okD(1,2) [OF ok(1)] ok(2), of h] by auto
  have run: "used_from st h = Some r" using False r(1) by (auto simp: used_from_def is_used_def split: hdr_entry.splits)
  have n0: "\<not> is_used (HDR st 0)" using marker_okD(8) [OF ok(1)] by (simp add: is_used_def)
  show thesis
    by (rule that [OF run]) (use r(2,3) n0 in \<open>fastforce simp: not_le\<close>)+
qed

lemma is_usedE:
  assumes "is_used e"
  obtains hh where "e = Hdr hh" "\<not> HBLK_IS_FREE hh"
  using assms that by (auto simp: is_used_def split: hdr_entry.splits)

lemma next_hblk_used:
  assumes "HDR st h = Hdr hh" "h + blocks_of hh < 2 ^ 20"
  shows "next_hblk st h = h + blocks_of hh"
proof -
  have "hb_sz hh \<le> blocks_of hh * HBLKSIZE" unfolding blocks_of_def by (rule OBJ_SZ_TO_BLOCKS_ge)
  then have "hb_sz hh + (HBLKSIZE - 1) < 2 ^ 32" using assms(2) by (simp add: HBLKSIZE_def)
  then have "obj_sz_to_blocks (hb_sz hh) = blocks_of hh"
    by (simp add: obj_sz_to_blocks_def blocks_of_def OBJ_SZ_TO_BLOCKS_def wadd_id HBLKSIZE_def add.commute)
  then show ?thesis using assms by (simp add: next_hblk_def hdr_at_def)
qed

text \<open>The first block in use at or above \<open>h\<close> that has the property \<open>P\<close>, 0 for none.\<close>

definition used_block :: "(hblk \<Rightarrow> hdr \<Rightarrow> bool) \<Rightarrow> 'a hdr_index_scheme \<Rightarrow> hblk \<Rightarrow> bool" where
  "used_block P st b \<longleftrightarrow> (\<exists>hh. HDR st b = Hdr hh \<and> \<not> HBLK_IS_FREE hh \<and> P b hh)"

definition first_block :: "(hblk \<Rightarrow> hdr \<Rightarrow> bool) \<Rightarrow> 'a hdr_index_scheme \<Rightarrow> hblk \<Rightarrow> hblk \<Rightarrow> bool" where
  "first_block P st h r \<longleftrightarrow>
     (if r = 0 then \<forall>b \<ge> h. \<not> used_block P st b
      else h \<le> r \<and> used_block P st r \<and> (\<forall>b. h \<le> b \<and> b < r \<longrightarrow> \<not> used_block P st b))"

lemma first_block_skip:
  assumes "first_block P st n r" "h \<le> n" "\<And>b. h \<le> b \<Longrightarrow> b < n \<Longrightarrow> \<not> used_block P st b"
  shows "first_block P st h r"
proof (cases "r = 0")
  case True
  then have "\<not> used_block P st b" if "h \<le> b" for b
    using assms(1,3) that by (cases "n \<le> b") (auto simp: first_block_def)
  then show ?thesis using True by (simp add: first_block_def)
next
  case False
  then have "\<not> used_block P st b" if "h \<le> b" "b < r" for b
    using assms(1,3) that by (cases "n \<le> b") (auto simp: first_block_def)
  then show ?thesis using False assms(1,2) by (auto simp: first_block_def)
qed

lemma find_block_first:
  assumes ok: "marker_ok st" "phase_heap st"
  shows "\<exists>r. find_block P st h = Some r \<and> first_block P st h r"
proof (induction "2 ^ 20 - h" arbitrary: h rule: less_induct)
  case less
  obtain r where r: "used_from st h = Some r" "\<And>b. r = 0 \<Longrightarrow> h \<le> b \<Longrightarrow> \<not> is_used (HDR st b)"
      "r \<noteq> 0 \<Longrightarrow> h \<le> r \<and> is_used (HDR st r)" "\<And>b. r \<noteq> 0 \<Longrightarrow> h \<le> b \<Longrightarrow> b < r \<Longrightarrow> \<not> is_used (HDR st b)"
    using used_from_least [OF ok(1) phase_heapD(1) [OF ok(2)]] by metis
  have used: "used_block P st b \<Longrightarrow> is_used (HDR st b)" for b by (auto simp: used_block_def is_used_def)
  show ?case
  proof (cases "r = 0")
    case True
    then have "find_block P st h = Some 0" using r(1) by (subst find_block.simps) simp
    then show ?thesis using r(2) [OF True] used by (auto simp: first_block_def)
  next
    case False
    then obtain hh where hh: "HDR st r = Hdr hh" "\<not> HBLK_IS_FREE hh" "h \<le> r" using r(3) by (auto elim: is_usedE)
    have at: "hdr_at st r = hh" using hh(1) by (simp add: hdr_at_def)
    show ?thesis
    proof (cases "P r hh")
      case True
      then have "find_block P st h = Some r" using r(1) False at by (subst find_block.simps) simp
      moreover have "used_block P st r" using True hh by (simp add: used_block_def)
      ultimately show ?thesis using False hh(3) r(4) [OF False] used by (auto simp: first_block_def)
    next
      case no: False
      let ?n = "r + blocks_of hh"
      have lt: "?n < 2 ^ 20" by (rule phase_heapD(5) [OF ok(2) hh(1,2)])
      have pos: "0 < blocks_of hh" by (rule layout_blocks_pos [OF marker_okD(2) [OF ok(1)] hh(1)])
      have run: "find_block P st h = find_block P st ?n"
        using r(1) False no at next_hblk_used [OF hh(1) lt] by (subst find_block.simps) simp
      have below: "\<not> used_block P st b" if "h \<le> b" "b < ?n" for b
      proof
        assume u: "used_block P st b"
        then obtain g where g: "HDR st b = Hdr g" "P b g" by (auto simp: used_block_def)
        have "\<not> b < r" using r(4) [OF False that(1)] used [OF u] by blast
        moreover have "\<not> r < b" using layout_disjoint [OF marker_okD(2) [OF ok(1)] hh(1) g(1)] that(2) by auto
        ultimately have "b = r" by simp
        then show False using no hh(1) g by simp
      qed
      have "2 ^ 20 - ?n < 2 ^ 20 - h" using lt pos hh(3) by simp
      then obtain r2 where "find_block P st ?n = Some r2" "first_block P st ?n r2" using less by blast
      then show ?thesis unfolding run using first_block_skip [OF _ _ below] hh(3) by auto
    qed
  qed
qed

text \<open>One step of the scan, at a block that was found.\<close>

lemma push_and_next_step:
  assumes base: "scan_base R S st" and cov: "GC_mark_state st \<noteq> MS_INVALID \<Longrightarrow> covered st Q D"
    and hh: "HDR st h = Hdr hh" "\<not> HBLK_IS_FREE hh" and D': "block_scanned st h D D'"
    and room: "length (GC_mark_stack st) + 512 \<le> GC_mark_stack_size st"
  obtains st' where "push_and_next h st = Some (h + blocks_of hh, st')" "scan_inv R S Q D' st'" "marks st st'"
    "st' = st \<or> GC_objects_are_marked st'"
proof -
  obtain st' where r: "GC_push_marked h st = Some st'" "scan_inv R S Q D' st'" "marks st st'" "st' = st \<or> GC_objects_are_marked st'"
    by (rule GC_push_marked_step [OF assms])
  have "same_shape st st'" using r(3) by (simp add: marks_def)
  then obtain hh' where h': "HDR st' h = Hdr hh'" "blocks_of hh' = blocks_of hh" using same_shape_hdr [OF _ hh(1)] by metis
  have "next_hblk st' h = h + blocks_of hh"
    using next_hblk_used [OF h'(1)] h'(2) phase_heapD(5) [OF scan_baseD(2) [OF base] hh] by simp
  then show thesis using that r by (simp add: push_and_next_def)
qed

text \<open>The three searches. A scan that has come to block \<open>p\<close> has yet to look at the objects from there on.\<close>

abbreviation from_block :: "hblk \<Rightarrow> obj set" where
  "from_block p \<equiv> {ob. p \<le> fst ob}"

lemma contents_used:
  assumes "contents st ob \<noteq> {}"
  obtains hh where "HDR st (fst ob) = Hdr hh" "\<not> HBLK_IS_FREE hh"
  using assms by (auto simp: contents_def split: if_splits elim: is_usedE)

text \<open>A search for blocks with the property \<open>P\<close>, where only objects in such blocks are of interest.\<close>

lemma find_block_step:
  assumes base: "scan_base R S st" and cov: "GC_mark_state st \<noteq> MS_INVALID \<Longrightarrow> covered st Q (U \<inter> from_block p)"
    and U: "\<And>ob hh. ob \<in> U \<Longrightarrow> ob \<in> marked st \<Longrightarrow> contents st ob \<noteq> {} \<Longrightarrow> HDR st (fst ob) = Hdr hh \<Longrightarrow> P (fst ob) hh"
    and room: "length (GC_mark_stack st) + 512 \<le> GC_mark_stack_size st"
    and f: "f = (case find_block P st p of None \<Rightarrow> None | Some h' \<Rightarrow> (if h' = 0 then Some (0, st) else push_and_next h' st))"
  obtains "f = Some (0, st)" "scan_inv R S Q {} st"
  | h st' where "f = Some (h, st')" "h \<noteq> 0" "p < h" "h < 2 ^ 20" "scan_inv R S Q (U \<inter> from_block h) st'" "marks st st'"
      "st' = st \<or> GC_objects_are_marked st'"
proof -
  note b = scan_baseD [OF base]
  obtain r where r: "find_block P st p = Some r" "first_block P st p r"
    using find_block_first [OF b(1,2), of P p] by blast
  have P: "used_block P st (fst ob)" if "ob \<in> U" "ob \<in> marked st" "contents st ob \<noteq> {}" for ob
    using contents_used [OF that(3)] U [OF that] unfolding used_block_def by metis
  show thesis
  proof (cases "r = 0")
    case True
    have "contents st ob = {}" if "ob \<in> marked st" "ob \<in> U" "p \<le> fst ob" for ob
      using P [of ob] r(2) True that by (auto simp: first_block_def)
    then have "w \<in> Q \<union> \<Union> (contents st ` (marked st - U \<inter> from_block p))" if "w \<in> Q \<union> \<Union> (contents st ` (marked st - {}))" for w
      using that by blast
    then have "covered st Q {}" if "GC_mark_state st \<noteq> MS_INVALID" using cov [OF that] unfolding covered_def by blast
    then have "scan_inv R S Q {} st" using base by (auto simp: scan_inv_def)
    then show ?thesis using that(1) r(1) True f by simp
  next
    case False
    then have first: "p \<le> r" "used_block P st r" "\<And>b. p \<le> b \<Longrightarrow> b < r \<Longrightarrow> \<not> used_block P st b"
      using r(2) by (simp_all add: first_block_def)
    obtain hh where hh: "HDR st r = Hdr hh" "\<not> HBLK_IS_FREE hh" using first(2) by (auto simp: used_block_def)
    let ?n = "r + blocks_of hh"
    have "block_scanned st r (U \<inter> from_block p) (U \<inter> from_block ?n)"
      unfolding block_scanned_def
    proof (intro ballI impI)
      fix ob assume ob: "ob \<in> marked st \<inter> (U \<inter> from_block p) - U \<inter> from_block ?n" "contents st ob \<noteq> {}"
      have u: "used_block P st (fst ob)" using P [of ob] ob by blast
      then obtain g where g: "HDR st (fst ob) = Hdr g" by (auto simp: used_block_def)
      have "\<not> fst ob < r" using first(3) [of "fst ob"] u ob(1) by auto
      moreover have "\<not> r < fst ob" using layout_disjoint [OF layout_marker [OF b(1)] hh(1) g] ob(1) by auto
      ultimately show "fst ob = r" by simp
    qed
    from push_and_next_step [OF base cov hh this room]
    obtain st' where st': "push_and_next r st = Some (?n, st')" "scan_inv R S Q (U \<inter> from_block ?n) st'" "marks st st'"
        "st' = st \<or> GC_objects_are_marked st'" by blast
    have "0 < blocks_of hh" by (rule layout_blocks_pos [OF layout_marker [OF b(1)] hh(1)])
    then show ?thesis
      using that(2) [of ?n st'] st' r(1) False f first(1) phase_heapD(5) [OF b(2) hh] by simp
  qed
qed

lemma GC_push_next_marked_find: "GC_push_next_marked h st =
  (case find_block (\<lambda>_ _. True) st h of None \<Rightarrow> None | Some h' \<Rightarrow> (if h' = 0 then Some (0, st) else push_and_next h' st))"
  by (subst find_block.simps) (simp add: GC_push_next_marked_def split: option.splits)

end
