(* ===== verification/Mark_Roots.thy ===== *)
theory Mark_Roots
  imports Mark_Blocks
begin

text \<open>
  Pushing the roots. Every part of \<open>GC_push_roots\<close> adds words to those whose pointers are covered, or marks
  objects, and the parts compose.
\<close>

section \<open>Root operations\<close>

text \<open>
  The operation \<open>f\<close> needs room for \<open>n\<close> entries on the mark stack, covers the words \<open>W\<close> and marks the objects
  \<open>Ob\<close>. If \<open>exact\<close>, it uses no more room than that.
\<close>

definition root_op ::
    "'a gc_marker_scheme \<Rightarrow> nat set \<Rightarrow> obj set \<Rightarrow> bool \<Rightarrow> nat \<Rightarrow> nat set \<Rightarrow> obj set
      \<Rightarrow> ('a gc_marker_scheme \<Rightarrow> 'a gc_marker_scheme option) \<Rightarrow> bool" where
  "root_op st0 R S exact n W Ob f \<longleftrightarrow>
     (\<forall>Q st. same_objs st0 st \<and> scan_inv R S Q {} st \<and> length (GC_mark_stack st) + n \<le> GC_mark_stack_size st \<longrightarrow>
        (\<exists>st'. f st = Some st' \<and> scan_inv R S (Q \<union> W) {} st' \<and> marks st st' \<and> Ob \<subseteq> marked st'
           \<and> (exact \<longrightarrow> length (GC_mark_stack st') \<le> length (GC_mark_stack st) + n)))"

lemma root_opI:
  assumes "\<And>Q st. same_objs st0 st \<Longrightarrow> scan_inv R S Q {} st \<Longrightarrow> length (GC_mark_stack st) + n \<le> GC_mark_stack_size st \<Longrightarrow>
    \<exists>st'. f st = Some st' \<and> scan_inv R S (Q \<union> W) {} st' \<and> marks st st' \<and> Ob \<subseteq> marked st'
           \<and> (exact \<longrightarrow> length (GC_mark_stack st') \<le> length (GC_mark_stack st) + n)"
  shows "root_op st0 R S exact n W Ob f"
  using assms by (simp add: root_op_def)

lemma root_opE:
  assumes "root_op st0 R S exact n W Ob f" "same_objs st0 st" "scan_inv R S Q {} st" "length (GC_mark_stack st) + n \<le> GC_mark_stack_size st"
  obtains st' where "f st = Some st'" "scan_inv R S (Q \<union> W) {} st'" "marks st st'" "Ob \<subseteq> marked st'"
    "exact \<Longrightarrow> length (GC_mark_stack st') \<le> length (GC_mark_stack st) + n"
  using assms unfolding root_op_def by blast

lemma root_op_Some: "root_op st0 R S exact 0 {} {} Some"
  by (rule root_opI) simp

lemma root_op_bind:
  assumes f: "root_op st0 R S e1 n W Ob f" and g: "root_op st0 R S e2 m V Ob' g" and e: "e1 \<or> m = 0"
  shows "root_op st0 R S (e1 \<and> e2) (n + m) (W \<union> V) (Ob \<union> Ob') (\<lambda>st. Option.bind (f st) g)"
proof (rule root_opI)
  fix Q st assume st: "same_objs st0 st" "scan_inv R S Q {} st" "length (GC_mark_stack st) + (n + m) \<le> GC_mark_stack_size st"
  obtain st1 where s1: "f st = Some st1" "scan_inv R S (Q \<union> W) {} st1" "marks st st1" "Ob \<subseteq> marked st1"
      "e1 \<Longrightarrow> length (GC_mark_stack st1) \<le> length (GC_mark_stack st) + n"
    by (rule root_opE [OF f st(1,2)]) (use st(3) that in auto)
  have sh: "same_shape st st1" using s1(3) by (simp add: marks_def)
  have "length (GC_mark_stack st1) \<le> GC_mark_stack_size st1" using s1(2) scan_baseD(4) by (auto simp: scan_inv_def)
  then have room: "length (GC_mark_stack st1) + m \<le> GC_mark_stack_size st1"
    using s1(5) st(3) e sh by (cases "m = 0") (auto simp: same_shape_def)
  obtain st2 where s2: "g st1 = Some st2" "scan_inv R S (Q \<union> W \<union> V) {} st2" "marks st1 st2" "Ob' \<subseteq> marked st2"
      "e2 \<Longrightarrow> length (GC_mark_stack st2) \<le> length (GC_mark_stack st1) + m"
    by (rule root_opE [OF g same_objs_trans [OF st(1) same_shape_objs [OF sh]] s1(2) room]) (rule that; assumption)
  have "Ob \<union> Ob' \<subseteq> marked st2" using s1(4) s2(3,4) by (auto simp: marks_def)
  then show "\<exists>st'. Option.bind (f st) g = Some st' \<and> scan_inv R S (Q \<union> (W \<union> V)) {} st' \<and> marks st st' \<and> Ob \<union> Ob' \<subseteq> marked st'
      \<and> (e1 \<and> e2 \<longrightarrow> length (GC_mark_stack st') \<le> length (GC_mark_stack st) + (n + m))"
    using s1 s2 marks_trans [OF s1(3) s2(3)] by (intro exI [of _ st2]) (auto simp: Un_assoc)
qed

lemma root_op_each:
  assumes "\<And>x. x \<in> set xs \<Longrightarrow> root_op st0 R S True (n x) (W x) (Ob x) (f x)"
  shows "root_op st0 R S True (sum_list (map n xs)) (\<Union> (W ` set xs)) (\<Union> (Ob ` set xs)) (each f xs)"
  using assms
proof (induction xs)
  case Nil
  have "each f [] = Some" by (rule ext) simp
  then show ?case using root_op_Some by simp
next
  case (Cons x xs)
  have "each f (x # xs) = (\<lambda>st. Option.bind (f x st) (each f xs))" by (rule ext) simp
  then show ?case using root_op_bind [OF Cons.prems [of x] Cons.IH] Cons.prems by simp
qed

lemma root_op_False: "root_op st0 R S True n W Ob f \<Longrightarrow> root_op st0 R S False n W Ob f"
  unfolding root_op_def by blast

section \<open>Ranges\<close>

definition aligned :: "addr \<Rightarrow> bool" where
  "aligned a \<longleftrightarrow> a mod 4 = 0 \<and> a < 2 ^ 32"

lemma aligned_round [simp]: "aligned a \<Longrightarrow> round_up4 a = a" "aligned a \<Longrightarrow> round_down4 a = a"
proof -
  assume a: "aligned a"
  then have "(a + 3) mod 4 = 3" "a + 3 < 2 ^ 32" by (simp_all add: aligned_def) presburger+
  then show "round_up4 a = a" by (simp add: round_up4_def word32_def)
  show "round_down4 a = a" using a by (simp add: round_down4_def aligned_def)
qed

abbreviation range_words :: "addr \<Rightarrow> addr \<Rightarrow> nat set" where
  "range_words b t \<equiv> {b div 4 ..< t div 4}"

lemma push_all_op:
  assumes a: "aligned b" "aligned t" "b \<le> t" and R: "range_words b t \<subseteq> R"
  shows "root_op st0 R S True 1 (range_words b t) {} (GC_push_all b t)"
proof (rule root_opI)
  fix Q st assume st: "same_objs st0 st" "scan_inv R S Q {} st" "length (GC_mark_stack st) + 1 \<le> GC_mark_stack_size st"
  show "\<exists>st'. GC_push_all b t st = Some st' \<and> scan_inv R S (Q \<union> range_words b t) {} st' \<and> marks st st' \<and> {} \<subseteq> marked st'
      \<and> (True \<longrightarrow> length (GC_mark_stack st') \<le> length (GC_mark_stack st) + 1)"
  proof (cases "b = t")
    case True
    then show ?thesis using a st(2) by (intro exI [of _ st]) (simp add: GC_push_all_def)
  next
    case False
    let ?e = "\<lparr> mse_start = b, mse_descr = t - b \<rparr>"
    let ?st = "st\<lparr> GC_mark_stack := [?e] @ GC_mark_stack st \<rparr>"
    have d: "(t - b) mod 4 = 0" "t - b < 2 ^ 32" "t - b \<noteq> 0" "b mod 4 = 0" "t \<noteq> 0"
      using a False by (auto simp: aligned_def mod_eq_0_iff_dvd dvd_diff_nat)
    have w: "entry_words ?e = range_words b t" using d a(3) by (simp add: entry_words_def GC_DS_LENGTH_def)
    have run: "GC_push_all b t st = Some ?st"
      using a False st(3) d(5) by (simp add: GC_push_all_def wsub_id aligned_def)
    have base: "scan_base R S st" using st(2) by (simp add: scan_inv_def)
    have e: "entry_ok e \<and> entry_words e \<subseteq> R \<union> \<Union> (contents st ` S)" if "e \<in> set [?e]" for e
      using that d w R by (auto simp: entry_ok_def simple_descr_def GC_DS_LENGTH_def)
    have c: "q \<in> marked st \<or> w \<in> stack_words [?e] \<union> stack_words (GC_mark_stack st)"
      if "GC_mark_state st \<noteq> MS_INVALID" "w \<in> (Q \<union> range_words b t) \<union> \<Union> (contents st ` (marked st - {}))" "pointee st w = Some q" for w q
    proof (cases "w \<in> range_words b t")
      case True
      then show ?thesis using w by (simp add: stack_words_def)
    next
      case False
      then show ?thesis using that st(2) unfolding scan_inv_def covered_def by blast
    qed
    have "length [?e] + length (GC_mark_stack st) \<le> GC_mark_stack_size st" using st(3) by simp
    note step = entries_step [OF base e this, of "Q \<union> range_words b t" "{}"]
    have "scan_inv R S (Q \<union> range_words b t) {} ?st" "marks st ?st" by (rule step; use c in blast)+
    then show ?thesis using run by simp
  qed
qed

section \<open>Static roots\<close>

text \<open>Roots and exclusions are aligned, and there is at least one exclusion (the tables of the collector itself).\<close>

definition root_tables_ok :: "root_tables \<Rightarrow> bool" where
  "root_tables_ok rt \<longleftrightarrow> excl_ok (GC_excl_table rt) \<and> GC_excl_table rt \<noteq> []
     \<and> (\<forall>x \<in> set (GC_excl_table rt). aligned (e_start x) \<and> aligned (e_end x))
     \<and> (\<forall>i < n_root_sets rt. aligned (r_start (GC_static_roots rt i)) \<and> aligned (r_end (GC_static_roots rt i)))"

definition static_ranges :: "root_tables \<Rightarrow> nat \<Rightarrow> (addr \<times> addr) list" where
  "static_ranges rt i = the (pushed_ranges (GC_excl_table rt) (r_start (GC_static_roots rt i)) (r_end (GC_static_roots rt i)))"

definition static_words :: "root_tables \<Rightarrow> nat set" where
  "static_words rt = {w. 4 * w \<in> root_addrs rt - excluded (GC_excl_table rt)}"

lemma pushed_ranges_aligned:
  assumes "\<forall>x \<in> set tbl. aligned (e_start x) \<and> aligned (e_end x)" "tbl \<noteq> []" "excl_ok tbl"
  shows "pushed_ranges tbl b t = Some rs \<Longrightarrow> aligned b \<Longrightarrow> aligned t \<Longrightarrow> r \<in> set rs \<Longrightarrow> aligned (fst r) \<and> aligned (snd r)"
  using assms
proof (induction tbl b t arbitrary: rs rule: pushed_ranges.induct)
  case (1 tbl b t)
  note run = GC_next_exclusion_next_excl [OF "1.prems"(6), of b]
  show ?case
  proof (cases "b < t")
    case False
    then show ?thesis using "1.prems" by (simp add: pushed_ranges.simps [of tbl b t])
  next
    case bt: True
    show ?thesis
    proof (cases "next_excl tbl b")
      case None
      then show ?thesis using "1.prems"(1-4) bt run by (auto simp: pushed_ranges.simps [of tbl b t])
    next
      case (Some i)
      have "i < length tbl" using gc_excl.search_Some [OF "1.prems"(7) Some] by simp
      then have x: "aligned (e_start (tbl ! i))" "aligned (e_end (tbl ! i))" using "1.prems"(5) by auto
      show ?thesis
      proof (cases "e_start (tbl ! i) \<ge> t")
        case True
        then show ?thesis using "1.prems"(1-4) bt run Some by (auto simp: pushed_ranges.simps [of tbl b t])
      next
        case False
        then obtain rs' where rs': "pushed_ranges tbl (e_end (tbl ! i)) t = Some rs'" "rs = (if e_start (tbl ! i) > b then [(b, e_start (tbl ! i))] else []) @ rs'"
          using "1.prems"(1) bt run Some by (auto simp: pushed_ranges.simps [of tbl b t])
        have "GC_next_exclusion tbl b = Some (Some i)" using run Some by simp
        note IH = "1.IH" [OF bt this refl False rs'(1) x(2) "1.prems"(3)]
        show ?thesis using IH "1.prems"(2,4-7) x(1) rs'(2) by (auto split: if_splits)
      qed
    qed
  qed
qed

lemma aligned_range_words:
  assumes "aligned b" "aligned t"
  shows "w \<in> range_words b t \<longleftrightarrow> 4 * w \<in> {b ..< t}"
proof -
  obtain i j where "b = 4 * i" "t = 4 * j" using assms by (auto simp: aligned_def mod_eq_0_iff_dvd elim!: dvdE)
  then show ?thesis by simp
qed

lemma static_ranges_ok:
  assumes ok: "root_tables_ok rt" and i: "i < n_root_sets rt"
  shows "pushed_ranges (GC_excl_table rt) (r_start (GC_static_roots rt i)) (r_end (GC_static_roots rt i)) = Some (static_ranges rt i)"
    "\<And>r. r \<in> set (static_ranges rt i) \<Longrightarrow> aligned (fst r) \<and> aligned (snd r) \<and> fst r \<le> snd r"
    "(\<Union>r \<in> set (static_ranges rt i). range_words (fst r) (snd r)) =
       {w. 4 * w \<in> {r_start (GC_static_roots rt i) ..< r_end (GC_static_roots rt i)} - excluded (GC_excl_table rt)}"
proof -
  let ?t = "GC_excl_table rt" and ?b = "r_start (GC_static_roots rt i)" and ?e = "r_end (GC_static_roots rt i)"
  have t: "excl_ok ?t" "?t \<noteq> []" "\<forall>x \<in> set ?t. aligned (e_start x) \<and> aligned (e_end x)" "aligned ?b" "aligned ?e"
    using ok i by (simp_all add: root_tables_ok_def)
  obtain rs where rs: "pushed_ranges ?t ?b ?e = Some rs" "range_union rs = {?b ..< ?e} - excluded ?t"
      "\<forall>(b, e) \<in> set rs. ?b \<le> b \<and> b < e \<and> e \<le> ?e"
    using pushed_ranges_spec [OF t(1,2)] by blast
  have sr: "static_ranges rt i = rs" by (simp add: static_ranges_def rs(1))
  show "pushed_ranges ?t ?b ?e = Some (static_ranges rt i)" using rs(1) sr by simp
  have al: "aligned (fst r) \<and> aligned (snd r)" if "r \<in> set rs" for r
    by (rule pushed_ranges_aligned [OF t(3,2,1) rs(1) t(4,5) that])
  then show "aligned (fst r) \<and> aligned (snd r) \<and> fst r \<le> snd r" if "r \<in> set (static_ranges rt i)" for r
    using that rs(3) unfolding sr by fastforce
  have "w \<in> (\<Union>r \<in> set rs. range_words (fst r) (snd r)) \<longleftrightarrow> 4 * w \<in> range_union rs" for w
  proof -
    have "w \<in> range_words (fst r) (snd r) \<longleftrightarrow> 4 * w \<in> {fst r ..< snd r}" if "r \<in> set rs" for r
      using al [OF that] by (intro aligned_range_words) simp_all
    then have "(\<exists>r \<in> set rs. w \<in> range_words (fst r) (snd r)) \<longleftrightarrow> (\<exists>r \<in> set rs. 4 * w \<in> {fst r ..< snd r})" by blast
    then show ?thesis by (simp add: range_union_def split_beta)
  qed
  then show "(\<Union>r \<in> set (static_ranges rt i). range_words (fst r) (snd r)) = {w. 4 * w \<in> {?b ..< ?e} - excluded ?t}"
    unfolding sr rs(2) by blast
qed

lemma static_roots_op:
  fixes st0 :: "'a gc_marker_scheme"
  assumes ok: "root_tables_ok (re_roots env)" and R: "static_words (re_roots env) \<subseteq> R"
  shows "root_op st0 R S True (\<Sum>i \<leftarrow> [0 ..< n_root_sets (re_roots env)]. length (static_ranges (re_roots env) i))
    (static_words (re_roots env)) {} (push_static_roots True env)"
proof -
  let ?rt = "re_roots env"
  let ?f = "\<lambda>i. GC_push_conditional_with_exclusions (GC_excl_table ?rt) (GC_page_was_dirty env) True
    (r_start (GC_static_roots ?rt i)) (r_end (GC_static_roots ?rt i)) :: 'a gc_marker_scheme \<Rightarrow> 'a gc_marker_scheme option"
  let ?W = "\<lambda>i. {w. 4 * w \<in> {r_start (GC_static_roots ?rt i) ..< r_end (GC_static_roots ?rt i)} - excluded (GC_excl_table ?rt)}"
  have words: "static_words ?rt = \<Union> (?W ` set [0 ..< n_root_sets ?rt])"
    by (auto simp: static_words_def root_addrs_def root_list_def entry_at_def)
  have one: "root_op st0 R S True (length (static_ranges ?rt i)) (?W i) {} (?f i)" if "i \<in> set [0 ..< n_root_sets ?rt]" for i
  proof -
    have i: "i < n_root_sets ?rt" using that by simp
    note sr = static_ranges_ok [OF ok i]
    have W: "?W i \<subseteq> R" using R that unfolding words by blast
    have "root_op st0 R S True 1 (range_words (fst r) (snd r)) {} (GC_push_conditional (GC_page_was_dirty env) True r)"
      if r: "r \<in> set (static_ranges ?rt i)" for r
    proof -
      have "range_words (fst r) (snd r) \<subseteq> R" using sr(3) W r by blast
      moreover have "GC_push_conditional (GC_page_was_dirty env) True r = (GC_push_all (fst r) (snd r) :: 'a gc_marker_scheme \<Rightarrow> _)"
        by (rule ext) (simp add: GC_push_conditional_def)
      ultimately show ?thesis using push_all_op sr(2) [OF r] by metis
    qed
    from root_op_each [of "static_ranges ?rt i" st0 R S "\<lambda>_. 1" "\<lambda>r. range_words (fst r) (snd r)" "\<lambda>_. {}", OF this]
    have "root_op st0 R S True (length (static_ranges ?rt i)) (?W i) {} (each (GC_push_conditional (GC_page_was_dirty env) True) (static_ranges ?rt i))"
      unfolding sr(3) by (simp add: sum_list_triv)
    moreover have "?f i = each (GC_push_conditional (GC_page_was_dirty env) True) (static_ranges ?rt i)"
      by (rule ext) (simp add: GC_push_conditional_with_exclusions_def sr(1))
    ultimately show ?thesis by simp
  qed
  from root_op_each [of "[0 ..< n_root_sets ?rt]" st0 R S "\<lambda>i. length (static_ranges ?rt i)" ?W "\<lambda>_. {}" ?f, OF one] show ?thesis unfolding words push_static_roots_def Let_def by simp
qed

section \<open>Free list headers\<close>

text \<open>
  The array of free lists of a kind is outside of the heap, or it is an object without pointers.
\<close>

definition freelist_obj :: "addr \<Rightarrow> obj" where
  "freelist_obj fl = (HBLKPTR fl, MARK_BIT_NO (fl - hblk_addr (HBLKPTR fl)))"

definition freelist_ok :: "'a gc_marker_scheme \<Rightarrow> addr \<Rightarrow> bool" where
  "freelist_ok st fl \<longleftrightarrow>
     (case HDR st (HBLKPTR fl) of
        Fwd k \<Rightarrow> k = 0
      | Hdr hh \<Rightarrow> \<not> HBLK_IS_FREE hh \<and> hb_descr hh = 0 \<and> fl mod GRANULE_BYTES = 0 \<and> fl < 2 ^ 32
          \<and> object_bit (hb_sz hh) (snd (freelist_obj fl)))"

definition freelist_objs :: "'a gc_marker_scheme \<Rightarrow> addr list \<Rightarrow> obj set" where
  "freelist_objs st fls = freelist_obj ` {fl \<in> set fls. HDR st (HBLKPTR fl) \<noteq> Fwd 0}"

lemma upd_hdr_id: "HDR st h = Hdr hh \<Longrightarrow> f hh = hh \<Longrightarrow> upd_hdr h f st = st"
  by (auto simp: upd_hdr_def SET_HDR_def GC_find_header_def fun_upd_idem split: option.splits)

lemma base_in_block_object:
  assumes o: "object_hdr st h hh" "\<not> HBLK_IS_FREE hh" and p: "p = hblk_addr h + n * 8" "object_bit (hb_sz hh) n"
  shows "base_in_block p p h hh = p"
proof -
  let ?sz = "hb_sz hh"
  define g where "g = ?sz div 8"
  have sz: "?sz = 8 * g" "0 < g" using o by (auto simp: object_hdr_def g_def GRANULE_BYTES_def)
  have r: "round_down4 p = p" "p mod HBLKSIZE = n * 8 mod 4096" using p(1) by (auto simp: round_down4_def hblk_addr_def HBLKSIZE_def mod_eq_0_iff_dvd)
  show ?thesis
  proof (cases "?sz > MAXOBJBYTES")
    case True
    then have "n = 0" using p(2) by (simp add: object_bit_def)
    then show ?thesis using r sz o(2) p(1) by (auto simp: base_in_block_def Let_def hblk_addr_def HBLKSIZE_def)
  next
    case False
    have "FINAL_MARK_BIT ?sz = g * (512 div g)"
      using False sz by (simp add: FINAL_MARK_BIT_def BYTES_TO_GRANULES_def HBLK_OBJS_def HBLKSIZE_def mult.assoc)
    then have n: "n < g * (512 div g)" "g dvd n"
      using p(2) False by (simp_all add: object_bit_def BYTES_TO_GRANULES_def g_def mod_eq_0_iff_dvd)
    then obtain k where k: "n = g * k" by (elim dvdE)
    then have "k < 512 div g" using n(1) by simp
    then have "g * Suc k \<le> g * (512 div g)" by (intro mult_le_mono2) simp
    also have "\<dots> \<le> 512" by simp
    finally have lim: "n + g \<le> 512" by (simp add: k algebra_simps)
    then have m: "n * 8 mod 4096 = n * 8" using sz(2) by simp
    have "n * 8 mod ?sz = 0" by (simp add: k sz(1) mod_eq_0_iff_dvd mult.commute)
    moreover have "p + ?sz \<le> hblk_addr (h + 1)" using lim sz(1) p(1) by (simp add: hblk_addr_def HBLKSIZE_def)
    ultimately show ?thesis using r m o(2) sz by (simp add: base_in_block_def Let_def)
  qed
qed

text \<open>Marking an object without contents.\<close>

lemma mark_inv_leaf:
  assumes inv: "mark_inv st Q R S D (M, stk, ms)" and ms: "ms = GC_mark_state st" and ob: "ob \<in> S" "ob \<in> all_objs" "contents st ob = {}"
  shows "mark_inv st Q R S D (insert ob M, stk, ms)"
proof -
  note i = mark_invD [OF inv]
  have "\<Union> (contents st ` (insert ob M - D)) \<subseteq> \<Union> (contents st ` (M - D))" using ob(3) by auto
  then have "ms = MS_INVALID \<or> (\<forall>w \<in> Q \<union> \<Union> (contents st ` (insert ob M - D)). \<forall>q. pointee st w = Some q \<longrightarrow>
      q \<in> insert ob M \<or> (\<exists>e \<in> set stk. w \<in> entry_words e))"
    using i(4) by blast
  moreover have "marked st \<subseteq> insert ob M" "insert ob M \<subseteq> S" "insert ob M - marked st \<subseteq> all_objs"
    using i(1,2,8) ob(1,2) by auto
  ultimately show ?thesis unfolding mark_inv_def prod.case using i(3,6) ms by (intro conjI impI ballI) simp_all
qed

lemma freelist_op:
  fixes st0 :: "'a gc_marker_scheme"
  assumes ok: "freelist_ok st0 fl" and S: "freelist_objs st0 [fl] \<subseteq> S"
  shows "root_op st0 R S True 0 {} (freelist_objs st0 [fl]) (mark_free_list_header fl)"
proof (rule root_opI)
  fix Q and st :: "'a gc_marker_scheme"
  assume st: "same_objs st0 st" "scan_inv R S Q {} st" "length (GC_mark_stack st) + 0 \<le> GC_mark_stack_size st"
  let ?goal = "\<exists>st'. mark_free_list_header fl st = Some st' \<and> scan_inv R S (Q \<union> {}) {} st' \<and> marks st st' \<and> freelist_objs st0 [fl] \<subseteq> marked st'
      \<and> (True \<longrightarrow> length (GC_mark_stack st') \<le> length (GC_mark_stack st) + 0)"
  have base: "scan_base R S st" using st(2) by (simp add: scan_inv_def)
  note b = scan_baseD [OF base]
  show ?goal
  proof (cases "HDR st0 (HBLKPTR fl)")
    case (Fwd k)
    then have "HDR st0 (HBLKPTR fl) = Fwd 0" using ok by (simp add: freelist_ok_def)
    moreover from this have "HDR st (HBLKPTR fl) = Fwd 0" using same_objs_HDR(1) [OF st(1)] by simp
    ultimately show ?thesis using st(2) by (intro exI [of _ st]) (auto simp: mark_free_list_header_def GC_base_def freelist_objs_def)
  next
    case (Hdr hh0)
    let ?h = "HBLKPTR fl"
    define n where "n = MARK_BIT_NO (fl - hblk_addr ?h)"
    have ob: "freelist_objs st0 [fl] = {(?h, n)}" using Hdr by (auto simp: freelist_objs_def freelist_obj_def n_def)
    obtain hh where hh: "HDR st ?h = Hdr hh" "hb_sz hh = hb_sz hh0" "hb_descr hh = hb_descr hh0" "HBLK_IS_FREE hh = HBLK_IS_FREE hh0"
      using same_objs_hdr [OF st(1) Hdr] by metis
    have f: "\<not> HBLK_IS_FREE hh" "hb_descr hh = 0" "fl mod 8 = 0" "object_bit (hb_sz hh) n" "fl < 2 ^ 32"
      using ok Hdr hh(2-4) by (simp_all add: freelist_ok_def freelist_obj_def n_def GRANULE_BYTES_def)
    note o = marker_okD(6) [OF b(1) hh(1) f(1)]
    have "fl - hblk_addr ?h = fl mod 4096" by (simp add: hblk_addr_def HBLKPTR_def HBLKSIZE_def minus_div_mult_eq_mod)
    moreover have "fl mod 4096 mod 8 = 0" using f(3) by (simp add: mod_mod_cancel)
    ultimately have "fl - hblk_addr ?h = n * 8" by (auto simp: n_def MARK_BIT_NO_def BYTES_TO_GRANULES_def)
    moreover have "hblk_addr ?h \<le> fl" by (simp add: hblk_addr_def HBLKPTR_def HBLKSIZE_def)
    ultimately have fl: "fl = hblk_addr ?h + n * 8" by simp
    have "?h \<noteq> 0" using hh(1) marker_okD(8) [OF b(1)] by (cases "?h = 0") auto
    then have "fl \<noteq> 0" by (cases "fl = 0") (simp_all add: HBLKPTR_def)
    then have run: "mark_free_list_header fl st = Some (GC_set_mark_bit fl st)"
      using hh(1) base_in_block_object [OF o f(1) fl f(4)] by (simp add: mark_free_list_header_def GC_base_def Let_def)
    show ?thesis
    proof (cases "mark_bit_from_hdr hh n")
      case True
      then have "GC_set_mark_bit fl st = st" unfolding GC_set_mark_bit_def Let_def n_def [symmetric] by (intro upd_hdr_id [OF hh(1)]) simp
      moreover have "(?h, n) \<in> marked st" using True hh(1) by (simp add: marked_def)
      ultimately show ?thesis using run st(2) ob by simp
    next
      case False
      let ?st = "upd_hdr ?h (\<lambda>hh. (set_mark_bit_from_hdr hh n)\<lparr> hb_n_marks := wadd (hb_n_marks hh) 1 \<rparr>) st"
      have set: "GC_set_mark_bit fl st = ?st"
        unfolding GC_set_mark_bit_def Let_def n_def [symmetric] using False hh(1) by (simp add: upd_hdr_def)
      note s = set_mark_ok [OF b(1) hh(1) f(1,4) False]
      have "n \<le> 512" using f(4) FINAL_MARK_BIT_le [of "hb_sz hh"] by (simp add: object_bit_def gc_consts)
      moreover have "?h < 2 ^ 20" using f(5) by (simp add: HBLKPTR_def HBLKSIZE_def)
      ultimately have all: "(?h, n) \<in> all_objs" by (simp add: all_objs_def)
      have c: "contents st (?h, n) = {}" using hh(1) f(2) by (auto simp: contents_def entry_of_def hdr_at_def entry_words_0)
      have "(?h, n) \<in> S" using S ob by simp
      from mark_inv_leaf [OF scan_inv_mark_inv [OF st(2)] refl this all c]
      have "mark_inv st Q R S {} (marked ?st, GC_mark_stack ?st, GC_mark_state ?st)" unfolding s(3) upd_hdr_marker .
      from scan_step [OF base s(1,2) this] show ?thesis using run set s(3) ob by simp
    qed
  qed
qed

section \<open>Stacks\<close>

text \<open>
  The object that a word of the stack leads to when it is marked from at once: every address inside of an object counts.
\<close>

definition stack_base :: "'a gc_marker_scheme \<Rightarrow> addr \<Rightarrow> addr option" where
  "stack_base st p = (case HDR st (HBLKPTR p) of Hdr _ \<Rightarrow> Some p | Fwd k \<Rightarrow> (if k = 0 then Some p else GC_base st p))"

definition stack_target :: "'a gc_marker_scheme \<Rightarrow> addr \<Rightarrow> obj option" where
  "stack_target st p =
     (case stack_base st p of
        None \<Rightarrow> None
      | Some r \<Rightarrow>
          (case HDR st (HBLKPTR r) of
             Fwd _ \<Rightarrow> None
           | Hdr hh \<Rightarrow>
               (if HBLK_IS_FREE hh then None
                else case object_start False st hh r of Some (Some (n, _)) \<Rightarrow> Some (HBLKPTR r, n) | _ \<Rightarrow> None)))"

definition stack_pointee :: "'a gc_marker_scheme \<Rightarrow> nat \<Rightarrow> obj option" where
  "stack_pointee st w = (if plausible st (mem_word st w) then stack_target st (mem_word st w) else None)"

lemma stack_base_objs:
  assumes "same_objs st st'" "layout_ok st"
  shows "stack_base st' p = stack_base st p"
proof (cases "HDR st (HBLKPTR p)")
  case (Hdr hh)
  then show ?thesis using same_objs_hdr [OF assms(1) Hdr] by (metis hdr_entry.simps(6) stack_base_def)
next
  case (Fwd k)
  then have F': "HDR st' (HBLKPTR p) = Fwd k" using same_objs_HDR(1) [OF assms(1)] by simp
  show ?thesis
  proof (cases "0 < k")
    case True
    obtain h hh hh' where f: "forward_to_start st (HBLKPTR p) k = Some (h, hh)" "forward_to_start st' (HBLKPTR p) k = Some (h, hh')"
        "\<not> HBLK_IS_FREE hh" "\<not> HBLK_IS_FREE hh'" "hb_sz hh' = hb_sz hh"
      using forward_objs [OF assms Fwd True] by metis
    then show ?thesis using Fwd F' by (simp add: stack_base_def GC_base_def base_in_block_def)
  qed (simp add: stack_base_def Fwd F')
qed

lemma stack_target_objs:
  assumes "same_objs st st'" "layout_ok st"
  shows "stack_target st' p = stack_target st p"
proof (cases "stack_base st p")
  case None
  then show ?thesis by (simp add: stack_target_def stack_base_objs [OF assms])
next
  case (Some r)
  show ?thesis
  proof (cases "HDR st (HBLKPTR r)")
    case (Fwd k)
    then have "HDR st' (HBLKPTR r) = Fwd k" using same_objs_HDR(1) [OF assms(1)] by simp
    then show ?thesis using Some Fwd by (simp add: stack_target_def stack_base_objs [OF assms])
  next
    case (Hdr hh)
    then obtain hh' where "HDR st' (HBLKPTR r) = Hdr hh'" "hb_map hh' = hb_map hh" "hb_large_block hh' = hb_large_block hh"
        "hb_block hh' = hb_block hh" "HBLK_IS_FREE hh' = HBLK_IS_FREE hh"
      using same_objs_hdr [OF assms(1)] by metis
    then show ?thesis using Some Hdr object_start_objs [OF assms(1)] by (simp add: stack_target_def stack_base_objs [OF assms])
  qed
qed

lemma stack_pointee_objs: "same_objs st st' \<Longrightarrow> layout_ok st \<Longrightarrow> stack_pointee st' w = stack_pointee st w"
  by (simp add: stack_pointee_def objs_simps stack_target_objs)

lemma pushed_black_stack:
  assumes "marker_ok st"
  shows "pushed st [] (GC_ADD_TO_BLACK_LIST_STACK p st)"
proof -
  let ?st = "GC_ADD_TO_BLACK_LIST_STACK p st"
  have M: "marked ?st = marked st" by (simp add: GC_ADD_TO_BLACK_LIST_STACK_def marked_def)
  have s: "same_shape st ?st" by (simp add: GC_ADD_TO_BLACK_LIST_STACK_def)
  have "marker_ok ?st"
    by (rule marker_ok_shape [OF assms s])
      (use marker_okD(1,4,7) [OF assms] M in \<open>auto simp: GC_ADD_TO_BLACK_LIST_STACK_def GC_add_to_black_list_stack_def bl_ok_def counts_ok_def Let_def\<close>)
  then show ?thesis using s M by (simp add: pushed_def view_in_def GC_ADD_TO_BLACK_LIST_STACK_def)
qed

lemma GC_mark_and_push_stack_ok:
  assumes ok: "marker_ok st"
  shows "\<exists>st'. GC_mark_and_push_stack v st = Some st' \<and> pushed st (obs_of (stack_target st v)) st'"
proof -
  note m = marker_okD [OF ok]
  let ?push = "\<lambda>r. case HDR st (HBLKPTR r) of
      Fwd k \<Rightarrow> (if k = 0 then Some (GC_ADD_TO_BLACK_LIST_STACK v st) else None)
    | Hdr hh \<Rightarrow>
        (if HBLK_IS_FREE hh then GC_ADD_TO_BLACK_LIST_NORMAL v st
         else case PUSH_CONTENTS_HDR r (GC_mark_stack_size st) (HBLKPTR r) False (GC_mark_stack st) st of
           None \<Rightarrow> None | Some (stack, st') \<Rightarrow> Some (st'\<lparr> GC_mark_stack := stack \<rparr>))"
  have push: "\<exists>st'. ?push r = Some st' \<and> pushed st (obs_of (stack_target st v)) st'"
    if r: "stack_base st v = Some r" "HDR st (HBLKPTR r) = Fwd 0 \<or> is_Hdr (HDR st (HBLKPTR r))" for r
  proof (cases "HDR st (HBLKPTR r)")
    case (Fwd k)
    then show ?thesis using r pushed_black_stack [OF ok] by (auto simp: stack_target_def is_Hdr_def)
  next
    case (Hdr hh)
    show ?thesis
    proof (cases "HBLK_IS_FREE hh")
      case True
      obtain st' where "GC_ADD_TO_BLACK_LIST_NORMAL v st = Some st'" "pushed st [] st'" by (rule pushed_black [OF ok])
      then show ?thesis using r(1) Hdr True by (simp add: stack_target_def)
    next
      case False
      have b: "HBLKPTR r \<le> r div HBLKSIZE" "r div HBLKSIZE < HBLKPTR r + blocks_of hh"
        using layout_blocks_pos [OF m(2) Hdr] by (simp_all add: HBLKPTR_def)
      obtain stack st' x where P: "PUSH_CONTENTS_HDR r (GC_mark_stack_size st) (HBLKPTR r) False (GC_mark_stack st) st = Some (stack, st')"
          "object_start False st hh r = Some x" "pushed st (case x of None \<Rightarrow> [] | Some (n, base) \<Rightarrow> [(HBLKPTR r, n)]) (st'\<lparr> GC_mark_stack := stack \<rparr>)"
        by (rule pushed_contents [OF ok Hdr False b])
      have "obs_of (stack_target st v) = (case x of None \<Rightarrow> [] | Some (n, base) \<Rightarrow> [(HBLKPTR r, n)])"
        using r(1) Hdr False P(2) by (auto simp: stack_target_def split: option.splits)
      then show ?thesis using P(1,3) Hdr False by simp
    qed
  qed
  show ?thesis
  proof (cases "HDR st (HBLKPTR v)")
    case (Hdr hh)
    then show ?thesis using push [of v] by (simp add: GC_mark_and_push_stack_def Let_def stack_base_def is_Hdr_def)
  next
    case (Fwd k)
    show ?thesis
    proof (cases "k = 0")
      case True
      then show ?thesis using Fwd push [of v] by (simp add: GC_mark_and_push_stack_def Let_def stack_base_def)
    next
      case False
      then obtain h hh where f: "HDR st h = Hdr hh" "GC_base st v = Some (if v \<ge> hblk_addr h + hb_sz hh then 0 else hblk_addr h)"
        using GC_base_forward [OF ok Fwd] by (metis gr0I)
      define r where "r = (if v \<ge> hblk_addr h + hb_sz hh then 0 else hblk_addr h)"
      have "HDR st (HBLKPTR r) = Fwd 0 \<or> is_Hdr (HDR st (HBLKPTR r))" using m(8) f(1) by (simp add: r_def HBLKPTR_def is_Hdr_def)
      moreover have "stack_base st v = Some r" using Fwd False f(2) by (simp add: stack_base_def r_def)
      moreover have "GC_mark_and_push_stack v st = ?push r"
        using Fwd False f(2) [folded r_def] by (simp add: GC_mark_and_push_stack_def Let_def)
      ultimately show ?thesis using push [of r] by simp
    qed
  qed
qed

lemma stack_target_proper:
  assumes ok: "marker_ok st" and t: "stack_target st v = Some ob" and v: "v < 2 ^ 32"
  shows "proper_obj st ob"
proof -
  obtain r hh n base where r: "stack_base st v = Some r" "HDR st (HBLKPTR r) = Hdr hh" "\<not> HBLK_IS_FREE hh"
      "object_start False st hh r = Some (Some (n, base))" "ob = (HBLKPTR r, n)"
    using t by (auto simp: stack_target_def split: option.splits hdr_entry.splits if_splits)
  have "r < 2 ^ 32"
  proof (cases "HDR st (HBLKPTR v)")
    case (Fwd k)
    show ?thesis
    proof (cases "k = 0")
      case False
      then obtain h where "h < HBLKPTR v" "r = 0 \<or> r = hblk_addr h"
        using GC_base_forward [OF ok Fwd] r(1) Fwd by (simp add: stack_base_def) metis
      then show ?thesis using v by (auto simp: hblk_addr_def HBLKPTR_def HBLKSIZE_def)
    qed (use r(1) Fwd v in \<open>simp add: stack_base_def\<close>)
  qed (use r(1) v in \<open>simp add: stack_base_def\<close>)
  then show ?thesis
    using start_proper [OF ok r(2,3) _ _ r(4)] layout_blocks_pos [OF layout_marker [OF ok] r(2)] r(5) by (simp add: HBLKPTR_def)
qed

definition stack_objs :: "'a gc_marker_scheme \<Rightarrow> nat set \<Rightarrow> obj set" where
  "stack_objs st W = {ob. \<exists>w \<in> W. stack_pointee st w = Some ob}"

lemma eager_op:
  fixes st0 :: "'a gc_marker_scheme"
  assumes a: "aligned b" "aligned t" "0 < t" and S: "stack_objs st0 (range_words b t) \<subseteq> S" and lay: "layout_ok st0"
  shows "root_op st0 R S False 0 {} (stack_objs st0 (range_words b t)) (GC_push_all_eager b t)"
proof (rule root_opI)
  fix Q and st :: "'a gc_marker_scheme"
  assume st: "same_objs st0 st" "scan_inv R S Q {} st" "length (GC_mark_stack st) + 0 \<le> GC_mark_stack_size st"
  have base: "scan_base R S st" using st(2) by (simp add: scan_inv_def)
  note b = scan_baseD [OF base]
  let ?ws = "[b div 4 ..< t div 4]" and ?g = "\<lambda>w. obs_of (stack_pointee st0 w)"
  have step: "\<exists>st'. GC_PUSH_ONE_STACK (mem_word st1 w) st1 = Some st' \<and> pushed st1 (?g w) st'"
    if "same_shape st st1" "marker_ok st1" for w and st1 :: "'a gc_marker_scheme"
  proof -
    have "stack_pointee st1 w = stack_pointee st0 w"
      by (rule stack_pointee_objs [OF same_objs_trans [OF st(1) same_shape_objs [OF that(1)]] lay])
    then show ?thesis
      using GC_mark_and_push_stack_ok [OF that(2), of "mem_word st1 w"] pushed_Nil [OF that(2)]
      by (auto simp: GC_PUSH_ONE_STACK_def stack_pointee_def split: if_splits)
  qed
  obtain st' where r: "each (\<lambda>w st. GC_PUSH_ONE_STACK (mem_word st w) st) ?ws st = Some st'" "pushed st (concat (map ?g ?ws)) st'"
    using each_pushed [of ?ws st "\<lambda>w st. GC_PUSH_ONE_STACK (mem_word st w) st" ?g, OF step b(1)] by blast
  have obs: "set (concat (map ?g ?ws)) = stack_objs st0 (range_words b t)"
    by (auto simp: stack_objs_def split: option.splits)
  have proper: "proper_obj st ob" if "ob \<in> set (concat (map ?g ?ws))" for ob
  proof -
    have "ob \<in> stack_objs st0 (range_words b t)" using that obs by blast
    then obtain w where "stack_pointee st0 w = Some ob" by (auto simp: stack_objs_def)
    then have "stack_target st (mem_word st w) = Some ob"
      using stack_pointee_objs [OF st(1) lay, of w] by (simp add: stack_pointee_def split: if_splits)
    moreover have "mem_word st w < 2 ^ 32" using unsigned_less [of "GC_mem st w"] by (simp add: mem_word_def)
    ultimately show ?thesis by (rule stack_target_proper [OF b(1)])
  qed
  have cov: "q \<in> marked st \<union> set (concat (map ?g ?ws)) \<or> w \<in> stack_words (GC_mark_stack st)"
    if "GC_mark_state st \<noteq> MS_INVALID" "w \<in> Q \<union> \<Union> (contents st ` (marked st - {}))" "pointee st w = Some q" for w q
    using that st(2) unfolding scan_inv_def covered_def by blast
  have inS: "set (concat (map ?g ?ws)) \<subseteq> S" unfolding obs by (rule S)
  have "scan_inv R S Q {} st'" "marks st st'" by (rule pushes_step [OF base r(2) inS]; use proper cov in blast)+
  moreover have "GC_push_all_eager b t st = Some st'" using a r(1) by (simp add: GC_push_all_eager_def)
  moreover have "stack_objs st0 (range_words b t) \<subseteq> marked st'" using pushedD(3) [OF r(2)] unfolding obs by blast
  ultimately show "\<exists>st'. GC_push_all_eager b t st = Some st' \<and> scan_inv R S (Q \<union> {}) {} st' \<and> marks st st' \<and> stack_objs st0 (range_words b t) \<subseteq> marked st'
      \<and> (False \<longrightarrow> length (GC_mark_stack st') \<le> length (GC_mark_stack st) + 0)"
    by simp
qed

section \<open>All roots\<close>

text \<open>The parts of a stack with its traced sections.\<close>

fun stack_ranges :: "addr \<Rightarrow> addr \<Rightarrow> (addr \<times> addr) list \<Rightarrow> (addr \<times> addr) list" where
  "stack_ranges lo hi [] = [(lo, hi)]"
| "stack_ranges lo hi ((sect, saved_stack_ptr) # sects) = (lo, sect) # stack_ranges saved_stack_ptr hi sects"

text \<open>
  The root words: those that are pushed to be searched like the heap, and those of the stack that
  are marked from at once. If interior pointers are recognised anyway, only the frames of the collector are
  treated in the second way.
\<close>

definition stack_words_pushed :: "'a gc_marker_scheme \<Rightarrow> root_env \<Rightarrow> nat set" where
  "stack_words_pushed st env =
     (if GC_all_interior_pointers st
      then range_words (if cold_gc_frame env = 0 then re_approx_sp env else cold_gc_frame env - 4) (GC_stackbottom env) else {})"

definition stack_words_eager :: "'a gc_marker_scheme \<Rightarrow> root_env \<Rightarrow> nat set" where
  "stack_words_eager st env =
     (if GC_all_interior_pointers st
      then (if cold_gc_frame env = 0 then {} else range_words (re_approx_sp env) (cold_gc_frame env))
      else (\<Union>(b, t) \<in> set (stack_ranges (re_approx_sp env) (GC_stackbottom env) (GC_traced_stack_sect env)). range_words b t))"

definition structure_words :: "root_env \<Rightarrow> nat set" where
  "structure_words env =
     (if GC_no_dls env \<or> roots_were_cleared (re_roots env) then (\<Union>(b, t) \<in> set (re_structures env). range_words b t) else {})"

definition root_words :: "'a gc_marker_scheme \<Rightarrow> root_env \<Rightarrow> nat set" where
  "root_words st env = static_words (re_roots env) \<union> structure_words env \<union> stack_words_pushed st env"

definition root_objs :: "'a gc_marker_scheme \<Rightarrow> root_env \<Rightarrow> obj set" where
  "root_objs st env = freelist_objs st (re_freelists env) \<union> stack_objs st (stack_words_eager st env)"

definition n_root_ranges :: "root_env \<Rightarrow> nat" where
  "n_root_ranges env = (\<Sum>i \<leftarrow> [0 ..< n_root_sets (re_roots env)]. length (static_ranges (re_roots env) i)) + length (re_structures env) + 1"

definition env_ok :: "'a gc_marker_scheme \<Rightarrow> root_env \<Rightarrow> bool" where
  "env_ok st env \<longleftrightarrow> root_tables_ok (re_roots env) \<and> (\<forall>fl \<in> set (re_freelists env). freelist_ok st fl)
     \<and> (\<forall>(b, t) \<in> set (re_structures env). aligned b \<and> aligned t \<and> b \<le> t)
     \<and> (\<forall>(b, t) \<in> set (stack_ranges (re_approx_sp env) (GC_stackbottom env) (GC_traced_stack_sect env)). aligned b \<and> aligned t \<and> b \<le> t \<and> 0 < t)
     \<and> (GC_all_interior_pointers st \<longrightarrow> GC_traced_stack_sect env = []
          \<and> (cold_gc_frame env \<noteq> 0 \<longrightarrow> aligned (cold_gc_frame env) \<and> cold_gc_frame env \<le> GC_stackbottom env))
     \<and> n_root_ranges env \<le> INITIAL_MARK_STACK_SIZE div 2"

lemma root_op_cong: "root_op st0 R S e n W Ob f \<Longrightarrow> (\<And>st. same_objs st0 st \<Longrightarrow> g st = f st) \<Longrightarrow> root_op st0 R S e n W Ob g"
  unfolding root_op_def by simp

lemma root_op_weaken: "root_op st0 R S e n W Ob f \<Longrightarrow> n \<le> m \<Longrightarrow> root_op st0 R S False m W Ob f"
  unfolding root_op_def by (blast intro: order_trans [OF add_left_mono])

lemma eager_sections_op:
  fixes st0 :: "'a gc_marker_scheme"
  assumes "layout_ok st0" "\<not> GC_all_interior_pointers st0"
  shows "\<forall>(b, t) \<in> set (stack_ranges lo hi sects). aligned b \<and> aligned t \<and> b \<le> t \<and> 0 < t \<Longrightarrow>
    stack_objs st0 (\<Union>(b, t) \<in> set (stack_ranges lo hi sects). range_words b t) \<subseteq> S \<Longrightarrow>
    root_op st0 R S False 0 {} (stack_objs st0 (\<Union>(b, t) \<in> set (stack_ranges lo hi sects). range_words b t))
      (GC_push_all_stack_part_eager_sections lo hi cold sects)"
proof (induction lo hi sects arbitrary: cold rule: stack_ranges.induct)
  case (1 lo hi)
  have "root_op st0 R S False 0 {} (stack_objs st0 (range_words lo hi)) (GC_push_all_eager lo hi)"
    using 1 assms(1) by (intro eager_op) simp_all
  then have "root_op st0 R S False 0 {} (stack_objs st0 (range_words lo hi)) (GC_push_all_stack_part_eager_sections lo hi cold [])"
    by (rule root_op_cong) (use assms(2) in \<open>simp add: GC_push_all_stack_partially_eager_def same_objs_def\<close>)
  then show ?case by (simp del: GC_push_all_stack_part_eager_sections.simps)
next
  case (2 lo hi sect saved sects)
  let ?rest = "\<Union>(b, t) \<in> set (stack_ranges saved hi sects). range_words b t"
  have un: "stack_objs st0 (range_words lo sect \<union> ?rest) = stack_objs st0 (range_words lo sect) \<union> stack_objs st0 ?rest"
    by (auto simp: stack_objs_def)
  have S: "stack_objs st0 (range_words lo sect) \<subseteq> S" "stack_objs st0 ?rest \<subseteq> S" using "2.prems"(2) un by auto
  have a: "root_op st0 R S False 0 {} (stack_objs st0 (range_words lo sect)) (GC_push_all_eager lo sect)"
    using "2.prems"(1) S(1) assms(1) by (intro eager_op) auto
  have b: "root_op st0 R S False 0 {} (stack_objs st0 ?rest) (GC_push_all_stack_part_eager_sections saved hi 0 sects)"
    using "2.IH" [of 0] "2.prems"(1) S(2) by simp
  have "root_op st0 R S False 0 {} (stack_objs st0 (range_words lo sect) \<union> stack_objs st0 ?rest)
      (\<lambda>st. Option.bind (GC_push_all_eager lo sect st) (GC_push_all_stack_part_eager_sections saved hi 0 sects))"
    using root_op_bind [OF a b] by simp
  then have "root_op st0 R S False 0 {} (stack_objs st0 (range_words lo sect) \<union> stack_objs st0 ?rest)
      (GC_push_all_stack_part_eager_sections lo hi cold ((sect, saved) # sects))"
    by (rule root_op_cong) (use assms(2) in \<open>simp add: GC_push_all_stack_partially_eager_def same_objs_def\<close>)
  then show ?case by (simp add: un del: GC_push_all_stack_part_eager_sections.simps)
qed

lemma current_stack_op:
  fixes st0 :: "'a gc_marker_scheme"
  assumes lay: "layout_ok st0" and env: "env_ok st0 env" and R: "stack_words_pushed st0 env \<subseteq> R"
    and S: "stack_objs st0 (stack_words_eager st0 env) \<subseteq> S"
  shows "root_op st0 R S False 1 (stack_words_pushed st0 env) (stack_objs st0 (stack_words_eager st0 env)) (GC_push_current_stack env)"
proof (cases "GC_all_interior_pointers st0")
  case False
  then have "root_op st0 R S False 0 {} (stack_objs st0 (stack_words_eager st0 env)) (GC_push_current_stack env)"
    using eager_sections_op [OF lay False, of "re_approx_sp env" "GC_stackbottom env" "GC_traced_stack_sect env"] env S
    by (simp add: GC_push_current_stack_def stack_words_eager_def env_ok_def)
  then show ?thesis using False by (simp add: stack_words_pushed_def root_op_weaken)
next
  case True
  let ?sp = "re_approx_sp env" and ?bt = "GC_stackbottom env" and ?c = "cold_gc_frame env"
  have e: "GC_traced_stack_sect env = []" "aligned ?sp" "aligned ?bt" "?sp \<le> ?bt" "?c \<noteq> 0 \<Longrightarrow> aligned ?c \<and> ?c \<le> ?bt"
    using env True by (auto simp: env_ok_def)
  have i: "GC_all_interior_pointers st" if "same_objs st0 st" for st :: "'a gc_marker_scheme" using that True by (simp add: same_objs_def)
  show ?thesis
  proof (cases "?c = 0")
    case c: True
    have "root_op st0 R S False 1 (range_words ?sp ?bt) {} (GC_push_all ?sp ?bt)"
      by (rule root_op_False [OF push_all_op]) (use e R c True in \<open>auto simp: stack_words_pushed_def\<close>)
    then have "root_op st0 R S False 1 (range_words ?sp ?bt) {} (GC_push_current_stack env)"
      by (rule root_op_cong) (use i e(1) c in \<open>simp add: GC_push_current_stack_def GC_push_all_stack_partially_eager_def GC_push_all_stack_def\<close>)
    then show ?thesis using c True by (simp add: stack_words_pushed_def stack_words_eager_def stack_objs_def)
  next
    case c: False
    then have ca: "aligned ?c" "?c \<le> ?bt" using e(5) by simp_all
    have c4: "4 \<le> ?c" using ca(1) c by (cases "?c < 4") (auto simp: aligned_def)
    have c4': "aligned (?c - 4)" using ca(1) c4 by (auto simp: aligned_def mod_eq_0_iff_dvd)
    have a: "root_op st0 R S True 1 (range_words (?c - 4) ?bt) {} (GC_push_all (?c - 4) ?bt)"
      by (rule push_all_op) (use e(3) c4' ca R True c in \<open>auto simp: stack_words_pushed_def\<close>)
    have b: "root_op st0 R S False 0 {} (stack_objs st0 (range_words ?sp ?c)) (GC_push_all_eager ?sp ?c)"
      by (rule eager_op) (use e(2) ca c S True lay in \<open>auto simp: stack_words_eager_def\<close>)
    have "wsub ?c 4 = ?c - 4" using ca(1) c4 by (simp add: aligned_def)
    then have run: "GC_push_current_stack env st = Option.bind (GC_push_all (?c - 4) ?bt st) (GC_push_all_eager ?sp ?c)"
      if "same_objs st0 st" for st :: "'a gc_marker_scheme"
      using i [OF that] e(1) c by (simp add: GC_push_current_stack_def GC_push_all_stack_partially_eager_def)
    have "root_op st0 R S False 1 (range_words (?c - 4) ?bt) (stack_objs st0 (range_words ?sp ?c))
        (\<lambda>st. Option.bind (GC_push_all (?c - 4) ?bt st) (GC_push_all_eager ?sp ?c))"
      using root_op_bind [OF a b] by simp
    then have "root_op st0 R S False 1 (range_words (?c - 4) ?bt) (stack_objs st0 (range_words ?sp ?c)) (GC_push_current_stack env)"
      by (rule root_op_cong) (rule run)
    then show ?thesis using c True by (simp add: stack_words_pushed_def stack_words_eager_def)
  qed
qed

lemma push_roots_op:
  fixes st0 :: "'a gc_marker_scheme"
  assumes lay: "layout_ok st0" and env: "env_ok st0 env" and R: "root_words st0 env \<subseteq> R" and S: "root_objs st0 env \<subseteq> S"
  shows "root_op st0 R S False (n_root_ranges env) (root_words st0 env) (root_objs st0 env) (GC_push_roots True env)"
proof -
  have sub: "static_words (re_roots env) \<subseteq> R" "structure_words env \<subseteq> R" "stack_words_pushed st0 env \<subseteq> R"
    "freelist_objs st0 (re_freelists env) \<subseteq> S" "stack_objs st0 (stack_words_eager st0 env) \<subseteq> S"
    using R S by (auto simp: root_words_def root_objs_def)
  have rt: "root_tables_ok (re_roots env)" using env by (simp add: env_ok_def)
  note a = static_roots_op [OF rt sub(1), of st0 S]
  have fls: "freelist_objs st0 (re_freelists env) = (\<Union>fl \<in> set (re_freelists env). freelist_objs st0 [fl])" by (auto simp: freelist_objs_def)
  have b: "root_op st0 R S True 0 {} (freelist_objs st0 (re_freelists env)) (each mark_free_list_header (re_freelists env))"
  proof -
    have "root_op st0 R S True 0 {} (freelist_objs st0 [fl]) (mark_free_list_header fl)" if "fl \<in> set (re_freelists env)" for fl
      using that env sub(4) by (intro freelist_op) (auto simp: env_ok_def freelist_objs_def)
    from root_op_each [of "re_freelists env" st0 R S "\<lambda>_. 0" "\<lambda>_. {}" "\<lambda>fl. freelist_objs st0 [fl]", OF this]
    show ?thesis unfolding fls by (simp add: sum_list_triv)
  qed
  let ?g = "\<lambda>st. if GC_no_dls env \<or> roots_were_cleared (re_roots env) then GC_push_gc_structures env st else Some st"
  have c: "root_op st0 R S True (length (re_structures env)) (structure_words env) {} ?g"
  proof (cases "GC_no_dls env \<or> roots_were_cleared (re_roots env)")
    case True
    have "root_op st0 R S True 1 (range_words (fst x) (snd x)) {} (case x of (b, t) \<Rightarrow> GC_push_all b t)" if "x \<in> set (re_structures env)" for x
    proof -
      obtain b t where x: "x = (b, t)" by (cases x)
      have "\<forall>(b, t) \<in> set (re_structures env). aligned b \<and> aligned t \<and> b \<le> t" using env by (simp add: env_ok_def)
      then have "aligned b" "aligned t" "b \<le> t" using that x by auto
      moreover have "range_words b t \<subseteq> structure_words env" using True that x by (force simp: structure_words_def)
      ultimately show ?thesis using push_all_op [of b t R st0 S] sub(2) by (simp add: x)
    qed
    from root_op_each [of "re_structures env" st0 R S "\<lambda>_. 1" "\<lambda>x. range_words (fst x) (snd x)" "\<lambda>_. {}", OF this]
    have "root_op st0 R S True (length (re_structures env)) (\<Union>x \<in> set (re_structures env). range_words (fst x) (snd x)) {}
        (each (\<lambda>(b, t). GC_push_all b t) (re_structures env))"
      by (simp add: sum_list_triv)
    then have "root_op st0 R S True (length (re_structures env)) (structure_words env) {} (GC_push_gc_structures env)"
      using True by (simp add: structure_words_def GC_push_gc_structures_def split_beta)
    then show ?thesis by (rule root_op_cong) (use True in simp)
  next
    case False
    then have "structure_words env = {}" by (auto simp: structure_words_def)
    moreover have "root_op st0 R S True (length (re_structures env)) {} {} Some" by (simp add: root_op_def)
    ultimately show ?thesis using False by (intro root_op_cong [of st0 R S True _ _ _ Some ?g]) simp_all
  qed
  note d = current_stack_op [OF lay env sub(3,5)]
  have "root_op st0 R S False (n_root_ranges env) (root_words st0 env) (root_objs st0 env)
      (\<lambda>st. Option.bind (push_static_roots True env st) (\<lambda>st1.
        Option.bind (each mark_free_list_header (re_freelists env) st1) (\<lambda>st2. Option.bind (?g st2) (GC_push_current_stack env))))"
    using root_op_bind [OF a root_op_bind [OF b root_op_bind [OF c d]]]
    by (simp add: n_root_ranges_def root_words_def root_objs_def Un_assoc add.assoc)
  then show ?thesis by (rule root_op_cong) (simp add: GC_push_roots_def)
qed

end
