(* ===== verification/Mark_Complete.thy ===== *)
theory Mark_Complete
  imports Mark_Roots
begin

text \<open>
  The mark phase as a whole: the state machine \<open>GC_mark_some\<close>, called until it is done, ends with precisely the
  reachable objects marked, however often the mark stack overflows on the way.
\<close>

section \<open>The invariant of the state machine\<close>

text \<open>
  \<open>U\<close> are the objects that are marked at the start. What has to be covered depends on the state: before the
  roots are pushed, marked objects that the scan of the heap has passed; then the roots and all
  marked objects; nothing if the stack has overflowed.
\<close>

definition phase_words :: "'a gc_marker_scheme \<Rightarrow> root_env \<Rightarrow> 'a gc_marker_scheme \<Rightarrow> nat set" where
  "phase_words st0 env st = (if GC_mark_state st = MS_ROOTS_PUSHED then root_words st0 env else {})"

definition phase_open :: "obj set \<Rightarrow> 'a gc_marker_scheme \<Rightarrow> obj set" where
  "phase_open U st =
     (case GC_mark_state st of
        MS_PUSH_UNCOLLECTABLE \<Rightarrow> U \<inter> from_block (scan_ptr st)
      | MS_PARTIALLY_INVALID \<Rightarrow> UNIV \<inter> from_block (scan_ptr st)
      | _ \<Rightarrow> {})"

definition phase_side :: "'a gc_marker_scheme \<Rightarrow> root_env \<Rightarrow> 'a gc_marker_scheme \<Rightarrow> bool" where
  "phase_side st0 env st \<longleftrightarrow> scan_ptr st < 2 ^ 20
     \<and> (case GC_mark_state st of
          MS_PUSH_UNCOLLECTABLE \<Rightarrow> True
        | MS_ROOTS_PUSHED \<Rightarrow> root_objs st0 env \<subseteq> marked st
        | MS_PARTIALLY_INVALID \<Rightarrow> GC_objects_are_marked st
        | MS_INVALID \<Rightarrow> GC_objects_are_marked st \<or> scan_ptr st = 0 \<and> marked st = marked st0
        | _ \<Rightarrow> False)"

definition phase_inv :: "'a gc_marker_scheme \<Rightarrow> root_env \<Rightarrow> nat set \<Rightarrow> obj set \<Rightarrow> 'a gc_marker_scheme \<Rightarrow> bool" where
  "phase_inv st0 env R S st \<longleftrightarrow> same_objs st0 st \<and> scan_inv R S (phase_words st0 env st) (phase_open (marked st0) st) st
     \<and> phase_side st0 env st \<and> marked st0 \<subseteq> marked st"

text \<open>The assumptions on the whole phase.\<close>

definition phase_start :: "'a gc_marker_scheme \<Rightarrow> root_env \<Rightarrow> nat set \<Rightarrow> obj set \<Rightarrow> bool" where
  "phase_start st0 env R S \<longleftrightarrow> layout_ok st0 \<and> env_ok st0 env \<and> root_words st0 env \<subseteq> R \<and> root_objs st0 env \<subseteq> S
     \<and> (\<forall>ob \<in> marked st0. contents st0 ob \<noteq> {} \<longrightarrow> hb_obj_kind (hdr_at st0 (fst ob)) = UNCOLLECTABLE)"

section \<open>Progress\<close>

definition phase_rank :: "'a gc_marker_scheme \<Rightarrow> nat" where
  "phase_rank st =
     (case GC_mark_state st of
        MS_INVALID \<Rightarrow> (if \<not> GC_objects_are_marked st then 6 else if scan_ptr st \<noteq> 0 then 4 else 3)
      | MS_PUSH_UNCOLLECTABLE \<Rightarrow> 5
      | MS_PARTIALLY_INVALID \<Rightarrow> 2
      | MS_ROOTS_PUSHED \<Rightarrow> 1
      | _ \<Rightarrow> 0)"

definition phase_measure :: "'a gc_marker_scheme \<Rightarrow> nat \<times> nat \<times> nat \<times> nat" where
  "phase_measure st = (card (all_objs - marked st), phase_rank st, 2 ^ 20 - scan_ptr st, sum_list (map mse_descr (GC_mark_stack st)))"

definition phase_less :: "'a gc_marker_scheme \<Rightarrow> 'a gc_marker_scheme \<Rightarrow> bool" where
  "phase_less st' st \<longleftrightarrow> (phase_measure st', phase_measure st) \<in> less_than <*lex*> less_than <*lex*> less_than <*lex*> less_than"

lemma wf_phase_less: "wfp phase_less"
  unfolding wfp_def
  by (rule wf_subset [OF wf_inv_image [of "less_than <*lex*> less_than <*lex*> less_than <*lex*> less_than" phase_measure]])
    (auto simp: phase_less_def inv_image_def)

lemma phase_less_marks:
  assumes "marked st \<subseteq> marked st'" "marked st' - marked st \<subseteq> all_objs" "marked st' \<noteq> marked st"
  shows "phase_less st' st"
proof -
  have "card (all_objs - marked st') < card (all_objs - marked st)" using assms by (intro psubset_card_mono) auto
  then show ?thesis by (simp add: phase_less_def phase_measure_def)
qed

lemma phase_less_rank: "marked st' = marked st \<Longrightarrow> phase_rank st' < phase_rank st \<Longrightarrow> phase_less st' st"
  by (simp add: phase_less_def phase_measure_def)

lemma phase_less_ptr:
  "marked st' = marked st \<Longrightarrow> phase_rank st' = phase_rank st \<Longrightarrow> scan_ptr st < scan_ptr st' \<Longrightarrow> scan_ptr st' < 2 ^ 20 \<Longrightarrow> phase_less st' st"
  by (simp add: phase_less_def phase_measure_def diff_less_mono2)

lemma phase_less_stack:
  "marked st' = marked st \<Longrightarrow> phase_rank st' = phase_rank st \<Longrightarrow> scan_ptr st' = scan_ptr st \<Longrightarrow>
    sum_list (map mse_descr (GC_mark_stack st')) < sum_list (map mse_descr (GC_mark_stack st)) \<Longrightarrow> phase_less st' st"
  by (simp add: phase_less_def phase_measure_def)

text \<open>What a step of the machine does: it may be done, with the roots pushed and nothing left on the stack.\<close>

definition phase_step ::
    "'a gc_marker_scheme \<Rightarrow> root_env \<Rightarrow> nat set \<Rightarrow> obj set \<Rightarrow> 'a gc_marker_scheme \<Rightarrow> (bool \<times> 'a gc_marker_scheme) option \<Rightarrow> bool" where
  "phase_step st0 env R S st r \<longleftrightarrow>
     (case r of
        None \<Rightarrow> False
      | Some (finished, st') \<Rightarrow>
          (if finished then GC_mark_state st = MS_ROOTS_PUSHED \<and> GC_mark_stack st = [] \<and> ctl_eq st st' \<and> GC_mark_state st' = MS_NONE
             \<and> GC_mark_stack st' = []
           else phase_inv st0 env R S st' \<and> phase_less st' st))"

section \<open>Marking from the stack\<close>

lemma mark_from_phase:
  assumes inv: "phase_inv st0 env R S st" and stk: "GC_mark_stack st \<noteq> []" and om: "GC_mark_state st = MS_INVALID \<Longrightarrow> GC_objects_are_marked st"
  shows "phase_step st0 env R S st (map_option (\<lambda>st'. (False, st')) (MARK_FROM_MARK_STACK procs st))"
proof -
  have i: "same_objs st0 st" "scan_inv R S (phase_words st0 env st) (phase_open (marked st0) st) st" "phase_side st0 env st" "marked st0 \<subseteq> marked st"
    using inv by (simp_all add: phase_inv_def)
  obtain st' where r: "MARK_FROM_MARK_STACK procs st = Some st'" "scan_inv R S (phase_words st0 env st) (phase_open (marked st0) st) st'"
      "marks st st'" "GC_objects_are_marked st'"
      "marked st' = marked st \<Longrightarrow> sum_list (map mse_descr (GC_mark_stack st')) < sum_list (map mse_descr (GC_mark_stack st))"
    using mark_from_step [OF i(2), of procs] stk by metis
  have m: "same_shape st st'" "marked st \<subseteq> marked st'" "marked st' - marked st \<subseteq> all_objs"
      "marked st' = marked st \<Longrightarrow> GC_mark_state st' = GC_mark_state st" "GC_mark_state st' = GC_mark_state st \<or> GC_mark_state st' = MS_INVALID"
    using r(3) by (auto simp: marks_def)
  have sp: "scan_ptr st' = scan_ptr st" using m(1) by (simp add: same_shape_def)
  have "phase_less st' st"
  proof (cases "marked st' = marked st")
    case True
    then have "phase_rank st' = phase_rank st" using m(4) sp r(4) om by (auto simp: phase_rank_def split: mark_state_t.splits)
    then show ?thesis using True sp r(5) by (intro phase_less_stack) simp_all
  qed (rule phase_less_marks [OF m(2,3)])
  moreover have "phase_inv st0 env R S st'"
  proof (cases "GC_mark_state st' = MS_INVALID")
    case True
    then show ?thesis using r(2,4) i(1,3,4) m(2) same_objs_trans [OF i(1) same_shape_objs [OF m(1)]] sp
      by (simp add: phase_inv_def scan_inv_def phase_side_def)
  next
    case False
    then have "GC_mark_state st' = GC_mark_state st" using m(5) by simp
    then show ?thesis using r(2,4) i(1,3,4) m(2) same_objs_trans [OF i(1) same_shape_objs [OF m(1)]] sp
      by (auto simp: phase_inv_def phase_words_def phase_open_def phase_side_def split: mark_state_t.splits)
  qed
  ultimately show ?thesis using r(1) by (simp add: phase_step_def)
qed

section \<open>Pushing the roots\<close>

lemma finish_scan_step:
  assumes start: "phase_start st0 env R S" and st: "same_objs st0 st" "scan_inv R S {} {} st" "marked st0 \<subseteq> marked st"
    and ms: "GC_mark_state st \<noteq> MS_INVALID" "scan_ptr st = 0"
    and room: "length (GC_mark_stack st) + n_root_ranges env \<le> GC_mark_stack_size st"
  obtains st' where "finish_scan True env st = Some st'" "phase_inv st0 env R S st'" "marked st \<subseteq> marked st'" "marked st' - marked st \<subseteq> all_objs"
    "marked st' = marked st \<Longrightarrow> GC_mark_state st' = MS_ROOTS_PUSHED"
proof -
  have s: "layout_ok st0" "env_ok st0 env" "root_words st0 env \<subseteq> R" "root_objs st0 env \<subseteq> S" using start by (simp_all add: phase_start_def)
  obtain st1 where r: "GC_push_roots True env st = Some st1" "scan_inv R S ({} \<union> root_words st0 env) {} st1" "marks st st1" "root_objs st0 env \<subseteq> marked st1"
    by (rule root_opE [OF push_roots_op [OF s] st(1,2) room])
  have m: "same_shape st st1" "marked st \<subseteq> marked st1" "marked st1 - marked st \<subseteq> all_objs"
      "marked st1 = marked st \<Longrightarrow> GC_mark_state st1 \<noteq> MS_INVALID"
    using r(3) ms(1) by (auto simp: marks_def)
  define st' where "st' = (if GC_mark_state st1 \<noteq> MS_INVALID then st1\<lparr> GC_objects_are_marked := True, GC_mark_state := MS_ROOTS_PUSHED \<rparr>
    else st1\<lparr> GC_objects_are_marked := True \<rparr>)"
  have run: "finish_scan True env st = Some st'" using r(1) by (simp add: finish_scan_def st'_def Let_def)
  have c: "ctl_eq st1 st'" unfolding st'_def by (auto intro: ctl_eq_trans [of st1 "st1\<lparr> GC_objects_are_marked := True \<rparr>"])
  note d = ctl_eqD [OF c]
  have e: "GC_mark_stack st' = GC_mark_stack st1" "GC_mark_stack_size st' = GC_mark_stack_size st1" "scratch_ok st' = scratch_ok st1"
    "GC_objects_are_marked st'" "scan_ptr st' = scan_ptr st1" by (simp_all add: st'_def)
  have base: "scan_base R S st1" using r(2) by (simp add: scan_inv_def)
  note lay = layout_marker [OF scan_baseD(1) [OF base]]
  have sp: "scan_ptr st' = 0" using m(1) ms(2) e(5) by (simp add: same_shape_def)
  have so: "same_objs st0 st'" using same_objs_trans [OF same_objs_trans [OF st(1) same_shape_objs [OF m(1)]] d(1)] .
  have "phase_inv st0 env R S st'"
  proof (cases "GC_mark_state st1 = MS_INVALID")
    case True
    then have "GC_mark_state st' = MS_INVALID" by (simp add: st'_def)
    then show ?thesis using so sp e(4) base scan_ctl(1) [OF c e(1-3)] m(2) st(3) d(3)
      by (simp add: phase_inv_def scan_inv_def phase_side_def)
  next
    case False
    then have s': "GC_mark_state st' = MS_ROOTS_PUSHED" by (simp add: st'_def)
    have "covered st' (root_words st0 env) {}" using r(2) False scan_ctl(2) [OF c e(1-3) lay] by (simp add: scan_inv_def)
    then show ?thesis using s' so sp base scan_ctl(1) [OF c e(1-3)] m(2) st(3) d(3) r(4)
      by (simp add: phase_inv_def scan_inv_def phase_side_def phase_words_def phase_open_def)
  qed
  then show thesis using that [OF run] m d(3) by (simp add: st'_def)
qed

section \<open>Scanning the heap\<close>

lemma phase_less_trans: "phase_less a b \<Longrightarrow> phase_less b c \<Longrightarrow> phase_less a c"
  unfolding phase_less_def by (blast intro: transD [OF trans_lex_prod [OF trans_less_than trans_lex_prod [OF trans_less_than trans_lex_prod [OF trans_less_than trans_less_than]]]])

lemma phase_step_trans:
  assumes "phase_step st0 env R S st1 r" "phase_less st1 st" "GC_mark_state st1 \<noteq> MS_ROOTS_PUSHED"
  shows "phase_step st0 env R S st r"
  using assms phase_less_trans by (auto simp: phase_step_def split: option.splits if_splits)

lemma ctl_scan_ptr:
  "marked (st\<lparr> scan_ptr := h \<rparr>) = marked st" "same_objs st0 st \<Longrightarrow> same_objs st0 (st\<lparr> scan_ptr := h \<rparr>)"
  "scan_base R S (st\<lparr> scan_ptr := h \<rparr>) = scan_base R S st" "layout_ok st \<Longrightarrow> covered (st\<lparr> scan_ptr := h \<rparr>) Q D = covered st Q D"
proof -
  note c = ctl_eq_upd(1) [of st h]
  show "marked (st\<lparr> scan_ptr := h \<rparr>) = marked st" by (rule ctl_eqD(3) [OF c])
  show "same_objs st0 st \<Longrightarrow> same_objs st0 (st\<lparr> scan_ptr := h \<rparr>)" using same_objs_trans [OF _ ctl_eqD(1) [OF c]] .
  show "scan_base R S (st\<lparr> scan_ptr := h \<rparr>) = scan_base R S st" "layout_ok st \<Longrightarrow> covered (st\<lparr> scan_ptr := h \<rparr>) Q D = covered st Q D"
    by (rule scan_ctl [OF c]; simp)+
qed

lemma scan_inv_ptr: "scan_inv R S Q D st \<Longrightarrow> scan_inv R S Q D (st\<lparr> scan_ptr := h \<rparr>)"
  using layout_marker [OF scan_baseD(1), of R S st] by (auto simp: scan_inv_def ctl_scan_ptr)

text \<open>The scan goes on to block \<open>h\<close>.\<close>

lemma scan_on:
  assumes st: "same_objs st0 st" "marked st0 \<subseteq> marked st" "scan_ptr st < h" "h < 2 ^ 20"
    and ms: "GC_mark_state st = MS_PUSH_UNCOLLECTABLE \<and> D = marked st0
      \<or> (GC_mark_state st = MS_PARTIALLY_INVALID \<or> GC_mark_state st = MS_INVALID \<and> scan_ptr st \<noteq> 0) \<and> D = UNIV \<and> GC_objects_are_marked st"
    and st1: "scan_inv R S {} (D \<inter> from_block h) st1" "marks st st1" "st1 = st \<or> GC_objects_are_marked st1"
  shows "phase_inv st0 env R S (st1\<lparr> scan_ptr := h \<rparr>)" "phase_less (st1\<lparr> scan_ptr := h \<rparr>) st"
proof -
  let ?st = "st1\<lparr> scan_ptr := h \<rparr>"
  have m: "same_shape st st1" "marked st \<subseteq> marked st1" "marked st1 - marked st \<subseteq> all_objs"
      "marked st1 = marked st \<Longrightarrow> GC_mark_state st1 = GC_mark_state st" "GC_mark_state st1 = GC_mark_state st \<or> GC_mark_state st1 = MS_INVALID"
    using st1(2) by (auto simp: marks_def)
  have om: "GC_objects_are_marked st \<Longrightarrow> GC_objects_are_marked st1" using m(1) by (simp add: same_shape_def)
  have so: "same_objs st0 ?st" using ctl_scan_ptr(2) same_objs_trans [OF st(1) same_shape_objs [OF m(1)]] .
  note i = scan_inv_ptr [OF st1(1), of h]
  show "phase_inv st0 env R S ?st"
  proof (cases "GC_mark_state st1 = MS_INVALID")
    case True
    then have "GC_objects_are_marked st1" using st1(3) ms om by auto
    then show ?thesis using True i so st(2,4) m(2) by (auto simp: phase_inv_def scan_inv_def phase_side_def ctl_scan_ptr(1))
  next
    case False
    then have s: "GC_mark_state st1 = GC_mark_state st" using m(5) by simp
    then show ?thesis using False ms i so st(2,4) m(2) om
      by (auto simp: phase_inv_def phase_side_def phase_words_def phase_open_def ctl_scan_ptr(1))
  qed
  show "phase_less ?st st"
  proof (cases "marked st1 = marked st")
    case True
    then have "phase_rank ?st = phase_rank st" using m(4) ms om st(3) by (auto simp: phase_rank_def)
    then show ?thesis using True st(3,4) by (intro phase_less_ptr) (simp_all add: ctl_scan_ptr(1))
  next
    case False
    then show ?thesis using m(2,3) by (intro phase_less_marks) (simp_all add: ctl_scan_ptr(1))
  qed
qed

text \<open>The scan is over, and the roots are pushed.\<close>

lemma scan_done:
  assumes start: "phase_start st0 env R S" and st: "same_objs st0 st" "scan_inv R S {} {} st" "marked st0 \<subseteq> marked st"
    and ms: "GC_mark_state st = MS_PUSH_UNCOLLECTABLE \<or> GC_mark_state st = MS_PARTIALLY_INVALID"
    and room: "length (GC_mark_stack st) + n_root_ranges env \<le> GC_mark_stack_size st"
  obtains st' where "finish_scan True env (st\<lparr> scan_ptr := 0 \<rparr>) = Some st'" "phase_inv st0 env R S st'" "phase_less st' st"
proof -
  let ?st = "st\<lparr> scan_ptr := 0 \<rparr>"
  have s: "same_objs st0 ?st" "scan_inv R S {} {} ?st" "marked st0 \<subseteq> marked ?st" "GC_mark_state ?st \<noteq> MS_INVALID" "scan_ptr ?st = 0"
    using st ms scan_inv_ptr by (auto simp: ctl_scan_ptr)
  have room': "length (GC_mark_stack ?st) + n_root_ranges env \<le> GC_mark_stack_size ?st" using room by simp
  obtain st' where r: "finish_scan True env ?st = Some st'" "phase_inv st0 env R S st'" "marked ?st \<subseteq> marked st'" "marked st' - marked ?st \<subseteq> all_objs"
      "marked st' = marked ?st \<Longrightarrow> GC_mark_state st' = MS_ROOTS_PUSHED"
    using finish_scan_step [OF start s room'] by metis
  have "phase_less st' st"
  proof (cases "marked st' = marked st")
    case True
    then show ?thesis using r(5) ms by (intro phase_less_rank) (auto simp: phase_rank_def ctl_scan_ptr(1))
  next
    case False
    then show ?thesis using r(3,4) by (intro phase_less_marks) (simp_all add: ctl_scan_ptr(1))
  qed
  with that r show thesis by blast
qed

section \<open>The states\<close>

lemma phase_uncollectable:
  assumes start: "phase_start st0 env R S" and inv: "phase_inv st0 env R S st" and ms: "GC_mark_state st = MS_PUSH_UNCOLLECTABLE"
  shows "phase_step st0 env R S st (GC_mark_some procs recycle env st)"
proof (cases "int (length (GC_mark_stack st)) - 1 \<ge> int (GC_mark_stack_size st div 4)")
  case True
  then have "GC_mark_stack st \<noteq> []" by auto
  from mark_from_phase [OF inv this, of procs] show ?thesis using ms True by (simp add: GC_mark_some_def)
next
  case False
  have i: "same_objs st0 st" "scan_inv R S {} (marked st0 \<inter> from_block (scan_ptr st)) st" "marked st0 \<subseteq> marked st"
    using inv ms by (simp_all add: phase_inv_def phase_words_def phase_open_def)
  have base: "scan_base R S st" and cov: "covered st {} (marked st0 \<inter> from_block (scan_ptr st))" using i(2) ms by (auto simp: scan_inv_def)
  have size: "4096 \<le> GC_mark_stack_size st" "n_root_ranges env \<le> 2048"
    using phase_heapD(3) [OF scan_baseD(2) [OF base]] start by (simp_all add: phase_start_def env_ok_def gc_consts)
  have len: "length (GC_mark_stack st) \<le> GC_mark_stack_size st div 4" using False by linarith
  have "length (GC_mark_stack st) + 2048 \<le> GC_mark_stack_size st" using len size(1) by linarith
  then have room: "length (GC_mark_stack st) + 512 \<le> GC_mark_stack_size st" "length (GC_mark_stack st) + n_root_ranges env \<le> GC_mark_stack_size st"
    using size(2) by simp_all
  have U: "hb_obj_kind hh = UNCOLLECTABLE" if ob: "ob \<in> marked st0" "ob \<in> marked st" "contents st ob \<noteq> {}" "HDR st (fst ob) = Hdr hh" for ob hh
  proof -
    obtain hh0 where h: "HDR st0 (fst ob) = Hdr hh0" "hb_obj_kind hh = hb_obj_kind hh0"
      using same_objs_HDR(3) [OF i(1) ob(4)] hdr_fields_eq(7) by metis
    have "contents st0 ob \<noteq> {}" using ob(3) contents_objs [OF i(1)] by simp
    then show ?thesis using start ob(1) h by (auto simp: phase_start_def hdr_at_def)
  qed
  let ?f = "GC_push_next_marked_uncollectable (scan_ptr st) st"
  let ?P = "\<lambda>(_::hblk) hh. hb_obj_kind hh = UNCOLLECTABLE"
  have f: "?f = (case find_block ?P st (scan_ptr st) of None \<Rightarrow> None | Some h' \<Rightarrow> (if h' = 0 then Some (0, st) else push_and_next h' st))"
    by (simp add: GC_push_next_marked_uncollectable_def)
  have run: "GC_mark_some procs recycle env st = map_option (\<lambda>st'. (False, st')) (Option.bind ?f (\<lambda>(h, st1).
      if h = 0 then finish_scan True env (st1\<lparr> scan_ptr := h \<rparr>) else Some (st1\<lparr> scan_ptr := h \<rparr>)))"
    using ms False by (simp add: GC_mark_some_def Let_def)
  show ?thesis
  proof (rule find_block_step [OF base cov, where P = ?P and f = ?f, OF U room(1) f])
    assume r: "?f = Some (0, st)" "scan_inv R S {} {} st"
    obtain st' where "finish_scan True env (st\<lparr> scan_ptr := 0 \<rparr>) = Some st'" "phase_inv st0 env R S st'" "phase_less st' st"
      using scan_done [OF start i(1) r(2) i(3) _ room(2)] ms by metis
    then show ?thesis using run r(1) by (simp add: phase_step_def)
  next
    fix h st1 assume r: "?f = Some (h, st1)" "h \<noteq> 0" "scan_ptr st < h" "h < 2 ^ 20" "scan_inv R S {} (marked st0 \<inter> from_block h) st1"
      "marks st st1" "st1 = st \<or> GC_objects_are_marked st1"
    have "phase_inv st0 env R S (st1\<lparr> scan_ptr := h \<rparr>)" "phase_less (st1\<lparr> scan_ptr := h \<rparr>) st"
      by (rule scan_on [OF i(1,3) r(3,4) _ r(5-7)]; simp add: ms)+
    then show ?thesis using run r(1,2) by (simp add: phase_step_def)
  qed
qed

lemma phase_rescan:
  assumes start: "phase_start st0 env R S" and inv: "phase_inv st0 env R S st"
    and ms: "GC_mark_state st = MS_PARTIALLY_INVALID \<or> GC_mark_state st = MS_INVALID \<and> scan_ptr st \<noteq> 0"
    and om: "GC_objects_are_marked st" and stk: "GC_mark_stack st = []"
  shows "phase_step st0 env R S st (map_option (\<lambda>st'. (False, st')) (Option.bind (GC_push_next_marked (scan_ptr st) st) (\<lambda>(h, st2).
    let st3 = st2\<lparr> scan_ptr := h \<rparr> in
    if h = 0 \<and> GC_mark_state st3 = MS_PARTIALLY_INVALID then finish_scan True env st3 else Some st3)))" (is "phase_step _ _ _ _ _ ?r")
proof -
  have i: "same_objs st0 st" "marked st0 \<subseteq> marked st" "scan_base R S st"
    using inv by (simp_all add: phase_inv_def scan_inv_def)
  have cov: "GC_mark_state st \<noteq> MS_INVALID \<Longrightarrow> covered st {} (UNIV \<inter> from_block (scan_ptr st))"
    using inv ms by (auto simp: phase_inv_def scan_inv_def phase_words_def phase_open_def)
  have size: "4096 \<le> GC_mark_stack_size st" "n_root_ranges env \<le> 2048"
    using phase_heapD(3) [OF scan_baseD(2) [OF i(3)]] start by (simp_all add: phase_start_def env_ok_def gc_consts)
  then have room: "length (GC_mark_stack st) + 512 \<le> GC_mark_stack_size st" "length (GC_mark_stack st) + n_root_ranges env \<le> GC_mark_stack_size st"
    using stk by simp_all
  let ?f = "GC_push_next_marked (scan_ptr st) st"
  show ?thesis
  proof (rule find_block_step [OF i(3) cov, where P = "\<lambda>_ _. True" and f = ?f, OF _ TrueI room(1) GC_push_next_marked_find])
    assume r: "?f = Some (0, st)" "scan_inv R S {} {} st"
    show ?thesis
    proof (cases "GC_mark_state st = MS_PARTIALLY_INVALID")
      case True
      obtain st' where "finish_scan True env (st\<lparr> scan_ptr := 0 \<rparr>) = Some st'" "phase_inv st0 env R S st'" "phase_less st' st"
        using scan_done [OF start i(1) r(2) i(2) _ room(2)] True by metis
      then show ?thesis using r(1) True by (simp add: phase_step_def)
    next
      case False
      then have s: "GC_mark_state st = MS_INVALID" "scan_ptr st \<noteq> 0" using ms by auto
      have "phase_less (st\<lparr> scan_ptr := 0 \<rparr>) st"
        by (rule phase_less_rank) (use s om in \<open>simp_all add: phase_rank_def ctl_scan_ptr(1)\<close>)
      moreover have "phase_inv st0 env R S (st\<lparr> scan_ptr := 0 \<rparr>)"
        using i s(1) om by (simp add: phase_inv_def scan_inv_def phase_side_def ctl_scan_ptr)
      ultimately show ?thesis using r(1) False by (simp add: phase_step_def)
    qed
  next
    fix h st1 assume r: "?f = Some (h, st1)" "h \<noteq> 0" "scan_ptr st < h" "h < 2 ^ 20" "scan_inv R S {} (UNIV \<inter> from_block h) st1"
      "marks st st1" "st1 = st \<or> GC_objects_are_marked st1"
    have "phase_inv st0 env R S (st1\<lparr> scan_ptr := h \<rparr>)" "phase_less (st1\<lparr> scan_ptr := h \<rparr>) st"
      by (rule scan_on [OF i(1,2) r(3,4) _ r(5-7)]; use ms om in simp)+
    then show ?thesis using r(1,2) by (simp add: phase_step_def)
  qed
qed

text \<open>The mark stack cannot grow, so that a request to grow it only clears it, and it is empty then.\<close>

lemma grow_ctl:
  fixes st :: "'a gc_marker_scheme" and recycle :: "'a gc_marker_scheme \<Rightarrow> 'a gc_marker_scheme"
  assumes "scratch_ok st = (\<lambda>_. False)" "GC_mark_stack st = []"
  defines "st' \<equiv> grow_if_small recycle st"
  shows "ctl_eq st st'" "GC_mark_stack st' = []" "GC_mark_stack_size st' = GC_mark_stack_size st" "scratch_ok st' = (\<lambda>_. False)"
    "scan_ptr st' = scan_ptr st" "GC_objects_are_marked st' = GC_objects_are_marked st" "GC_mark_state st' = GC_mark_state st"
proof -
  define a where "a = st\<lparr> scratch_ok := (\<lambda>_. False) \<rparr>"
  define b where "b = a\<lparr> GC_mark_stack_too_small := False \<rparr>"
  have st': "st' = (if GC_mark_stack_too_small st then b\<lparr> GC_mark_stack := [] \<rparr> else st)"
    using assms(1) by (simp add: st'_def grow_if_small_def alloc_mark_stack_def scratch_request_def Let_def a_def b_def)
  have "ctl_eq st (b\<lparr> GC_mark_stack := [] \<rparr>)"
    using ctl_eq_trans [OF ctl_eq_upd(3) [of st "\<lambda>_. False"] ctl_eq_trans [OF ctl_eq_upd(6) ctl_eq_upd(4)]] by (simp add: a_def b_def)
  then show "ctl_eq st st'" by (simp add: st')
  show "GC_mark_stack st' = []" "GC_mark_stack_size st' = GC_mark_stack_size st" "scratch_ok st' = (\<lambda>_. False)"
    "scan_ptr st' = scan_ptr st" "GC_objects_are_marked st' = GC_objects_are_marked st" "GC_mark_state st' = GC_mark_state st"
    using assms(1,2) by (simp_all add: st' a_def b_def)
qed

lemma phase_invalid:
  assumes start: "phase_start st0 env R S" and inv: "phase_inv st0 env R S st"
    and ms: "GC_mark_state st = MS_PARTIALLY_INVALID \<or> GC_mark_state st = MS_INVALID"
  shows "phase_step st0 env R S st (GC_mark_some procs recycle env st)"
proof -
  have i: "same_objs st0 st" "marked st0 \<subseteq> marked st" "scan_base R S st" "phase_side st0 env st"
    using inv by (simp_all add: phase_inv_def scan_inv_def)
  note b = scan_baseD [OF i(3)]
  consider (first) "\<not> GC_objects_are_marked st" | (mark) "GC_objects_are_marked st" "GC_mark_stack st \<noteq> []"
    | (restart) "GC_objects_are_marked st" "GC_mark_stack st = []" "scan_ptr st = 0 \<and> GC_mark_state st = MS_INVALID"
    | (go_on) "GC_objects_are_marked st" "GC_mark_stack st = []" "\<not> (scan_ptr st = 0 \<and> GC_mark_state st = MS_INVALID)"
    by blast
  then show ?thesis
  proof cases
    case first
    then have s: "GC_mark_state st = MS_INVALID" "scan_ptr st = 0" "marked st = marked st0" using ms i(4) by (auto simp: phase_side_def)
    let ?st = "st\<lparr> GC_mark_state := MS_PUSH_UNCOLLECTABLE \<rparr>"
    note d = ctl_eqD [OF ctl_eq_upd(5) [of st MS_PUSH_UNCOLLECTABLE]]
    have "covered st {} (marked st0 \<inter> from_block 0)" by (auto simp: covered_def s(3))
    then have "covered ?st {} (marked st0 \<inter> from_block 0)" using scan_ctl(2) [OF ctl_eq_upd(5) _ _ _ layout_marker [OF b(1)]] by simp
    moreover have "scan_base R S ?st" using scan_ctl(1) [OF ctl_eq_upd(5) [of st MS_PUSH_UNCOLLECTABLE]] i(3) by simp
    ultimately have "phase_inv st0 env R S ?st"
      using s i(2) d(3) same_objs_trans [OF i(1) d(1)] by (simp add: phase_inv_def scan_inv_def phase_words_def phase_open_def phase_side_def)
    moreover have "phase_less ?st st" by (rule phase_less_rank) (use s first d(3) in \<open>simp_all add: phase_rank_def\<close>)
    ultimately show ?thesis using s(1) first by (simp add: GC_mark_some_def phase_step_def)
  next
    case mark
    then show ?thesis using mark_from_phase [OF inv mark(2), of procs] ms by (auto simp: GC_mark_some_def)
  next
    case restart
    let ?g = "grow_if_small recycle st"
    let ?st = "?g\<lparr> GC_mark_state := MS_PARTIALLY_INVALID \<rparr>"
    note g = grow_ctl [OF phase_heapD(4) [OF b(2)] restart(2), of recycle]
    have c: "ctl_eq st ?st" by (rule ctl_eq_trans [OF g(1)]) simp
    note d = ctl_eqD [OF c]
    have "scan_base R S ?st" using scan_ctl(1) [OF c] g restart(2) phase_heapD(4) [OF b(2)] i(3) by simp
    moreover have "covered ?st {} (UNIV \<inter> from_block 0)" by (simp add: covered_def)
    ultimately have inv1: "phase_inv st0 env R S ?st"
      using restart g(5,6) i(2) d(3) same_objs_trans [OF i(1) d(1)]
      by (simp add: phase_inv_def scan_inv_def phase_words_def phase_open_def phase_side_def)
    have less: "phase_less ?st st" by (rule phase_less_rank) (use restart d(3) in \<open>simp_all add: phase_rank_def\<close>)
    have "GC_mark_some procs recycle env st = map_option (\<lambda>st'. (False, st')) (Option.bind (GC_push_next_marked (scan_ptr ?st) ?st) (\<lambda>(h, st2).
        let st3 = st2\<lparr> scan_ptr := h \<rparr> in
        if h = 0 \<and> GC_mark_state st3 = MS_PARTIALLY_INVALID then finish_scan True env st3 else Some st3))"
      using restart by (simp add: GC_mark_some_def)
    then show ?thesis
      using phase_step_trans [OF phase_rescan [OF start inv1] less] restart(1) g(2,6) by simp
  next
    case go_on
    have "GC_mark_some procs recycle env st = map_option (\<lambda>st'. (False, st')) (Option.bind (GC_push_next_marked (scan_ptr st) st) (\<lambda>(h, st2).
        let st3 = st2\<lparr> scan_ptr := h \<rparr> in
        if h = 0 \<and> GC_mark_state st3 = MS_PARTIALLY_INVALID then finish_scan True env st3 else Some st3))"
      using go_on ms by (auto simp: GC_mark_some_def)
    then show ?thesis using phase_rescan [OF start inv _ go_on(1,2)] ms go_on(3) by auto
  qed
qed

lemma phase_roots_pushed:
  assumes inv: "phase_inv st0 env R S st" and ms: "GC_mark_state st = MS_ROOTS_PUSHED"
  shows "phase_step st0 env R S st (GC_mark_some procs recycle env st)"
proof (cases "GC_mark_stack st = []")
  case True
  let ?st = "st\<lparr> GC_mark_state := MS_NONE \<rparr>"
  have "phase_heap st" using inv scan_baseD(2) by (auto simp: phase_inv_def scan_inv_def)
  then have "scratch_ok ?st = (\<lambda>_. False)" using phase_heapD(4) by simp
  note g = grow_ctl [OF this, of recycle]
  have "ctl_eq st (grow_if_small recycle ?st)" using ctl_eq_trans [OF ctl_eq_upd(5) g(1)] True by simp
  then show ?thesis using g(2,7) ms True by (simp add: GC_mark_some_def phase_step_def)
next
  case False
  then show ?thesis using mark_from_phase [OF inv False, of procs] ms by (simp add: GC_mark_some_def)
qed

lemma mark_some_step:
  assumes "phase_start st0 env R S" "phase_inv st0 env R S st"
  shows "phase_step st0 env R S st (GC_mark_some procs recycle env st)"
proof -
  have "phase_side st0 env st" using assms(2) by (simp add: phase_inv_def)
  then consider "GC_mark_state st = MS_PUSH_UNCOLLECTABLE" | "GC_mark_state st = MS_ROOTS_PUSHED"
    | "GC_mark_state st = MS_PARTIALLY_INVALID \<or> GC_mark_state st = MS_INVALID"
    by (auto simp: phase_side_def split: mark_state_t.splits)
  then show ?thesis using phase_uncollectable [OF assms] phase_roots_pushed [OF assms(2)] phase_invalid [OF assms] by cases blast+
qed

section \<open>The whole phase\<close>

definition phase_end :: "'a gc_marker_scheme \<Rightarrow> root_env \<Rightarrow> nat set \<Rightarrow> obj set \<Rightarrow> 'a gc_marker_scheme \<Rightarrow> bool" where
  "phase_end st0 env R S st' \<longleftrightarrow> (\<exists>st. phase_inv st0 env R S st \<and> GC_mark_state st = MS_ROOTS_PUSHED \<and> GC_mark_stack st = []
     \<and> ctl_eq st st' \<and> GC_mark_state st' = MS_NONE \<and> GC_mark_stack st' = [])"

lemma stopped_mark_loop_ok:
  assumes "phase_start st0 env R S"
  shows "phase_inv st0 env R S st \<Longrightarrow> \<exists>finished k st'. stopped_mark_loop procs recycle env stop i st = Some (finished, k, st')
    \<and> (if finished then phase_end st0 env R S st' else stop k \<and> phase_inv st0 env R S st')"
proof (induction st arbitrary: i rule: wfp_induct_rule [OF wf_phase_less])
  case (1 st)
  show ?case
  proof (cases "stop i")
    case True
    then have "stopped_mark_loop procs recycle env stop i st = Some (False, i, st)" by (subst stopped_mark_loop.simps) simp
    then show ?thesis using 1(2) True by auto
  next
    case go: False
    note step = mark_some_step [OF assms 1(2), of procs recycle]
    then obtain finished st1 where r: "GC_mark_some procs recycle env st = Some (finished, st1)" by (auto simp: phase_step_def split: option.splits)
    show ?thesis
    proof (cases finished)
      case True
      then have "stopped_mark_loop procs recycle env stop i st = Some (True, i, st1)" using r go by (subst stopped_mark_loop.simps) simp
      moreover have "phase_end st0 env R S st1" using step r True 1(2) by (auto simp: phase_step_def phase_end_def)
      ultimately show ?thesis by auto
    next
      case False
      then have "stopped_mark_loop procs recycle env stop i st = stopped_mark_loop procs recycle env stop (i + 1) st1"
        using r go by (subst stopped_mark_loop.simps) simp
      then show ?thesis using 1(1) [of st1 "i + 1"] step r False by (simp add: phase_step_def)
    qed
  qed
qed

text \<open>
  What is to be marked, if the objects of \<open>U\<close> are marked at the start: those objects, the objects that roots
  lead to at once, and what is reachable from them and from the other root words.
\<close>

definition to_mark :: "'a gc_marker_scheme \<Rightarrow> root_env \<Rightarrow> obj set \<Rightarrow> obj set" where
  "to_mark st env U = U \<union> root_objs st env \<union> reachable st (root_words st env \<union> \<Union> (contents st ` (U \<union> root_objs st env)))"

lemma to_mark_closed: "closed_under st (root_words st env) (to_mark st env U)"
  unfolding closed_under_def pointees_def to_mark_def by (auto intro: reachable.intros)

lemma to_mark_least:
  assumes "U \<union> root_objs st env \<subseteq> M" "pointees st (root_words st env \<union> \<Union> (contents st ` M)) \<subseteq> M"
  shows "to_mark st env U \<subseteq> M"
proof -
  have into: "q \<in> M" if "w \<in> root_words st env \<union> \<Union> (contents st ` M)" "pointee st w = Some q" for w q
    using assms(2) that by (auto simp: pointees_def)
  have "ob \<in> M" if "ob \<in> reachable st (root_words st env \<union> \<Union> (contents st ` (U \<union> root_objs st env)))" for ob
    using that
  proof (induction rule: reachable.induct)
    case (root w ob)
    then show ?case using assms(1) into by blast
  next
    case (step ob w q)
    then show ?case using into by blast
  qed
  then show ?thesis using assms(1) unfolding to_mark_def by blast
qed

definition phase_ready :: "'a gc_marker_scheme \<Rightarrow> root_env \<Rightarrow> bool" where
  "phase_ready st env \<longleftrightarrow> marker_ok st \<and> phase_heap st \<and> env_ok st env \<and> GC_mark_state st = MS_INVALID \<and> \<not> GC_objects_are_marked st
     \<and> scan_ptr st = 0 \<and> GC_mark_stack st = []
     \<and> (\<forall>ob \<in> marked st. contents st ob \<noteq> {} \<longrightarrow> hb_obj_kind (hdr_at st (fst ob)) = UNCOLLECTABLE)"

lemma phase_ready_start:
  assumes "phase_ready st env"
  defines "R \<equiv> root_words st env" and "S \<equiv> to_mark st env (marked st)"
  shows "phase_start st env R S" "phase_inv st env R S st"
proof -
  note r = assms(1) [unfolded phase_ready_def]
  have lay: "layout_ok st" using r layout_marker by blast
  show "phase_start st env R S" using r lay by (auto simp: phase_start_def R_def S_def to_mark_def)
  have "scan_base R S st"
    using r to_mark_closed [of st env "marked st"] by (auto simp: scan_base_def R_def S_def to_mark_def)
  then show "phase_inv st env R S st" using r by (simp add: phase_inv_def scan_inv_def phase_side_def)
qed

lemma phase_end_marked:
  assumes e: "phase_end st env (root_words st env) (to_mark st env (marked st)) st'" and lay: "layout_ok st"
  shows "marked st' = to_mark st env (marked st)" "same_objs st st'" "marker_ok st'"
proof -
  obtain st1 where s: "phase_inv st env (root_words st env) (to_mark st env (marked st)) st1" "GC_mark_state st1 = MS_ROOTS_PUSHED"
      "GC_mark_stack st1 = []" "ctl_eq st1 st'"
    using e by (auto simp: phase_end_def)
  note d = ctl_eqD [OF s(4)]
  have i: "same_objs st st1" "scan_base (root_words st env) (to_mark st env (marked st)) st1" "covered st1 (root_words st env) {}"
      "root_objs st env \<subseteq> marked st1" "marked st \<subseteq> marked st1"
    using s(1,2) by (simp_all add: phase_inv_def scan_inv_def phase_words_def phase_open_def phase_side_def)
  have "pointees st (root_words st env \<union> \<Union> (contents st ` marked st1)) \<subseteq> marked st1"
    using i(3) s(3) pointee_objs [OF i(1) lay] contents_objs [OF i(1)] by (auto simp: covered_def pointees_def stack_words_def)
  then have "to_mark st env (marked st) \<subseteq> marked st1" using i(4,5) by (intro to_mark_least) auto
  then show "marked st' = to_mark st env (marked st)" using scan_baseD(5) [OF i(2)] d(3) by blast
  show "same_objs st st'" by (rule same_objs_trans [OF i(1) d(1)])
  show "marker_ok st'" using scan_baseD(1) [OF i(2)] d(2) by simp
qed

section \<open>Clearing marks\<close>

lemma clear_marks_frame: "same_layout st (clear_marks_for_block h st)"
  unfolding same_layout_def
proof
  fix c
  let ?f = "\<lambda>hh. if IS_UNCOLLECTABLE (hb_obj_kind hh) then hh else GC_clear_hdr_marks hh"
  have f: "entry_shape (Hdr (?f hh)) = entry_shape (Hdr hh)" for hh
    by (simp add: GC_clear_hdr_marks_def set_mark_bit_from_hdr_def Let_def HBLK_IS_FREE_def blocks_of_def)
  show "entry_shape (HDR (clear_marks_for_block h st) c) = entry_shape (HDR st c)"
  proof (cases "HDR st h")
    case (Hdr hh)
    have "HDR (SET_HDR h (Hdr (?f hh)) st) c = HDR st c \<or> HDR (SET_HDR h (Hdr (?f hh)) st) c = Hdr (?f hh) \<and> HDR st c = Hdr hh"
      using Hdr by (cases "c div BOTTOM_SZ = h div BOTTOM_SZ"; cases "c mod BOTTOM_SZ = h mod BOTTOM_SZ")
        (auto simp: SET_HDR_def GC_find_header_def split: option.splits)
    then show ?thesis using f [of hh] Hdr by (auto simp: clear_marks_for_block_def upd_hdr_def)
  qed (simp add: clear_marks_for_block_def upd_hdr_def)
qed

definition cleared :: "hdr \<Rightarrow> hdr" where
  "cleared hh = (if IS_UNCOLLECTABLE (hb_obj_kind hh) then hh else GC_clear_hdr_marks hh)"

lemma fold_clear_fields:
  fixes st :: "'a gc_marker_scheme" and bs :: "hblk list"
  defines "st' \<equiv> fold clear_marks_for_block bs st"
  shows "GC_mark_stack st' = GC_mark_stack st" "GC_mark_stack_size st' = GC_mark_stack_size st" "scratch_ok st' = scratch_ok st" "GC_mem st' = GC_mem st"
    "GC_obj_map st' = GC_obj_map st" "GC_valid_offsets st' = GC_valid_offsets st" "GC_modws_valid_offsets st' = GC_modws_valid_offsets st"
    "GC_all_interior_pointers st' = GC_all_interior_pointers st" "GC_least_plausible_heap_addr st' = GC_least_plausible_heap_addr st"
    "GC_greatest_plausible_heap_addr st' = GC_greatest_plausible_heap_addr st" "GC_black_lists st' = GC_black_lists st" "heap_rest st' = heap_rest st"
  unfolding st'_def by (induction bs arbitrary: st; simp add: clear_marks_for_block_def)+

lemma fold_clear_index: "index_wf st \<Longrightarrow> index_wf (fold clear_marks_for_block bs st)"
  by (induction bs arbitrary: st) (simp_all add: clear_marks_for_block_def)

lemma fold_clear_HDR:
  assumes "index_wf st" "distinct bs"
  shows "HDR (fold clear_marks_for_block bs st) b =
    (if b \<in> set bs then (case HDR st b of Hdr hh \<Rightarrow> Hdr (cleared hh) | Fwd k \<Rightarrow> Fwd k) else HDR st b)"
  using assms
proof (induction bs arbitrary: st)
  case (Cons x bs)
  have x: "HDR (clear_marks_for_block x st) b = (if b = x then (case HDR st x of Hdr hh \<Rightarrow> Hdr (cleared hh) | Fwd k \<Rightarrow> Fwd k) else HDR st b)"
    using Cons.prems(1) by (simp add: clear_marks_for_block_def HDR_upd_hdr cleared_def split: hdr_entry.splits)
  have "index_wf (clear_marks_for_block x st)" using Cons.prems(1) by (simp add: clear_marks_for_block_def)
  then show ?case using Cons.IH [of "clear_marks_for_block x st"] Cons.prems(2) x by auto
qed simp

lemma cleared_fields:
  "hb_sz (cleared hh) = hb_sz hh" "hb_descr (cleared hh) = hb_descr hh" "hb_obj_kind (cleared hh) = hb_obj_kind hh"
  "HBLK_IS_FREE (cleared hh) = HBLK_IS_FREE hh" "\<not> HBLK_IS_FREE hh \<Longrightarrow> strip (Hdr (cleared hh)) = strip (Hdr hh)"
  by (simp_all add: cleared_def GC_clear_hdr_marks_def set_mark_bit_from_hdr_def Let_def HBLK_IS_FREE_def)

lemma cleared_bits:
  assumes "n \<le> 512"
  shows "mark_bit_from_hdr (cleared hh) n \<longleftrightarrow>
    (if IS_UNCOLLECTABLE (hb_obj_kind hh) then mark_bit_from_hdr hh n else n = FINAL_MARK_BIT (hb_sz hh))"
proof -
  have "n div 32 < MARK_BITS_SZ" using assms div_le_mono [of n 512 32] by (simp add: gc_consts)
  then have "\<not> get_bit_entry (\<lambda>i. if i < MARK_BITS_SZ then 0 else hb_marks hh i) n" by (simp add: get_bit_entry_def)
  then show ?thesis by (auto simp: cleared_def GC_clear_hdr_marks_def Let_def mark_bit_from_hdr_def set_mark_bit_from_hdr_def)
qed

interpretation clear: block_visitor "\<lambda>_. layout_ok" "\<lambda>h st. Some (clear_marks_for_block h st)"
proof unfold_locales
  fix st :: "'a hdr_index_scheme" and b
  assume l: "layout_ok st"
  have f: "same_layout st (clear_marks_for_block b st)" by (rule clear_marks_frame)
  have "is_used (HDR (clear_marks_for_block b st) c) = is_used (HDR st c)" for c
    using f [unfolded same_layout_def, rule_format, of c]
    by (cases "HDR st c"; cases "HDR (clear_marks_for_block b st) c") (auto simp: is_used_def)
  then show "\<exists>st'. Some (clear_marks_for_block b st) = Some st' \<and> layout_ok st' \<and> (\<forall>c. c \<noteq> b \<longrightarrow> is_used (HDR st' c) = is_used (HDR st c))"
    using layout_ok_same [OF f l] by simp
qed

definition clear_all :: "'a gc_marker_scheme \<Rightarrow> 'a gc_marker_scheme" where
  "clear_all st = (fold clear_marks_for_block (used_blocks st) st)\<lparr> GC_objects_are_marked := False, GC_mark_state := MS_INVALID, scan_ptr := 0 \<rparr>"

lemma GC_clear_marks_all: "index_wf st \<Longrightarrow> layout_ok st \<Longrightarrow> GC_clear_marks st = Some (clear_all st)"
  using clear.apply_all [of st] by (simp add: GC_clear_marks_def clear_all_def each_Some index_wf_def strict_sorted_iff)

lemma GC_clear_marks_HDR:
  assumes "index_wf st" "layout_ok st"
  shows "HDR (clear_all st) b =
    (case HDR st b of Hdr hh \<Rightarrow> Hdr (if HBLK_IS_FREE hh then hh else cleared hh) | Fwd k \<Rightarrow> Fwd k)"
proof -
  have "HDR (clear_all st) = HDR (fold clear_marks_for_block (used_blocks st) st)"
    unfolding clear_all_def by simp
  then show ?thesis
    using fold_clear_HDR [OF assms(1) distinct_used_blocks [OF assms(1)], of b] used_blocks_set [OF assms(1)]
    by (auto simp: is_used_def split: hdr_entry.splits)
qed

text \<open>The state after \<open>GC_clear_marks\<close>.\<close>

lemma GC_clear_marks_fields:
  fixes st :: "'a gc_marker_scheme"
  assumes "layout_ok st"
  defines "st' \<equiv> clear_all st"
  shows "GC_mark_stack st' = GC_mark_stack st" "GC_mark_stack_size st' = GC_mark_stack_size st" "scratch_ok st' = scratch_ok st" "GC_mem st' = GC_mem st"
    "GC_obj_map st' = GC_obj_map st" "GC_valid_offsets st' = GC_valid_offsets st" "GC_modws_valid_offsets st' = GC_modws_valid_offsets st"
    "GC_all_interior_pointers st' = GC_all_interior_pointers st" "GC_least_plausible_heap_addr st' = GC_least_plausible_heap_addr st"
    "GC_greatest_plausible_heap_addr st' = GC_greatest_plausible_heap_addr st" "GC_black_lists st' = GC_black_lists st"
    "GC_mark_state st' = MS_INVALID" "\<not> GC_objects_are_marked st'" "scan_ptr st' = 0" "heap_rest st' = heap_rest st"
  unfolding st'_def clear_all_def
  by (simp_all add: fold_clear_fields)

lemma GC_clear_marks_objs:
  assumes "index_wf st" "layout_ok st"
  shows "same_objs st (clear_all st)"
proof -
  have "strip (HDR (clear_all st) b) = strip (HDR st b)" for b
    using GC_clear_marks_HDR [OF assms, of b] cleared_fields(5) by (cases "HDR st b") (auto simp del: strip.simps)
  then show ?thesis using GC_clear_marks_fields [OF assms(2)] by (simp add: same_objs_def)
qed

lemma count_ok_cleared: "count_ok hh \<Longrightarrow> count_ok (cleared hh)"
proof (cases "IS_UNCOLLECTABLE (hb_obj_kind hh)")
  case False
  let ?F = "FINAL_MARK_BIT (hb_sz hh)"
  have F: "?F \<le> 512" using FINAL_MARK_BIT_le [of "hb_sz hh"] by (simp add: gc_consts)
  have "\<not> mark_bit_from_hdr (cleared hh) n" if "n < ?F" for n
    using that F False cleared_bits [of n hh] by simp
  then have "{n. object_bit (hb_sz (cleared hh)) n \<and> mark_bit_from_hdr (cleared hh) n} = {}" by (auto simp: object_bit_def cleared_fields(1))
  moreover have "hb_n_marks (cleared hh) = 0" using False by (simp add: cleared_def GC_clear_hdr_marks_def Let_def)
  ultimately show ?thesis by (simp add: count_ok_def)
qed (simp add: cleared_def)

lemma GC_clear_marks_ok:
  assumes ok: "marker_ok st"
  shows "marker_ok (clear_all st)"
proof -
  note m = marker_okD [OF ok]
  note H = GC_clear_marks_HDR [OF m(1,2)] and f = GC_clear_marks_fields [OF m(2)]
  have iw: "index_wf (clear_all st)"
    unfolding clear_all_def
    using fold_clear_index [OF m(1)] by (simp add: index_wf_def)
  have "count_ok hh \<and> object_hdr (clear_all st) b hh" if hh: "HDR (clear_all st) b = Hdr hh" "\<not> HBLK_IS_FREE hh" for b hh
  proof -
    obtain hh0 where h0: "HDR st b = Hdr hh0" "hh = cleared hh0" "\<not> HBLK_IS_FREE hh0"
      using hh H [of b] by (cases "HDR st b") (auto simp: cleared_fields split: if_splits)
    note o = m(6) [OF h0(1,3)]
    have "count_ok hh" using m(7) h0 count_ok_cleared by (auto simp: counts_ok_def)
    moreover have "mark_bit_from_hdr hh (FINAL_MARK_BIT (hb_sz hh))"
      using cleared_bits [of "FINAL_MARK_BIT (hb_sz hh0)" hh0] FINAL_MARK_BIT_le [of "hb_sz hh0"] o h0(2)
      by (simp add: object_hdr_def cleared_fields gc_consts split: if_splits)
    moreover have "hb_block hh = hb_block hh0" "hb_map hh = hb_map hh0" "hb_large_block hh = hb_large_block hh0"
      using hdr_fields_eq [of hh hh0] cleared_fields(5) [OF h0(3)] h0(2,3) by (simp_all add: cleared_fields(4))
    ultimately show ?thesis using o h0(2) f(5) by (auto simp: object_hdr_def cleared_fields split: if_splits)
  qed
  then have "counts_ok (clear_all st)" "\<forall>b hh. HDR (clear_all st) b = Hdr hh \<and> \<not> HBLK_IS_FREE hh \<longrightarrow> object_hdr (clear_all st) b hh"
    unfolding counts_ok_def by blast+
  moreover have "HDR (clear_all st) 0 = Fwd 0" using H [of 0] m(8) by simp
  ultimately show ?thesis
    using iw layout_ok_same [OF same_objs_same_layout [OF GC_clear_marks_objs [OF m(1,2)]] m(2)] m(3-5) f
    by (simp add: marker_ok_def maps_ok_def bl_ok_def)
qed

section \<open>A full collection\<close>

text \<open>The objects of the heap, and those that a full collection takes as marked from the start.\<close>

definition objects :: "'a gc_marker_scheme \<Rightarrow> obj set" where
  "objects st = {ob. is_used (HDR st (fst ob)) \<and> object_bit (hb_sz (hdr_at st (fst ob))) (snd ob)}"

definition pinned :: "'a gc_marker_scheme \<Rightarrow> obj set" where
  "pinned st = {ob \<in> marked st \<inter> objects st. IS_UNCOLLECTABLE (hb_obj_kind (hdr_at st (fst ob)))}"

text \<open>
  What a full collection asks for: a heap that can be marked, a mark stack that cannot grow, sound roots, and that
  the kind of atomic uncollectable objects has no pointers.
\<close>

definition collection_ok :: "'a gc_marker_scheme \<Rightarrow> root_env \<Rightarrow> bool" where
  "collection_ok st env \<longleftrightarrow> marker_ok st \<and> phase_heap st \<and> env_ok st env
     \<and> (\<forall>b hh. HDR st b = Hdr hh \<and> \<not> HBLK_IS_FREE hh \<and> IS_UNCOLLECTABLE (hb_obj_kind hh) \<and> hb_obj_kind hh \<noteq> UNCOLLECTABLE \<longrightarrow> hb_descr hh = 0)"

lemma reachable_objs:
  assumes "same_objs st st'" "layout_ok st"
  shows "reachable st' W = reachable st W"
proof -
  have p: "pointee st' = pointee st" by (rule ext) (rule pointee_objs [OF assms])
  have "ob \<in> reachable st' W \<longleftrightarrow> ob \<in> reachable st W" for ob
  proof
    show "ob \<in> reachable st' W \<Longrightarrow> ob \<in> reachable st W"
      by (induction rule: reachable.induct) (auto simp: p contents_objs [OF assms(1)] intro: reachable.intros)
    show "ob \<in> reachable st W \<Longrightarrow> ob \<in> reachable st' W"
      by (induction rule: reachable.induct) (auto simp: p contents_objs [OF assms(1)] intro: reachable.intros)
  qed
  then show ?thesis by blast
qed

lemma roots_objs:
  assumes "same_objs st st'" "layout_ok st"
  shows "root_words st' env = root_words st env" "root_objs st' env = root_objs st env" "env_ok st env \<Longrightarrow> env_ok st' env"
proof -
  have i: "GC_all_interior_pointers st' = GC_all_interior_pointers st" using assms(1) by (simp add: same_objs_def)
  show "root_words st' env = root_words st env" by (simp add: root_words_def stack_words_pushed_def i)
  have "freelist_objs st' fls = freelist_objs st fls" for fls
    using same_objs_HDR(1) [OF assms(1), of _ 0] by (simp add: freelist_objs_def)
  then show "root_objs st' env = root_objs st env"
    by (simp add: root_objs_def stack_words_eager_def stack_objs_def stack_pointee_objs [OF assms] i)
  have "freelist_ok st' fl" if "freelist_ok st fl" for fl
  proof (cases "HDR st (HBLKPTR fl)")
    case (Fwd k)
    then show ?thesis using that same_objs_HDR(1) [OF assms(1), of "HBLKPTR fl" k] by (simp add: freelist_ok_def)
  next
    case (Hdr hh)
    obtain hh' where "HDR st' (HBLKPTR fl) = Hdr hh'" "hb_sz hh' = hb_sz hh" "hb_descr hh' = hb_descr hh" "HBLK_IS_FREE hh' = HBLK_IS_FREE hh"
      using same_objs_hdr [OF assms(1) Hdr] by metis
    then show ?thesis using that Hdr by (simp add: freelist_ok_def)
  qed
  then show "env_ok st env \<Longrightarrow> env_ok st' env" by (auto simp: env_ok_def i)
qed

lemma to_mark_objs: "same_objs st st' \<Longrightarrow> layout_ok st \<Longrightarrow> to_mark st' env U = to_mark st env U"
  by (simp add: to_mark_def roots_objs contents_objs reachable_objs)

text \<open>Objects that are marked but have no contents add nothing to what is reachable.\<close>

lemma to_mark_leaves:
  assumes "\<And>ob. ob \<in> X \<Longrightarrow> contents st ob = {}"
  shows "to_mark st env (U \<union> X) = to_mark st env U \<union> X"
proof -
  have "\<Union> (contents st ` (U \<union> X \<union> root_objs st env)) = \<Union> (contents st ` (U \<union> root_objs st env))" using assms by auto
  then show ?thesis unfolding to_mark_def by auto
qed

lemma contents_objects: "ob \<notin> objects st \<Longrightarrow> contents st ob = {}"
  by (auto simp: objects_def contents_def)

lemma cleared_marks:
  assumes ok: "index_wf st" "layout_ok st" and ob: "ob \<in> objects st"
  shows "ob \<in> marked (clear_all st) \<longleftrightarrow> ob \<in> pinned st"
proof -
  obtain b n where bn: "ob = (b, n)" by (cases ob)
  obtain hh where hh: "HDR st b = Hdr hh" "\<not> HBLK_IS_FREE hh" using ob by (auto simp: bn objects_def elim: is_usedE)
  have n: "n < FINAL_MARK_BIT (hb_sz hh)" using ob hh(1) by (simp add: bn objects_def hdr_at_def object_bit_def)
  then have "n \<le> 512" using FINAL_MARK_BIT_le [of "hb_sz hh"] by (simp add: gc_consts)
  have "ob \<in> marked (clear_all st) \<longleftrightarrow> mark_bit_from_hdr (cleared hh) n"
    using GC_clear_marks_HDR [OF ok, of b] hh by (simp add: bn marked_def)
  also have "\<dots> \<longleftrightarrow> IS_UNCOLLECTABLE (hb_obj_kind hh) \<and> mark_bit_from_hdr hh n" using cleared_bits [OF \<open>n \<le> 512\<close>] n by simp
  also have "\<dots> \<longleftrightarrow> ob \<in> pinned st" using ob hh(1) by (auto simp: bn pinned_def marked_def hdr_at_def)
  finally show ?thesis .
qed

lemma full_collection_ready:
  assumes ok: "collection_ok st env"
  obtains c where "Option.bind (GC_clear_marks (GC_invalidate_mark_state st)) GC_initiate_gc = Some c" "phase_ready c env" "same_objs st c"
    "marked c \<inter> objects st = pinned st"
proof -
  let ?i = "GC_invalidate_mark_state st"
  let ?c = "clear_all ?i"
  have o: "marker_ok st" "phase_heap st" "env_ok st env" using ok by (simp_all add: collection_ok_def)
  have ci: "ctl_eq st ?i"
    using ctl_eq_trans [OF ctl_eq_upd(5) [of st MS_INVALID] ctl_eq_upd(4)] by (simp add: GC_invalidate_mark_state_def)
  note di = ctl_eqD [OF ci]
  have oi: "marker_ok ?i" using di(2) o(1) by simp
  note m = marker_okD [OF oi] and f = GC_clear_marks_fields [OF marker_okD(2) [OF oi]]
  define c where "c = ?c\<lparr> GC_n_rescuing_pages := 0, scan_ptr := 0 \<rparr>"
  have run: "Option.bind (GC_clear_marks ?i) GC_initiate_gc = Some c"
    using f(12) GC_clear_marks_all [OF m(1,2)] by (simp add: GC_initiate_gc_def c_def)
  have cc: "ctl_eq ?c c" using ctl_eq_trans [OF ctl_eq_upd(2) [of ?c 0] ctl_eq_upd(1)] by (simp add: c_def)
  note dc = ctl_eqD [OF cc]
  have so: "same_objs st c" using same_objs_trans [OF same_objs_trans [OF di(1) GC_clear_marks_objs [OF m(1,2)]] dc(1)] .
  have obs: "objects ?i = objects st" "pinned ?i = pinned st" by (simp_all add: objects_def pinned_def di(3,4) hdr_at_def)
  have mk: "marked c \<inter> objects st = pinned st"
    using cleared_marks [OF m(1,2)] obs dc(3) by (auto simp: pinned_def)
  have "hb_obj_kind (hdr_at c (fst ob)) = UNCOLLECTABLE" if ob: "ob \<in> marked c" "contents c ob \<noteq> {}" for ob
  proof -
    have ne: "contents st ob \<noteq> {}" using ob(2) contents_objs [OF so] by simp
    then have "ob \<in> objects st" using contents_objects by blast
    then have p: "ob \<in> pinned st" using mk ob(1) by blast
    obtain hh where hh: "HDR st (fst ob) = Hdr hh" "\<not> HBLK_IS_FREE hh" by (rule contents_used [OF ne])
    have "hb_descr hh \<noteq> 0" using contents_unused [OF hh(1), of "snd ob"] ne by simp
    moreover have "IS_UNCOLLECTABLE (hb_obj_kind hh)" using p hh(1) by (simp add: pinned_def hdr_at_def)
    ultimately have k: "hb_obj_kind hh = UNCOLLECTABLE" using ok hh unfolding collection_ok_def by metis
    obtain hh' where "HDR c (fst ob) = Hdr hh'" "hb_obj_kind hh' = hb_obj_kind hh" using same_objs_HDR(2) [OF so hh(1)] hdr_fields_eq(7) by metis
    then show ?thesis using k by (simp add: hdr_at_def)
  qed
  moreover have "phase_heap c" using phase_heap_objs [OF so _ _ o(2)] f(2,3) by (simp add: c_def GC_invalidate_mark_state_def)
  moreover have "marker_ok c" using dc(2) GC_clear_marks_ok [OF oi] by simp
  moreover have "env_ok c env" by (rule roots_objs(3) [OF so marker_okD(2) [OF o(1)] o(3)])
  ultimately have "phase_ready c env" using f by (simp add: phase_ready_def c_def GC_invalidate_mark_state_def)
  from that [OF run this so mk] show thesis .
qed

lemma ctl_gc_no: "ctl_eq st (st\<lparr> GC_gc_no := n \<rparr>)"
proof -
  have "HDR (st\<lparr> GC_gc_no := n \<rparr>) = HDR st" by (rule HDR_cong; simp)
  then show ?thesis by (simp add: ctl_eq_def index_wf_def)
qed

lemma collection_marks_run:
  fixes st :: "'a gc_marker_scheme"
  assumes "collection_ok st env"
  shows "\<exists>finished i st'. collect_mark procs recycle env stop st = Some (finished, i, st') \<and> marker_ok st' \<and> same_objs st st'
    \<and> marked st' \<inter> objects st \<subseteq> to_mark st env (pinned st)
    \<and> (finished \<longrightarrow> GC_mark_state st' = MS_NONE \<and> GC_mark_stack st' = [] \<and> marked st' \<inter> objects st = to_mark st env (pinned st) \<inter> objects st)
    \<and> ((\<forall>k. \<not> stop k) \<longrightarrow> finished)"
proof -
  obtain c where c: "Option.bind (GC_clear_marks (GC_invalidate_mark_state st)) GC_initiate_gc = Some c" "phase_ready c env" "same_objs st c"
      "marked c \<inter> objects st = pinned st"
    by (rule full_collection_ready [OF assms])
  have lay: "layout_ok st" "layout_ok c" using assms c(2) layout_marker by (auto simp: collection_ok_def phase_ready_def)
  let ?R = "root_words c env" and ?S = "to_mark c env (marked c)"
  note start = phase_ready_start [OF c(2)]
  obtain finished i d where d: "stopped_mark_loop procs recycle env stop 0 c = Some (finished, i, d)"
      "if finished then phase_end c env ?R ?S d else stop i \<and> phase_inv c env ?R ?S d"
    using stopped_mark_loop_ok [OF start, of procs recycle stop 0] by blast
  define st' where "st' = (if finished then d\<lparr> GC_gc_no := wadd (GC_gc_no d) 1 \<rparr> else d)"
  have ctl: "ctl_eq d st'" by (simp add: st'_def ctl_gc_no)
  note cd = ctl_eqD [OF ctl]
  have run: "collect_mark procs recycle env stop st = Some (finished, i, st')"
    using c(1) d(1) by (cases "GC_clear_marks (GC_invalidate_mark_state st)") (simp_all add: collect_mark_def GC_stopped_mark_def st'_def)
  have S: "?S \<inter> objects st = to_mark st env (pinned st) \<inter> objects st"
  proof -
    let ?X = "marked c - objects st"
    have "marked c = pinned st \<union> ?X" using c(4) by blast
    moreover have "contents st ob = {}" if "ob \<in> ?X" for ob using that contents_objects by blast
    ultimately have "to_mark st env (marked c) = to_mark st env (pinned st) \<union> ?X" using to_mark_leaves [of ?X st env "pinned st"] by metis
    then show ?thesis using to_mark_objs [OF c(3) lay(1)] by auto
  qed
  have D: "marked d \<subseteq> ?S \<and> same_objs c d \<and> marker_ok d"
  proof (cases finished)
    case True
    then show ?thesis using d(2) phase_end_marked [OF _ lay(2)] by auto
  next
    case False
    then have "scan_base ?R ?S d" "same_objs c d" using d(2) by (simp_all add: phase_inv_def scan_inv_def)
    then show ?thesis using scan_baseD(1,5) [of ?R ?S d] by blast
  qed
  then have "same_objs st st'" using same_objs_trans [OF c(3) same_objs_trans [OF _ cd(1)]] by blast
  moreover have "marked st' \<inter> objects st \<subseteq> to_mark st env (pinned st)" "marker_ok st'" using S cd(2,3) D by auto
  moreover have "GC_mark_state st' = MS_NONE \<and> GC_mark_stack st' = [] \<and> marked st' \<inter> objects st = to_mark st env (pinned st) \<inter> objects st" if finished
    using that d(2) S cd(3) phase_end_marked(1) [OF _ lay(2)] by (auto simp: st'_def phase_end_def)
  moreover have "(\<forall>k. \<not> stop k) \<longrightarrow> finished" using d(2) by (auto split: if_splits)
  ultimately show ?thesis using run by blast
qed


text \<open>
  The heap of one block of 16-byte objects, with a mark stack that cannot grow. The root words are 100 and 101, and
  word 100 points to the first object.
\<close>

definition full_sample :: "'a \<Rightarrow> 'a gc_marker_scheme" where
  "full_sample x = (sample_marker x)\<lparr> scratch_ok := (\<lambda>_. False) \<rparr>"

definition sample_roots :: root_tables where
  "sample_roots = \<lparr> GC_static_roots = (\<lambda>_. \<lparr> r_start = 400, r_end = 408, r_next = None, r_tmp = False \<rparr>), n_root_sets = 1,
     GC_root_index = (\<lambda>_. None), GC_root_size = 8, roots_were_cleared = False, GC_excl_table = [\<lparr> e_start = 800, e_end = 804 \<rparr>] \<rparr>"

definition sample_env :: root_env where
  "sample_env = \<lparr> re_roots = sample_roots, re_freelists = [], re_structures = [], GC_no_dls = False, re_approx_sp = 4000, GC_stackbottom = 4000,
     GC_traced_stack_sect = [], cold_gc_frame = 0, GC_dirty_maintained = False, GC_page_was_dirty = (\<lambda>_. False) \<rparr>"

lemma HDR_full_sample: "HDR (full_sample x) = HDR (sample_marker x)"
  unfolding full_sample_def by simp

lemma same_sample: "ctl_eq (sample_marker x) (full_sample x)"
  by (simp add: full_sample_def)

lemma env_ok_sample: "env_ok (full_sample x) sample_env"
proof -
  have "pushed_ranges [\<lparr> e_start = 800, e_end = 804 \<rparr>] 400 408 = Some [(400, 408)]"
    by (simp add: pushed_ranges.simps GC_next_exclusion_def next_exclusion_loop.simps)
  then have "static_ranges sample_roots 0 = [(400, 408)]" by (simp add: static_ranges_def sample_roots_def)
  then have "n_root_ranges sample_env = 2" by (simp add: n_root_ranges_def sample_env_def sample_roots_def)
  moreover have "root_tables_ok sample_roots" by (simp add: root_tables_ok_def sample_roots_def excl_ok_def aligned_def)
  ultimately show ?thesis by (simp add: env_ok_def sample_env_def aligned_def gc_consts)
qed

lemma collection_ok_sample: "collection_ok (full_sample x) sample_env"
proof -
  have hh: "HDR (full_sample x) b = Hdr hh \<Longrightarrow> b = 5 \<and> hh = sample_obj_hdr" for b hh by (simp add: HDR_full_sample HDR_sample_marker split: if_splits)
  have "hb_flags sample_obj_hdr = 0" "hb_obj_kind sample_obj_hdr = 0" by (simp_all add: sample_obj_hdr_def zero_hdr_def)
  then have s: "hb_flags sample_obj_hdr AND IGNORE_OFF_PAGE = 0" "\<not> IS_UNCOLLECTABLE (hb_obj_kind sample_obj_hdr)" "whole_descr sample_obj_hdr"
    by (simp_all add: IS_UNCOLLECTABLE_def UNCOLLECTABLE_def whole_descr_def)
  have "phase_heap (full_sample x)"
    unfolding phase_heap_def
  proof (intro conjI allI impI)
    show "INITIAL_MARK_STACK_SIZE \<le> GC_mark_stack_size (full_sample x)" "scratch_ok (full_sample x) = (\<lambda>_. False)"
      by (simp_all add: full_sample_def sample_marker_def gc_consts)
    show "free_sizes_ok (full_sample x)" "uniform_pointers (full_sample x)" using s(1) by (auto simp: free_sizes_ok_def uniform_pointers_def dest!: hh)
    show "b + blocks_of g < 2 ^ 20" "whole_descr g" if "HDR (full_sample x) b = Hdr g \<and> \<not> HBLK_IS_FREE g" for b g
      using that hh [of b g] s(3) by auto
  qed
  moreover have "marker_ok (full_sample x)" using ctl_eqD(2) [OF same_sample [of x]] marker_ok_sample [of x] by simp
  ultimately show ?thesis using env_ok_sample [of x] s(2) by (auto simp: collection_ok_def dest!: hh)
qed

lemma sample_to_mark:
  "(5, 0) \<in> to_mark (full_sample x) sample_env (pinned (full_sample x))" "(5, 2) \<in> to_mark (full_sample x) sample_env (pinned (full_sample x))"
  "(5, 0) \<in> objects (full_sample x)" "(5, 2) \<in> objects (full_sample x)"
proof -
  let ?W = "root_words (full_sample x) sample_env \<union> \<Union> (contents (full_sample x) ` (pinned (full_sample x) \<union> root_objs (full_sample x) sample_env))"
  note d = ctl_eqD [OF same_sample [of x]]
  have p: "pointee (full_sample x) 100 = Some (5, 0)" "pointee (full_sample x) 5120 = Some (5, 2)"
    using sample_pointees [of x] pointee_objs [OF d(1) marker_okD(2) [OF marker_ok_sample [of x]]] by simp_all
  have "100 \<in> static_words sample_roots"
    by (simp add: static_words_def root_addrs_def root_list_def entry_at_def sample_roots_def excluded_def)
  then have 0: "(5, 0) \<in> reachable (full_sample x) ?W" using p(1) by (auto intro!: reachable.root [of 100] simp: root_words_def sample_env_def)
  have "5120 \<in> contents (full_sample x) (5, 0)"
    by (simp add: contents_def is_used_def object_bit_def entry_of_def hdr_at_def HDR_full_sample HDR_sample_marker FINAL_MARK_BIT_def HBLK_OBJS_def gc_consts
        BYTES_TO_GRANULES_def entry_words_def hblk_addr_def)
  then have 2: "(5, 2) \<in> reachable (full_sample x) ?W" using 0 p(2) by (auto intro: reachable.step)
  show "(5, 0) \<in> objects (full_sample x)" "(5, 2) \<in> objects (full_sample x)"
    by (simp_all add: objects_def is_used_def object_bit_def hdr_at_def HDR_full_sample HDR_sample_marker FINAL_MARK_BIT_def HBLK_OBJS_def gc_consts BYTES_TO_GRANULES_def)
  show "(5, 0) \<in> to_mark (full_sample x) sample_env (pinned (full_sample x))" "(5, 2) \<in> to_mark (full_sample x) sample_env (pinned (full_sample x))"
    using 0 2 by (simp_all add: to_mark_def)
qed


end
