(* ===== verification/Free_Objs.thy ===== *)
theory Free_Objs
  imports Mark_From
begin

text \<open>
  Free lists of small objects (\<^verbatim>\<open>bdwgc/new_hblk.c\<close>): the objects of a new block are threaded through their
  first words, with loops of their own for objects of two and of four words. All the loops are shown to
  agree with one description of the resulting memory.
\<close>

section \<open>State\<close>

text \<open>
  What allocation and sweeping of objects keep beside the state of the marker. The arrays \<open>ok_freelist\<close> and
  \<open>ok_reclaim_list\<close> of \<open>struct obj_kind\<close> are indexed by the kind first, and \<open>ok_reclaim_list\<close> is \<open>None\<close> for a null pointer.
  \<open>GC_bytes_found\<close> is a signed word in two's complement. \<open>GC_n_leaked\<close> is the length of \<open>GC_leaked\<close>.
\<close>

record gc_alloc = gc_marker +
  ok_freelist :: "nat \<Rightarrow> nat \<Rightarrow> addr"
  ok_reclaim_list :: "nat \<Rightarrow> (nat \<Rightarrow> hblk) option"
  GC_n_kinds :: nat
  GC_bytes_found :: nat
  GC_composite_in_use :: nat
  GC_atomic_in_use :: nat
  GC_leaked :: "addr list"
  GC_have_errors :: bool

type_synonym memory = "nat \<Rightarrow> 32 word"

definition obj_link :: "memory \<Rightarrow> addr \<Rightarrow> addr" where
  "obj_link mem p = unat (mem (p div 4))"

definition set_link :: "addr \<Rightarrow> addr \<Rightarrow> memory \<Rightarrow> memory" where
  "set_link p v mem = mem(p div 4 := word_of_nat v)"

section \<open>Building the free list of a block\<close>

text \<open>The pointers \<open>p\<close> of these loops are counted in words; the pointer itself is \<open>4 * p\<close>.\<close>

definition ptr :: "nat \<Rightarrow> 32 word" where
  "ptr w = word_of_nat (4 * w)"

function build_clear2_loop :: "nat \<Rightarrow> nat \<Rightarrow> memory \<Rightarrow> nat \<times> memory" where
  "build_clear2_loop p lim mem =
     (if p < lim
      then build_clear2_loop (p + 4) lim (mem(p := ptr (p - 2), p + 1 := 0, p + 2 := ptr p, p + 3 := 0))
      else (p, mem))"
  by pat_completeness auto
termination
  by (relation "measure (\<lambda>(p, lim, mem). lim - p)") auto

definition GC_build_fl_clear2 :: "hblk \<Rightarrow> addr \<Rightarrow> memory \<Rightarrow> addr \<times> memory" where
  "GC_build_fl_clear2 h ofl mem =
     (let p = hblk_addr h div 4; lim = hblk_addr (h + 1) div 4;
          (p', mem') = build_clear2_loop (p + 4) lim (mem(p := word_of_nat ofl, p + 1 := 0, p + 2 := ptr p, p + 3 := 0)) in
      (4 * (p' - 2), mem'))"

function build_clear4_loop :: "nat \<Rightarrow> nat \<Rightarrow> memory \<Rightarrow> nat \<times> memory" where
  "build_clear4_loop p lim mem =
     (if p < lim
      then build_clear4_loop (p + 4) lim (mem(p := ptr (p - 4), p + 1 := 0, p + 2 := 0, p + 3 := 0))
      else (p, mem))"
  by pat_completeness auto
termination
  by (relation "measure (\<lambda>(p, lim, mem). lim - p)") auto

definition GC_build_fl_clear4 :: "hblk \<Rightarrow> addr \<Rightarrow> memory \<Rightarrow> addr \<times> memory" where
  "GC_build_fl_clear4 h ofl mem =
     (let p = hblk_addr h div 4; lim = hblk_addr (h + 1) div 4;
          (p', mem') = build_clear4_loop (p + 4) lim (mem(p := word_of_nat ofl, p + 1 := 0, p + 2 := 0, p + 3 := 0)) in
      (4 * (p' - 4), mem'))"

function build2_loop :: "nat \<Rightarrow> nat \<Rightarrow> memory \<Rightarrow> nat \<times> memory" where
  "build2_loop p lim mem =
     (if p < lim then build2_loop (p + 4) lim (mem(p := ptr (p - 2), p + 2 := ptr p)) else (p, mem))"
  by pat_completeness auto
termination
  by (relation "measure (\<lambda>(p, lim, mem). lim - p)") auto

definition GC_build_fl2 :: "hblk \<Rightarrow> addr \<Rightarrow> memory \<Rightarrow> addr \<times> memory" where
  "GC_build_fl2 h ofl mem =
     (let p = hblk_addr h div 4; lim = hblk_addr (h + 1) div 4;
          (p', mem') = build2_loop (p + 4) lim (mem(p := word_of_nat ofl, p + 2 := ptr p)) in
      (4 * (p' - 2), mem'))"

function build4_loop :: "nat \<Rightarrow> nat \<Rightarrow> memory \<Rightarrow> nat \<times> memory" where
  "build4_loop p lim mem =
     (if p < lim then build4_loop (p + 8) lim (mem(p := ptr (p - 4), p + 4 := ptr p)) else (p, mem))"
  by pat_completeness auto
termination
  by (relation "measure (\<lambda>(p, lim, mem). lim - p)") auto

definition GC_build_fl4 :: "hblk \<Rightarrow> addr \<Rightarrow> memory \<Rightarrow> addr \<times> memory" where
  "GC_build_fl4 h ofl mem =
     (let p = hblk_addr h div 4; lim = hblk_addr (h + 1) div 4;
          (p', mem') = build4_loop (p + 8) lim (mem(p := word_of_nat ofl, p + 4 := ptr p)) in
      (4 * (p' - 4), mem'))"

declare build_clear2_loop.simps [simp del] build_clear4_loop.simps [simp del] build2_loop.simps [simp del] build4_loop.simps [simp del]

text \<open>The loop for other sizes, which would not end for a size of 0.\<close>

function build_loop :: "nat \<Rightarrow> nat \<Rightarrow> nat \<Rightarrow> nat \<Rightarrow> memory \<Rightarrow> nat \<times> memory" where
  "build_loop sz last_object p prev mem =
     (if p \<le> last_object \<and> sz \<noteq> 0
      then build_loop sz last_object (p + sz) p (mem(p := ptr prev))
      else (p, mem))"
  by pat_completeness auto
termination
  by (relation "measure (\<lambda>(sz, last_object, p, prev, mem). Suc last_object - p)") auto

declare build_loop.simps [simp del]

definition GC_build_fl :: "hblk \<Rightarrow> nat \<Rightarrow> bool \<Rightarrow> addr \<Rightarrow> memory \<Rightarrow> addr \<times> memory" where
  "GC_build_fl h sz clear list mem =
     (if sz = 2 then (if clear then GC_build_fl_clear2 h list mem else GC_build_fl2 h list mem)
      else if sz = 4 then (if clear then GC_build_fl_clear4 h list mem else GC_build_fl4 h list mem)
      else
        (let mem1 = (if clear then bzero_block h mem else mem);
             base = hblk_addr h div 4;
             last_object = hblk_addr (h + 1) div 4 - sz;
             (p, mem2) = build_loop sz last_object (base + sz) base mem1 in
         (4 * (p - sz), mem2(base := word_of_nat list))))"

text \<open>\<open>None\<close> is a search of \<open>GC_allochblk\<close> that does not end.\<close>

definition GC_new_hblk :: "nat \<Rightarrow> nat \<Rightarrow> 'a gc_alloc_scheme \<Rightarrow> 'a gc_alloc_scheme option" where
  "GC_new_hblk gran kind st =
     (let clear = ok_init (GC_obj_kinds st kind) \<or> GC_debugging_started st in
      case GC_allochblk (gran * GRANULE_BYTES) kind 0 st of
        None \<Rightarrow> None
      | Some (h, st1) \<Rightarrow>
          (if h = 0 then Some st1
           else
             (let st2 = (if IS_UNCOLLECTABLE kind then upd_hdr h GC_set_hdr_marks st1 else st1);
                  (list, mem) = GC_build_fl h (2 * gran) clear (ok_freelist st2 kind gran) (GC_mem st2) in
              Some (st2\<lparr> GC_mem := mem, ok_freelist := (ok_freelist st2)(kind := (ok_freelist st2 kind)(gran := list)) \<rparr>))))"

section \<open>What the loops leave behind\<close>

text \<open>
  The memory after a free list was built: the first word of each object but the first leads to the
  object in front of it, and that of the first object to the old list.
\<close>

definition fl_word :: "hblk \<Rightarrow> nat \<Rightarrow> bool \<Rightarrow> addr \<Rightarrow> memory \<Rightarrow> memory" where
  "fl_word h sz clear list mem w =
     (if w div 1024 = h
      then (let i = w mod 1024 in
            if i mod sz = 0 \<and> i + sz \<le> 1024 then (if i = 0 then word_of_nat list else ptr (w - sz))
            else if clear then 0 else mem w)
      else mem w)"

text \<open>Loops that write a window of \<open>s\<close> words at a time.\<close>

locale stride_loop =
  fixes L :: "nat \<Rightarrow> nat \<Rightarrow> memory \<Rightarrow> nat \<times> memory" and s :: nat
    and W :: "nat \<Rightarrow> memory \<Rightarrow> memory" and G :: "nat \<Rightarrow> 32 word \<Rightarrow> 32 word"
  assumes pos: "0 < s"
    and step: "L p lim mem = (if p < lim then L (p + s) lim (W p mem) else (p, mem))"
    and window: "s dvd p \<Longrightarrow> W p mem w = (if p \<le> w \<and> w < p + s then G w (mem w) else mem w)"
begin

lemma run:
  assumes "s dvd p" "s dvd lim" "p \<le> lim"
  shows "L p lim mem = (lim, \<lambda>w. if p \<le> w \<and> w < lim then G w (mem w) else mem w)"
  using assms
proof (induction "lim - p" arbitrary: p mem rule: less_induct)
  case less
  show ?case
  proof (cases "p < lim")
    case True
    have "s dvd lim - p" using less.prems by simp
    then have le: "p + s \<le> lim" using True by (auto dest: dvd_imp_le)
    have "L p lim mem = L (p + s) lim (W p mem)" using True step [of p] by simp
    also have "\<dots> = (lim, \<lambda>w. if p + s \<le> w \<and> w < lim then G w (W p mem w) else W p mem w)"
      by (rule less.hyps) (use True less.prems le pos in auto)
    also have "\<dots> = (lim, \<lambda>w. if p \<le> w \<and> w < lim then G w (mem w) else mem w)"
      using le window [OF less.prems(1)] by (auto simp: fun_eq_iff)
    finally show ?thesis .
  next
    case False
    then have "(\<lambda>w. if p \<le> w \<and> w < lim then G w (mem w) else mem w) = mem" by (auto simp: fun_eq_iff)
    then show ?thesis using False less.prems(3) step [of p] by simp
  qed
qed

end

lemma window4:
  assumes "4 dvd p"
  shows "p \<le> w \<and> w < p + 4 \<longleftrightarrow> w = p \<or> w = p + 1 \<or> w = p + 2 \<or> w = p + (3::nat)"
    "p mod 2 = 0" "p mod 4 = 0" "(p + 1) mod 2 = 1" "(p + 3) mod 2 = 1" "(p + 1) mod 4 = 1" "(p + 2) mod 4 = 2" "(p + 3) mod 4 = 3" "(p + 2) mod 2 = 0"
  using assms by presburger+

interpretation clear2: stride_loop build_clear2_loop 4 "\<lambda>p mem. mem(p := ptr (p - 2), p + 1 := 0, p + 2 := ptr p, p + 3 := 0)"
  "\<lambda>w x. if w mod 2 = 0 then ptr (w - 2) else 0"
  by unfold_locales (simp, rule build_clear2_loop.simps, auto simp: window4)

interpretation clear4: stride_loop build_clear4_loop 4 "\<lambda>p mem. mem(p := ptr (p - 4), p + 1 := 0, p + 2 := 0, p + 3 := 0)"
  "\<lambda>w x. if w mod 4 = 0 then ptr (w - 4) else 0"
proof unfold_locales
  show "(mem(p := ptr (p - 4), p + 1 := 0, p + 2 := 0, p + 3 := 0)) w = (if p \<le> w \<and> w < p + 4 then if w mod 4 = 0 then ptr (w - 4) else 0 else mem w)"
    if "4 dvd p" for p w and mem :: memory
  proof -
    have "p \<le> w \<and> w < p + 4 \<and> w mod 4 = 0 \<longleftrightarrow> w = p" using that by presburger
    then show ?thesis using window4(1) [OF that, of w] by auto
  qed
qed (simp, rule build_clear4_loop.simps)

interpretation plain2: stride_loop build2_loop 4 "\<lambda>p mem. mem(p := ptr (p - 2), p + 2 := ptr p)"
  "\<lambda>w x. if w mod 2 = 0 then ptr (w - 2) else x"
  by unfold_locales (simp, rule build2_loop.simps, auto simp: window4)

interpretation plain4: stride_loop build4_loop 8 "\<lambda>p mem. mem(p := ptr (p - 4), p + 4 := ptr p)"
  "\<lambda>w x. if w mod 4 = 0 then ptr (w - 4) else x"
proof unfold_locales
  show "(mem(p := ptr (p - 4), p + 4 := ptr p)) w = (if p \<le> w \<and> w < p + 8 then if w mod 4 = 0 then ptr (w - 4) else mem w else mem w)"
    if "8 dvd p" for p w and mem :: memory
  proof -
    have "p \<le> w \<and> w < p + 8 \<and> w mod 4 = 0 \<longleftrightarrow> w = p \<or> w = p + 4" using that by presburger
    then show ?thesis by auto
  qed
qed (simp, rule build4_loop.simps)

lemma build_loop_run:
  assumes "0 < sz" "sz \<le> p" "p \<le> e + sz"
  shows "\<exists>k. build_loop sz e p (p - sz) mem =
    (p + k * sz, \<lambda>w. if p \<le> w \<and> w \<le> e \<and> (w - p) mod sz = 0 then ptr (w - sz) else mem w) \<and> e < p + k * sz \<and> p + k * sz \<le> e + sz"
  using assms
proof (induction "Suc e - p" arbitrary: p mem rule: less_induct)
  case less
  show ?case
  proof (cases "p \<le> e")
    case True
    let ?m = "mem(p := ptr (p - sz))"
    obtain k where k: "build_loop sz e (p + sz) (p + sz - sz) ?m =
        (p + sz + k * sz, \<lambda>w. if p + sz \<le> w \<and> w \<le> e \<and> (w - (p + sz)) mod sz = 0 then ptr (w - sz) else ?m w)"
        "e < p + sz + k * sz" "p + sz + k * sz \<le> e + sz"
      using less.hyps [of "p + sz" ?m, OF _ less.prems(1)] less.prems True by fastforce
    have "(if p + sz \<le> w \<and> w \<le> e \<and> (w - (p + sz)) mod sz = 0 then ptr (w - sz) else ?m w)
        = (if p \<le> w \<and> w \<le> e \<and> (w - p) mod sz = 0 then ptr (w - sz) else mem w)" for w
    proof (cases "p + sz \<le> w")
      case True
      then have "(w - p) mod sz = (w - (p + sz)) mod sz" by (simp add: le_mod_geq)
      then show ?thesis using True less.prems(1) by auto
    next
      case False
      then have "w - p < sz" "p \<le> w \<Longrightarrow> w - p = 0 \<longleftrightarrow> w = p" using less.prems(1) by auto
      then show ?thesis using False \<open>p \<le> e\<close> by (auto simp: mod_less simp del: mod_0_imp_dvd mod_eq_0_iff_dvd dvd_eq_mod_eq_0)
    qed
    then show ?thesis using k True less.prems(1) by (intro exI [of _ "Suc k"]) (simp add: build_loop.simps [of sz e p] add_ac)
  next
    case False
    then show ?thesis using less.prems by (intro exI [of _ 0]) (auto simp: build_loop.simps [of sz e p] fun_eq_iff)
  qed
qed

lemma block_words: "hblk_addr h div 4 = 1024 * h" "hblk_addr (h + 1) div 4 = 1024 * h + 1024" "bzero_block h mem w = (if w div 1024 = h then 0 else mem w)"
  by (simp_all add: hblk_addr_def HBLKSIZE_def bzero_block_def)

lemma in_block_iff: "w div 1024 = h \<longleftrightarrow> 1024 * h \<le> w \<and> w < 1024 * h + (1024::nat)"
proof
  assume "w div 1024 = h"
  then show "1024 * h \<le> w \<and> w < 1024 * h + 1024" using div_mult_mod_eq [of w 1024] mod_less_divisor [of 1024 w] by linarith
qed (auto intro!: div_nat_eqI)

lemma block_offset: "w div 1024 = h \<Longrightarrow> w = 1024 * h + w mod (1024::nat)"
  using div_mult_mod_eq [of w 1024] by simp

text \<open>All the special loops together: whatever they write in a block is what the description says.\<close>

lemma fl_wordI:
  assumes "s dvd 1024" "0 < s" "s \<le> c" "c \<le> 1024"
    and first: "\<And>w. 1024 * h \<le> w \<Longrightarrow> w < 1024 * h + c \<Longrightarrow> m w = (if w = 1024 * h then word_of_nat list else if w mod s = 0 then ptr (w - s) else if clear then 0 else mem w)"
    and other: "\<And>w. w < 1024 * h \<or> 1024 * h + c \<le> w \<Longrightarrow> m w = mem w"
  shows "(\<lambda>w. if 1024 * h + c \<le> w \<and> w < 1024 * h + 1024 then (if w mod s = 0 then ptr (w - s) else if clear then 0 else m w) else m w)
    = fl_word h s clear list mem"
proof
  fix w
  show "(if 1024 * h + c \<le> w \<and> w < 1024 * h + 1024 then (if w mod s = 0 then ptr (w - s) else if clear then 0 else m w) else m w)
    = fl_word h s clear list mem w"
  proof (cases "w div 1024 = h")
    case True
    then have r: "1024 * h \<le> w" "w < 1024 * h + 1024" by (simp_all add: in_block_iff)
    have m: "w mod 1024 mod s = w mod s" using assms(1) by (rule mod_mod_cancel)
    have "w mod 1024 + s \<le> 1024" if "w mod s = 0"
    proof -
      have "s dvd 1024 - w mod 1024" using that assms(1) m by (simp add: dvd_eq_mod_eq_0 [symmetric] dvd_diff_nat)
      then show ?thesis using dvd_imp_le [of s "1024 - w mod 1024"] mod_less_divisor [of 1024 w] by linarith
    qed
    moreover have "w mod 1024 = 0 \<longleftrightarrow> w = 1024 * h" using block_offset [OF True] by linarith
    moreover have "w = 1024 * h \<Longrightarrow> w mod s = 0" using assms(1) by (simp add: dvd_eq_mod_eq_0 [symmetric])
    ultimately show ?thesis using True r m first [of w] other [of w] assms(2,3) by (auto simp: fl_word_def Let_def)
  next
    case False
    then have "w < 1024 * h \<or> 1024 * h + 1024 \<le> w" by (auto simp: in_block_iff)
    then show ?thesis using False other [of w] assms(4) by (auto simp: fl_word_def)
  qed
qed

lemma window8:
  assumes "8 dvd (b::nat)"
  shows "4 dvd b" "4 dvd b + 4" "8 dvd b + 8" "b \<le> w \<Longrightarrow> w < b + 4 \<Longrightarrow> w mod 4 = 0 \<longleftrightarrow> w = b"
    "b \<le> w \<Longrightarrow> w < b + 8 \<Longrightarrow> w mod 4 = 0 \<longleftrightarrow> w = b \<or> w = b + 4" "b \<le> w \<Longrightarrow> w < b + 4 \<Longrightarrow> w mod 2 = 0 \<longleftrightarrow> w = b \<or> w = b + 2"
  using assms by presburger+

lemma first_window:
  assumes "8 dvd b" "b \<le> w"
  shows "w < b + 4 \<Longrightarrow> (mem(b := x, b + 1 := 0, b + 2 := ptr b, b + 3 := 0)) w = (if w = b then x else if w mod 2 = 0 then ptr (w - 2) else 0)"
    "w < b + 4 \<Longrightarrow> (mem(b := x, b + 1 := 0, b + 2 := 0, b + 3 := 0)) w = (if w = b then x else if w mod 4 = 0 then ptr (w - 4) else 0)"
    "w < b + 4 \<Longrightarrow> (mem(b := x, b + 2 := ptr b)) w = (if w = b then x else if w mod 2 = 0 then ptr (w - 2) else mem w)"
    "w < b + 8 \<Longrightarrow> (mem(b := x, b + 4 := ptr b)) w = (if w = b then x else if w mod 4 = 0 then ptr (w - 4) else mem w)"
proof -
  note w = window8 [OF assms(1)]
  have e: "w = b \<or> w = b + 1 \<or> w = b + 2 \<or> w = b + 3" if "w < b + 4" using that assms(2) by linarith
  show "w < b + 4 \<Longrightarrow> (mem(b := x, b + 1 := 0, b + 2 := ptr b, b + 3 := 0)) w = (if w = b then x else if w mod 2 = 0 then ptr (w - 2) else 0)"
    using w(6) [OF assms(2)] e by (auto simp del: One_nat_def)
  show "w < b + 4 \<Longrightarrow> (mem(b := x, b + 1 := 0, b + 2 := 0, b + 3 := 0)) w = (if w = b then x else if w mod 4 = 0 then ptr (w - 4) else 0)"
    using w(4) [OF assms(2)] e by (auto simp del: One_nat_def)
  show "w < b + 4 \<Longrightarrow> (mem(b := x, b + 2 := ptr b)) w = (if w = b then x else if w mod 2 = 0 then ptr (w - 2) else mem w)"
    using w(6) [OF assms(2)] by auto
  show "w < b + 8 \<Longrightarrow> (mem(b := x, b + 4 := ptr b)) w = (if w = b then x else if w mod 4 = 0 then ptr (w - 4) else mem w)"
    using w(5) [OF assms(2)] by auto
qed

lemma special_fl:
  "GC_build_fl_clear2 h list mem = (4 * (1024 * h + 1022), fl_word h 2 True list mem)"
  "GC_build_fl_clear4 h list mem = (4 * (1024 * h + 1020), fl_word h 4 True list mem)"
  "GC_build_fl2 h list mem = (4 * (1024 * h + 1022), fl_word h 2 False list mem)"
  "GC_build_fl4 h list mem = (4 * (1024 * h + 1020), fl_word h 4 False list mem)"
proof -
  define b where "b = 1024 * h"
  have b8: "8 dvd b" unfolding b_def by (rule dvd_mult2) simp
  note w = window8 [OF b8]
  have e: "4 dvd b + 1024" "8 dvd b + 1024" using b8 w(1) by (auto intro: dvd_add)
  have w2: "hblk_addr h div 4 = b" "hblk_addr (h + 1) div 4 = b + 1024" by (simp_all add: block_words b_def)
  let ?m1 = "mem(b := word_of_nat list, b + 1 := 0, b + 2 := ptr b, b + 3 := 0)"
  let ?m2 = "mem(b := word_of_nat list, b + 1 := 0, b + 2 := 0, b + 3 := 0)"
  let ?m3 = "mem(b := word_of_nat list, b + 2 := ptr b)"
  let ?m4 = "mem(b := word_of_nat list, b + 4 := ptr b)"
  have f1: "(\<lambda>w. if b + 4 \<le> w \<and> w < b + 1024 then if w mod 2 = 0 then ptr (w - 2) else if True then 0 else ?m1 w else ?m1 w) = fl_word h 2 True list mem"
    unfolding b_def by (rule fl_wordI) (unfold b_def [symmetric], use first_window(1) [OF b8] in auto)
  have f2: "(\<lambda>w. if b + 4 \<le> w \<and> w < b + 1024 then if w mod 4 = 0 then ptr (w - 4) else if True then 0 else ?m2 w else ?m2 w) = fl_word h 4 True list mem"
    unfolding b_def by (rule fl_wordI) (unfold b_def [symmetric], use first_window(2) [OF b8] in auto)
  have f3: "(\<lambda>w. if b + 4 \<le> w \<and> w < b + 1024 then if w mod 2 = 0 then ptr (w - 2) else if False then 0 else ?m3 w else ?m3 w) = fl_word h 2 False list mem"
    unfolding b_def by (rule fl_wordI) (unfold b_def [symmetric], use first_window(3) [OF b8] in auto)
  have f4: "(\<lambda>w. if b + 8 \<le> w \<and> w < b + 1024 then if w mod 4 = 0 then ptr (w - 4) else if False then 0 else ?m4 w else ?m4 w) = fl_word h 4 False list mem"
    unfolding b_def by (rule fl_wordI) (unfold b_def [symmetric], use first_window(4) [OF b8] in auto)
  have l: "b + 4 \<le> b + 1024" "b + 8 \<le> b + 1024" by simp_all
  show "GC_build_fl_clear2 h list mem = (4 * (1024 * h + 1022), fl_word h 2 True list mem)"
    unfolding GC_build_fl_clear2_def w2 Let_def clear2.run [OF w(2) e(1) l(1)] f1 [unfolded if_True if_False, symmetric] by (simp add: b_def)
  show "GC_build_fl_clear4 h list mem = (4 * (1024 * h + 1020), fl_word h 4 True list mem)"
    unfolding GC_build_fl_clear4_def w2 Let_def clear4.run [OF w(2) e(1) l(1)] f2 [unfolded if_True if_False, symmetric] by (simp add: b_def)
  show "GC_build_fl2 h list mem = (4 * (1024 * h + 1022), fl_word h 2 False list mem)"
    unfolding GC_build_fl2_def w2 Let_def plain2.run [OF w(2) e(1) l(1)] f3 [unfolded if_True if_False, symmetric] by (simp add: b_def)
  show "GC_build_fl4 h list mem = (4 * (1024 * h + 1020), fl_word h 4 False list mem)"
    unfolding GC_build_fl4_def w2 Let_def plain4.run [OF w(3) e(2) l(2)] f4 [unfolded if_True if_False, symmetric] by (simp add: b_def)
qed

lemma generic_fl:
  assumes "0 < sz" "sz \<le> 1024" "sz \<noteq> 2" "sz \<noteq> 4"
  shows "GC_build_fl h sz clear list mem = (4 * (1024 * h + sz * (1024 div sz - 1)), fl_word h sz clear list mem)"
proof -
  define b where "b = 1024 * h"
  define m where "m = (if clear then bzero_block h mem else mem)"
  have w2: "hblk_addr h div 4 = b" "hblk_addr (h + 1) div 4 = b + 1024" by (simp_all add: block_words b_def)
  obtain k where k: "build_loop sz (b + 1024 - sz) (b + sz) (b + sz - sz) m = (b + sz + k * sz,
        \<lambda>w. if b + sz \<le> w \<and> w \<le> b + 1024 - sz \<and> (w - (b + sz)) mod sz = 0 then ptr (w - sz) else m w)"
      "b + 1024 - sz < b + sz + k * sz" "b + sz + k * sz \<le> b + 1024 - sz + sz"
    using build_loop_run [OF assms(1), of "b + sz" "b + 1024 - sz" m] assms(2) by auto
  have "1024 < (k + 2) * sz" "(k + 1) * sz \<le> 1024" using k(2,3) assms(2) by auto
  then have k1: "1024 div sz = k + 1" using assms(1) by (intro div_nat_eqI) (auto simp: algebra_simps)
  let ?m = "(\<lambda>w. if b + sz \<le> w \<and> w \<le> b + 1024 - sz \<and> (w - (b + sz)) mod sz = 0 then ptr (w - sz) else m w)(b := word_of_nat list)"
  have "?m w = fl_word h sz clear list mem w" for w
  proof (cases "w div 1024 = h")
    case True
    define i where "i = w mod 1024"
    have w: "w = b + i" "i < 1024" using block_offset [OF True] by (simp_all add: i_def b_def)
    have m: "m w = (if clear then 0 else mem w)" using True by (simp add: m_def block_words(3))
    have a: "b + sz \<le> w \<longleftrightarrow> sz \<le> i" "w \<le> b + 1024 - sz \<longleftrightarrow> i + sz \<le> 1024" "w - (b + sz) = i - sz" using w assms(2) by linarith+
    have "(i - sz) mod sz = i mod sz" if "sz \<le> i" by (rule le_mod_geq [OF that, symmetric])
    then have c: "(b + sz \<le> w \<and> w \<le> b + 1024 - sz \<and> (w - (b + sz)) mod sz = 0) \<longleftrightarrow> sz \<le> i \<and> i + sz \<le> 1024 \<and> i mod sz = 0"
      unfolding a by (metis (no_types))
    have nz: "i mod sz = 0 \<Longrightarrow> sz \<le> i \<longleftrightarrow> i \<noteq> 0" using assms(1) by (auto intro: dvd_imp_le)
    have F: "fl_word h sz clear list mem w = (if i mod sz = 0 \<and> i + sz \<le> 1024 then if i = 0 then word_of_nat list else ptr (w - sz) else if clear then 0 else mem w)"
      using True by (simp add: fl_word_def i_def)
    have b0: "w = b \<longleftrightarrow> i = 0" using w by simp
    show ?thesis unfolding F fun_upd_apply c m b0
    proof (cases "i = 0")
      case False
      then show "(if i = 0 then word_of_nat list else if sz \<le> i \<and> i + sz \<le> 1024 \<and> i mod sz = 0 then ptr (w - sz) else if clear then 0 else mem w)
        = (if i mod sz = 0 \<and> i + sz \<le> 1024 then if i = 0 then word_of_nat list else ptr (w - sz) else if clear then 0 else mem w)"
        using nz by (cases "i mod sz = 0") (simp_all only: simp_thms if_True if_False cong: if_cong)
    qed (use assms(2) in simp)
  next
    case False
    then have "w < b \<or> b + 1024 \<le> w" by (auto simp: in_block_iff b_def)
    then show ?thesis using False assms(1,2) by (auto simp: fl_word_def m_def block_words(3))
  qed
  then have "?m = fl_word h sz clear list mem" by (rule ext)
  then have "GC_build_fl h sz clear list mem = (4 * (b + sz + k * sz - sz), fl_word h sz clear list mem)"
    using assms(3,4) k(1) unfolding GC_build_fl_def w2 Let_def m_def [symmetric] by simp
  then show ?thesis by (simp add: k1 b_def mult.commute)
qed

lemma GC_build_fl_run:
  assumes "0 < sz" "sz \<le> 1024"
  shows "GC_build_fl h sz clear list mem = (4 * (1024 * h + sz * (1024 div sz - 1)), fl_word h sz clear list mem)"
proof (cases "sz = 2 \<or> sz = 4")
  case True
  then show ?thesis by (auto simp: GC_build_fl_def special_fl)
qed (use generic_fl [OF assms] in blast)

section \<open>Lists of objects\<close>

text \<open>The list that starts at \<open>p\<close> and is threaded through the first words of its members is \<open>xs\<close>.\<close>

primrec obj_list :: "memory \<Rightarrow> addr \<Rightarrow> addr list \<Rightarrow> bool" where
  "obj_list mem p [] \<longleftrightarrow> p = 0"
| "obj_list mem p (x # xs) \<longleftrightarrow> p = x \<and> x \<noteq> 0 \<and> x < 2 ^ 32 \<and> obj_list mem (obj_link mem x) xs"

lemma obj_list_cong: "(\<And>x. x \<in> set xs \<Longrightarrow> mem' (x div 4) = mem (x div 4)) \<Longrightarrow> obj_list mem' p xs = obj_list mem p xs"
  by (induction xs arbitrary: p) (simp_all add: obj_link_def)

lemma obj_list_0: "obj_list mem 0 xs \<longleftrightarrow> xs = []"
  by (cases xs) auto

lemma obj_list_fun: "obj_list mem p xs \<Longrightarrow> obj_list mem p ys \<Longrightarrow> xs = ys"
proof (induction xs arbitrary: p ys)
  case (Cons x xs)
  then show ?case by (cases ys) auto
qed (auto simp: obj_list_0)

lemma obj_list_head: "obj_list mem p xs \<Longrightarrow> p < 2 ^ 32"
  by (cases xs) auto

lemma unat_word32 [simp]: "v < 2 ^ 32 \<Longrightarrow> unat (word_of_nat v :: 32 word) = v"
  by (simp add: unsigned_of_nat take_bit_nat_eq_self)

lemma unat_ptr: "w < 2 ^ 30 \<Longrightarrow> unat (ptr w) = 4 * w"
  unfolding ptr_def by (rule unat_word32) simp

text \<open>The objects of a block, by increasing address.\<close>

definition block_objs :: "hblk \<Rightarrow> nat \<Rightarrow> addr list" where
  "block_objs h sz = map (\<lambda>i. hblk_addr h + 4 * (sz * i)) [0 ..< 1024 div sz]"

lemma obj_fits: "i < 1024 div (sz::nat) \<Longrightarrow> sz * i + sz \<le> 1024"
  using mult_le_mono2 [of "Suc i" "1024 div sz" sz] times_div_less_eq_dividend [of sz 1024] by (simp del: times_div_less_eq_dividend)

lemma fl_word_link:
  assumes "h < 2 ^ 20" "i < 1024 div sz" "list < 2 ^ 32"
  shows "obj_link (fl_word h sz clear list mem) (hblk_addr h + 4 * (sz * i)) = (if i = 0 then list else hblk_addr h + 4 * (sz * (i - 1)))"
proof -
  have sz: "0 < sz" using assms(2) by (cases sz) auto
  note le = obj_fits [OF assms(2)]
  let ?w = "1024 * h + sz * i"
  have w: "(hblk_addr h + 4 * (sz * i)) div 4 = ?w" by (simp add: hblk_addr_def HBLKSIZE_def)
  have b: "?w div 1024 = h" "?w mod 1024 = sz * i" using le sz by simp_all
  have "i \<noteq> 0 \<Longrightarrow> ?w - sz = 1024 * h + sz * (i - 1)" by (simp add: algebra_simps diff_mult_distrib2)
  moreover have "?w - sz < 2 ^ 30" using assms(1) le sz by simp
  ultimately have p: "i \<noteq> 0 \<Longrightarrow> unat (ptr (?w - sz)) = hblk_addr h + 4 * (sz * (i - 1))"
    using unat_ptr [of "?w - sz"] by (simp add: hblk_addr_def HBLKSIZE_def)
  show ?thesis unfolding obj_link_def w using b le p sz assms(3) by (simp add: fl_word_def)
qed

lemma fl_word_list:
  assumes h: "0 < h" "h < 2 ^ 20" and xs: "obj_list mem list xs" "\<forall>x \<in> set xs. HBLKPTR x \<noteq> h" and n: "n < 1024 div sz"
  shows "obj_list (fl_word h sz clear list mem) (hblk_addr h + 4 * (sz * n)) (rev (map (\<lambda>i. hblk_addr h + 4 * (sz * i)) [0 ..< Suc n]) @ xs)"
  using n
proof (induction n)
  case 0
  have "(fl_word h sz clear list mem) (x div 4) = mem (x div 4)" if "x \<in> set xs" for x
  proof -
    have "x div 4 div 1024 = x div HBLKSIZE" by (simp add: div_mult2_eq [symmetric] HBLKSIZE_def)
    then show ?thesis using xs(2) that by (auto simp: fl_word_def HBLKPTR_def)
  qed
  then have "obj_list (fl_word h sz clear list mem) list xs" using obj_list_cong xs(1) by blast
  then show ?case using h fl_word_link [OF h(2) 0 obj_list_head [OF xs(1)]] by (simp add: hblk_addr_def HBLKSIZE_def)
next
  case (Suc n)
  have "sz * Suc n + sz \<le> 1024" "0 < sz" using obj_fits [OF Suc.prems] Suc.prems by (auto intro: gr0I)
  then have "hblk_addr h + 4 * (sz * Suc n) < 2 ^ 32" using h by (simp add: hblk_addr_def HBLKSIZE_def)
  then show ?case using Suc h fl_word_link [OF h(2) Suc.prems obj_list_head [OF xs(1)]] by (simp add: hblk_addr_def HBLKSIZE_def)
qed

section \<open>Properties\<close>

text \<open>
  C38. \<open>GC_build_fl\<close> and its loops for objects of two and of four words leave the same memory as the plain
  description: the result is the list of all objects of the block by decreasing address, followed by the
  old list; nothing outside of the block is written; inside, everything but the links is 0 if
  \<open>clear\<close> is set and is left alone otherwise.
\<close>

theorem GC_build_fl_correct:
  assumes "0 < sz" "sz \<le> 1024" "0 < h" "h < 2 ^ 20" "obj_list mem list xs" "\<forall>x \<in> set xs. HBLKPTR x \<noteq> h"
  shows "\<exists>q mem'. GC_build_fl h sz clear list mem = (q, mem') \<and> obj_list mem' q (rev (block_objs h sz) @ xs)
    \<and> (\<forall>w. w div 1024 \<noteq> h \<longrightarrow> mem' w = mem w)
    \<and> (\<forall>w. w div 1024 = h \<and> 4 * w \<notin> set (block_objs h sz) \<longrightarrow> mem' w = (if clear then 0 else mem w))"
proof -
  obtain n where n: "1024 div sz = Suc n" using assms(1,2) by (metis Suc_pred div_greater_zero_iff)
  have "obj_list (fl_word h sz clear list mem) (hblk_addr h + 4 * (sz * n)) (rev (block_objs h sz) @ xs)"
    using fl_word_list [OF assms(3-6), of n sz clear] n by (simp add: block_objs_def)
  moreover have "4 * (1024 * h + sz * (1024 div sz - 1)) = hblk_addr h + 4 * (sz * n)" by (simp add: n hblk_addr_def HBLKSIZE_def)
  moreover have "fl_word h sz clear list mem w = (if clear then 0 else mem w)" if w: "w div 1024 = h" "4 * w \<notin> set (block_objs h sz)" for w
  proof (rule ccontr)
    let ?i = "w mod 1024"
    assume "fl_word h sz clear list mem w \<noteq> (if clear then 0 else mem w)"
    then have i: "?i mod sz = 0" "?i + sz \<le> 1024" using w(1) by (auto simp: fl_word_def Let_def split: if_splits)
    then have "?i = sz * (?i div sz)" "?i div sz < 1024 div sz" using assms(1) by (auto simp: less_eq_div_iff_mult_less_eq Suc_le_eq [symmetric])
    moreover have "4 * w = hblk_addr h + 4 * ?i" using block_offset [OF w(1)] by (simp add: hblk_addr_def HBLKSIZE_def)
    ultimately show False using w(2) by (auto simp: block_objs_def)
  qed
  ultimately show ?thesis using GC_build_fl_run [OF assms(1,2)] by (auto simp: fl_word_def)
qed

theorem GC_build_fl_correct_witness:
  "\<exists>q mem'. GC_build_fl 5 256 True 0 (\<lambda>_. 7) = (q, mem') \<and> obj_list mem' q [23552, 22528, 21504, 20480] \<and> mem' 6000 = 0 \<and> mem' 9000 = 7"
proof -
  have b: "block_objs 5 256 = [20480, 21504, 22528, 23552]" by (simp add: block_objs_def hblk_addr_def HBLKSIZE_def upt_rec)
  obtain q mem' where r: "GC_build_fl 5 256 True 0 (\<lambda>_. 7) = (q, mem')" "obj_list mem' q (rev (block_objs 5 256) @ [])"
      "\<forall>w. w div 1024 \<noteq> 5 \<longrightarrow> mem' w = 7" "\<forall>w. w div 1024 = 5 \<and> 4 * w \<notin> set (block_objs 5 256) \<longrightarrow> mem' w = (if True then 0 else 7)"
    using GC_build_fl_correct [of 256 5 "\<lambda>_. 7" 0 "[]" True] by auto
  have "mem' 6000 = 0" "mem' 9000 = 7" using r(3) [rule_format, of 9000] r(4) [rule_format, of 6000] b by simp_all
  with r(1,2) b show ?thesis by auto
qed

end
