(* ===== verification/Sweep.thy ===== *)
theory Sweep
  imports Free_Objs Mark_Phase Mark_Shape Heap_Tiling
begin

text \<open>
  Sweeping (\<^verbatim>\<open>bdwgc/reclaim.c\<close>). \<open>GC_start_reclaim\<close> goes over the whole heap: it frees large objects without mark and
  blocks of small objects without any, and puts the other blocks that are not nearly full on
  reclaim lists. These are swept later, one block at a time, when an object of their size is wanted. \<open>None\<close> is
  \<open>ABORT\<close> or a loop that does not end. Protection of pages for incremental collection is left out.
\<close>

section \<open>Sweeping a block\<close>

definition MAX_LEAKED :: nat where "MAX_LEAKED = 40"

definition GC_add_leaked :: "addr \<Rightarrow> 'a gc_alloc_scheme \<Rightarrow> 'a gc_alloc_scheme" where
  "GC_add_leaked leaked st =
     (if length (GC_leaked st) < MAX_LEAKED
      then GC_set_mark_bit leaked (st\<lparr> GC_have_errors := True, GC_leaked := GC_leaked st @ [leaked] \<rparr>)
      else st)"

definition GC_block_nearly_full :: "hdr \<Rightarrow> bool" where
  "GC_block_nearly_full hhdr \<longleftrightarrow> hb_n_marks hhdr > 7 * HBLK_OBJS (hb_sz hhdr) div 8"

text \<open>The words behind the link of the object of \<open>sz\<close> bytes at \<open>p\<close> are cleared.\<close>

definition clear_rest :: "addr \<Rightarrow> nat \<Rightarrow> memory \<Rightarrow> memory" where
  "clear_rest p sz mem = (\<lambda>w. if p div 4 < w \<and> w < (p + sz) div 4 then 0 else mem w)"

text \<open>
  The loop of \<open>GC_reclaim_clear\<close> and \<open>GC_reclaim_uninit\<close>, which differ in \<open>init\<close>: the list, the bytes found and the
  memory. The size is a multiple of the word size, as the source asserts, and not 0.
\<close>

function reclaim_loop ::
    "bool \<Rightarrow> hdr \<Rightarrow> nat \<Rightarrow> addr \<Rightarrow> addr \<Rightarrow> nat \<Rightarrow> addr \<Rightarrow> nat \<Rightarrow> memory \<Rightarrow> addr \<times> nat \<times> memory" where
  "reclaim_loop init hhdr sz plim p bit_no list n mem =
     (if p \<le> plim \<and> sz \<noteq> 0
      then
        (if mark_bit_from_hdr hhdr bit_no
         then reclaim_loop init hhdr sz plim (p + sz) (bit_no + MARK_BIT_OFFSET sz) list n mem
         else
           (let mem1 = set_link p list mem in
            reclaim_loop init hhdr sz plim (p + sz) (bit_no + MARK_BIT_OFFSET sz) p (wadd n sz)
              (if init then clear_rest p sz mem1 else mem1)))
      else (list, n, mem))"
  by pat_completeness auto
termination
  by (relation "measure (\<lambda>(init, hhdr, sz, plim, p, bit_no, list, n, mem). Suc plim - p)") auto

declare reclaim_loop.simps [simp del]

definition GC_reclaim_clear :: "hblk \<Rightarrow> hdr \<Rightarrow> nat \<Rightarrow> addr \<Rightarrow> memory \<Rightarrow> addr \<times> nat \<times> memory" where
  "GC_reclaim_clear hbp hhdr sz list mem =
     reclaim_loop True hhdr sz (hblk_addr hbp + HBLKSIZE - sz) (hblk_addr hbp) 0 list 0 mem"

definition GC_reclaim_uninit :: "hblk \<Rightarrow> hdr \<Rightarrow> nat \<Rightarrow> addr \<Rightarrow> memory \<Rightarrow> addr \<times> nat \<times> memory" where
  "GC_reclaim_uninit hbp hhdr sz list mem =
     reclaim_loop False hhdr sz (hblk_addr hbp + HBLKSIZE - sz) (hblk_addr hbp) 0 list 0 mem"

function reclaim_check_loop :: "hblk \<Rightarrow> nat \<Rightarrow> addr \<Rightarrow> addr \<Rightarrow> nat \<Rightarrow> 'a gc_alloc_scheme \<Rightarrow> 'a gc_alloc_scheme" where
  "reclaim_check_loop hbp sz plim p bit_no st =
     (if p \<le> plim \<and> sz \<noteq> 0
      then reclaim_check_loop hbp sz plim (p + sz) (bit_no + MARK_BIT_OFFSET sz)
             (if mark_bit_from_hdr (hdr_at st hbp) bit_no then st else GC_add_leaked p st)
      else st)"
  by pat_completeness auto
termination
  by (relation "measure (\<lambda>(hbp, sz, plim, p, bit_no, st). Suc plim - p)") auto

declare reclaim_check_loop.simps [simp del]

definition GC_reclaim_check :: "hblk \<Rightarrow> nat \<Rightarrow> 'a gc_alloc_scheme \<Rightarrow> 'a gc_alloc_scheme" where
  "GC_reclaim_check hbp sz st = reclaim_check_loop hbp sz (hblk_addr hbp + HBLKSIZE - sz) (hblk_addr hbp) 0 st"

text \<open>The result is the new list and the number of bytes that are added to \<open>*count\<close>.\<close>

definition GC_reclaim_generic ::
    "hblk \<Rightarrow> nat \<Rightarrow> bool \<Rightarrow> addr \<Rightarrow> 'a gc_alloc_scheme \<Rightarrow> addr \<times> nat \<times> 'a gc_alloc_scheme" where
  "GC_reclaim_generic hbp sz init list st =
     (let hhdr = hdr_at st hbp;
          (result, n, mem) =
            (if init \<or> GC_debugging_started st then GC_reclaim_clear hbp hhdr sz list (GC_mem st)
             else GC_reclaim_uninit hbp hhdr sz list (GC_mem st));
          st1 = st\<lparr> GC_mem := mem \<rparr> in
      (result, n, if IS_UNCOLLECTABLE (hb_obj_kind hhdr) then upd_hdr hbp GC_set_hdr_marks st1 else st1))"

definition GC_reclaim_small_nonempty_block :: "hblk \<Rightarrow> bool \<Rightarrow> 'a gc_alloc_scheme \<Rightarrow> 'a gc_alloc_scheme" where
  "GC_reclaim_small_nonempty_block hbp report_if_found st =
     (let sz = hb_sz (hdr_at st hbp);
          kind = hb_obj_kind (hdr_at st hbp);
          gran = BYTES_TO_GRANULES sz;
          st1 = upd_hdr hbp (\<lambda>hh. hh\<lparr> hb_last_reclaimed := GC_gc_no st mod 2 ^ 16 \<rparr>) st in
      if report_if_found then GC_reclaim_check hbp sz st1
      else
        (case GC_reclaim_generic hbp sz (ok_init (GC_obj_kinds st kind)) (ok_freelist st kind gran) st1 of
           (list, n, st2) \<Rightarrow>
             st2\<lparr> ok_freelist := (ok_freelist st2)(kind := (ok_freelist st2 kind)(gran := list)),
                  GC_bytes_found := wadd (GC_bytes_found st2) n \<rparr>))"

section \<open>The whole heap\<close>

text \<open>Where the kind has no reclaim lists, the write goes through a null pointer.\<close>

definition GC_reclaim_block :: "bool \<Rightarrow> hblk \<Rightarrow> 'a gc_alloc_scheme \<Rightarrow> 'a gc_alloc_scheme option" where
  "GC_reclaim_block report_if_found hbp st =
     (let hhdr = hdr_at st hbp; sz = hb_sz hhdr; kind = hb_obj_kind hhdr in
      if sz > MAXOBJBYTES
      then
        (if \<not> mark_bit_from_hdr hhdr 0
         then
           (if report_if_found then Some (GC_add_leaked (hblk_addr hbp) st)
            else
              (let blocks = obj_sz_to_blocks sz;
                   st1 = (if blocks > 1 then st\<lparr> GC_large_allocd_bytes := wsub (GC_large_allocd_bytes st) (word32 (blocks * HBLKSIZE)) \<rparr> else st) in
               GC_freehblk hbp (st1\<lparr> GC_bytes_found := wadd (GC_bytes_found st1) sz \<rparr>)))
         else Some (if hb_descr hhdr \<noteq> 0 then st\<lparr> GC_composite_in_use := wadd (GC_composite_in_use st) sz \<rparr>
                    else st\<lparr> GC_atomic_in_use := wadd (GC_atomic_in_use st) sz \<rparr>))
      else
        (let used = word32 (sz * hb_n_marks hhdr);
             st1 = (if hb_descr hhdr \<noteq> 0 then st\<lparr> GC_composite_in_use := wadd (GC_composite_in_use st) used \<rparr>
                    else st\<lparr> GC_atomic_in_use := wadd (GC_atomic_in_use st) used \<rparr>) in
         if report_if_found then Some (GC_reclaim_small_nonempty_block hbp True st1)
         else if GC_block_empty hhdr then GC_freehblk hbp (st1\<lparr> GC_bytes_found := wadd (GC_bytes_found st1) HBLKSIZE \<rparr>)
         else if GC_find_leak st1 \<or> \<not> GC_block_nearly_full hhdr
         then (case ok_reclaim_list st1 kind of
                 None \<Rightarrow> None
               | Some rlh \<Rightarrow>
                   Some ((upd_hdr hbp (\<lambda>hh. hh\<lparr> hb_next := rlh (BYTES_TO_GRANULES sz) \<rparr>) st1)
                     \<lparr> ok_reclaim_list := (ok_reclaim_list st1)(kind \<mapsto> rlh(BYTES_TO_GRANULES sz := hbp)) \<rparr>))
         else Some st1))"

text \<open>
  \<open>GC_clear_fl_links\<close>, after the head of the list was cleared: the links of the objects are cleared one
  after the other.
\<close>

partial_function (option) clear_links :: "addr \<Rightarrow> memory \<Rightarrow> memory option" where
  "clear_links p mem = (if p = 0 then Some mem else clear_links (obj_link mem p) (set_link p 0 mem))"

definition GC_clear_fl_links :: "nat \<Rightarrow> nat \<Rightarrow> 'a gc_alloc_scheme \<Rightarrow> 'a gc_alloc_scheme option" where
  "GC_clear_fl_links kind gran st =
     map_option (\<lambda>mem. st\<lparr> GC_mem := mem, ok_freelist := (ok_freelist st)(kind := (ok_freelist st kind)(gran := 0)) \<rparr>)
       (clear_links (ok_freelist st kind gran) (GC_mem st))"

definition clear_free_list :: "bool \<Rightarrow> nat \<Rightarrow> nat \<Rightarrow> 'a gc_alloc_scheme \<Rightarrow> 'a gc_alloc_scheme option" where
  "clear_free_list should_clobber kind gran st =
     (if ok_freelist st kind gran \<noteq> 0 \<and> should_clobber then GC_clear_fl_links kind gran st
      else Some (st\<lparr> ok_freelist := (ok_freelist st)(kind := (ok_freelist st kind)(gran := 0)) \<rparr>))"

definition clear_kind :: "bool \<Rightarrow> nat \<Rightarrow> 'a gc_alloc_scheme \<Rightarrow> 'a gc_alloc_scheme option" where
  "clear_kind report_if_found kind st =
     (case ok_reclaim_list st kind of
        None \<Rightarrow> Some st
      | Some rlist \<Rightarrow>
          map_option (\<lambda>st1. st1\<lparr> ok_reclaim_list := (ok_reclaim_list st1)(kind \<mapsto> (\<lambda>g. if g \<le> MAXOBJGRANULES then 0 else rlist g)) \<rparr>)
            (if report_if_found then Some st
             else each (clear_free_list (ok_descriptor (GC_obj_kinds st kind) \<noteq> 0) kind) [0 ..< MAXOBJGRANULES + 1] st))"

definition GC_start_reclaim :: "bool \<Rightarrow> 'a gc_alloc_scheme \<Rightarrow> 'a gc_alloc_scheme option" where
  "GC_start_reclaim report_if_found st =
     Option.bind (each (clear_kind report_if_found) [0 ..< GC_n_kinds st] (st\<lparr> GC_composite_in_use := 0, GC_atomic_in_use := 0 \<rparr>))
       (GC_apply_to_all_blocks (GC_reclaim_block report_if_found))"

section \<open>Lazy sweeping\<close>

text \<open>The head of the reclaim list of a size, 0 if the kind has none, and the list without its first block.\<close>

definition reclaim_head :: "'a gc_alloc_scheme \<Rightarrow> nat \<Rightarrow> nat \<Rightarrow> hblk" where
  "reclaim_head st kind gran = (case ok_reclaim_list st kind of None \<Rightarrow> 0 | Some rlh \<Rightarrow> rlh gran)"

definition pop_reclaim :: "nat \<Rightarrow> nat \<Rightarrow> 'a gc_alloc_scheme \<Rightarrow> 'a gc_alloc_scheme" where
  "pop_reclaim kind gran st =
     (case ok_reclaim_list st kind of
        None \<Rightarrow> st
      | Some rlh \<Rightarrow> st\<lparr> ok_reclaim_list := (ok_reclaim_list st)(kind \<mapsto> rlh(gran := hb_next (hdr_at st (rlh gran)))) \<rparr>)"

partial_function (option) GC_continue_reclaim :: "nat \<Rightarrow> nat \<Rightarrow> 'a gc_alloc_scheme \<Rightarrow> 'a gc_alloc_scheme option" where
  "GC_continue_reclaim gran kind st =
     (let hbp = reclaim_head st kind gran in
      if hbp = 0 then Some st
      else
        (let st1 = GC_reclaim_small_nonempty_block hbp False (pop_reclaim kind gran st) in
         if ok_freelist st1 kind gran \<noteq> 0 then Some st1 else GC_continue_reclaim gran kind st1))"

text \<open>
  \<open>GC_reclaim_all\<close>: \<open>stop i\<close> is the answer of the \<open>i\<close>th call of the stop function, and no stop function is one that never
  stops. The result of the loop over one list is whether it ran to its end, the number of calls, and the state.
\<close>

partial_function (option) reclaim_list_loop ::
    "(nat \<Rightarrow> bool) \<Rightarrow> bool \<Rightarrow> nat \<Rightarrow> nat \<Rightarrow> nat \<Rightarrow> 'a gc_alloc_scheme \<Rightarrow> (bool \<times> nat \<times> 'a gc_alloc_scheme) option" where
  "reclaim_list_loop stop ignore_old kind gran i st =
     (let hbp = reclaim_head st kind gran in
      if hbp = 0 then Some (True, i, st)
      else if stop i then Some (False, i + 1, st)
      else
        (let st1 = pop_reclaim kind gran st in
         reclaim_list_loop stop ignore_old kind gran (i + 1)
           (if \<not> ignore_old \<or> hb_last_reclaimed (hdr_at st1 hbp) = wsub (GC_gc_no st1) 1
            then GC_reclaim_small_nonempty_block hbp False st1 else st1)))"

fun reclaim_lists_loop ::
    "(nat \<Rightarrow> bool) \<Rightarrow> bool \<Rightarrow> (nat \<times> nat) list \<Rightarrow> nat \<Rightarrow> 'a gc_alloc_scheme \<Rightarrow> (bool \<times> nat \<times> 'a gc_alloc_scheme) option" where
  "reclaim_lists_loop stop ignore_old [] i st = Some (True, i, st)"
| "reclaim_lists_loop stop ignore_old ((kind, gran) # rest) i st =
     (case reclaim_list_loop stop ignore_old kind gran i st of
        None \<Rightarrow> None
      | Some (done, i', st') \<Rightarrow>
          (if done then reclaim_lists_loop stop ignore_old rest i' st' else Some (False, i', st')))"

definition GC_reclaim_all :: "(nat \<Rightarrow> bool) \<Rightarrow> bool \<Rightarrow> 'a gc_alloc_scheme \<Rightarrow> (bool \<times> nat \<times> 'a gc_alloc_scheme) option" where
  "GC_reclaim_all stop ignore_old st =
     reclaim_lists_loop stop ignore_old
       [(kind, gran). kind \<leftarrow> [0 ..< GC_n_kinds st], gran \<leftarrow> [1 ..< MAXOBJGRANULES + 1]] 0 st"

section \<open>What sweeping does to a block\<close>

text \<open>The words of an object, the addresses of the objects of a block, and which of them have no mark.\<close>

definition obj_words :: "addr \<Rightarrow> nat \<Rightarrow> nat set" where
  "obj_words p sz = {p div 4 ..< (p + sz) div 4}"

definition obj_addr :: "hblk \<Rightarrow> nat \<Rightarrow> nat \<Rightarrow> addr" where
  "obj_addr h sz j = hblk_addr h + sz * j"

definition unmarked_from :: "hdr \<Rightarrow> nat \<Rightarrow> nat \<Rightarrow> nat list" where
  "unmarked_from hh sz i = filter (\<lambda>j. \<not> mark_bit_from_hdr hh (MARK_BIT_OFFSET sz * j)) [i ..< HBLK_OBJS sz]"

lemma obj_words_mem:
  assumes "4 dvd p" "4 dvd sz"
  shows "w \<in> obj_words p sz \<longleftrightarrow> p \<le> 4 * w \<and> 4 * w < p + sz" "x div 4 \<in> obj_words p sz \<longleftrightarrow> p \<le> x \<and> x < p + sz"
proof -
  obtain q k where e: "p = 4 * q" "sz = 4 * k" using assms by (auto elim!: dvdE)
  show "w \<in> obj_words p sz \<longleftrightarrow> p \<le> 4 * w \<and> 4 * w < p + sz" by (auto simp: obj_words_def e)
  have "q \<le> x div 4 \<longleftrightarrow> 4 * q \<le> x" "x div 4 < n \<longleftrightarrow> x < 4 * n" for n by (auto simp: less_eq_div_iff_mult_less_eq div_less_iff_less_mult)
  then show "x div 4 \<in> obj_words p sz \<longleftrightarrow> p \<le> x \<and> x < p + sz" by (auto simp: obj_words_def e)
qed

lemma last_obj_iff:
  assumes "0 < sz" "sz \<le> HBLKSIZE"
  shows "sz * i \<le> HBLKSIZE - sz \<longleftrightarrow> i < HBLK_OBJS sz"
proof -
  have "i < HBLK_OBJS sz \<longleftrightarrow> Suc i * sz \<le> HBLKSIZE"
    unfolding HBLK_OBJS_def Suc_le_eq [symmetric] using assms(1) by (simp add: less_eq_div_iff_mult_less_eq)
  then show ?thesis using assms(2) by (simp add: mult.commute) linarith
qed

lemma unmarked_from_step:
  "i < HBLK_OBJS sz \<Longrightarrow> unmarked_from hh sz i = (if mark_bit_from_hdr hh (MARK_BIT_OFFSET sz * i) then [] else [i]) @ unmarked_from hh sz (Suc i)"
  "HBLK_OBJS sz \<le> i \<Longrightarrow> unmarked_from hh sz i = []"
  by (simp_all add: unmarked_from_def upt_rec [of i])

text \<open>What one pass of the loop does to the memory: only words of the object are written.\<close>

lemma sweep_obj_mem:
  fixes mem :: memory and init :: bool
  assumes "4 dvd p" "4 dvd sz" "0 < sz" "list < 2 ^ 32"
  defines "m \<equiv> (if init then clear_rest p sz (set_link p list mem) else set_link p list mem)"
  shows "obj_link m p = list" "w \<notin> obj_words p sz \<Longrightarrow> m w = mem w"
    "init \<Longrightarrow> w \<in> obj_words p sz \<Longrightarrow> w \<noteq> p div 4 \<Longrightarrow> m w = 0"
proof -
  have p: "p div 4 \<in> obj_words p sz" using obj_words_mem(2) [OF assms(1,2), of p] assms(3) by simp
  show "obj_link m p = list" using assms(4) by (simp add: m_def obj_link_def clear_rest_def set_link_def)
  show "w \<notin> obj_words p sz \<Longrightarrow> m w = mem w" using p by (auto simp: m_def clear_rest_def set_link_def obj_words_def)
  show "init \<Longrightarrow> w \<in> obj_words p sz \<Longrightarrow> w \<noteq> p div 4 \<Longrightarrow> m w = 0" by (auto simp: m_def clear_rest_def obj_words_def)
qed

lemma obj_addr_facts:
  assumes "4 dvd sz" "0 < h" "h < 2 ^ 20"
  shows "4 dvd obj_addr h sz i" "obj_addr h sz i \<noteq> 0" "obj_addr h sz i + sz = obj_addr h sz (Suc i)" "i \<le> j \<Longrightarrow> obj_addr h sz i \<le> obj_addr h sz j"
    "0 < sz \<Longrightarrow> i < HBLK_OBJS sz \<Longrightarrow> obj_addr h sz i + sz \<le> hblk_addr h + HBLKSIZE" "0 < sz \<Longrightarrow> i < HBLK_OBJS sz \<Longrightarrow> obj_addr h sz i < 2 ^ 32"
proof -
  have "4 dvd hblk_addr h" by (simp add: hblk_addr_def HBLKSIZE_def)
  then show "4 dvd obj_addr h sz i" using assms(1) by (simp add: obj_addr_def)
  show "obj_addr h sz i \<noteq> 0" using assms(2) by (simp add: obj_addr_def hblk_addr_def HBLKSIZE_def)
  show "obj_addr h sz i + sz = obj_addr h sz (Suc i)" by (simp add: obj_addr_def)
  show "i \<le> j \<Longrightarrow> obj_addr h sz i \<le> obj_addr h sz j" by (simp add: obj_addr_def)
  show e: "obj_addr h sz i + sz \<le> hblk_addr h + HBLKSIZE" if "0 < sz" "i < HBLK_OBJS sz" for i
  proof -
    have "sz * (i + 1) \<le> sz * HBLK_OBJS sz" using that(2) by (intro mult_le_mono2) simp
    then have "sz * i + sz \<le> HBLKSIZE" unfolding HBLK_OBJS_def using times_div_less_eq_dividend [of sz HBLKSIZE] by (simp del: times_div_less_eq_dividend)
    then show ?thesis by (simp add: obj_addr_def)
  qed
  show "0 < sz \<Longrightarrow> i < HBLK_OBJS sz \<Longrightarrow> obj_addr h sz i < 2 ^ 32" using e [of i] assms(3) by (simp add: hblk_addr_def HBLKSIZE_def)
qed

lemma obj_words_disjoint:
  assumes "4 dvd sz" "0 < h" "h < 2 ^ 20" "i < j" "w \<in> obj_words (obj_addr h sz i) sz"
  shows "w \<notin> obj_words (obj_addr h sz j) sz"
proof -
  note f = obj_addr_facts [OF assms(1-3)]
  have "obj_addr h sz i + sz \<le> obj_addr h sz j" using f(3) f(4) [of "Suc i" j] assms(4) by simp
  then show ?thesis using assms(5) obj_words_mem(1) [OF f(1) assms(1)] by auto
qed

lemma reclaim_loop_run:
  assumes sz: "0 < sz" "sz \<le> HBLKSIZE" "4 dvd sz" and h: "0 < h" "h < 2 ^ 20"
    and "obj_list mem list xs" "\<forall>x \<in> set xs. x < obj_addr h sz i \<or> hblk_addr h + HBLKSIZE \<le> x" "i \<le> HBLK_OBJS sz" "c < 2 ^ 32"
  shows "\<exists>list' mem'. reclaim_loop init hh sz (hblk_addr h + HBLKSIZE - sz) (obj_addr h sz i) (MARK_BIT_OFFSET sz * i) list c mem
      = (list', wadd c (sz * length (unmarked_from hh sz i)), mem')
    \<and> obj_list mem' list' (rev (map (obj_addr h sz) (unmarked_from hh sz i)) @ xs)
    \<and> (\<forall>w. (\<forall>j \<in> set (unmarked_from hh sz i). w \<notin> obj_words (obj_addr h sz j) sz) \<longrightarrow> mem' w = mem w)
    \<and> (init \<longrightarrow> (\<forall>j \<in> set (unmarked_from hh sz i). \<forall>w \<in> obj_words (obj_addr h sz j) sz. w \<noteq> obj_addr h sz j div 4 \<longrightarrow> mem' w = 0))"
  using assms(6-9)
proof (induction "HBLK_OBJS sz - i" arbitrary: i list c mem xs)
  case 0
  then have i: "i = HBLK_OBJS sz" by simp
  then have "\<not> obj_addr h sz i \<le> hblk_addr h + HBLKSIZE - sz" using last_obj_iff [OF sz(1,2), of i] sz(2) by (auto simp: obj_addr_def)
  then show ?case using 0 i by (simp add: reclaim_loop.simps unmarked_from_step(2))
next
  case (Suc d)
  have i: "i < HBLK_OBJS sz" "d = HBLK_OBJS sz - Suc i" "Suc i \<le> HBLK_OBJS sz" using Suc.hyps(2) by linarith+
  let ?p = "obj_addr h sz i" and ?plim = "hblk_addr h + HBLKSIZE - sz"
  let ?bit = "MARK_BIT_OFFSET sz * i" and ?u = "unmarked_from hh sz (Suc i)"
  note f = obj_addr_facts [OF sz(3) h] and st = unmarked_from_step(1) [OF i(1), of hh]
  have le: "?p \<le> ?plim" using last_obj_iff [OF sz(1,2), of i] i(1) sz(2) by (simp add: obj_addr_def)
  have bit: "?bit + MARK_BIT_OFFSET sz = MARK_BIT_OFFSET sz * Suc i" by simp
  have xs: "\<forall>x \<in> set xs. x < obj_addr h sz (Suc i) \<or> hblk_addr h + HBLKSIZE \<le> x" using Suc.prems(2) f(3) [of i] by auto
  show ?case
  proof (cases "mark_bit_from_hdr hh ?bit")
    case True
    have "reclaim_loop init hh sz ?plim ?p ?bit list c mem = reclaim_loop init hh sz ?plim (obj_addr h sz (Suc i)) (MARK_BIT_OFFSET sz * Suc i) list c mem"
      unfolding bit [symmetric] using le sz(1) True f(3) [of i] by (simp add: reclaim_loop.simps [of init hh sz ?plim ?p])
    then show ?thesis using Suc.hyps(1) [OF i(2) Suc.prems(1) xs i(3) Suc.prems(4)] st True by simp
  next
    case False
    define m where "m = (if init then clear_rest ?p sz (set_link ?p list mem) else set_link ?p list mem)"
    note mm = sweep_obj_mem [OF f(1) [of i] sz(3,1) obj_list_head [OF Suc.prems(1)], where init = init and mem = mem, folded m_def]
    have run: "reclaim_loop init hh sz ?plim ?p ?bit list c mem = reclaim_loop init hh sz ?plim (obj_addr h sz (Suc i)) (MARK_BIT_OFFSET sz * Suc i) ?p (wadd c sz) m"
      unfolding bit [symmetric] using le sz(1) False f(3) [of i] by (simp add: reclaim_loop.simps [of init hh sz ?plim ?p] m_def)
    have "m (x div 4) = mem (x div 4)" if "x \<in> set xs" for x
      using that Suc.prems(2) obj_words_mem(2) [OF f(1) [of i] sz(3), of x] f(5) [OF sz(1) i(1)] by (intro mm(2)) auto
    then have "obj_list m list xs = obj_list mem list xs" by (rule obj_list_cong)
    then have ol: "obj_list m ?p (?p # xs)" using Suc.prems(1) mm(1) f(2,6) [of i] sz(1) i(1) by simp
    have xs': "\<forall>x \<in> set (?p # xs). x < obj_addr h sz (Suc i) \<or> hblk_addr h + HBLKSIZE \<le> x" using xs f(3) [of i] sz(1) by simp
    obtain list' mem' where r: "reclaim_loop init hh sz ?plim (obj_addr h sz (Suc i)) (MARK_BIT_OFFSET sz * Suc i) ?p (wadd c sz) m = (list', wadd (wadd c sz) (sz * length ?u), mem')"
        "obj_list mem' list' (rev (map (obj_addr h sz) ?u) @ ?p # xs)"
        "\<forall>w. (\<forall>j \<in> set ?u. w \<notin> obj_words (obj_addr h sz j) sz) \<longrightarrow> mem' w = m w"
        "init \<longrightarrow> (\<forall>j \<in> set ?u. \<forall>w \<in> obj_words (obj_addr h sz j) sz. w \<noteq> obj_addr h sz j div 4 \<longrightarrow> mem' w = 0)"
      using Suc.hyps(1) [OF i(2) ol xs' i(3), of "wadd c sz"] by (auto simp: wadd_def word32_def)
    have later: "\<forall>j \<in> set ?u. i < j" by (auto simp: unmarked_from_def)
    have z: "mem' w = 0" if w: "init" "w \<in> obj_words ?p sz" "w \<noteq> ?p div 4" for w
    proof -
      have "\<forall>j \<in> set ?u. w \<notin> obj_words (obj_addr h sz j) sz" using later obj_words_disjoint [OF sz(3) h _ w(2)] by blast
      then show ?thesis using r(3) mm(3) [OF w] by simp
    qed
    have o: "mem' w = mem w" if "w \<notin> obj_words ?p sz" "\<forall>j \<in> set ?u. w \<notin> obj_words (obj_addr h sz j) sz" for w
      using r(3) mm(2) that by simp
    have u: "unmarked_from hh sz i = i # ?u" using st False by simp
    show ?thesis
      by (intro exI [of _ list'] exI [of _ mem'] conjI) (use run r u z o in simp_all)
  qed
qed

end
