(* ===== verification/Sweep_Inv.thy ===== *)
theory Sweep_Inv
  imports Sweep
begin

text \<open>
  The invariant of sweeping. It is stated for a set of objects that have to be kept, each the address and the
  size of an object: they stay in blocks in use with their contents, they are on no free list, and
  every block on a reclaim list has marks on its kept objects and on no others. The free lists and the
  reclaim lists are described by lists of objects and of blocks.
\<close>

section \<open>Changes to headers of blocks in use\<close>

text \<open>The other state has the same free blocks, and the same blocks in use with the same sizes.\<close>

primrec tile :: "hdr_entry \<Rightarrow> nat + hdr + nat" where
  "tile (Hdr hh) = Inr (if HBLK_IS_FREE hh then Inl hh else Inr (hb_sz hh))"
| "tile (Fwd k) = Inl k"

definition same_tiles :: "'a hdr_index_scheme \<Rightarrow> 'b hdr_index_scheme \<Rightarrow> bool" where
  "same_tiles st st' \<longleftrightarrow> (\<forall>c. tile (HDR st' c) = tile (HDR st c))"

lemma same_tiles_refl [simp]: "same_tiles st st"
  by (simp add: same_tiles_def)

lemma same_tiles_trans: "same_tiles a b \<Longrightarrow> same_tiles b c \<Longrightarrow> same_tiles a c"
  by (simp add: same_tiles_def)

lemma same_tiles_sym: "same_tiles a b \<Longrightarrow> same_tiles b a"
  by (simp add: same_tiles_def)

lemma same_tiles_cases:
  assumes "same_tiles st st'"
  obtains "HDR st' c = HDR st c" | hh hh' where "HDR st c = Hdr hh" "HDR st' c = Hdr hh'" "\<not> HBLK_IS_FREE hh" "\<not> HBLK_IS_FREE hh'" "hb_sz hh' = hb_sz hh"
  using assms [unfolded same_tiles_def, rule_format, of c]
  by (cases "HDR st c"; cases "HDR st' c") (auto split: if_splits)

lemma same_tiles_Hdr:
  assumes "same_tiles st st'" "HDR st c = Hdr hh"
  shows "\<exists>hh'. HDR st' c = Hdr hh' \<and> blocks_of hh' = blocks_of hh \<and> HBLK_IS_FREE hh' = HBLK_IS_FREE hh \<and> hb_sz hh' = hb_sz hh"
  by (rule same_tiles_cases [OF assms(1), of c]) (simp_all add: assms(2) blocks_of_def)

lemma same_tiles_at:
  assumes "same_tiles st st'"
  shows "free_at st' = free_at st" "free_at st c \<Longrightarrow> HDR st' c = HDR st c" "size_at st' c = size_at st c" "entry_shape (HDR st' c) = entry_shape (HDR st c)"
    "is_used (HDR st' c) = is_used (HDR st c)"
proof -
  have e: "free_at st' c = free_at st c \<and> (free_at st c \<longrightarrow> HDR st' c = HDR st c) \<and> size_at st' c = size_at st c \<and> entry_shape (HDR st' c) = entry_shape (HDR st c)
      \<and> is_used (HDR st' c) = is_used (HDR st c)" for c
    by (rule same_tiles_cases [OF assms, of c]) (simp_all add: free_at_def size_at_def hdr_at_def is_used_def blocks_of_def)
  show "free_at st' = free_at st" using e by (simp add: fun_eq_iff)
  show "free_at st c \<Longrightarrow> HDR st' c = HDR st c" "size_at st' c = size_at st c" "entry_shape (HDR st' c) = entry_shape (HDR st c)"
    "is_used (HDR st' c) = is_used (HDR st c)" using e [of c] by auto
qed

lemma same_tiles_upd:
  assumes "index_wf st" "HDR st b = Hdr hh" "\<not> HBLK_IS_FREE hh" "\<not> HBLK_IS_FREE (f hh)" "hb_sz (f hh) = hb_sz hh"
  shows "same_tiles st (upd_hdr b f st)"
  using assms by (simp add: same_tiles_def HDR_upd_hdr)

lemma heap_inv_tiles:
  fixes st st' :: "'a gc_heap_scheme"
  assumes s: "same_tiles st st'" and wf: "index_wf st'" and L: "heap_inv L st"
    and v: "GC_hblkfreelist st' = GC_hblkfreelist st" "GC_free_bytes st' = GC_free_bytes st" "GC_large_free_bytes st' = GC_large_free_bytes st"
  shows "heap_inv L st'" "free_cells st' = free_cells st" "coalesced st' = coalesced st"
proof -
  note i = heap_invD [OF L] and a = same_tiles_at [OF s]
  note H = same_tiles_Hdr [OF same_tiles_sym [OF s]] and H' = same_tiles_Hdr [OF s]
  have fr: "(HDR st' h = Hdr hh \<and> HBLK_IS_FREE hh) = (HDR st h = Hdr hh \<and> HBLK_IS_FREE hh)" for h hh
    by (rule same_tiles_cases [OF s, of h]) auto
  show fc: "free_cells st' = free_cells st" unfolding free_cells_def conj_assoc [symmetric] fr ..
  have "same_layout st st'" using a(4) by (simp add: same_layout_def)
  then have "layout_ok st'" using layout_ok_same tiledD(2) [OF i(1)] by blast
  moreover have "free_sizes_ok st'" using tiledD(3) [OF i(1)] unfolding free_sizes_ok_def fr .
  moreover have "\<not> is_Hdr (HDR st' 0)" using H [of 0] tiledD(4) [OF i(1)] by (auto simp: is_Hdr_def split: hdr_entry.splits)
  moreover have "h + blocks_of hh \<le> 2 ^ 20" if "HDR st' h = Hdr hh" for h hh using H [OF that] tiledD(5) [OF i(1), of h] by auto
  moreover have "free_at st' h \<Longrightarrow> size_at st' h < 2 ^ 31" for h using a(1,3) tiledD(6) [OF i(1), of h] by simp
  ultimately have t: "tiled st'" using wf by (simp add: tiled_def)
  have "fl_ok L {} st'"
    by (rule fl_ok_frame [OF i(2)]) (use a v fl_okD(6) [OF i(2)] in \<open>auto simp: class_at_def\<close>)
  then show "heap_inv L st'" using t i(3) v(3) fc by (simp add: heap_inv_def)
  show "coalesced st' = coalesced st" by (simp add: coalesced_def adjacent_def a)
qed

section \<open>Objects\<close>

definition sizes_ok :: "'a hdr_index_scheme \<Rightarrow> bool" where
  "sizes_ok st \<longleftrightarrow> (\<forall>b hh. used_at st b = Some hh \<longrightarrow>
     0 < hb_sz hh \<and> (hb_sz hh \<le> MAXOBJBYTES \<longrightarrow> 8 dvd hb_sz hh) \<and> blocks_of hh * HBLKSIZE < 2 ^ 31)"

definition obj_start :: "nat \<Rightarrow> hblk \<Rightarrow> addr \<Rightarrow> bool" where
  "obj_start sz b p \<longleftrightarrow> (if sz > MAXOBJBYTES then p = hblk_addr b else \<exists>j < HBLK_OBJS sz. p = obj_addr b sz j)"

text \<open>There is an object of \<open>sz\<close> bytes at \<open>p\<close>.\<close>

definition is_obj :: "'a hdr_index_scheme \<Rightarrow> addr \<times> nat \<Rightarrow> bool" where
  "is_obj st ob \<longleftrightarrow> (\<exists>b hh. used_at st b = Some hh \<and> hb_sz hh = snd ob \<and> obj_start (snd ob) b (fst ob))"

lemma used_at_Some: "used_at st b = Some hh \<longleftrightarrow> HDR st b = Hdr hh \<and> \<not> HBLK_IS_FREE hh"
  by (auto simp: used_at_def split: hdr_entry.splits)

lemma used_at_bounds:
  assumes "tiled st" "used_at st b = Some hh"
  shows "0 < b" "b + blocks_of hh \<le> 2 ^ 20" "0 < blocks_of hh" "b < 2 ^ 20" "hb_sz hh \<le> blocks_of hh * HBLKSIZE"
proof -
  have h: "HDR st b = Hdr hh" using assms(2) by (simp add: used_at_Some)
  show "0 < b" "b + blocks_of hh \<le> 2 ^ 20" using tiled_Hdr_pos [OF assms(1) h] tiledD(5) [OF assms(1) h] by simp_all
  show "0 < blocks_of hh" using layout_blocks_pos [OF tiledD(2) [OF assms(1)] h] .
  then show "b < 2 ^ 20" using tiledD(5) [OF assms(1) h] by simp
  show "hb_sz hh \<le> blocks_of hh * HBLKSIZE" using OBJ_SZ_TO_BLOCKS_ge [of "hb_sz hh"] by (simp add: blocks_of_def)
qed

text \<open>An object lies inside of its block.\<close>

lemma obj_range:
  assumes "tiled st" "sizes_ok st" "used_at st b = Some hh" "obj_start (hb_sz hh) b p"
  shows "hblk_addr b \<le> p" "p + hb_sz hh \<le> hblk_addr (b + blocks_of hh)" "w \<in> obj_words p (hb_sz hh) \<Longrightarrow> b \<le> w div 1024 \<and> w div 1024 < b + blocks_of hh"
proof -
  note u = used_at_bounds [OF assms(1,3)]
  have sz: "0 < hb_sz hh" "hb_sz hh \<le> MAXOBJBYTES \<Longrightarrow> 4 dvd hb_sz hh"
    using assms(2,3) dvd_trans [of 4 8 "hb_sz hh"] by (auto simp: sizes_ok_def)
  have e: "hblk_addr (b + blocks_of hh) = hblk_addr b + blocks_of hh * HBLKSIZE" by (simp add: hblk_addr_def add_mult_distrib)
  have "hblk_addr b \<le> p \<and> p + hb_sz hh \<le> hblk_addr b + blocks_of hh * HBLKSIZE"
  proof (cases "hb_sz hh > MAXOBJBYTES")
    case True
    then show ?thesis using assms(4) u(5) by (simp add: obj_start_def)
  next
    case False
    then obtain j where j: "j < HBLK_OBJS (hb_sz hh)" "p = obj_addr b (hb_sz hh) j" using assms(4) by (auto simp: obj_start_def)
    have "p + hb_sz hh \<le> hblk_addr b + HBLKSIZE" using obj_addr_facts(5) [OF sz(2) u(1,4) sz(1) j(1)] False j(2) by simp
    moreover have "hblk_addr b + HBLKSIZE \<le> hblk_addr b + blocks_of hh * HBLKSIZE" using u(3) by simp
    ultimately have "p + hb_sz hh \<le> hblk_addr b + blocks_of hh * HBLKSIZE" by (rule le_trans)
    then show ?thesis using j(2) by (simp add: obj_addr_def)
  qed
  then show "hblk_addr b \<le> p" "p + hb_sz hh \<le> hblk_addr (b + blocks_of hh)" using e by simp_all
  show "b \<le> w div 1024 \<and> w div 1024 < b + blocks_of hh" if "w \<in> obj_words p (hb_sz hh)"
  proof -
    have "p div 4 \<le> w" "w < (p + hb_sz hh) div 4" using that by (simp_all add: obj_words_def)
    then have "1024 * b \<le> w" "w < 1024 * (b + blocks_of hh)"
      using \<open>hblk_addr b \<le> p\<close> \<open>p + hb_sz hh \<le> hblk_addr (b + blocks_of hh)\<close> by (simp_all add: hblk_addr_def HBLKSIZE_def)
    then show ?thesis by (simp add: less_eq_div_iff_mult_less_eq div_less_iff_less_mult)
  qed
qed

lemma obj_words_apart:
  assumes t: "tiled st" "sizes_ok st" and ob: "is_obj st (p, sz)" "is_obj st (p', sz')" and ne: "(p, sz) \<noteq> (p', sz')" and w: "w \<in> obj_words p sz"
  shows "w \<notin> obj_words p' sz'"
proof
  assume w': "w \<in> obj_words p' sz'"
  obtain b hh where b: "used_at st b = Some hh" "hb_sz hh = sz" "obj_start (hb_sz hh) b p" using ob(1) by (auto simp: is_obj_def)
  obtain b' hh' where b': "used_at st b' = Some hh'" "hb_sz hh' = sz'" "obj_start (hb_sz hh') b' p'" using ob(2) by (auto simp: is_obj_def)
  have r: "b \<le> w div 1024" "w div 1024 < b + blocks_of hh" "b' \<le> w div 1024" "w div 1024 < b' + blocks_of hh'"
    using obj_range(3) [OF t b(1,3)] obj_range(3) [OF t b'(1,3)] w w' b(2) b'(2) by auto
  have h: "HDR st b = Hdr hh" "HDR st b' = Hdr hh'" using b(1) b'(1) by (simp_all add: used_at_Some)
  have e: "b = b'"
    using layout_disjoint [OF tiledD(2) [OF t(1)] h] layout_disjoint [OF tiledD(2) [OF t(1)] h(2,1)] r by (cases b b' rule: linorder_cases) auto
  then have s: "sz = sz'" "hh = hh'" using b b' by auto
  note u = used_at_bounds [OF t(1) b(1)]
  show False
  proof (cases "sz > MAXOBJBYTES")
    case True
    then show False using b(2,3) b'(2,3) e s ne by (simp add: obj_start_def)
  next
    case False
    then have 4: "4 dvd sz" using t(2) b(1,2) dvd_trans [of 4 8 sz] by (auto simp: sizes_ok_def)
    obtain j j' where j: "p = obj_addr b sz j" "p' = obj_addr b sz j'" using False b(2,3) b'(2,3) e s by (auto simp: obj_start_def)
    then have "j \<noteq> j'" using ne s by auto
    then show False using obj_words_disjoint [OF 4 u(1,4)] w w' j s by (cases j j' rule: linorder_cases) auto
  qed
qed

section \<open>Sweeping one block\<close>

definition swept_hdr :: "nat \<Rightarrow> hdr \<Rightarrow> hdr" where
  "swept_hdr gc_no hh =
     (let hh1 = hh\<lparr> hb_last_reclaimed := gc_no mod 2 ^ 16 \<rparr> in
      if IS_UNCOLLECTABLE (hb_obj_kind hh) then GC_set_hdr_marks hh1 else hh1)"

lemma swept_hdr_fields [simp]:
  "hb_sz (swept_hdr n hh) = hb_sz hh" "hb_obj_kind (swept_hdr n hh) = hb_obj_kind hh" "HBLK_IS_FREE (swept_hdr n hh) = HBLK_IS_FREE hh"
  "hb_next (swept_hdr n hh) = hb_next hh" "hb_descr (swept_hdr n hh) = hb_descr hh"
  by (simp_all add: swept_hdr_def GC_set_hdr_marks_def Let_def HBLK_IS_FREE_def)

lemma granules8 [simp]: "BYTES_TO_GRANULES (8 * g) = g" "MARK_BIT_OFFSET (8 * g) = g"
  by (simp_all add: BYTES_TO_GRANULES_def MARK_BIT_OFFSET_def GRANULE_BYTES_def)

lemma HBLKPTR_iff: "HBLKPTR x = b \<longleftrightarrow> hblk_addr b \<le> x \<and> x < hblk_addr b + HBLKSIZE"
proof
  assume "HBLKPTR x = b"
  then show "hblk_addr b \<le> x \<and> x < hblk_addr b + HBLKSIZE"
    using div_mult_mod_eq [of x HBLKSIZE] mod_less_divisor [of HBLKSIZE x] by (auto simp: HBLKPTR_def hblk_addr_def HBLKSIZE_def)
qed (auto simp: HBLKPTR_def hblk_addr_def mult.commute intro!: div_nat_eqI)

lemma HBLKPTR_obj:
  assumes "0 < sz" "j < HBLK_OBJS sz"
  shows "HBLKPTR (obj_addr b sz j) = b"
proof -
  have "sz * j + sz \<le> sz * HBLK_OBJS sz" using assms(2) mult_le_mono2 [of "Suc j" "HBLK_OBJS sz" sz] by simp
  also have "\<dots> \<le> HBLKSIZE" by (simp add: HBLK_OBJS_def)
  finally show ?thesis using assms(1) by (simp add: HBLKPTR_iff obj_addr_def)
qed

lemma upd_hdr_alloc [simp]:
  fixes st :: "'a gc_alloc_scheme"
  shows "ok_freelist (upd_hdr b f st) = ok_freelist st" "ok_reclaim_list (upd_hdr b f st) = ok_reclaim_list st" "GC_n_kinds (upd_hdr b f st) = GC_n_kinds st"
    "GC_bytes_found (upd_hdr b f st) = GC_bytes_found st" "GC_mem (upd_hdr b f st) = GC_mem st" "GC_obj_kinds (upd_hdr b f st) = GC_obj_kinds st"
    "GC_debugging_started (upd_hdr b f st) = GC_debugging_started st" "GC_large_free_bytes (upd_hdr b f st) = GC_large_free_bytes st" "GC_gc_no (upd_hdr b f st) = GC_gc_no st"
    "GC_find_leak (upd_hdr b f st) = GC_find_leak st"
  by (simp_all add: upd_hdr_def SET_HDR_def split: hdr_entry.splits option.splits)

lemma HDR_alloc_vars [simp]:
  fixes st :: "'a gc_alloc_scheme"
  shows "HDR (st\<lparr> ok_freelist := x1 \<rparr>) = HDR st" "HDR (st\<lparr> ok_reclaim_list := x2 \<rparr>) = HDR st" "HDR (st\<lparr> GC_bytes_found := x3 \<rparr>) = HDR st"
    "HDR (st\<lparr> GC_composite_in_use := x4 \<rparr>) = HDR st" "HDR (st\<lparr> GC_atomic_in_use := x5 \<rparr>) = HDR st" "HDR (st\<lparr> GC_large_allocd_bytes := x6 \<rparr>) = HDR st"
  by (rule HDR_cong; simp)+

lemma index_wf_alloc_vars [simp]:
  fixes st :: "'a gc_alloc_scheme"
  shows "index_wf (st\<lparr> ok_freelist := x1 \<rparr>) = index_wf st" "index_wf (st\<lparr> ok_reclaim_list := x2 \<rparr>) = index_wf st" "index_wf (st\<lparr> GC_bytes_found := x3 \<rparr>) = index_wf st"
    "index_wf (st\<lparr> GC_composite_in_use := x4 \<rparr>) = index_wf st" "index_wf (st\<lparr> GC_atomic_in_use := x5 \<rparr>) = index_wf st"
    "index_wf (st\<lparr> GC_large_allocd_bytes := x6 \<rparr>) = index_wf st"
  by (simp_all add: index_wf_def)

text \<open>Everything of the state that sweeping a block leaves alone.\<close>

definition rest :: "'a gc_alloc_scheme \<Rightarrow> 'a gc_alloc_scheme" where
  "rest st = st\<lparr> GC_top_index := (\<lambda>_. None), GC_all_nils := (\<lambda>_. Fwd 0), GC_mem := (\<lambda>_. 0), ok_freelist := (\<lambda>_ _. 0), GC_bytes_found := 0 \<rparr>"

lemma rest_eqD:
  assumes "rest st' = rest st"
  shows "ok_reclaim_list st' = ok_reclaim_list st" "GC_n_kinds st' = GC_n_kinds st" "GC_hblkfreelist st' = GC_hblkfreelist st" "GC_free_bytes st' = GC_free_bytes st"
    "GC_large_free_bytes st' = GC_large_free_bytes st" "GC_obj_kinds st' = GC_obj_kinds st" "GC_gc_no st' = GC_gc_no st" "GC_find_leak st' = GC_find_leak st"
    "GC_debugging_started st' = GC_debugging_started st"
  using assms [THEN arg_cong, of ok_reclaim_list] assms [THEN arg_cong, of GC_n_kinds] assms [THEN arg_cong, of GC_hblkfreelist]
    assms [THEN arg_cong, of GC_free_bytes] assms [THEN arg_cong, of GC_large_free_bytes] assms [THEN arg_cong, of GC_obj_kinds]
    assms [THEN arg_cong, of GC_gc_no] assms [THEN arg_cong, of GC_find_leak] assms [THEN arg_cong, of GC_debugging_started]
  by (simp_all add: rest_def)

lemma rest_upd_hdr [simp]: "rest (upd_hdr b f st) = rest st"
  by (simp add: rest_def upd_hdr_def SET_HDR_def split: hdr_entry.splits option.splits)

lemma rest_vars [simp]: "rest (st\<lparr> GC_mem := m \<rparr>) = rest st" "rest (st\<lparr> ok_freelist := f \<rparr>) = rest st" "rest (st\<lparr> GC_bytes_found := n \<rparr>) = rest st"
  by (simp_all add: rest_def)

lemma sweep_small:
  fixes st :: "'a gc_alloc_scheme"
  assumes t: "tiled st" and u: "used_at st b = Some hh" "hb_sz hh = 8 * g" "0 < g" "g \<le> MAXOBJGRANULES" "hb_obj_kind hh = k"
    and xs: "obj_list (GC_mem st) (ok_freelist st k g) xs" "\<forall>x \<in> set xs. HBLKPTR x \<noteq> b"
  defines "st' \<equiv> GC_reclaim_small_nonempty_block b False st" and "U \<equiv> unmarked_from hh (8 * g) 0"
  shows "obj_list (GC_mem st') (ok_freelist st' k g) (rev (map (obj_addr b (8 * g)) U) @ xs)"
    "(\<forall>j \<in> set U. w \<notin> obj_words (obj_addr b (8 * g) j) (8 * g)) \<Longrightarrow> GC_mem st' w = GC_mem st w"
    "ok_init (GC_obj_kinds st k) \<Longrightarrow> j \<in> set U \<Longrightarrow> w \<in> obj_words (obj_addr b (8 * g) j) (8 * g) \<Longrightarrow> w \<noteq> obj_addr b (8 * g) j div 4 \<Longrightarrow> GC_mem st' w = 0"
    "(k', g') \<noteq> (k, g) \<Longrightarrow> ok_freelist st' k' g' = ok_freelist st k' g'"
    "GC_bytes_found st' = wadd (GC_bytes_found st) (8 * g * length U)"
    "HDR st' c = (if c = b then Hdr (swept_hdr (GC_gc_no st) hh) else HDR st c)" "index_wf st'" "rest st' = rest st"
proof -
  note bd = used_at_bounds [OF t u(1)] and wf = tiledD(1) [OF t]
  have h: "HDR st b = Hdr hh" "hdr_at st b = hh" using u(1) by (simp_all add: used_at_Some hdr_at_def)
  define st1 where "st1 = upd_hdr b (\<lambda>hh. hh\<lparr> hb_last_reclaimed := GC_gc_no st mod 2 ^ 16 \<rparr>) st"
  define hh1 where "hh1 = hh\<lparr> hb_last_reclaimed := GC_gc_no st mod 2 ^ 16 \<rparr>"
  have h1: "HDR st1 c = (if c = b then Hdr hh1 else HDR st c)" "hdr_at st1 b = hh1" "index_wf st1" for c
    using h wf by (simp_all add: st1_def hh1_def HDR_upd_hdr hdr_at_def)
  have U: "unmarked_from hh1 (8 * g) 0 = U" by (simp add: U_def unmarked_from_def hh1_def mark_bit_from_hdr_def)
  define init where "init = (ok_init (GC_obj_kinds st k) \<or> GC_debugging_started st)"
  have sz: "0 < 8 * g" "8 * g \<le> HBLKSIZE" "4 dvd 8 * g" using u(3,4) by (auto simp: gc_consts)
  have "\<forall>x \<in> set xs. x < obj_addr b (8 * g) 0 \<or> hblk_addr b + HBLKSIZE \<le> x" using xs(2) by (auto simp: HBLKPTR_iff obj_addr_def)
  then obtain list mem where r: "reclaim_loop init hh1 (8 * g) (hblk_addr b + HBLKSIZE - 8 * g) (obj_addr b (8 * g) 0) (MARK_BIT_OFFSET (8 * g) * 0) (ok_freelist st k g) 0 (GC_mem st)
        = (list, wadd 0 (8 * g * length U), mem)"
      "obj_list mem list (rev (map (obj_addr b (8 * g)) U) @ xs)"
      "\<forall>w. (\<forall>j \<in> set U. w \<notin> obj_words (obj_addr b (8 * g) j) (8 * g)) \<longrightarrow> mem w = GC_mem st w"
      "init \<longrightarrow> (\<forall>j \<in> set U. \<forall>w \<in> obj_words (obj_addr b (8 * g) j) (8 * g). w \<noteq> obj_addr b (8 * g) j div 4 \<longrightarrow> mem w = 0)"
    using reclaim_loop_run [OF sz bd(1,4) xs(1), of 0 0 init hh1] unfolding U by auto
  let ?n = "wadd 0 (8 * g * length U)"
  have loop: "(if init then GC_reclaim_clear b hh1 (8 * g) (ok_freelist st k g) (GC_mem st) else GC_reclaim_uninit b hh1 (8 * g) (ok_freelist st k g) (GC_mem st)) = (list, ?n, mem)"
    using r(1) by (cases init) (simp_all add: GC_reclaim_clear_def GC_reclaim_uninit_def obj_addr_def)
  have f1: "GC_mem st1 = GC_mem st" "GC_debugging_started st1 = GC_debugging_started st" "hb_obj_kind hh1 = k" using u(5) by (simp_all add: st1_def hh1_def)
  have gen: "GC_reclaim_generic b (8 * g) (ok_init (GC_obj_kinds st k)) (ok_freelist st k g) st1
      = (list, ?n, if IS_UNCOLLECTABLE k then upd_hdr b GC_set_hdr_marks (st1\<lparr> GC_mem := mem \<rparr>) else st1\<lparr> GC_mem := mem \<rparr>)"
    unfolding GC_reclaim_generic_def h1(2) Let_def f1 init_def [symmetric] loop by simp
  let ?st2 = "if IS_UNCOLLECTABLE k then upd_hdr b GC_set_hdr_marks (st1\<lparr> GC_mem := mem \<rparr>) else st1\<lparr> GC_mem := mem \<rparr>"
  have st': "st' = ?st2\<lparr> ok_freelist := (ok_freelist st)(k := (ok_freelist st k)(g := list)), GC_bytes_found := wadd (GC_bytes_found st) ?n \<rparr>"
    unfolding st'_def GC_reclaim_small_nonempty_block_def Let_def h(2) u(2,5) granules8 st1_def [symmetric] gen by (simp add: st1_def)
  have m: "GC_mem st' = mem" "ok_freelist st' = (ok_freelist st)(k := (ok_freelist st k)(g := list))" unfolding st' by simp_all
  show "obj_list (GC_mem st') (ok_freelist st' k g) (rev (map (obj_addr b (8 * g)) U) @ xs)" using r(2) by (simp add: m)
  show "(\<forall>j \<in> set U. w \<notin> obj_words (obj_addr b (8 * g) j) (8 * g)) \<Longrightarrow> GC_mem st' w = GC_mem st w" using r(3) by (simp add: m)
  show "ok_init (GC_obj_kinds st k) \<Longrightarrow> j \<in> set U \<Longrightarrow> w \<in> obj_words (obj_addr b (8 * g) j) (8 * g) \<Longrightarrow> w \<noteq> obj_addr b (8 * g) j div 4 \<Longrightarrow> GC_mem st' w = 0"
    using r(4) by (simp add: m init_def)
  show "(k', g') \<noteq> (k, g) \<Longrightarrow> ok_freelist st' k' g' = ok_freelist st k' g'" by (auto simp: m)
  show "GC_bytes_found st' = wadd (GC_bytes_found st) (8 * g * length U)" unfolding st' by (simp add: wadd_def word32_def mod_simps)
  show "HDR st' c = (if c = b then Hdr (swept_hdr (GC_gc_no st) hh) else HDR st c)"
    unfolding st' using h1 u(5) by (simp add: HDR_upd_hdr swept_hdr_def hh1_def)
  show "index_wf st'" unfolding st' using h1(3) by simp
  show "rest st' = rest st" unfolding st' st1_def by (simp only: rest_vars rest_upd_hdr if_distrib [of rest] if_cancel)
qed

section \<open>The invariant\<close>

text \<open>The kind and the object size of a block in use.\<close>

definition block_info :: "'a hdr_index_scheme \<Rightarrow> hblk \<Rightarrow> (nat \<times> nat) option" where
  "block_info st b = map_option (\<lambda>hh. (hb_obj_kind hh, hb_sz hh)) (used_at st b)"

definition small_block :: "'a hdr_index_scheme \<Rightarrow> nat \<Rightarrow> nat \<Rightarrow> hblk \<Rightarrow> bool" where
  "small_block st k g b \<longleftrightarrow> block_info st b = Some (k, 8 * g) \<and> 0 < g \<and> g \<le> MAXOBJGRANULES"

primrec block_list :: "'a hdr_index_scheme \<Rightarrow> hblk \<Rightarrow> hblk list \<Rightarrow> bool" where
  "block_list st p [] \<longleftrightarrow> p = 0"
| "block_list st p (b # bs) \<longleftrightarrow> p = b \<and> b \<noteq> 0 \<and> block_list st (hb_next (hdr_at st b)) bs"

definition free_list_ok :: "(addr \<times> nat) set \<Rightarrow> 'a gc_alloc_scheme \<Rightarrow> nat \<Rightarrow> nat \<Rightarrow> addr list \<Rightarrow> bool" where
  "free_list_ok K st k g xs \<longleftrightarrow> obj_list (GC_mem st) (ok_freelist st k g) xs \<and> distinct xs
     \<and> (\<forall>x \<in> set xs. (x, 8 * g) \<notin> K \<and> (\<exists>b j. x = obj_addr b (8 * g) j \<and> j < HBLK_OBJS (8 * g) \<and> small_block st k g b))"

definition reclaim_list_ok :: "(addr \<times> nat) set \<Rightarrow> 'a gc_alloc_scheme \<Rightarrow> nat \<Rightarrow> nat \<Rightarrow> addr list \<Rightarrow> hblk list \<Rightarrow> bool" where
  "reclaim_list_ok K st k g xs bs \<longleftrightarrow> block_list st (reclaim_head st k g) bs \<and> distinct bs
     \<and> (\<forall>b \<in> set bs. small_block st k g b \<and> (\<forall>x \<in> set xs. HBLKPTR x \<noteq> b)
          \<and> (\<forall>j < HBLK_OBJS (8 * g). mark_bit_from_hdr (hdr_at st b) (g * j) \<longleftrightarrow> (obj_addr b (8 * g) j, 8 * g) \<in> K))"

definition heap_ok :: "'a gc_alloc_scheme \<Rightarrow> bool" where
  "heap_ok st \<longleftrightarrow> (\<exists>L. heap_inv L st) \<and> coalesced st \<and> sizes_ok st"

definition kept_ok :: "(addr \<times> nat) set \<Rightarrow> memory \<Rightarrow> 'a gc_alloc_scheme \<Rightarrow> bool" where
  "kept_ok K M st \<longleftrightarrow> (\<forall>ob \<in> K. is_obj st ob \<and> (\<forall>w \<in> obj_words (fst ob) (snd ob). GC_mem st w = M w))"

definition sweep_inv ::
    "(addr \<times> nat) set \<Rightarrow> memory \<Rightarrow> (nat \<times> nat \<Rightarrow> addr list) \<Rightarrow> (nat \<times> nat \<Rightarrow> hblk list) \<Rightarrow> 'a gc_alloc_scheme \<Rightarrow> bool" where
  "sweep_inv K M FL RL st \<longleftrightarrow> heap_ok st \<and> kept_ok K M st
     \<and> (\<forall>k g. k < GC_n_kinds st \<and> g \<le> MAXOBJGRANULES \<longrightarrow>
          free_list_ok K st k g (FL (k, g)) \<and> reclaim_list_ok K st k g (FL (k, g)) (RL (k, g)))"

lemma sweep_invD:
  assumes "sweep_inv K M FL RL st"
  shows "heap_ok st" "kept_ok K M st" "tiled st" "sizes_ok st"
    "k < GC_n_kinds st \<Longrightarrow> g \<le> MAXOBJGRANULES \<Longrightarrow> free_list_ok K st k g (FL (k, g))"
    "k < GC_n_kinds st \<Longrightarrow> g \<le> MAXOBJGRANULES \<Longrightarrow> reclaim_list_ok K st k g (FL (k, g)) (RL (k, g))"
  using assms heap_invD(1) by (auto simp: sweep_inv_def heap_ok_def)

lemma is_obj_info: "is_obj st ob \<longleftrightarrow> (\<exists>b k. block_info st b = Some (k, snd ob) \<and> obj_start (snd ob) b (fst ob))"
  by (force simp: is_obj_def block_info_def)

lemma block_info_used:
  assumes "block_info st b = Some (k, s)"
  obtains hh where "used_at st b = Some hh" "hb_obj_kind hh = k" "hb_sz hh = s" "hdr_at st b = hh"
  using assms by (auto simp: block_info_def used_at_Some hdr_at_def)

lemma info_cong:
  assumes "block_info st' = block_info st"
  shows "is_obj st' = is_obj st" "small_block st' = small_block st" "sizes_ok st' = sizes_ok st"
proof -
  show "is_obj st' = is_obj st" "small_block st' = small_block st" using assms by (simp_all add: is_obj_info small_block_def fun_eq_iff)
  have e: "sizes_ok s \<longleftrightarrow> (\<forall>b k sz. block_info s b = Some (k, sz) \<longrightarrow> 0 < sz \<and> (sz \<le> MAXOBJBYTES \<longrightarrow> 8 dvd sz) \<and> OBJ_SZ_TO_BLOCKS sz * HBLKSIZE < 2 ^ 31)" for s :: "'c hdr_index_scheme"
    by (auto simp: sizes_ok_def block_info_def blocks_of_def)
  show "sizes_ok st' = sizes_ok st" by (simp add: e assms)
qed

lemma small_block_obj: "small_block st k g b \<Longrightarrow> j < HBLK_OBJS (8 * g) \<Longrightarrow> is_obj st (obj_addr b (8 * g) j, 8 * g)"
  by (auto simp: small_block_def is_obj_info obj_start_def gc_consts)

lemma block_list_cong:
  "(\<And>b. b \<in> set bs \<Longrightarrow> hb_next (hdr_at st' b) = hb_next (hdr_at st b)) \<Longrightarrow> block_list st' p bs = block_list st p bs"
  by (induction bs arbitrary: p) auto

lemma link_word: "4 dvd x \<Longrightarrow> 4 dvd s \<Longrightarrow> 0 < s \<Longrightarrow> x div 4 \<in> obj_words x s"
  by (simp add: obj_words_mem(2))

end
