(* ===== verification/Sweep_Lazy.thy ===== *)
theory Sweep_Lazy
  imports Sweep_Inv
begin

text \<open>
  Sweeping blocks from the reclaim lists, one at a time, keeps the invariant: \<open>GC_continue_reclaim\<close> and
  \<open>GC_reclaim_all\<close> return, and only objects that are not kept come onto the free lists.
\<close>

section \<open>Taking a block off its reclaim list\<close>

lemma heap_ok_cong:
  fixes st st' :: "'a gc_alloc_scheme"
  assumes "same_tiles st st'" "index_wf st'" "block_info st' = block_info st" "heap_ok st"
    "GC_hblkfreelist st' = GC_hblkfreelist st" "GC_free_bytes st' = GC_free_bytes st" "GC_large_free_bytes st' = GC_large_free_bytes st"
  shows "heap_ok st'"
proof -
  obtain L where L: "heap_inv L st" "coalesced st" "sizes_ok st" using assms(4) by (auto simp: heap_ok_def)
  then show ?thesis using heap_inv_tiles [OF assms(1,2) L(1) assms(5-7)] info_cong(3) [OF assms(3)] by (auto simp: heap_ok_def)
qed

lemma pop_fields:
  fixes st :: "'a gc_alloc_scheme" and k g :: nat
  defines "st' \<equiv> pop_reclaim k g st"
  shows "HDR st' = HDR st" "index_wf st' = index_wf st" "GC_mem st' = GC_mem st" "ok_freelist st' = ok_freelist st" "GC_n_kinds st' = GC_n_kinds st"
    "GC_hblkfreelist st' = GC_hblkfreelist st" "GC_free_bytes st' = GC_free_bytes st" "GC_large_free_bytes st' = GC_large_free_bytes st"
    "GC_obj_kinds st' = GC_obj_kinds st" "GC_gc_no st' = GC_gc_no st"
    "reclaim_head st k g \<noteq> 0 \<Longrightarrow> reclaim_head st' k' g' = (if (k', g') = (k, g) then hb_next (hdr_at st (reclaim_head st k g)) else reclaim_head st k' g')"
  unfolding st'_def pop_reclaim_def reclaim_head_def by (auto split: option.splits)

lemma hdr_cong:
  assumes "HDR st' = HDR st"
  shows "hdr_at st' = hdr_at st" "used_at st' = used_at st" "block_info st' = block_info st" "same_tiles st st'" "is_obj st' = is_obj st" "small_block st' = small_block st"
proof -
  show "hdr_at st' = hdr_at st" "used_at st' = used_at st" using assms by (simp_all add: hdr_at_def used_at_def fun_eq_iff)
  then show i: "block_info st' = block_info st" by (simp add: block_info_def fun_eq_iff)
  show "same_tiles st st'" using assms by (simp add: same_tiles_def)
  show "is_obj st' = is_obj st" "small_block st' = small_block st" by (rule info_cong [OF i])+
qed

lemma reclaim_headD:
  assumes "reclaim_list_ok K st k g xs (b # bs)"
  shows "reclaim_head st k g = b" "b \<noteq> 0" "small_block st k g b" "\<forall>x \<in> set xs. HBLKPTR x \<noteq> b" "b \<notin> set bs"
    "\<forall>j < HBLK_OBJS (8 * g). mark_bit_from_hdr (hdr_at st b) (g * j) \<longleftrightarrow> (obj_addr b (8 * g) j, 8 * g) \<in> K"
    "block_list st (hb_next (hdr_at st b)) bs"
  using assms by (auto simp: reclaim_list_ok_def)

lemma sweep_inv_pop:
  assumes inv: "sweep_inv K M FL RL st" and c: "k < GC_n_kinds st" "g \<le> MAXOBJGRANULES" and rl: "RL (k, g) = b # bs"
  shows "sweep_inv K M FL (RL((k, g) := bs)) (pop_reclaim k g st)"
proof -
  let ?p = "pop_reclaim k g st"
  note i = sweep_invD [OF inv] and f = pop_fields [where st = st and k = k and g = g] and h = hdr_cong [OF pop_fields(1) [where st = st and k = k and g = g]]
  note b = reclaim_headD [OF i(6) [OF c, unfolded rl]]
  have "heap_ok ?p" by (rule heap_ok_cong [OF h(4) _ h(3) i(1) f(6-8)]) (use tiledD(1) [OF i(3)] f(2) in simp)
  moreover have "kept_ok K M ?p" using i(2) h f by (simp add: kept_ok_def)
  moreover have "free_list_ok K ?p k' g' (FL (k', g'))" if "k' < GC_n_kinds st" "g' \<le> MAXOBJGRANULES" for k' g'
    using i(5) [OF that] h f by (simp add: free_list_ok_def)
  moreover have "reclaim_list_ok K ?p k' g' (FL (k', g')) ((RL((k, g) := bs)) (k', g'))" if "k' < GC_n_kinds st" "g' \<le> MAXOBJGRANULES" for k' g'
  proof -
    have e: "block_list ?p = block_list st" using block_list_cong [of _ ?p st] h(1) by (simp add: fun_eq_iff)
    have r: "reclaim_head ?p k' g' = (if (k', g') = (k, g) then hb_next (hdr_at st b) else reclaim_head st k' g')"
      using f(11) [of k' g'] b(1,2) by simp
    show ?thesis using i(6) [OF that] i(6) [OF c] b(7) rl e r h by (auto simp: reclaim_list_ok_def)
  qed
  ultimately show ?thesis using f(5) by (simp add: sweep_inv_def)
qed

section \<open>Sweeping it\<close>

text \<open>An object on a free list is an object, and lists of different classes have no objects in common.\<close>

lemma free_list_obj:
  assumes "free_list_ok K st k g xs" "x \<in> set xs"
  obtains b j where "x = obj_addr b (8 * g) j" "j < HBLK_OBJS (8 * g)" "small_block st k g b" "is_obj st (x, 8 * g)" "(x, 8 * g) \<notin> K" "HBLKPTR x = b"
proof -
  obtain b j where x: "x = obj_addr b (8 * g) j" "j < HBLK_OBJS (8 * g)" "small_block st k g b" "(x, 8 * g) \<notin> K"
    using assms by (auto simp: free_list_ok_def)
  moreover have "0 < 8 * g" using x(3) by (simp add: small_block_def)
  ultimately show thesis using that [of b j] small_block_obj HBLKPTR_obj [of "8 * g" j b] by blast
qed

lemma small_block_unique: "small_block st k g b \<Longrightarrow> small_block st k' g' b \<Longrightarrow> k = k' \<and> g = g'"
  by (simp add: small_block_def)

lemma sweep_inv_sweep:
  fixes st :: "'a gc_alloc_scheme"
  assumes inv: "sweep_inv K M FL RL st" and c: "k < GC_n_kinds st" "g \<le> MAXOBJGRANULES"
    and b: "small_block st k g b" "\<forall>x \<in> set (FL (k, g)). HBLKPTR x \<noteq> b" "b \<notin> set (RL (k, g))"
      "\<forall>j < HBLK_OBJS (8 * g). mark_bit_from_hdr (hdr_at st b) (g * j) \<longleftrightarrow> (obj_addr b (8 * g) j, 8 * g) \<in> K"
  defines "U \<equiv> unmarked_from (hdr_at st b) (8 * g) 0" and "st' \<equiv> GC_reclaim_small_nonempty_block b False st"
  shows "sweep_inv K M (FL((k, g) := rev (map (obj_addr b (8 * g)) U) @ FL (k, g))) RL st'" "rest st' = rest st"
proof -
  note i = sweep_invD [OF inv]
  obtain hh where hh: "used_at st b = Some hh" "hb_obj_kind hh = k" "hb_sz hh = 8 * g" "hdr_at st b = hh"
    using b(1) by (auto simp: small_block_def elim: block_info_used)
  have g: "0 < g" using b(1) by (simp add: small_block_def)
  have bd: "0 < b" "b < 2 ^ 20" using used_at_bounds [OF i(3) hh(1)] by simp_all
  have fl: "obj_list (GC_mem st) (ok_freelist st k g) (FL (k, g))" using i(5) [OF c] by (simp add: free_list_ok_def)
  note sw = sweep_small [OF i(3) hh(1,3) g c(2) hh(2) fl b(2), folded st'_def, unfolded hh(4) [symmetric], folded U_def]
  show r: "rest st' = rest st" by (rule sw(8))
  note rD = rest_eqD [OF r]
  have H: "HDR st' x = (if x = b then Hdr (swept_hdr (GC_gc_no st) hh) else HDR st x)" for x using sw(6) hh(4) by simp
  have Hb: "HDR st b = Hdr hh" "\<not> HBLK_IS_FREE hh" using hh(1) by (simp_all add: used_at_Some)
  have info: "block_info st' = block_info st" using Hb by (auto simp: fun_eq_iff block_info_def used_at_def H)
  have tiles: "same_tiles st st'" using Hb by (simp add: same_tiles_def H)
  have nx: "hb_next (hdr_at st' x) = hb_next (hdr_at st x)" for x using Hb by (simp add: hdr_at_def H)
  note ic = info_cong [OF info]
  have Uobj: "j < HBLK_OBJS (8 * g)" "(obj_addr b (8 * g) j, 8 * g) \<notin> K" if "j \<in> set U" for j
    using that b(4) by (auto simp: U_def unmarked_from_def)
  have mem: "GC_mem st' w = GC_mem st w" if "is_obj st (p, s)" "w \<in> obj_words p s" "\<forall>j \<in> set U. (p, s) \<noteq> (obj_addr b (8 * g) j, 8 * g)" for p s w
  proof (rule sw(2), rule ballI)
    fix j assume j: "j \<in> set U"
    show "w \<notin> obj_words (obj_addr b (8 * g) j) (8 * g)"
      by (rule obj_words_apart [OF i(3,4) that(1) small_block_obj [OF b(1) Uobj(1) [OF j]] _ that(2)]) (use that(3) j in blast)
  qed
  have "heap_ok st'" by (rule heap_ok_cong [OF tiles sw(7) info i(1) rD(3-5)])
  moreover have "kept_ok K M st'"
    unfolding kept_ok_def ic(1)
  proof (intro ballI conjI)
    fix ob w assume ob: "ob \<in> K"
    have o: "is_obj st ob" "\<And>w. w \<in> obj_words (fst ob) (snd ob) \<Longrightarrow> GC_mem st w = M w" using i(2) ob by (auto simp: kept_ok_def)
    show "is_obj st ob" by (rule o(1))
    assume w: "w \<in> obj_words (fst ob) (snd ob)"
    have "GC_mem st' w = GC_mem st w" by (rule mem [of "fst ob" "snd ob"]) (use o(1) w ob Uobj(2) in auto)
    then show "GC_mem st' w = M w" using o(2) [OF w] by simp
  qed
  moreover have "free_list_ok K st' k' g' ((FL((k, g) := rev (map (obj_addr b (8 * g)) U) @ FL (k, g))) (k', g'))"
    if c': "k' < GC_n_kinds st" "g' \<le> MAXOBJGRANULES" for k' g'
  proof (cases "(k', g') = (k, g)")
    case True
    have "inj_on (obj_addr b (8 * g)) (set U)" using g by (auto simp: inj_on_def obj_addr_def)
    moreover have "distinct U" by (simp add: U_def unmarked_from_def)
    moreover have "obj_addr b (8 * g) ` set U \<inter> set (FL (k, g)) = {}" using b(2) Uobj(1) HBLKPTR_obj [of "8 * g" _ b] g by force
    ultimately have "distinct (rev (map (obj_addr b (8 * g)) U) @ FL (k, g))" using i(5) [OF c] by (auto simp: distinct_map free_list_ok_def)
    then show ?thesis using True sw(1) i(5) [OF c] Uobj b(1) ic(2) by (auto simp: free_list_ok_def)
  next
    case False
    have fo: "free_list_ok K st k' g' (FL (k', g'))" by (rule i(5) [OF c'])
    have "GC_mem st' (x div 4) = GC_mem st (x div 4)" if x: "x \<in> set (FL (k', g'))" for x
    proof -
      obtain b' j' where o: "x = obj_addr b' (8 * g') j'" "j' < HBLK_OBJS (8 * g')" "small_block st k' g' b'" "is_obj st (x, 8 * g')" "HBLKPTR x = b'"
        by (rule free_list_obj [OF fo x])
      have "b' \<noteq> b" using False small_block_unique [OF o(3)] b(1) by auto
      have 4: "4 dvd 8 * g'" "0 < 8 * g'" using o(3) by (simp_all add: small_block_def)
      have "4 dvd x" unfolding o(1) obj_addr_def hblk_addr_def HBLKSIZE_def using 4(1) by simp
      moreover have "\<forall>j \<in> set U. (x, 8 * g') \<noteq> (obj_addr b (8 * g) j, 8 * g)" using \<open>b' \<noteq> b\<close> o(5) Uobj(1) HBLKPTR_obj [of "8 * g" _ b] g by auto
      ultimately show ?thesis using mem [OF o(4)] link_word [of x "8 * g'"] 4 by simp
    qed
    then have "obj_list (GC_mem st') (ok_freelist st k' g') (FL (k', g')) = obj_list (GC_mem st) (ok_freelist st k' g') (FL (k', g'))" by (rule obj_list_cong)
    then show ?thesis using False fo sw(4) [of k' g'] ic(2) by (auto simp: free_list_ok_def)
  qed
  moreover have "reclaim_list_ok K st' k' g' ((FL((k, g) := rev (map (obj_addr b (8 * g)) U) @ FL (k, g))) (k', g')) (RL (k', g'))"
    if c': "k' < GC_n_kinds st" "g' \<le> MAXOBJGRANULES" for k' g'
  proof -
    have ro: "reclaim_list_ok K st k' g' (FL (k', g')) (RL (k', g'))" by (rule i(6) [OF c'])
    have nb: "b' \<noteq> b" if "b' \<in> set (RL (k', g'))" for b'
    proof
      assume "b' = b"
      moreover have "small_block st k' g' b'" using ro that unfolding reclaim_list_ok_def by blast
      ultimately show False using small_block_unique [OF b(1)] b(3) that by auto
    qed
    have m: "hdr_at st' b' = hdr_at st b'" if "b' \<noteq> b" for b' using that by (simp add: hdr_at_def H)
    have hd: "reclaim_head st' k' g' = reclaim_head st k' g'" using rD(1) by (simp add: reclaim_head_def)
    have bl: "block_list st' p (RL (k', g')) = block_list st p (RL (k', g'))" for p by (rule block_list_cong) (rule nx)
    have fx: "\<forall>x \<in> set ((FL((k, g) := rev (map (obj_addr b (8 * g)) U) @ FL (k, g))) (k', g')). HBLKPTR x \<noteq> b'" if "b' \<in> set (RL (k', g'))" for b'
      using ro that nb [OF that] Uobj(1) HBLKPTR_obj [of "8 * g" _ b] g by (auto simp: reclaim_list_ok_def)
    show ?thesis
      unfolding reclaim_list_ok_def hd bl ic(2)
    proof (intro conjI ballI)
      fix b' assume b': "b' \<in> set (RL (k', g'))"
      show "\<forall>j < HBLK_OBJS (8 * g'). mark_bit_from_hdr (hdr_at st' b') (g' * j) \<longleftrightarrow> (obj_addr b' (8 * g') j, 8 * g') \<in> K"
        using ro b' m [OF nb [OF b']] by (simp add: reclaim_list_ok_def)
    qed (use ro fx in \<open>auto simp: reclaim_list_ok_def\<close>)
  qed
  ultimately show "sweep_inv K M (FL((k, g) := rev (map (obj_addr b (8 * g)) U) @ FL (k, g))) RL st'" using rD(2) by (simp add: sweep_inv_def)
qed

section \<open>Lazy sweeping\<close>

lemma reclaim_head_iff: "reclaim_list_ok K st k g xs bs \<Longrightarrow> reclaim_head st k g = (case bs of [] \<Rightarrow> 0 | b # _ \<Rightarrow> b) \<and> (reclaim_head st k g = 0 \<longleftrightarrow> bs = [])"
  by (cases bs) (auto simp: reclaim_list_ok_def)

lemma free_head_iff: "free_list_ok K st k g xs \<Longrightarrow> ok_freelist st k g = 0 \<longleftrightarrow> xs = []"
  by (cases xs) (auto simp: free_list_ok_def)

text \<open>One block is taken off its reclaim list and swept.\<close>

lemma reclaim_one:
  assumes inv: "sweep_inv K M FL RL st" and c: "k < GC_n_kinds st" "g \<le> MAXOBJGRANULES" and rl: "RL (k, g) = b # bs"
  defines "st' \<equiv> GC_reclaim_small_nonempty_block b False (pop_reclaim k g st)"
  obtains ys where "sweep_inv K M (FL((k, g) := ys @ FL (k, g))) (RL((k, g) := bs)) st'" "GC_n_kinds st' = GC_n_kinds st"
proof -
  let ?p = "pop_reclaim k g st"
  note i = sweep_invD [OF inv] and p = sweep_inv_pop [OF inv c rl]
  note b = reclaim_headD [OF i(6) [OF c, unfolded rl]]
  note f = pop_fields [where st = st and k = k and g = g] and h = hdr_cong [OF pop_fields(1) [where st = st and k = k and g = g]]
  have "k < GC_n_kinds ?p" "small_block ?p k g b" "b \<notin> set ((RL((k, g) := bs)) (k, g))"
      "\<forall>j < HBLK_OBJS (8 * g). mark_bit_from_hdr (hdr_at ?p b) (g * j) \<longleftrightarrow> (obj_addr b (8 * g) j, 8 * g) \<in> K"
    using c b f h by simp_all
  note s = sweep_inv_sweep [OF p this(1) c(2) this(2) b(4) this(3,4)]
  show thesis using that [OF s(1) [folded st'_def]] rest_eqD(2) [OF s(2)] f(5) by (simp add: st'_def)
qed

lemma continue_reclaim_run:
  assumes "sweep_inv K M FL RL st" "k < GC_n_kinds st" "g \<le> MAXOBJGRANULES"
  shows "\<exists>st' ys bs. GC_continue_reclaim g k st = Some st' \<and> sweep_inv K M (FL((k, g) := ys @ FL (k, g))) (RL((k, g) := bs)) st'
    \<and> GC_n_kinds st' = GC_n_kinds st \<and> (ys @ FL (k, g) \<noteq> [] \<or> bs = [])"
  using assms
proof (induction "RL (k, g)" arbitrary: FL RL st)
  case Nil
  have "reclaim_head st k g = 0" using sweep_invD(6) [OF Nil.prems] Nil.hyps [symmetric] by (simp add: reclaim_list_ok_def)
  then have "GC_continue_reclaim g k st = Some st" by (simp add: GC_continue_reclaim.simps [of g k st])
  moreover have "sweep_inv K M (FL((k, g) := [] @ FL (k, g))) (RL((k, g) := [])) st" using Nil.prems(1) Nil.hyps by (simp add: fun_upd_idem)
  ultimately show ?case by blast
next
  case (Cons b bs)
  note rl = Cons.hyps(2) [symmetric]
  let ?s = "GC_reclaim_small_nonempty_block b False (pop_reclaim k g st)"
  obtain ys where s: "sweep_inv K M (FL((k, g) := ys @ FL (k, g))) (RL((k, g) := bs)) ?s" "GC_n_kinds ?s = GC_n_kinds st"
    by (rule reclaim_one [OF Cons.prems rl])
  have c: "k < GC_n_kinds ?s" using s(2) Cons.prems(2) by simp
  have hd: "reclaim_head st k g = b" "b \<noteq> 0" using reclaim_headD(1,2) [OF sweep_invD(6) [OF Cons.prems, unfolded rl]] .
  have fl: "ok_freelist ?s k g = 0 \<longleftrightarrow> ys @ FL (k, g) = []" using free_head_iff [OF sweep_invD(5) [OF s(1) c Cons.prems(3)]] by simp
  have run: "GC_continue_reclaim g k st = (if ok_freelist ?s k g \<noteq> 0 then Some ?s else GC_continue_reclaim g k ?s)"
    using hd by (simp add: GC_continue_reclaim.simps [of g k st])
  show ?case
  proof (cases "ok_freelist ?s k g = 0")
    case False
    then show ?thesis using run s fl by auto
  next
    case True
    obtain st' zs cs where r: "GC_continue_reclaim g k ?s = Some st'"
        "sweep_inv K M ((FL((k, g) := ys @ FL (k, g)))((k, g) := zs @ (FL((k, g) := ys @ FL (k, g))) (k, g))) ((RL((k, g) := bs))((k, g) := cs)) st'"
        "GC_n_kinds st' = GC_n_kinds ?s" "zs @ (FL((k, g) := ys @ FL (k, g))) (k, g) \<noteq> [] \<or> cs = []"
      using Cons.hyps(1) [OF _ s(1) c Cons.prems(3)] by auto
    then have "sweep_inv K M (FL((k, g) := (zs @ ys) @ FL (k, g))) (RL((k, g) := cs)) st'" by simp
    then show ?thesis using r True run s(2) by (intro exI [of _ st'] exI [of _ "zs @ ys"] exI [of _ cs]) simp
  qed
qed

text \<open>Reclaim lists only get shorter.\<close>

definition shrunk :: "(nat \<times> nat \<Rightarrow> hblk list) \<Rightarrow> (nat \<times> nat \<Rightarrow> hblk list) \<Rightarrow> bool" where
  "shrunk RL RL' \<longleftrightarrow> (\<forall>c. RL c = [] \<longrightarrow> RL' c = [])"

lemma reclaim_list_run:
  assumes "sweep_inv K M FL RL st" "k < GC_n_kinds st" "g \<le> MAXOBJGRANULES"
  shows "\<exists>finished i' st' FL' RL'. reclaim_list_loop stop ignore_old k g i st = Some (finished, i', st') \<and> sweep_inv K M FL' RL' st'
    \<and> GC_n_kinds st' = GC_n_kinds st \<and> shrunk RL RL' \<and> (finished \<longrightarrow> RL' (k, g) = []) \<and> ((\<forall>k. \<not> stop k) \<longrightarrow> finished)"
  using assms
proof (induction "RL (k, g)" arbitrary: FL RL st i)
  case Nil
  have "reclaim_head st k g = 0" using sweep_invD(6) [OF Nil.prems] Nil.hyps [symmetric] by (simp add: reclaim_list_ok_def)
  then have "reclaim_list_loop stop ignore_old k g i st = Some (True, i, st)" by (simp add: reclaim_list_loop.simps [of stop ignore_old k g i st])
  then show ?case using Nil by (intro exI [of _ True] exI [of _ i] exI [of _ st] exI [of _ FL] exI [of _ RL]) (simp add: shrunk_def)
next
  case (Cons b bs)
  note rl = Cons.hyps(2) [symmetric]
  have hd: "reclaim_head st k g = b" "b \<noteq> 0" using reclaim_headD(1,2) [OF sweep_invD(6) [OF Cons.prems, unfolded rl]] .
  show ?case
  proof (cases "stop i")
    case True
    then have "reclaim_list_loop stop ignore_old k g i st = Some (False, i + 1, st)" using hd by (simp add: reclaim_list_loop.simps [of stop ignore_old k g i st])
    moreover have "\<not> (\<forall>k. \<not> stop k)" using True by blast
    ultimately show ?thesis using Cons.prems(1) by (intro exI [of _ False] exI [of _ "i + 1"] exI [of _ st] exI [of _ FL] exI [of _ RL]) (simp add: shrunk_def)
  next
    case False
    let ?p = "pop_reclaim k g st"
    define s where "s = (if \<not> ignore_old \<or> hb_last_reclaimed (hdr_at ?p b) = wsub (GC_gc_no ?p) 1 then GC_reclaim_small_nonempty_block b False ?p else ?p)"
    have run: "reclaim_list_loop stop ignore_old k g i st = reclaim_list_loop stop ignore_old k g (i + 1) s"
      using hd False by (simp add: reclaim_list_loop.simps [of stop ignore_old k g i st] s_def)
    obtain FL1 where s: "sweep_inv K M FL1 (RL((k, g) := bs)) s" "GC_n_kinds s = GC_n_kinds st"
    proof (cases "\<not> ignore_old \<or> hb_last_reclaimed (hdr_at ?p b) = wsub (GC_gc_no ?p) 1")
      case True
      then show ?thesis using that reclaim_one [OF Cons.prems rl] by (auto simp: s_def)
    next
      case False
      then show ?thesis using that [of FL] sweep_inv_pop [OF Cons.prems rl] pop_fields(5) by (auto simp: s_def)
    qed
    obtain finished i' st' FL' RL' where r: "reclaim_list_loop stop ignore_old k g (i + 1) s = Some (finished, i', st')" "sweep_inv K M FL' RL' st'"
        "GC_n_kinds st' = GC_n_kinds s" "shrunk (RL((k, g) := bs)) RL'" "finished \<longrightarrow> RL' (k, g) = []" "(\<forall>k. \<not> stop k) \<longrightarrow> finished"
      using Cons.hyps(1) [OF _ s(1) _ Cons.prems(3)] s(2) Cons.prems(2) by fastforce
    have "shrunk RL RL'" unfolding shrunk_def
    proof (intro allI impI)
      fix c assume c: "RL c = []"
      then have "(RL((k, g) := bs)) c = []" using rl by auto
      then show "RL' c = []" using r(4) [unfolded shrunk_def, rule_format, of c] by blast
    qed
    then show ?thesis using r run s(2) by auto
  qed
qed

lemma reclaim_lists_run:
  assumes "sweep_inv K M FL RL st" "\<forall>(k, g) \<in> set cs. k < GC_n_kinds st \<and> g \<le> MAXOBJGRANULES"
  shows "\<exists>finished i' st' FL' RL'. reclaim_lists_loop stop ignore_old cs i st = Some (finished, i', st') \<and> sweep_inv K M FL' RL' st'
    \<and> GC_n_kinds st' = GC_n_kinds st \<and> shrunk RL RL' \<and> (finished \<longrightarrow> (\<forall>c \<in> set cs. RL' c = [])) \<and> ((\<forall>k. \<not> stop k) \<longrightarrow> finished)"
  using assms
proof (induction cs arbitrary: FL RL st i)
  case Nil
  then show ?case by (auto simp: shrunk_def)
next
  case (Cons c cs)
  obtain k g where kg: "c = (k, g)" by (cases c)
  have c: "k < GC_n_kinds st" "g \<le> MAXOBJGRANULES" using Cons.prems(2) by (auto simp: kg)
  obtain finished i1 s FL1 RL1 where s: "reclaim_list_loop stop ignore_old k g i st = Some (finished, i1, s)" "sweep_inv K M FL1 RL1 s"
      "GC_n_kinds s = GC_n_kinds st" "shrunk RL RL1" "finished \<longrightarrow> RL1 (k, g) = []" "(\<forall>k. \<not> stop k) \<longrightarrow> finished"
    using reclaim_list_run [OF Cons.prems(1) c, of stop ignore_old i] by (elim exE conjE) (rule that)
  show ?case
  proof (cases finished)
    case False
    then have "reclaim_lists_loop stop ignore_old (c # cs) i st = Some (False, i1, s)" using s(1) kg by simp
    then show ?thesis using False s(2-4,6) by (intro exI [of _ False] exI [of _ i1] exI [of _ s] exI [of _ FL1] exI [of _ RL1] conjI) simp_all
  next
    case True
    have cs: "\<forall>(k, g) \<in> set cs. k < GC_n_kinds s \<and> g \<le> MAXOBJGRANULES" using Cons.prems(2) s(3) by auto
    obtain f2 i' st' FL' RL' where r: "reclaim_lists_loop stop ignore_old cs i1 s = Some (f2, i', st')" "sweep_inv K M FL' RL' st'"
        "GC_n_kinds st' = GC_n_kinds s" "shrunk RL1 RL'" "f2 \<longrightarrow> (\<forall>c \<in> set cs. RL' c = [])" "(\<forall>k. \<not> stop k) \<longrightarrow> f2"
      using Cons.IH [OF s(2) cs, of i1] by (elim exE conjE) (rule that)
    have "RL' (k, g) = []" "shrunk RL RL'" using s(4,5) True r(4) by (auto simp: shrunk_def)
    moreover have "reclaim_lists_loop stop ignore_old (c # cs) i st = Some (f2, i', st')" using s(1) kg True r(1) by simp
    ultimately show ?thesis using r(2,3,5,6) s(3) kg by (intro exI [of _ f2] exI [of _ i'] exI [of _ st'] exI [of _ FL'] exI [of _ RL'] conjI) simp_all
  qed
qed

lemma reclaim_all_run:
  assumes "sweep_inv K M FL RL st"
  shows "\<exists>finished i' st' FL' RL'. GC_reclaim_all stop ignore_old st = Some (finished, i', st') \<and> sweep_inv K M FL' RL' st'
    \<and> GC_n_kinds st' = GC_n_kinds st \<and> (finished \<longrightarrow> (\<forall>k g. k < GC_n_kinds st \<and> 0 < g \<and> g \<le> MAXOBJGRANULES \<longrightarrow> RL' (k, g) = []))
    \<and> ((\<forall>k. \<not> stop k) \<longrightarrow> finished)"
proof -
  let ?cs = "[(kind, gran). kind \<leftarrow> [0 ..< GC_n_kinds st], gran \<leftarrow> [1 ..< MAXOBJGRANULES + 1]]"
  have "\<forall>(k, g) \<in> set ?cs. k < GC_n_kinds st \<and> g \<le> MAXOBJGRANULES" by auto
  note run = reclaim_lists_run [OF assms this, of stop ignore_old 0]
  obtain finished i' st' FL' RL' where r: "GC_reclaim_all stop ignore_old st = Some (finished, i', st')" "sweep_inv K M FL' RL' st'"
      "GC_n_kinds st' = GC_n_kinds st" "finished \<longrightarrow> (\<forall>c \<in> set ?cs. RL' c = [])" "(\<forall>k. \<not> stop k) \<longrightarrow> finished"
    using run [folded GC_reclaim_all_def] by (elim exE conjE) (rule that)
  have "(k, g) \<in> set ?cs" if "k < GC_n_kinds st \<and> 0 < g \<and> g \<le> MAXOBJGRANULES" for k g
    using that by (simp add: image_iff del: upt_Suc)
  then show ?thesis using r by (intro exI [of _ finished] exI [of _ i'] exI [of _ st'] exI [of _ FL'] exI [of _ RL'] conjI) blast+
qed

end
