(* ===== verification/Sweep_Start.thy ===== *)
theory Sweep_Start
  imports Sweep_Lazy Marking
begin

text \<open>
  The start of a sweep: \<open>GC_start_reclaim\<close> drops the free lists and visits every block in use. It is shown to establish the
  invariant of sweeping for the objects that are marked, and to free exactly the blocks without marked
  objects.
\<close>

section \<open>What the invariant depends on\<close>

definition sweep_view where
  "sweep_view st = (HDR st, index_wf st, GC_mem st, ok_freelist st, ok_reclaim_list st, GC_n_kinds st, GC_hblkfreelist st, GC_free_bytes st, GC_large_free_bytes st)"

lemma block_list_HDR:
  assumes "HDR st' = HDR st"
  shows "block_list st' p bs = block_list st p bs"
  by (rule block_list_cong) (simp add: hdr_cong(1) [OF assms])

lemma sweep_inv_view:
  fixes st st' :: "'a gc_alloc_scheme"
  assumes v: "sweep_view st' = sweep_view st" and inv: "sweep_inv K M FL RL st"
  shows "sweep_inv K M FL RL st'"
proof -
  have e: "HDR st' = HDR st" "index_wf st' = index_wf st" "GC_mem st' = GC_mem st" "ok_freelist st' = ok_freelist st" "ok_reclaim_list st' = ok_reclaim_list st"
      "GC_n_kinds st' = GC_n_kinds st" "GC_hblkfreelist st' = GC_hblkfreelist st" "GC_free_bytes st' = GC_free_bytes st" "GC_large_free_bytes st' = GC_large_free_bytes st"
    using v by (simp_all add: sweep_view_def)
  note i = sweep_invD [OF inv] and h = hdr_cong [OF e(1)]
  have "heap_ok st'" by (rule heap_ok_cong [OF h(4) _ h(3) i(1) e(7-9)]) (use tiledD(1) [OF i(3)] e(2) in simp)
  moreover have "kept_ok K M st'" using i(2) unfolding kept_ok_def h(5) e(3) .
  moreover have "free_list_ok K st' k g xs = free_list_ok K st k g xs" for k g xs unfolding free_list_ok_def h(6) e(3,4) ..
  moreover have "reclaim_list_ok K st' k g xs bs = reclaim_list_ok K st k g xs bs" for k g xs bs
    unfolding reclaim_list_ok_def reclaim_head_def e(5) h(1,6) block_list_HDR [OF e(1)] ..
  ultimately show ?thesis using inv e(6) by (simp add: sweep_inv_def)
qed

section \<open>Freeing a block in use\<close>

lemma freehblk_used:
  fixes st :: "'a gc_alloc_scheme"
  assumes ok: "heap_ok st" and u: "used_at st b = Some hh"
  obtains st' where "GC_freehblk b st = Some st'" "heap_ok st'" "used_at st' = (used_at st)(b := None)" "GC_mem st' = GC_mem st"
    "ok_freelist st' = ok_freelist st" "ok_reclaim_list st' = ok_reclaim_list st" "GC_n_kinds st' = GC_n_kinds st"
proof -
  obtain L where L: "heap_inv L st" "coalesced st" "sizes_ok st" using ok by (auto simp: heap_ok_def)
  note i = heap_invD [OF L(1)]
  note t = i(1) and l = tiledD(2) [OF i(1)]
  have h: "HDR st b = Hdr hh" "\<not> HBLK_IS_FREE hh" using u by (simp_all add: used_at_Some)
  have sz: "blocks_of hh * HBLKSIZE < 2 ^ 31" using L(3) u by (simp add: sizes_ok_def)
  obtain L' st' where r: "GC_freehblk b st = Some st'" "heap_inv L' st'" "coalesced st'"
      "used_at st' = (\<lambda>c. if b \<le> c \<and> c < b + blocks_of hh then None else used_at st c)"
      "vars st' = (vars st)\<lparr> GC_large_free_bytes := card (free_cells st') * HBLKSIZE \<rparr>"
    by (rule GC_freehblk_range [OF t i(2) tiledD(1) [OF t] h tiled_Hdr_pos [OF t h(1)]
          layout_blocks_pos [OF l h(1)] sz tiledD(5) [OF t h(1)] refl
          no_cutI [OF l h(1) h(1)] used_block_range(1) [OF t h] refl refl i(3) L(2)])
      auto
  have ua: "used_at st' = (used_at st)(b := None)" using r(4) used_block_range(2) [OF t h] by simp
  then have "sizes_ok st'" using L(3) by (auto simp: sizes_ok_def split: if_splits)
  then have "heap_ok st'" using r(2,3) by (auto simp: heap_ok_def)
  moreover have "GC_mem st' = GC_mem st" "ok_freelist st' = ok_freelist st" "ok_reclaim_list st' = ok_reclaim_list st" "GC_n_kinds st' = GC_n_kinds st"
    using r(5) [THEN arg_cong, of GC_mem] r(5) [THEN arg_cong, of ok_freelist] r(5) [THEN arg_cong, of ok_reclaim_list] r(5) [THEN arg_cong, of GC_n_kinds]
    by (simp_all add: vars_def)
  ultimately show thesis using that [OF r(1) _ ua] by blast
qed

section \<open>Visiting a block\<close>

definition all_marks :: "(addr \<times> nat) set \<Rightarrow> 'a hdr_index_scheme \<Rightarrow> bool" where
  "all_marks K st \<longleftrightarrow> (\<forall>b hh p. used_at st b = Some hh \<and> obj_start (hb_sz hh) b p \<longrightarrow>
     (mark_bit_from_hdr hh ((p - hblk_addr b) div 8) \<longleftrightarrow> (p, hb_sz hh) \<in> K))"

definition kinds_ok :: "'a gc_alloc_scheme \<Rightarrow> bool" where
  "kinds_ok st \<longleftrightarrow> (\<forall>b k s. block_info st b = Some (k, s) \<longrightarrow> k < GC_n_kinds st \<and> ok_reclaim_list st k \<noteq> None)"

text \<open>The header of a block that \<open>GC_reclaim_block\<close> frees.\<close>

definition dead_hdr :: "hdr \<Rightarrow> bool" where
  "dead_hdr hh \<longleftrightarrow> (if hb_sz hh > MAXOBJBYTES then \<not> mark_bit_from_hdr hh 0 else hb_n_marks hh = 0)"

definition start_inv :: "(addr \<times> nat) set \<Rightarrow> memory \<Rightarrow> 'a gc_alloc_scheme \<Rightarrow> hblk set \<Rightarrow> 'a gc_alloc_scheme \<Rightarrow> bool" where
  "start_inv K M st0 V st \<longleftrightarrow> (\<exists>RL. sweep_inv K M (\<lambda>_. []) RL st \<and> (\<forall>c. set (RL c) \<subseteq> V)) \<and> all_marks K st \<and> counts_ok st \<and> kinds_ok st
     \<and> (\<forall>b. block_info st b = (if b \<in> V \<and> (\<exists>hh. used_at st0 b = Some hh \<and> dead_hdr hh) then None else block_info st0 b))
     \<and> (\<forall>b. b \<notin> V \<longrightarrow> used_at st b = used_at st0 b)"

lemma dead_no_kept:
  assumes t: "tiled st" "sizes_ok st" and m: "all_marks K st" "counts_ok st" and u: "used_at st b = Some hh" "dead_hdr hh" and p: "obj_start (hb_sz hh) b p"
  shows "(p, hb_sz hh) \<notin> K"
proof -
  have "\<not> mark_bit_from_hdr hh ((p - hblk_addr b) div 8)"
  proof (cases "hb_sz hh > MAXOBJBYTES")
    case True
    then show ?thesis using u(2) p by (simp add: dead_hdr_def obj_start_def)
  next
    case False
    then obtain j where j: "j < HBLK_OBJS (hb_sz hh)" "p = obj_addr b (hb_sz hh) j" using p by (auto simp: obj_start_def)
    have "8 dvd hb_sz hh" using t(2) u(1) False by (auto simp: sizes_ok_def)
    then obtain g where g: "hb_sz hh = 8 * g" by (rule dvdE)
    have "0 < hb_sz hh" using t(2) u(1) unfolding sizes_ok_def by blast
    then have "g * j < g * HBLK_OBJS (8 * g)" using j(1) g by simp
    then have "g * j < FINAL_MARK_BIT (hb_sz hh)"
      using False by (simp add: FINAL_MARK_BIT_def g BYTES_TO_GRANULES_def GRANULE_BYTES_def)
    then have "object_bit (hb_sz hh) (g * j)" using False by (simp add: object_bit_def g)
    then have "\<not> mark_bit_from_hdr hh (g * j)" using m(2) u False count_ok_0 by (auto simp: counts_ok_def dead_hdr_def used_at_Some)
    moreover have "(p - hblk_addr b) div 8 = g * j" by (simp add: j(2) g obj_addr_def)
    ultimately show ?thesis by simp
  qed
  then show ?thesis using m(1) u(1) p by (auto simp: all_marks_def)
qed

lemma counts_ok_used: "counts_ok st \<longleftrightarrow> (\<forall>b hh. used_at st b = Some hh \<longrightarrow> count_ok hh)"
  by (auto simp: counts_ok_def used_at_Some)

lemma start_invE:
  assumes "start_inv K M st0 V st"
  obtains RL where "sweep_inv K M (\<lambda>_. []) RL st" "\<And>c. set (RL c) \<subseteq> V" "all_marks K st" "counts_ok st" "kinds_ok st"
    "\<And>b. block_info st b = (if b \<in> V \<and> (\<exists>hh. used_at st0 b = Some hh \<and> dead_hdr hh) then None else block_info st0 b)"
    "\<And>b. b \<notin> V \<Longrightarrow> used_at st b = used_at st0 b"
  using assms unfolding start_inv_def by blast

lemma start_inv_free:
  fixes st :: "'a gc_alloc_scheme"
  assumes inv: "start_inv K M st0 V st" and b: "b \<notin> V" and u: "used_at st b = Some hh" "dead_hdr hh"
  shows "\<exists>st'. GC_freehblk b st = Some st' \<and> start_inv K M st0 (insert b V) st' \<and> (\<forall>c. c \<noteq> b \<longrightarrow> is_used (HDR st' c) = is_used (HDR st c))"
proof -
  obtain RL where s: "sweep_inv K M (\<lambda>_. []) RL st" "\<And>c. set (RL c) \<subseteq> V" "all_marks K st" "counts_ok st" "kinds_ok st"
      "\<And>b. block_info st b = (if b \<in> V \<and> (\<exists>hh. used_at st0 b = Some hh \<and> dead_hdr hh) then None else block_info st0 b)"
      "\<And>b. b \<notin> V \<Longrightarrow> used_at st b = used_at st0 b"
    using start_invE [OF inv] by metis
  note i = sweep_invD [OF s(1)]
  obtain st' where r: "GC_freehblk b st = Some st'" "heap_ok st'" "used_at st' = (used_at st)(b := None)" "GC_mem st' = GC_mem st"
      "ok_freelist st' = ok_freelist st" "ok_reclaim_list st' = ok_reclaim_list st" "GC_n_kinds st' = GC_n_kinds st"
    by (rule freehblk_used [OF i(1) u(1)])
  have info: "block_info st' = (block_info st)(b := None)" using r(3) by (simp add: block_info_def fun_eq_iff)
  have hdr: "hdr_at st' c = hdr_at st c" if "c \<noteq> b" "used_at st c = Some gh" for c gh
  proof -
    have "used_at st' c = Some gh" using that r(3) by simp
    then show ?thesis using that(2) by (simp add: hdr_at_def used_at_Some)
  qed
  have kept: "is_obj st' ob" if ob: "ob \<in> K" for ob
  proof -
    obtain c gh where c: "used_at st c = Some gh" "hb_sz gh = snd ob" "obj_start (snd ob) c (fst ob)" using i(2) ob by (auto simp: kept_ok_def is_obj_def)
    have "c \<noteq> b" using dead_no_kept [OF i(3,4) s(3,4) u, of "fst ob"] c u ob by auto
    then show ?thesis using c r(3) by (auto simp: is_obj_def)
  qed
  have sb: "small_block st' k g c" "hdr_at st' c = hdr_at st c" if c: "c \<in> set (RL (k, g))" "small_block st k g c" for k g c
  proof -
    have "c \<noteq> b" using s(2) [of "(k, g)"] c(1) b by auto
    then show "small_block st' k g c" using c(2) info by (simp add: small_block_def)
    show "hdr_at st' c = hdr_at st c" using \<open>c \<noteq> b\<close> c(2) hdr by (auto simp: small_block_def elim: block_info_used)
  qed
  have "reclaim_list_ok K st' k g [] (RL (k, g))" if "reclaim_list_ok K st k g [] (RL (k, g))" for k g
  proof -
    have "block_list st' p (RL (k, g)) = block_list st p (RL (k, g))" for p
      by (rule block_list_cong) (use that sb(2) in \<open>auto simp: reclaim_list_ok_def\<close>)
    then show ?thesis using that sb by (simp add: reclaim_list_ok_def reclaim_head_def r(6))
  qed
  then have "sweep_inv K M (\<lambda>_. []) RL st'" using s(1) r(2,4,5,7) kept by (simp add: sweep_inv_def kept_ok_def free_list_ok_def)
  moreover have "all_marks K st'" "counts_ok st'" using s(3,4) r(3) by (auto simp: all_marks_def counts_ok_used split: if_splits)
  moreover have "kinds_ok st'" using s(5) info r(6,7) by (auto simp: kinds_ok_def split: if_splits)
  moreover have "\<exists>hh. used_at st0 b = Some hh \<and> dead_hdr hh" using u by (intro exI [of _ hh]) (simp add: s(7) [OF b, symmetric])
  ultimately have "start_inv K M st0 (insert b V) st'" using s(2,6,7) info r(3) unfolding start_inv_def by (auto simp: subset_insertI2)
  moreover have "is_used (HDR st' c) = is_used (HDR st c)" if "c \<noteq> b" for c
  proof -
    have "is_used (HDR s c) \<longleftrightarrow> used_at s c \<noteq> None" for s :: "'a gc_alloc_scheme" by (auto simp: is_used_def used_at_def split: hdr_entry.splits)
    then show ?thesis using r(3) that by simp
  qed
  ultimately show ?thesis using r(1) by blast
qed

lemma start_inv_view:
  assumes v: "sweep_view st' = sweep_view st" and inv: "start_inv K M st0 V st"
  shows "start_inv K M st0 V st'"
proof -
  have e: "HDR st' = HDR st" "GC_n_kinds st' = GC_n_kinds st" "ok_reclaim_list st' = ok_reclaim_list st" using v by (simp_all add: sweep_view_def)
  note h = hdr_cong [OF e(1)]
  have "all_marks K st' = all_marks K st" "counts_ok st' = counts_ok st" unfolding all_marks_def counts_ok_used h(2) by (rule refl)+
  moreover have "kinds_ok st' = kinds_ok st" unfolding kinds_ok_def h(3) e(2,3) ..
  ultimately show ?thesis using inv sweep_inv_view [OF v] h(2,3) unfolding start_inv_def by metis
qed

lemma start_inv_live:
  assumes inv: "start_inv K M st0 V st" and b: "b \<notin> V" and u: "used_at st b = Some hh" "\<not> dead_hdr hh"
  shows "start_inv K M st0 (insert b V) st"
proof -
  obtain RL where s: "sweep_inv K M (\<lambda>_. []) RL st" "\<And>c. set (RL c) \<subseteq> V" "all_marks K st" "counts_ok st" "kinds_ok st"
      "\<And>b. block_info st b = (if b \<in> V \<and> (\<exists>hh. used_at st0 b = Some hh \<and> dead_hdr hh) then None else block_info st0 b)"
      "\<And>b. b \<notin> V \<Longrightarrow> used_at st b = used_at st0 b"
    using start_invE [OF inv] by metis
  have "\<not> (\<exists>hh. used_at st0 b = Some hh \<and> dead_hdr hh)" using s(7) [OF b] u by auto
  then show ?thesis unfolding start_inv_def using s by (intro conjI exI [of _ RL]) (auto simp: subset_insertI2)
qed

lemma start_inv_push:
  fixes st :: "'a gc_alloc_scheme"
  assumes inv: "start_inv K M st0 V st" and b: "b \<notin> V" and u: "used_at st b = Some hh" "\<not> dead_hdr hh"
    and sm: "hb_obj_kind hh = k" "hb_sz hh = 8 * g" "0 < g" "g \<le> MAXOBJGRANULES" and rl: "ok_reclaim_list st k = Some rlh"
  defines "st' \<equiv> (upd_hdr b (\<lambda>hh. hh\<lparr> hb_next := rlh g \<rparr>) st)\<lparr> ok_reclaim_list := (ok_reclaim_list st)(k \<mapsto> rlh(g := b)) \<rparr>"
  shows "start_inv K M st0 (insert b V) st' \<and> (\<forall>c. is_used (HDR st' c) = is_used (HDR st c))"
proof -
  obtain RL where s: "sweep_inv K M (\<lambda>_. []) RL st" "\<And>c. set (RL c) \<subseteq> V" "all_marks K st" "counts_ok st" "kinds_ok st"
      "\<And>b. block_info st b = (if b \<in> V \<and> (\<exists>hh. used_at st0 b = Some hh \<and> dead_hdr hh) then None else block_info st0 b)"
      "\<And>b. b \<notin> V \<Longrightarrow> used_at st b = used_at st0 b"
    using start_invE [OF inv] by metis
  note i = sweep_invD [OF s(1)]
  let ?hh = "hh\<lparr> hb_next := rlh g \<rparr>" and ?RL = "RL((k, g) := b # RL (k, g))"
  have Hb: "HDR st b = Hdr hh" "\<not> HBLK_IS_FREE hh" using u(1) by (simp_all add: used_at_Some)
  have H: "HDR st' c = (if c = b then Hdr ?hh else HDR st c)" for c
    using Hb tiledD(1) [OF i(3)] by (simp add: st'_def HDR_upd_hdr)
  have f: "GC_mem st' = GC_mem st" "ok_freelist st' = ok_freelist st" "ok_reclaim_list st' = (ok_reclaim_list st)(k \<mapsto> rlh(g := b))" "GC_n_kinds st' = GC_n_kinds st"
      "GC_hblkfreelist st' = GC_hblkfreelist st" "GC_free_bytes st' = GC_free_bytes st" "GC_large_free_bytes st' = GC_large_free_bytes st" "index_wf st'"
    using tiledD(1) [OF i(3)] by (simp_all add: st'_def)
  have free: "HBLK_IS_FREE ?hh = HBLK_IS_FREE hh" by (simp add: HBLK_IS_FREE_def)
  have ua: "used_at st' = (used_at st)(b \<mapsto> ?hh)" using Hb free by (auto simp: fun_eq_iff used_at_def H)
  have info: "block_info st' = block_info st" using u(1) by (auto simp: fun_eq_iff block_info_def ua)
  have tiles: "same_tiles st st'" using Hb free by (simp add: same_tiles_def H)
  note ic = info_cong [OF info]
  have hdr: "hdr_at st' c = hdr_at st c" if "c \<noteq> b" for c using that by (simp add: hdr_at_def H)
  have hb: "hdr_at st' b = ?hh" by (simp add: hdr_at_def H)
  have b0: "b \<noteq> 0" using used_at_bounds(1) [OF i(3) u(1)] by simp
  have sb: "small_block st k g b" using u(1) sm by (simp add: small_block_def block_info_def)
  have nb: "b \<notin> set (RL c)" for c using s(2) [of c] b by auto
  have bl: "block_list st' p (RL c) = block_list st p (RL c)" for p c by (rule block_list_cong) (metis nb hdr)
  have "heap_ok st'" by (rule heap_ok_cong [OF tiles f(8) info i(1) f(5-7)])
  moreover have "kept_ok K M st'" using i(2) unfolding kept_ok_def ic(1) f(1) .
  moreover have "free_list_ok K st' k' g' []" if "free_list_ok K st k' g' []" for k' g' using that by (simp add: free_list_ok_def f)
  moreover have "reclaim_list_ok K st' k' g' [] (?RL (k', g'))" if r: "reclaim_list_ok K st k' g' [] (RL (k', g'))" for k' g'
  proof (cases "(k', g') = (k, g)")
    case True
    have hd: "reclaim_head st' k g = b" "reclaim_head st k g = rlh g" by (simp_all add: reclaim_head_def f rl)
    have mk: "mark_bit_from_hdr ?hh (g * j) \<longleftrightarrow> (obj_addr b (8 * g) j, 8 * g) \<in> K" if j: "j < HBLK_OBJS (8 * g)" for j
    proof -
      have "obj_start (hb_sz hh) b (obj_addr b (8 * g) j)" using j sm by (auto simp: obj_start_def gc_consts)
      then have "mark_bit_from_hdr hh ((obj_addr b (8 * g) j - hblk_addr b) div 8) \<longleftrightarrow> (obj_addr b (8 * g) j, 8 * g) \<in> K"
        using s(3) u(1) sm(2) unfolding all_marks_def by metis
      moreover have "(obj_addr b (8 * g) j - hblk_addr b) div 8 = g * j" by (simp add: obj_addr_def)
      ultimately show ?thesis by (simp add: mark_bit_from_hdr_def)
    qed
    have r': "block_list st (rlh g) (RL (k, g))" "distinct (RL (k, g))"
        "\<forall>c \<in> set (RL (k, g)). small_block st k g c \<and> (\<forall>j < HBLK_OBJS (8 * g). mark_bit_from_hdr (hdr_at st c) (g * j) \<longleftrightarrow> (obj_addr c (8 * g) j, 8 * g) \<in> K)"
      using r True hd(2) by (auto simp: reclaim_list_ok_def)
    have "\<forall>c \<in> set (b # RL (k, g)). small_block st' k g c \<and> (\<forall>j < HBLK_OBJS (8 * g). mark_bit_from_hdr (hdr_at st' c) (g * j) \<longleftrightarrow> (obj_addr c (8 * g) j, 8 * g) \<in> K)"
      using r'(3) sb mk hb nb [of "(k, g)"] hdr ic(2) by (simp split: if_splits) (metis nb)
    moreover have "block_list st' b (b # RL (k, g))" using b0 hb bl r'(1) by simp
    ultimately show ?thesis using True r'(2) nb [of "(k, g)"] hd(1) by (simp add: reclaim_list_ok_def)
  next
    case False
    then have hd: "reclaim_head st' k' g' = reclaim_head st k' g'" by (auto simp: reclaim_head_def f rl)
    have "\<forall>c \<in> set (RL (k', g')). hdr_at st' c = hdr_at st c" using nb [of "(k', g')"] hdr by metis
    then show ?thesis using False r bl [of _ "(k', g')"] unfolding reclaim_list_ok_def hd ic(2) by auto
  qed
  ultimately have "sweep_inv K M (\<lambda>_. []) ?RL st'" using s(1) f(4) by (simp add: sweep_inv_def)
  moreover have "\<forall>c. set (?RL c) \<subseteq> insert b V" using s(2) by (metis fun_upd_apply insert_mono list.set(2) subset_insertI2)
  ultimately have "\<exists>RL. sweep_inv K M (\<lambda>_. []) RL st' \<and> (\<forall>c. set (RL c) \<subseteq> insert b V)" by blast
  moreover have "all_marks K st'"
    unfolding all_marks_def ua
  proof (intro allI impI)
    fix c ch p assume c: "((used_at st)(b \<mapsto> ?hh)) c = Some ch \<and> obj_start (hb_sz ch) c p"
    then have "\<exists>ch'. used_at st c = Some ch' \<and> hb_sz ch' = hb_sz ch \<and> hb_marks ch' = hb_marks ch" using u(1) by (cases "c = b") auto
    then show "mark_bit_from_hdr ch ((p - hblk_addr c) div 8) \<longleftrightarrow> (p, hb_sz ch) \<in> K" using c s(3) unfolding all_marks_def mark_bit_from_hdr_def by metis
  qed
  moreover have "counts_ok st'" using s(4) u(1) by (auto simp: counts_ok_used ua count_ok_def mark_bit_from_hdr_def split: if_splits)
  moreover have "kinds_ok st'" using s(5) unfolding kinds_ok_def info f(3,4) by auto
  moreover have "\<not> (\<exists>hh. used_at st0 b = Some hh \<and> dead_hdr hh)" using s(7) [OF b] u by auto
  moreover have "is_used (HDR st' c) = is_used (HDR st c)" for c by (rule same_tiles_at(5) [OF tiles])
  ultimately show ?thesis using s(6,7) info ua unfolding start_inv_def by auto
qed

lemma sweep_view_counters [simp]:
  "sweep_view (st\<lparr> GC_composite_in_use := a \<rparr>) = sweep_view st" "sweep_view (st\<lparr> GC_atomic_in_use := a \<rparr>) = sweep_view st"
  "sweep_view (st\<lparr> GC_bytes_found := a \<rparr>) = sweep_view st" "sweep_view (st\<lparr> GC_large_allocd_bytes := a \<rparr>) = sweep_view st"
  by (simp_all add: sweep_view_def)

lemma is_used_iff: "is_used (HDR st b) \<longleftrightarrow> (\<exists>hh. used_at st b = Some hh)"
  by (auto simp: is_used_def used_at_def split: hdr_entry.splits)

lemma view_used:
  assumes "sweep_view st' = sweep_view st"
  shows "HDR st' = HDR st" "used_at st' = used_at st" "hdr_at st' = hdr_at st" "ok_reclaim_list st' = ok_reclaim_list st"
  using assms hdr_cong(1,2) [of st' st] by (auto simp: sweep_view_def)

lemma GC_reclaim_block_visit:
  fixes st :: "'a gc_alloc_scheme"
  assumes inv: "start_inv K M st0 V st" and b: "b \<notin> V" and u: "is_used (HDR st b)"
  shows "\<exists>st'. GC_reclaim_block False b st = Some st' \<and> start_inv K M st0 (insert b V) st' \<and> (\<forall>c. c \<noteq> b \<longrightarrow> is_used (HDR st' c) = is_used (HDR st c))"
proof -
  obtain hh where hh: "used_at st b = Some hh" using u by (auto simp: is_used_iff)
  have h: "hdr_at st b = hh" using hh by (simp add: used_at_Some hdr_at_def)
  have free: "\<exists>st'. GC_freehblk b s = Some st' \<and> start_inv K M st0 (insert b V) st' \<and> (\<forall>c. c \<noteq> b \<longrightarrow> is_used (HDR st' c) = is_used (HDR st c))"
    if "sweep_view s = sweep_view st" "dead_hdr hh" for s
    using start_inv_free [OF start_inv_view [OF that(1) inv] b _ that(2)] hh view_used(1,2) [OF that(1)] by simp
  have live: "start_inv K M st0 (insert b V) s" if "sweep_view s = sweep_view st" "\<not> dead_hdr hh" for s
    by (rule start_inv_view [OF that(1) start_inv_live [OF inv b hh that(2)]])
  show ?thesis
  proof (cases "hb_sz hh > MAXOBJBYTES")
    case True
    then have d: "dead_hdr hh \<longleftrightarrow> \<not> mark_bit_from_hdr hh 0" by (simp add: dead_hdr_def)
    show ?thesis
    proof (cases "mark_bit_from_hdr hh 0")
      case False
      define s where "s = (if obj_sz_to_blocks (hb_sz hh) > 1
        then st\<lparr> GC_large_allocd_bytes := wsub (GC_large_allocd_bytes st) (word32 (obj_sz_to_blocks (hb_sz hh) * HBLKSIZE)) \<rparr> else st)"
      have "GC_reclaim_block False b st = GC_freehblk b (s\<lparr> GC_bytes_found := wadd (GC_bytes_found s) (hb_sz hh) \<rparr>)"
        unfolding GC_reclaim_block_def h Let_def s_def [symmetric] using True False by simp
      moreover have "sweep_view (s\<lparr> GC_bytes_found := wadd (GC_bytes_found s) (hb_sz hh) \<rparr>) = sweep_view st" by (simp add: s_def)
      ultimately show ?thesis using free d False by metis
    next
      case mk: True
      let ?s = "if hb_descr hh \<noteq> 0 then st\<lparr> GC_composite_in_use := wadd (GC_composite_in_use st) (hb_sz hh) \<rparr>
        else st\<lparr> GC_atomic_in_use := wadd (GC_atomic_in_use st) (hb_sz hh) \<rparr>"
      have r: "GC_reclaim_block False b st = Some ?s" using True mk by (simp add: GC_reclaim_block_def h Let_def)
      have v: "sweep_view ?s = sweep_view st" by simp
      show ?thesis using r live [OF v] view_used(1) [OF v] d mk by (intro exI [of _ ?s]) simp
    qed
  next
    case False
    then have d: "dead_hdr hh \<longleftrightarrow> hb_n_marks hh = 0" by (simp add: dead_hdr_def)
    define s where "s = (if hb_descr hh \<noteq> 0 then st\<lparr> GC_composite_in_use := wadd (GC_composite_in_use st) (word32 (hb_sz hh * hb_n_marks hh)) \<rparr>
        else st\<lparr> GC_atomic_in_use := wadd (GC_atomic_in_use st) (word32 (hb_sz hh * hb_n_marks hh)) \<rparr>)"
    have v: "sweep_view s = sweep_view st" by (simp add: s_def)
    note vu = view_used [OF v]
    have "8 dvd hb_sz hh" "0 < hb_sz hh" using sweep_invD(4) start_invE [OF inv] hh False unfolding sizes_ok_def by (metis not_less)+
    then obtain g where g: "hb_sz hh = 8 * g" "0 < g" by (auto elim: dvdE)
    have gm: "g \<le> MAXOBJGRANULES" using False g(1) by (simp add: gc_consts)
    show ?thesis
    proof (cases "hb_n_marks hh = 0")
      case True
      have "GC_reclaim_block False b st = GC_freehblk b (s\<lparr> GC_bytes_found := wadd (GC_bytes_found s) HBLKSIZE \<rparr>)"
        using True False by (simp add: GC_reclaim_block_def h Let_def s_def GC_block_empty_def)
      moreover have "sweep_view (s\<lparr> GC_bytes_found := wadd (GC_bytes_found s) HBLKSIZE \<rparr>) = sweep_view st" using v by simp
      ultimately show ?thesis using free d True by metis
    next
      case nz: False
      show ?thesis
      proof (cases "GC_find_leak st \<or> \<not> GC_block_nearly_full hh")
        case True
        have "kinds_ok st" using start_invE [OF inv] by metis
        then obtain rlh where rl: "ok_reclaim_list st (hb_obj_kind hh) = Some rlh" using hh by (auto simp: kinds_ok_def block_info_def)
        let ?t = "(upd_hdr b (\<lambda>hh. hh\<lparr> hb_next := rlh g \<rparr>) s)\<lparr> ok_reclaim_list := (ok_reclaim_list s)(hb_obj_kind hh \<mapsto> rlh(g := b)) \<rparr>"
        have fl: "GC_find_leak s = GC_find_leak st" by (simp add: s_def)
        have "GC_reclaim_block False b st = Some ?t"
          unfolding GC_reclaim_block_def h Let_def s_def [symmetric] using True False nz rl vu(4) fl by (simp add: GC_block_empty_def g(1))
        moreover have "start_inv K M st0 (insert b V) ?t \<and> (\<forall>c. is_used (HDR ?t c) = is_used (HDR s c))"
          by (rule start_inv_push [OF start_inv_view [OF v inv] b _ _ refl g gm]) (use hh vu rl d nz in simp_all)
        ultimately show ?thesis using vu(1) by simp
      next
        case fl: False
        have "GC_reclaim_block False b st = Some s"
          unfolding GC_reclaim_block_def h Let_def s_def [symmetric] using fl False nz by (simp add: GC_block_empty_def s_def)
        then show ?thesis using live [OF v] vu(1) d nz by simp
      qed
    qed
  qed
qed

interpretation reclaim: block_visitor "start_inv K M st0" "GC_reclaim_block False"
  for K M and st0 :: "'a gc_alloc_scheme"
proof unfold_locales
  fix V and st :: "'a gc_alloc_scheme"
  assume "start_inv K M st0 V st"
  then show "layout_ok st" using start_invE sweep_invD(3) tiledD(2) by metis
qed (rule GC_reclaim_block_visit)

section \<open>Dropping the free lists\<close>

lemma clear_links_run:
  assumes "obj_list mem p xs" "inj_on (\<lambda>x. x div 4) (set xs)" "distinct xs"
  shows "clear_links p mem = Some (\<lambda>w. if w \<in> (\<lambda>x. x div 4) ` set xs then 0 else mem w)"
  using assms
proof (induction xs arbitrary: p mem)
  case Nil
  then show ?case by (simp add: clear_links.simps)
next
  case (Cons x xs)
  let ?m = "set_link x 0 mem"
  have p: "p = x" "x \<noteq> 0" "obj_list mem (obj_link mem x) xs" using Cons.prems(1) by simp_all
  have "?m (y div 4) = mem (y div 4)" if "y \<in> set xs" for y
    using that Cons.prems(2,3) by (auto simp: set_link_def inj_on_def)
  then have "obj_list ?m (obj_link mem x) xs = obj_list mem (obj_link mem x) xs" by (rule obj_list_cong)
  then have "clear_links (obj_link mem x) ?m = Some (\<lambda>w. if w \<in> (\<lambda>x. x div 4) ` set xs then 0 else ?m w)"
    using Cons.IH [of ?m "obj_link mem x"] p(3) Cons.prems(2,3) by (simp add: inj_on_insert)
  moreover have "clear_links p mem = clear_links (obj_link mem x) ?m" unfolding p(1) using p(2) by (subst clear_links.simps) simp
  moreover have "(\<lambda>w. if w \<in> (\<lambda>x. x div 4) ` set xs then 0 else ?m w) = (\<lambda>w. if w \<in> (\<lambda>x. x div 4) ` set (x # xs) then 0 else mem w)"
    by (auto simp: fun_eq_iff set_link_def)
  ultimately show ?case by simp
qed

text \<open>The first words of the objects on free lists.\<close>

definition link_words :: "'a gc_alloc_scheme \<Rightarrow> (nat \<times> nat \<Rightarrow> addr list) \<Rightarrow> nat set" where
  "link_words st FL = {x div 4 |x k g. k < GC_n_kinds st \<and> g \<le> MAXOBJGRANULES \<and> x \<in> set (FL (k, g))}"

definition lists_ok :: "(addr \<times> nat) set \<Rightarrow> (nat \<times> nat \<Rightarrow> addr list) \<Rightarrow> 'a gc_alloc_scheme \<Rightarrow> bool" where
  "lists_ok K FL st \<longleftrightarrow> (\<forall>k g. k < GC_n_kinds st \<and> g \<le> MAXOBJGRANULES \<longrightarrow>
     free_list_ok K st k g (FL (k, g)) \<and> (ok_reclaim_list st k = None \<longrightarrow> FL (k, g) = []))"

lemma link_apart:
  assumes t: "tiled st" "sizes_ok st" and f: "free_list_ok K st k g xs" "free_list_ok K st k' g' ys"
    and x: "x \<in> set xs" "y \<in> set ys" and e: "x div 4 = y div 4"
  shows "x = y" "k = k'" "g = g'"
proof -
  obtain b j where b: "x = obj_addr b (8 * g) j" "small_block st k g b" "is_obj st (x, 8 * g)" "HBLKPTR x = b" by (rule free_list_obj [OF f(1) x(1)])
  obtain c i where c: "y = obj_addr c (8 * g') i" "small_block st k' g' c" "is_obj st (y, 8 * g')" "HBLKPTR y = c" by (rule free_list_obj [OF f(2) x(2)])
  have "4 dvd x" "4 dvd y" "0 < g" "0 < g'" using b(1,2) c(1,2) by (simp_all add: obj_addr_def hblk_addr_def HBLKSIZE_def small_block_def mult.assoc)
  then have "x div 4 \<in> obj_words x (8 * g)" "y div 4 \<in> obj_words y (8 * g')" by (simp_all add: link_word)
  then have "(x, 8 * g) = (y, 8 * g')" using obj_words_apart [OF t b(3) c(3), of "x div 4"] e by auto
  then show "x = y" "k = k'" "g = g'" using b(2,4) c(2,4) by (auto simp: small_block_def)
qed

text \<open>The free lists of the classes \<open>D\<close> and the reclaim lists of the kinds \<open>E\<close> were cleared.\<close>

definition class_cleared :: "(nat \<times> nat \<Rightarrow> addr list) \<Rightarrow> (nat \<times> nat) set \<Rightarrow> 'a gc_alloc_scheme \<Rightarrow> nat \<Rightarrow> nat \<Rightarrow> bool" where
  "class_cleared FL D s k g \<longleftrightarrow> (if (k, g) \<in> D then ok_freelist s k g = 0 else obj_list (GC_mem s) (ok_freelist s k g) (FL (k, g)))"

definition heads_cleared :: "'a gc_alloc_scheme \<Rightarrow> nat set \<Rightarrow> 'a gc_alloc_scheme \<Rightarrow> bool" where
  "heads_cleared st E s \<longleftrightarrow> (\<forall>k. (ok_reclaim_list s k = None) = (ok_reclaim_list st k = None) \<and> (k \<in> E \<longrightarrow> (\<forall>g \<le> MAXOBJGRANULES. reclaim_head s k g = 0)))"

definition clear_inv :: "(nat \<times> nat \<Rightarrow> addr list) \<Rightarrow> 'a gc_alloc_scheme \<Rightarrow> (nat \<times> nat) set \<Rightarrow> nat set \<Rightarrow> 'a gc_alloc_scheme \<Rightarrow> bool" where
  "clear_inv FL st D E s \<longleftrightarrow> HDR s = HDR st \<and> index_wf s = index_wf st \<and> GC_n_kinds s = GC_n_kinds st \<and> GC_hblkfreelist s = GC_hblkfreelist st
     \<and> GC_free_bytes s = GC_free_bytes st \<and> GC_large_free_bytes s = GC_large_free_bytes st
     \<and> (\<forall>w. w \<notin> link_words st FL \<longrightarrow> GC_mem s w = GC_mem st w)
     \<and> (\<forall>k g. k < GC_n_kinds st \<and> g \<le> MAXOBJGRANULES \<longrightarrow> class_cleared FL D s k g) \<and> heads_cleared st E s"

lemma clear_inv_class:
  assumes "clear_inv FL st D E s" "k < GC_n_kinds st" "g \<le> MAXOBJGRANULES"
  shows "(k, g) \<in> D \<Longrightarrow> ok_freelist s k g = 0" "(k, g) \<notin> D \<Longrightarrow> obj_list (GC_mem s) (ok_freelist s k g) (FL (k, g))"
  using assms by (auto simp: clear_inv_def class_cleared_def)

lemma clear_inv_upd:
  fixes st s :: "'a gc_alloc_scheme"
  assumes inv: "clear_inv FL st D E s" and m: "\<And>w. w \<notin> link_words st FL \<Longrightarrow> m w = GC_mem s w"
    and o: "\<And>k' g'. k' < GC_n_kinds st \<Longrightarrow> g' \<le> MAXOBJGRANULES \<Longrightarrow> (k', g') \<noteq> (k, g) \<Longrightarrow>
      obj_list m (ok_freelist s k' g') (FL (k', g')) = obj_list (GC_mem s) (ok_freelist s k' g') (FL (k', g'))"
  shows "clear_inv FL st (insert (k, g) D) E (s\<lparr> GC_mem := m, ok_freelist := (ok_freelist s)(k := (ok_freelist s k)(g := 0)) \<rparr>)"
    (is "clear_inv FL st _ E ?s")
proof -
  have "HDR ?s = HDR s" by (rule HDR_cong) simp_all
  moreover have "index_wf ?s = index_wf s" by (simp add: index_wf_def)
  moreover have "class_cleared FL (insert (k, g) D) ?s k' g'" if "k' < GC_n_kinds st \<and> g' \<le> MAXOBJGRANULES" for k' g'
  proof (cases "(k', g') = (k, g)")
    case False
    then have e: "ok_freelist ?s k' g' = ok_freelist s k' g'" by auto
    show ?thesis
      unfolding class_cleared_def e using clear_inv_class [OF inv, of k' g'] that False o [of k' g'] by auto
  qed (simp add: class_cleared_def)
  moreover have "heads_cleared st E ?s = heads_cleared st E s" by (simp add: heads_cleared_def reclaim_head_def)
  ultimately show ?thesis using inv m unfolding clear_inv_def by simp
qed

lemma clear_free_list_run:
  fixes st s :: "'a gc_alloc_scheme"
  assumes t: "tiled st" "sizes_ok st" and l: "lists_ok K FL st" and c: "k < GC_n_kinds st" "g \<le> MAXOBJGRANULES" and inv: "clear_inv FL st D E s"
  shows "\<exists>s'. clear_free_list clob k g s = Some s' \<and> clear_inv FL st (insert (k, g) D) E s'"
proof -
  have fo: "free_list_ok K st k' g' (FL (k', g'))" if "k' < GC_n_kinds st" "g' \<le> MAXOBJGRANULES" for k' g' using l that by (simp add: lists_ok_def)
  have lw: "x div 4 \<in> link_words st FL" if "x \<in> set (FL (k, g))" for x using that c by (auto simp: link_words_def)
  let ?upd = "\<lambda>m. s\<lparr> GC_mem := m, ok_freelist := (ok_freelist s)(k := (ok_freelist s k)(g := 0)) \<rparr>"
  show ?thesis
  proof (cases "ok_freelist s k g \<noteq> 0 \<and> clob")
    case False
    then have "clear_free_list clob k g s = Some (?upd (GC_mem s))" by (auto simp: clear_free_list_def)
    then show ?thesis using clear_inv_upd [OF inv] by blast
  next
    case True
    then have ol: "obj_list (GC_mem s) (ok_freelist s k g) (FL (k, g))" using clear_inv_class [OF inv c] by auto
    have ds: "distinct (FL (k, g))" "inj_on (\<lambda>x. x div 4) (set (FL (k, g)))"
      using fo [OF c] link_apart(1) [OF t fo [OF c] fo [OF c]] by (auto simp: free_list_ok_def inj_on_def)
    define m where "m = (\<lambda>w. if w \<in> (\<lambda>x. x div 4) ` set (FL (k, g)) then 0 else GC_mem s w)"
    have run: "clear_free_list clob k g s = Some (?upd m)"
      using True clear_links_run [OF ol ds(2,1)] by (simp add: clear_free_list_def GC_clear_fl_links_def m_def)
    have other: "obj_list m p (FL (k', g')) = obj_list (GC_mem s) p (FL (k', g'))"
      if c': "k' < GC_n_kinds st" "g' \<le> MAXOBJGRANULES" "(k', g') \<noteq> (k, g)" for k' g' p
    proof (rule obj_list_cong)
      fix y assume y: "y \<in> set (FL (k', g'))"
      have "y div 4 \<notin> (\<lambda>x. x div 4) ` set (FL (k, g))" using link_apart(2,3) [OF t fo [OF c] fo [OF c'(1,2)] _ y] c'(3) by fastforce
      then show "m (y div 4) = GC_mem s (y div 4)" by (simp add: m_def)
    qed
    have "m w = GC_mem s w" if "w \<notin> link_words st FL" for w using that lw by (auto simp: m_def)
    then show ?thesis using run clear_inv_upd [OF inv, of m k g] other by blast
  qed
qed

lemma clear_free_lists_run:
  fixes st s :: "'a gc_alloc_scheme"
  assumes t: "tiled st" "sizes_ok st" and l: "lists_ok K FL st" and k: "k < GC_n_kinds st"
  shows "\<forall>g \<in> set gs. g \<le> MAXOBJGRANULES \<Longrightarrow> clear_inv FL st D E s \<Longrightarrow>
    \<exists>s'. each (clear_free_list clob k) gs s = Some s' \<and> clear_inv FL st (Pair k ` set gs \<union> D) E s'"
proof (induction gs arbitrary: D s)
  case (Cons g gs)
  obtain s1 where s1: "clear_free_list clob k g s = Some s1" "clear_inv FL st (insert (k, g) D) E s1"
    using clear_free_list_run [OF t l k _ Cons.prems(2), of g clob] Cons.prems(1) by auto
  then show ?case using Cons.IH [OF _ s1(2)] Cons.prems(1) by simp
qed simp

lemma clear_kind_run:
  fixes st s :: "'a gc_alloc_scheme"
  assumes t: "tiled st" "sizes_ok st" and l: "lists_ok K FL st" and k: "k < GC_n_kinds st" and inv: "clear_inv FL st D E s"
  shows "\<exists>s'. clear_kind False k s = Some s' \<and>
    clear_inv FL st ((if ok_reclaim_list st k = None then {} else Pair k ` {..MAXOBJGRANULES}) \<union> D) (insert k E) s'"
proof -
  have hc: "heads_cleared st E s" using inv by (simp add: clear_inv_def)
  show ?thesis
  proof (cases "ok_reclaim_list s k")
    case None
    then have "reclaim_head s k g = 0" for g by (simp add: reclaim_head_def)
    then have "ok_reclaim_list st k = None" "heads_cleared st (insert k E) s" using None hc unfolding heads_cleared_def by auto
    moreover from this have "clear_inv FL st D (insert k E) s" using inv by (simp add: clear_inv_def)
    ultimately show ?thesis using None by (simp add: clear_kind_def)
  next
    case (Some r)
    then have n: "ok_reclaim_list st k \<noteq> None" using hc by (metis heads_cleared_def option.discI)
    let ?gs = "[0 ..< MAXOBJGRANULES + 1]"
    have gs: "set ?gs = {..MAXOBJGRANULES}" by auto
    obtain s1 where s1: "each (clear_free_list (ok_descriptor (GC_obj_kinds s k) \<noteq> 0) k) ?gs s = Some s1" "clear_inv FL st (Pair k ` set ?gs \<union> D) E s1"
      using clear_free_lists_run [OF t l k _ inv, of ?gs "ok_descriptor (GC_obj_kinds s k) \<noteq> 0"] gs by auto
    let ?s = "s1\<lparr> ok_reclaim_list := (ok_reclaim_list s1)(k \<mapsto> (\<lambda>g. if g \<le> MAXOBJGRANULES then 0 else r g)) \<rparr>"
    have "heads_cleared st E s1" using s1(2) by (simp add: clear_inv_def)
    then have "heads_cleared st (insert k E) ?s" using n by (simp add: heads_cleared_def reclaim_head_def)
    moreover have "class_cleared FL D' ?s k' g' = class_cleared FL D' s1 k' g'" for D' k' g' by (simp add: class_cleared_def)
    ultimately have "clear_inv FL st (Pair k ` set ?gs \<union> D) (insert k E) ?s" using s1(2) by (simp add: clear_inv_def)
    moreover have "clear_kind False k s = Some ?s" using Some s1(1) by (simp add: clear_kind_def del: upt_Suc)
    ultimately show ?thesis using n unfolding gs by auto
  qed
qed

lemma clear_kinds_run:
  fixes st s :: "'a gc_alloc_scheme"
  assumes t: "tiled st" "sizes_ok st" and l: "lists_ok K FL st"
  shows "\<forall>k \<in> set ks. k < GC_n_kinds st \<Longrightarrow> clear_inv FL st D E s \<Longrightarrow>
    \<exists>s'. each (clear_kind False) ks s = Some s' \<and>
      clear_inv FL st ({(k, g). k \<in> set ks \<and> ok_reclaim_list st k \<noteq> None \<and> g \<le> MAXOBJGRANULES} \<union> D) (set ks \<union> E) s'"
proof (induction ks arbitrary: D E s)
  case (Cons k ks)
  let ?D = "(if ok_reclaim_list st k = None then {} else Pair k ` {..MAXOBJGRANULES}) \<union> D"
  obtain s1 where s1: "clear_kind False k s = Some s1" "clear_inv FL st ?D (insert k E) s1"
    using clear_kind_run [OF t l _ Cons.prems(2), of k] Cons.prems(1) by auto
  have e: "{(k, g). k \<in> set ks \<and> ok_reclaim_list st k \<noteq> None \<and> g \<le> MAXOBJGRANULES} \<union> ?D =
      {(k', g). k' \<in> set (k # ks) \<and> ok_reclaim_list st k' \<noteq> None \<and> g \<le> MAXOBJGRANULES} \<union> D" "set ks \<union> insert k E = set (k # ks) \<union> E"
    by auto
  obtain s' where "each (clear_kind False) ks s1 = Some s'"
      "clear_inv FL st ({(k, g). k \<in> set ks \<and> ok_reclaim_list st k \<noteq> None \<and> g \<le> MAXOBJGRANULES} \<union> ?D) (set ks \<union> insert k E) s'"
    using Cons.IH [OF _ s1(2)] Cons.prems(1) by auto
  then show ?case using s1(1) unfolding e by simp
qed simp

text \<open>Where all lists are cleared, no block was visited.\<close>

lemma clear_inv_start:
  fixes st s :: "'a gc_alloc_scheme"
  assumes ok: "heap_ok st" "kept_ok K (GC_mem st) st" "all_marks K st" "counts_ok st" "kinds_ok st" and l: "lists_ok K FL st"
    and c: "clear_inv FL st D E s" and D: "D = {(k, g). k < GC_n_kinds st \<and> ok_reclaim_list st k \<noteq> None \<and> g \<le> MAXOBJGRANULES}"
    and E: "E = {..< GC_n_kinds st}"
  shows "start_inv K (GC_mem st) st {} s"
proof -
  have t: "tiled st" "sizes_ok st" using ok(1) heap_invD(1) by (auto simp: heap_ok_def)
  have e: "HDR s = HDR st" "index_wf s = index_wf st" "GC_n_kinds s = GC_n_kinds st" "GC_hblkfreelist s = GC_hblkfreelist st"
      "GC_free_bytes s = GC_free_bytes st" "GC_large_free_bytes s = GC_large_free_bytes st" "\<And>w. w \<notin> link_words st FL \<Longrightarrow> GC_mem s w = GC_mem st w"
      "heads_cleared st E s"
    using c by (simp_all add: clear_inv_def)
  note h = hdr_cong [OF e(1)]
  have fo: "free_list_ok K st k g (FL (k, g))" if "k < GC_n_kinds st" "g \<le> MAXOBJGRANULES" for k g using l that by (simp add: lists_ok_def)
  have "heap_ok s" by (rule heap_ok_cong [OF h(4) _ h(3) ok(1) e(4-6)]) (use tiledD(1) [OF t(1)] e(2) in simp)
  moreover have "GC_mem s w = GC_mem st w" if "ob \<in> K" "w \<in> obj_words (fst ob) (snd ob)" for ob w
  proof (rule e(7), rule notI)
    assume "w \<in> link_words st FL"
    then obtain x k g where x: "w = x div 4" "k < GC_n_kinds st" "g \<le> MAXOBJGRANULES" "x \<in> set (FL (k, g))" by (auto simp: link_words_def)
    obtain b j where b: "x = obj_addr b (8 * g) j" "small_block st k g b" "is_obj st (x, 8 * g)" by (rule free_list_obj [OF fo [OF x(2,3)] x(4)])
    have "4 dvd x" "0 < g" using b(1,2) by (simp_all add: obj_addr_def hblk_addr_def HBLKSIZE_def small_block_def mult.assoc)
    then have "w \<in> obj_words x (8 * g)" by (simp add: link_word x(1))
    moreover have "is_obj st ob" "(x, 8 * g) \<noteq> ob" using ok(2) that(1) fo [OF x(2,3)] x(4) by (auto simp: kept_ok_def free_list_ok_def)
    ultimately show False using obj_words_apart [OF t b(3), of "fst ob" "snd ob" w] that(2) by simp
  qed
  then have "kept_ok K (GC_mem st) s" using ok(2) unfolding kept_ok_def h(5) by auto
  moreover have "free_list_ok K s k g [] \<and> reclaim_list_ok K s k g [] []" if k: "k < GC_n_kinds st" "g \<le> MAXOBJGRANULES" for k g
  proof -
    have "ok_freelist s k g = 0"
    proof (cases "ok_reclaim_list st k = None")
      case True
      then have "FL (k, g) = []" using l k by (simp add: lists_ok_def)
      moreover have "(k, g) \<notin> D" using True D by simp
      ultimately show ?thesis using clear_inv_class(2) [OF c k] by simp
    next
      case False
      then show ?thesis using clear_inv_class(1) [OF c k] D k by simp
    qed
    moreover have "reclaim_head s k g = 0" using e(8) k E by (simp add: heads_cleared_def)
    ultimately show ?thesis by (simp add: free_list_ok_def reclaim_list_ok_def)
  qed
  ultimately have "sweep_inv K (GC_mem st) (\<lambda>_. []) (\<lambda>_. []) s" using e(3) by (simp add: sweep_inv_def)
  moreover have "all_marks K s" "counts_ok s" using ok(3,4) unfolding all_marks_def counts_ok_used h(2) by blast+
  moreover have "kinds_ok s" using ok(5) e(8) unfolding kinds_ok_def h(3) e(3) heads_cleared_def by metis
  ultimately show ?thesis using h(2,3) unfolding start_inv_def by auto
qed

lemma start_reclaim_run:
  fixes st :: "'a gc_alloc_scheme"
  assumes ok: "heap_ok st" "kept_ok K (GC_mem st) st" "all_marks K st" "counts_ok st" "kinds_ok st" and l: "lists_ok K FL st"
  shows "\<exists>st' RL. GC_start_reclaim False st = Some st' \<and> sweep_inv K (GC_mem st) (\<lambda>_. []) RL st'
    \<and> (\<forall>b. block_info st' b = (if \<exists>hh. used_at st b = Some hh \<and> dead_hdr hh then None else block_info st b))"
proof -
  let ?st0 = "st\<lparr> GC_composite_in_use := 0, GC_atomic_in_use := 0 \<rparr>"
  have t: "tiled st" "sizes_ok st" using ok(1) heap_invD(1) by (auto simp: heap_ok_def)
  have h0: "HDR ?st0 = HDR st" "index_wf ?st0 = index_wf st" by simp_all
  have "class_cleared FL {} ?st0 k g" if "k < GC_n_kinds st \<and> g \<le> MAXOBJGRANULES" for k g
    using l that by (simp add: class_cleared_def lists_ok_def free_list_ok_def)
  then have "clear_inv FL st {} {} ?st0" using h0 by (simp add: clear_inv_def heads_cleared_def)
  then obtain s where s: "each (clear_kind False) [0 ..< GC_n_kinds st] ?st0 = Some s"
      "clear_inv FL st ({(k, g). k \<in> set [0 ..< GC_n_kinds st] \<and> ok_reclaim_list st k \<noteq> None \<and> g \<le> MAXOBJGRANULES} \<union> {}) (set [0 ..< GC_n_kinds st] \<union> {}) s"
    using clear_kinds_run [OF t l, of "[0 ..< GC_n_kinds st]" "{}" "{}" ?st0] by auto
  have i: "start_inv K (GC_mem st) st {} s" by (rule clear_inv_start [OF ok l s(2)]) auto
  have wf: "index_wf s" using s(2) tiledD(1) [OF t(1)] by (simp add: clear_inv_def)
  have d: "distinct (GC_all_bottom_indices s)" using wf by (simp add: index_wf_def strict_sorted_iff)
  have u: "set (used_blocks s) = {b. is_used (HDR s b)}" by (rule used_blocks_set [OF wf])
  have du: "distinct (used_blocks s)" by (rule distinct_used_blocks [OF wf])
  obtain st' where st': "each (GC_reclaim_block False) (used_blocks s) s = Some st'" "start_inv K (GC_mem st) st ({} \<union> set (used_blocks s)) st'"
    using reclaim.each_visits [OF i du] u by auto
  have "GC_start_reclaim False st = Some st'"
    using s(1) st'(1) reclaim.apply_all [OF i d] by (simp add: GC_start_reclaim_def)
  moreover have "b \<in> set (used_blocks s)" if "used_at st b = Some hh" for b hh
    using that s(2) u by (simp add: clear_inv_def is_used_iff used_at_Some)
  then have "(b \<in> {} \<union> set (used_blocks s) \<and> (\<exists>hh. used_at st b = Some hh \<and> dead_hdr hh)) = (\<exists>hh. used_at st b = Some hh \<and> dead_hdr hh)" for b by auto
  ultimately show ?thesis using start_invE [OF st'(2)] by metis
qed

section \<open>Blocks without marked objects\<close>

lemma object_bit_start:
  assumes "0 < sz" "sz \<le> MAXOBJBYTES \<longrightarrow> 8 dvd sz"
  shows "obj_start sz b p \<longleftrightarrow> (\<exists>n. object_bit sz n \<and> p = hblk_addr b + 8 * n)"
proof (cases "sz > MAXOBJBYTES")
  case True
  then show ?thesis by (auto simp: obj_start_def object_bit_def FINAL_MARK_BIT_def gc_consts)
next
  case False
  then obtain g where g: "sz = 8 * g" using assms(2) by auto
  have "object_bit sz n \<longleftrightarrow> (\<exists>j < HBLK_OBJS sz. n = g * j)" for n
  proof -
    have "FINAL_MARK_BIT sz = g * HBLK_OBJS sz" using False by (simp add: FINAL_MARK_BIT_def g BYTES_TO_GRANULES_def GRANULE_BYTES_def)
    moreover have "BYTES_TO_GRANULES sz = g" by (simp add: g)
    ultimately show ?thesis using False assms(1) g by (auto simp: object_bit_def mod_eq_0_iff_dvd elim!: dvdE)
  qed
  then show ?thesis using False by (auto simp: obj_start_def obj_addr_def g)
qed

definition has_kept :: "(addr \<times> nat) set \<Rightarrow> 'a hdr_index_scheme \<Rightarrow> hblk \<Rightarrow> bool" where
  "has_kept K st b \<longleftrightarrow> (\<exists>hh p. used_at st b = Some hh \<and> obj_start (hb_sz hh) b p \<and> (p, hb_sz hh) \<in> K)"

lemma dead_hdr_iff:
  assumes t: "tiled st" "sizes_ok st" and m: "all_marks K st" "counts_ok st" and u: "used_at st b = Some hh"
  shows "dead_hdr hh \<longleftrightarrow> \<not> has_kept K st b"
proof
  assume "dead_hdr hh"
  then show "\<not> has_kept K st b" using dead_no_kept [OF t m u] u by (auto simp: has_kept_def)
next
  assume n: "\<not> has_kept K st b"
  have sz: "0 < hb_sz hh" "hb_sz hh \<le> MAXOBJBYTES \<longrightarrow> 8 dvd hb_sz hh" using t(2) u by (auto simp: sizes_ok_def)
  have nm: "\<not> mark_bit_from_hdr hh n" if "object_bit (hb_sz hh) n" for n
  proof -
    have p: "obj_start (hb_sz hh) b (hblk_addr b + 8 * n)" using that object_bit_start [OF sz] by blast
    then have "(hblk_addr b + 8 * n, hb_sz hh) \<notin> K" using n u by (auto simp: has_kept_def)
    then show ?thesis using m(1) [unfolded all_marks_def, rule_format, of b hh "hblk_addr b + 8 * n"] u p by simp
  qed
  have "count_ok hh" using m(2) u by (simp add: counts_ok_used)
  then have "hb_n_marks hh = 0" using nm by (simp add: count_ok_def)
  moreover have "object_bit (hb_sz hh) 0" if "hb_sz hh > MAXOBJBYTES" using that by (simp add: object_bit_def FINAL_MARK_BIT_def gc_consts)
  ultimately show "dead_hdr hh" using nm by (auto simp: dead_hdr_def)
qed

lemma has_kept_used: "has_kept K st b \<Longrightarrow> \<exists>hh. used_at st b = Some hh"
  by (auto simp: has_kept_def)

lemma start_reclaim_exact:
  fixes st :: "'a gc_alloc_scheme"
  assumes ok: "heap_ok st" "kept_ok K (GC_mem st) st" "all_marks K st" "counts_ok st" "kinds_ok st" and l: "lists_ok K FL st"
  shows "\<exists>st' RL. GC_start_reclaim False st = Some st' \<and> sweep_inv K (GC_mem st) (\<lambda>_. []) RL st'
    \<and> (\<forall>b. block_info st' b = (if has_kept K st b then block_info st b else None))"
proof -
  have t: "tiled st" "sizes_ok st" using ok(1) heap_invD(1) by (auto simp: heap_ok_def)
  have "(if \<exists>hh. used_at st b = Some hh \<and> dead_hdr hh then None else block_info st b) = (if has_kept K st b then block_info st b else None)" for b
    using dead_hdr_iff [OF t ok(3,4), of b] has_kept_used [of K st b] by (cases "used_at st b") (auto simp: block_info_def)
  then show ?thesis using start_reclaim_run [OF ok l] by simp
qed

end
