(* ===== verification/Sweep_Ok.thy ===== *)
theory Sweep_Ok
  imports Sweep_Start
begin

text \<open>
  What sweeping guarantees, with a sample heap of one block on which the theorems are applied.
\<close>

section \<open>Properties\<close>

text \<open>
  C7. Sweeping one block is exact. \<open>GC_reclaim_small_nonempty_block\<close> puts all objects of the block without a mark, and no others, on the free list of
  their kind and size, in front of what was there; it changes no word outside of these objects, no
  other free list and no other header, it clears all but the links of the objects if their kind asks for it, and it adds their bytes to \<open>GC_bytes_found\<close>.
\<close>

theorem sweep_block_exact:
  fixes st :: "'a gc_alloc_scheme"
  assumes "tiled st" "used_at st b = Some hh" "hb_sz hh = 8 * g" "0 < g" "g \<le> MAXOBJGRANULES" "hb_obj_kind hh = k"
    and "obj_list (GC_mem st) (ok_freelist st k g) xs" "\<forall>x \<in> set xs. HBLKPTR x \<noteq> b"
  defines "st' \<equiv> GC_reclaim_small_nonempty_block b False st" and "U \<equiv> filter (\<lambda>j. \<not> mark_bit_from_hdr hh (g * j)) [0 ..< HBLK_OBJS (8 * g)]"
  shows "obj_list (GC_mem st') (ok_freelist st' k g) (rev (map (obj_addr b (8 * g)) U) @ xs)
    \<and> (\<forall>w. (\<forall>j \<in> set U. w \<notin> obj_words (obj_addr b (8 * g) j) (8 * g)) \<longrightarrow> GC_mem st' w = GC_mem st w)
    \<and> (ok_init (GC_obj_kinds st k) \<longrightarrow> (\<forall>j \<in> set U. \<forall>w \<in> obj_words (obj_addr b (8 * g) j) (8 * g). w \<noteq> obj_addr b (8 * g) j div 4 \<longrightarrow> GC_mem st' w = 0))
    \<and> (\<forall>k' g'. (k', g') \<noteq> (k, g) \<longrightarrow> ok_freelist st' k' g' = ok_freelist st k' g')
    \<and> (\<forall>c. c \<noteq> b \<longrightarrow> HDR st' c = HDR st c)
    \<and> GC_bytes_found st' = wadd (GC_bytes_found st) (8 * g * length U)"
proof -
  have U: "U = unmarked_from hh (8 * g) 0" by (simp add: U_def unmarked_from_def)
  note s = sweep_small [OF assms(1-8), folded st'_def U]
  show ?thesis using s(1-6) by auto
qed

text \<open>
  C3. The start of a sweep frees exactly what is garbage. If the marks of the heap say which objects are to be kept and no free object is among these, then
  \<open>GC_start_reclaim\<close> returns, a block keeps its kind and size if it has an object to keep and is free otherwise,
  every object that is to be kept has its old contents, all free lists are empty, and the blocks on the reclaim lists have marks on precisely the objects to be kept.
\<close>

theorem GC_start_reclaim_correct:
  fixes st :: "'a gc_alloc_scheme"
  assumes "heap_ok st" "kept_ok K (GC_mem st) st" "all_marks K st" "counts_ok st" "kinds_ok st" "lists_ok K FL st"
  shows "\<exists>st' RL. GC_start_reclaim False st = Some st' \<and> sweep_inv K (GC_mem st) (\<lambda>_. []) RL st'
    \<and> (\<forall>b. block_info st' b = (if has_kept K st b then block_info st b else None))"
  by (rule start_reclaim_exact [OF assms])

text \<open>
  C6. Lazy sweeping is safe. \<open>GC_continue_reclaim\<close> returns: it sweeps blocks off the reclaim list of the size until
  the free list is not empty or no block is left, and keeps the invariant of sweeping. So no object that is to be kept gets on a free list
  or is changed.
\<close>

theorem GC_continue_reclaim_correct:
  assumes "sweep_inv K M FL RL st" "k < GC_n_kinds st" "g \<le> MAXOBJGRANULES"
  shows "\<exists>st' ys bs. GC_continue_reclaim g k st = Some st' \<and> sweep_inv K M (FL((k, g) := ys @ FL (k, g))) (RL((k, g) := bs)) st'
    \<and> (ok_freelist st' k g \<noteq> 0 \<or> reclaim_head st' k g = 0)"
proof -
  obtain st' ys bs where r: "GC_continue_reclaim g k st = Some st'" "sweep_inv K M (FL((k, g) := ys @ FL (k, g))) (RL((k, g) := bs)) st'"
      "GC_n_kinds st' = GC_n_kinds st" "ys @ FL (k, g) \<noteq> [] \<or> bs = []"
    using continue_reclaim_run [OF assms] by (elim exE conjE) (rule that)
  have c: "k < GC_n_kinds st'" using r(3) assms(2) by simp
  have "ok_freelist st' k g \<noteq> 0 \<or> reclaim_head st' k g = 0"
    using r(4) free_head_iff [OF sweep_invD(5) [OF r(2) c assms(3)]] reclaim_head_iff [OF sweep_invD(6) [OF r(2) c assms(3)]] by auto
  then show ?thesis using r(1,2) by blast
qed

text \<open>
  C39. \<open>GC_reclaim_all\<close> returns whatever the stop function answers, and keeps the invariant of sweeping. If it is not asked to
  stop it reports success, and after success no block is left on a reclaim list.
\<close>

theorem GC_reclaim_all_correct:
  assumes "sweep_inv K M FL RL st"
  shows "\<exists>finished i st' FL' RL'. GC_reclaim_all stop ignore_old st = Some (finished, i, st') \<and> sweep_inv K M FL' RL' st'
    \<and> (finished \<longrightarrow> (\<forall>k g. k < GC_n_kinds st \<and> 0 < g \<and> g \<le> MAXOBJGRANULES \<longrightarrow> reclaim_head st' k g = 0))
    \<and> ((\<forall>i. \<not> stop i) \<longrightarrow> finished)"
proof -
  obtain finished i st' FL' RL' where r: "GC_reclaim_all stop ignore_old st = Some (finished, i, st')" "sweep_inv K M FL' RL' st'" "GC_n_kinds st' = GC_n_kinds st"
      "finished \<longrightarrow> (\<forall>k g. k < GC_n_kinds st \<and> 0 < g \<and> g \<le> MAXOBJGRANULES \<longrightarrow> RL' (k, g) = [])" "(\<forall>k. \<not> stop k) \<longrightarrow> finished"
    using reclaim_all_run [OF assms, of stop ignore_old] by (elim exE conjE) (rule that)
  have "reclaim_head st' k g = 0" if "finished" "k < GC_n_kinds st \<and> 0 < g \<and> g \<le> MAXOBJGRANULES" for k g
    using r(4) that reclaim_head_iff [OF sweep_invD(6) [OF r(2)], of k g] r(3) by simp
  then show ?thesis using r(1,2,5) by (intro exI [of _ finished] exI [of _ i] exI [of _ st'] exI [of _ FL'] exI [of _ RL'] conjI) blast+
qed

section \<open>A sample heap\<close>

text \<open>One block of 16-byte objects, of which only the second one is marked.\<close>

definition one_block :: "hdr \<Rightarrow> 'a \<Rightarrow> 'a gc_marker_scheme" where
  "one_block hh x = (sample_marker x)\<lparr> GC_top_index := [0 \<mapsto> (\<lambda>_. Fwd 0)(5 := Hdr hh)] \<rparr>"

definition marked_hdr :: hdr where
  "marked_hdr = sample_obj_hdr\<lparr> hb_n_marks := 1, hb_marks := set_bit_entry 2 (set_bit_entry 512 zero_words) \<rparr>"

definition sample_alloc :: "(nat \<Rightarrow> hblk) \<Rightarrow> gc_alloc" where
  "sample_alloc r = one_block marked_hdr (gc_alloc.fields (\<lambda>_ _. 0) (\<lambda>_. Some r) 1 0 0 0 [] False)"

lemma HDR_one_block: "HDR (one_block hh x) b = (if b = 5 then Hdr hh else Fwd 0)"
  by (cases "b div BOTTOM_SZ = 0") (auto simp: GC_find_header_def one_block_def sample_marker_def BOTTOM_SZ_def)

lemma one_block_ok:
  fixes hh :: hdr and x :: 'a
  assumes "\<not> HBLK_IS_FREE hh" "hb_sz hh = 16"
  defines "st \<equiv> one_block hh x"
  shows "tiled st" "heap_inv (\<lambda>_. []) st" "coalesced st" "sizes_ok st" "used_at st b = (if b = 5 then Some hh else None)"
proof -
  have bl: "blocks_of hh = 1" using assms(1,2) by (simp add: blocks_of_def OBJ_SZ_TO_BLOCKS_def divHBLKSZ_def HBLKSIZE_def)
  have f: "\<not> free_at st h" for h using assms(1) by (simp add: free_at_def st_def HDR_one_block)
  have "index_wf st" by (simp add: st_def one_block_def index_wf_def sample_marker_def)
  moreover have "layout_ok st" using bl by (auto simp: layout_ok_def st_def HDR_one_block)
  moreover have "free_sizes_ok st" using assms(1) by (auto simp: free_sizes_ok_def st_def HDR_one_block split: if_splits)
  ultimately show t: "tiled st" using f bl by (auto simp: tiled_def st_def HDR_one_block is_Hdr_def split: if_splits)
  have "free_cells st = {}" using assms(1) by (auto simp: free_cells_def st_def HDR_one_block split: if_splits)
  moreover have "fl_ok (\<lambda>_. []) {} st" using f by (simp add: fl_ok_def st_def one_block_def sample_marker_def)
  ultimately show "heap_inv (\<lambda>_. []) st" using t by (simp add: heap_inv_def) (simp add: st_def one_block_def sample_marker_def)
  show "coalesced st" using f by (simp add: coalesced_def adjacent_def)
  show u: "used_at st b = (if b = 5 then Some hh else None)" for b using assms(1) by (simp add: used_at_def st_def HDR_one_block)
  show "sizes_ok st" using assms(2) bl by (simp add: sizes_ok_def u gc_consts)
qed

lemma marked_hdr_fields:
  "hb_sz marked_hdr = 16" "\<not> HBLK_IS_FREE marked_hdr" "hb_obj_kind marked_hdr = 0" "hb_n_marks marked_hdr = 1" "hb_next marked_hdr = 0"
  "mark_bit_from_hdr marked_hdr n \<longleftrightarrow> n = 2 \<or> n = 512"
  by (auto simp: marked_hdr_def sample_obj_hdr_def zero_hdr_def HBLK_IS_FREE_def mark_bit_from_hdr_def)

lemma objs_16: "HBLK_OBJS 16 = 256" "FINAL_MARK_BIT 16 = 512" "MAXOBJBYTES = 2048" "MAXOBJGRANULES = 256"
  by (simp_all add: HBLK_OBJS_def FINAL_MARK_BIT_def gc_consts BYTES_TO_GRANULES_def)

lemma sample_alloc_ok:
  shows "tiled (sample_alloc r)" "heap_ok (sample_alloc r)" "used_at (sample_alloc r) b = (if b = 5 then Some marked_hdr else None)"
    "block_info (sample_alloc r) b = (if b = 5 then Some (0, 16) else None)"
proof -
  note o = one_block_ok [OF marked_hdr_fields(2,1), where x = "gc_alloc.fields (\<lambda>_ _. 0) (\<lambda>_. Some r) 1 0 0 0 [] False"]
  show "tiled (sample_alloc r)" unfolding sample_alloc_def by (rule o(1))
  show "heap_ok (sample_alloc r)" unfolding sample_alloc_def heap_ok_def using o(2-4) by blast
  show u: "used_at (sample_alloc r) b = (if b = 5 then Some marked_hdr else None)" for b unfolding sample_alloc_def by (rule o(5))
  show "block_info (sample_alloc r) b = (if b = 5 then Some (0, 16) else None)" by (simp add: block_info_def u marked_hdr_fields)
qed

lemma sample_alloc_fields:
  "ok_freelist (sample_alloc r) = (\<lambda>_ _. 0)" "ok_reclaim_list (sample_alloc r) = (\<lambda>_. Some r)" "GC_n_kinds (sample_alloc r) = 1" "GC_bytes_found (sample_alloc r) = 0"
  by (simp_all add: sample_alloc_def one_block_def sample_marker_def gc_alloc.defs)

lemma sample_obj: "obj_start 16 5 p \<and> (p, 16 :: nat) = (20496, 16) \<longleftrightarrow> p = 20496"
  by (auto simp: obj_start_def objs_16 obj_addr_def hblk_addr_def HBLKSIZE_def intro: exI [of _ 1])

lemma sample_kept:
  shows "kept_ok {(20496, 16)} (GC_mem (sample_alloc r)) (sample_alloc r)" "all_marks {(20496, 16)} (sample_alloc r)" "counts_ok (sample_alloc r)" "kinds_ok (sample_alloc r)"
    "lists_ok {(20496, 16)} (\<lambda>_. []) (sample_alloc r)"
proof -
  note u = sample_alloc_ok(3,4) [of r]
  show "kept_ok {(20496, 16)} (GC_mem (sample_alloc r)) (sample_alloc r)" using sample_obj [of 20496] by (auto simp: kept_ok_def is_obj_def u marked_hdr_fields)
  have "mark_bit_from_hdr marked_hdr ((p - hblk_addr 5) div 8) \<longleftrightarrow> p = 20496" if "obj_start 16 5 p" for p
    using that by (auto simp: marked_hdr_fields obj_start_def objs_16 obj_addr_def hblk_addr_def HBLKSIZE_def)
  then show "all_marks {(20496, 16)} (sample_alloc r)" by (auto simp: all_marks_def u marked_hdr_fields split: if_splits)
  have "{n. object_bit 16 n \<and> (n = 2 \<or> n = 512)} = {2}" by (auto simp: object_bit_def objs_16 BYTES_TO_GRANULES_def GRANULE_BYTES_def)
  then have "count_ok marked_hdr" by (simp add: count_ok_def marked_hdr_fields)
  then show "counts_ok (sample_alloc r)" by (simp add: counts_ok_used u)
  show "kinds_ok (sample_alloc r)" by (auto simp: kinds_ok_def u sample_alloc_fields split: if_splits)
  show "lists_ok {(20496, 16)} (\<lambda>_. []) (sample_alloc r)" by (simp add: lists_ok_def free_list_ok_def sample_alloc_fields)
qed

lemma sample_sweep_inv: "sweep_inv {(20496, 16)} (GC_mem (sample_alloc ((\<lambda>_. 0)(2 := 5)))) (\<lambda>_. []) ((\<lambda>_. [])((0, 2) := [5])) (sample_alloc ((\<lambda>_. 0)(2 := 5)))"
proof -
  let ?st = "sample_alloc ((\<lambda>_. 0)(2 := 5))"
  have h: "hdr_at ?st 5 = marked_hdr" using sample_alloc_ok(3) [of "(\<lambda>_. 0)(2 := 5)" 5] by (simp add: used_at_Some hdr_at_def)
  have "mark_bit_from_hdr marked_hdr (2 * j) \<longleftrightarrow> (obj_addr 5 16 j, 16 :: nat) \<in> {(20496, 16)}" if "j < 256" for j
    using that by (auto simp: marked_hdr_fields obj_addr_def hblk_addr_def HBLKSIZE_def)
  then have "reclaim_list_ok {(20496, 16)} ?st 0 2 [] [5]"
    by (simp add: reclaim_list_ok_def reclaim_head_def sample_alloc_fields h marked_hdr_fields small_block_def sample_alloc_ok objs_16)
  moreover have "reclaim_list_ok {(20496, 16)} ?st 0 g [] []" if "g \<noteq> 2" for g
    using that by (simp add: reclaim_list_ok_def reclaim_head_def sample_alloc_fields)
  ultimately show ?thesis
    using sample_alloc_ok(2) sample_kept(1) by (auto simp: sweep_inv_def sample_alloc_fields free_list_ok_def)
qed

section \<open>The properties on the sample\<close>

theorem sweep_block_exact_witness:
  "obj_list (GC_mem (GC_reclaim_small_nonempty_block 5 False (sample_alloc (\<lambda>_. 0)))) (ok_freelist (GC_reclaim_small_nonempty_block 5 False (sample_alloc (\<lambda>_. 0))) 0 2)
     (rev (map (obj_addr 5 16) (filter (\<lambda>j. j \<noteq> 1) [0 ..< 256])))"
proof -
  have "filter (\<lambda>j. \<not> mark_bit_from_hdr marked_hdr (2 * j)) [0 ..< HBLK_OBJS 16] = filter (\<lambda>j. j \<noteq> 1) [0 ..< 256]"
    unfolding objs_16 by (rule filter_cong) (auto simp: marked_hdr_fields)
  moreover have "used_at (sample_alloc (\<lambda>_. 0)) 5 = Some marked_hdr" "hb_sz marked_hdr = 8 * 2" "hb_obj_kind marked_hdr = 0" "2 \<le> MAXOBJGRANULES"
      "obj_list (GC_mem (sample_alloc (\<lambda>_. 0))) (ok_freelist (sample_alloc (\<lambda>_. 0)) 0 2) []"
    by (simp_all add: sample_alloc_ok marked_hdr_fields objs_16 sample_alloc_fields)
  ultimately show ?thesis using sweep_block_exact [OF sample_alloc_ok(1), of "\<lambda>_. 0" 5 marked_hdr 2 0 "[]"] by (simp del: upt_rec_numeral)
qed

theorem GC_start_reclaim_correct_witness:
  "\<exists>st'. GC_start_reclaim False (sample_alloc (\<lambda>_. 0)) = Some st' \<and> block_info st' 5 = Some (0, 16) \<and> is_obj st' (20496, 16)"
proof -
  obtain st' RL where r: "GC_start_reclaim False (sample_alloc (\<lambda>_. 0)) = Some st'" "sweep_inv {(20496, 16)} (GC_mem (sample_alloc (\<lambda>_. 0))) (\<lambda>_. []) RL st'"
      "\<forall>b. block_info st' b = (if has_kept {(20496, 16)} (sample_alloc (\<lambda>_. 0)) b then block_info (sample_alloc (\<lambda>_. 0)) b else None)"
    using GC_start_reclaim_correct [OF sample_alloc_ok(2) sample_kept, of "\<lambda>_. 0"] by (elim exE conjE) (rule that)
  have "has_kept {(20496, 16)} (sample_alloc (\<lambda>_. 0)) 5" using sample_obj [of 20496] by (simp add: has_kept_def sample_alloc_ok marked_hdr_fields)
  then have "block_info st' 5 = Some (0, 16)" using r(3) sample_alloc_ok(4) by simp
  moreover have "is_obj st' (20496, 16)" using sweep_invD(2) [OF r(2)] by (simp add: kept_ok_def)
  ultimately show ?thesis using r(1) by blast
qed

theorem GC_continue_reclaim_correct_witness:
  "\<exists>st'. GC_continue_reclaim 2 0 (sample_alloc ((\<lambda>_. 0)(2 := 5))) = Some st' \<and> (ok_freelist st' 0 2 \<noteq> 0 \<or> reclaim_head st' 0 2 = 0)"
proof -
  have "0 < GC_n_kinds (sample_alloc ((\<lambda>_. 0)(2 := 5)))" "2 \<le> MAXOBJGRANULES" by (simp_all add: sample_alloc_fields objs_16)
  then show ?thesis using GC_continue_reclaim_correct [OF sample_sweep_inv] by blast
qed

theorem GC_reclaim_all_correct_witness:
  "\<exists>i st'. GC_reclaim_all (\<lambda>_. False) False (sample_alloc ((\<lambda>_. 0)(2 := 5))) = Some (True, i, st') \<and> reclaim_head st' 0 2 = 0"
proof -
  obtain finished i st' FL' RL' where r: "GC_reclaim_all (\<lambda>_. False) False (sample_alloc ((\<lambda>_. 0)(2 := 5))) = Some (finished, i, st')"
      "finished \<longrightarrow> (\<forall>k g. k < GC_n_kinds (sample_alloc ((\<lambda>_. 0)(2 := 5))) \<and> 0 < g \<and> g \<le> MAXOBJGRANULES \<longrightarrow> reclaim_head st' k g = 0)" "(\<forall>i :: nat. \<not> False) \<longrightarrow> finished"
    using GC_reclaim_all_correct [OF sample_sweep_inv, of "\<lambda>_. False" False] by (elim exE conjE) (rule that)
  then show ?thesis using sample_alloc_fields(3) by (simp add: objs_16)
qed

end
