(* ===== verification/Collection.thy ===== *)
theory Collection
  imports Sweep_Ok Mark_Complete
begin

text \<open>
  Collections (\<^verbatim>\<open>bdwgc/alloc.c\<close>): when one is due, and the whole of a stop-the-world collection, from the promotion
  of the black lists over marking to the start of the sweep. Incremental collection, timing, statistics and the call back at the start are left out. \<open>None\<close> is
  \<open>ABORT\<close>, a loop that does not end, or an incremental collection in progress. Finalization is a parameter.
\<close>

section \<open>When to collect\<close>

record gc_control = gc_alloc +
  GC_is_full_gc :: bool
  GC_need_full_gc :: bool
  GC_n_attempts :: nat
  GC_deficit :: nat
  GC_bytes_allocd :: nat
  GC_bytes_allocd_before_gc :: nat
  GC_bytes_freed :: nat
  GC_bytes_finalized :: nat
  GC_non_gc_bytes :: nat
  GC_non_gc_bytes_at_gc :: nat
  GC_used_heap_size_after_full :: nat
  GC_free_space_divisor :: nat
  GC_collect_at_heapsize :: nat
  GC_heap_sects :: "heap_sect list"
  last_min_bytes_allocd :: nat
  last_gc_no :: nat

text \<open>
  The address \<open>dummy\<close> is that of a variable on the stack, which grows down. The divisor is not 0.
\<close>

definition min_bytes_allocd :: "addr \<Rightarrow> root_env \<Rightarrow> 'a gc_control_scheme \<Rightarrow> nat" where
  "min_bytes_allocd dummy env st =
     (let stack_size = wsub (GC_stackbottom env) dummy;
          total_root_size = word32 (2 * stack_size + GC_root_size (re_roots env));
          scan_size = word32 (2 * GC_composite_in_use st + GC_atomic_in_use st div 4 + total_root_size) in
      if GC_incremental st then scan_size div word32 (2 * GC_free_space_divisor st)
      else scan_size div GC_free_space_divisor st)"

text \<open>A word as a signed one, and back.\<close>

definition signed_word :: "nat \<Rightarrow> int" where
  "signed_word n = signed_take_bit 31 (int n)"

definition unsigned_word :: "int \<Rightarrow> nat" where
  "unsigned_word k = nat (k mod 2 ^ 32)"

text \<open>Signed sums wrap around here; in the source their overflow is undefined.\<close>

definition GC_adj_bytes_allocd :: "'a gc_control_scheme \<Rightarrow> nat" where
  "GC_adj_bytes_allocd st =
     (let allocd = signed_word (GC_bytes_allocd st);
          expl_managed = signed_take_bit 31 (signed_word (GC_non_gc_bytes st) - signed_word (GC_non_gc_bytes_at_gc st));
          result0 = signed_take_bit 31 (allocd + signed_word (GC_bytes_dropped st) - signed_word (GC_bytes_freed st)
                      + signed_word (GC_finalizer_bytes_freed st) - expl_managed);
          result1 = (if result0 > allocd then allocd else result0);
          result = signed_take_bit 31 (result1 + int (GC_bytes_finalized st)) in
      if result < signed_word (GC_bytes_allocd st div 8) then GC_bytes_allocd st div 8
      else unsigned_word result)"

definition GC_should_collect :: "addr \<Rightarrow> root_env \<Rightarrow> 'a gc_control_scheme \<Rightarrow> bool \<times> 'a gc_control_scheme" where
  "GC_should_collect dummy env st =
     (let st1 = (if last_gc_no st \<noteq> GC_gc_no st
                 then st\<lparr> last_gc_no := GC_gc_no st, last_min_bytes_allocd := min_bytes_allocd dummy env st \<rparr> else st) in
      (GC_adj_bytes_allocd st1 \<ge> last_min_bytes_allocd st1 \<or> GC_heapsize st1 \<ge> GC_collect_at_heapsize st1, st1))"

section \<open>Marks of free objects\<close>

partial_function (option) GC_set_fl_marks :: "addr \<Rightarrow> 'a gc_heap_scheme \<Rightarrow> 'a gc_heap_scheme option" where
  "GC_set_fl_marks q st = (if q = 0 then Some st else GC_set_fl_marks (obj_link (GC_mem st) q) (GC_set_mark_bit q st))"

partial_function (option) GC_clear_fl_marks :: "addr \<Rightarrow> 'a gc_alloc_scheme \<Rightarrow> 'a gc_alloc_scheme option" where
  "GC_clear_fl_marks q st =
     (if q = 0 then Some st
      else GC_clear_fl_marks (obj_link (GC_mem st) q)
             ((GC_clear_mark_bit q st)\<lparr> GC_bytes_found := wsub (GC_bytes_found st) (hb_sz (hdr_at st (HBLKPTR q))) \<rparr>))"

text \<open>The loops over the free lists of all kinds and sizes.\<close>

definition for_free_list ::
    "(addr \<Rightarrow> 'a gc_alloc_scheme \<Rightarrow> 'a gc_alloc_scheme option) \<Rightarrow> nat \<times> nat \<Rightarrow> 'a gc_alloc_scheme \<Rightarrow> 'a gc_alloc_scheme option" where
  "for_free_list f c st = (let q = ok_freelist st (fst c) (snd c) in if q \<noteq> 0 then f q st else Some st)"

definition for_free_lists ::
    "(addr \<Rightarrow> 'a gc_alloc_scheme \<Rightarrow> 'a gc_alloc_scheme option) \<Rightarrow> 'a gc_alloc_scheme \<Rightarrow> 'a gc_alloc_scheme option" where
  "for_free_lists f st =
     each (for_free_list f) [(kind, gran). kind \<leftarrow> [0 ..< GC_n_kinds st], gran \<leftarrow> [1 ..< MAXOBJGRANULES + 1]] st"

section \<open>The end of a collection\<close>

definition reset_counters :: "addr \<Rightarrow> root_env \<Rightarrow> 'a gc_control_scheme \<Rightarrow> 'a gc_control_scheme" where
  "reset_counters dummy env st =
     (let st1 = (if GC_is_full_gc st then st\<lparr> GC_used_heap_size_after_full := USED_HEAP_SIZE st, GC_need_full_gc := False \<rparr>
                 else st\<lparr> GC_need_full_gc := (wsub (USED_HEAP_SIZE st) (GC_used_heap_size_after_full st) > min_bytes_allocd dummy env st) \<rparr>) in
      st1\<lparr> GC_n_attempts := 0, GC_is_full_gc := False,
           GC_bytes_allocd_before_gc := wadd (GC_bytes_allocd_before_gc st1) (GC_bytes_allocd st1),
           GC_non_gc_bytes_at_gc := GC_non_gc_bytes st1,
           GC_bytes_allocd := 0, GC_bytes_dropped := 0, GC_bytes_freed := 0, GC_finalizer_bytes_freed := 0 \<rparr>)"

definition GC_finish_collection ::
    "('a gc_control_scheme \<Rightarrow> 'a gc_control_scheme option) \<Rightarrow> addr \<Rightarrow> root_env \<Rightarrow> 'a gc_control_scheme \<Rightarrow> 'a gc_control_scheme option" where
  "GC_finish_collection finalize dummy env st =
     (let st1 = st\<lparr> GC_bytes_found := 0 \<rparr> in
      Option.bind (if GC_find_leak st1 then Option.bind (for_free_lists GC_set_fl_marks st1) (GC_start_reclaim True) else Some st1) (\<lambda>st2.
      Option.bind (finalize st2) (\<lambda>st3.
      Option.bind (for_free_lists GC_clear_fl_marks st3) (\<lambda>st4.
      map_option (reset_counters dummy env) (GC_start_reclaim False st4)))))"

section \<open>A collection\<close>

text \<open>
  The stop function, \<open>None\<close> for \<open>GC_never_stop_func\<close>: the answer of its \<open>i\<close>th call.
\<close>

definition stop_answer :: "(nat \<Rightarrow> bool) option \<Rightarrow> nat \<Rightarrow> bool" where
  "stop_answer stop i = (case stop of None \<Rightarrow> False | Some f \<Rightarrow> f i)"

type_synonym 'a control_procs =
  "nat \<Rightarrow> addr \<Rightarrow> nat \<Rightarrow> nat \<Rightarrow> mse list \<Rightarrow> 'a gc_control_scheme \<Rightarrow> mse list \<times> 'a gc_control_scheme"

definition GC_try_to_collect_inner ::
    "'a control_procs \<Rightarrow> ('a gc_control_scheme \<Rightarrow> 'a gc_control_scheme) \<Rightarrow> ('a gc_control_scheme \<Rightarrow> 'a gc_control_scheme option)
      \<Rightarrow> addr \<Rightarrow> root_env \<Rightarrow> (nat \<Rightarrow> bool) option \<Rightarrow> 'a gc_control_scheme \<Rightarrow> (bool \<times> 'a gc_control_scheme) option" where
  "GC_try_to_collect_inner procs recycle finalize dummy env stop st =
     (if GC_dont_gc st \<or> stop_answer stop 0 then Some (False, st)
      else if GC_incremental st \<and> GC_collection_in_progress st then None
      else
        (let st1 = st\<lparr> GC_black_lists := GC_promote_black_lists (GC_heap_sects st) (GC_heapsize st) (GC_black_lists st) \<rparr> in
         Option.bind
           (if GC_find_leak st1 \<or> \<not> Option.is_none stop then GC_reclaim_all (\<lambda>i. stop_answer stop (1 + i)) False st1
            else Some (True, 0, st1)) (\<lambda>(swept, i, st2).
         if \<not> swept then Some (False, st2)
         else
           Option.bind (GC_clear_marks (GC_invalidate_mark_state st2)) (\<lambda>st3.
           Option.bind (GC_stopped_mark procs recycle env (\<lambda>k. stop_answer stop (1 + i + k)) (st3\<lparr> GC_is_full_gc := True \<rparr>)) (\<lambda>(finished, k, st4).
           if finished then map_option (Pair True) (GC_finish_collection finalize dummy env st4)
           else
             (let st5 = st4\<lparr> GC_deficit := k \<rparr> in
              Some (False, if GC_incremental st5 then st5
                           else (GC_invalidate_mark_state st5)\<lparr> GC_black_lists := GC_unpromote_black_lists (GC_black_lists st5) \<rparr>)))))))"

section \<open>Unmarking free objects\<close>

text \<open>The mark bit of the object at \<open>p\<close>.\<close>

definition obj_at :: "addr \<Rightarrow> obj" where
  "obj_at p = (HBLKPTR p, MARK_BIT_NO (p - hblk_addr (HBLKPTR p)))"

lemma count_ok_clear:
  assumes "count_ok hh" "object_bit (hb_sz hh) n" "mark_bit_from_hdr hh n"
  shows "count_ok ((clear_mark_bit_from_hdr hh n)\<lparr> hb_n_marks := wsub (hb_n_marks hh) 1 \<rparr>)"
proof -
  let ?hh = "(clear_mark_bit_from_hdr hh n)\<lparr> hb_n_marks := wsub (hb_n_marks hh) 1 \<rparr>"
  let ?M = "\<lambda>hh. {k. object_bit (hb_sz hh) k \<and> mark_bit_from_hdr hh k}"
  have n: "n \<in> ?M hh" using assms(2,3) by simp
  have "?M ?hh = ?M hh - {n}" by (auto simp: clear_mark_bit_from_hdr_def mark_bit_from_hdr_def)
  then have "card (?M ?hh) = hb_n_marks hh - 1" using n assms(1) by (simp add: count_ok_def)
  moreover have "0 < hb_n_marks hh" using assms(1) n by (auto simp: count_ok_def card_gt_0_iff)
  moreover have "hb_n_marks hh < 2 ^ 32" using assms(1) card_object_bits [of "hb_sz hh" "mark_bit_from_hdr hh"] by (simp add: count_ok_def)
  moreover have "wsub (hb_n_marks hh) 1 = hb_n_marks hh - 1" using calculation by (intro wsub_id) simp_all
  ultimately show ?thesis by (simp add: count_ok_def)
qed

lemma clear_mark_ok:
  assumes wf: "index_wf st" and c: "counts_ok st" and h: "HDR st (HBLKPTR p) = Hdr hh" "\<not> HBLK_IS_FREE hh" "object_bit (hb_sz hh) (snd (obj_at p))"
  defines "st' \<equiv> GC_clear_mark_bit p st"
  shows "index_wf st'" "counts_ok st'" "strip (HDR st' b) = strip (HDR st b)" "marked st' = marked st - {obj_at p}"
proof -
  let ?n = "MARK_BIT_NO (p - hblk_addr (HBLKPTR p))"
  let ?hh = "if mark_bit_from_hdr hh ?n then (clear_mark_bit_from_hdr hh ?n)\<lparr> hb_n_marks := wsub (hb_n_marks hh) 1 \<rparr> else hh"
  have H: "HDR st' b = (if b = HBLKPTR p then Hdr ?hh else HDR st b)" for b
    using h(1) wf by (simp add: st'_def GC_clear_mark_bit_def Let_def HDR_upd_hdr)
  show "index_wf st'" using wf by (simp add: st'_def GC_clear_mark_bit_def Let_def)
  have hh: "hb_sz ?hh = hb_sz hh" "HBLK_IS_FREE ?hh = HBLK_IS_FREE hh" by (simp_all add: clear_mark_bit_from_hdr_def HBLK_IS_FREE_def)
  have "count_ok hh" using c h by (auto simp: counts_ok_def)
  then have "count_ok ?hh" using count_ok_clear h(3) by (simp add: obj_at_def)
  then show "counts_ok st'" using c by (auto simp: counts_ok_def H split: if_splits)
  show "strip (HDR st' b) = strip (HDR st b)" using h(1,2) by (simp add: H clear_mark_bit_from_hdr_def)
  show "marked st' = marked st - {obj_at p}"
    using h(1) by (auto simp: marked_def H obj_at_def clear_mark_bit_from_hdr_def mark_bit_from_hdr_def split: if_splits)
qed

lemma strip_eqD:
  assumes "strip e' = strip e"
  shows "e = Hdr hh \<Longrightarrow> \<exists>hh'. e' = Hdr hh' \<and> hb_sz hh' = hb_sz hh \<and> hb_obj_kind hh' = hb_obj_kind hh \<and> HBLK_IS_FREE hh' = HBLK_IS_FREE hh \<and> (HBLK_IS_FREE hh \<longrightarrow> hh' = hh)"
    "e = Fwd k \<Longrightarrow> e' = Fwd k" "tile e' = tile e"
proof -
  have f: "hb_sz hh' = hb_sz hh \<and> hb_obj_kind hh' = hb_obj_kind hh" if "hh'\<lparr> hb_marks := m, hb_n_marks := n \<rparr> = hh\<lparr> hb_marks := m, hb_n_marks := n \<rparr>" for hh hh' :: hdr and m n
    using that by (cases hh; cases hh') simp
  have F: "HBLK_IS_FREE hh' = HBLK_IS_FREE hh" if "strip (Hdr hh') = strip (Hdr hh)" for hh hh'
  proof -
    have "is_used (strip e) = is_used e" for e by (cases e) (simp_all add: is_used_def)
    then have "is_used (Hdr hh') = is_used (Hdr hh)" using that by metis
    then show ?thesis by (simp add: is_used_def)
  qed
  show "e = Fwd k \<Longrightarrow> e' = Fwd k" using assms by (cases e') simp_all
  have H: "\<exists>hh'. e' = Hdr hh' \<and> hb_sz hh' = hb_sz hh \<and> hb_obj_kind hh' = hb_obj_kind hh \<and> HBLK_IS_FREE hh' = HBLK_IS_FREE hh \<and> (HBLK_IS_FREE hh \<longrightarrow> hh' = hh)"
    if "e = Hdr hh" for hh
  proof (cases e')
    case (Hdr hh')
    have "HBLK_IS_FREE hh' = HBLK_IS_FREE hh" by (rule F) (use assms that Hdr in simp)
    then show ?thesis using assms that Hdr f [where hh' = hh' and hh = hh and m = zero_words and n = 0] by (cases "HBLK_IS_FREE hh") simp_all
  qed (use assms that in simp)
  then show "e = Hdr hh \<Longrightarrow> \<exists>hh'. e' = Hdr hh' \<and> hb_sz hh' = hb_sz hh \<and> hb_obj_kind hh' = hb_obj_kind hh \<and> HBLK_IS_FREE hh' = HBLK_IS_FREE hh \<and> (HBLK_IS_FREE hh \<longrightarrow> hh' = hh)" .
  show "tile e' = tile e"
  proof (cases e)
    case (Hdr hh)
    then show ?thesis using H [OF Hdr] by auto
  qed (use assms in \<open>cases e'; simp\<close>)
qed

text \<open>An object of a block in use starts at \<open>x\<close>.\<close>

definition good_obj :: "'a hdr_index_scheme \<Rightarrow> addr \<Rightarrow> bool" where
  "good_obj st x \<longleftrightarrow> (\<exists>hh. HDR st (HBLKPTR x) = Hdr hh \<and> \<not> HBLK_IS_FREE hh \<and> object_bit (hb_sz hh) (snd (obj_at x)))"

lemma good_obj_strip:
  assumes "\<And>b. strip (HDR st' b) = strip (HDR st b)" "good_obj st x"
  shows "good_obj st' x"
  using assms(2) strip_eqD(1) [OF assms(1) [of "HBLKPTR x"]] by (fastforce simp: good_obj_def)

text \<open>The other state differs in that the objects at the addresses \<open>X\<close> have no marks.\<close>

definition unmarked_by :: "'a gc_alloc_scheme \<Rightarrow> addr set \<Rightarrow> 'a gc_alloc_scheme \<Rightarrow> bool" where
  "unmarked_by st X st' \<longleftrightarrow> index_wf st' \<and> counts_ok st' \<and> (\<forall>b. strip (HDR st' b) = strip (HDR st b)) \<and> marked st' = marked st - obj_at ` X
     \<and> GC_mem st' = GC_mem st \<and> ok_freelist st' = ok_freelist st \<and> rest st' = rest st"

lemma unmarked_by_trans: "unmarked_by a X b \<Longrightarrow> unmarked_by b Y c \<Longrightarrow> unmarked_by a (X \<union> Y) c"
  by (auto simp: unmarked_by_def)

lemma unmarked_by_good: "unmarked_by st X st' \<Longrightarrow> good_obj st x \<Longrightarrow> good_obj st' x"
  using good_obj_strip [of st' st x] by (simp add: unmarked_by_def)

lemma clear_fl_marks_run:
  fixes st :: "'a gc_alloc_scheme"
  assumes "obj_list (GC_mem st) q xs" "index_wf st" "counts_ok st" "\<forall>x \<in> set xs. good_obj st x"
  shows "\<exists>st'. GC_clear_fl_marks q st = Some st' \<and> unmarked_by st (set xs) st'"
  using assms
proof (induction xs arbitrary: q st)
  case Nil
  then have "GC_clear_fl_marks q st = Some st" by (subst GC_clear_fl_marks.simps) simp
  then show ?case using Nil.prems by (simp add: unmarked_by_def)
next
  case (Cons x xs)
  have q: "q = x" "x \<noteq> 0" "obj_list (GC_mem st) (obj_link (GC_mem st) x) xs" using Cons.prems(1) by simp_all
  obtain hh where hh: "HDR st (HBLKPTR x) = Hdr hh" "\<not> HBLK_IS_FREE hh" "object_bit (hb_sz hh) (snd (obj_at x))"
    using Cons.prems(4) by (auto simp: good_obj_def)
  let ?c = "GC_clear_mark_bit x st"
  let ?s = "?c\<lparr> GC_bytes_found := wsub (GC_bytes_found st) (hb_sz (hdr_at st (HBLKPTR x))) \<rparr>"
  note c = clear_mark_ok [OF Cons.prems(2,3) hh]
  have H: "HDR ?s = HDR ?c" by simp
  have "GC_mem ?c = GC_mem st" "ok_freelist ?c = ok_freelist st" "rest ?c = rest st" by (simp_all add: GC_clear_mark_bit_def Let_def)
  moreover have "marked ?s = marked ?c" "counts_ok ?s = counts_ok ?c" by (simp_all add: marked_def counts_ok_def)
  ultimately have u: "unmarked_by st {x} ?s" using c by (simp add: unmarked_by_def)
  have "obj_list (GC_mem ?s) (obj_link (GC_mem st) x) xs" "index_wf ?s" "counts_ok ?s" using q(3) u by (simp_all add: unmarked_by_def)
  moreover have "\<forall>y \<in> set xs. good_obj ?s y" using Cons.prems(4) unmarked_by_good [OF u] by simp
  ultimately obtain st' where st': "GC_clear_fl_marks (obj_link (GC_mem st) x) ?s = Some st'" "unmarked_by ?s (set xs) st'" using Cons.IH by blast
  have "GC_clear_fl_marks q st = Some st'" using q(1,2) st'(1) by (subst GC_clear_fl_marks.simps) simp
  then show ?case using unmarked_by_trans [OF u st'(2)] by simp
qed

lemma for_free_lists_run:
  fixes st :: "'a gc_alloc_scheme"
  assumes "\<forall>c \<in> set cs. obj_list (GC_mem st) (ok_freelist st (fst c) (snd c)) (FL c) \<and> (\<forall>x \<in> set (FL c). good_obj st x)" "index_wf st" "counts_ok st"
  shows "\<exists>st'. each (for_free_list GC_clear_fl_marks) cs st = Some st' \<and> unmarked_by st (\<Union>c \<in> set cs. set (FL c)) st'"
  using assms
proof (induction cs arbitrary: st)
  case Nil
  then show ?case by (simp add: unmarked_by_def)
next
  case (Cons c cs)
  have q: "obj_list (GC_mem st) (ok_freelist st (fst c) (snd c)) (FL c)" "\<forall>x \<in> set (FL c). good_obj st x" using Cons.prems(1) by auto
  have "\<exists>s. for_free_list GC_clear_fl_marks c st = Some s \<and> unmarked_by st (set (FL c)) s"
  proof (cases "ok_freelist st (fst c) (snd c) = 0")
    case True
    then have "FL c = []" using q(1) by (simp add: obj_list_0)
    then show ?thesis using True Cons.prems(2,3) by (simp add: for_free_list_def unmarked_by_def)
  next
    case False
    then show ?thesis using clear_fl_marks_run [OF q(1) Cons.prems(2,3) q(2)] by (simp add: for_free_list_def)
  qed
  then obtain s where s: "for_free_list GC_clear_fl_marks c st = Some s" "unmarked_by st (set (FL c)) s" by blast
  have e: "GC_mem s = GC_mem st" "ok_freelist s = ok_freelist st" "index_wf s" "counts_ok s" using s(2) by (simp_all add: unmarked_by_def)
  have "\<forall>c \<in> set cs. obj_list (GC_mem s) (ok_freelist s (fst c) (snd c)) (FL c) \<and> (\<forall>x \<in> set (FL c). good_obj s x)"
    using Cons.prems(1) unmarked_by_good [OF s(2)] by (simp add: e)
  then obtain st' where "each (for_free_list GC_clear_fl_marks) cs s = Some st'" "unmarked_by s (\<Union>c \<in> set cs. set (FL c)) st'"
    using Cons.IH e(3,4) by blast
  then show ?case using s(1) unmarked_by_trans [OF s(2)] by auto
qed

section \<open>The objects that survive\<close>

text \<open>The objects that a set of mark bits stands for, as addresses and sizes.\<close>

definition live_objs :: "'a hdr_index_scheme \<Rightarrow> obj set \<Rightarrow> (addr \<times> nat) set" where
  "live_objs st S = {(hblk_addr b + 8 * n, sz) |b n k sz. (b, n) \<in> S \<and> block_info st b = Some (k, sz) \<and> object_bit sz n}"

lemma sizes_info:
  assumes "sizes_ok st" "block_info st b = Some (k, sz)"
  shows "0 < sz" "sz \<le> MAXOBJBYTES \<longrightarrow> 8 dvd sz"
  using assms by (auto simp: sizes_ok_def elim!: block_info_used)

lemma same_obj_block:
  assumes "0 < sz" "sz \<le> MAXOBJBYTES \<longrightarrow> 8 dvd sz" "object_bit sz n" "object_bit sz n'" "hblk_addr b + 8 * n = hblk_addr b' + 8 * n'"
  shows "b = b'" "n = n'"
proof -
  have "b = b'"
  proof (cases "sz > MAXOBJBYTES")
    case True
    then show ?thesis using assms(3-5) by (simp add: object_bit_def hblk_addr_def HBLKSIZE_def)
  next
    case False
    have "HBLKPTR (hblk_addr c + 8 * m) = c" if "object_bit sz m" for c m
    proof -
      have "obj_start sz c (hblk_addr c + 8 * m)" using that object_bit_start [OF assms(1,2)] by blast
      then obtain j where "j < HBLK_OBJS sz" "hblk_addr c + 8 * m = obj_addr c sz j" using False by (auto simp: obj_start_def)
      then show ?thesis using HBLKPTR_obj [OF assms(1), of j c] by simp
    qed
    then show ?thesis using assms(3-5) by metis
  qed
  then show "b = b'" "n = n'" using assms(5) by simp_all
qed

lemma live_objs_mem:
  assumes "sizes_ok st" "block_info st b = Some (k, sz)" "object_bit sz n"
  shows "(hblk_addr b + 8 * n, sz) \<in> live_objs st S \<longleftrightarrow> (b, n) \<in> S"
proof
  assume "(hblk_addr b + 8 * n, sz) \<in> live_objs st S"
  then obtain b' n' where e: "hblk_addr b + 8 * n = hblk_addr b' + 8 * n'" "(b', n') \<in> S" "object_bit sz n'" by (auto simp: live_objs_def)
  then show "(b, n) \<in> S" using same_obj_block [OF sizes_info [OF assms(1,2)] assms(3) e(3,1)] by simp
qed (use assms in \<open>auto simp: live_objs_def\<close>)

lemma live_objs_kept: "sizes_ok st \<Longrightarrow> kept_ok (live_objs st S) (GC_mem st) st"
  unfolding kept_ok_def live_objs_def is_obj_info using sizes_info object_bit_start by fastforce

lemma live_objs_marks:
  assumes "sizes_ok st"
  shows "all_marks (live_objs st (marked st)) st"
  unfolding all_marks_def
proof (intro allI impI)
  fix b hh p assume a: "used_at st b = Some hh \<and> obj_start (hb_sz hh) b p"
  then have i: "block_info st b = Some (hb_obj_kind hh, hb_sz hh)" by (simp add: block_info_def)
  obtain n where n: "object_bit (hb_sz hh) n" "p = hblk_addr b + 8 * n" using a object_bit_start [OF sizes_info [OF assms i]] by blast
  have "mark_bit_from_hdr hh n \<longleftrightarrow> (b, n) \<in> marked st" using a by (auto simp: marked_def used_at_Some)
  then show "mark_bit_from_hdr hh ((p - hblk_addr b) div 8) \<longleftrightarrow> (p, hb_sz hh) \<in> live_objs st (marked st)"
    using live_objs_mem [OF assms i n(1), of "marked st"] n(2) by simp
qed

lemma has_kept_info: "has_kept K st b \<longleftrightarrow> (\<exists>k sz p. block_info st b = Some (k, sz) \<and> obj_start sz b p \<and> (p, sz) \<in> K)"
  by (force simp: has_kept_def block_info_def)

text \<open>The free objects of a heap.\<close>

definition free_objs :: "'a gc_alloc_scheme \<Rightarrow> (nat \<times> nat \<Rightarrow> addr list) \<Rightarrow> addr set" where
  "free_objs st FL = (\<Union>k < GC_n_kinds st. \<Union>g \<in> {1 .. MAXOBJGRANULES}. set (FL (k, g)))"

lemma free_list_bit:
  assumes "free_list_ok K st k g xs" "x \<in> set xs"
  obtains b j where "x = hblk_addr b + 8 * (g * j)" "object_bit (8 * g) (g * j)" "block_info st b = Some (k, 8 * g)" "obj_at x = (b, g * j)" "good_obj st x"
proof -
  obtain b j where b: "x = obj_addr b (8 * g) j" "j < HBLK_OBJS (8 * g)" "small_block st k g b" "HBLKPTR x = b" by (rule free_list_obj [OF assms])
  have g: "0 < g" "g \<le> MAXOBJGRANULES" "block_info st b = Some (k, 8 * g)" using b(3) by (simp_all add: small_block_def)
  have x: "x = hblk_addr b + 8 * (g * j)" using b(1) by (simp add: obj_addr_def)
  have "g * j < g * HBLK_OBJS (8 * g)" using b(2) g(1) by simp
  then have ob: "object_bit (8 * g) (g * j)" using g by (simp add: object_bit_def FINAL_MARK_BIT_def BYTES_TO_GRANULES_def GRANULE_BYTES_def gc_consts)
  have at: "obj_at x = (b, g * j)" using b(4) x by (simp add: obj_at_def MARK_BIT_NO_def BYTES_TO_GRANULES_def GRANULE_BYTES_def)
  obtain hh where "used_at st b = Some hh" "hb_sz hh = 8 * g" by (rule block_info_used [OF g(3)])
  then have "good_obj st x" using ob at b(4) by (simp add: good_obj_def used_at_Some)
  then show thesis by (rule that [OF x ob g(3) at])
qed

lemma free_list_not_live:
  assumes "free_list_ok {} st k g (FL (k, g))" "k < GC_n_kinds st" "g \<le> MAXOBJGRANULES" "sizes_ok st"
  shows "free_list_ok (live_objs st (S - obj_at ` free_objs st FL)) st k g (FL (k, g))"
proof -
  have "(x, 8 * g) \<notin> live_objs st (S - obj_at ` free_objs st FL)" if x: "x \<in> set (FL (k, g))" for x
  proof -
    obtain b j where b: "x = hblk_addr b + 8 * (g * j)" "object_bit (8 * g) (g * j)" "block_info st b = Some (k, 8 * g)" "obj_at x = (b, g * j)" "good_obj st x"
      by (rule free_list_bit [OF assms(1) x])
    have "0 < g" using sizes_info(1) [OF assms(4) b(3)] by simp
    then have "x \<in> free_objs st FL" using x assms(2,3) unfolding free_objs_def by (intro UN_I [of k] UN_I [of g]) simp_all
    then have "(b, g * j) \<notin> S - obj_at ` free_objs st FL" using b(4) by force
    then show ?thesis using live_objs_mem [OF assms(4) b(3,2)] b(1) by simp
  qed
  then show ?thesis using assms(1) by (auto simp: free_list_ok_def)
qed

section \<open>The end of a collection keeps what is marked\<close>

lemma unmarked_info:
  assumes "\<And>b. strip (HDR st' b) = strip (HDR st b)"
  shows "block_info st' = block_info st" "same_tiles st st'"
proof -
  show "block_info st' = block_info st"
  proof (rule ext)
    fix b show "block_info st' b = block_info st b"
      using strip_eqD(1,2) [OF assms [of b]] by (cases "HDR st b") (auto simp: block_info_def used_at_def)
  qed
  show "same_tiles st st'" using strip_eqD(3) [OF assms] by (simp add: same_tiles_def)
qed

text \<open>What \<open>GC_start_reclaim\<close> asks for, once the free objects are unmarked.\<close>

lemma unmarked_ready:
  fixes st u :: "'a gc_alloc_scheme"
  assumes ok: "heap_ok st" "kinds_ok st" "lists_ok {} FL st" and u: "unmarked_by st (free_objs st FL) u"
  defines "K \<equiv> live_objs st (marked st - obj_at ` free_objs st FL)"
  shows "heap_ok u" "kept_ok K (GC_mem u) u" "all_marks K u" "counts_ok u" "kinds_ok u" "lists_ok K FL u" "has_kept K u = has_kept K st" "block_info u = block_info st"
    "GC_mem u = GC_mem st"
proof -
  have e: "index_wf u" "counts_ok u" "\<And>b. strip (HDR u b) = strip (HDR st b)" "marked u = marked st - obj_at ` free_objs st FL"
      "GC_mem u = GC_mem st" "ok_freelist u = ok_freelist st" "rest u = rest st"
    using u by (simp_all add: unmarked_by_def)
  note r = rest_eqD [OF e(7)] and i = unmarked_info [OF e(3)]
  note ic = info_cong [OF i(1)]
  have sz: "sizes_ok st" using ok(1) by (simp add: heap_ok_def)
  have K: "K = live_objs u (marked u)" by (simp add: K_def live_objs_def i(1) e(4))
  show "heap_ok u" by (rule heap_ok_cong [OF i(2) e(1) i(1) ok(1) r(3-5)])
  show "kept_ok K (GC_mem u) u" "all_marks K u" unfolding K using sz ic(3) by (simp_all add: live_objs_kept live_objs_marks)
  show "counts_ok u" "block_info u = block_info st" "GC_mem u = GC_mem st" by fact+
  show "kinds_ok u" using ok(2) by (simp add: kinds_ok_def i(1) r(1,2))
  show "has_kept K u = has_kept K st" by (rule ext) (simp add: has_kept_info i(1))
  have "free_list_ok K u k g xs = free_list_ok K st k g xs" for k g xs by (simp add: free_list_ok_def e(5,6) ic(2))
  moreover have "free_list_ok K st k g (FL (k, g))" if "k < GC_n_kinds st" "g \<le> MAXOBJGRANULES" for k g
    unfolding K_def by (rule free_list_not_live) (use ok(3) that sz in \<open>simp_all add: lists_ok_def\<close>)
  ultimately show "lists_ok K FL u" using ok(3) by (simp add: lists_ok_def r(1,2))
qed

lemma reset_view: "sweep_view (reset_counters dummy env st) = sweep_view st"
proof -
  have "HDR (reset_counters dummy env st) = HDR st" by (rule HDR_cong) (simp_all add: reset_counters_def Let_def)
  then show ?thesis by (simp add: sweep_view_def reset_counters_def Let_def index_wf_def)
qed

text \<open>What \<open>GC_finalize\<close> does if no object and no link is registered.\<close>

definition nothing_to_finalize :: "('a gc_control_scheme \<Rightarrow> 'a gc_control_scheme option) \<Rightarrow> bool" where
  "nothing_to_finalize finalize \<longleftrightarrow> (\<forall>st. finalize st = Some (st\<lparr> GC_bytes_finalized := 0 \<rparr>))"

lemma free_classes:
  "(\<Union>c \<in> set [(kind, gran). kind \<leftarrow> [0 ..< GC_n_kinds st], gran \<leftarrow> [1 ..< MAXOBJGRANULES + 1]]. set (FL c)) = free_objs st FL"
  by (simp add: free_objs_def atLeast0LessThan atLeastLessThanSuc_atLeastAtMost del: upt_Suc)

lemma finish_collection_run:
  fixes st :: "'a gc_control_scheme"
  assumes ok: "heap_ok st" "kinds_ok st" "lists_ok {} FL st" "counts_ok st" and l: "\<not> GC_find_leak st" and fin: "nothing_to_finalize finalize"
  defines "K \<equiv> live_objs st (marked st - obj_at ` free_objs st FL)"
  shows "\<exists>st' RL. GC_finish_collection finalize dummy env st = Some st' \<and> sweep_inv K (GC_mem st) (\<lambda>_. []) RL st'
    \<and> (\<forall>b. block_info st' b = (if has_kept K st b then block_info st b else None))"
proof -
  let ?st = "st\<lparr> GC_bytes_found := 0, GC_bytes_finalized := 0 \<rparr>"
  let ?cs = "[(kind, gran). kind \<leftarrow> [0 ..< GC_n_kinds ?st], gran \<leftarrow> [1 ..< MAXOBJGRANULES + 1]]"
  have H: "HDR ?st = HDR st" by (rule HDR_cong) simp_all
  have t: "tiled st" "sizes_ok st" using ok(1) heap_invD(1) by (auto simp: heap_ok_def)
  have fo: "free_list_ok {} st k g (FL (k, g))" if "k < GC_n_kinds st" "g \<le> MAXOBJGRANULES" for k g using ok(3) that by (simp add: lists_ok_def)
  have "good_obj st x" if "x \<in> set (FL (k, g))" "k < GC_n_kinds st" "g \<le> MAXOBJGRANULES" for x k g
    using free_list_bit [OF fo [OF that(2,3)] that(1)] by blast
  then have "\<forall>c \<in> set ?cs. obj_list (GC_mem ?st) (ok_freelist ?st (fst c) (snd c)) (FL c) \<and> (\<forall>x \<in> set (FL c). good_obj ?st x)"
    using fo by (auto simp: free_list_ok_def good_obj_def H simp del: upt_Suc)
  moreover have "index_wf ?st" "counts_ok ?st" using tiledD(1) [OF t(1)] ok(4) by (simp_all add: counts_ok_def H index_wf_def)
  ultimately obtain u where u: "for_free_lists GC_clear_fl_marks ?st = Some u" "unmarked_by ?st (free_objs st FL) u"
    using for_free_lists_run [of ?cs ?st FL] unfolding free_classes for_free_lists_def by (auto simp: free_objs_def)
  note h = hdr_cong [OF H]
  have ok': "heap_ok ?st" by (rule heap_ok_cong [OF h(4) _ h(3) ok(1)]) (use \<open>index_wf ?st\<close> in simp_all)
  have "kinds_ok ?st" "lists_ok {} FL ?st" using ok(2,3) by (simp_all add: kinds_ok_def lists_ok_def free_list_ok_def h(3,6))
  moreover have f: "free_objs ?st FL = free_objs st FL" by (simp add: free_objs_def)
  moreover have "live_objs ?st (marked ?st - obj_at ` free_objs ?st FL) = K" unfolding K_def live_objs_def marked_def f H h(3) ..
  ultimately have r: "heap_ok u" "kept_ok K (GC_mem u) u" "all_marks K u" "counts_ok u" "kinds_ok u" "lists_ok K FL u" "has_kept K u = has_kept K ?st" "block_info u = block_info ?st"
      "GC_mem u = GC_mem ?st"
    using unmarked_ready [OF ok', of FL u] u(2) by simp_all
  obtain st1 RL where s: "GC_start_reclaim False u = Some st1" "sweep_inv K (GC_mem u) (\<lambda>_. []) RL st1"
      "\<forall>b. block_info st1 b = (if has_kept K u b then block_info u b else None)"
    using start_reclaim_exact [OF r(1-6)] by blast
  let ?st' = "reset_counters dummy env st1"
  have "GC_finish_collection finalize dummy env st = Some ?st'"
    using l fin u(1) s(1) by (simp add: GC_finish_collection_def nothing_to_finalize_def)
  moreover have "sweep_inv K (GC_mem st) (\<lambda>_. []) RL ?st'" using sweep_inv_view [OF reset_view s(2)] r(9) by simp
  moreover have "block_info ?st' = block_info st1" by (rule hdr_cong(3)) (rule view_used(1) [OF reset_view])
  moreover have "has_kept K ?st = has_kept K st" unfolding fun_eq_iff has_kept_info h(3) by simp
  ultimately show ?thesis using s(3) r(7,8) h(3) by auto
qed

section \<open>A whole collection\<close>

text \<open>The flag of a full collection means nothing to marking.\<close>

lemma forward_to_start_HDR:
  fixes st st' :: "'a hdr_index_scheme"
  assumes "HDR st' = HDR st"
  shows "forward_to_start st' c k = forward_to_start st c k"
proof -
  have *: "forward_to_start s' c k = Some r" if "forward_to_start s c k = Some r" "HDR s' = HDR s" for s s' :: "'a hdr_index_scheme" and r
    by (rule forward_to_start.raw_induct [of "\<lambda>s c k r. HDR s' = HDR s \<longrightarrow> forward_to_start s' c k = Some r", OF _ that(1), rule_format, OF _ that(2)])
      (subst forward_to_start.simps, auto split: hdr_entry.splits)
  show ?thesis using * [of st _ st'] * [of st' _ st] assms by (cases "forward_to_start st c k"; cases "forward_to_start st' c k") auto
qed

lemma HDR_full [simp]: "HDR (st\<lparr> GC_is_full_gc := full \<rparr>) = HDR st"
  by (rule HDR_cong) simp_all

lemma pointers_full:
  fixes st :: "'a gc_control_scheme"
  defines "st' \<equiv> st\<lparr> GC_is_full_gc := True \<rparr>"
  shows "pointee st' = pointee st" "stack_pointee st' = stack_pointee st" "contents st' = contents st"
proof -
  have H: "HDR st' = HDR st" by (simp add: st'_def)
  have f: "forward_to_start st' c k = forward_to_start st c k" for c k by (rule forward_to_start_HDR [OF H])
  have e: "GC_obj_map st' = GC_obj_map st" "GC_valid_offsets st' = GC_valid_offsets st" "GC_mem st' = GC_mem st" "GC_all_interior_pointers st' = GC_all_interior_pointers st"
      "GC_least_plausible_heap_addr st' = GC_least_plausible_heap_addr st" "GC_greatest_plausible_heap_addr st' = GC_greatest_plausible_heap_addr st"
    by (simp_all add: st'_def)
  have "object_start c st' hh v = object_start c st hh v" for c hh v unfolding object_start_def e ..
  note o = this
  have m: "GC_header_cache_miss i st' v = GC_header_cache_miss i st v" for i v unfolding GC_header_cache_miss_def H f ..
  have b: "GC_base st' v = GC_base st v" for v unfolding GC_base_def H f ..
  show "pointee st' = pointee st" unfolding fun_eq_iff pointee_def target_def plausible_def mem_word_def e o m H by simp
  show "stack_pointee st' = stack_pointee st" unfolding fun_eq_iff stack_pointee_def stack_target_def stack_base_def plausible_def mem_word_def e o b H by simp
  show "contents st' = contents st" unfolding fun_eq_iff contents_def entry_of_def hdr_at_def H by simp
qed

lemma reachable_cong:
  fixes st st' :: "'a gc_marker_scheme"
  assumes "pointee st' = pointee st" "contents st' = contents st"
  shows "reachable st' W = reachable st W"
proof -
  have "ob \<in> reachable s W \<Longrightarrow> pointee s = pointee s' \<Longrightarrow> contents s = contents s' \<Longrightarrow> ob \<in> reachable s' W" for ob and s s' :: "'a gc_marker_scheme"
    by (induction rule: reachable.induct) (auto intro: reachable.intros)
  then show ?thesis using assms by (intro equalityI subsetI) metis+
qed

lemma to_mark_full: "to_mark (st\<lparr> GC_is_full_gc := True \<rparr>) env U = to_mark st env U"
  unfolding to_mark_def root_objs_def freelist_objs_def stack_objs_def root_words_def stack_words_pushed_def stack_words_eager_def pointers_full HDR_full
    reachable_cong [OF pointers_full(1,3)] by simp

lemma collection_ok_full: "collection_ok (st\<lparr> GC_is_full_gc := True \<rparr>) env = collection_ok st env"
  by (simp add: collection_ok_def marker_ok_def index_wf_def layout_ok_def maps_ok_def bl_ok_def counts_ok_def object_hdr_def phase_heap_def free_sizes_ok_def
      uniform_pointers_def env_ok_def freelist_ok_def)

lemma objects_full: "objects (st\<lparr> GC_is_full_gc := True \<rparr>) = objects st" "pinned (st\<lparr> GC_is_full_gc := True \<rparr>) = pinned st"
  by (simp_all add: pinned_def objects_def marked_def hdr_at_def)

lemma fold_clear_full:
  "fold clear_marks_for_block bs (st\<lparr> GC_is_full_gc := True \<rparr>) = (fold clear_marks_for_block bs st)\<lparr> GC_is_full_gc := True \<rparr>"
proof (induction bs arbitrary: st)
  case (Cons b bs)
  have "clear_marks_for_block b (st\<lparr> GC_is_full_gc := True \<rparr>) = (clear_marks_for_block b st)\<lparr> GC_is_full_gc := True \<rparr>"
    by (simp add: clear_marks_for_block_def upd_hdr_def SET_HDR_def split: hdr_entry.split option.split)
  then show ?case using Cons.IH by simp
qed simp

lemma clear_all_full: "clear_all (st\<lparr> GC_is_full_gc := True \<rparr>) = (clear_all st)\<lparr> GC_is_full_gc := True \<rparr>"
proof -
  have "used_blocks (st\<lparr> GC_is_full_gc := True \<rparr>) = used_blocks st" by (simp add: used_blocks_def used_in_index_def)
  then show ?thesis by (simp add: clear_all_def fold_clear_full)
qed

text \<open>The lists of the allocator are left alone by marking.\<close>

lemma heap_rest_fields:
  fixes st st' :: "'a gc_control_scheme"
  assumes "heap_rest st' = heap_rest st"
  shows "GC_hblkfreelist st' = GC_hblkfreelist st" "GC_free_bytes st' = GC_free_bytes st" "GC_large_free_bytes st' = GC_large_free_bytes st" "GC_find_leak st' = GC_find_leak st"
    "ok_freelist st' = ok_freelist st" "ok_reclaim_list st' = ok_reclaim_list st" "GC_n_kinds st' = GC_n_kinds st"
proof -
  show "GC_hblkfreelist st' = GC_hblkfreelist st" "GC_free_bytes st' = GC_free_bytes st" "GC_large_free_bytes st' = GC_large_free_bytes st" "GC_find_leak st' = GC_find_leak st"
    using assms by (simp_all add: heap_rest_def)
  have "gc_marker.more st' = gc_marker.more st" using assms by (simp add: heap_rest_def)
  then show "ok_freelist st' = ok_freelist st" "ok_reclaim_list st' = ok_reclaim_list st" "GC_n_kinds st' = GC_n_kinds st"
    by (cases st; cases st'; simp)+
qed

lemma same_objs_heap:
  fixes st st' :: "'a gc_control_scheme"
  assumes s: "same_objs st st'" and wf: "index_wf st'" and ok: "heap_ok st" "kinds_ok st" "lists_ok {} FL st"
  shows "heap_ok st'" "kinds_ok st'" "lists_ok {} FL st'" "block_info st' = block_info st" "free_objs st' FL = free_objs st FL" "GC_mem st' = GC_mem st"
    "GC_find_leak st' = GC_find_leak st"
proof -
  have e: "\<And>b. strip (HDR st' b) = strip (HDR st b)" "GC_mem st' = GC_mem st" "heap_rest st' = heap_rest st" using s by (simp_all add: same_objs_def)
  note f = heap_rest_fields [OF e(3)] and i = unmarked_info [OF e(1)]
  note ic = info_cong [OF i(1)]
  show "heap_ok st'" by (rule heap_ok_cong [OF i(2) wf i(1) ok(1) f(1-3)])
  show "kinds_ok st'" using ok(2) by (simp add: kinds_ok_def i(1) f)
  show "lists_ok {} FL st'" using ok(3) by (simp add: lists_ok_def free_list_ok_def f e(2) ic(2))
  show "block_info st' = block_info st" "free_objs st' FL = free_objs st FL" "GC_mem st' = GC_mem st" "GC_find_leak st' = GC_find_leak st"
    using i(1) e(2) f by (simp_all add: free_objs_def)
qed

lemma live_objs_objects:
  assumes "S \<inter> objects st = T \<inter> objects st"
  shows "live_objs st (S - F) = live_objs st (T - F)"
proof -
  have "(b, n) \<in> objects st" if "block_info st b = Some (k, sz)" "object_bit sz n" for b n k sz
    using that by (auto simp: objects_def is_used_iff elim!: block_info_used)
  then show ?thesis using assms unfolding live_objs_def by blast
qed

lemma promoted:
  fixes st :: "'a gc_control_scheme" and sects :: "heap_sect list" and n :: nat
  defines "st' \<equiv> st\<lparr> GC_black_lists := GC_promote_black_lists sects n (GC_black_lists st) \<rparr>"
  assumes "collection_ok st env"
  shows "collection_ok st' env" "same_objs st st'" "pinned st' = pinned st" "objects st' = objects st" "index_wf st' = index_wf st"
proof -
  have H: "HDR st' = HDR st" by (simp add: st'_def)
  show s: "same_objs st st'" by (simp add: st'_def same_objs_def)
  have k: "marker_ok st" "phase_heap st" "env_ok st env" using assms(2) by (simp_all add: collection_ok_def)
  note m = marker_okD [OF k(1)]
  have "bl_ok st'" using m(4) by (auto simp: bl_ok_def st'_def GC_promote_black_lists_def Let_def)
  moreover have "same_shape st st'" by (simp add: st'_def)
  ultimately have "marker_ok st'"
    using marker_ok_shape [OF k(1), of st'] m(1,7) marked_cong [OF H] counts_ok_cong [OF H] by (simp add: st'_def)
  moreover have "phase_heap st'" by (rule phase_heap_objs [OF s _ _ k(2)]) (simp_all add: st'_def)
  ultimately show "collection_ok st' env" using assms(2) roots_objs(3) [OF s m(2) k(3)] unfolding collection_ok_def H by blast
  show "pinned st' = pinned st" "objects st' = objects st" by (simp_all add: pinned_def objects_def marked_def hdr_at_def H)
  show "index_wf st' = index_wf st" by (simp add: st'_def)
qed

lemma collect_run:
  fixes st :: "'a gc_control_scheme"
  assumes c: "collection_ok st env" and ok: "heap_ok st" "kinds_ok st" "lists_ok {} FL st"
    and go: "\<not> GC_dont_gc st" "\<not> GC_incremental st" "\<not> GC_find_leak st" and fin: "nothing_to_finalize finalize"
  defines "K \<equiv> live_objs st (to_mark st env (pinned st) - obj_at ` free_objs st FL)"
  shows "\<exists>st' RL. GC_try_to_collect_inner procs recycle finalize dummy env None st = Some (True, st') \<and> sweep_inv K (GC_mem st) (\<lambda>_. []) RL st'
    \<and> (\<forall>b. block_info st' b = (if has_kept K st b then block_info st b else None))"
proof -
  define st1 where "st1 = st\<lparr> GC_black_lists := GC_promote_black_lists (GC_heap_sects st) (GC_heapsize st) (GC_black_lists st) \<rparr>"
  define st2 where "st2 = st1\<lparr> GC_is_full_gc := True \<rparr>"
  note p = promoted [OF c, of "GC_heap_sects st" "GC_heapsize st", folded st1_def]
  have c2: "collection_ok st2 env" using p(1) by (simp add: st2_def collection_ok_full)
  have "marker_ok st" "marker_ok st1" using c p(1) by (simp_all add: collection_ok_def)
  then have lay: "layout_ok st" "index_wf st1" "layout_ok st1" by (simp_all add: marker_okD)
  obtain finished i st4 where fm: "collect_mark procs recycle env (\<lambda>_. False) st2 = Some (finished, i, st4)" "marker_ok st4" "same_objs st2 st4"
      "finished \<longrightarrow> GC_mark_state st4 = MS_NONE \<and> GC_mark_stack st4 = [] \<and> marked st4 \<inter> objects st2 = to_mark st2 env (pinned st2) \<inter> objects st2"
      "(\<forall>k :: nat. \<not> False) \<longrightarrow> finished"
    using collection_marks_run [OF c2, of procs recycle "\<lambda>_. False"] by (elim exE conjE) (rule that)
  then have m: "collect_mark procs recycle env (\<lambda>_. False) st2 = Some (True, i, st4)" "marker_ok st4" "same_objs st2 st4"
      "marked st4 \<inter> objects st2 = to_mark st2 env (pinned st2) \<inter> objects st2"
    by simp_all
  let ?i = "GC_invalidate_mark_state st1"
  have i: "index_wf ?i" "layout_ok ?i" using lay by (simp_all add: GC_invalidate_mark_state_def layout_ok_def)
  have "GC_invalidate_mark_state st2 = ?i\<lparr> GC_is_full_gc := True \<rparr>" by (simp add: st2_def GC_invalidate_mark_state_def)
  then have "GC_clear_marks (GC_invalidate_mark_state st2) = Some ((clear_all ?i)\<lparr> GC_is_full_gc := True \<rparr>)"
    using GC_clear_marks_all [of "?i\<lparr> GC_is_full_gc := True \<rparr>"] i by (simp add: clear_all_full index_wf_def layout_ok_def)
  then have m': "GC_stopped_mark procs recycle env (\<lambda>_. False) ((clear_all ?i)\<lparr> GC_is_full_gc := True \<rparr>) = Some (True, i, st4)"
    using m(1) by (simp add: collect_mark_def)
  have h2: "HDR st2 = HDR st" by (simp add: st2_def st1_def)
  note H = hdr_cong [OF h2]
  have e2: "GC_hblkfreelist st2 = GC_hblkfreelist st" "GC_free_bytes st2 = GC_free_bytes st" "GC_large_free_bytes st2 = GC_large_free_bytes st" "GC_mem st2 = GC_mem st"
      "ok_freelist st2 = ok_freelist st" "ok_reclaim_list st2 = ok_reclaim_list st" "GC_n_kinds st2 = GC_n_kinds st" "GC_find_leak st2 = GC_find_leak st" "index_wf st2"
    using lay(2) by (simp_all add: st2_def st1_def index_wf_def)
  have ok2: "heap_ok st2" by (rule heap_ok_cong [OF H(4) e2(9) H(3) ok(1) e2(1-3)])
  have "kinds_ok st2" "lists_ok {} FL st2"
    using ok(2,3) unfolding kinds_ok_def lists_ok_def free_list_ok_def H(3,6) e2 by blast+
  note ok2 = ok2 this
  note s = same_objs_heap [OF m(3) marker_okD(1) [OF m(2)] ok2]
  have K: "live_objs st4 (marked st4 - obj_at ` free_objs st4 FL) = K"
  proof -
    have "to_mark st2 env (pinned st2) = to_mark st env (pinned st)"
      using to_mark_objs [OF p(2) lay(1)] by (simp add: st2_def to_mark_full objects_full p(3))
    then have "marked st4 \<inter> objects st = to_mark st env (pinned st) \<inter> objects st" using m(4) by (simp add: st2_def objects_full p(4))
    then have "live_objs st (marked st4 - obj_at ` free_objs st FL) = K" unfolding K_def by (rule live_objs_objects)
    moreover have "block_info st4 = block_info st" "free_objs st4 FL = free_objs st FL" using s(4,5) H(3) e2(7) by (simp_all add: free_objs_def)
    ultimately show ?thesis by (simp add: live_objs_def)
  qed
  have leak: "\<not> GC_find_leak st4" "GC_mem st4 = GC_mem st" "block_info st4 = block_info st" using go(3) s(4,6,7) H(3) e2(4,8) by simp_all
  obtain st' RL where f: "GC_finish_collection finalize dummy env st4 = Some st'" "sweep_inv K (GC_mem st4) (\<lambda>_. []) RL st'"
      "\<forall>b. block_info st' b = (if has_kept K st4 b then block_info st4 b else None)"
    using finish_collection_run [OF s(1-3) marker_okD(7) [OF m(2)] leak(1) fin, of dummy env] unfolding K by blast
  have "has_kept K st4 = has_kept K st" by (simp add: fun_eq_iff has_kept_info leak(3))
  moreover have "GC_try_to_collect_inner procs recycle finalize dummy env None st = Some (True, st')"
    using go f(1) m' GC_clear_marks_all [OF i] by (simp add: GC_try_to_collect_inner_def stop_answer_def Let_def st1_def [symmetric])
      (simp add: st1_def)
  ultimately show ?thesis using f(2,3) leak(2,3) by auto
qed

section \<open>Properties\<close>


text \<open>
  C40. While the counters are small enough for signed arithmetic, \<open>GC_adj_bytes_allocd\<close> is at least an eighth of the bytes
  allocated since the last collection, and at most these bytes and the bytes of finalized objects, whatever was freed or is managed
  explicitly.
\<close>

theorem adj_bytes_allocd_bounds:
  assumes "\<forall>n \<in> {GC_bytes_allocd st, GC_bytes_dropped st, GC_bytes_freed st, GC_finalizer_bytes_freed st, GC_non_gc_bytes st, GC_non_gc_bytes_at_gc st, GC_bytes_finalized st}. n < 2 ^ 28"
  shows "GC_bytes_allocd st div 8 \<le> GC_adj_bytes_allocd st \<and> GC_adj_bytes_allocd st \<le> GC_bytes_allocd st + GC_bytes_finalized st"
proof -
  have id: "signed_take_bit 31 k = k" if "- (2 ^ 31) \<le> k" "k < 2 ^ 31" for k :: int using that by (rule signed_take_bit_int_eq_self)
  have w: "signed_word n = int n" if "n < 2 ^ 31" for n unfolding signed_word_def by (rule id) (use that in simp_all)
  let ?a = "int (GC_bytes_allocd st)"
  define e where "e = int (GC_non_gc_bytes st) - int (GC_non_gc_bytes_at_gc st)"
  define r where "r = ?a + int (GC_bytes_dropped st) - int (GC_bytes_freed st) + int (GC_finalizer_bytes_freed st) - e"
  define r1 where "r1 = (if r > ?a then ?a else r)"
  have b: "- (2 ^ 31) \<le> e" "e < 2 ^ 31" "- (2 ^ 31) \<le> r" "r < 2 ^ 31" "r1 \<le> ?a" "- (2 ^ 31) \<le> r1 + int (GC_bytes_finalized st)" "r1 + int (GC_bytes_finalized st) < 2 ^ 31"
    using assms by (auto simp: e_def r_def r1_def)
  have s: "signed_word (GC_bytes_allocd st) = ?a" "signed_word (GC_bytes_dropped st) = int (GC_bytes_dropped st)" "signed_word (GC_bytes_freed st) = int (GC_bytes_freed st)"
      "signed_word (GC_finalizer_bytes_freed st) = int (GC_finalizer_bytes_freed st)" "signed_word (GC_non_gc_bytes st) = int (GC_non_gc_bytes st)"
      "signed_word (GC_non_gc_bytes_at_gc st) = int (GC_non_gc_bytes_at_gc st)" "signed_word (GC_bytes_allocd st div 8) = int (GC_bytes_allocd st div 8)"
    by (rule w; use assms div_le_dividend [of "GC_bytes_allocd st" 8] in \<open>simp; linarith\<close>)+
  have "GC_adj_bytes_allocd st = (if r1 + int (GC_bytes_finalized st) < int (GC_bytes_allocd st div 8) then GC_bytes_allocd st div 8 else unsigned_word (r1 + int (GC_bytes_finalized st)))"
    unfolding GC_adj_bytes_allocd_def Let_def s e_def [symmetric] id [OF b(1,2)] r_def [symmetric] id [OF b(3,4)] r1_def [symmetric] id [OF b(6,7)] ..
  moreover have "unsigned_word k = nat k" if "0 \<le> k" "k < 2 ^ 31" for k using that by (simp add: unsigned_word_def)
  ultimately show ?thesis using b(5,7) by auto
qed

section \<open>A sample collection\<close>

text \<open>The sample heap of marking, in which the root leads to the first and this to the second object of a block.\<close>

definition sample_control :: gc_control where
  "sample_control = full_sample (gc_alloc_ext (\<lambda>_ _. 0) (\<lambda>_. Some (\<lambda>_. 0)) 1 0 0 0 [] False (gc_control.fields False False 0 0 100 0 0 0 0 0 0 3 0 [(5, 4096)] 0 0))"

lemma sample_control_fields:
  "ok_freelist sample_control = (\<lambda>_ _. 0)" "ok_reclaim_list sample_control = (\<lambda>_. Some (\<lambda>_. 0))" "GC_n_kinds sample_control = 1" "\<not> GC_dont_gc sample_control"
  "\<not> GC_incremental sample_control" "\<not> GC_find_leak sample_control" "GC_bytes_allocd sample_control = 100" "GC_bytes_freed sample_control = 0" "GC_bytes_dropped sample_control = 0"
  "GC_finalizer_bytes_freed sample_control = 0" "GC_non_gc_bytes sample_control = 0" "GC_non_gc_bytes_at_gc sample_control = 0" "GC_bytes_finalized sample_control = 0"
  by (simp_all add: sample_control_def full_sample_def sample_marker_def gc_control.defs)

lemma sample_control_ok:
  "heap_ok sample_control" "kinds_ok sample_control" "lists_ok {} (\<lambda>_. []) sample_control" "block_info sample_control b = (if b = 5 then Some (0, 16) else None)"
proof -
  have f: "\<not> HBLK_IS_FREE sample_obj_hdr" "hb_sz sample_obj_hdr = 16" "hb_obj_kind sample_obj_hdr = 0" by (simp_all add: sample_obj_hdr_def zero_hdr_def HBLK_IS_FREE_def)
  let ?x = "gc_alloc_ext (\<lambda>_ _. 0) (\<lambda>_. Some (\<lambda>_. 0)) 1 0 0 0 [] False (gc_control.fields False False 0 0 100 0 0 0 0 0 0 3 0 [(5, 4096)] 0 0)"
  let ?o = "one_block sample_obj_hdr ?x"
  note o = one_block_ok [OF f(1,2), where x = ?x]
  have "HDR sample_control = HDR ?o" by (rule ext) (simp add: sample_control_def HDR_full_sample HDR_sample_marker HDR_one_block)
  note h = hdr_cong [OF this]
  have ho: "heap_ok ?o" using o(2-4) unfolding heap_ok_def by blast
  have wf: "index_wf sample_control" by (simp add: sample_control_def full_sample_def sample_marker_def index_wf_def)
  show "heap_ok sample_control"
    by (rule heap_ok_cong [OF h(4) wf h(3) ho]) (simp_all add: sample_control_def full_sample_def one_block_def sample_marker_def)
  show i: "block_info sample_control b = (if b = 5 then Some (0, 16) else None)" for b using h(3) o(5) f by (simp add: block_info_def)
  show "kinds_ok sample_control" by (auto simp: kinds_ok_def i sample_control_fields split: if_splits)
  show "lists_ok {} (\<lambda>_. []) sample_control" by (simp add: lists_ok_def free_list_ok_def sample_control_fields)
qed


theorem adj_bytes_allocd_bounds_witness: "12 \<le> GC_adj_bytes_allocd sample_control \<and> GC_adj_bytes_allocd sample_control \<le> 100"
  using adj_bytes_allocd_bounds [of sample_control] by (simp add: sample_control_fields)

end
