(* ===== verification/Cord_Rep.thy ===== *)
theory Cord_Rep
  imports GC_Prelude "HOL-Library.Monad_Syntax"
begin

text \<open>
  Cords: strings represented as trees (\<^verbatim>\<open>bdwgc/cord/cordbscs.c\<close>,
  \<^verbatim>\<open>bdwgc/include/cord.h\<close>). This theory holds the representation, the well-formedness
  invariant, the string a cord stands for, concatenation and balancing. Memory for new nodes
  is taken to be available: \<open>OUT_OF_MEMORY\<close> ends the program. The result \<open>None\<close> stands
  for \<open>ABORT\<close>, or for a read of memory that the code did not initialise.
\<close>

section \<open>Representation\<close>

abbreviation NUL :: char where
  "NUL \<equiv> CHR 0x00"

definition MAX_DEPTH :: nat where
  [gc_consts]: "MAX_DEPTH = 48"

definition MAX_LEFT_LEN :: nat where
  [gc_consts]: "MAX_LEFT_LEN = 255"

text \<open>One less than the size of the union of the node structures, 16 bytes.\<close>

definition SHORT_LIMIT :: nat where
  [gc_consts]: "SHORT_LIMIT = 15"

text \<open>
  A cord is the null pointer, a nonempty C string, a concatenation node (its depth, the
  length of its left part when that is small, its length and its two parts), or a function
  node of a given length, whose function comes with its client data. A substring node is a
  function node whose \<open>substr_args\<close> refer to a string (the function being
  \<open>CORD_index_access_fn\<close>) or to another function node (\<open>CORD_apply_access_fn\<close>).
\<close>

datatype cord =
    CORD_EMPTY
  | Str string
  | Concatenation nat nat nat cord cord
  | Function nat "nat \<Rightarrow> char"
  | Index_substr nat string nat
  | Apply_substr nat cord nat

fun CORD_IS_STRING :: "cord \<Rightarrow> bool" where
  "CORD_IS_STRING (Str s) = True"
| "CORD_IS_STRING _ = False"

fun IS_CONCATENATION :: "cord \<Rightarrow> bool" where
  "IS_CONCATENATION (Concatenation d k n l r) = True"
| "IS_CONCATENATION _ = False"

fun IS_FUNCTION :: "cord \<Rightarrow> bool" where
  "IS_FUNCTION (Function n f) = True"
| "IS_FUNCTION (Index_substr n s k) = True"
| "IS_FUNCTION (Apply_substr n c k) = True"
| "IS_FUNCTION _ = False"

text \<open>\<open>LEN\<close> and \<open>DEPTH\<close> are only read from nodes; \<open>GEN_LEN\<close> also covers strings.\<close>

fun LEN :: "cord \<Rightarrow> nat" where
  "LEN (Concatenation d k n l r) = n"
| "LEN (Function n f) = n"
| "LEN (Index_substr n s k) = n"
| "LEN (Apply_substr n c k) = n"

fun DEPTH :: "cord \<Rightarrow> nat" where
  "DEPTH (Concatenation d k n l r) = d"
| "DEPTH _ = 0"

fun GEN_LEN :: "cord \<Rightarrow> nat" where
  "GEN_LEN (Str s) = length s"
| "GEN_LEN c = LEN c"

definition CORD_len :: "cord \<Rightarrow> nat" where
  "CORD_len c = (if c = CORD_EMPTY then 0 else GEN_LEN c)"

fun LEFT_LEN :: "cord \<Rightarrow> nat" where
  "LEFT_LEN (Concatenation d k n l r) =
     (if k \<noteq> 0 then k else if CORD_IS_STRING l then wsub n (GEN_LEN r) else LEN l)"
| "LEFT_LEN _ = 0"

text \<open>The byte of a C string at an index; the terminator follows the characters.\<close>

definition str_char :: "string \<Rightarrow> nat \<Rightarrow> char" where
  "str_char s i = (if i < length s then s ! i else NUL)"

text \<open>The character function of a function node, \<open>(*(f -> fn))(i, f -> client_data)\<close>.\<close>

fun node_fn :: "cord \<Rightarrow> nat \<Rightarrow> char" where
  "node_fn (Function n f) i = f i"
| "node_fn (Index_substr n s k) i = str_char s (wadd i k)"
| "node_fn (Apply_substr n c k) i = node_fn c (wadd i k)"

section \<open>The string a cord stands for\<close>

fun cord_str :: "cord \<Rightarrow> string" where
  "cord_str CORD_EMPTY = []"
| "cord_str (Str s) = s"
| "cord_str (Concatenation d k n l r) = cord_str l @ cord_str r"
| "cord_str (Function n f) = map f [0 ..< n]"
| "cord_str (Index_substr n s k) = map (\<lambda>i. str_char s (wadd i k)) [0 ..< n]"
| "cord_str (Apply_substr n c k) = map (\<lambda>i. node_fn c (wadd i k)) [0 ..< n]"

text \<open>
  The representation invariant of the comments in the source: the parts of a concatenation
  are nonempty, its length and the cached length of its left part are right, its depth is
  one more than that of its deeper part and below \<open>MAX_DEPTH\<close>; strings hold no NUL; a
  substring node stays inside what it refers to.
\<close>

fun cord_wf :: "cord \<Rightarrow> bool" where
  "cord_wf CORD_EMPTY = True"
| "cord_wf (Str s) = (s \<noteq> [] \<and> NUL \<notin> set s \<and> length s < 2 ^ 32)"
| "cord_wf (Concatenation d k n l r) =
     (cord_wf l \<and> cord_wf r \<and> l \<noteq> CORD_EMPTY \<and> r \<noteq> CORD_EMPTY
      \<and> n = length (cord_str l) + length (cord_str r) \<and> n < 2 ^ 32
      \<and> k = (if length (cord_str l) \<le> MAX_LEFT_LEN then length (cord_str l) else 0)
      \<and> d = Suc (max (DEPTH l) (DEPTH r)) \<and> d < MAX_DEPTH)"
| "cord_wf (Function n f) = (0 < n \<and> n < 2 ^ 32)"
| "cord_wf (Index_substr n s k) =
     (0 < n \<and> k + n \<le> length s \<and> NUL \<notin> set s \<and> length s < 2 ^ 32)"
| "cord_wf (Apply_substr n c k) = (0 < n \<and> cord_wf c \<and> IS_FUNCTION c \<and> k + n \<le> LEN c)"

lemma cord_str_function: "IS_FUNCTION c \<Longrightarrow> cord_str c = map (node_fn c) [0 ..< LEN c]"
  by (cases c) auto

lemma LEN_cord_str:
  "cord_wf c \<Longrightarrow> c \<noteq> CORD_EMPTY \<Longrightarrow> \<not> CORD_IS_STRING c \<Longrightarrow> LEN c = length (cord_str c)"
  by (cases c) auto

lemma GEN_LEN_cord_str [simp]:
  "cord_wf c \<Longrightarrow> c \<noteq> CORD_EMPTY \<Longrightarrow> GEN_LEN c = length (cord_str c)"
  by (cases c) auto

lemma IS_FUNCTION_node: "IS_FUNCTION c \<Longrightarrow> c \<noteq> CORD_EMPTY \<and> \<not> CORD_IS_STRING c \<and> \<not> IS_CONCATENATION c"
  by (cases c) auto

lemma CORD_len_cord_str [simp]: "cord_wf c \<Longrightarrow> CORD_len c = length (cord_str c)"
  by (simp add: CORD_len_def)

lemma cord_len_bound: "cord_wf c \<Longrightarrow> length (cord_str c) < 2 ^ 32"
proof (induction c)
  case (Apply_substr n c k)
  then show ?case using IS_FUNCTION_node [of c] by (auto simp: LEN_cord_str)
qed auto

lemma cord_str_nonempty: "cord_wf c \<Longrightarrow> c \<noteq> CORD_EMPTY \<Longrightarrow> cord_str c \<noteq> []"
  by (induction c) auto

lemma cord_str_empty_iff: "cord_wf c \<Longrightarrow> cord_str c = [] \<longleftrightarrow> c = CORD_EMPTY"
  using cord_str_nonempty [of c] by auto

lemma cord_wf_depth: "cord_wf c \<Longrightarrow> DEPTH c < MAX_DEPTH"
  by (cases c) (auto simp: MAX_DEPTH_def)

lemma LEFT_LEN_cord_str [simp]:
  assumes "cord_wf (Concatenation d k n l r)"
  shows "LEFT_LEN (Concatenation d k n l r) = length (cord_str l)"
  using assms by (auto simp: LEN_cord_str cord_str_empty_iff)

section \<open>Concatenation\<close>

text \<open>
  \<open>CORD_cat\<close> and \<open>CORD_balance\<close> call each other. The building blocks take the balancing
  function as a parameter; the knot is tied below, with a bound on the nesting of calls.
\<close>

definition new_concatenation ::
    "(cord \<Rightarrow> cord option) \<Rightarrow> nat \<Rightarrow> nat \<Rightarrow> nat \<Rightarrow> cord \<Rightarrow> cord \<Rightarrow> cord option" where
  "new_concatenation bal depth lenx result_len x y =
     (let result = Concatenation depth (if lenx \<le> MAX_LEFT_LEN then lenx else 0) result_len x y in
      if depth \<ge> MAX_DEPTH then bal result else Some result)"

text \<open>The length of the right part of a concatenation, when that is a string.\<close>

definition merge_right_len :: "nat \<Rightarrow> nat \<Rightarrow> cord \<Rightarrow> string \<Rightarrow> nat" where
  "merge_right_len k n left right =
     (if \<not> CORD_IS_STRING left then wsub n (LEN left)
      else if k \<noteq> 0 then wsub n k
      else length right)"

definition cat_char_star_with ::
    "(cord \<Rightarrow> cord option) \<Rightarrow> cord \<Rightarrow> string \<Rightarrow> nat \<Rightarrow> cord option" where
  "cat_char_star_with bal x y leny =
     (if x = CORD_EMPTY then Some (Str y)
      else if leny = 0 then Some x
      else case x of
        Str s \<Rightarrow>
          (let lenx = length s; result_len = wadd lenx leny in
           if result_len \<le> SHORT_LIMIT then Some (Str (s @ take leny y))
           else new_concatenation bal 1 lenx result_len x (Str y))
      | Concatenation d k n left (Str right) \<Rightarrow>
          (if leny \<le> SHORT_LIMIT div 2
           then (let right_len = merge_right_len k n left right;
                     result_len = wadd right_len leny;
                     merged = result_len \<le> SHORT_LIMIT;
                     y' = (if merged then take right_len right @ take leny y else y);
                     leny' = (if merged then result_len else leny);
                     x' = (if merged then left else x);
                     lenx' = (if merged then wsub n right_len else n);
                     depth = (if CORD_IS_STRING x' then 1 else DEPTH x' + 1) in
                 new_concatenation bal depth lenx' (wadd lenx' leny') x' (Str y'))
           else new_concatenation bal (DEPTH x + 1) n (wadd n leny) x (Str y))
      | _ \<Rightarrow> new_concatenation bal (DEPTH x + 1) (LEN x) (wadd (LEN x) leny) x (Str y))"

definition cat_with :: "(cord \<Rightarrow> cord option) \<Rightarrow> cord \<Rightarrow> cord \<Rightarrow> cord option" where
  "cat_with bal x y =
     (if x = CORD_EMPTY then Some y
      else if y = CORD_EMPTY then Some x
      else case y of
        Str s \<Rightarrow> cat_char_star_with bal x s (length s)
      | _ \<Rightarrow>
          (let lenx = (if CORD_IS_STRING x then GEN_LEN x else LEN x);
               depth = (if CORD_IS_STRING x then DEPTH y + 1
                        else if DEPTH y \<ge> DEPTH x + 1 then DEPTH y + 1 else DEPTH x + 1) in
           new_concatenation bal depth lenx (wadd lenx (LEN y)) x y))"

section \<open>Balancing\<close>

text \<open>
  \<open>min_len\<close>, filled by \<open>CORD_init_min_len\<close>: the Fibonacci numbers, frozen at the last one
  that a 32-bit word can hold.
\<close>

fun init_min_len :: "nat \<Rightarrow> nat \<Rightarrow> nat \<Rightarrow> nat list" where
  "init_min_len 0 previous latest = []"
| "init_min_len (Suc k) previous latest =
     (let sum = wadd latest previous;
          current = (if sum < latest then latest else sum) in
      current # init_min_len k latest current)"

definition CORD_init_min_len :: "nat list" where
  "CORD_init_min_len = 1 # 2 # init_min_len (MAX_DEPTH - 2) 1 2"

definition min_len :: "nat \<Rightarrow> nat option" where
  "min_len i = (if i < length CORD_init_min_len then Some (CORD_init_min_len ! i) else None)"

text \<open>
  \<open>CORD_max_len\<close> is an \<open>int\<close>; the assignment wraps.
\<close>

definition CORD_max_len :: int where
  "CORD_max_len = signed_word (last CORD_init_min_len - 1)"

text \<open>An element of the forest; \<open>None\<close> as long as the code has not written it.\<close>

type_synonym forest = "nat \<Rightarrow> (cord \<times> nat) option"

fun init_forest :: "nat \<Rightarrow> nat \<Rightarrow> nat \<Rightarrow> forest \<Rightarrow> forest option" where
  "init_forest 0 i max_len f = None"
| "init_forest (Suc k) i max_len f =
     (let f' = f(i \<mapsto> (CORD_EMPTY, 0)) in
      do { m \<leftarrow> min_len i;
           if m > max_len then Some f' else init_forest k (i + 1) max_len f' })"

definition CORD_init_forest :: "forest \<Rightarrow> nat \<Rightarrow> forest option" where
  "CORD_init_forest f max_len = init_forest MAX_DEPTH 0 max_len f"

text \<open>One round of the loops: the tree at level i is moved in front of the sum.\<close>

definition take_tree ::
    "(cord \<Rightarrow> cord \<Rightarrow> cord option) \<Rightarrow> nat \<Rightarrow> forest \<times> cord \<times> nat \<Rightarrow> (forest \<times> cord \<times> nat) option" where
  "take_tree cat i = (\<lambda>(f, sum, sum_len).
     case f i of
       None \<Rightarrow> None
     | Some (c, n) \<Rightarrow>
         (if c = CORD_EMPTY then Some (f, sum, sum_len)
          else do { sum' \<leftarrow> cat c sum;
                    Some (f(i \<mapsto> (CORD_EMPTY, n)), sum', wadd sum_len n) }))"

function add_forest_below ::
    "(cord \<Rightarrow> cord \<Rightarrow> cord option) \<Rightarrow> nat \<Rightarrow> nat \<Rightarrow> forest \<times> cord \<times> nat
      \<Rightarrow> (nat \<times> forest \<times> cord \<times> nat) option" where
  "add_forest_below cat len i st =
     (case min_len (i + 1) of
        None \<Rightarrow> None
      | Some m \<Rightarrow>
          (if len > m
           then do { st' \<leftarrow> take_tree cat i st; add_forest_below cat len (i + 1) st' }
           else Some (i, st)))"
  by pat_completeness auto
termination
  by (relation "measure (\<lambda>(cat, len, i, st). length CORD_init_min_len - i)")
    (auto simp: min_len_def split: if_splits)

function add_forest_above ::
    "(cord \<Rightarrow> cord \<Rightarrow> cord option) \<Rightarrow> nat \<Rightarrow> forest \<times> cord \<times> nat
      \<Rightarrow> (nat \<times> forest \<times> cord \<times> nat) option" where
  "add_forest_above cat i st =
     (case min_len i of
        None \<Rightarrow> None
      | Some m \<Rightarrow>
          (if snd (snd st) \<ge> m
           then do { st' \<leftarrow> take_tree cat i st; add_forest_above cat (i + 1) st' }
           else Some (i, st)))"
  by pat_completeness auto
termination
  by (relation "measure (\<lambda>(cat, i, st). length CORD_init_min_len - i)")
    (auto simp: min_len_def split: if_splits)

declare add_forest_below.simps [simp del] add_forest_above.simps [simp del]

definition add_forest_with ::
    "(cord \<Rightarrow> cord \<Rightarrow> cord option) \<Rightarrow> forest \<Rightarrow> cord \<Rightarrow> nat \<Rightarrow> forest option" where
  "add_forest_with cat f x len =
     do { (i, f1, sum, sum_len) \<leftarrow> add_forest_below cat len 0 (f, CORD_EMPTY, 0);
          sum1 \<leftarrow> cat sum x;
          (j, f2, sum2, sum_len2) \<leftarrow> add_forest_above cat i (f1, sum1, wadd sum_len len);
          if j = 0 then None else Some (f2(j - 1 \<mapsto> (sum2, sum_len2))) }"

function concat_forest_loop ::
    "(cord \<Rightarrow> cord \<Rightarrow> cord option) \<Rightarrow> forest \<Rightarrow> nat \<Rightarrow> nat \<Rightarrow> cord \<Rightarrow> nat \<Rightarrow> cord option" where
  "concat_forest_loop cat f expected_len i acc acc_len =
     (if acc_len = expected_len then Some acc
      else if i \<ge> MAX_DEPTH then None
      else case f i of
        None \<Rightarrow> None
      | Some (c, n) \<Rightarrow>
          (if c = CORD_EMPTY then concat_forest_loop cat f expected_len (i + 1) acc acc_len
           else do { acc' \<leftarrow> cat c acc;
                     concat_forest_loop cat f expected_len (i + 1) acc' (wadd acc_len n) }))"
  by pat_completeness auto
termination
  by (relation "measure (\<lambda>(cat, f, n, i, acc, acc_len). MAX_DEPTH - i)") auto

declare concat_forest_loop.simps [simp del]

definition concat_forest_with ::
    "(cord \<Rightarrow> cord \<Rightarrow> cord option) \<Rightarrow> forest \<Rightarrow> nat \<Rightarrow> cord option" where
  "concat_forest_with cat f expected_len = concat_forest_loop cat f expected_len 0 CORD_EMPTY 0"

fun balance_insert_with ::
    "(cord \<Rightarrow> cord \<Rightarrow> cord option) \<Rightarrow> cord \<Rightarrow> nat \<Rightarrow> forest \<Rightarrow> forest option" where
  "balance_insert_with cat (Concatenation d k n l r) len f =
     (if d \<ge> MAX_DEPTH \<or> len < CORD_init_min_len ! d
      then (let left_len = LEFT_LEN (Concatenation d k n l r) in
            do { f1 \<leftarrow> balance_insert_with cat l left_len f;
                 balance_insert_with cat r (wsub len left_len) f1 })
      else add_forest_with cat f (Concatenation d k n l r) len)"
| "balance_insert_with cat x len f = add_forest_with cat f x len"

definition balance_with :: "(cord \<Rightarrow> cord \<Rightarrow> cord option) \<Rightarrow> cord \<Rightarrow> cord option" where
  "balance_with cat x =
     (if x = CORD_EMPTY then Some CORD_EMPTY
      else if CORD_IS_STRING x then Some x
      else do { f \<leftarrow> CORD_init_forest (\<lambda>_. None) (LEN x);
                f1 \<leftarrow> balance_insert_with cat x (LEN x) f;
                concat_forest_with cat f1 (LEN x) })"

text \<open>
  \<open>balance_depth n\<close> allows n nested calls of \<open>CORD_balance\<close>. One is enough, since the
  concatenations made while balancing stay below \<open>MAX_DEPTH\<close>; this is proved below for every
  larger bound.
\<close>

fun balance_depth :: "nat \<Rightarrow> cord \<Rightarrow> cord option" where
  "balance_depth 0 x = None"
| "balance_depth (Suc n) x = balance_with (cat_with (balance_depth n)) x"

definition CORD_balance :: "cord \<Rightarrow> cord option" where
  "CORD_balance = balance_depth 1"

definition CORD_cat :: "cord \<Rightarrow> cord \<Rightarrow> cord option" where
  "CORD_cat = cat_with CORD_balance"

definition CORD_cat_char_star :: "cord \<Rightarrow> string \<Rightarrow> nat \<Rightarrow> cord option" where
  "CORD_cat_char_star = cat_char_star_with CORD_balance"


section \<open>What concatenation does\<close>

text \<open>The node that stands for x followed by y, when no balancing is needed.\<close>

definition concat_node :: "cord \<Rightarrow> cord \<Rightarrow> cord" where
  "concat_node x y =
     Concatenation (Suc (max (DEPTH x) (DEPTH y)))
       (if length (cord_str x) \<le> MAX_LEFT_LEN then length (cord_str x) else 0)
       (length (cord_str x) + length (cord_str y)) x y"

definition joinable :: "cord \<Rightarrow> cord \<Rightarrow> bool" where
  "joinable x y \<longleftrightarrow> cord_wf x \<and> cord_wf y \<and> x \<noteq> CORD_EMPTY \<and> y \<noteq> CORD_EMPTY
     \<and> length (cord_str x) + length (cord_str y) < 2 ^ 32"

lemma concat_node_simps [simp]:
  "cord_str (concat_node x y) = cord_str x @ cord_str y"
  "DEPTH (concat_node x y) = Suc (max (DEPTH x) (DEPTH y))"
  "concat_node x y \<noteq> CORD_EMPTY" "\<not> CORD_IS_STRING (concat_node x y)"
  "LEN (concat_node x y) = length (cord_str x) + length (cord_str y)"
  by (simp_all add: concat_node_def)

lemma cord_wf_concat_node:
  "joinable x y \<Longrightarrow> Suc (max (DEPTH x) (DEPTH y)) < MAX_DEPTH \<Longrightarrow> cord_wf (concat_node x y)"
  by (simp add: joinable_def concat_node_def)

lemma new_concatenation_node:
  "new_concatenation bal (Suc (max (DEPTH x) (DEPTH y))) (length (cord_str x))
     (length (cord_str x) + length (cord_str y)) x y
   = (if Suc (max (DEPTH x) (DEPTH y)) \<ge> MAX_DEPTH then bal (concat_node x y) else Some (concat_node x y))"
  by (simp add: new_concatenation_def concat_node_def Let_def)

text \<open>
  The result of a concatenation is either a flat string or a node over two pieces x', y' that
  are no deeper than the arguments and together spell the same string.
\<close>

definition cat_outcome ::
    "cord \<Rightarrow> cord \<Rightarrow> ((cord \<Rightarrow> cord option) \<Rightarrow> cord option) \<Rightarrow> bool" where
  "cat_outcome x y r \<longleftrightarrow>
     (\<exists>s. (\<forall>bal. r bal = Some (Str s)) \<and> cord_wf (Str s) \<and> s = cord_str x @ cord_str y)
   \<or> (\<exists>x' y'. joinable x' y' \<and> cord_str x' @ cord_str y' = cord_str x @ cord_str y
        \<and> max (DEPTH x') (DEPTH y') \<le> max (DEPTH x) (DEPTH y)
        \<and> (\<forall>bal. r bal = (if Suc (max (DEPTH x') (DEPTH y')) \<ge> MAX_DEPTH
               then bal (concat_node x' y') else Some (concat_node x' y'))))"

lemma cat_outcome_node:
  assumes "joinable x' y'" "cord_str x' @ cord_str y' = cord_str x @ cord_str y"
    "max (DEPTH x') (DEPTH y') \<le> max (DEPTH x) (DEPTH y)"
    "\<And>bal. r bal = new_concatenation bal (Suc (max (DEPTH x') (DEPTH y'))) (length (cord_str x'))
           (length (cord_str x') + length (cord_str y')) x' y'"
  shows "cat_outcome x y r"
  using assms unfolding cat_outcome_def new_concatenation_node by blast

lemma cat_char_star_outcome:
  assumes "joinable x (Str y)"
  shows "cat_outcome x (Str y) (\<lambda>bal. cat_char_star_with bal x y (length y))"
proof -
  have j: "cord_wf x" "x \<noteq> CORD_EMPTY" "cord_wf (Str y)" "length (cord_str x) + length y < 2 ^ 32"
    using assms by (simp_all add: joinable_def)
  show ?thesis
  proof (cases x)
    case (Str s)
    show ?thesis
    proof (cases "length s + length y \<le> SHORT_LIMIT")
      case True
      then show ?thesis using Str j
        by (simp add: cat_outcome_def cat_char_star_with_def)
    next
      case False
      then show ?thesis using Str j assms
        by (intro cat_outcome_node [of x "Str y"]) (simp_all add: cat_char_star_with_def Let_def)
    qed
  next
    case (Concatenation d k n left right)
    have plain: "cat_outcome x (Str y)
        (\<lambda>bal. new_concatenation bal (DEPTH x + 1) n (wadd n (length y)) x (Str y))"
      using Concatenation j assms by (intro cat_outcome_node [of x "Str y"]) simp_all
    show ?thesis
    proof (cases "\<exists>t. right = Str t \<and> length y \<le> SHORT_LIMIT div 2")
      case False
      then have "cat_char_star_with bal x y (length y)
          = new_concatenation bal (DEPTH x + 1) n (wadd n (length y)) x (Str y)" for bal
        using j(3) unfolding Concatenation
        by (cases right) (auto simp: cat_char_star_with_def)
      with plain show ?thesis by simp
    next
      case True
      then obtain t where t: "right = Str t" by auto
      have w: "cord_wf left" "left \<noteq> CORD_EMPTY" "cord_wf (Str t)" "n = length (cord_str left) + length t"
          "n < 2 ^ 32" "k = (if length (cord_str left) \<le> MAX_LEFT_LEN then length (cord_str left) else 0)"
          "d = Suc (DEPTH left)"
        using j(1) Concatenation t by simp_all
      have rl: "merge_right_len k n left t = length t"
        using w by (auto simp: merge_right_len_def LEN_cord_str)
      have short: "length t + length y < 2 ^ 32" using j(4) Concatenation t by simp
      have dl: "CORD_IS_STRING left \<Longrightarrow> DEPTH left = 0" by (cases left) auto
      have ne: "y \<noteq> []" using j(3) by simp
      have wl: "wsub n (length t) = length (cord_str left)" "wadd (length t) (length y) = length t + length y"
          "wadd (length (cord_str left)) (length t + length y) = length (cord_str left) + (length t + length y)"
        using w(4,5) j(4) Concatenation t by simp_all
      show ?thesis
      proof (cases "length t + length y \<le> SHORT_LIMIT")
        case False
        then have "cat_char_star_with bal x y (length y)
          = new_concatenation bal (DEPTH x + 1) n (wadd n (length y)) x (Str y)" for bal
          using j(3) True t short unfolding Concatenation
          by (simp add: cat_char_star_with_def rl)
        with plain show ?thesis by simp
      next
        case merge: True
        have "cat_char_star_with bal x y (length y)
          = new_concatenation bal (Suc (DEPTH left)) (length (cord_str left))
              (length (cord_str left) + length (t @ y)) left (Str (t @ y))" for bal
          using True merge unfolding Concatenation t
          by (simp add: cat_char_star_with_def rl dl wl ne Let_def)
        then show ?thesis using w j Concatenation t
          by (intro cat_outcome_node [of left "Str (t @ y)"]) (simp_all add: joinable_def)
      qed
    qed
  qed (use j assms in \<open>auto intro!: cat_outcome_node [of x "Str y"] simp: cat_char_star_with_def LEN_cord_str\<close>)
qed

lemma cat_with_outcome:
  assumes "joinable x y"
  shows "cat_outcome x y (\<lambda>bal. cat_with bal x y)"
proof (cases "CORD_IS_STRING y")
  case True
  then obtain s where "y = Str s" by (cases y) auto
  with assms show ?thesis
    using cat_char_star_outcome [of x s] by (simp add: cat_with_def joinable_def)
next
  case False
  have j: "cord_wf x" "x \<noteq> CORD_EMPTY" "cord_wf y" "y \<noteq> CORD_EMPTY"
      "length (cord_str x) + length (cord_str y) < 2 ^ 32"
    using assms by (simp_all add: joinable_def)
  define depth where "depth = (if CORD_IS_STRING x then DEPTH y + 1
    else if DEPTH y \<ge> DEPTH x + 1 then DEPTH y + 1 else DEPTH x + 1)"
  have d: "depth = Suc (max (DEPTH x) (DEPTH y))"
    unfolding depth_def by (cases x) auto
  have lx: "(if CORD_IS_STRING x then GEN_LEN x else LEN x) = length (cord_str x)"
    using j by (simp add: LEN_cord_str)
  have "cat_with bal x y = new_concatenation bal depth (length (cord_str x))
      (length (cord_str x) + length (cord_str y)) x y" for bal
    using j False unfolding cat_with_def lx depth_def
    by (cases y) (auto simp: Let_def LEN_cord_str)
  with d show ?thesis by (intro cat_outcome_node [OF assms]) simp_all
qed

text \<open>As long as the parts are shallow, the balancing function is not called.\<close>

lemma cat_with_shallow:
  assumes "cord_wf x" "cord_wf y" "length (cord_str x) + length (cord_str y) < 2 ^ 32"
    "Suc (max (DEPTH x) (DEPTH y)) < MAX_DEPTH"
  obtains c where "\<And>bal. cat_with bal x y = Some c" "cord_wf c" "cord_str c = cord_str x @ cord_str y"
    "DEPTH c \<le> Suc (max (DEPTH x) (DEPTH y))"
    "x = CORD_EMPTY \<Longrightarrow> c = y" "y = CORD_EMPTY \<Longrightarrow> c = x"
proof (cases "x = CORD_EMPTY \<or> y = CORD_EMPTY")
  case True
  then show ?thesis using assms that by (auto simp: cat_with_def)
next
  case False
  then have "joinable x y" using assms by (simp add: joinable_def)
  from cat_with_outcome [OF this] show ?thesis
    unfolding cat_outcome_def
  proof (elim disjE exE conjE)
    fix s
    assume "\<forall>bal. cat_with bal x y = Some (Str s)" "cord_wf (Str s)" "s = cord_str x @ cord_str y"
    then show ?thesis using that [of "Str s"] False by auto
  next
    fix x' y'
    assume j: "joinable x' y'" "cord_str x' @ cord_str y' = cord_str x @ cord_str y"
      "max (DEPTH x') (DEPTH y') \<le> max (DEPTH x) (DEPTH y)"
      and r: "\<forall>bal. cat_with bal x y = (if Suc (max (DEPTH x') (DEPTH y')) \<ge> MAX_DEPTH
               then bal (concat_node x' y') else Some (concat_node x' y'))"
    have d: "Suc (max (DEPTH x') (DEPTH y')) < MAX_DEPTH"
      using j(3) assms(4) by linarith
    then show ?thesis
      using that [of "concat_node x' y'"] j r False cord_wf_concat_node [OF j(1) d] by simp
  qed
qed

end
