(* ===== verification/Cord_Balance.thy ===== *)
theory Cord_Balance
  imports Cord_Rep
begin

text \<open>
  Balancing of cords (\<^verbatim>\<open>bdwgc/cord/cordbscs.c\<close>): the invariants that the comments of the
  source state for the forest of balanced trees, and what they give. The concatenations made
  while balancing never reach \<open>MAX_DEPTH\<close>, so \<open>CORD_balance\<close> never calls itself; it
  preserves the string; and it fails exactly for cords too long for the table \<open>min_len\<close>.
\<close>

section \<open>The table of minimal lengths\<close>

lemma init_min_len_step:
  "0 < k \<Longrightarrow> init_min_len k previous latest =
     (let sum = wadd latest previous; current = (if sum < latest then latest else sum) in
      current # init_min_len (k - 1) latest current)"
  by (cases k) simp_all

lemma CORD_init_min_len_eval:
  "CORD_init_min_len =
    [1, 2, 3, 5, 8, 13, 21, 34, 55, 89, 144, 233, 377, 610, 987, 1597, 2584, 4181, 6765, 10946,
     17711, 28657, 46368, 75025, 121393, 196418, 317811, 514229, 832040, 1346269, 2178309, 3524578,
     5702887, 9227465, 14930352, 24157817, 39088169, 63245986, 102334155, 165580141, 267914296,
     433494437, 701408733, 1134903170, 1836311903, 2971215073, 2971215073, 2971215073]"
  by (simp add: CORD_init_min_len_def MAX_DEPTH_def init_min_len_step wadd_def word32_def Let_def
      cong: let_weak_cong if_weak_cong)

text \<open>The first level whose minimal length is the frozen value.\<close>

definition CORD_len_limit :: nat where
  "CORD_len_limit = 2971215073"

abbreviation ml :: "nat \<Rightarrow> nat" where
  "ml i \<equiv> CORD_init_min_len ! i"

lemma length_min_len [simp]: "length CORD_init_min_len = 48"
  by (simp add: CORD_init_min_len_eval)

lemma min_len_eq [simp]: "i < 48 \<Longrightarrow> min_len i = Some (ml i)"
  by (simp add: min_len_def)

lemma ml_0 [simp]: "ml 0 = 1" "ml 45 = CORD_len_limit" "ml 46 = CORD_len_limit" "ml 47 = CORD_len_limit"
  by (simp_all add: CORD_init_min_len_eval CORD_len_limit_def)

lemma ml_checked:
  "list_all2 (<) (take 45 CORD_init_min_len) (take 45 (tl CORD_init_min_len))"
  "list_all2 (\<lambda>a b. b \<le> 2 * a) (take 45 CORD_init_min_len) (take 45 (tl CORD_init_min_len))"
  "take 44 (tl (tl CORD_init_min_len)) = map2 (+) (take 44 (tl CORD_init_min_len)) (take 44 CORD_init_min_len)"
  by (simp_all add: CORD_init_min_len_eval)

lemma ml_Suc_less: "i < 45 \<Longrightarrow> ml i < ml (Suc i)"
  using list_all2_nthD [OF ml_checked(1), of i] by (simp add: nth_tl)

lemma ml_double: "i < 45 \<Longrightarrow> ml (Suc i) \<le> 2 * ml i"
  using list_all2_nthD [OF ml_checked(2), of i] by (simp add: nth_tl)

lemma ml_fib: "i < 44 \<Longrightarrow> ml (Suc (Suc i)) = ml (Suc i) + ml i"
  using arg_cong [OF ml_checked(3), of "\<lambda>xs. xs ! i"] by (simp add: nth_tl)

lemma ml_strict: "i < j \<Longrightarrow> j \<le> 45 \<Longrightarrow> ml i < ml j"
proof (induction j)
  case (Suc j)
  then show ?case using ml_Suc_less [of j] by (cases "i = j") auto
qed simp

lemma ml_mono: "i \<le> j \<Longrightarrow> j \<le> 45 \<Longrightarrow> ml i \<le> ml j"
  using ml_strict [of i j] by (cases "i = j") auto

lemma ml_less_imp: "ml i < ml j \<Longrightarrow> i \<le> 45 \<Longrightarrow> i < j"
  using ml_mono [of j i] by (meson leD leI)

lemma ml_pos: "i \<le> 45 \<Longrightarrow> 0 < ml i"
  using ml_mono [of 0 i] by simp

section \<open>The forest\<close>

definition tree_str :: "forest \<Rightarrow> nat \<Rightarrow> string" where
  "tree_str f i = (case f i of None \<Rightarrow> [] | Some (c, n) \<Rightarrow> cord_str c)"

text \<open>The string of the levels below n, in decreasing order of the levels.\<close>

definition forest_str :: "forest \<Rightarrow> nat \<Rightarrow> string" where
  "forest_str f n = concat (map (tree_str f) (rev [0 ..< n]))"

text \<open>
  The invariant: up to level t everything is initialised; a tree at level i has at least the
  length \<open>min_len[i]\<close> and at most the depth i + 1 (one more than the comment says, the
  possible extra node above a balanced subtree being counted).
\<close>

definition forest_ok :: "nat \<Rightarrow> forest \<Rightarrow> bool" where
  "forest_ok t f \<longleftrightarrow> (\<forall>i \<le> t. \<exists>c n. f i = Some (c, n) \<and> cord_wf c \<and>
     (c \<noteq> CORD_EMPTY \<longrightarrow> n = length (cord_str c) \<and> ml i \<le> n \<and> DEPTH c \<le> Suc i))"

definition cleared :: "forest \<Rightarrow> nat \<Rightarrow> forest" where
  "cleared f i = (\<lambda>j. if j < i then map_option (\<lambda>(c, n). (CORD_EMPTY, n)) (f j) else f j)"

lemma forest_str_0 [simp]: "forest_str f 0 = []"
  by (simp add: forest_str_def)

lemma forest_str_Suc: "forest_str f (Suc i) = tree_str f i @ forest_str f i"
  by (simp add: forest_str_def)

lemma forest_str_mono: "i \<le> n \<Longrightarrow> length (forest_str f i) \<le> length (forest_str f n)"
proof (induction n)
  case (Suc n)
  then show ?case by (cases "i = Suc n") (auto simp: forest_str_Suc)
qed simp

lemma tree_str_length: "i < n \<Longrightarrow> length (tree_str f i) \<le> length (forest_str f n)"
  using forest_str_mono [of "Suc i" n f] by (simp add: forest_str_Suc)

lemma tree_str_cleared [simp]: "tree_str (cleared f i) j = (if j < i then [] else tree_str f j)"
  by (auto simp: tree_str_def cleared_def split: option.splits)

lemma forest_str_split:
  "j \<le> n \<Longrightarrow> forest_str f n = concat (map (tree_str f) (rev [j ..< n])) @ forest_str f j"
proof (induction n)
  case (Suc n)
  then show ?case by (cases "j = Suc n") (simp_all add: forest_str_Suc)
qed simp

text \<open>Storing the sum of the levels below j, followed by more, at level j - 1.\<close>

lemma forest_str_store:
  assumes "0 < j" "j \<le> n" "cord_str c = forest_str f j @ s"
  shows "forest_str ((cleared f j)(j - 1 \<mapsto> (c, k))) n = forest_str f n @ s"
proof -
  let ?g = "(cleared f j)(j - 1 \<mapsto> (c, k))"
  have t: "tree_str ?g i = (if i = j - 1 then cord_str c else if i < j then [] else tree_str f i)" for i
    using tree_str_cleared [of f j i] by (simp add: tree_str_def)
  have "forest_str ?g (j - 1) = []" by (auto simp: forest_str_def t simp del: One_nat_def)
  then have "forest_str ?g j = cord_str c"
    using forest_str_Suc [of ?g "j - 1"] assms(1) by (simp add: t del: One_nat_def)
  moreover have "map (tree_str ?g) (rev [j ..< n]) = map (tree_str f) (rev [j ..< n])"
    using assms(1) by (auto simp: t simp del: One_nat_def)
  ultimately show ?thesis
    by (simp only: forest_str_split [OF assms(2), of ?g] forest_str_split [OF assms(2), of f]
        assms(3) append_assoc)
qed


section \<open>Collecting trees\<close>

text \<open>
  What is collected from the levels below i: its string, and, unless it is empty, a level k
  that accounts for its depth and its length.
\<close>

definition collected :: "forest \<Rightarrow> nat \<Rightarrow> cord \<Rightarrow> bool" where
  "collected f i acc \<longleftrightarrow> cord_wf acc \<and> cord_str acc = forest_str f i \<and>
     (acc \<noteq> CORD_EMPTY \<longrightarrow> (\<exists>k < i. DEPTH acc \<le> k + 2 \<and> ml k \<le> length (cord_str acc)))"

lemma collected_0 [simp]: "collected f 0 CORD_EMPTY"
  by (simp add: collected_def)

lemma collected_skip:
  assumes "collected f i acc" "f i = Some (CORD_EMPTY, n)"
  shows "collected f (Suc i) acc"
  using assms unfolding collected_def
  by (auto simp: forest_str_Suc tree_str_def intro: less_SucI)

lemma collected_cat:
  assumes "collected f i acc" "forest_ok t f" "f i = Some (c, n)" "c \<noteq> CORD_EMPTY" "i \<le> t" "t \<le> 45"
    "length (forest_str f (Suc t)) < 2 ^ 32"
  obtains acc' where "\<And>bal. cat_with bal c acc = Some acc'" "collected f (Suc i) acc'"
    "wadd (length (cord_str acc)) n = length (cord_str acc')"
proof -
  have c: "cord_wf c" "n = length (cord_str c)" "ml i \<le> n" "DEPTH c \<le> Suc i"
    using assms(2-5) unfolding forest_ok_def by fastforce+
  have acc: "cord_wf acc" "cord_str acc = forest_str f i"
    using assms(1) by (simp_all add: collected_def)
  have s: "forest_str f (Suc i) = cord_str c @ cord_str acc"
    using acc assms(3) by (simp add: forest_str_Suc tree_str_def)
  have len: "length (cord_str c) + length (cord_str acc) < 2 ^ 32"
    using forest_str_mono [of "Suc i" "Suc t" f] assms(5,7) s by simp
  have d: "DEPTH acc \<le> Suc i"
    using assms(1) unfolding collected_def by (cases "acc = CORD_EMPTY") auto
  have "Suc (max (DEPTH c) (DEPTH acc)) < MAX_DEPTH"
    using c(4) d assms(5,6) by (simp add: MAX_DEPTH_def)
  from cat_with_shallow [OF c(1) acc(1) len this] obtain acc' where
    a: "\<And>bal. cat_with bal c acc = Some acc'" "cord_wf acc'" "cord_str acc' = cord_str c @ cord_str acc"
      "DEPTH acc' \<le> Suc (max (DEPTH c) (DEPTH acc))" by metis
  have "DEPTH acc' \<le> i + 2" using a(4) c(4) d by simp
  then have "collected f (Suc i) acc'"
    unfolding collected_def using a(2,3) s c(2,3) by (auto intro!: exI [of _ i])
  with a len c(2) that show ?thesis by simp
qed

lemma take_tree_step:
  assumes "collected f i acc" "forest_ok t f" "i \<le> t" "t \<le> 45" "length (forest_str f (Suc t)) < 2 ^ 32"
  obtains acc' where
    "\<And>bal. take_tree (cat_with bal) i (cleared f i, acc, length (cord_str acc))
        = Some (cleared f (Suc i), acc', length (cord_str acc'))"
    "collected f (Suc i) acc'"
proof -
  obtain c n where f: "f i = Some (c, n)" using assms(2,3) unfolding forest_ok_def by blast
  have cl: "cleared f i i = Some (c, n)" using f by (simp add: cleared_def)
  show ?thesis
  proof (cases "c = CORD_EMPTY")
    case True
    have "cleared f (Suc i) = cleared f i"
      using f True by (auto simp: cleared_def less_Suc_eq)
    then show ?thesis using that [of acc] collected_skip [OF assms(1)] f True cl
      by (simp add: take_tree_def)
  next
    case False
    obtain acc' where a: "\<And>bal. cat_with bal c acc = Some acc'" "collected f (Suc i) acc'"
        "wadd (length (cord_str acc)) n = length (cord_str acc')"
      using collected_cat [OF assms(1,2) f False assms(3-5)] by blast
    have "(cleared f i)(i \<mapsto> (CORD_EMPTY, n)) = cleared f (Suc i)"
      using f by (auto simp: cleared_def less_Suc_eq)
    then show ?thesis using that [of acc'] a cl False by (simp add: take_tree_def)
  qed
qed

text \<open>The first loop of \<open>CORD_add_forest\<close>.\<close>

lemma add_forest_below_spec:
  assumes "forest_ok t f" "t \<le> 45" "length (forest_str f (Suc t)) < 2 ^ 32" "len < ml t"
    "collected f i acc" "i \<le> t" "i = 0 \<or> ml i < len" "0 < len"
  shows "\<exists>j acc'. (\<forall>bal. add_forest_below (cat_with bal) len i (cleared f i, acc, length (cord_str acc))
            = Some (j, cleared f j, acc', length (cord_str acc')))
      \<and> collected f j acc' \<and> j < t \<and> len \<le> ml (Suc j) \<and> (j = 0 \<or> ml j < len)"
  using assms(5-7)
proof (induction "t - i" arbitrary: i acc rule: less_induct)
  case less
  have lt: "i < t" using less.prems(2,3) assms(4,8) by (cases "i = t") auto
  then have m: "min_len (i + 1) = Some (ml (Suc i))" using assms(2) by simp
  show ?case
  proof (cases "ml (Suc i) < len")
    case False
    then show ?thesis using m lt less.prems
      by (auto simp: add_forest_below.simps [of _ len i] intro!: exI [of _ i] exI [of _ acc])
  next
    case True
    obtain acc' where a: "\<And>bal. take_tree (cat_with bal) i (cleared f i, acc, length (cord_str acc))
        = Some (cleared f (Suc i), acc', length (cord_str acc'))" "collected f (Suc i) acc'"
      using take_tree_step [OF less.prems(1) assms(1) _ assms(2,3)] lt by (metis less_imp_le_nat)
    have step: "add_forest_below (cat_with bal) len i (cleared f i, acc, length (cord_str acc))
        = add_forest_below (cat_with bal) len (Suc i) (cleared f (Suc i), acc', length (cord_str acc'))" for bal
      using m True a(1) by (simp add: add_forest_below.simps [of _ len i])
    show ?thesis unfolding step
      by (rule less.hyps) (use lt a(2) True in auto)
  qed
qed

text \<open>
  The second loop. The sum x is the collected part followed by the new tree, and it is
  balanced up to one extra level; this is kept by every round.
\<close>

definition summed :: "forest \<Rightarrow> string \<Rightarrow> nat \<Rightarrow> cord \<Rightarrow> bool" where
  "summed f s i acc \<longleftrightarrow> cord_wf acc \<and> acc \<noteq> CORD_EMPTY \<and> cord_str acc = forest_str f i @ s
     \<and> DEPTH acc \<le> i + 2 \<and> ml (DEPTH acc - 1) \<le> length (cord_str acc)"

lemma ml_le_limit: "i \<le> 45 \<Longrightarrow> ml i \<le> CORD_len_limit"
  using ml_mono [of i 45] by simp

lemma summed_length:
  assumes "summed f s i acc" "i \<le> Suc t"
  shows "length (cord_str acc) \<le> length (forest_str f (Suc t)) + length s"
  using assms forest_str_mono [OF assms(2), of f] by (simp add: summed_def)

lemma summed_step:
  assumes "summed f s i acc" "forest_ok t f" "i \<le> t" "t \<le> 45"
    "length (forest_str f (Suc t)) + length s < ml t" "ml i \<le> length (cord_str acc)"
  obtains acc' where
    "\<And>bal. take_tree (cat_with bal) i (cleared f i, acc, length (cord_str acc))
        = Some (cleared f (Suc i), acc', length (cord_str acc'))"
    "summed f s (Suc i) acc'" "length (cord_str acc) \<le> length (cord_str acc')"
proof -
  obtain c n where f: "f i = Some (c, n)" and c: "cord_wf c"
      "c \<noteq> CORD_EMPTY \<Longrightarrow> n = length (cord_str c) \<and> ml i \<le> n \<and> DEPTH c \<le> Suc i"
    using assms(2,3) unfolding forest_ok_def by blast
  have cl: "cleared f i i = Some (c, n)" using f by (simp add: cleared_def)
  have acc: "cord_wf acc" "cord_str acc = forest_str f i @ s" "DEPTH acc \<le> i + 2"
      "ml (DEPTH acc - 1) \<le> length (cord_str acc)" "acc \<noteq> CORD_EMPTY"
    using assms(1) unfolding summed_def by blast+
  have small: "length (cord_str acc) < ml t"
    using summed_length [OF assms(1), of t] assms(3,5) by simp
  show ?thesis
  proof (cases "c = CORD_EMPTY")
    case True
    have "cleared f (Suc i) = cleared f i"
      using f True by (auto simp: cleared_def less_Suc_eq)
    moreover have "summed f s (Suc i) acc"
      using acc f True by (simp add: summed_def forest_str_Suc tree_str_def)
    ultimately show ?thesis using that [of acc] True cl by (simp add: take_tree_def)
  next
    case False
    have it: "i < t" using assms(6) small ml_less_imp [of i t] assms(3,4) by simp
    have s: "forest_str f (Suc i) = cord_str c @ forest_str f i"
      using f by (simp add: forest_str_Suc tree_str_def)
    have len: "length (cord_str c) + length (cord_str acc) < ml t"
      using forest_str_mono [of "Suc i" "Suc t" f] it assms(5) s acc(2) by simp
    then have len32: "length (cord_str c) + length (cord_str acc) < 2 ^ 32"
      using ml_le_limit [OF assms(4)] by (simp add: CORD_len_limit_def)
    have "Suc (max (DEPTH c) (DEPTH acc)) < MAX_DEPTH"
      using c(2) [OF False] acc(3) it assms(4) by (simp add: MAX_DEPTH_def)
    from cat_with_shallow [OF c(1) acc(1) len32 this] obtain acc' where
      a: "\<And>bal. cat_with bal c acc = Some acc'" "cord_wf acc'" "cord_str acc' = cord_str c @ cord_str acc"
        "DEPTH acc' \<le> Suc (max (DEPTH c) (DEPTH acc))" by metis
    have e: "DEPTH acc' - 1 \<le> max (Suc i) (DEPTH acc)" using a(4) c(2) [OF False] by linarith
    have "ml (DEPTH acc' - 1) \<le> length (cord_str c) + length (cord_str acc)"
    proof (cases "DEPTH acc \<le> Suc i")
      case True
      then have "ml (DEPTH acc' - 1) \<le> ml (Suc i)"
        by (intro ml_mono) (use e it assms(4) in auto)
      also have "\<dots> \<le> 2 * ml i" using ml_double it assms(4) by simp
      finally show ?thesis using c(2) [OF False] assms(6) by simp
    next
      case deep: False
      then have d: "DEPTH acc = Suc (Suc i)" using acc(3) by simp
      then have si: "ml (Suc i) \<le> length (cord_str acc)" using acc(4) by simp
      then have "Suc i < t" using small ml_less_imp [of "Suc i" t] it assms(4) by simp
      then have "i < 44" using assms(4) by simp
      have "ml (DEPTH acc' - 1) \<le> ml (Suc (Suc i))"
        by (intro ml_mono) (use e d \<open>i < 44\<close> in auto)
      also have "\<dots> = ml (Suc i) + ml i" using ml_fib \<open>i < 44\<close> by simp
      finally show ?thesis using si c(2) [OF False] by simp
    qed
    moreover have "DEPTH acc' \<le> Suc i + 2"
      using a(4) conjunct2 [OF c(2) [OF False]] acc(3) by (auto simp: max_def split: if_splits)
    moreover have "acc' \<noteq> CORD_EMPTY" using a(3) cord_str_nonempty [OF acc(1,5)] by auto
    ultimately have "summed f s (Suc i) acc'" using a(2,3) s acc(2) by (simp add: summed_def)
    moreover have "(cleared f i)(i \<mapsto> (CORD_EMPTY, n)) = cleared f (Suc i)"
      using f by (auto simp: cleared_def less_Suc_eq)
    ultimately show ?thesis
      using that [of acc'] a cl False c(2) [OF False] len32 by (simp add: take_tree_def)
  qed
qed

lemma add_forest_above_spec:
  assumes "forest_ok t f" "t \<le> 45" "length (forest_str f (Suc t)) + length s < ml t"
    "summed f s i acc" "i \<le> t" "ml (i - 1) \<le> length (cord_str acc)"
  shows "\<exists>j acc'. (\<forall>bal. add_forest_above (cat_with bal) i (cleared f i, acc, length (cord_str acc))
            = Some (j, cleared f j, acc', length (cord_str acc')))
      \<and> summed f s j acc' \<and> 0 < j \<and> j \<le> t \<and> ml (j - 1) \<le> length (cord_str acc')
      \<and> length (cord_str acc') < ml j"
  using assms(4-6)
proof (induction "t - i" arbitrary: i acc rule: less_induct)
  case less
  have m: "min_len i = Some (ml i)" using less.prems(2) assms(2) by simp
  show ?case
  proof (cases "ml i \<le> length (cord_str acc)")
    case False
    have "0 < length (cord_str acc)"
      using less.prems(1) cord_str_nonempty [of acc] unfolding summed_def by blast
    with False have "i \<noteq> 0" by (cases "i = 0") auto
    then show ?thesis using m less.prems False
      by (auto simp: add_forest_above.simps [of _ i] intro!: exI [of _ i] exI [of _ acc])
  next
    case True
    have it: "i < t"
      using True summed_length [OF less.prems(1), of t] less.prems(2) assms(2,3) ml_less_imp [of i t] by simp
    obtain acc' where a: "\<And>bal. take_tree (cat_with bal) i (cleared f i, acc, length (cord_str acc))
        = Some (cleared f (Suc i), acc', length (cord_str acc'))" "summed f s (Suc i) acc'"
        "length (cord_str acc) \<le> length (cord_str acc')"
      using summed_step [OF less.prems(1) assms(1) less.prems(2) assms(2,3) True] by blast
    have step: "add_forest_above (cat_with bal) i (cleared f i, acc, length (cord_str acc))
        = add_forest_above (cat_with bal) (Suc i) (cleared f (Suc i), acc', length (cord_str acc'))" for bal
      using m True a(1) by (simp add: add_forest_above.simps [of _ i])
    show ?thesis unfolding step
      by (rule less.hyps) (use it a True in auto)
  qed
qed


section \<open>Adding a tree\<close>

lemma ml_less_imp': "ml i < ml j \<Longrightarrow> i < 48 \<Longrightarrow> j \<le> 45 \<Longrightarrow> i < j"
proof (rule ccontr)
  assume a: "ml i < ml j" "i < 48" "j \<le> 45" "\<not> i < j"
  show False
  proof (cases "i \<le> 45")
    case True
    then show ?thesis using a ml_less_imp [of i j] by simp
  next
    case False
    then have "i = 46 \<or> i = 47" using a(2) by arith
    then have "ml i = CORD_len_limit" by auto
    then show ?thesis using a(1) ml_le_limit [OF a(3)] by simp
  qed
qed

definition cord_balanced :: "cord \<Rightarrow> bool" where
  "cord_balanced x \<longleftrightarrow> ml (DEPTH x) \<le> length (cord_str x)"

lemma cleared_0 [simp]: "cleared f 0 = f"
  by (simp add: cleared_def)

lemma cat_collected:
  assumes "collected f j acc" "cord_wf x" "x \<noteq> CORD_EMPTY" "cord_balanced x"
    "length (cord_str acc) + length (cord_str x) < 2 ^ 32"
    "j < 45" "length (cord_str x) \<le> ml (Suc j)" "j = 0 \<or> ml j < length (cord_str x)"
    "length (cord_str x) < CORD_len_limit"
  obtains acc' where "\<And>bal. cat_with bal acc x = Some acc'" "summed f (cord_str x) j acc'"
proof -
  have acc: "cord_wf acc" "cord_str acc = forest_str f j" using assms(1) by (simp_all add: collected_def)
  have bx: "ml (DEPTH x) \<le> length (cord_str x)" using assms(4) by (simp add: cord_balanced_def)
  have "DEPTH x < 45"
    using ml_less_imp' [of "DEPTH x" 45] bx assms(9) cord_wf_depth [OF assms(2)]
    by (simp add: MAX_DEPTH_def)
  then have dx: "DEPTH x \<le> Suc j"
    using bx assms(7) ml_strict [of "Suc j" "DEPTH x"] by (metis le_trans leD leI less_imp_le_nat)
  have da: "DEPTH acc \<le> Suc j"
    using assms(1) unfolding collected_def by (cases "acc = CORD_EMPTY") auto
  have "Suc (max (DEPTH acc) (DEPTH x)) < MAX_DEPTH"
    using da dx assms(6) by (simp add: MAX_DEPTH_def)
  from cat_with_shallow [OF acc(1) assms(2,5) this] obtain acc' where
    a: "\<And>bal. cat_with bal acc x = Some acc'" "cord_wf acc'" "cord_str acc' = cord_str acc @ cord_str x"
      "DEPTH acc' \<le> Suc (max (DEPTH acc) (DEPTH x))" by metis
  have e: "DEPTH acc' - 1 \<le> max (DEPTH acc) (DEPTH x)" using a(4) by linarith
  have "ml (DEPTH acc' - 1) \<le> length (cord_str acc) + length (cord_str x)"
  proof (cases "DEPTH acc' - 1 \<le> DEPTH x")
    case True
    then have "ml (DEPTH acc' - 1) \<le> ml (DEPTH x)"
      by (intro ml_mono) (use dx assms(6) in auto)
    then show ?thesis using bx by simp
  next
    case False
    then have "DEPTH acc' - 1 \<le> DEPTH acc" "acc \<noteq> CORD_EMPTY" using e by (auto simp: max_def split: if_splits)
    then obtain k where k: "k < j" "DEPTH acc' - 1 \<le> k + 2" "ml k \<le> length (cord_str acc)"
      using assms(1) unfolding collected_def by force
    have lx: "ml j < length (cord_str x)" using assms(8) k(1) by simp
    have "ml (DEPTH acc' - 1) \<le> ml (Suc (Suc k))"
      by (intro ml_mono) (use k assms(6) in auto)
    also have "\<dots> = ml (Suc k) + ml k" using ml_fib k(1) assms(6) by simp
    also have "\<dots> \<le> ml j + ml k" using ml_mono [of "Suc k" j] k(1) assms(6) by simp
    finally show ?thesis using lx k(3) by simp
  qed
  moreover have "DEPTH acc' \<le> j + 2" using a(4) da dx by (auto simp: max_def split: if_splits)
  moreover have "acc' \<noteq> CORD_EMPTY" using a(3) cord_str_nonempty [OF assms(2,3)] by auto
  ultimately have "summed f (cord_str x) j acc'" using a(2,3) acc(2) by (simp add: summed_def)
  with a(1) that show ?thesis by blast
qed

lemma forest_ok_store:
  assumes "forest_ok t f" "summed f s j acc" "0 < j" "j \<le> t" "t \<le> 45"
    "ml (j - 1) \<le> length (cord_str acc)" "length (cord_str acc) < ml j"
  shows "forest_ok t ((cleared f j)(j - 1 \<mapsto> (acc, length (cord_str acc))))"
proof -
  have acc: "cord_wf acc" "ml (DEPTH acc - 1) \<le> length (cord_str acc)" "DEPTH acc \<le> j + 2"
    using assms(2) unfolding summed_def by blast+
  have "DEPTH acc - 1 < j"
    using ml_less_imp' [of "DEPTH acc - 1" j] acc(2,3) assms(4,5,7) by simp
  then have d: "DEPTH acc \<le> Suc (j - 1)" using assms(3) by simp
  show ?thesis unfolding forest_ok_def
  proof (intro allI impI)
    fix i
    assume "i \<le> t"
    then obtain c n where "f i = Some (c, n)" "cord_wf c"
      "c \<noteq> CORD_EMPTY \<longrightarrow> n = length (cord_str c) \<and> ml i \<le> n \<and> DEPTH c \<le> Suc i"
      using assms(1) unfolding forest_ok_def by blast
    then show "\<exists>c n. ((cleared f j)(j - 1 \<mapsto> (acc, length (cord_str acc)))) i = Some (c, n) \<and> cord_wf c
        \<and> (c \<noteq> CORD_EMPTY \<longrightarrow> n = length (cord_str c) \<and> ml i \<le> n \<and> DEPTH c \<le> Suc i)"
      using acc(1) d assms(6) by (cases "i = j - 1") (auto simp: cleared_def)
  qed
qed

lemma add_forest_spec:
  assumes f: "forest_ok t f" "t \<le> 45" and x: "cord_wf x" "x \<noteq> CORD_EMPTY" "cord_balanced x"
    and len: "length (forest_str f (Suc t)) + length (cord_str x) < ml t"
  obtains f' where "\<And>bal. add_forest_with (cat_with bal) f x (length (cord_str x)) = Some f'"
    "forest_ok t f'" "forest_str f' (Suc t) = forest_str f (Suc t) @ cord_str x"
proof -
  have l32: "ml t < 2 ^ 32" using ml_le_limit [OF f(2)] by (simp add: CORD_len_limit_def)
  have lx: "length (cord_str x) < ml t" "0 < length (cord_str x)" "length (forest_str f (Suc t)) < 2 ^ 32"
    using len l32 cord_str_nonempty [OF x(1,2)] by simp_all
  obtain j acc where b: "\<And>bal. add_forest_below (cat_with bal) (length (cord_str x)) 0 (f, CORD_EMPTY, 0)
      = Some (j, cleared f j, acc, length (cord_str acc))" "collected f j acc" "j < t"
      "length (cord_str x) \<le> ml (Suc j)" "j = 0 \<or> ml j < length (cord_str x)"
    using add_forest_below_spec [OF f lx(3,1) collected_0 _ _ lx(2)] by auto
  have la: "length (cord_str acc) \<le> length (forest_str f (Suc t))"
    using b(2,3) forest_str_mono [of j "Suc t" f] by (simp add: collected_def)
  have la32: "length (cord_str acc) + length (cord_str x) < 2 ^ 32" using la len l32 by linarith
  obtain acc1 where c: "\<And>bal. cat_with bal acc x = Some acc1" "summed f (cord_str x) j acc1"
    using cat_collected [OF b(2) x la32 _ b(4,5)] b(3) f(2) lx(1) ml_le_limit [OF f(2)]
    by (metis less_le_trans)
  have l1: "length (cord_str acc1) = length (cord_str acc) + length (cord_str x)"
    using b(2) c(2) by (simp add: summed_def collected_def)
  have "ml (j - 1) \<le> length (cord_str x)"
  proof (cases "j = 0")
    case True
    then show ?thesis using lx(2) by (simp add: Suc_le_eq)
  next
    case False
    then show ?thesis using b(3,5) ml_mono [of "j - 1" j] f(2) by simp
  qed
  then have "ml (j - 1) \<le> length (cord_str acc1)" using l1 by linarith
  then obtain j2 acc2 where d: "\<And>bal. add_forest_above (cat_with bal) j (cleared f j, acc1, length (cord_str acc1))
      = Some (j2, cleared f j2, acc2, length (cord_str acc2))" "summed f (cord_str x) j2 acc2"
      "0 < j2" "j2 \<le> t" "ml (j2 - 1) \<le> length (cord_str acc2)" "length (cord_str acc2) < ml j2"
    using add_forest_above_spec [OF f len c(2)] b(3) by auto
  let ?f = "(cleared f j2)(j2 - 1 \<mapsto> (acc2, length (cord_str acc2)))"
  have "add_forest_with (cat_with bal) f x (length (cord_str x)) = Some ?f" for bal
    using b(1) c(1) d(1,3) l1 la32 by (simp add: add_forest_with_def)
  moreover have "forest_str ?f (Suc t) = forest_str f (Suc t) @ cord_str x"
    by (rule forest_str_store) (use d in \<open>auto simp: summed_def\<close>)
  ultimately show ?thesis
    using that forest_ok_store [OF f(1) d(2-4) f(2) d(5,6)] by blast
qed


section \<open>Inserting and concatenating\<close>

lemma Concatenation_node:
  "cord_wf (Concatenation d k n l r) \<Longrightarrow> Concatenation d k n l r = concat_node l r \<and> joinable l r"
  by (simp add: concat_node_def joinable_def)

lemma balance_insert_node:
  assumes "joinable l r" "DEPTH (concat_node l r) \<ge> MAX_DEPTH
      \<or> length (cord_str l @ cord_str r) < ml (DEPTH (concat_node l r))"
  shows "balance_insert_with cat (concat_node l r) (length (cord_str l @ cord_str r)) f =
    do { f1 \<leftarrow> balance_insert_with cat l (length (cord_str l)) f;
         balance_insert_with cat r (length (cord_str r)) f1 }"
proof -
  obtain d k n where c: "concat_node l r = Concatenation d k n l r" by (simp add: concat_node_def)
  have "LEFT_LEN (concat_node l r) = length (cord_str l)"
    using assms(1) by (auto simp: concat_node_def joinable_def LEN_cord_str cord_str_empty_iff)
  then show ?thesis
    using assms unfolding c by (simp add: joinable_def)
qed

lemma balance_insert_leaf:
  assumes "cord_wf x" "x \<noteq> CORD_EMPTY" "forest_ok t f" "t \<le> 45"
    "length (forest_str f (Suc t)) + length (cord_str x) < ml t" "\<not> IS_CONCATENATION x"
  shows "\<exists>f'. (\<forall>bal. balance_insert_with (cat_with bal) x (length (cord_str x)) f = Some f')
    \<and> forest_ok t f' \<and> forest_str f' (Suc t) = forest_str f (Suc t) @ cord_str x"
proof -
  have "DEPTH x = 0" "balance_insert_with cat x n f = add_forest_with cat f x n" for cat n
    using assms(6) by (cases x; simp)+
  moreover from this have "cord_balanced x"
    using cord_str_nonempty [OF assms(1,2)] by (simp add: cord_balanced_def Suc_le_eq)
  ultimately show ?thesis using add_forest_spec [OF assms(3,4,1,2) _ assms(5)] by metis
qed

lemma balance_insert_spec:
  assumes "cord_wf x" "x \<noteq> CORD_EMPTY" "forest_ok t f" "t \<le> 45"
    "length (forest_str f (Suc t)) + length (cord_str x) < ml t"
  shows "\<exists>f'. (\<forall>bal. balance_insert_with (cat_with bal) x (length (cord_str x)) f = Some f')
    \<and> forest_ok t f' \<and> forest_str f' (Suc t) = forest_str f (Suc t) @ cord_str x"
  using assms
proof (induction x arbitrary: f)
  case (Concatenation d k n l r)
  note wf = Concatenation.prems(1)
  note nd = Concatenation_node [OF wf]
  show ?case
  proof (cases "d \<ge> MAX_DEPTH \<or> length (cord_str l @ cord_str r) < ml d")
    case True
    have eq: "balance_insert_with cat (Concatenation d k n l r) (length (cord_str l @ cord_str r)) f =
      do { f1 \<leftarrow> balance_insert_with cat l (length (cord_str l)) f;
           balance_insert_with cat r (length (cord_str r)) f1 }" for cat
      using balance_insert_node [of l r] True nd by (metis DEPTH.simps(1))
    obtain f1 where 1: "\<forall>bal. balance_insert_with (cat_with bal) l (length (cord_str l)) f = Some f1"
      "forest_ok t f1" "forest_str f1 (Suc t) = forest_str f (Suc t) @ cord_str l"
      using Concatenation.IH(1) [of f] Concatenation.prems by auto
    obtain f2 where 2: "\<forall>bal. balance_insert_with (cat_with bal) r (length (cord_str r)) f1 = Some f2"
      "forest_ok t f2" "forest_str f2 (Suc t) = forest_str f1 (Suc t) @ cord_str r"
      using Concatenation.IH(2) [of f1] Concatenation.prems 1 by auto
    show ?thesis unfolding cord_str.simps eq using 1 2 by simp
  next
    case False
    then have b: "cord_balanced (Concatenation d k n l r)" by (simp add: cord_balanced_def)
    show ?thesis
      using add_forest_spec [OF Concatenation.prems(3,4) wf Concatenation.prems(2) b Concatenation.prems(5)] False
      by (auto simp: not_le not_less)
  qed
qed (rule balance_insert_leaf; (assumption | simp))+

lemma concat_forest_spec:
  assumes f: "forest_ok t f" "t \<le> 45" "length (forest_str f (Suc t)) < 2 ^ 32"
    and acc: "collected f i acc" "i \<le> Suc t"
  shows "\<exists>c. (\<forall>bal. concat_forest_loop (cat_with bal) f (length (forest_str f (Suc t))) i acc (length (cord_str acc)) = Some c)
    \<and> cord_wf c \<and> cord_str c = forest_str f (Suc t) \<and> (c = CORD_EMPTY \<or> ml (DEPTH c - 2) \<le> length (cord_str c))"
  using acc
proof (induction "Suc t - i" arbitrary: i acc rule: less_induct)
  case less
  have wf: "cord_wf acc" "cord_str acc = forest_str f i"
    using less.prems(1) by (simp_all add: collected_def)
  show ?case
  proof (cases "length (cord_str acc) = length (forest_str f (Suc t))")
    case True
    have "cord_str acc = forest_str f (Suc t)"
      using True wf(2) forest_str_split [OF less.prems(2), of f] by auto
    moreover have "acc = CORD_EMPTY \<or> ml (DEPTH acc - 2) \<le> length (cord_str acc)"
    proof (cases "acc = CORD_EMPTY")
      case False
      then obtain k where k: "k < i" "DEPTH acc \<le> k + 2" "ml k \<le> length (cord_str acc)"
        using less.prems(1) unfolding collected_def by blast
      have "ml (DEPTH acc - 2) \<le> ml k" by (rule ml_mono) (use k less.prems(2) f(2) in auto)
      with k(3) show ?thesis by simp
    qed simp
    ultimately show ?thesis using True wf(1)
      by (auto simp: concat_forest_loop.simps [of _ f _ i] intro!: exI [of _ acc])
  next
    case False
    then have it: "i \<le> t" using wf(2) less.prems(2) by (cases "i = Suc t") auto
    then have i48: "i < MAX_DEPTH" using f(2) by (simp add: MAX_DEPTH_def)
    obtain c n where fi: "f i = Some (c, n)" using f(1) it unfolding forest_ok_def by blast
    have "\<exists>acc'. (\<forall>bal. concat_forest_loop (cat_with bal) f (length (forest_str f (Suc t))) i acc (length (cord_str acc))
        = concat_forest_loop (cat_with bal) f (length (forest_str f (Suc t))) (Suc i) acc' (length (cord_str acc')))
        \<and> collected f (Suc i) acc'"
    proof (cases "c = CORD_EMPTY")
      case True
      then show ?thesis using False i48 fi collected_skip [OF less.prems(1), of n]
        by (auto simp: concat_forest_loop.simps [of _ f _ i] intro!: exI [of _ acc])
    next
      case ne: False
      obtain acc' where "\<And>bal. cat_with bal c acc = Some acc'" "collected f (Suc i) acc'"
          "wadd (length (cord_str acc)) n = length (cord_str acc')"
        using collected_cat [OF less.prems(1) f(1) fi ne it f(2,3)] by blast
      then show ?thesis using False i48 fi ne
        by (auto simp: concat_forest_loop.simps [of _ f _ i] intro!: exI [of _ acc'])
    qed
    then obtain acc' where step: "\<forall>bal. concat_forest_loop (cat_with bal) f (length (forest_str f (Suc t))) i acc (length (cord_str acc))
        = concat_forest_loop (cat_with bal) f (length (forest_str f (Suc t))) (Suc i) acc' (length (cord_str acc'))"
        and col: "collected f (Suc i) acc'" by blast
    show ?thesis unfolding step [rule_format]
      by (rule less.hyps) (use it col in auto)
  qed
qed


section \<open>Balancing a cord\<close>

lemma init_forest_spec:
  assumes "\<And>j. j < i \<Longrightarrow> f j = Some (CORD_EMPTY, 0)" "i + k = 48"
  shows "(n < CORD_len_limit \<longrightarrow> (\<forall>j < i. ml j \<le> n) \<longrightarrow>
      (\<exists>f' t. init_forest k i n f = Some f' \<and> t \<le> 45 \<and> n < ml t
         \<and> (\<forall>j \<le> t. f' j = Some (CORD_EMPTY, 0))))
    \<and> (CORD_len_limit \<le> n \<longrightarrow> init_forest k i n f = None)"
  using assms
proof (induction k arbitrary: i f)
  case 0
  have "ml 45 \<le> n" if "\<forall>j < i. ml j \<le> n" using spec [OF that, of 45] 0 by simp
  then show ?case by (metis init_forest.simps(1) ml_0(2) not_le)
next
  case (Suc k)
  have m: "min_len i = Some (ml i)" using Suc.prems(2) by simp
  have lim: "ml i \<le> CORD_len_limit"
  proof (cases "i \<le> 45")
    case False
    then have "i = 46 \<or> i = 47" using Suc.prems(2) by arith
    then show ?thesis by auto
  qed (rule ml_le_limit)
  let ?f = "f(i \<mapsto> (CORD_EMPTY, 0))"
  have IH: "(n < CORD_len_limit \<longrightarrow> (\<forall>j < Suc i. ml j \<le> n) \<longrightarrow>
      (\<exists>f' t. init_forest k (Suc i) n ?f = Some f' \<and> t \<le> 45 \<and> n < ml t
         \<and> (\<forall>j \<le> t. f' j = Some (CORD_EMPTY, 0))))
    \<and> (CORD_len_limit \<le> n \<longrightarrow> init_forest k (Suc i) n ?f = None)"
    by (rule Suc.IH) (use Suc.prems in auto)
  show ?case
  proof (cases "n < ml i")
    case True
    have "i \<le> 45" if "\<forall>j < i. ml j \<le> n"
      using that True lim by (metis leD leI le_less_trans ml_0(2) not_le)
    moreover have "\<forall>j \<le> i. ?f j = Some (CORD_EMPTY, 0)" using Suc.prems(1) by auto
    ultimately show ?thesis using True m lim
      by (auto simp: Let_def intro!: exI [of _ i])
  next
    case False
    then show ?thesis using m IH by (auto simp: Let_def less_Suc_eq)
  qed
qed

lemma CORD_init_forest_ok:
  assumes "n < CORD_len_limit"
  obtains f t where "CORD_init_forest (\<lambda>_. None) n = Some f" "t \<le> 45" "n < ml t" "forest_ok t f"
    "forest_str f (Suc t) = []"
proof -
  obtain f t where f: "init_forest 48 0 n (\<lambda>_. None) = Some f" "t \<le> 45" "n < ml t"
      "\<forall>j \<le> t. f j = Some (CORD_EMPTY, 0)"
    using init_forest_spec [of 0 "\<lambda>_. None" 48 n] assms by auto
  then have "forest_ok t f" by (simp add: forest_ok_def)
  moreover have "forest_str f (Suc t) = []"
    using f(4) by (auto simp: forest_str_def tree_str_def)
  ultimately show ?thesis using f that by (simp add: CORD_init_forest_def MAX_DEPTH_def)
qed

lemma CORD_init_forest_too_long:
  "CORD_len_limit \<le> n \<Longrightarrow> CORD_init_forest (\<lambda>_. None) n = None"
  using init_forest_spec [of 0 "\<lambda>_. None" 48 n] by (simp add: CORD_init_forest_def MAX_DEPTH_def)

text \<open>The cords that reach \<open>CORD_balance\<close>: well-formed ones, and a new node of full depth.\<close>

definition balance_arg :: "cord \<Rightarrow> bool" where
  "balance_arg x \<longleftrightarrow> cord_wf x \<or> (\<exists>l r. x = concat_node l r \<and> joinable l r
     \<and> DEPTH (concat_node l r) \<ge> MAX_DEPTH)"

lemma balance_arg_insert:
  assumes "balance_arg x" "x \<noteq> CORD_EMPTY" "forest_ok t f" "t \<le> 45" "forest_str f (Suc t) = []"
    "length (cord_str x) < ml t"
  obtains f' where "\<And>bal. balance_insert_with (cat_with bal) x (length (cord_str x)) f = Some f'"
    "forest_ok t f'" "forest_str f' (Suc t) = cord_str x"
proof (cases "cord_wf x")
  case True
  then show ?thesis using balance_insert_spec [OF True assms(2-4)] assms(5,6) that by auto
next
  case False
  then obtain l r where x: "x = concat_node l r" "joinable l r" "DEPTH (concat_node l r) \<ge> MAX_DEPTH"
    using assms(1) unfolding balance_arg_def by blast
  have j: "cord_wf l" "cord_wf r" "l \<noteq> CORD_EMPTY" "r \<noteq> CORD_EMPTY" using x(2) by (simp_all add: joinable_def)
  obtain f1 where 1: "\<And>bal. balance_insert_with (cat_with bal) l (length (cord_str l)) f = Some f1"
      "forest_ok t f1" "forest_str f1 (Suc t) = cord_str l"
    using balance_insert_spec [OF j(1,3) assms(3,4)] assms(5,6) x(1) by auto
  obtain f2 where 2: "\<And>bal. balance_insert_with (cat_with bal) r (length (cord_str r)) f1 = Some f2"
      "forest_ok t f2" "forest_str f2 (Suc t) = cord_str l @ cord_str r"
    using balance_insert_spec [OF j(2,4) 1(2) assms(4)] assms(6) x(1) 1(3) by auto
  show ?thesis
    using that [of f2] 1 2 balance_insert_node [OF x(2)] x by simp
qed

lemma LEN_balance_arg:
  "balance_arg x \<Longrightarrow> x \<noteq> CORD_EMPTY \<Longrightarrow> \<not> CORD_IS_STRING x \<Longrightarrow> LEN x = length (cord_str x)"
  using LEN_cord_str [of x] unfolding balance_arg_def by fastforce

lemma balance_with_spec:
  assumes "balance_arg x" "length (cord_str x) < CORD_len_limit"
  obtains c where "\<And>bal. balance_with (cat_with bal) x = Some c" "cord_wf c" "cord_str c = cord_str x"
    "x \<noteq> CORD_EMPTY \<Longrightarrow> ml (DEPTH c - 2) \<le> length (cord_str c)"
proof (cases "x = CORD_EMPTY \<or> CORD_IS_STRING x")
  case True
  then have "cord_wf x" using assms(1) unfolding balance_arg_def by auto
  moreover have "DEPTH x = 0" using True by (cases x) auto
  moreover have "ml (DEPTH x - 2) \<le> length (cord_str x)" if "x \<noteq> CORD_EMPTY"
    using calculation cord_str_nonempty [OF _ that] by (simp add: Suc_le_eq)
  ultimately show ?thesis using True that [of x] by (auto simp: balance_with_def)
next
  case False
  then have len: "LEN x = length (cord_str x)" using LEN_balance_arg [OF assms(1)] by simp
  obtain f t where f: "CORD_init_forest (\<lambda>_. None) (LEN x) = Some f" "t \<le> 45" "length (cord_str x) < ml t"
      "forest_ok t f" "forest_str f (Suc t) = []"
    using CORD_init_forest_ok [OF assms(2)] len by metis
  obtain f' where f': "\<And>bal. balance_insert_with (cat_with bal) x (length (cord_str x)) f = Some f'"
      "forest_ok t f'" "forest_str f' (Suc t) = cord_str x"
    using balance_arg_insert [OF assms(1) _ f(4,2,5,3)] False by blast
  have "length (forest_str f' (Suc t)) < 2 ^ 32"
    using f'(3) assms(2) by (simp add: CORD_len_limit_def)
  from concat_forest_spec [OF f'(2) f(2) this collected_0] obtain c where
    c: "\<And>bal. concat_forest_with (cat_with bal) f' (length (cord_str x)) = Some c" "cord_wf c"
      "cord_str c = cord_str x" "c = CORD_EMPTY \<or> ml (DEPTH c - 2) \<le> length (cord_str c)"
    using f'(3) by (auto simp: concat_forest_with_def)
  have "\<exists>l. l \<noteq> [] \<and> cord_str x = l"
    using assms(1) False cord_str_nonempty [of x] cord_str_nonempty unfolding balance_arg_def joinable_def
    by fastforce
  then have "c \<noteq> CORD_EMPTY" using c(3) by auto
  then show ?thesis
    using that [of c] False f f' c len by (auto simp: balance_with_def)
qed


section \<open>Concatenation with balancing\<close>

lemma CORD_balance_arg:
  assumes "balance_arg x" "length (cord_str x) < CORD_len_limit"
  obtains c where "CORD_balance x = Some c" "cord_wf c" "cord_str c = cord_str x"
    "x \<noteq> CORD_EMPTY \<Longrightarrow> ml (DEPTH c - 2) \<le> length (cord_str c)"
    "\<And>n. balance_depth (Suc n) x = Some c"
  using balance_with_spec [OF assms] by (metis CORD_balance_def One_nat_def balance_depth.simps(2))

lemma cat_outcome_balance:
  assumes "cat_outcome x y r" "length (cord_str x) + length (cord_str y) < CORD_len_limit"
  obtains c where "r CORD_balance = Some c" "cord_wf c" "cord_str c = cord_str x @ cord_str y"
  using assms(1) unfolding cat_outcome_def
proof (elim disjE exE conjE)
  fix s
  assume "\<forall>bal. r bal = Some (Str s)" "cord_wf (Str s)" "s = cord_str x @ cord_str y"
  then show ?thesis using that [of "Str s"] by simp
next
  fix x' y'
  assume j: "joinable x' y'" "cord_str x' @ cord_str y' = cord_str x @ cord_str y"
    and r: "\<forall>bal. r bal = (if Suc (max (DEPTH x') (DEPTH y')) \<ge> MAX_DEPTH
             then bal (concat_node x' y') else Some (concat_node x' y'))"
  have len: "length (cord_str x') + length (cord_str y') < CORD_len_limit"
    using arg_cong [OF j(2), of length] assms(2) by simp
  show ?thesis
  proof (cases "Suc (max (DEPTH x') (DEPTH y')) \<ge> MAX_DEPTH")
    case True
    then have "balance_arg (concat_node x' y')" using j(1) unfolding balance_arg_def by auto
    then obtain c where "CORD_balance (concat_node x' y') = Some c" "cord_wf c"
        "cord_str c = cord_str (concat_node x' y')"
      using CORD_balance_arg [of "concat_node x' y'"] len by (metis concat_node_simps(1) length_append)
    then show ?thesis using that [of c] r True j(2) by simp
  next
    case False
    then show ?thesis using that [of "concat_node x' y'"] r j(2) cord_wf_concat_node [OF j(1)] by simp
  qed
qed

lemma CORD_cat_spec:
  assumes "cord_wf x" "cord_wf y" "length (cord_str x) + length (cord_str y) < CORD_len_limit"
  obtains c where "CORD_cat x y = Some c" "cord_wf c" "cord_str c = cord_str x @ cord_str y"
proof (cases "x = CORD_EMPTY \<or> y = CORD_EMPTY")
  case True
  then have "CORD_cat x y = Some (if x = CORD_EMPTY then y else x)"
    by (auto simp: CORD_cat_def cat_with_def)
  with True show ?thesis using assms that by auto
next
  case False
  then have "joinable x y" using assms by (simp add: joinable_def CORD_len_limit_def)
  from cat_outcome_balance [OF cat_with_outcome [OF this] assms(3)] that show ?thesis
    unfolding CORD_cat_def by blast
qed

lemma CORD_cat_char_star_spec:
  assumes "cord_wf x" "cord_wf (Str y)" "length (cord_str x) + length y < CORD_len_limit"
  obtains c where "CORD_cat_char_star x y (length y) = Some c" "cord_wf c" "cord_str c = cord_str x @ y"
proof (cases "x = CORD_EMPTY")
  case True
  then show ?thesis using assms that by (simp add: CORD_cat_char_star_def cat_char_star_with_def)
next
  case False
  then have j: "joinable x (Str y)" using assms by (simp add: joinable_def CORD_len_limit_def)
  have "length (cord_str x) + length (cord_str (Str y)) < CORD_len_limit" using assms(3) by simp
  from cat_outcome_balance [OF cat_char_star_outcome [OF j] this] that show ?thesis
    unfolding CORD_cat_char_star_def by auto
qed

section \<open>The contract of concatenation\<close>

text \<open>
  What clients of the package rely on: concatenation of well-formed cords that stay below
  the length limit succeeds and spells the concatenated string.
\<close>

locale cord_concat =
  fixes spell :: "'c \<Rightarrow> string" and valid :: "'c \<Rightarrow> bool" and cat :: "'c \<Rightarrow> 'c \<Rightarrow> 'c option"
    and limit :: nat
  assumes cat_spec: "valid x \<Longrightarrow> valid y \<Longrightarrow> length (spell x) + length (spell y) < limit \<Longrightarrow>
      \<exists>c. cat x y = Some c \<and> valid c \<and> spell c = spell x @ spell y"
begin

text \<open>Appending a list of cords from the left, as \<open>CORD_catn\<close> does.\<close>

lemma cat_fold:
  assumes "valid x" "list_all valid ys" "length (spell x) + length (concat (map spell ys)) < limit"
  shows "\<exists>c. foldl (\<lambda>r y. r \<bind> (\<lambda>x. cat x y)) (Some x) ys = Some c \<and> valid c
           \<and> spell c = spell x @ concat (map spell ys)"
  using assms
proof (induction ys arbitrary: x)
  case (Cons y ys)
  then have "length (spell x) + length (spell y) < limit" by simp
  then obtain c where c: "cat x y = Some c" "valid c" "spell c = spell x @ spell y"
    using cat_spec [of x y] Cons.prems by auto
  then show ?case using Cons.IH [of c] Cons.prems by simp
qed simp

lemma cat_assoc:
  assumes "valid x" "valid y" "valid z" "length (spell x) + length (spell y) + length (spell z) < limit"
  shows "\<exists>a b. cat x y \<bind> (\<lambda>c. cat c z) = Some a \<and> cat y z \<bind> cat x = Some b \<and> spell a = spell b"
proof -
  obtain c where c: "cat x y = Some c" "valid c" "spell c = spell x @ spell y"
    using cat_spec [of x y] assms by auto
  obtain d where d: "cat y z = Some d" "valid d" "spell d = spell y @ spell z"
    using cat_spec [of y z] assms by auto
  show ?thesis using cat_spec [of c z] cat_spec [of x d] c d assms by auto
qed

end

interpretation cords: cord_concat cord_str cord_wf CORD_cat CORD_len_limit
  by unfold_locales (metis CORD_cat_spec)

section \<open>Properties\<close>

text \<open>
  C12. \<open>CORD_cat\<close> is string concatenation: for well-formed cords whose total length is below
  the limit of the balancing table (2971215073 on a 32-bit machine) it returns a well-formed
  cord (in particular one of depth below \<open>MAX_DEPTH\<close>) that spells the two strings in a row,
  whether or not the pieces are merged or rebalanced on the way.
\<close>
theorem CORD_cat_correct:
  assumes "cord_wf x" "cord_wf y" "length (cord_str x) + length (cord_str y) < CORD_len_limit"
  shows "\<exists>c. CORD_cat x y = Some c \<and> cord_wf c \<and> cord_str c = cord_str x @ cord_str y"
  using CORD_cat_spec [OF assms] by metis

text \<open>
  C13. \<open>CORD_balance\<close> returns: it never calls itself again through \<open>CORD_cat\<close> (every bound on
  the nesting gives the same answer), the result is well-formed and spells the same string,
  and its depth is logarithmic in its length: a cord of depth d holds at least the
  Fibonacci number \<open>min_len[d - 2]\<close> of characters.
\<close>
theorem CORD_balance_correct:
  assumes "cord_wf x" "x \<noteq> CORD_EMPTY" "length (cord_str x) < CORD_len_limit"
  shows "\<exists>c. CORD_balance x = Some c \<and> \<not> (\<exists>n. balance_depth (Suc n) x \<noteq> Some c)
    \<and> cord_wf c \<and> cord_str c = cord_str x \<and> CORD_init_min_len ! (DEPTH c - 2) \<le> CORD_len c"
proof -
  have "balance_arg x" using assms(1) by (simp add: balance_arg_def)
  from CORD_balance_arg [OF this assms(3)] assms(2) show ?thesis by (metis CORD_len_cord_str)
qed

text \<open>
  C21. \<open>CORD_balance\<close> gives up with "Cord too long" on every cord that is not a flat string
  and reaches the limit of the table, although such a cord can be well-formed.
\<close>
theorem CORD_balance_too_long:
  assumes "cord_wf x" "\<not> CORD_IS_STRING x" "CORD_len_limit \<le> CORD_len x"
  shows "CORD_balance x = None"
proof -
  have "x \<noteq> CORD_EMPTY" using assms(3) by (auto simp: CORD_len_def CORD_len_limit_def)
  moreover from this have "LEN x = CORD_len x" using assms(1,2) by (simp add: LEN_cord_str)
  ultimately show ?thesis
    using assms CORD_init_forest_too_long [of "LEN x"]
    by (simp add: CORD_balance_def balance_with_def)
qed

text \<open>Concrete cords: two strings too long to be merged, and a long function node.\<close>

definition sample_left :: cord where
  "sample_left = Str ''garbage collected''"

definition sample_right :: cord where
  "sample_right = Str ''strings''"

theorem CORD_cat_correct_witness:
  "\<exists>c. CORD_cat sample_left sample_right = Some c \<and> cord_wf c \<and> cord_str c = ''garbage collectedstrings''"
  using CORD_cat_correct [of sample_left sample_right]
  by (simp add: sample_left_def sample_right_def CORD_len_limit_def)

theorem CORD_balance_correct_witness:
  "\<exists>c. CORD_balance (Function 1000 (\<lambda>_. NUL)) = Some c \<and> length (cord_str c) = 1000"
proof -
  have "length (cord_str (Function 1000 (\<lambda>_. NUL))) < CORD_len_limit"
    by (simp add: CORD_len_limit_def)
  then show ?thesis
    using CORD_balance_correct [of "Function 1000 (\<lambda>_. NUL)"] by (auto simp del: cord_str.simps) auto
qed

theorem CORD_balance_too_long_witness: "CORD_balance (Function 3000000000 (\<lambda>_. NUL)) = None"
  by (rule CORD_balance_too_long) (simp_all add: CORD_len_limit_def CORD_len_def)

end
