(* ===== verification/Cord_Ops.thy ===== *)
theory Cord_Ops
  imports Cord_Balance
begin

text \<open>
  Function nodes, substrings and the two iterators of the cord package
  (\<^verbatim>\<open>bdwgc/cord/cordbscs.c\<close>). A client function of an iterator takes and returns the client
  data; its truth value is the nonzero result that stops the iteration.
\<close>

section \<open>Function nodes and substrings\<close>

definition CORD_from_fn :: "(nat \<Rightarrow> char) \<Rightarrow> nat \<Rightarrow> cord" where
  "CORD_from_fn fn len =
     (if len = 0 then CORD_EMPTY
      else if len \<le> SHORT_LIMIT \<and> NUL \<notin> set (map fn [0 ..< len]) then Str (map fn [0 ..< len])
      else Function len fn)"

text \<open>
  \<open>CORD_substr_closure\<close> stores the header byte into whatever \<open>CORD_from_fn\<close> returned: the
  header of a function node, the second character of a short string (for a single character
  its terminator), or the null page.
\<close>

definition SUBSTR_HDR :: char where
  "SUBSTR_HDR = CHR 0x06"

definition set_substr_header :: "cord \<Rightarrow> cord \<Rightarrow> cord option" where
  "set_substr_header result node =
     (case result of
        Function n f \<Rightarrow> Some node
      | Str s \<Rightarrow> (if 1 < length s then Some (Str (s[1 := SUBSTR_HDR])) else None)
      | _ \<Rightarrow> None)"

definition CORD_index_access_fn :: "string \<Rightarrow> nat \<Rightarrow> nat \<Rightarrow> char" where
  "CORD_index_access_fn sa_cord sa_index i = str_char sa_cord (wadd i sa_index)"

definition CORD_apply_access_fn :: "cord \<Rightarrow> nat \<Rightarrow> nat \<Rightarrow> char" where
  "CORD_apply_access_fn sa_cord sa_index i = node_fn sa_cord (wadd i sa_index)"

definition substr_closure_index :: "string \<Rightarrow> nat \<Rightarrow> nat \<Rightarrow> cord option" where
  "substr_closure_index x i n =
     set_substr_header (CORD_from_fn (CORD_index_access_fn x i) n) (Index_substr n x i)"

definition substr_closure_apply :: "cord \<Rightarrow> nat \<Rightarrow> nat \<Rightarrow> cord option" where
  "substr_closure_apply x i n =
     set_substr_header (CORD_from_fn (CORD_apply_access_fn x i) n) (Apply_substr n x i)"

definition SUBSTR_LIMIT :: nat where
  [gc_consts]: "SUBSTR_LIMIT = 10 * SHORT_LIMIT"

text \<open>
  The characters that the loop over \<open>int j\<close> fetches from a function node: from i up to
  \<open>lim = i + n\<close>, both converted to signed integers.
\<close>

definition function_chars :: "cord \<Rightarrow> nat \<Rightarrow> nat \<Rightarrow> string" where
  "function_chars x i n =
     map (\<lambda>j. node_fn x (nat (j mod 2 ^ 32))) [signed_word i .. signed_word (i + n) - 1]"

definition substr_function :: "cord \<Rightarrow> nat \<Rightarrow> nat \<Rightarrow> cord option \<Rightarrow> cord option" where
  "substr_function x i n closure =
     (if n > SUBSTR_LIMIT then closure
      else if NUL \<in> set (function_chars x i n) then substr_closure_apply x i n
      else Some (Str (function_chars x i n)))"

fun CORD_substr_checked :: "cord \<Rightarrow> nat \<Rightarrow> nat \<Rightarrow> cord option" where
  "CORD_substr_checked CORD_EMPTY i n = None"
| "CORD_substr_checked (Str s) i n =
     (if n > SUBSTR_LIMIT then substr_closure_index s i n
      else Some (Str (take n (drop i s))))"
| "CORD_substr_checked (Concatenation d k len l r) i n =
     (let left_len = LEFT_LEN (Concatenation d k len l r);
          right_len = wsub len left_len in
      if i \<ge> left_len
      then (if n = right_len then Some r else CORD_substr_checked r (i - left_len) n)
      else if wadd i n \<le> left_len
      then (if n = left_len then Some l else CORD_substr_checked l i n)
      else (let left_part_len = left_len - i in
            do { left_part \<leftarrow> (if i = 0 then Some l else CORD_substr_checked l i left_part_len);
                 right_part \<leftarrow> (if wadd i n = wadd right_len left_len then Some r
                                else CORD_substr_checked r 0 (wsub n left_part_len));
                 CORD_cat left_part right_part }))"
| "CORD_substr_checked (Function m f) i n =
     substr_function (Function m f) i n (substr_closure_apply (Function m f) i n)"
| "CORD_substr_checked (Index_substr m s k) i n =
     substr_function (Index_substr m s k) i n (substr_closure_index s (wadd i k) n)"
| "CORD_substr_checked (Apply_substr m c k) i n =
     substr_function (Apply_substr m c k) i n (substr_closure_apply c (wadd i k) n)"

definition CORD_substr :: "cord \<Rightarrow> nat \<Rightarrow> nat \<Rightarrow> cord option" where
  "CORD_substr x i n =
     (let len = CORD_len x in
      if i \<ge> len \<or> n = 0 then Some CORD_EMPTY
      else CORD_substr_checked x i (if wadd i n > len then len - i else n))"

section \<open>Iterators\<close>

fun iter_chars :: "(char \<Rightarrow> 's \<Rightarrow> bool \<times> 's) \<Rightarrow> string \<Rightarrow> 's \<Rightarrow> bool \<times> 's" where
  "iter_chars f1 [] s = (False, s)"
| "iter_chars f1 (c # cs) s =
     (case f1 c s of (stop, s') \<Rightarrow> if stop then (True, s') else iter_chars f1 cs s')"

text \<open>\<open>f2\<close> is \<open>None\<close> for \<open>CORD_NO_FN\<close>.\<close>

fun CORD_iter5 ::
    "cord \<Rightarrow> nat \<Rightarrow> (char \<Rightarrow> 's \<Rightarrow> bool \<times> 's) \<Rightarrow> (string \<Rightarrow> 's \<Rightarrow> bool \<times> 's) option \<Rightarrow> 's
      \<Rightarrow> (bool \<times> 's) option" where
  "CORD_iter5 CORD_EMPTY i f1 f2 s = Some (False, s)"
| "CORD_iter5 (Str t) i f1 f2 s =
     (if str_char t i = NUL then None
      else case f2 of
        Some g \<Rightarrow> Some (g (drop i t) s)
      | None \<Rightarrow> Some (iter_chars f1 (drop i t) s))"
| "CORD_iter5 (Concatenation d k n l r) i f1 f2 s =
     (if i > 0 \<and> i \<ge> LEFT_LEN (Concatenation d k n l r)
      then CORD_iter5 r (i - LEFT_LEN (Concatenation d k n l r)) f1 f2 s
      else do { (stop, s') \<leftarrow> CORD_iter5 l i f1 f2 s;
                if stop then Some (True, s') else CORD_iter5 r 0 f1 f2 s' })"
| "CORD_iter5 (Function n f) i f1 f2 s =
     Some (iter_chars f1 (map (node_fn (Function n f)) [i ..< n]) s)"
| "CORD_iter5 (Index_substr n t k) i f1 f2 s =
     Some (iter_chars f1 (map (node_fn (Index_substr n t k)) [i ..< n]) s)"
| "CORD_iter5 (Apply_substr n c k) i f1 f2 s =
     Some (iter_chars f1 (map (node_fn (Apply_substr n c k)) [i ..< n]) s)"

definition CORD_iter :: "cord \<Rightarrow> (char \<Rightarrow> 's \<Rightarrow> bool \<times> 's) \<Rightarrow> 's \<Rightarrow> (bool \<times> 's) option" where
  "CORD_iter x f1 s = CORD_iter5 x 0 f1 None s"

fun CORD_riter4 ::
    "cord \<Rightarrow> nat \<Rightarrow> (char \<Rightarrow> 's \<Rightarrow> bool \<times> 's) \<Rightarrow> 's \<Rightarrow> (bool \<times> 's) option" where
  "CORD_riter4 CORD_EMPTY i f1 s = Some (False, s)"
| "CORD_riter4 (Str t) i f1 s =
     (if str_char t i = NUL then None else Some (iter_chars f1 (rev (take (Suc i) t)) s))"
| "CORD_riter4 (Concatenation d k n l r) i f1 s =
     (let left_len = LEFT_LEN (Concatenation d k n l r) in
      if i \<ge> left_len
      then do { (stop, s') \<leftarrow> CORD_riter4 r (i - left_len) f1 s;
                if stop then Some (True, s') else CORD_riter4 l (wsub left_len 1) f1 s' }
      else CORD_riter4 l i f1 s)"
| "CORD_riter4 (Function n f) i f1 s =
     Some (iter_chars f1 (map (node_fn (Function n f)) (rev [0 ..< Suc i])) s)"
| "CORD_riter4 (Index_substr n t k) i f1 s =
     Some (iter_chars f1 (map (node_fn (Index_substr n t k)) (rev [0 ..< Suc i])) s)"
| "CORD_riter4 (Apply_substr n c k) i f1 s =
     Some (iter_chars f1 (map (node_fn (Apply_substr n c k)) (rev [0 ..< Suc i])) s)"

definition CORD_riter :: "cord \<Rightarrow> (char \<Rightarrow> 's \<Rightarrow> bool \<times> 's) \<Rightarrow> 's \<Rightarrow> (bool \<times> 's) option" where
  "CORD_riter x f1 s = CORD_riter4 x (wsub (CORD_len x) 1) f1 s"

section \<open>Substrings\<close>

lemma CORD_from_fn_spec:
  assumes "n < 2 ^ 32"
  shows "cord_wf (CORD_from_fn f n)" "cord_str (CORD_from_fn f n) = map f [0 ..< n]"
  using assms by (auto simp: CORD_from_fn_def)

text \<open>When a closure is asked for, it is a node: long, or holding a NUL.\<close>

lemma set_substr_header_node:
  assumes "0 < n" "SHORT_LIMIT < n \<or> NUL \<in> set (map f [0 ..< n])"
  shows "set_substr_header (CORD_from_fn f n) node = Some node"
  using assms by (auto simp: set_substr_header_def CORD_from_fn_def)

lemma drop_map_upt: "drop i (map f [0 ..< m]) = map f [i ..< m]"
  by (simp add: drop_map)

lemma take_drop_map_upt:
  "i + n \<le> m \<Longrightarrow> take n (drop i (map f [0 ..< m])) = map (\<lambda>j. f (j + i)) [0 ..< n]"
  by (rule nth_equalityI) (auto simp: add.commute)

lemma node_fn_nth: "IS_FUNCTION x \<Longrightarrow> j < LEN x \<Longrightarrow> node_fn x j = cord_str x ! j"
  by (simp add: cord_str_function)

lemma substr_closure_index_spec:
  assumes "NUL \<notin> set s" "length s < 2 ^ 32" "SHORT_LIMIT < n" "i + n \<le> length s"
  shows "substr_closure_index s i n = Some (Index_substr n s i)" "cord_wf (Index_substr n s i)"
    "cord_str (Index_substr n s i) = take n (drop i s)"
proof -
  show "substr_closure_index s i n = Some (Index_substr n s i)"
    unfolding substr_closure_index_def using assms by (intro set_substr_header_node) auto
  show "cord_wf (Index_substr n s i)" using assms by simp
  show "cord_str (Index_substr n s i) = take n (drop i s)"
    by (rule nth_equalityI) (use assms in \<open>auto simp: str_char_def add.commute\<close>)
qed

lemma substr_closure_apply_spec:
  assumes "cord_wf x" "IS_FUNCTION x" "0 < n" "i + n \<le> LEN x"
    "SHORT_LIMIT < n \<or> NUL \<in> set (take n (drop i (cord_str x)))"
  shows "substr_closure_apply x i n = Some (Apply_substr n x i)" "cord_wf (Apply_substr n x i)"
    "cord_str (Apply_substr n x i) = take n (drop i (cord_str x))"
proof -
  have l32: "LEN x < 2 ^ 32"
    using cord_len_bound [OF assms(1)] LEN_cord_str [OF assms(1)] IS_FUNCTION_node [OF assms(2)] by simp
  have eq: "map (CORD_apply_access_fn x i) [0 ..< n] = take n (drop i (cord_str x))"
    unfolding cord_str_function [OF assms(2)] take_drop_map_upt [OF assms(4)]
    using assms(4) l32 by (auto simp: CORD_apply_access_fn_def)
  show "substr_closure_apply x i n = Some (Apply_substr n x i)"
    unfolding substr_closure_apply_def by (rule set_substr_header_node) (use assms eq in auto)
  show "cord_wf (Apply_substr n x i)" using assms by simp
  show "cord_str (Apply_substr n x i) = take n (drop i (cord_str x))"
    using eq by (simp add: CORD_apply_access_fn_def [abs_def])
qed

lemma signed_word_small [simp]: "x < 2 ^ 31 \<Longrightarrow> signed_word x = int x"
  by (simp add: signed_word_def)

lemma upto_int_upt: "[int i .. int j - 1] = map int [i ..< j]"
proof (induction j)
  case (Suc j)
  then show ?case
    by (cases "i \<le> j") (auto simp: upto_rec2 [of "int i" "int j"])
qed simp

lemma function_chars_spec:
  assumes "cord_wf x" "IS_FUNCTION x" "i + n \<le> LEN x" "LEN x < 2 ^ 31"
  shows "function_chars x i n = take n (drop i (cord_str x))"
proof -
  have "function_chars x i n = map (\<lambda>j. node_fn x j) [i ..< i + n]"
    using assms(3,4) upto_int_upt [of i "i + n"]
    by (auto simp: function_chars_def nat_mod_distrib)
  also have "\<dots> = take n (drop i (cord_str x))"
    using assms(3) by (simp add: cord_str_function [OF assms(2)] drop_map take_map drop_upt take_upt)
  finally show ?thesis .
qed


definition substr_result :: "cord \<Rightarrow> nat \<Rightarrow> nat \<Rightarrow> cord option \<Rightarrow> bool" where
  "substr_result x i n r \<longleftrightarrow> (\<exists>c. r = Some c \<and> cord_wf c \<and> cord_str c = take n (drop i (cord_str x)))"

lemma substr_resultI:
  "r = Some c \<Longrightarrow> cord_wf c \<Longrightarrow> cord_str c = take n (drop i (cord_str x)) \<Longrightarrow> substr_result x i n r"
  by (auto simp: substr_result_def)

lemma substr_function_spec:
  assumes x: "cord_wf x" "IS_FUNCTION x" "0 < n" "i + n \<le> LEN x" "LEN x < 2 ^ 31"
    and closure: "SUBSTR_LIMIT < n \<Longrightarrow> substr_result x i n closure"
  shows "substr_result x i n (substr_function x i n closure)"
proof -
  let ?s = "take n (drop i (cord_str x))"
  have chars: "function_chars x i n = ?s" using function_chars_spec x by blast
  show ?thesis
  proof (cases "SUBSTR_LIMIT < n \<or> NUL \<in> set ?s")
    case True
    then show ?thesis
      using closure substr_closure_apply_spec [OF x(1-4)] chars
      by (cases "SUBSTR_LIMIT < n") (auto simp: substr_function_def intro: substr_resultI)
  next
    case False
    have "length (cord_str x) = LEN x" by (simp add: cord_str_function [OF x(2)])
    then show ?thesis using False x chars
      by (intro substr_resultI [of _ "Str ?s"]) (auto simp: substr_function_def)
  qed
qed

lemma take_drop_inside:
  "i + n \<le> m \<Longrightarrow> take n (drop i (take m (drop k s))) = take n (drop (i + k) s)"
  by (simp add: drop_take add.commute)

lemma CORD_substr_checked_spec:
  assumes "cord_wf x" "0 < n" "i + n \<le> length (cord_str x)" "length (cord_str x) < 2 ^ 31"
  shows "substr_result x i n (CORD_substr_checked x i n)"
  using assms
proof (induction x arbitrary: i n)
  case CORD_EMPTY
  then show ?case by simp
next
  case (Str s)
  show ?case
  proof (cases "SUBSTR_LIMIT < n")
    case True
    then show ?thesis using Str substr_closure_index_spec [of s n i]
      by (auto simp: SUBSTR_LIMIT_def SHORT_LIMIT_def intro: substr_resultI)
  next
    case False
    have "NUL \<notin> set (take n (drop i s))"
      using Str.prems(1) by (auto dest: in_set_takeD in_set_dropD)
    with False Str.prems show ?thesis
      by (intro substr_resultI [of _ "Str (take n (drop i s))"]) auto
  qed
next
  case (Concatenation d k m l r)
  note wf = Concatenation.prems(1)
  let ?ll = "length (cord_str l)" and ?rl = "length (cord_str r)"
  have w: "cord_wf l" "cord_wf r" "m = ?ll + ?rl" using wf by simp_all
  have bound: "i + n \<le> ?ll + ?rl" "?ll + ?rl < 2 ^ 31" using Concatenation.prems by simp_all
  have eqs: "LEFT_LEN (Concatenation d k m l r) = ?ll" "wsub m ?ll = ?rl" "wadd i n = i + n"
      "wadd ?rl ?ll = ?ll + ?rl"
    using LEFT_LEN_cord_str [OF wf] w(3) bound by simp_all
  show ?case
  proof (cases "?ll \<le> i \<or> i + n \<le> ?ll")
    case True
    have right: ?thesis if i: "?ll \<le> i"
    proof -
      have "CORD_substr_checked (Concatenation d k m l r) i n
          = (if n = ?rl then Some r else CORD_substr_checked r (i - ?ll) n)"
        using i by (simp only: CORD_substr_checked.simps Let_def eqs if_True)
      moreover have "substr_result r (i - ?ll) n (if n = ?rl then Some r else CORD_substr_checked r (i - ?ll) n)"
      proof (cases "n = ?rl")
        case True
        then have "i = ?ll" using i bound by simp
        then show ?thesis using True w(2) by (simp add: substr_result_def)
      next
        case False
        then show ?thesis
          using Concatenation.IH(2) [OF w(2) Concatenation.prems(2), of "i - ?ll"] i bound by simp
      qed
      ultimately show ?thesis using i by (simp add: substr_result_def)
    qed
    have left: ?thesis if i: "i < ?ll" "i + n \<le> ?ll"
    proof -
      have "CORD_substr_checked (Concatenation d k m l r) i n
          = (if n = ?ll then Some l else CORD_substr_checked l i n)"
        using i by (simp only: CORD_substr_checked.simps Let_def eqs) simp
      moreover have "substr_result l i n (if n = ?ll then Some l else CORD_substr_checked l i n)"
      proof (cases "n = ?ll")
        case True
        then have "i = 0" using i by simp
        then show ?thesis using True w(1) by (simp add: substr_result_def)
      next
        case False
        then show ?thesis
          using Concatenation.IH(1) [OF w(1) Concatenation.prems(2), of i] i bound by simp
      qed
      ultimately show ?thesis using i by (simp add: substr_result_def)
    qed
    show ?thesis using True left right by (cases "?ll \<le> i") auto
  next
    case False
    define lp where "lp = (if i = 0 then Some l else CORD_substr_checked l i (?ll - i))"
    define rp where "rp = (if i + n = ?ll + ?rl then Some r else CORD_substr_checked r 0 (n - (?ll - i)))"
    have L: "substr_result l i (?ll - i) lp"
      using Concatenation.IH(1) [OF w(1), of "?ll - i" i] w(1) False bound
      by (auto simp: lp_def substr_result_def)
    have R: "substr_result r 0 (n - (?ll - i)) rp"
    proof (cases "i + n = ?ll + ?rl")
      case True
      then show ?thesis using w(2) False by (auto simp: rp_def intro!: substr_resultI [of _ r])
    next
      case ne: False
      have "0 < n - (?ll - i)" "0 + (n - (?ll - i)) \<le> ?rl" "?rl < 2 ^ 31" using False bound by auto
      from Concatenation.IH(2) [OF w(2) this] ne show ?thesis by (simp add: rp_def)
    qed
    obtain lc rc where c: "lp = Some lc" "cord_wf lc" "cord_str lc = drop i (cord_str l)"
        "rp = Some rc" "cord_wf rc" "cord_str rc = take (n - (?ll - i)) (cord_str r)"
      using L R by (auto simp: substr_result_def)
    have len: "length (cord_str lc) + length (cord_str rc) < CORD_len_limit"
      using c bound by (simp add: CORD_len_limit_def)
    obtain res where res: "CORD_cat lc rc = Some res" "cord_wf res" "cord_str res = cord_str lc @ cord_str rc"
      using CORD_cat_spec [OF c(2,5) len] by blast
    have ws: "wsub n (?ll - i) = n - (?ll - i)" by (rule wsub_id) (use False bound in auto)
    have guards: "(?ll \<le> i) = False" "(i + n \<le> ?ll) = False" using False by simp_all
    have "CORD_substr_checked (Concatenation d k m l r) i n
        = do { left_part \<leftarrow> lp; right_part \<leftarrow> rp; CORD_cat left_part right_part }"
      unfolding lp_def rp_def
      by (simp only: CORD_substr_checked.simps Let_def eqs guards if_False ws)
    also have "\<dots> = Some res" using c(1,4) res(1) by simp
    finally show ?thesis
      by (rule substr_resultI) (use c res False in auto)
  qed
next
  case (Function m f)
  have len: "length (cord_str (Function m f)) = m" by simp
  have "substr_result (Function m f) i n (substr_closure_apply (Function m f) i n)" if "SUBSTR_LIMIT < n"
    using that substr_closure_apply_spec [of "Function m f" n i] Function.prems
    by (intro substr_resultI [of _ "Apply_substr n (Function m f) i"])
      (simp_all add: SUBSTR_LIMIT_def SHORT_LIMIT_def len del: cord_str.simps)
  then show ?case unfolding CORD_substr_checked.simps
    by (intro substr_function_spec) (use Function.prems in auto)
next
  case (Index_substr m s k)
  have w: "k + m \<le> length s" "NUL \<notin> set s" "length s < 2 ^ 32" using Index_substr.prems by simp_all
  have str: "cord_str (Index_substr m s k) = take m (drop k s)"
    by (rule nth_equalityI) (use w in \<open>auto simp: str_char_def add.commute\<close>)
  have "substr_result (Index_substr m s k) i n (substr_closure_index s (wadd i k) n)" if "SUBSTR_LIMIT < n"
    using that substr_closure_index_spec [of s n "i + k"] w Index_substr.prems take_drop_inside [of i n m k s]
    unfolding str by (intro substr_resultI [of _ "Index_substr n s (i + k)"])
      (auto simp: SUBSTR_LIMIT_def SHORT_LIMIT_def str simp del: cord_str.simps)
  then show ?case unfolding CORD_substr_checked.simps
    by (intro substr_function_spec) (use Index_substr.prems in auto)
next
  case (Apply_substr m c k)
  have w: "cord_wf c" "IS_FUNCTION c" "k + m \<le> LEN c" using Apply_substr.prems by simp_all
  have l32: "LEN c < 2 ^ 32"
    using cord_len_bound [OF w(1)] LEN_cord_str [OF w(1)] IS_FUNCTION_node [OF w(2)] by simp
  have str: "cord_str (Apply_substr m c k) = take m (drop k (cord_str c))"
    by (rule nth_equalityI) (use w l32 in \<open>auto simp: cord_str_function add.commute\<close>)
  have "substr_result (Apply_substr m c k) i n (substr_closure_apply c (wadd i k) n)" if "SUBSTR_LIMIT < n"
    using that substr_closure_apply_spec [of c n "i + k"] w l32 Apply_substr.prems
      take_drop_inside [of i n m k "cord_str c"]
    unfolding str by (intro substr_resultI [of _ "Apply_substr n c (i + k)"])
      (auto simp: SUBSTR_LIMIT_def SHORT_LIMIT_def str simp del: cord_str.simps)
  then show ?case unfolding CORD_substr_checked.simps
    by (intro substr_function_spec) (use Apply_substr.prems in auto)
qed


section \<open>Iteration\<close>

lemma iter_chars_append:
  "iter_chars f (xs @ ys) s =
     (case iter_chars f xs s of (stop, s') \<Rightarrow> if stop then (True, s') else iter_chars f ys s')"
  by (induction xs arbitrary: s) (auto split: prod.splits)

lemma str_char_NUL_iff: "NUL \<notin> set t \<Longrightarrow> str_char t i = NUL \<longleftrightarrow> length t \<le> i"
  by (auto simp: str_char_def not_le in_set_conv_nth)

text \<open>
  The contract between \<open>CORD_iter5\<close> and its client functions: on the client data that
  satisfy \<open>ok\<close>, and seen through \<open>view\<close>, the batched function does to a string what the
  character function does to its characters in turn.
\<close>

locale batched_iter =
  fixes f1 :: "char \<Rightarrow> 's \<Rightarrow> bool \<times> 's" and f2 :: "string \<Rightarrow> 's \<Rightarrow> bool \<times> 's"
    and ok :: "'s \<Rightarrow> bool" and view :: "'s \<Rightarrow> 'v" and step :: "char \<Rightarrow> 'v \<Rightarrow> bool \<times> 'v"
  assumes f1_step: "ok s \<Longrightarrow> f1 c s = (stop, s') \<Longrightarrow> (stop \<or> ok s') \<and> step c (view s) = (stop, view s')"
    and f2_steps: "ok s \<Longrightarrow> t \<noteq> [] \<Longrightarrow> NUL \<notin> set t \<Longrightarrow> f2 t s = (stop, s') \<Longrightarrow>
        (stop \<or> ok s') \<and> iter_chars step t (view s) = (stop, view s')"
begin

lemma iter_chars_steps:
  "ok s \<Longrightarrow> iter_chars f1 t s = (stop, s') \<Longrightarrow>
     (stop \<or> ok s') \<and> iter_chars step t (view s) = (stop, view s')"
proof (induction t arbitrary: s)
  case (Cons c t)
  obtain b s1 where f: "f1 c s = (b, s1)" by fastforce
  then show ?case using Cons f1_step [OF Cons.prems(1) f] by (cases b) auto
qed auto

lemma iter5_function:
  assumes "cord_wf x" "ok s" "IS_FUNCTION x"
  shows "\<exists>stop s'. CORD_iter5 x i f1 (Some f2) s = Some (stop, s') \<and> (stop \<or> ok s')
    \<and> iter_chars step (drop i (cord_str x)) (view s) = (stop, view s')"
proof -
  let ?t = "map (node_fn x) [i ..< LEN x]"
  have "CORD_iter5 x i f1 (Some f2) s = Some (iter_chars f1 ?t s)" using assms(3) by (cases x) auto
  moreover have "drop i (cord_str x) = ?t" by (simp add: cord_str_function [OF assms(3)] drop_map)
  ultimately show ?thesis
    using iter_chars_steps [OF assms(2), of ?t] by (cases "iter_chars f1 ?t s") auto
qed

lemma iter5_steps:
  assumes "cord_wf x" "ok s" "i < length (cord_str x)"
  shows "\<exists>stop s'. CORD_iter5 x i f1 (Some f2) s = Some (stop, s') \<and> (stop \<or> ok s')
    \<and> iter_chars step (drop i (cord_str x)) (view s) = (stop, view s')"
  using assms
proof (induction x arbitrary: i s)
  case (Str t)
  have "NUL \<notin> set (drop i t)" using Str.prems by (auto dest: in_set_dropD)
  then show ?case
    using f2_steps [OF Str.prems(2), of "drop i t"] Str.prems str_char_NUL_iff [of t i]
    by (cases "f2 (drop i t) s") auto
next
  case (Concatenation d k n l r)
  let ?ll = "length (cord_str l)"
  have w: "cord_wf l" "cord_wf r" "0 < ?ll" "0 < length (cord_str r)"
    using Concatenation.prems(1) by (auto simp: cord_str_nonempty)
  have ll: "LEFT_LEN (Concatenation d k n l r) = ?ll" by (rule LEFT_LEN_cord_str [OF Concatenation.prems(1)])
  show ?case
  proof (cases "?ll \<le> i")
    case True
    then have "i - ?ll < length (cord_str r)" using Concatenation.prems(3) by simp
    moreover have "0 < i" using True w(3) by linarith
    ultimately show ?thesis using Concatenation.IH(2) [OF w(2) Concatenation.prems(2)] True
      by (simp add: ll del: LEFT_LEN.simps)
  next
    case False
    then obtain stop s1 where l: "CORD_iter5 l i f1 (Some f2) s = Some (stop, s1)" "stop \<or> ok s1"
        "iter_chars step (drop i (cord_str l)) (view s) = (stop, view s1)"
      using Concatenation.IH(1) [OF w(1) Concatenation.prems(2), of i] by auto
    show ?thesis
    proof (cases stop)
      case True
      then show ?thesis using l False by (auto simp: ll iter_chars_append simp del: LEFT_LEN.simps)
    next
      case go: False
      then show ?thesis using l False Concatenation.IH(2) [OF w(2), of s1 0] w(4)
        by (simp add: ll iter_chars_append del: LEFT_LEN.simps)
    qed
  qed
next
  case CORD_EMPTY
  then show ?case by simp
next
  case (Function n f)
  then show ?case by (intro iter5_function) simp_all
next
  case (Index_substr n t k)
  then show ?case by (intro iter5_function) simp_all
next
  case (Apply_substr n c k)
  then show ?case by (intro iter5_function) simp_all
qed

end

lemma node_fn_eta:
  "node_fn (Function n f) = f" "node_fn (Index_substr n t k) = (\<lambda>i. str_char t (wadd i k))"
  "node_fn (Apply_substr n c k) = (\<lambda>i. node_fn c (wadd i k))"
  by auto

text \<open>Without a batched function.\<close>

lemma CORD_iter5_plain:
  assumes "cord_wf x" "i < length (cord_str x)"
  shows "CORD_iter5 x i f1 None s = Some (iter_chars f1 (drop i (cord_str x)) s)"
  using assms
proof (induction x arbitrary: i s)
  case (Str t)
  then show ?case by (auto simp: str_char_NUL_iff)
next
  case (Concatenation d k n l r)
  let ?ll = "length (cord_str l)"
  have w: "cord_wf l" "cord_wf r" "0 < ?ll" "0 < length (cord_str r)"
    using Concatenation.prems(1) by (auto simp: cord_str_nonempty)
  have ll: "LEFT_LEN (Concatenation d k n l r) = ?ll" by (rule LEFT_LEN_cord_str [OF Concatenation.prems(1)])
  show ?case
    using Concatenation.IH(1) [OF w(1), of i s] Concatenation.IH(2) [OF w(2), of "i - ?ll" s]
      Concatenation.IH(2) [OF w(2), of 0] Concatenation.prems(2) w
    by (cases "?ll \<le> i") (auto simp: ll iter_chars_append simp del: LEFT_LEN.simps split: prod.splits)
qed (auto simp: drop_map node_fn_eta)

lemma CORD_riter4_steps:
  assumes "cord_wf x" "i < length (cord_str x)"
  shows "CORD_riter4 x i f1 s = Some (iter_chars f1 (rev (take (Suc i) (cord_str x))) s)"
  using assms
proof (induction x arbitrary: i s)
  case (Str t)
  then show ?case by (auto simp: str_char_NUL_iff)
next
  case (Concatenation d k n l r)
  let ?ll = "length (cord_str l)"
  have w: "cord_wf l" "cord_wf r" "0 < ?ll" "?ll < 2 ^ 32"
    using Concatenation.prems(1) by (auto simp: cord_str_nonempty)
  have ll: "LEFT_LEN (Concatenation d k n l r) = ?ll" by (rule LEFT_LEN_cord_str [OF Concatenation.prems(1)])
  have ws: "wsub ?ll (Suc 0) = ?ll - 1" using w by (simp add: Suc_le_eq)
  show ?case
  proof (cases "?ll \<le> i")
    case True
    then have "i - ?ll < length (cord_str r)" using Concatenation.prems(2) by simp
    from Concatenation.IH(2) [OF w(2) this, of s] Concatenation.IH(1) [OF w(1), of "?ll - 1"] True w(3)
    show ?thesis
      by (auto simp: ll ws Let_def iter_chars_append Suc_diff_le simp del: LEFT_LEN.simps split: prod.splits)
  next
    case False
    then show ?thesis using Concatenation.IH(1) [OF w(1), of i s]
      by (simp add: ll Let_def del: LEFT_LEN.simps)
  qed
qed (auto simp: take_map rev_map node_fn_eta)


section \<open>Properties\<close>

text \<open>
  C22. \<open>CORD_substr\<close> returns the substring of at most n characters that starts at i, over
  every representation (flat strings, concatenations, function nodes, nested substring
  nodes), as a well-formed cord: for cords shorter than half the address space and a request
  whose end \<open>i + n\<close> does not wrap around.
\<close>
theorem CORD_substr_correct:
  assumes "cord_wf x" "CORD_len x < 2 ^ 31" "i + n < 2 ^ 32"
  shows "\<exists>c. CORD_substr x i n = Some c \<and> cord_wf c \<and> cord_str c = take n (drop i (cord_str x))"
proof (cases "length (cord_str x) \<le> i \<or> n = 0")
  case True
  then show ?thesis using assms by (auto simp: CORD_substr_def Let_def)
next
  case False
  define n' where "n' = (if i + n > length (cord_str x) then length (cord_str x) - i else n)"
  have "substr_result x i n' (CORD_substr_checked x i n')"
    by (rule CORD_substr_checked_spec) (use assms False in \<open>auto simp: n'_def\<close>)
  moreover have "CORD_substr x i n = CORD_substr_checked x i n'"
    using assms False by (simp add: CORD_substr_def Let_def n'_def)
  moreover have "take n' (drop i (cord_str x)) = take n (drop i (cord_str x))"
    by (auto simp: n'_def)
  ultimately show ?thesis by (simp add: substr_result_def)
qed

text \<open>
  C23. The end of the requested substring is computed with wrap-around: asked for "the rest
  of the string" with the largest \<open>size_t\<close>, \<open>CORD_substr\<close> does not clip the length, and
  builds a cord that claims 4294967295 characters whatever the length of the string.
\<close>
theorem CORD_substr_wraps:
  assumes "cord_wf (Str s)" "0 < i" "i < length s"
  shows "\<exists>c. CORD_substr (Str s) i (2 ^ 32 - 1) = Some c \<and> CORD_len c = 2 ^ 32 - 1"
proof -
  have "wadd i (2 ^ 32 - 1) = i - 1"
    using assms by (auto simp: wadd_def word32_def mod_if)
  moreover have "(2 ^ 32 - 1 :: nat) > SUBSTR_LIMIT" by (simp add: SUBSTR_LIMIT_def SHORT_LIMIT_def)
  ultimately have "CORD_substr (Str s) i (2 ^ 32 - 1) = substr_closure_index s i (2 ^ 32 - 1)"
    using assms by (auto simp: CORD_substr_def CORD_len_def Let_def)
  also have "\<dots> = Some (Index_substr (2 ^ 32 - 1) s i)"
    unfolding substr_closure_index_def by (rule set_substr_header_node) (simp_all add: SHORT_LIMIT_def)
  finally show ?thesis by (simp add: CORD_len_def)
qed

text \<open>
  C24. \<open>CORD_iter5\<close> without a batched function applies f1 to the characters from position i
  on, in order, until f1 asks to stop; \<open>CORD_riter4\<close> does the same from position i downwards.
\<close>
theorem CORD_iterators_correct:
  assumes "cord_wf x" "i < CORD_len x"
  shows "CORD_iter5 x i f1 None s = Some (iter_chars f1 (drop i (cord_str x)) s)
    \<and> CORD_riter4 x i f1 s = Some (iter_chars f1 (rev (take (Suc i) (cord_str x))) s)"
  using CORD_iter5_plain [of x i f1 s] CORD_riter4_steps [of x i f1 s] assms by simp

theorem CORD_substr_correct_witness:
  "\<exists>c. CORD_substr (Function 20 (\<lambda>i. if i = 7 then NUL else CHR ''x'')) 5 3 = Some c
     \<and> cord_str c = [CHR ''x'', CHR ''x'', NUL]"
proof -
  let ?x = "Function 20 (\<lambda>i. if i = 7 then NUL else CHR ''x'')"
  have "take 3 (drop 5 (cord_str ?x)) = [CHR ''x'', CHR ''x'', NUL]"
    by (simp add: drop_map take_map upt_rec)
  then show ?thesis using CORD_substr_correct [of ?x 5 3] by (auto simp: CORD_len_def simp del: cord_str.simps)
qed

theorem CORD_substr_wraps_witness:
  "\<exists>c. CORD_substr (Str ''cord'') 1 (2 ^ 32 - 1) = Some c \<and> CORD_len c = 2 ^ 32 - 1"
  by (rule CORD_substr_wraps) simp_all

theorem CORD_iterators_correct_witness:
  "CORD_iter5 sample_left 8 (\<lambda>c n. (c = CHR ''e'', Suc n)) None 0 = Some (True, 5)"
proof -
  have "cord_wf sample_left" "8 < CORD_len sample_left"
    by (simp_all add: sample_left_def CORD_len_def)
  from CORD_iterators_correct [OF this, of "\<lambda>c n. (c = CHR ''e'', Suc n)" 0]
  show ?thesis by (simp add: sample_left_def)
qed

end
