(* ===== verification/Cord_Pos.thy ===== *)
theory Cord_Pos
  imports Cord_Ops
begin

text \<open>
  Cord positions (\<^verbatim>\<open>bdwgc/cord/cordbscs.c\<close>, \<^verbatim>\<open>include/private/cord_pos.h\<close>): a position
  holds the path from the root of a cord to the leaf with the current character, and a window
  of characters of that leaf. The primitives exist as macros, which clients of
  \<^verbatim>\<open>cord.h\<close> use, and as functions; the two differ, and both are modelled.
\<close>

section \<open>The primitives\<close>

definition CORD_POS_INVALID :: nat where
  "CORD_POS_INVALID = 0x55555555"

definition FUNCTION_BUF_SZ :: nat where
  [gc_consts]: "FUNCTION_BUF_SZ = 8"

text \<open>
  \<open>cur_leaf\<close> is the string it points to: a leaf of the cord or the filled part of
  \<open>function_buf\<close>. An entry of the path is a cord and its start position.
\<close>

record cord_pos =
  cur_pos :: nat
  path_len :: nat
  cur_leaf :: string
  cur_start :: nat
  cur_end :: nat
  path :: "nat \<Rightarrow> cord \<times> nat"

text \<open>The loop of \<open>CORD__extend_path\<close>: the path, its length, and the leaf with its bounds.\<close>

fun extend_path_loop ::
    "nat \<Rightarrow> cord \<Rightarrow> nat \<Rightarrow> nat \<Rightarrow> nat \<Rightarrow> (nat \<Rightarrow> cord \<times> nat)
      \<Rightarrow> (nat \<Rightarrow> cord \<times> nat) \<times> nat \<times> cord \<times> nat \<times> nat" where
  "extend_path_loop pos (Concatenation d k n l r) top_pos top_len plen pth =
     (let left_len = LEFT_LEN (Concatenation d k n l r) in
      if pos \<ge> wadd top_pos left_len
      then extend_path_loop pos r (wadd top_pos left_len) (wsub top_len left_len) (plen + 1)
             (pth(plen + 1 := (r, wadd top_pos left_len)))
      else extend_path_loop pos l top_pos left_len (plen + 1) (pth(plen + 1 := (l, top_pos))))"
| "extend_path_loop pos node top_pos top_len plen pth = (pth, plen, node, top_pos, top_len)"

definition CORD__extend_path :: "cord_pos \<Rightarrow> cord_pos" where
  "CORD__extend_path p =
     (case path p (path_len p) of (node, top_pos) \<Rightarrow>
      case extend_path_loop (cur_pos p) node top_pos (GEN_LEN node) (path_len p) (path p) of
        (pth, plen, leaf, start, len) \<Rightarrow>
          (let p1 = p\<lparr> path := pth, path_len := plen \<rparr>;
               p2 = (case leaf of
                       Str s \<Rightarrow> p1\<lparr> cur_leaf := s, cur_start := start, cur_end := wadd start len \<rparr>
                     | _ \<Rightarrow> p1\<lparr> cur_end := 0 \<rparr>) in
           if cur_pos p \<ge> wadd start len then p2\<lparr> path_len := CORD_POS_INVALID \<rparr> else p2))"

definition CORD__pos_fetch :: "cord_pos \<Rightarrow> char option" where
  "CORD__pos_fetch p =
     (case path p (path_len p) of (leaf, start) \<Rightarrow>
        if \<not> IS_FUNCTION leaf then None else Some (node_fn leaf (wsub (cur_pos p) start)))"

text \<open>The two loops that leave subtrees: out of right parts, and out of left parts.\<close>

fun pop_right :: "(nat \<Rightarrow> cord \<times> nat) \<Rightarrow> nat \<Rightarrow> nat" where
  "pop_right pth 0 = 0"
| "pop_right pth (Suc k) =
     (if snd (pth (Suc k)) \<noteq> snd (pth k) then pop_right pth k else Suc k)"

fun pop_left :: "(nat \<Rightarrow> cord \<times> nat) \<Rightarrow> nat \<Rightarrow> nat" where
  "pop_left pth 0 = 0"
| "pop_left pth (Suc k) =
     (if snd (pth (Suc k)) = snd (pth k) then pop_left pth k else Suc k)"

definition CORD__next :: "cord_pos \<Rightarrow> cord_pos" where
  "CORD__next p =
     (let pos = wadd (cur_pos p) 1; p1 = p\<lparr> cur_pos := pos \<rparr>;
          leaf = fst (path p (path_len p)); start_pos = snd (path p (path_len p));
          end_pos = wadd start_pos (LEN leaf) in
      if \<not> CORD_IS_STRING leaf \<and> pos < end_pos
      then (let limit0 = wadd pos FUNCTION_BUF_SZ;
                limit = (if limit0 > end_pos then end_pos else limit0) in
            p1\<lparr> cur_start := pos, cur_leaf := map (\<lambda>i. node_fn leaf (wsub i start_pos)) [pos ..< limit],
                cur_end := limit \<rparr>)
      else (let k = pop_right (path p) (path_len p) in
            if k = 0 then p1\<lparr> path_len := CORD_POS_INVALID \<rparr>
            else CORD__extend_path (p1\<lparr> path_len := k - 1 \<rparr>)))"

text \<open>At the root the loop of \<open>CORD__prev\<close> would leave a path of length -1.\<close>

definition CORD__prev :: "cord_pos \<Rightarrow> cord_pos option" where
  "CORD__prev p =
     (if cur_pos p = 0 then Some (p\<lparr> path_len := CORD_POS_INVALID \<rparr>)
      else (let p1 = p\<lparr> cur_pos := cur_pos p - 1 \<rparr> in
            if cur_pos p1 \<ge> snd (path p (path_len p)) then Some p1
            else (let k = pop_left (path p) (path_len p) in
                  if k = 0 then None else Some (CORD__extend_path (p1\<lparr> path_len := k - 1 \<rparr>)))))"

text \<open>
  The macros. \<open>None\<close> is a read outside of the window, or the abort in \<open>CORD__pos_fetch\<close>.
\<close>

definition CORD_pos_fetch :: "cord_pos \<Rightarrow> char option" where
  "CORD_pos_fetch p =
     (if cur_end p \<noteq> 0
      then (let i = wsub (cur_pos p) (cur_start p) in
            if i < length (cur_leaf p) then Some (cur_leaf p ! i) else None)
      else CORD__pos_fetch p)"

definition CORD_next :: "cord_pos \<Rightarrow> cord_pos" where
  "CORD_next p =
     (if wadd (cur_pos p) 1 < cur_end p then p\<lparr> cur_pos := wadd (cur_pos p) 1 \<rparr> else CORD__next p)"

definition CORD_prev :: "cord_pos \<Rightarrow> cord_pos option" where
  "CORD_prev p =
     (if cur_end p \<noteq> 0 \<and> cur_pos p > cur_start p then Some (p\<lparr> cur_pos := cur_pos p - 1 \<rparr>)
      else CORD__prev p)"

definition CORD_pos_valid :: "cord_pos \<Rightarrow> bool" where
  "CORD_pos_valid p \<longleftrightarrow> path_len p \<noteq> CORD_POS_INVALID"

definition CORD_pos_to_index :: "cord_pos \<Rightarrow> nat" where
  "CORD_pos_to_index p = cur_pos p"

definition CORD_pos_to_cord :: "cord_pos \<Rightarrow> cord" where
  "CORD_pos_to_cord p = fst (path p 0)"

definition CORD_pos_chars_left :: "cord_pos \<Rightarrow> int" where
  "CORD_pos_chars_left p = signed_word (cur_end p) - signed_word (cur_pos p)"

definition CORD_pos_advance :: "cord_pos \<Rightarrow> nat \<Rightarrow> cord_pos" where
  "CORD_pos_advance p n = CORD_next (p\<lparr> cur_pos := wadd (cur_pos p) (wsub n 1) \<rparr>)"

definition CORD_pos_cur_char_addr :: "cord_pos \<Rightarrow> string" where
  "CORD_pos_cur_char_addr p = drop (wsub (cur_pos p) (cur_start p)) (cur_leaf p)"

text \<open>The function versions of fetching and advancing.\<close>

definition CORD_pos_fetch_fn :: "cord_pos \<Rightarrow> char option" where
  "CORD_pos_fetch_fn p =
     (if cur_start p \<le> cur_pos p \<and> cur_pos p < cur_end p
      then Some (cur_leaf p ! (cur_pos p - cur_start p))
      else CORD__pos_fetch p)"

definition CORD_next_fn :: "cord_pos \<Rightarrow> cord_pos" where
  "CORD_next_fn p =
     (if cur_pos p < wsub (cur_end p) 1 then p\<lparr> cur_pos := wadd (cur_pos p) 1 \<rparr> else CORD__next p)"

definition CORD_set_pos :: "cord_pos \<Rightarrow> cord \<Rightarrow> nat \<Rightarrow> cord_pos" where
  "CORD_set_pos p x i =
     (if x = CORD_EMPTY then p\<lparr> path_len := CORD_POS_INVALID \<rparr>
      else CORD__extend_path (p\<lparr> path := (path p)(0 := (x, 0)), path_len := 0, cur_pos := i \<rparr>))"

section \<open>Paths\<close>

definition child_of :: "cord \<times> nat \<Rightarrow> cord \<times> nat \<Rightarrow> bool" where
  "child_of parent child \<longleftrightarrow> (\<exists>d k n l r. fst parent = Concatenation d k n l r \<and>
     (child = (l, snd parent) \<or> child = (r, snd parent + length (cord_str l))))"

definition path_ok :: "cord \<Rightarrow> (nat \<Rightarrow> cord \<times> nat) \<Rightarrow> nat \<Rightarrow> bool" where
  "path_ok x pth k \<longleftrightarrow> cord_wf x \<and> x \<noteq> CORD_EMPTY \<and> pth 0 = (x, 0)
     \<and> (\<forall>j < k. child_of (pth j) (pth (Suc j)))"

text \<open>A node on the path is well-formed and spells its segment of the root's string.\<close>

definition segment :: "cord \<Rightarrow> cord \<times> nat \<Rightarrow> bool" where
  "segment x e \<longleftrightarrow> cord_wf (fst e) \<and> fst e \<noteq> CORD_EMPTY
     \<and> snd e + length (cord_str (fst e)) \<le> length (cord_str x)
     \<and> take (length (cord_str (fst e))) (drop (snd e) (cord_str x)) = cord_str (fst e)"

lemma segment_child:
  assumes "segment x e" "child_of e e'"
  shows "segment x e'"
proof -
  obtain d k n l r where e: "fst e = Concatenation d k n l r"
      "e' = (l, snd e) \<or> e' = (r, snd e + length (cord_str l))"
    using assms(2) unfolding child_of_def by blast
  have w: "cord_wf l" "cord_wf r" "l \<noteq> CORD_EMPTY" "r \<noteq> CORD_EMPTY"
      "snd e + length (cord_str l) + length (cord_str r) \<le> length (cord_str x)"
    and s: "take (length (cord_str l) + length (cord_str r)) (drop (snd e) (cord_str x)) = cord_str l @ cord_str r"
    using assms(1) e(1) by (simp_all add: segment_def)
  have "take (length (cord_str l)) (drop (snd e) (cord_str x)) = cord_str l"
    using arg_cong [OF s, of "take (length (cord_str l))"] by simp
  moreover have "take (length (cord_str r)) (drop (snd e + length (cord_str l)) (cord_str x)) = cord_str r"
    using arg_cong [OF s, of "drop (length (cord_str l))"] by (simp add: drop_take add.commute)
  ultimately show ?thesis using e(2) w by (auto simp: segment_def)
qed

lemma path_segment:
  assumes "path_ok x pth k" "j \<le> k"
  shows "segment x (pth j) \<and> DEPTH (fst (pth j)) + j \<le> DEPTH x"
  using assms(2)
proof (induction j)
  case 0
  then show ?case using assms(1) by (simp add: path_ok_def segment_def)
next
  case (Suc j)
  then have c: "child_of (pth j) (pth (Suc j))" using assms(1) by (simp add: path_ok_def)
  have "DEPTH (fst (pth (Suc j))) < DEPTH (fst (pth j))"
    using c Suc by (auto simp: child_of_def segment_def)
  then show ?case using Suc segment_child [OF _ c] by auto
qed

lemma segment_nth:
  assumes "segment x e" "snd e \<le> i" "i < snd e + length (cord_str (fst e))"
  shows "cord_str x ! i = cord_str (fst e) ! (i - snd e)"
proof -
  have "cord_str (fst e) ! (i - snd e) = take (length (cord_str (fst e))) (drop (snd e) (cord_str x)) ! (i - snd e)"
    using assms(1) by (simp add: segment_def)
  also have "\<dots> = drop (snd e) (cord_str x) ! (i - snd e)" by (rule nth_take) (use assms in simp)
  also have "\<dots> = cord_str x ! i" using assms by (simp add: segment_def)
  finally show ?thesis by simp
qed

lemma segment_bound: "segment x e \<Longrightarrow> cord_wf x \<Longrightarrow> snd e + length (cord_str (fst e)) < 2 ^ 32"
  using cord_len_bound [of x] by (simp add: segment_def)

text \<open>The loop extends a path to a leaf that contains the position.\<close>

lemma extend_path_loop_spec:
  assumes "path_ok x pth k" "pth k = (node, start)" "start \<le> pos" "pos < start + length (cord_str node)"
  shows "\<exists>pth' k' leaf start'. extend_path_loop pos node start (length (cord_str node)) k pth
      = (pth', k', leaf, start', length (cord_str leaf))
    \<and> path_ok x pth' k' \<and> pth' k' = (leaf, start') \<and> \<not> IS_CONCATENATION leaf
    \<and> start' \<le> pos \<and> pos < start' + length (cord_str leaf)"
  using assms
proof (induction node arbitrary: pth k start)
  case (Concatenation d c n l r)
  have seg: "segment x (Concatenation d c n l r, start)"
    using path_segment [OF Concatenation.prems(1), of k] Concatenation.prems(2) by simp
  then have wf: "cord_wf (Concatenation d c n l r)" by (simp add: segment_def)
  let ?ll = "length (cord_str l)" and ?rl = "length (cord_str r)"
  have ll: "LEFT_LEN (Concatenation d c n l r) = ?ll" by (rule LEFT_LEN_cord_str [OF wf])
  have b: "start + (?ll + ?rl) < 2 ^ 32"
    using segment_bound [OF seg] Concatenation.prems(1) by (simp add: path_ok_def)
  have grow: "path_ok x (pth(Suc k := e)) (Suc k)" if "child_of (Concatenation d c n l r, start) e" for e
    using Concatenation.prems(1,2) that by (auto simp: path_ok_def less_Suc_eq)
  show ?case
  proof (cases "start + ?ll \<le> pos")
    case True
    have "path_ok x (pth(Suc k := (r, start + ?ll))) (Suc k)"
      by (rule grow) (simp add: child_of_def)
    from Concatenation.IH(2) [OF this _ True] Concatenation.prems(4) True b show ?thesis
      by (simp add: ll Let_def fun_upd_def del: LEFT_LEN.simps)
  next
    case False
    have "path_ok x (pth(Suc k := (l, start))) (Suc k)"
      by (rule grow) (simp add: child_of_def)
    from Concatenation.IH(1) [OF this _ Concatenation.prems(3)] False b show ?thesis
      by (simp add: ll Let_def fun_upd_def del: LEFT_LEN.simps)
  qed
qed auto


section \<open>Valid positions\<close>

text \<open>
  A valid position: the path ends in a leaf that contains the current position, and the
  window is either empty (function leaves only) or a correct part of that leaf. For a string
  leaf the window is the whole leaf.
\<close>

definition window_ok :: "cord \<Rightarrow> cord_pos \<Rightarrow> bool" where
  "window_ok x p \<longleftrightarrow> length (cur_leaf p) = cur_end p - cur_start p \<and> cur_start p < cur_end p
     \<and> (\<forall>j. cur_start p \<le> j \<and> j < cur_end p \<longrightarrow> cur_leaf p ! (j - cur_start p) = cord_str x ! j)"

abbreviation pos_leaf :: "cord_pos \<Rightarrow> cord" where
  "pos_leaf p \<equiv> fst (path p (path_len p))"

abbreviation leaf_start :: "cord_pos \<Rightarrow> nat" where
  "leaf_start p \<equiv> snd (path p (path_len p))"

abbreviation leaf_end :: "cord_pos \<Rightarrow> nat" where
  "leaf_end p \<equiv> leaf_start p + length (cord_str (pos_leaf p))"

definition pos_ok :: "cord \<Rightarrow> cord_pos \<Rightarrow> bool" where
  "pos_ok x p \<longleftrightarrow> path_ok x (path p) (path_len p) \<and> \<not> IS_CONCATENATION (pos_leaf p)
     \<and> leaf_start p \<le> cur_pos p \<and> cur_pos p < leaf_end p
     \<and> (if CORD_IS_STRING (pos_leaf p)
        then window_ok x p \<and> cur_start p = leaf_start p \<and> cur_end p = leaf_end p
        else cur_end p = 0 \<or> window_ok x p \<and> leaf_start p \<le> cur_start p \<and> cur_end p \<le> leaf_end p)"

definition in_window :: "cord_pos \<Rightarrow> bool" where
  "in_window p \<longleftrightarrow> cur_end p = 0 \<or> cur_start p \<le> cur_pos p \<and> cur_pos p < cur_end p"

lemma pos_ok_facts:
  assumes "pos_ok x p"
  shows "path_ok x (path p) (path_len p)" "\<not> IS_CONCATENATION (pos_leaf p)"
    "leaf_start p \<le> cur_pos p" "cur_pos p < leaf_end p"
    "segment x (path p (path_len p))" "cord_wf (pos_leaf p)" "pos_leaf p \<noteq> CORD_EMPTY"
    "leaf_end p \<le> length (cord_str x)" "length (cord_str x) < 2 ^ 32"
proof -
  show pk: "path_ok x (path p) (path_len p)" and "\<not> IS_CONCATENATION (pos_leaf p)"
    "leaf_start p \<le> cur_pos p" "cur_pos p < leaf_end p" using assms by (simp_all add: pos_ok_def)
  show seg: "segment x (path p (path_len p))" using path_segment [OF pk, of "path_len p"] by simp
  show "cord_wf (pos_leaf p)" "pos_leaf p \<noteq> CORD_EMPTY" "leaf_end p \<le> length (cord_str x)"
    using seg by (simp_all add: segment_def)
  show "length (cord_str x) < 2 ^ 32" using pk cord_len_bound by (simp add: path_ok_def)
qed

lemma pos_ok_string:
  "pos_ok x p \<Longrightarrow> CORD_IS_STRING (pos_leaf p) \<Longrightarrow>
     window_ok x p \<and> cur_start p = leaf_start p \<and> cur_end p = leaf_end p"
  by (simp add: pos_ok_def)

lemma pos_ok_function:
  assumes "pos_ok x p" "\<not> CORD_IS_STRING (pos_leaf p)"
  shows "IS_FUNCTION (pos_leaf p)" "LEN (pos_leaf p) = length (cord_str (pos_leaf p))"
    "cur_end p = 0 \<or> window_ok x p \<and> leaf_start p \<le> cur_start p \<and> cur_end p \<le> leaf_end p"
proof -
  show "IS_FUNCTION (pos_leaf p)"
    using pos_ok_facts(2,7) [OF assms(1)] assms(2) by (cases "pos_leaf p") auto
  show "LEN (pos_leaf p) = length (cord_str (pos_leaf p))"
    using LEN_cord_str pos_ok_facts(6,7) [OF assms(1)] assms(2) by blast
  show "cur_end p = 0 \<or> window_ok x p \<and> leaf_start p \<le> cur_start p \<and> cur_end p \<le> leaf_end p"
    using assms unfolding pos_ok_def by meson
qed

lemma pos_ok_window: "pos_ok x p \<Longrightarrow> cur_end p \<noteq> 0 \<Longrightarrow> window_ok x p"
  by (cases "CORD_IS_STRING (pos_leaf p)") (simp_all add: pos_ok_def)

lemma pos_ok_index: "pos_ok x p \<Longrightarrow> cur_pos p < length (cord_str x) \<and> cur_pos p < 2 ^ 32"
  using pos_ok_facts(4,8,9) [of x p] by linarith

lemma path_ok_length:
  assumes "path_ok x pth k"
  shows "k < MAX_DEPTH"
proof -
  have "k \<le> DEPTH x" using path_segment [OF assms, of k] by simp
  moreover have "DEPTH x < MAX_DEPTH" using assms cord_wf_depth by (simp add: path_ok_def)
  ultimately show ?thesis by simp
qed

lemma pos_ok_valid: "pos_ok x p \<Longrightarrow> CORD_pos_valid p"
  using path_ok_length [of x "path p" "path_len p"]
  by (auto simp: pos_ok_def CORD_pos_valid_def CORD_POS_INVALID_def MAX_DEPTH_def)

text \<open>Both ways to fetch: the macro needs the position inside the window.\<close>

lemma CORD__pos_fetch_ok:
  assumes "pos_ok x p" "\<not> CORD_IS_STRING (pos_leaf p)"
  shows "CORD__pos_fetch p = Some (cord_str x ! cur_pos p)"
proof -
  note f = pos_ok_function [OF assms] and l = pos_ok_facts [OF assms(1)]
  have "cur_pos p - leaf_start p < LEN (pos_leaf p)" using f(2) l(3,4) by simp
  then show ?thesis
    using f l segment_nth [OF l(5), of "cur_pos p"] node_fn_nth [OF f(1)] pos_ok_index [OF assms(1)]
    by (auto simp: CORD__pos_fetch_def split: prod.splits)
qed

lemma CORD_pos_fetch_ok:
  assumes "pos_ok x p" "in_window p"
  shows "CORD_pos_fetch p = Some (cord_str x ! cur_pos p)"
proof (cases "cur_end p = 0")
  case True
  then have "\<not> CORD_IS_STRING (pos_leaf p)"
    using pos_ok_string [OF assms(1)] by (auto simp: window_ok_def)
  then show ?thesis
    using True CORD__pos_fetch_ok [OF assms(1)] by (simp add: CORD_pos_fetch_def)
next
  case False
  then show ?thesis using pos_ok_window [OF assms(1) False] assms(2) pos_ok_index [OF assms(1)]
    by (auto simp: CORD_pos_fetch_def in_window_def window_ok_def Let_def)
qed

lemma CORD_pos_fetch_fn_ok:
  assumes "pos_ok x p"
  shows "CORD_pos_fetch_fn p = Some (cord_str x ! cur_pos p)"
proof (cases "cur_start p \<le> cur_pos p \<and> cur_pos p < cur_end p")
  case True
  then have "window_ok x p" using pos_ok_window [OF assms] by simp
  then show ?thesis using True by (auto simp: CORD_pos_fetch_fn_def window_ok_def)
next
  case False
  then have "\<not> CORD_IS_STRING (pos_leaf p)"
    using pos_ok_string [OF assms] pos_ok_facts(3,4) [OF assms] by auto
  with False show ?thesis using CORD__pos_fetch_ok [OF assms] by (auto simp: CORD_pos_fetch_fn_def)
qed

section \<open>Moving\<close>

lemma extend_path_ok:
  assumes "path_ok x (path p) (path_len p)" "path p (path_len p) = (node, start)"
    "start \<le> cur_pos p" "cur_pos p < start + length (cord_str node)"
  shows "pos_ok x (CORD__extend_path p) \<and> in_window (CORD__extend_path p)
    \<and> cur_pos (CORD__extend_path p) = cur_pos p"
proof -
  have seg: "segment x (node, start)" using path_segment [OF assms(1), of "path_len p"] assms(2) by simp
  then have gl: "GEN_LEN node = length (cord_str node)" by (simp add: segment_def)
  obtain pth k leaf st where r: "extend_path_loop (cur_pos p) node start (length (cord_str node)) (path_len p) (path p)
      = (pth, k, leaf, st, length (cord_str leaf))" "path_ok x pth k" "pth k = (leaf, st)"
      "\<not> IS_CONCATENATION leaf" "st \<le> cur_pos p" "cur_pos p < st + length (cord_str leaf)"
    using extend_path_loop_spec [OF assms] by blast
  have sl: "segment x (leaf, st)" using path_segment [OF r(2), of k] r(3) by simp
  then have bound: "wadd st (length (cord_str leaf)) = st + length (cord_str leaf)"
    using segment_bound [OF sl] r(2) by (simp add: path_ok_def)
  have nth: "cord_str leaf ! (j - st) = cord_str x ! j" if "st \<le> j" "j < st + length (cord_str leaf)" for j
    using segment_nth [OF sl, of j] that by simp
  show ?thesis
  proof (cases "CORD_IS_STRING leaf")
    case True
    then obtain s where s: "leaf = Str s" by (cases leaf) auto
    then have "CORD__extend_path p = p\<lparr> path := pth, path_len := k, cur_leaf := s, cur_start := st,
        cur_end := st + length s \<rparr>"
      using r bound assms(2) gl by (simp add: CORD__extend_path_def Let_def)
    then show ?thesis using r s nth by (auto simp: pos_ok_def in_window_def window_ok_def)
  next
    case False
    then have "CORD__extend_path p = p\<lparr> path := pth, path_len := k, cur_end := 0 \<rparr>"
      using r bound assms(2) gl by (cases leaf) (simp_all add: CORD__extend_path_def Let_def)
    then show ?thesis using r False by (simp add: pos_ok_def in_window_def)
  qed
qed

lemma path_ok_prefix: "path_ok x pth k \<Longrightarrow> j \<le> k \<Longrightarrow> path_ok x pth j"
  by (simp add: path_ok_def)


text \<open>Leaving a subtree on the right: the end of the subtree is kept.\<close>

lemma pop_right_spec:
  assumes "path_ok x pth k" "snd (pth k) + length (cord_str (fst (pth k))) = e"
  shows "(pop_right pth k = 0 \<longrightarrow> e = length (cord_str x))
    \<and> (0 < pop_right pth k \<longrightarrow> pop_right pth k \<le> k \<and>
         snd (pth (pop_right pth k - 1)) \<le> e \<and>
         e < snd (pth (pop_right pth k - 1)) + length (cord_str (fst (pth (pop_right pth k - 1)))))"
  using assms
proof (induction k)
  case 0
  then show ?case by (auto simp: path_ok_def)
next
  case (Suc k)
  have pk: "path_ok x pth k" by (rule path_ok_prefix [OF Suc.prems(1)]) simp
  have "child_of (pth k) (pth (Suc k))" using Suc.prems(1) by (simp add: path_ok_def)
  then obtain d c n l r where c: "fst (pth k) = Concatenation d c n l r"
      "pth (Suc k) = (l, snd (pth k)) \<or> pth (Suc k) = (r, snd (pth k) + length (cord_str l))"
    unfolding child_of_def by blast
  have "cord_wf (Concatenation d c n l r)"
    using path_segment [OF pk, of k] c(1) by (simp add: segment_def)
  then have w: "0 < length (cord_str l)" "0 < length (cord_str r)" by (auto simp: cord_str_nonempty)
  show ?case
  proof (cases "snd (pth (Suc k)) = snd (pth k)")
    case True
    then have "pth (Suc k) = (l, snd (pth k))" using c(2) w(1) by auto
    then show ?thesis using True Suc.prems(2) c(1) w by auto
  next
    case False
    then have "snd (pth k) + length (cord_str (fst (pth k))) = e"
      using c Suc.prems(2) by auto
    from Suc.IH [OF pk this] False show ?thesis by auto
  qed
qed

text \<open>Leaving a subtree on the left: its start is kept, and is not 0.\<close>

lemma pop_left_spec:
  assumes "path_ok x pth k" "snd (pth k) = st" "0 < st"
  shows "0 < pop_left pth k \<and> pop_left pth k \<le> k \<and> snd (pth (pop_left pth k - 1)) < st \<and>
     st < snd (pth (pop_left pth k - 1)) + length (cord_str (fst (pth (pop_left pth k - 1))))"
  using assms
proof (induction k)
  case 0
  then show ?case by (auto simp: path_ok_def)
next
  case (Suc k)
  have pk: "path_ok x pth k" by (rule path_ok_prefix [OF Suc.prems(1)]) simp
  have "child_of (pth k) (pth (Suc k))" using Suc.prems(1) by (simp add: path_ok_def)
  then obtain d c n l r where c: "fst (pth k) = Concatenation d c n l r"
      "pth (Suc k) = (l, snd (pth k)) \<or> pth (Suc k) = (r, snd (pth k) + length (cord_str l))"
    unfolding child_of_def by blast
  have "cord_wf (Concatenation d c n l r)"
    using path_segment [OF pk, of k] c(1) by (simp add: segment_def)
  then have w: "0 < length (cord_str l)" "0 < length (cord_str r)" by (auto simp: cord_str_nonempty)
  show ?case
  proof (cases "snd (pth (Suc k)) = snd (pth k)")
    case True
    then have "snd (pth k) = st" using Suc.prems(2) by simp
    from Suc.IH [OF pk this Suc.prems(3)] True show ?thesis by auto
  next
    case False
    then show ?thesis using c Suc.prems(2) w by auto
  qed
qed

lemma extend_path_parent:
  assumes "path_ok x (path p) k" "0 < j" "j \<le> k" "snd (path p (j - 1)) \<le> i"
    "i < snd (path p (j - 1)) + length (cord_str (fst (path p (j - 1))))"
  shows "pos_ok x (CORD__extend_path (p\<lparr> cur_pos := i, path_len := j - 1 \<rparr>))
    \<and> in_window (CORD__extend_path (p\<lparr> cur_pos := i, path_len := j - 1 \<rparr>))
    \<and> cur_pos (CORD__extend_path (p\<lparr> cur_pos := i, path_len := j - 1 \<rparr>)) = i"
  using extend_path_ok [of x "p\<lparr> cur_pos := i, path_len := j - 1 \<rparr>" "fst (path p (j - 1))" "snd (path p (j - 1))"]
    path_ok_prefix [OF assms(1), of "j - 1"] assms by simp

lemma fill_window_ok:
  assumes "pos_ok x p" "\<not> CORD_IS_STRING (pos_leaf p)" "leaf_start p \<le> i" "i < limit" "limit \<le> leaf_end p"
    "p' = p\<lparr> cur_pos := i, cur_start := i,
      cur_leaf := map (\<lambda>j. node_fn (pos_leaf p) (wsub j (leaf_start p))) [i ..< limit], cur_end := limit \<rparr>"
  shows "pos_ok x p' \<and> in_window p' \<and> cur_pos p' = i"
proof -
  note f = pos_ok_function [OF assms(1,2)] and l = pos_ok_facts [OF assms(1)]
  have "node_fn (pos_leaf p) (wsub j (leaf_start p)) = cord_str x ! j" if "i \<le> j" "j < limit" for j
  proof -
    have "j - leaf_start p < LEN (pos_leaf p)" "leaf_start p \<le> j" "j < leaf_end p" "j < 2 ^ 32"
      using that assms(3-5) f(2) l(8,9) by auto
    then show ?thesis using node_fn_nth [OF f(1)] segment_nth [OF l(5), of j] by simp
  qed
  then have "window_ok x p'" using assms(4,6) by (auto simp: window_ok_def)
  then show ?thesis using assms(2-6) l by (simp add: pos_ok_def in_window_def)
qed

lemma CORD__next_ok:
  assumes "pos_ok x p" "cur_end p \<le> Suc (cur_pos p)" "length (cord_str x) < 2 ^ 31"
  shows "(Suc (cur_pos p) < length (cord_str x) \<longrightarrow> pos_ok x (CORD__next p) \<and> in_window (CORD__next p)
            \<and> cur_pos (CORD__next p) = Suc (cur_pos p))
       \<and> (Suc (cur_pos p) = length (cord_str x) \<longrightarrow> \<not> CORD_pos_valid (CORD__next p))"
proof -
  note l = pos_ok_facts [OF assms(1)]
  let ?i = "Suc (cur_pos p)"
  have i32: "wadd (cur_pos p) (Suc 0) = ?i" using l(4,8,9) by simp
  have e32: "wadd (leaf_start p) (length (cord_str (pos_leaf p))) = leaf_end p" using l(4,8,9) by simp
  have b32: "wadd ?i FUNCTION_BUF_SZ = ?i + FUNCTION_BUF_SZ"
    using l(4,8) assms(3) by (simp add: FUNCTION_BUF_SZ_def)
  show ?thesis
  proof (cases "\<not> CORD_IS_STRING (pos_leaf p) \<and> ?i < leaf_end p")
    case True
    then have ns: "\<not> CORD_IS_STRING (pos_leaf p)" by simp
    define limit where "limit = (if ?i + FUNCTION_BUF_SZ > leaf_end p then leaf_end p else ?i + FUNCTION_BUF_SZ)"
    have lim: "?i < limit" "limit \<le> leaf_end p"
      using True by (auto simp: limit_def FUNCTION_BUF_SZ_def)
    have "CORD__next p = p\<lparr> cur_pos := ?i, cur_start := ?i,
        cur_leaf := map (\<lambda>j. node_fn (pos_leaf p) (wsub j (leaf_start p))) [?i ..< limit], cur_end := limit \<rparr>"
      using True pos_ok_function(2) [OF assms(1) ns] i32 e32 b32
      by (simp add: CORD__next_def Let_def limit_def)
    from fill_window_ok [OF assms(1) ns _ lim this] l(3) have
      "pos_ok x (CORD__next p) \<and> in_window (CORD__next p) \<and> cur_pos (CORD__next p) = ?i" by simp
    moreover have "?i < length (cord_str x)" using True l(8) by simp
    ultimately show ?thesis by simp
  next
    case False
    have e: "leaf_end p = ?i"
      using False l(4) pos_ok_string [OF assms(1)] assms(2) by fastforce
    have "\<not> (\<not> CORD_IS_STRING (pos_leaf p) \<and> ?i < wadd (leaf_start p) (LEN (pos_leaf p)))"
      using pos_ok_function(2) [OF assms(1)] e32 e by auto
    then have nx: "CORD__next p = (let k = pop_right (path p) (path_len p) in
        if k = 0 then p\<lparr> cur_pos := ?i, path_len := CORD_POS_INVALID \<rparr>
        else CORD__extend_path (p\<lparr> cur_pos := ?i, path_len := k - 1 \<rparr>))"
      using i32 unfolding CORD__next_def Let_def by auto
    note pop = pop_right_spec [OF l(1) e]
    show ?thesis
    proof (cases "pop_right (path p) (path_len p) = 0")
      case True
      then show ?thesis using nx pop by (simp add: CORD_pos_valid_def)
    next
      case pos: False
      let ?k = "pop_right (path p) (path_len p)"
      have k: "0 < ?k" "?k \<le> path_len p" "snd (path p (?k - 1)) \<le> ?i"
          "?i < snd (path p (?k - 1)) + length (cord_str (fst (path p (?k - 1))))"
        using pop pos by auto
      have "segment x (path p (?k - 1))" using path_segment [OF l(1), of "?k - 1"] k(2) by simp
      then have "?i < length (cord_str x)" using k(4) by (simp add: segment_def)
      then show ?thesis using extend_path_parent [OF l(1) k] nx pos by simp
    qed
  qed
qed

lemma CORD_next_ok:
  assumes "pos_ok x p" "length (cord_str x) < 2 ^ 31"
  shows "(Suc (cur_pos p) < length (cord_str x) \<longrightarrow> pos_ok x (CORD_next p)
            \<and> cur_pos (CORD_next p) = Suc (cur_pos p) \<and> (in_window p \<longrightarrow> in_window (CORD_next p)))
       \<and> (Suc (cur_pos p) = length (cord_str x) \<longrightarrow> \<not> CORD_pos_valid (CORD_next p))"
proof -
  note l = pos_ok_facts [OF assms(1)]
  have i32: "wadd (cur_pos p) (Suc 0) = Suc (cur_pos p)" using l(4,8,9) by simp
  show ?thesis
  proof (cases "Suc (cur_pos p) < cur_end p")
    case True
    then have nx: "CORD_next p = p\<lparr> cur_pos := Suc (cur_pos p) \<rparr>" using i32 by (simp add: CORD_next_def)
    have "cur_end p \<le> leaf_end p"
      using pos_ok_string [OF assms(1)] pos_ok_function(3) [OF assms(1)] True by fastforce
    then have "pos_ok x (CORD_next p)"
      using assms(1) True nx by (auto simp: pos_ok_def window_ok_def)
    moreover have "Suc (cur_pos p) < length (cord_str x)" using True l(8) \<open>cur_end p \<le> leaf_end p\<close> by simp
    ultimately show ?thesis using True nx by (auto simp: in_window_def)
  next
    case False
    then have "CORD_next p = CORD__next p" using i32 by (simp add: CORD_next_def)
    then show ?thesis using CORD__next_ok [OF assms(1) _ assms(2)] False by auto
  qed
qed

lemma CORD_prev_ok:
  assumes "pos_ok x p"
  shows "(0 < cur_pos p \<longrightarrow> (\<exists>p'. CORD_prev p = Some p' \<and> pos_ok x p' \<and> cur_pos p' = cur_pos p - 1))
       \<and> (cur_pos p = 0 \<longrightarrow> (\<exists>p'. CORD_prev p = Some p' \<and> \<not> CORD_pos_valid p'))"
proof -
  note l = pos_ok_facts [OF assms]
  show ?thesis
  proof (cases "leaf_start p < cur_pos p")
    case True
    then have "CORD_prev p = Some (p\<lparr> cur_pos := cur_pos p - 1 \<rparr>)"
      by (auto simp: CORD_prev_def CORD__prev_def Let_def)
    moreover have "pos_ok x (p\<lparr> cur_pos := cur_pos p - 1 \<rparr>)"
      using assms True by (auto simp: pos_ok_def window_ok_def)
    ultimately show ?thesis using True by auto
  next
    case False
    then have st: "leaf_start p = cur_pos p" using l(3) by simp
    have "\<not> (cur_end p \<noteq> 0 \<and> cur_pos p > cur_start p)"
      using pos_ok_string [OF assms] pos_ok_function(3) [OF assms] st by fastforce
    then have pv: "CORD_prev p = CORD__prev p" by (auto simp: CORD_prev_def)
    show ?thesis
    proof (cases "cur_pos p = 0")
      case True
      then show ?thesis using pv by (simp add: CORD__prev_def CORD_pos_valid_def)
    next
      case pos: False
      let ?k = "pop_left (path p) (path_len p)" and ?i = "cur_pos p - 1"
      have k: "0 < ?k" "?k \<le> path_len p" "snd (path p (?k - 1)) \<le> ?i"
          "?i < snd (path p (?k - 1)) + length (cord_str (fst (path p (?k - 1))))"
        using pop_left_spec [OF l(1) st] pos by auto
      have "\<not> cur_pos p \<le> cur_pos p - 1" using pos by simp
      then show ?thesis using extend_path_parent [OF l(1) k] pos pv st k(1) by (simp add: CORD__prev_def Let_def)
    qed
  qed
qed


section \<open>Starting a traversal\<close>

lemma CORD_set_pos_ok:
  assumes "cord_wf x" "i < length (cord_str x)"
  shows "pos_ok x (CORD_set_pos p x i) \<and> in_window (CORD_set_pos p x i) \<and> cur_pos (CORD_set_pos p x i) = i"
proof -
  have ne: "x \<noteq> CORD_EMPTY" using assms by auto
  let ?p = "p\<lparr> path := (path p)(0 := (x, 0)), path_len := 0, cur_pos := i \<rparr>"
  have "path_ok x (path ?p) (path_len ?p)" using assms ne by (simp add: path_ok_def)
  from extend_path_ok [OF this, of x 0] assms(2) ne show ?thesis by (simp add: CORD_set_pos_def)
qed

lemma extend_path_loop_past:
  assumes "cord_wf c" "c \<noteq> CORD_EMPTY" "start + length (cord_str c) \<le> pos" "start + length (cord_str c) < 2 ^ 32"
  shows "\<exists>pth' k' leaf start' len'. extend_path_loop pos c start (length (cord_str c)) k pth
      = (pth', k', leaf, start', len') \<and> wadd start' len' \<le> pos"
  using assms
proof (induction c arbitrary: start k pth)
  case (Concatenation d c n l r)
  let ?ll = "length (cord_str l)" and ?rl = "length (cord_str r)"
  have ll: "LEFT_LEN (Concatenation d c n l r) = ?ll" by (rule LEFT_LEN_cord_str [OF Concatenation.prems(1)])
  have w: "cord_wf r" "r \<noteq> CORD_EMPTY" "start + ?ll + ?rl \<le> pos" "start + ?ll + ?rl < 2 ^ 32"
    using Concatenation.prems by simp_all
  from Concatenation.IH(2) [OF w] w show ?case
    by (simp add: ll Let_def del: LEFT_LEN.simps)
qed auto

lemma CORD_set_pos_past:
  assumes "cord_wf x" "length (cord_str x) \<le> i"
  shows "\<not> CORD_pos_valid (CORD_set_pos p x i)"
proof (cases "x = CORD_EMPTY")
  case True
  then show ?thesis by (simp add: CORD_set_pos_def CORD_pos_valid_def)
next
  case False
  obtain pth k leaf st len where "extend_path_loop i x 0 (length (cord_str x)) 0 ((path p)(0 := (x, 0)))
      = (pth, k, leaf, st, len)" "wadd st len \<le> i"
    using extend_path_loop_past [OF assms(1) False, of 0 i 0 "(path p)(0 := (x, 0))"] assms(2)
      cord_len_bound [OF assms(1)] by auto
  then show ?thesis using False assms(1)
    by (simp add: CORD_set_pos_def CORD__extend_path_def CORD_pos_valid_def Let_def)
qed

lemma CORD_next_iterate:
  assumes "cord_wf x" "length (cord_str x) < 2 ^ 31" "i < length (cord_str x)"
  shows "pos_ok x ((CORD_next ^^ i) (CORD_set_pos p x 0)) \<and> in_window ((CORD_next ^^ i) (CORD_set_pos p x 0))
    \<and> cur_pos ((CORD_next ^^ i) (CORD_set_pos p x 0)) = i"
  using assms(3)
proof (induction i)
  case 0
  then show ?case using CORD_set_pos_ok [OF assms(1), of 0 p] by simp
next
  case (Suc i)
  then show ?case using CORD_next_ok [OF _ assms(2), of "(CORD_next ^^ i) (CORD_set_pos p x 0)"] by simp
qed

section \<open>Properties\<close>

text \<open>
  C25. The loop \<open>CORD_FOR\<close> visits every character of a cord exactly once and in order: after
  i steps of \<open>CORD_next\<close> from \<open>CORD_set_pos(p, x, 0)\<close> the position is valid and
  \<open>CORD_pos_fetch\<close> returns character i, and after as many steps as the cord is long the
  position is invalid. The path never grows beyond the array that holds it.
\<close>
theorem CORD_traversal:
  assumes "cord_wf x" "CORD_len x < 2 ^ 31" "i < CORD_len x"
  shows "CORD_pos_valid ((CORD_next ^^ i) (CORD_set_pos p x 0))
    \<and> CORD_pos_fetch ((CORD_next ^^ i) (CORD_set_pos p x 0)) = Some (cord_str x ! i)
    \<and> path_len ((CORD_next ^^ i) (CORD_set_pos p x 0)) \<le> MAX_DEPTH
    \<and> \<not> CORD_pos_valid ((CORD_next ^^ CORD_len x) (CORD_set_pos p x 0))"
proof -
  have len: "CORD_len x = length (cord_str x)" using assms(1) by simp
  note it = CORD_next_iterate [OF assms(1), of _ p]
  have "path_len ((CORD_next ^^ i) (CORD_set_pos p x 0)) < MAX_DEPTH"
    using it [of i] assms len path_ok_length pos_ok_facts(1) by metis
  moreover have "\<not> CORD_pos_valid ((CORD_next ^^ CORD_len x) (CORD_set_pos p x 0))"
  proof -
    obtain m where m: "CORD_len x = Suc m" using assms(3) by (cases "CORD_len x") auto
    then show ?thesis
      using it [of m] CORD_next_ok [of x "(CORD_next ^^ m) (CORD_set_pos p x 0)"] assms(2) len by simp
  qed
  ultimately show ?thesis
    using it [of i] assms len CORD_pos_fetch_ok pos_ok_valid by fastforce
qed

text \<open>
  C26. Random access: \<open>CORD_set_pos\<close> gives a valid position exactly for the indices inside
  the cord, and the character fetched there is the one at that index.
\<close>
theorem CORD_set_pos_correct:
  assumes "cord_wf x"
  shows "(CORD_pos_valid (CORD_set_pos p x i) \<longleftrightarrow> i < CORD_len x)
    \<and> (i < CORD_len x \<longrightarrow> CORD_pos_fetch (CORD_set_pos p x i) = Some (cord_str x ! i))"
  using CORD_set_pos_ok [OF assms, of i p] CORD_set_pos_past [OF assms, of i p] pos_ok_valid
    CORD_pos_fetch_ok assms by (cases "i < CORD_len x") auto

text \<open>
  \<open>CORD_prev\<close> moves back by one character, across leaf boundaries, and invalidates the
  position at the beginning; with the function version of \<open>CORD_pos_fetch\<close> the character
  fetched after the move is the right one.
\<close>
theorem CORD_prev_correct:
  assumes "pos_ok x p"
  shows "\<exists>p'. CORD_prev p = Some p' \<and> (CORD_pos_valid p' \<longleftrightarrow> 0 < cur_pos p) \<and>
    (0 < cur_pos p \<longrightarrow> pos_ok x p' \<and> CORD_pos_fetch_fn p' = Some (cord_str x ! (cur_pos p - 1)))"
  using CORD_prev_ok [OF assms] pos_ok_valid CORD_pos_fetch_fn_ok by (cases "0 < cur_pos p") fastforce+

text \<open>
  C27. The macro \<open>CORD_pos_fetch\<close> is wrong after stepping forward and back in a function
  leaf: the window then starts behind the current position, and the macro, which only tests
  that the window is not empty, reads in front of the buffer.
\<close>
theorem CORD_pos_fetch_before_window:
  assumes "1 < n" "n < 2 ^ 31"
  shows "\<exists>p'. CORD_prev (CORD_next (CORD_set_pos p (Function n f) 0)) = Some p' \<and> CORD_pos_valid p'
    \<and> CORD_pos_fetch p' = None \<and> CORD_pos_fetch_fn p' = Some (f 0)"
proof -
  define limit where "limit = min n 9"
  have lim: "1 < limit" "limit \<le> 9" using assms(1) by (auto simp: limit_def)
  have set: "CORD_set_pos p (Function n f) 0
      = p\<lparr> path := (path p)(0 := (Function n f, 0)), path_len := 0, cur_pos := 0, cur_end := 0 \<rparr>"
    using assms by (simp add: CORD_set_pos_def CORD__extend_path_def Let_def)
  have nx: "CORD_next (CORD_set_pos p (Function n f) 0)
      = p\<lparr> path := (path p)(0 := (Function n f, 0)), path_len := 0, cur_pos := 1, cur_start := 1,
           cur_leaf := map (\<lambda>i. f (wsub i 0)) [1 ..< limit], cur_end := limit \<rparr>"
    using assms unfolding set CORD_next_def CORD__next_def
    by (auto simp: Let_def FUNCTION_BUF_SZ_def limit_def min_def)
  have "wsub 0 (Suc 0) = 4294967295" by (simp add: wsub_def word32_def)
  then show ?thesis using lim unfolding nx
    by (simp add: CORD_prev_def CORD__prev_def CORD_pos_valid_def CORD_POS_INVALID_def CORD_pos_fetch_def
        CORD_pos_fetch_fn_def CORD__pos_fetch_def Let_def)
qed

text \<open>
  The function version of \<open>CORD_next\<close> never leaves a function leaf: with an empty window
  \<open>cur_end - 1\<close> wraps around, and the position is incremented past the end of the cord
  without ever becoming invalid.
\<close>
theorem CORD_next_fn_runs_past_end:
  assumes "0 < n" "n < 2 ^ 32" "i < 2 ^ 32 - 1"
  shows "CORD_pos_valid ((CORD_next_fn ^^ i) (CORD_set_pos p (Function n f) 0))
    \<and> cur_pos ((CORD_next_fn ^^ i) (CORD_set_pos p (Function n f) 0)) = i"
proof -
  have set: "CORD_set_pos p (Function n f) 0
      = p\<lparr> path := (path p)(0 := (Function n f, 0)), path_len := 0, cur_pos := 0, cur_end := 0 \<rparr>"
    using assms by (simp add: CORD_set_pos_def CORD__extend_path_def Let_def)
  have wrap: "wsub 0 (Suc 0) = 4294967295" by (simp add: wsub_def word32_def)
  have "(CORD_next_fn ^^ i) (CORD_set_pos p (Function n f) 0)
      = p\<lparr> path := (path p)(0 := (Function n f, 0)), path_len := 0, cur_pos := i, cur_end := 0 \<rparr>"
    using assms(3)
  proof (induction i)
    case (Suc i)
    then show ?case by (simp add: CORD_next_fn_def wrap)
  qed (simp add: set)
  then show ?thesis by (simp add: CORD_pos_valid_def CORD_POS_INVALID_def)
qed

section \<open>A concrete traversal\<close>

definition sample_pos :: cord_pos where
  "sample_pos = \<lparr> cur_pos = 0, path_len = 0, cur_leaf = [], cur_start = 0, cur_end = 0,
                  path = (\<lambda>_. (CORD_EMPTY, 0)) \<rparr>"

definition sample_cord :: cord where
  "sample_cord = concat_node sample_left sample_right"

lemma sample_cord_wf: "cord_wf sample_cord" "cord_str sample_cord = ''garbage collectedstrings''"
  by (simp_all add: sample_cord_def concat_node_def sample_left_def sample_right_def MAX_LEFT_LEN_def MAX_DEPTH_def)

theorem CORD_traversal_witness:
  "CORD_pos_fetch ((CORD_next ^^ 18) (CORD_set_pos sample_pos sample_cord 0)) = Some (CHR ''t'')"
  using CORD_traversal [of sample_cord 18 sample_pos] by (simp add: sample_cord_wf)

theorem CORD_set_pos_correct_witness:
  "CORD_pos_fetch (CORD_set_pos sample_pos sample_cord 3) = Some (CHR ''b'')"
  using CORD_set_pos_correct [of sample_cord sample_pos 3] by (simp add: sample_cord_wf)

theorem CORD_prev_correct_witness:
  "\<exists>p'. CORD_prev (CORD_set_pos sample_pos sample_cord 17) = Some p' \<and> CORD_pos_valid p'
     \<and> CORD_pos_fetch_fn p' = Some (CHR ''d'')"
proof -
  have "pos_ok sample_cord (CORD_set_pos sample_pos sample_cord 17)
      \<and> cur_pos (CORD_set_pos sample_pos sample_cord 17) = 17"
    using CORD_set_pos_ok [of sample_cord 17 sample_pos] by (simp add: sample_cord_wf)
  then show ?thesis
    using CORD_prev_correct [of sample_cord "CORD_set_pos sample_pos sample_cord 17"]
    by (auto simp: sample_cord_wf)
qed

theorem CORD_pos_fetch_before_window_witness:
  "\<exists>p'. CORD_prev (CORD_next (CORD_set_pos sample_pos (Function 20 (\<lambda>_. NUL)) 0)) = Some p'
     \<and> CORD_pos_fetch p' = None"
  using CORD_pos_fetch_before_window [of 20 sample_pos "\<lambda>_. NUL"] by auto

theorem CORD_next_fn_runs_past_end_witness:
  "CORD_pos_valid ((CORD_next_fn ^^ 30) (CORD_set_pos sample_pos (Function 20 (\<lambda>_. NUL)) 0))"
  using CORD_next_fn_runs_past_end [of 20 30 sample_pos "\<lambda>_. NUL"] by simp

end
