(* ===== verification/Cord_Extra.thy ===== *)
theory Cord_Extra
  imports Cord_Pos
begin

text \<open>
  The functions of \<^verbatim>\<open>bdwgc/cord/cordxtra.c\<close>, which use cords only through the primitives:
  conversion from and to C strings and files, searching and comparing, and the extensible
  cords of \<^verbatim>\<open>include/ec.h\<close>.
\<close>

section \<open>Building cords\<close>

definition CORD_chars :: "char \<Rightarrow> nat \<Rightarrow> cord" where
  "CORD_chars c i = CORD_from_fn (\<lambda>_. c) i"

abbreviation CORD_nul :: "nat \<Rightarrow> cord" where
  "CORD_nul i \<equiv> CORD_chars NUL i"

definition CORD_cat_char :: "cord \<Rightarrow> char \<Rightarrow> cord option" where
  "CORD_cat_char x c = (if c = NUL then CORD_cat x (CORD_nul 1) else CORD_cat_char_star x [c] 1)"

definition CORD_catn :: "cord list \<Rightarrow> cord option" where
  "CORD_catn args = foldl (\<lambda>r next. r \<bind> (\<lambda>result. CORD_cat result next)) (Some CORD_EMPTY) args"

section \<open>Conversion to C strings\<close>

text \<open>The client data of the filling functions: \<open>len\<close>, \<open>count\<close> and the buffer.\<close>

type_synonym CORD_fill_data = "nat \<times> nat \<times> (nat \<Rightarrow> char)"

fun CORD_fill_proc :: "char \<Rightarrow> CORD_fill_data \<Rightarrow> bool \<times> CORD_fill_data" where
  "CORD_fill_proc c (len, count, buf) = (Suc count \<ge> len, (len, Suc count, buf(count := c)))"

fun CORD_batched_fill_proc :: "string \<Rightarrow> CORD_fill_data \<Rightarrow> bool \<times> CORD_fill_data" where
  "CORD_batched_fill_proc [] (len, count, buf) = (False, (len, count, buf(count := NUL)))"
| "CORD_batched_fill_proc (c # s) (len, count, buf) =
     (if Suc count \<ge> len then (True, (len, Suc count, buf(count := c)))
      else CORD_batched_fill_proc s (len, Suc count, buf(count := c)))"

definition CORD_fill_buf :: "cord \<Rightarrow> nat \<Rightarrow> nat \<Rightarrow> (nat \<Rightarrow> char) \<Rightarrow> (nat \<Rightarrow> char) option" where
  "CORD_fill_buf x i len buf =
     map_option (\<lambda>(_, _, _, b). b)
       (CORD_iter5 x i CORD_fill_proc (Some CORD_batched_fill_proc) (len, 0, buf))"

text \<open>The block that \<open>GC_MALLOC_ATOMIC\<close> returns is not cleared: \<open>buf0\<close> is its contents.\<close>

definition CORD_to_char_star :: "(nat \<Rightarrow> char) \<Rightarrow> cord \<Rightarrow> string option" where
  "CORD_to_char_star buf0 x =
     map_option (\<lambda>b. map (b(CORD_len x := NUL)) [0 ..< CORD_len x]) (CORD_fill_buf x 0 (CORD_len x) buf0)"

definition CORD_from_char_star :: "string \<Rightarrow> cord" where
  "CORD_from_char_star s = (if length s = 0 then CORD_EMPTY else Str s)"

definition CORD_to_const_char_star :: "(nat \<Rightarrow> char) \<Rightarrow> cord \<Rightarrow> string option" where
  "CORD_to_const_char_star buf0 x =
     (case x of CORD_EMPTY \<Rightarrow> Some [] | Str s \<Rightarrow> Some s | _ \<Rightarrow> CORD_to_char_star buf0 x)"

definition CORD_fetch :: "cord_pos \<Rightarrow> cord \<Rightarrow> nat \<Rightarrow> char option" where
  "CORD_fetch xpos x i =
     (let p = CORD_set_pos xpos x i in if CORD_pos_valid p then CORD_pos_fetch p else None)"

section \<open>Searching for a character\<close>

definition CORD_NOT_FOUND :: nat where
  "CORD_NOT_FOUND = 2 ^ 32 - 1"

type_synonym chr_data = "nat \<times> char"

fun CORD_chr_proc :: "char \<Rightarrow> chr_data \<Rightarrow> bool \<times> chr_data" where
  "CORD_chr_proc c (pos, target) = (if c = target then (True, (pos, target)) else (False, (wadd pos 1, target)))"

fun CORD_rchr_proc :: "char \<Rightarrow> chr_data \<Rightarrow> bool \<times> chr_data" where
  "CORD_rchr_proc c (pos, target) = (if c = target then (True, (pos, target)) else (False, (wsub pos 1, target)))"

text \<open>\<open>strchr\<close> also finds the terminator of the string.\<close>

definition strchr :: "string \<Rightarrow> char \<Rightarrow> nat option" where
  "strchr s c =
     (if c \<in> set s then Some (length (takeWhile (\<lambda>d. d \<noteq> c) s))
      else if c = NUL then Some (length s) else None)"

fun CORD_batched_chr_proc :: "string \<Rightarrow> chr_data \<Rightarrow> bool \<times> chr_data" where
  "CORD_batched_chr_proc s (pos, target) =
     (case strchr s target of
        None \<Rightarrow> (False, (wadd pos (length s), target))
      | Some occ \<Rightarrow> (True, (wadd pos occ, target)))"

definition CORD_chr :: "cord \<Rightarrow> nat \<Rightarrow> char \<Rightarrow> nat option" where
  "CORD_chr x i c =
     map_option (\<lambda>(found, pos, _). if found then pos else CORD_NOT_FOUND)
       (CORD_iter5 x i CORD_chr_proc (Some CORD_batched_chr_proc) (i, c))"

definition CORD_rchr :: "cord \<Rightarrow> nat \<Rightarrow> char \<Rightarrow> nat option" where
  "CORD_rchr x i c =
     map_option (\<lambda>(found, pos, _). if found then pos else CORD_NOT_FOUND)
       (CORD_riter4 x i CORD_rchr_proc (i, c))"

section \<open>Comparison\<close>

definition char_diff :: "char \<Rightarrow> char \<Rightarrow> int" where
  "char_diff a b = (let s = (\<lambda>c. let n = of_char c in if n < 128 then int n else int n - 256) in s a - s b)"

fun strncmp :: "string \<Rightarrow> string \<Rightarrow> nat \<Rightarrow> int" where
  "strncmp s t 0 = 0"
| "strncmp s t (Suc n) =
     (let a = str_char s 0; b = str_char t 0 in
      if a \<noteq> b then int (of_char a) - int (of_char b)
      else if a = NUL then 0
      else strncmp (tl s) (tl t) n)"

partial_function (option) ncmp_loop :: "nat \<Rightarrow> cord_pos \<Rightarrow> cord_pos \<Rightarrow> nat \<Rightarrow> int option" where
  "ncmp_loop len xpos ypos count =
     (if \<not> count < len then Some 0
      else if \<not> CORD_pos_valid xpos then (if CORD_pos_valid ypos then Some (-1) else Some 0)
      else if \<not> CORD_pos_valid ypos then Some 1
      else if CORD_pos_chars_left xpos \<le> 0 \<or> CORD_pos_chars_left ypos \<le> 0
      then (case CORD_pos_fetch xpos of
              None \<Rightarrow> None
            | Some xcurrent \<Rightarrow>
                (case CORD_pos_fetch ypos of
                   None \<Rightarrow> None
                 | Some ycurrent \<Rightarrow>
                     (if xcurrent \<noteq> ycurrent then Some (char_diff xcurrent ycurrent)
                      else ncmp_loop len (CORD_next xpos) (CORD_next ypos) (wadd count 1))))
      else (let avail0 = nat (min (CORD_pos_chars_left xpos) (CORD_pos_chars_left ypos));
                count' = wadd count avail0;
                avail = (if count' > len then avail0 - (count' - len) else avail0);
                result = strncmp (CORD_pos_cur_char_addr xpos) (CORD_pos_cur_char_addr ypos) avail in
            if result \<noteq> 0 then Some result
            else ncmp_loop len (CORD_pos_advance xpos avail) (CORD_pos_advance ypos avail) count'))"

definition CORD_ncmp :: "cord_pos \<Rightarrow> cord \<Rightarrow> nat \<Rightarrow> cord \<Rightarrow> nat \<Rightarrow> nat \<Rightarrow> int option" where
  "CORD_ncmp p x x_start y y_start len = ncmp_loop len (CORD_set_pos p x x_start) (CORD_set_pos p y y_start) 0"

text \<open>
  \<open>CORD_str\<close> keeps the first characters of the pattern and the candidate characters packed
  in unsigned 32-bit words; \<open>shift_in\<close> is the pair of statements \<open>b <<= 8; b |= c\<close>.
\<close>

definition shift_in :: "nat \<Rightarrow> nat \<Rightarrow> nat" where
  "shift_in b c = word32 (b * 256 + c)"

partial_function (option) str_loop ::
    "cord_pos \<Rightarrow> cord \<Rightarrow> cord \<Rightarrow> nat \<Rightarrow> nat \<Rightarrow> nat \<Rightarrow> nat \<Rightarrow> nat \<Rightarrow> cord_pos \<Rightarrow> nat \<Rightarrow> nat \<Rightarrow> nat option" where
  "str_loop p x s xlen slen start_len msk s_buf xpos x_buf match_pos =
     (case (if x_buf AND msk = s_buf
            then (if slen = start_len then Some True
                  else map_option (\<lambda>r. r = 0)
                         (CORD_ncmp p x (wadd match_pos start_len) s start_len (slen - start_len)))
            else Some False) of
        None \<Rightarrow> None
      | Some found \<Rightarrow>
          (if found then Some match_pos
           else if match_pos = xlen - slen then Some CORD_NOT_FOUND
           else (case CORD_pos_fetch xpos of
                   None \<Rightarrow> None
                 | Some c \<Rightarrow> str_loop p x s xlen slen start_len msk s_buf (CORD_next xpos)
                               (shift_in x_buf (of_char c)) (wadd match_pos 1))))"

text \<open>The loop that packs the first \<open>start_len\<close> characters of both.\<close>

fun str_init :: "string \<Rightarrow> nat \<Rightarrow> nat \<Rightarrow> nat \<Rightarrow> cord_pos \<Rightarrow> (nat \<times> nat \<times> nat \<times> cord_pos) option" where
  "str_init [] msk s_buf x_buf xpos = Some (msk, s_buf, x_buf, xpos)"
| "str_init (c # cs) msk s_buf x_buf xpos =
     (case CORD_pos_fetch xpos of
        None \<Rightarrow> None
      | Some d \<Rightarrow> str_init cs (shift_in msk 255) (shift_in s_buf (of_char c)) (shift_in x_buf (of_char d))
                    (CORD_next xpos))"

definition CORD_str :: "(nat \<Rightarrow> char) \<Rightarrow> cord_pos \<Rightarrow> cord \<Rightarrow> nat \<Rightarrow> cord \<Rightarrow> nat option" where
  "CORD_str buf0 p x start s =
     (if s = CORD_EMPTY then Some start
      else do { (s_start, slen) \<leftarrow> (case s of
                  Str t \<Rightarrow> Some (t, length t)
                | _ \<Rightarrow> do { sub \<leftarrow> CORD_substr s 0 4; t \<leftarrow> CORD_to_char_star buf0 sub; Some (t, CORD_len s) });
                let xlen = CORD_len x in
                if xlen < start \<or> xlen - start < slen then Some CORD_NOT_FOUND
                else (let start_len = (if slen > 4 then 4 else slen) in
                      do { (msk, s_buf, x_buf, xpos) \<leftarrow>
                             str_init (take start_len s_start) 0 0 0 (CORD_set_pos p x start);
                           str_loop p x s xlen slen start_len msk s_buf xpos x_buf start }) })"

text \<open>
  \<open>CORD_cmp\<close> keeps the numbers of available characters in a \<open>size_t\<close>, so that its test
  \<open><= 0\<close> only recognises 0. An address behind the terminator of \<open>cur_leaf\<close> is \<open>None\<close>.
\<close>

definition chars_left_size_t :: "cord_pos \<Rightarrow> nat" where
  "chars_left_size_t p = nat (CORD_pos_chars_left p mod 2 ^ 32)"

definition addr_ok :: "cord_pos \<Rightarrow> bool" where
  "addr_ok p \<longleftrightarrow> wsub (cur_pos p) (cur_start p) \<le> length (cur_leaf p)"

partial_function (option) cmp_loop :: "cord_pos \<Rightarrow> cord_pos \<Rightarrow> int option" where
  "cmp_loop xpos ypos =
     (if \<not> CORD_pos_valid xpos then (if CORD_pos_valid ypos then Some (-1) else Some 0)
      else if \<not> CORD_pos_valid ypos then Some 1
      else if chars_left_size_t xpos = 0 \<or> chars_left_size_t ypos = 0
      then (case CORD_pos_fetch xpos of
              None \<Rightarrow> None
            | Some xcurrent \<Rightarrow>
                (case CORD_pos_fetch ypos of
                   None \<Rightarrow> None
                 | Some ycurrent \<Rightarrow>
                     (if xcurrent \<noteq> ycurrent then Some (char_diff xcurrent ycurrent)
                      else cmp_loop (CORD_next xpos) (CORD_next ypos))))
      else if \<not> addr_ok xpos \<or> \<not> addr_ok ypos then None
      else (let avail = min (chars_left_size_t xpos) (chars_left_size_t ypos);
                result = strncmp (CORD_pos_cur_char_addr xpos) (CORD_pos_cur_char_addr ypos) avail in
            if result \<noteq> 0 then Some result
            else cmp_loop (CORD_pos_advance xpos avail) (CORD_pos_advance ypos avail)))"

definition CORD_cmp :: "cord_pos \<Rightarrow> cord \<Rightarrow> cord \<Rightarrow> int option" where
  "CORD_cmp p x y =
     (if y = CORD_EMPTY then Some (if x \<noteq> CORD_EMPTY then 1 else 0)
      else if x = CORD_EMPTY then Some (-1)
      else case (x, y) of
        (Str s, Str t) \<Rightarrow> Some (strncmp s t (Suc (max (length s) (length t))))
      | _ \<Rightarrow> cmp_loop (CORD_set_pos p x 0) (CORD_set_pos p y 0))"

section \<open>Extensible cords and files read eagerly\<close>

definition CORD_BUFSZ :: nat where
  [gc_consts]: "CORD_BUFSZ = 128"

text \<open>\<open>ec_buf\<close> is the filled part of the buffer, up to \<open>ec_bufptr\<close>.\<close>

record CORD_ec =
  ec_cord :: cord
  ec_buf :: string

definition CORD_ec_init :: CORD_ec where
  "CORD_ec_init = \<lparr> ec_cord = CORD_EMPTY, ec_buf = [] \<rparr>"

definition CORD_ec_flush_buf :: "CORD_ec \<Rightarrow> CORD_ec option" where
  "CORD_ec_flush_buf x =
     (if length (ec_buf x) = 0 then Some x
      else map_option (\<lambda>c. x\<lparr> ec_cord := c, ec_buf := [] \<rparr>)
             (CORD_cat_char_star (ec_cord x) (ec_buf x) (length (ec_buf x))))"

definition CORD_ec_append :: "CORD_ec \<Rightarrow> char \<Rightarrow> CORD_ec option" where
  "CORD_ec_append x c =
     do { x' \<leftarrow> (if length (ec_buf x) = CORD_BUFSZ then CORD_ec_flush_buf x else Some x);
          Some (x'\<lparr> ec_buf := ec_buf x' @ [c] \<rparr>) }"

definition CORD_ec_append_cord :: "CORD_ec \<Rightarrow> cord \<Rightarrow> CORD_ec option" where
  "CORD_ec_append_cord x s =
     do { x' \<leftarrow> CORD_ec_flush_buf x;
          c \<leftarrow> CORD_cat (ec_cord x') s;
          Some (x'\<lparr> ec_cord := c \<rparr>) }"

definition CORD_ec_to_cord :: "CORD_ec \<Rightarrow> cord option" where
  "CORD_ec_to_cord x = map_option ec_cord (CORD_ec_flush_buf x)"

text \<open>The loop of \<open>CORD_from_file_eager\<close>; the characters not yet read are the argument.\<close>

function from_file_loop :: "string \<Rightarrow> CORD_ec \<Rightarrow> CORD_ec option" where
  "from_file_loop [] ecord = Some ecord"
| "from_file_loop (c # f) ecord =
     (if c = NUL
      then do { e1 \<leftarrow> CORD_ec_flush_buf ecord;
                c1 \<leftarrow> CORD_cat (ec_cord e1) (CORD_nul (Suc (length (takeWhile (\<lambda>d. d = NUL) f))));
                case dropWhile (\<lambda>d. d = NUL) f of
                  [] \<Rightarrow> Some (e1\<lparr> ec_cord := c1 \<rparr>)
                | d # g \<Rightarrow> do { e2 \<leftarrow> CORD_ec_append (e1\<lparr> ec_cord := c1 \<rparr>) d; from_file_loop g e2 } }
      else do { e1 \<leftarrow> CORD_ec_append ecord c; from_file_loop f e1 })"
  by pat_completeness auto
termination
proof (relation "measure (\<lambda>(f, e). length f)", goal_cases)
  case (2 c f ecord e1 c1 d g e2)
  then show ?case using length_dropWhile_le [of "\<lambda>d. d = NUL" f] by simp
qed auto

definition CORD_from_file_eager :: "string \<Rightarrow> cord option" where
  "CORD_from_file_eager f =
     do { ecord \<leftarrow> from_file_loop f CORD_ec_init;
          c \<leftarrow> CORD_ec_to_cord ecord;
          CORD_balance c }"

section \<open>Files read lazily\<close>

definition LOG_CACHE_SZ :: nat where [gc_consts]: "LOG_CACHE_SZ = 14"
definition LOG_LINE_SZ :: nat where [gc_consts]: "LOG_LINE_SZ = 9"
definition CACHE_SZ :: nat where [gc_consts]: "CACHE_SZ = 2 ^ LOG_CACHE_SZ"
definition LINE_SZ :: nat where [gc_consts]: "LINE_SZ = 2 ^ LOG_LINE_SZ"

text \<open>
  The state of a lazily read file: the stdio offset of the file, what the code believes it
  to be, and the direct-mapped cache of lines with their tags.
\<close>

record lf_state =
  lf_offset :: nat
  lf_current :: nat
  lf_cache :: "nat \<Rightarrow> (nat \<times> string) option"

definition refill_cache :: "string \<Rightarrow> nat \<Rightarrow> lf_state \<Rightarrow> (char \<times> lf_state) option" where
  "refill_cache file file_pos state =
     (let line_start = file_pos - file_pos mod LINE_SZ;
          line_no = file_pos mod CACHE_SZ div LINE_SZ;
          offset = (if line_start \<noteq> lf_current state then line_start else lf_offset state);
          data = take LINE_SZ (drop offset file) in
      if length data \<le> file_pos - line_start then None
      else Some (data ! (file_pos mod LINE_SZ),
                 state\<lparr> lf_offset := offset + length data,
                        lf_current := line_start + LINE_SZ,
                        lf_cache := (lf_cache state)(line_no \<mapsto> (file_pos div LINE_SZ, data)) \<rparr>))"

definition CORD_lf_func :: "string \<Rightarrow> nat \<Rightarrow> lf_state \<Rightarrow> (char \<times> lf_state) option" where
  "CORD_lf_func file i state =
     (case lf_cache state (i mod CACHE_SZ div LINE_SZ) of
        None \<Rightarrow> refill_cache file i state
      | Some (tag, data) \<Rightarrow>
          (if tag \<noteq> i div LINE_SZ then refill_cache file i state
           else if i mod LINE_SZ < length data then Some (data ! (i mod LINE_SZ), state)
           else None))"

definition lf_init :: "lf_state \<Rightarrow> lf_state" where
  "lf_init state = state\<lparr> lf_offset := 0, lf_current := 0, lf_cache := (\<lambda>_. None) \<rparr>"


section \<open>Concatenation of several cords\<close>

lemma CORD_chars_wf: "n < 2 ^ 32 \<Longrightarrow> cord_wf (CORD_chars c n)"
  and CORD_chars_str [simp]: "n < 2 ^ 32 \<Longrightarrow> cord_str (CORD_chars c n) = replicate n c"
  using CORD_from_fn_spec [of n "\<lambda>_. c"] by (simp_all add: CORD_chars_def map_replicate_const)

lemma CORD_cat_char_spec:
  assumes "cord_wf x" "length (cord_str x) + 1 < CORD_len_limit"
  shows "\<exists>r. CORD_cat_char x c = Some r \<and> cord_wf r \<and> cord_str r = cord_str x @ [c]"
proof (cases "c = NUL")
  case True
  have "cord_wf (CORD_nul 1)" "cord_str (CORD_nul 1) = [NUL]"
    using CORD_chars_wf [of 1 NUL] by simp_all
  then show ?thesis using True CORD_cat_spec [OF assms(1), of "CORD_nul 1"] assms(2)
    by (auto simp: CORD_cat_char_def)
next
  case False
  then have "cord_wf (Str [c])" by simp
  then show ?thesis using False CORD_cat_char_star_spec [OF assms(1), of "[c]"] assms(2)
    by (auto simp: CORD_cat_char_def)
qed

lemma CORD_catn_spec:
  assumes "list_all cord_wf xs" "length (concat (map cord_str xs)) < CORD_len_limit"
  shows "\<exists>c. CORD_catn xs = Some c \<and> cord_wf c \<and> cord_str c = concat (map cord_str xs)"
  using cords.cat_fold [of CORD_EMPTY xs] assms by (simp add: CORD_catn_def)

section \<open>Filling a buffer\<close>

definition fill_view :: "CORD_fill_data \<Rightarrow> nat \<times> string" where
  "fill_view = (\<lambda>(len, count, buf). (len, map buf [0 ..< count]))"

definition fill_step :: "char \<Rightarrow> nat \<times> string \<Rightarrow> bool \<times> nat \<times> string" where
  "fill_step c = (\<lambda>(len, cs). (Suc (length cs) \<ge> len, (len, cs @ [c])))"

lemma map_fun_upd_upt: "map (f(n := c)) [0 ..< n] = map f [0 ..< n]"
  by simp

lemma batched_fill_steps:
  "t \<noteq> [] \<Longrightarrow> CORD_batched_fill_proc t (len, count, buf) = (stop, len', count', buf') \<Longrightarrow> count < len \<Longrightarrow>
     (stop \<or> count' < len') \<and> iter_chars fill_step t (len, map buf [0 ..< count]) = (stop, len', map buf' [0 ..< count'])"
proof (induction t arbitrary: count buf)
  case (Cons c t)
  show ?case
  proof (cases "Suc count \<ge> len")
    case True
    then show ?thesis using Cons.prems by (auto simp: fill_step_def)
  next
    case False
    show ?thesis
    proof (cases "t = []")
      case True
      then show ?thesis using Cons.prems False by (auto simp: fill_step_def)
    next
      case ne: False
      have eq: "iter_chars fill_step (c # t) (len, map buf [0 ..< count])
          = iter_chars fill_step t (len, map (buf(count := c)) [0 ..< Suc count])"
        using False by (simp add: fill_step_def map_fun_upd_upt)
      show ?thesis unfolding eq
        by (rule Cons.IH [OF ne]) (use Cons.prems False in \<open>auto simp: fun_upd_def\<close>)
    qed
  qed
qed simp

interpretation fill_iter: batched_iter CORD_fill_proc CORD_batched_fill_proc
  "\<lambda>(len, count, buf). count < len" fill_view fill_step
proof (unfold_locales, goal_cases)
  case (1 s c stop s')
  then show ?case by (cases s) (auto simp: fill_view_def fill_step_def map_fun_upd_upt)
next
  case (2 s t stop s')
  obtain len count buf where s: "s = (len, count, buf)" by (cases s)
  obtain len' count' buf' where s': "s' = (len', count', buf')" by (cases s')
  show ?case
    using batched_fill_steps [of t len count buf stop len' count' buf'] 2 s s' by (simp add: fill_view_def)
qed

lemma iter_fill_step:
  "length cs + length t = len \<Longrightarrow> t \<noteq> [] \<Longrightarrow> iter_chars fill_step t (len, cs) = (True, (len, cs @ t))"
proof (induction t arbitrary: cs)
  case (Cons c t)
  show ?case
  proof (cases "t = []")
    case True
    then show ?thesis using Cons.prems by (simp add: fill_step_def)
  next
    case False
    then have "fill_step c (len, cs) = (False, (len, cs @ [c]))"
      using Cons.prems by (cases t) (auto simp: fill_step_def)
    then show ?thesis using Cons.IH [OF _ False, of "cs @ [c]"] Cons.prems by simp
  qed
qed simp

lemma CORD_to_char_star_spec:
  assumes "cord_wf x"
  shows "CORD_to_char_star buf0 x = Some (cord_str x)"
proof (cases "x = CORD_EMPTY")
  case True
  then show ?thesis by (simp add: CORD_to_char_star_def CORD_fill_buf_def CORD_len_def)
next
  case False
  let ?n = "length (cord_str x)"
  have n: "0 < ?n" "CORD_len x = ?n" using cord_str_nonempty [OF assms False] assms by simp_all
  have view0: "fill_view (?n, 0, buf0) = (?n, [])" by (simp add: fill_view_def)
  obtain stop s' where r: "CORD_iter5 x 0 CORD_fill_proc (Some CORD_batched_fill_proc) (?n, 0, buf0) = Some (stop, s')"
      "iter_chars fill_step (drop 0 (cord_str x)) (fill_view (?n, 0, buf0)) = (stop, fill_view s')"
    using fill_iter.iter5_steps [OF assms, of "(?n, 0, buf0)" 0] n(1) by (simp only: prod.case) blast
  have "fill_view s' = (?n, cord_str x)"
    using iter_fill_step [of "[]" "cord_str x" ?n] r(2) n(1) by (simp add: view0)
  then obtain count buf where s': "s' = (?n, count, buf)" "map buf [0 ..< count] = cord_str x"
    by (cases s') (simp add: fill_view_def)
  then have "count = ?n" by (metis diff_zero length_map length_upt)
  then show ?thesis using r(1) s' n(2)
    by (simp add: CORD_to_char_star_def CORD_fill_buf_def map_fun_upd_upt)
qed

section \<open>Searching\<close>

lemma iter_chr:
  "iter_chars CORD_chr_proc s (pos, t) =
     (if t \<in> set s then (True, (wadd pos (length (takeWhile (\<lambda>d. d \<noteq> t) s)), t))
      else (False, (wadd pos (length s), t)))" if "pos < 2 ^ 32"
  using that
proof (induction s arbitrary: pos)
  case (Cons c s)
  have "wadd pos 1 < 2 ^ 32" by (simp add: wadd_def word32_def)
  from Cons.IH [OF this] Cons.prems show ?case by simp
qed simp


interpretation chr_iter: batched_iter CORD_chr_proc CORD_batched_chr_proc
  "\<lambda>(pos, target). target \<noteq> NUL \<and> pos < 2 ^ 32" id CORD_chr_proc
proof (unfold_locales, goal_cases)
  case (1 s c stop s')
  then show ?case by (cases s) (auto simp: wadd_def word32_def split: if_splits)
next
  case (2 s t stop s')
  then show ?case
    by (cases s) (auto simp: iter_chr strchr_def wadd_def word32_def split: if_splits)
qed

text \<open>The first index at or after i, and the last at or before i, with a given character.\<close>

definition first_index :: "string \<Rightarrow> nat \<Rightarrow> char \<Rightarrow> nat option" where
  "first_index s i c = find (\<lambda>j. s ! j = c) [i ..< length s]"

definition last_index :: "string \<Rightarrow> nat \<Rightarrow> char \<Rightarrow> nat option" where
  "last_index s i c = find (\<lambda>j. s ! j = c) (rev [0 ..< Suc i])"

lemma find_map_index:
  "find (\<lambda>j. f j = c) xs = (if c \<in> set (map f xs)
     then Some (xs ! length (takeWhile (\<lambda>d. d \<noteq> c) (map f xs))) else None)"
  by (induction xs) auto

lemma first_index_takeWhile:
  assumes "i \<le> length s"
  shows "first_index s i c = (if c \<in> set (drop i s)
    then Some (i + length (takeWhile (\<lambda>d. d \<noteq> c) (drop i s))) else None)"
proof -
  have eq: "map (\<lambda>j. s ! j) [i ..< length s] = drop i s"
    using assms by (intro nth_equalityI) auto
  have "length (takeWhile (\<lambda>d. d \<noteq> c) (drop i s)) < length s - i" if "c \<in> set (drop i s)"
  proof -
    have "takeWhile (\<lambda>d. d \<noteq> c) (drop i s) \<noteq> drop i s" using that by (simp add: takeWhile_eq_all_conv)
    then show ?thesis using length_takeWhile_le [of "\<lambda>d. d \<noteq> c" "drop i s"]
      by (metis length_drop nat_less_le takeWhile_eq_take take_all_iff)
  qed
  then show ?thesis unfolding first_index_def find_map_index eq by auto
qed

lemma iter_rchr:
  assumes "i < length s" "length s < 2 ^ 32"
  shows "iter_chars CORD_rchr_proc (rev (take (Suc i) s)) (i, c) =
    (case last_index s i c of Some j \<Rightarrow> (True, (j, c)) | None \<Rightarrow> (False, (2 ^ 32 - 1, c)))"
  using assms(1)
proof (induction i)
  case 0
  then show ?case by (cases s) (auto simp: last_index_def wsub_def word32_def)
next
  case (Suc i)
  have t: "rev (take (Suc (Suc i)) s) = s ! Suc i # rev (take (Suc i) s)"
    using Suc.prems by (simp add: take_Suc_conv_app_nth)
  have "wsub (Suc i) 1 = i" using Suc.prems assms(2) by simp
  then show ?case using Suc.IH Suc.prems unfolding t by (auto simp: last_index_def)
qed

section \<open>Comparing\<close>

text \<open>A cursor: a position at index i of x, with i one past the end when it is invalid.\<close>

definition cursor :: "cord \<Rightarrow> cord_pos \<Rightarrow> nat \<Rightarrow> bool" where
  "cursor x p i \<longleftrightarrow> cord_wf x \<and> length (cord_str x) < 2 ^ 31 \<and> i \<le> length (cord_str x) \<and>
     (if i < length (cord_str x) then pos_ok x p \<and> in_window p \<and> cur_pos p = i else \<not> CORD_pos_valid p)"

lemma cursor_set_pos:
  "cord_wf x \<Longrightarrow> length (cord_str x) < 2 ^ 31 \<Longrightarrow> i \<le> length (cord_str x) \<Longrightarrow> cursor x (CORD_set_pos p x i) i"
  using CORD_set_pos_ok [of x i p] CORD_set_pos_past [of x i p] by (auto simp: cursor_def)

lemma cursor_valid: "cursor x p i \<Longrightarrow> CORD_pos_valid p \<longleftrightarrow> i < length (cord_str x)"
  using pos_ok_valid [of x p] by (auto simp: cursor_def split: if_splits)

lemma cursor_fetch: "cursor x p i \<Longrightarrow> i < length (cord_str x) \<Longrightarrow> CORD_pos_fetch p = Some (cord_str x ! i)"
  using CORD_pos_fetch_ok [of x p] by (auto simp: cursor_def)

lemma cursor_next:
  assumes "cursor x p i" "i < length (cord_str x)"
  shows "cursor x (CORD_next p) (Suc i)"
  using CORD_next_ok [of x p] assms by (auto simp: cursor_def Suc_le_eq intro: le_neq_implies_less)

lemma window_limits:
  assumes "pos_ok x p" "length (cord_str x) < 2 ^ 31" "cur_end p \<noteq> 0"
  shows "cur_end p \<le> length (cord_str x)" "CORD_pos_chars_left p = int (cur_end p) - int (cur_pos p)"
proof -
  note l = pos_ok_facts [OF assms(1)]
  have "cur_end p \<le> leaf_end p"
    using pos_ok_string [OF assms(1)] pos_ok_function(3) [OF assms(1)] assms(3) by fastforce
  then show "cur_end p \<le> length (cord_str x)" using l(8) by simp
  then show "CORD_pos_chars_left p = int (cur_end p) - int (cur_pos p)"
    using l(4,8) assms(2) by (simp add: CORD_pos_chars_left_def)
qed

lemma chars_left_window:
  assumes "cursor x p i" "i < length (cord_str x)" "0 < CORD_pos_chars_left p"
  shows "cur_end p \<noteq> 0" "CORD_pos_chars_left p = int (cur_end p) - int i" "cur_end p \<le> length (cord_str x)"
proof -
  have p: "pos_ok x p" "cur_pos p = i" "length (cord_str x) < 2 ^ 31" using assms(1,2) by (auto simp: cursor_def)
  show "cur_end p \<noteq> 0"
    using assms(2,3) p by (cases "cur_end p = 0") (auto simp: CORD_pos_chars_left_def)
  from window_limits [OF p(1,3) this] p(2)
  show "CORD_pos_chars_left p = int (cur_end p) - int i" "cur_end p \<le> length (cord_str x)" by simp_all
qed

lemma cursor_advance:
  assumes "cursor x p i" "i < length (cord_str x)" "0 < n" "int n \<le> CORD_pos_chars_left p"
  shows "i + n \<le> length (cord_str x)" "cursor x (CORD_pos_advance p n) (i + n)"
    "take n (CORD_pos_cur_char_addr p) = take n (drop i (cord_str x))"
proof -
  have p: "pos_ok x p" "in_window p" "cur_pos p = i" "cord_wf x" "length (cord_str x) < 2 ^ 31"
    using assms(1,2) by (auto simp: cursor_def)
  have pos: "0 < CORD_pos_chars_left p" using assms(3,4) by simp
  note w = chars_left_window [OF assms(1,2) pos]
  have n: "i + n \<le> cur_end p" using assms(4) w(2) by simp
  show "i + n \<le> length (cord_str x)" using n w(3) by simp
  have wok: "window_ok x p" using pos_ok_window [OF p(1) w(1)] .
  have start: "cur_start p \<le> i" using p(2,3) w(1) by (simp add: in_window_def)
  define q where "q = p\<lparr> cur_pos := i + n - 1 \<rparr>"
  have "wadd i (wsub n 1) = i + n - 1" using n w(3) p(5) assms(3) by simp
  then have adv: "CORD_pos_advance p n = CORD_next q" using p(3) by (simp add: CORD_pos_advance_def q_def)
  have ce: "cur_end p \<le> leaf_end p"
    using pos_ok_string [OF p(1)] pos_ok_function(3) [OF p(1)] w(1) by fastforce
  have "pos_ok x q"
    using p(1,3) n assms(3) ce by (auto simp: pos_ok_def q_def window_ok_def)
  moreover have "in_window q" using start n assms(3) by (auto simp: in_window_def q_def)
  ultimately have "cursor x q (i + n - 1)"
    using p n w(3) assms(3) by (auto simp: cursor_def q_def)
  from cursor_next [OF this] show "cursor x (CORD_pos_advance p n) (i + n)"
    using adv n w(3) assms(3) by simp
  have i32: "wsub i (cur_start p) = i - cur_start p" using start assms(2) p(5) by simp
  show "take n (CORD_pos_cur_char_addr p) = take n (drop i (cord_str x))"
  proof (rule nth_equalityI)
    show "length (take n (CORD_pos_cur_char_addr p)) = length (take n (drop i (cord_str x)))"
      using wok start n w(3) p(3) by (simp add: CORD_pos_cur_char_addr_def i32 window_ok_def)
  next
    fix j
    assume "j < length (take n (CORD_pos_cur_char_addr p))"
    then have j: "j < n" by simp
    have "CORD_pos_cur_char_addr p ! j = cur_leaf p ! (i + j - cur_start p)"
      using wok start n j p(3) by (simp add: CORD_pos_cur_char_addr_def i32 window_ok_def)
    also have "\<dots> = cord_str x ! (i + j)" using wok start n j by (auto simp: window_ok_def)
    finally show "take n (CORD_pos_cur_char_addr p) ! j = take n (drop i (cord_str x)) ! j"
      using j n w(3) by simp
  qed
qed


lemma char_diff_zero: "char_diff a b = 0 \<longleftrightarrow> a = b"
proof -
  have "(of_char a :: nat) < 256" "(of_char b :: nat) < 256" by simp_all
  then have "char_diff a b = 0 \<longleftrightarrow> int (of_char a) = int (of_char b)"
    unfolding char_diff_def Let_def by (simp only: split: if_split) linarith
  then show ?thesis by simp
qed

lemma strncmp_zero:
  assumes "n \<le> length s" "n \<le> length t" "NUL \<notin> set (take n s)"
  shows "strncmp s t n = 0 \<longleftrightarrow> take n s = take n t"
  using assms
proof (induction n arbitrary: s t)
  case (Suc n)
  then obtain a s' b t' where st: "s = a # s'" "t = b # t'" by (metis Suc_le_length_iff)
  then show ?case using Suc by (auto simp: str_char_def Let_def)
qed simp

lemma take_drop_split:
  "take (a + b) (drop i xs) = take a (drop i xs) @ take b (drop (i + a) xs)"
  by (simp add: take_add add.commute)

lemma take_drop_Suc:
  "i < length xs \<Longrightarrow> take (Suc b) (drop i xs) = xs ! i # take b (drop (Suc i) xs)"
  by (metis Cons_nth_drop_Suc take_Suc_Cons)

lemma compare_segments:
  assumes "a \<le> n" "i + a \<le> length xs" "j + a \<le> length ys"
  shows "take n (drop i xs) = take n (drop j ys) \<longleftrightarrow>
    take a (drop i xs) = take a (drop j ys) \<and> take (n - a) (drop (i + a) xs) = take (n - a) (drop (j + a) ys)"
  using take_drop_split [of a "n - a" i xs] take_drop_split [of a "n - a" j ys] assms by auto

lemma ncmp_loop_spec:
  assumes "NUL \<notin> set (cord_str x)" "NUL \<notin> set (cord_str y)" "len < 2 ^ 31"
    "cursor x xpos i" "cursor y ypos j" "count \<le> len"
  shows "\<exists>r. ncmp_loop len xpos ypos count = Some r \<and>
    (r = 0 \<longleftrightarrow> take (len - count) (drop i (cord_str x)) = take (len - count) (drop j (cord_str y)))"
  using assms(4-6)
proof (induction "len - count" arbitrary: xpos ypos i j count rule: less_induct)
  case less
  note X = less.prems(1) and Y = less.prems(2)
  let ?xs = "cord_str x" and ?ys = "cord_str y"
  note unfold = ncmp_loop.simps [of len xpos ypos count]
  have le: "i \<le> length ?xs" "j \<le> length ?ys" "length ?xs < 2 ^ 31" "length ?ys < 2 ^ 31"
    using X Y by (simp_all add: cursor_def)
  consider (fin) "count = len" | (xend) "count < len" "i = length ?xs" | (yend) "count < len" "i < length ?xs" "j = length ?ys"
    | (step) "count < len" "i < length ?xs" "j < length ?ys"
    using le less.prems(3) by linarith
  then show ?case
  proof cases
    case fin
    then show ?thesis using unfold by simp
  next
    case xend
    then show ?thesis using unfold cursor_valid [OF X] cursor_valid [OF Y] le(2)
      by (cases "j = length ?ys") auto
  next
    case yend
    then have "drop i ?xs \<noteq> []" by simp
    then show ?thesis using yend unfold cursor_valid [OF X] cursor_valid [OF Y] by auto
  next
    case step
    have v: "CORD_pos_valid xpos" "CORD_pos_valid ypos" using step cursor_valid [OF X] cursor_valid [OF Y] by auto
    show ?thesis
    proof (cases "CORD_pos_chars_left xpos \<le> 0 \<or> CORD_pos_chars_left ypos \<le> 0")
      case True
      have one: "take (len - count) (drop i ?xs) = take (len - count) (drop j ?ys) \<longleftrightarrow> ?xs ! i = ?ys ! j \<and>
          take (len - Suc count) (drop (Suc i) ?xs) = take (len - Suc count) (drop (Suc j) ?ys)"
        using take_drop_Suc [OF step(2), of "len - Suc count"] take_drop_Suc [OF step(3), of "len - Suc count"] step(1)
        by (metis Suc_diff_Suc list.inject)
      have eq: "ncmp_loop len xpos ypos count = (if ?xs ! i \<noteq> ?ys ! j then Some (char_diff (?xs ! i) (?ys ! j))
          else ncmp_loop len (CORD_next xpos) (CORD_next ypos) (Suc count))"
        using unfold step v True cursor_fetch [OF X step(2)] cursor_fetch [OF Y step(3)] assms(3) by simp
      show ?thesis
      proof (cases "?xs ! i = ?ys ! j")
        case False
        then show ?thesis using eq one by (simp add: char_diff_zero)
      next
        case same: True
        have "len - Suc count < len - count" "Suc count \<le> len" using step(1) by simp_all
        from less.hyps [OF this(1) cursor_next [OF X step(2)] cursor_next [OF Y step(3)] this(2)] same
        show ?thesis unfolding eq one by simp
      qed
    next
      case False
      define a0 where "a0 = nat (min (CORD_pos_chars_left xpos) (CORD_pos_chars_left ypos))"
      define a where "a = min a0 (len - count)"
      have a0: "0 < a0" "int a0 \<le> CORD_pos_chars_left xpos" "int a0 \<le> CORD_pos_chars_left ypos"
        using False by (auto simp: a0_def)
      have a: "0 < a" "int a \<le> CORD_pos_chars_left xpos" "int a \<le> CORD_pos_chars_left ypos" "a \<le> len - count"
        using a0 step(1) by (auto simp: a_def)
      note AX = cursor_advance [OF X step(2) a(1,2)] and AY = cursor_advance [OF Y step(3) a(1,3)]
      have sum: "wadd count a0 = count + a0"
        using cursor_advance(1) [OF X step(2) a0(1,2)] le(3) assms(3) step(1) by simp
      have av: "(if count + a0 > len then a0 - (count + a0 - len) else a0) = a"
        using step(1) by (auto simp: a_def min_def)
      have eq: "ncmp_loop len xpos ypos count =
          (if strncmp (CORD_pos_cur_char_addr xpos) (CORD_pos_cur_char_addr ypos) a \<noteq> 0
           then Some (strncmp (CORD_pos_cur_char_addr xpos) (CORD_pos_cur_char_addr ypos) a)
           else ncmp_loop len (CORD_pos_advance xpos a) (CORD_pos_advance ypos a) (count + a0))"
        using step v False unfolding unfold Let_def a0_def [symmetric] sum av by simp
      have lens: "a \<le> length (CORD_pos_cur_char_addr xpos)" "a \<le> length (CORD_pos_cur_char_addr ypos)"
        using arg_cong [OF AX(3), of length] arg_cong [OF AY(3), of length] AX(1) AY(1) by simp_all
      have "NUL \<notin> set (take a (CORD_pos_cur_char_addr xpos))"
        unfolding AX(3) using assms(1) by (auto dest: in_set_takeD in_set_dropD)
      from strncmp_zero [OF lens this]
      have cmp: "strncmp (CORD_pos_cur_char_addr xpos) (CORD_pos_cur_char_addr ypos) a = 0 \<longleftrightarrow>
          take a (drop i ?xs) = take a (drop j ?ys)" unfolding AX(3) AY(3) .
      note seg = compare_segments [OF a(4) AX(1) AY(1)]
      show ?thesis
      proof (cases "take a (drop i ?xs) = take a (drop j ?ys)")
        case diff: False
        then show ?thesis using eq cmp seg by simp
      next
        case same: True
        show ?thesis
        proof (cases "count + a0 \<le> len")
          case True
          then have "a = a0" by (simp add: a_def)
          have "len - (count + a0) < len - count" using a0(1) step(1) by simp
          from less.hyps [OF this AX(2) AY(2) True] same cmp show ?thesis
            unfolding eq seg \<open>a = a0\<close> by simp
        next
          case over: False
          then have "a = len - count" by (simp add: a_def)
          have z: "strncmp (CORD_pos_cur_char_addr xpos) (CORD_pos_cur_char_addr ypos) a = 0"
            using cmp same by blast
          have fin: "ncmp_loop len p q (count + a0) = Some 0" for p q
            using over by (subst ncmp_loop.simps) simp
          have "ncmp_loop len xpos ypos count = Some 0" unfolding eq z fin by simp
          with same show ?thesis unfolding \<open>a = len - count\<close> by simp
        qed
      qed
    qed
  qed
qed


section \<open>Extensible cords\<close>

definition ec_str :: "CORD_ec \<Rightarrow> string" where
  "ec_str x = cord_str (ec_cord x) @ ec_buf x"

definition ec_ok :: "CORD_ec \<Rightarrow> bool" where
  "ec_ok x \<longleftrightarrow> cord_wf (ec_cord x) \<and> NUL \<notin> set (ec_buf x) \<and> length (ec_buf x) \<le> CORD_BUFSZ"

lemma CORD_ec_flush_buf_spec:
  assumes "ec_ok x" "length (ec_str x) < CORD_len_limit"
  shows "\<exists>y. CORD_ec_flush_buf x = Some y \<and> ec_ok y \<and> ec_str y = ec_str x \<and> ec_buf y = []"
proof (cases "ec_buf x = []")
  case True
  then show ?thesis using assms by (simp add: CORD_ec_flush_buf_def)
next
  case False
  have "length (ec_buf x) < 2 ^ 32" using assms(1) by (simp add: ec_ok_def CORD_BUFSZ_def)
  then have "cord_wf (Str (ec_buf x))" using assms(1) False by (simp add: ec_ok_def)
  then obtain c where "CORD_cat_char_star (ec_cord x) (ec_buf x) (length (ec_buf x)) = Some c" "cord_wf c"
      "cord_str c = cord_str (ec_cord x) @ ec_buf x"
    using CORD_cat_char_star_spec [of "ec_cord x" "ec_buf x"] assms by (auto simp: ec_ok_def ec_str_def)
  then show ?thesis using False by (simp add: CORD_ec_flush_buf_def ec_ok_def ec_str_def)
qed

lemma CORD_ec_append_spec:
  assumes "ec_ok x" "c \<noteq> NUL" "length (ec_str x) < CORD_len_limit"
  shows "\<exists>y. CORD_ec_append x c = Some y \<and> ec_ok y \<and> ec_str y = ec_str x @ [c]"
proof (cases "length (ec_buf x) = CORD_BUFSZ")
  case True
  then show ?thesis using CORD_ec_flush_buf_spec [OF assms(1,3)] assms(2)
    by (auto simp: CORD_ec_append_def ec_ok_def ec_str_def CORD_BUFSZ_def)
next
  case False
  then show ?thesis using assms by (auto simp: CORD_ec_append_def ec_ok_def ec_str_def)
qed

lemma from_file_loop_spec:
  assumes "ec_ok x" "length (ec_str x) + length f < CORD_len_limit"
  shows "\<exists>y. from_file_loop f x = Some y \<and> ec_ok y \<and> ec_str y = ec_str x @ f"
  using assms
proof (induction f x rule: from_file_loop.induct)
  case (1 x)
  then show ?case by simp
next
  case (2 c f x)
  show ?case
  proof (cases "c = NUL")
    case False
    obtain y where y: "CORD_ec_append x c = Some y" "ec_ok y" "ec_str y = ec_str x @ [c]"
      using CORD_ec_append_spec [OF "2.prems"(1) False] "2.prems"(2) by auto
    then show ?thesis using "2.IH"(2) [OF False y(1,2)] False "2.prems"(2) by simp
  next
    case True
    define k where "k = Suc (length (takeWhile (\<lambda>d. d = NUL) f))"
    have "takeWhile (\<lambda>d. d = NUL) f = replicate (k - 1) NUL"
      unfolding k_def by (simp, rule sym, rule replicate_length_same) (auto dest: set_takeWhileD)
    then have f: "f = replicate (k - 1) NUL @ dropWhile (\<lambda>d. d = NUL) f"
      using takeWhile_dropWhile_id [of "\<lambda>d. d = NUL" f] by simp
    have "k \<le> Suc (length f)" using length_takeWhile_le [of "\<lambda>d. d = NUL" f] by (simp add: k_def)
    then have k32: "k < 2 ^ 32" using "2.prems"(2) by (simp add: CORD_len_limit_def)
    obtain e1 where e1: "CORD_ec_flush_buf x = Some e1" "ec_ok e1" "ec_str e1 = ec_str x" "ec_buf e1 = []"
      using CORD_ec_flush_buf_spec [OF "2.prems"(1)] "2.prems"(2) by auto
    have len1: "length (cord_str (ec_cord e1)) + length (cord_str (CORD_nul k)) < CORD_len_limit"
      using e1 "2.prems"(2) k32 \<open>k \<le> Suc (length f)\<close> by (simp add: ec_str_def)
    obtain c1 where c1: "CORD_cat (ec_cord e1) (CORD_nul k) = Some c1" "cord_wf c1"
        "cord_str c1 = cord_str (ec_cord e1) @ replicate k NUL"
      using CORD_cat_spec [OF _ CORD_chars_wf [OF k32] len1] e1(2) k32 by (auto simp: ec_ok_def)
    let ?e = "e1\<lparr> ec_cord := c1 \<rparr>"
    have e: "ec_ok ?e" "ec_str ?e = ec_str x @ replicate k NUL"
      using c1 e1 by (simp_all add: ec_ok_def ec_str_def)
    show ?thesis
    proof (cases "dropWhile (\<lambda>d. d = NUL) f")
      case Nil
      have "f = replicate (k - 1) NUL" using f unfolding Nil by simp
      then have "c # f = replicate k NUL" using True by (metis k_def diff_Suc_1 replicate_Suc)
      moreover have "from_file_loop (c # f) x = Some ?e"
        using True e1(1) c1(1) [unfolded k_def] by (simp add: Nil del: dropWhile_eq_Nil_conv)
      ultimately show ?thesis using e by simp
    next
      case (Cons d g)
      have d: "d \<noteq> NUL" using hd_dropWhile [of "\<lambda>d. d = NUL" f] Cons by simp
      have "f = replicate (k - 1) NUL @ d # g" using f unfolding Cons .
      then have cf: "c # f = replicate k NUL @ d # g"
        using True by (metis append_Cons k_def diff_Suc_1 replicate_Suc)
      have le: "length (ec_str ?e) < CORD_len_limit" using e(2) "2.prems"(2) unfolding cf by simp
      obtain y where y: "CORD_ec_append ?e d = Some y" "ec_ok y" "ec_str y = ec_str ?e @ [d]"
        using CORD_ec_append_spec [OF e(1) d le] by blast
      have rest: "\<exists>z. from_file_loop g y = Some z \<and> ec_ok z \<and> ec_str z = ec_str y @ g"
        by (rule "2.IH"(1) [OF True e1(1) c1(1) [unfolded k_def] Cons y(1,2)])
          (use y(3) e(2) "2.prems"(2) in \<open>unfold cf, simp\<close>)
      have "from_file_loop (c # f) x = from_file_loop g y"
        using True e1(1) c1(1) [unfolded k_def] Cons y(1) by simp
      moreover have "ec_str y @ g = ec_str x @ (c # f)" unfolding cf y(3) e(2) by simp
      ultimately show ?thesis using rest by simp
    qed
  qed
qed

section \<open>The line cache of a lazily read file\<close>

definition lf_ok :: "string \<Rightarrow> lf_state \<Rightarrow> bool" where
  "lf_ok file st \<longleftrightarrow> lf_offset st = min (lf_current st) (length file)
     \<and> (\<forall>n tag data. lf_cache st n = Some (tag, data) \<longrightarrow> data = take LINE_SZ (drop (tag * LINE_SZ) file))"

lemma LINE_SZ_pos [simp]: "0 < LINE_SZ"
  by (simp add: LINE_SZ_def)

lemma line_nth:
  assumes "i < length file"
  shows "i mod LINE_SZ < length (take LINE_SZ (drop (i div LINE_SZ * LINE_SZ) file))"
    "take LINE_SZ (drop (i div LINE_SZ * LINE_SZ) file) ! (i mod LINE_SZ) = file ! i"
proof -
  have i: "i div LINE_SZ * LINE_SZ + i mod LINE_SZ = i" "i mod LINE_SZ < LINE_SZ"
    "i div LINE_SZ * LINE_SZ \<le> i" by (simp_all add: times_div_less_eq_dividend mult.commute)
  then have "i mod LINE_SZ < length file - i div LINE_SZ * LINE_SZ" using assms by linarith
  then show "i mod LINE_SZ < length (take LINE_SZ (drop (i div LINE_SZ * LINE_SZ) file))"
    using i(2) by simp
  show "take LINE_SZ (drop (i div LINE_SZ * LINE_SZ) file) ! (i mod LINE_SZ) = file ! i"
  proof -
    have "drop (i div LINE_SZ * LINE_SZ) file ! (i mod LINE_SZ) = file ! (i div LINE_SZ * LINE_SZ + i mod LINE_SZ)"
      by (rule nth_drop) (use i(3) assms in linarith)
    then show ?thesis using i by simp
  qed
qed

lemma refill_cache_spec:
  assumes "lf_ok file st" "i < length file"
  shows "\<exists>st'. refill_cache file i st = Some (file ! i, st') \<and> lf_ok file st'"
proof -
  define ls where "ls = i div LINE_SZ * LINE_SZ"
  have ls: "i - i mod LINE_SZ = ls" "ls \<le> i" "i - ls = i mod LINE_SZ"
    unfolding ls_def by (simp_all add: minus_mod_eq_div_mult minus_div_mult_eq_mod)
  have off: "(if ls \<noteq> lf_current st then ls else lf_offset st) = ls"
    using assms ls(2) by (auto simp: lf_ok_def)
  let ?data = "take LINE_SZ (drop ls file)"
  have d: "i mod LINE_SZ < length ?data" "?data ! (i mod LINE_SZ) = file ! i"
    using line_nth [OF assms(2)] by (simp_all only: ls_def)
  have "lf_ok file (st\<lparr> lf_offset := ls + length ?data, lf_current := ls + LINE_SZ,
      lf_cache := (lf_cache st)(i mod CACHE_SZ div LINE_SZ \<mapsto> (i div LINE_SZ, ?data)) \<rparr>)"
    using assms ls(2) by (auto simp: lf_ok_def ls_def [symmetric] min_def split: if_splits)
  then show ?thesis
    using d unfolding refill_cache_def Let_def ls(1) off ls(3) by (simp add: not_le)
qed

lemma CORD_lf_func_spec:
  assumes "lf_ok file st" "i < length file"
  shows "\<exists>st'. CORD_lf_func file i st = Some (file ! i, st') \<and> lf_ok file st'"
proof (cases "lf_cache st (i mod CACHE_SZ div LINE_SZ)")
  case None
  then show ?thesis using refill_cache_spec [OF assms] by (simp add: CORD_lf_func_def)
next
  case (Some e)
  obtain tag data where e: "e = (tag, data)" by fastforce
  then have data: "data = take LINE_SZ (drop (tag * LINE_SZ) file)"
    using assms(1) Some by (simp add: lf_ok_def)
  show ?thesis
  proof (cases "tag = i div LINE_SZ")
    case True
    have "i mod LINE_SZ < length data" "data ! (i mod LINE_SZ) = file ! i"
      using line_nth [OF assms(2)] by (simp_all only: data True)
    then show ?thesis using Some e True assms(1) by (simp add: CORD_lf_func_def)
  next
    case False
    then show ?thesis using refill_cache_spec [OF assms] Some e by (simp add: CORD_lf_func_def)
  qed
qed


section \<open>Searching for a string\<close>

definition packed :: "string \<Rightarrow> nat" where
  "packed t = foldl (\<lambda>b c. b * 256 + of_char c) 0 t"

lemma packed_Nil [simp]: "packed [] = 0"
  by (simp add: packed_def)

lemma packed_snoc [simp]: "packed (t @ [c]) = packed t * 256 + of_char c"
  by (simp add: packed_def)

lemma packed_less: "packed t < 256 ^ length t"
proof (induction t rule: rev_induct)
  case (snoc c t)
  have "packed t * 256 + 256 \<le> 256 ^ length t * 256" using snoc by (simp add: Suc_le_eq [symmetric])
  then have "packed t * 256 + of_char c < 256 ^ length t * 256"
    using nat_of_char_less_256 [of c] by linarith
  then show ?case by (simp add: mult.commute)
qed simp

lemma packed_Cons: "packed (c # t) = of_char c * 256 ^ length t + packed t"
proof (induction t rule: rev_induct)
  case Nil
  then show ?case by (simp add: packed_def)
next
  case (snoc d t)
  have "packed (c # t @ [d]) = packed ((c # t) @ [d])" by simp
  then show ?case unfolding packed_snoc snoc by (simp add: algebra_simps)
qed

lemma digits_inj:
  assumes "a < 256" "b < (256 :: nat)"
  shows "p * 256 + a = q * 256 + b \<longleftrightarrow> p = q \<and> a = b"
proof
  assume e: "p * 256 + a = q * 256 + b"
  have "p = (p * 256 + a) div 256" "q = (q * 256 + b) div 256" using assms by simp_all
  with e show "p = q \<and> a = b" by simp
qed simp

lemma packed_inj: "length s = length t \<Longrightarrow> packed s = packed t \<longleftrightarrow> s = t"
proof (induction s arbitrary: t rule: rev_induct)
  case (snoc c s)
  then obtain d u where t: "t = u @ [d]" by (metis length_0_conv rev_exhaust snoc_eq_iff_butlast)
  then show ?case
    using snoc digits_inj [OF nat_of_char_less_256 [of c] nat_of_char_less_256 [of d], of "packed s" "packed u"]
    by simp
qed simp

lemma shift_in_small:
  assumes "b < 256 ^ k" "k \<le> 3" "c < 256"
  shows "shift_in b c = b * 256 + c"
proof -
  have "(256 :: nat) ^ k \<le> 256 ^ 3" using assms(2) by (intro power_increasing) auto
  then have "b * 256 + c < 2 ^ 32" using assms(1,3) by simp
  then show ?thesis by (simp only: shift_in_def word32_id)
qed

lemma shift_in_mod:
  assumes "k \<le> 4" "b mod 256 ^ k = packed t" "length t = k" "0 < k"
  shows "shift_in b (of_char c) mod 256 ^ k = packed (tl t @ [c])"
proof -
  obtain a u where t: "t = a # u" using assms(3,4) by (cases t) auto
  then have k: "k = Suc (length u)" using assms(3) by simp
  have "(256 :: nat) ^ k dvd 2 ^ 32"
    using assms(1) le_imp_power_dvd [of "8 * k" 32 "2 :: nat"] by (simp add: power_mult)
  then have "shift_in b (of_char c) mod 256 ^ k = (b * 256 + of_char c) mod 256 ^ k"
    by (simp add: shift_in_def word32_def mod_mod_cancel)
  also have "\<dots> = (packed t * 256 + of_char c) mod 256 ^ k"
    using assms(2) by (metis mod_add_left_eq mod_mult_left_eq)
  also have "packed t * 256 + of_char c = of_char a * 256 ^ k + packed (u @ [c])"
    by (simp add: t k packed_Cons algebra_simps)
  also have "\<dots> mod 256 ^ k = packed (u @ [c])"
    using packed_less [of "u @ [c]"] k by simp
  finally show ?thesis by (simp add: t)
qed

lemma mask_mod: "(b :: nat) AND (256 ^ k - 1) = b mod 256 ^ k"
proof -
  have "(256 :: nat) ^ k - 1 = mask (8 * k)" by (simp add: mask_eq_exp_minus_1 power_mult)
  then show ?thesis by (simp add: power_mult take_bit_eq_mask [symmetric] take_bit_eq_mod)
qed

text \<open>The packing loop, when cs and the characters at the cursor are to be compared.\<close>

lemma str_init_spec:
  assumes "cursor x xpos (i + length t)" "length (u @ cs) \<le> 4" "i + length t + length cs \<le> length (cord_str x)"
    "length t = length u" "t = take (length u) (drop i (cord_str x))"
  shows "\<exists>xpos'. str_init cs (256 ^ length u - 1) (packed u) (packed t) xpos
      = Some (256 ^ length (u @ cs) - 1, packed (u @ cs), packed (take (length (u @ cs)) (drop i (cord_str x))), xpos')
    \<and> cursor x xpos' (i + length (u @ cs))"
  using assms
proof (induction cs arbitrary: u t xpos)
  case Nil
  then show ?case by simp
next
  case (Cons c cs)
  let ?d = "cord_str x ! (i + length t)"
  have lt: "i + length t < length (cord_str x)" using Cons.prems(3) by simp
  have fetch: "CORD_pos_fetch xpos = Some ?d" by (rule cursor_fetch [OF Cons.prems(1) lt])
  have u3: "length u \<le> 3" using Cons.prems(2) by simp
  have p: "packed u < 256 ^ length u" "packed t < 256 ^ length u"
    using packed_less [of u] packed_less [of t] Cons.prems(4) by simp_all
  have m: "256 ^ length u - 1 < (256 :: nat) ^ length u" by simp
  have sh: "shift_in (256 ^ length u - 1) 255 = 256 ^ length (u @ [c]) - 1"
    "shift_in (packed u) (of_char c) = packed (u @ [c])" "shift_in (packed t) (of_char ?d) = packed (t @ [?d])"
    using shift_in_small [OF p(1) u3 nat_of_char_less_256] shift_in_small [OF p(2) u3 nat_of_char_less_256]
      shift_in_small [OF m u3, of 255] m by (simp_all add: algebra_simps)
  have snoc: "t @ [?d] = take (length (u @ [c])) (drop i (cord_str x))"
    using Cons.prems(4,5) lt by (simp add: take_Suc_conv_app_nth)
  have "\<exists>xpos'. str_init cs (256 ^ length (u @ [c]) - 1) (packed (u @ [c])) (packed (t @ [?d])) (CORD_next xpos)
      = Some (256 ^ length ((u @ [c]) @ cs) - 1, packed ((u @ [c]) @ cs),
          packed (take (length ((u @ [c]) @ cs)) (drop i (cord_str x))), xpos')
    \<and> cursor x xpos' (i + length ((u @ [c]) @ cs))"
    by (rule Cons.IH) (use cursor_next [OF Cons.prems(1) lt] Cons.prems snoc in auto)
  then show ?case using fetch sh by (simp only: str_init.simps option.case append_assoc append_Cons append_Nil)
qed


lemma CORD_ncmp_spec:
  assumes "cord_wf x" "cord_wf y" "length (cord_str x) < 2 ^ 31" "length (cord_str y) < 2 ^ 31"
    "NUL \<notin> set (cord_str x)" "NUL \<notin> set (cord_str y)" "i \<le> length (cord_str x)" "j \<le> length (cord_str y)"
    "len < 2 ^ 31"
  shows "\<exists>r. CORD_ncmp p x i y j len = Some r \<and>
    (r = 0 \<longleftrightarrow> take len (drop i (cord_str x)) = take len (drop j (cord_str y)))"
  using ncmp_loop_spec [OF assms(5,6,9) cursor_set_pos [OF assms(1,3,7)] cursor_set_pos [OF assms(2,4,8)], of 0]
  by (simp add: CORD_ncmp_def)

lemma str_loop_spec:
  assumes x: "cord_wf x" "length (cord_str x) < 2 ^ 31" "NUL \<notin> set (cord_str x)"
    and s: "cord_wf s" "NUL \<notin> set (cord_str s)" "0 < length (cord_str s)" "length (cord_str s) \<le> length (cord_str x)"
    and k: "k = min 4 (length (cord_str s))"
    and st: "cursor x xpos (i + k)" "x_buf mod 256 ^ k = packed (take k (drop i (cord_str x)))"
      "i \<le> length (cord_str x) - length (cord_str s)"
  shows "str_loop p x s (length (cord_str x)) (length (cord_str s)) k (256 ^ k - 1) (packed (take k (cord_str s))) xpos x_buf i
    = Some (case find (\<lambda>j. take (length (cord_str s)) (drop j (cord_str x)) = cord_str s)
                   [i ..< Suc (length (cord_str x) - length (cord_str s))] of
              Some j \<Rightarrow> j | None \<Rightarrow> CORD_NOT_FOUND)"
  using st
proof (induction "length (cord_str x) - length (cord_str s) - i" arbitrary: i xpos x_buf rule: less_induct)
  case less
  let ?xs = "cord_str x" and ?ss = "cord_str s"
  let ?m = "\<lambda>j. take (length ?ss) (drop j ?xs) = ?ss"
  have kb: "k \<le> length ?ss" "k \<le> 4" "0 < k" "i + k \<le> length ?xs" using k s(3,4) less.prems(3) by auto
  have w: "wadd i k = i + k" "wadd i 1 = Suc i" using kb(4) x(2) by simp_all
  have head: "x_buf AND (256 ^ k - 1) = packed (take k ?ss) \<longleftrightarrow> take k (drop i ?xs) = take k ?ss"
    unfolding mask_mod less.prems(2) using kb by (intro packed_inj) simp
  have seg: "?m i \<longleftrightarrow> take k (drop i ?xs) = take k ?ss
      \<and> take (length ?ss - k) (drop (i + k) ?xs) = take (length ?ss - k) (drop k ?ss)"
    using compare_segments [of k "length ?ss" i ?xs 0 ?ss] kb by simp
  obtain r where r: "CORD_ncmp p x (i + k) s k (length ?ss - k) = Some r"
      "r = 0 \<longleftrightarrow> take (length ?ss - k) (drop (i + k) ?xs) = take (length ?ss - k) (drop k ?ss)"
  proof -
    have "length ?ss < 2 ^ 31" "length ?ss - k < 2 ^ 31" using s(4) x(2) by linarith+
    then show ?thesis using CORD_ncmp_spec [OF x(1) s(1) x(2) _ x(3) s(2) kb(4,1)] that by blast
  qed
  have found: "(if x_buf AND (256 ^ k - 1) = packed (take k ?ss)
      then (if length ?ss = k then Some True
            else map_option (\<lambda>r. r = 0) (CORD_ncmp p x (wadd i k) s k (length ?ss - k)))
      else Some False) = Some (?m i)"
    unfolding head w using seg r by auto
  note unfold = str_loop.simps [of p x s "length ?xs" "length ?ss" k "256 ^ k - 1" "packed (take k ?ss)" xpos x_buf i]
  show ?case
  proof (cases "?m i")
    case True
    then show ?thesis unfolding unfold found using less.prems(3) by (simp add: upt_conv_Cons del: upt_Suc)
  next
    case no: False
    show ?thesis
    proof (cases "i = length ?xs - length ?ss")
      case True
      then show ?thesis unfolding unfold found using no by simp
    next
      case False
      then have lt: "i < length ?xs - length ?ss" using less.prems(3) by simp
      then have ik: "i + k < length ?xs" using kb(1) by linarith
      let ?c = "?xs ! (i + k)"
      have fetch: "CORD_pos_fetch xpos = Some ?c" by (rule cursor_fetch [OF less.prems(1) ik])
      have tk: "tl (take k (drop i ?xs)) @ [?c] = take k (drop (Suc i) ?xs)"
      proof -
        obtain k' where k': "k = Suc k'" using kb(3) by (cases k) auto
        have "tl (take k (drop i ?xs)) = take k' (drop (Suc i) ?xs)"
          using take_drop_Suc [of i ?xs k'] ik unfolding k' by simp
        moreover have "take k (drop (Suc i) ?xs) = take k' (drop (Suc i) ?xs) @ [drop (Suc i) ?xs ! k']"
          unfolding k' by (rule take_Suc_conv_app_nth) (use ik k' in simp)
        moreover have "drop (Suc i) ?xs ! k' = ?c" using ik k' by simp
        ultimately show ?thesis by simp
      qed
      have "shift_in x_buf (of_char ?c) mod 256 ^ k = packed (take k (drop (Suc i) ?xs))"
        using shift_in_mod [OF kb(2) less.prems(2) _ kb(3), of ?c] tk kb(4) by simp
      from less.hyps [OF _ _ this] cursor_next [OF less.prems(1) ik] lt
      have "str_loop p x s (length ?xs) (length ?ss) k (256 ^ k - 1) (packed (take k ?ss)) (CORD_next xpos)
          (shift_in x_buf (of_char ?c)) (Suc i)
        = Some (case find ?m [Suc i ..< Suc (length ?xs - length ?ss)] of Some j \<Rightarrow> j | None \<Rightarrow> CORD_NOT_FOUND)"
        by simp
      then show ?thesis unfolding unfold found
        using no False lt w(2) fetch by (simp add: upt_conv_Cons [of i] del: upt_Suc)
    qed
  qed
qed


lemma CORD_str_spec:
  assumes x: "cord_wf x" "length (cord_str x) < 2 ^ 31" "NUL \<notin> set (cord_str x)"
    and s: "cord_wf s" "length (cord_str s) < 2 ^ 31" "NUL \<notin> set (cord_str s)" "s \<noteq> CORD_EMPTY"
  shows "CORD_str buf0 p x start s = Some
    (if length (cord_str s) \<le> length (cord_str x)
     then (case find (\<lambda>j. take (length (cord_str s)) (drop j (cord_str x)) = cord_str s)
                  [start ..< Suc (length (cord_str x) - length (cord_str s))] of
             Some j \<Rightarrow> j | None \<Rightarrow> CORD_NOT_FOUND)
     else CORD_NOT_FOUND)"
proof -
  let ?xs = "cord_str x" and ?ss = "cord_str s"
  define k where "k = min 4 (length ?ss)"
  have pos: "0 < length ?ss" using cord_str_nonempty [OF s(1,4)] by simp
  obtain s_start where hd: "(case s of Str t \<Rightarrow> Some (t, length t)
        | _ \<Rightarrow> do { sub \<leftarrow> CORD_substr s 0 4; t \<leftarrow> CORD_to_char_star buf0 sub; Some (t, CORD_len s) })
      = Some (s_start, length ?ss)" "take k s_start = take k ?ss"
  proof (cases "CORD_IS_STRING s")
    case True
    then show ?thesis using that by (cases s) auto
  next
    case False
    have len: "CORD_len s = length ?ss" using s(1) by simp
    obtain sub where "CORD_substr s 0 4 = Some sub" "cord_wf sub" "cord_str sub = take 4 ?ss"
      using CORD_substr_correct [OF s(1), of 0 4] s(2) len by auto
    moreover have "take k (take 4 ?ss) = take k ?ss" by (simp add: k_def)
    ultimately show ?thesis
      using that [of "take 4 ?ss"] False len CORD_to_char_star_spec [of sub buf0] by (cases s) auto
  qed
  have k: "(if length ?ss > 4 then 4 else length ?ss) = k" by (auto simp: k_def)
  have eq: "CORD_str buf0 p x start s = (if length ?xs < start \<or> length ?xs - start < length ?ss then Some CORD_NOT_FOUND
      else do { (msk, s_buf, x_buf, xpos) \<leftarrow> str_init (take k ?ss) 0 0 0 (CORD_set_pos p x start);
                str_loop p x s (length ?xs) (length ?ss) k msk s_buf xpos x_buf start })"
    using s(4) x(1) unfolding CORD_str_def hd(1) by (simp add: k hd(2) Let_def)
  show ?thesis
  proof (cases "length ?xs < start \<or> length ?xs - start < length ?ss")
    case True
    then have "[start ..< Suc (length ?xs - length ?ss)] = []" if "length ?ss \<le> length ?xs" using that pos by auto
    then show ?thesis unfolding eq using True by simp
  next
    case False
    have le: "start \<le> length ?xs - length ?ss" "length ?ss \<le> length ?xs" using False by linarith+
    have kb: "k \<le> length ?ss" "length (take k ?ss) = k" "k \<le> 4" by (simp_all add: k_def)
    have "cursor x (CORD_set_pos p x start) (start + length ([] :: string))"
      using cursor_set_pos [OF x(1,2), of start p] False by simp
    moreover have "start + k \<le> length ?xs" using le kb(1) by linarith
    ultimately obtain xpos where
      i: "str_init (take k ?ss) 0 0 0 (CORD_set_pos p x start)
          = Some (256 ^ k - 1, packed (take k ?ss), packed (take k (drop start ?xs)), xpos)"
         "cursor x xpos (start + k)"
      using str_init_spec [of x "CORD_set_pos p x start" start "[]" "[]" "take k ?ss"] kb by auto
    have len: "length (take k (drop start ?xs)) = k" using kb(1) le by simp
    have "packed (take k (drop start ?xs)) mod 256 ^ k = packed (take k (drop start ?xs))"
      using packed_less [of "take k (drop start ?xs)"] unfolding len by simp
    from str_loop_spec [OF x s(1,3) pos le(2) k_def i(2) this le(1), of p]
    show ?thesis unfolding eq using False i(1) le(2) by simp
  qed
qed


section \<open>Properties\<close>

text \<open>
  C28. \<open>CORD_to_char_star\<close> returns exactly the characters of the cord, whatever the buffer
  held before and whichever mixture of single and batched copying the representation
  causes; with \<open>CORD_from_char_star\<close> it is a round trip on C strings.
\<close>
theorem CORD_char_star_roundtrip:
  assumes "NUL \<notin> set s" "length s < 2 ^ 32" "cord_wf x"
  shows "CORD_to_char_star buf x = Some (cord_str x)
    \<and> CORD_to_char_star buf (CORD_from_char_star s) = Some s"
  using CORD_to_char_star_spec [OF assms(3)] CORD_to_char_star_spec [of "CORD_from_char_star s"] assms
  by (cases s) (simp_all add: CORD_from_char_star_def)

text \<open>
  \<open>CORD_chr\<close> finds the first occurrence of a character other than NUL at or after i, and
  \<open>CORD_rchr\<close> the last one at or before i; both report \<open>CORD_NOT_FOUND\<close> when there is none.
\<close>
theorem CORD_chr_correct:
  assumes "cord_wf x" "i < CORD_len x" "c \<noteq> NUL"
  shows "CORD_chr x i c = Some (case first_index (cord_str x) i c of Some j \<Rightarrow> j | None \<Rightarrow> CORD_NOT_FOUND)
    \<and> CORD_rchr x i c = Some (case last_index (cord_str x) i c of Some j \<Rightarrow> j | None \<Rightarrow> CORD_NOT_FOUND)"
proof -
  have i: "i < length (cord_str x)" "length (cord_str x) < 2 ^ 32" "i < 2 ^ 32"
    using assms cord_len_bound [of x] by auto
  obtain stop s' where r: "CORD_iter5 x i CORD_chr_proc (Some CORD_batched_chr_proc) (i, c) = Some (stop, s')"
      "iter_chars CORD_chr_proc (drop i (cord_str x)) (i, c) = (stop, s')"
    using chr_iter.iter5_steps [OF assms(1) _ i(1), of "(i, c)"] assms(3) i(3) by auto
  have w: "length (takeWhile (\<lambda>d. d \<noteq> c) (drop i (cord_str x))) \<le> length (cord_str x) - i"
    using length_takeWhile_le [of "\<lambda>d. d \<noteq> c" "drop i (cord_str x)"] by simp
  have "CORD_chr x i c = Some (case first_index (cord_str x) i c of Some j \<Rightarrow> j | None \<Rightarrow> CORD_NOT_FOUND)"
    using r iter_chr [OF i(3), of "drop i (cord_str x)" c] first_index_takeWhile [of i "cord_str x" c] i w
    by (auto simp: CORD_chr_def split: if_splits)
  moreover have "CORD_rchr x i c = Some (case last_index (cord_str x) i c of Some j \<Rightarrow> j | None \<Rightarrow> CORD_NOT_FOUND)"
    using CORD_riter4_steps [OF assms(1) i(1), of CORD_rchr_proc "(i, c)"] iter_rchr [OF i(1,2), of c]
    by (auto simp: CORD_rchr_def split: option.splits)
  ultimately show ?thesis ..
qed

text \<open>
  Searching a flat string for NUL, which it cannot contain, "finds" its terminator:
  \<open>CORD_chr\<close> returns the length of the string instead of \<open>CORD_NOT_FOUND\<close>, because
  \<open>strchr\<close> does.
\<close>
theorem CORD_chr_finds_terminator:
  assumes "cord_wf (Str s)"
  shows "CORD_chr (Str s) 0 NUL = Some (length s) \<and> NUL \<notin> set (cord_str (Str s))"
  using assms by (cases s) (auto simp: CORD_chr_def str_char_def strchr_def)



text \<open>
  \<open>CORD_from_file_eager\<close> spells the contents of the file, runs of NULs included, as a
  well-formed (and balanced) cord.
\<close>
theorem CORD_from_file_eager_correct:
  assumes "length f < CORD_len_limit"
  shows "\<exists>c. CORD_from_file_eager f = Some c \<and> cord_wf c \<and> cord_str c = f"
proof -
  have "ec_ok CORD_ec_init" "ec_str CORD_ec_init = []" by (simp_all add: CORD_ec_init_def ec_ok_def ec_str_def)
  then obtain e where e: "from_file_loop f CORD_ec_init = Some e" "ec_ok e" "ec_str e = f"
    using from_file_loop_spec [of CORD_ec_init f] assms by auto
  then obtain e' where e': "CORD_ec_flush_buf e = Some e'" "ec_ok e'" "ec_str e' = f" "ec_buf e' = []"
    using CORD_ec_flush_buf_spec [of e] assms by auto
  have c: "cord_wf (ec_cord e')" "cord_str (ec_cord e') = f" using e' by (simp_all add: ec_ok_def ec_str_def)
  then have "balance_arg (ec_cord e')" by (simp add: balance_arg_def)
  then obtain d where "CORD_balance (ec_cord e') = Some d" "cord_wf d" "cord_str d = f"
    using CORD_balance_arg [of "ec_cord e'"] assms c by metis
  then show ?thesis using e(1) e'(1) by (simp add: CORD_from_file_eager_def CORD_ec_to_cord_def)
qed

text \<open>
  C31. The line cache of a lazily read file is transparent: in every state that
  \<open>CORD_lf_func\<close> can reach, fetching character i of the file returns that character
  (from the cache or by reading its line) and leaves such a state again.
\<close>
theorem CORD_lf_func_correct:
  assumes "i < length file" "lf_ok file st"
  shows "lf_ok file (lf_init st)
    \<and> (\<exists>st'. CORD_lf_func file i st = Some (file ! i, st') \<and> lf_ok file st')"
  using CORD_lf_func_spec [OF assms(2,1)] by (simp add: lf_ok_def lf_init_def)


section \<open>Concrete instances\<close>

theorem CORD_char_star_roundtrip_witness:
  "CORD_to_char_star (\<lambda>_. CHR ''?'') (CORD_from_char_star ''lisp'') = Some ''lisp''"
  using CORD_char_star_roundtrip [of "''lisp''" sample_cord "\<lambda>_. CHR ''?''"] by (simp add: sample_cord_wf)

theorem CORD_chr_correct_witness: "CORD_chr sample_cord 3 (CHR ''a'') = Some 4"
proof -
  have "first_index (cord_str sample_cord) 3 (CHR ''a'') = Some 4"
    by (simp add: sample_cord_wf first_index_def upt_rec)
  then show ?thesis
    using CORD_chr_correct [of sample_cord 3 "CHR ''a''"] by (simp add: sample_cord_wf)
qed

theorem CORD_chr_finds_terminator_witness: "CORD_chr (Str ''cons'') 0 NUL = Some 4"
  using CORD_chr_finds_terminator [of "''cons''"] by simp



theorem CORD_from_file_eager_correct_witness:
  "\<exists>c. CORD_from_file_eager [CHR ''a'', NUL, NUL, CHR ''b''] = Some c \<and> cord_str c = [CHR ''a'', NUL, NUL, CHR ''b'']"
  using CORD_from_file_eager_correct [of "[CHR ''a'', NUL, NUL, CHR ''b'']"] by (auto simp: CORD_len_limit_def)

theorem CORD_lf_func_correct_witness:
  "\<exists>st'. CORD_lf_func ''defun'' 2
      (lf_init \<lparr> lf_offset = 5, lf_current = 5, lf_cache = (\<lambda>_. None) \<rparr>) = Some (CHR ''f'', st')"
proof -
  have "lf_ok ''defun'' (lf_init \<lparr> lf_offset = 5, lf_current = 5, lf_cache = (\<lambda>_. None) \<rparr>)"
    by (simp add: lf_ok_def lf_init_def)
  from CORD_lf_func_correct [OF _ this, of 2] show ?thesis by auto
qed

end
