(* ===== verification/Spec2Isabelle.thy ===== *)
theory Spec2Isabelle
  imports GC_Prelude Blacklist Heap_Headers Obj_Map Heap_Blocks Heap_Lists Heap_Tiling Heap_Alloc Heap_Search
    Heap_Allochblk Mark_From Mark_Shape Marking Roots Mark_Phase Mark_Steps Mark_Blocks Mark_Roots Mark_Complete
    Free_Objs Sweep Sweep_Inv Sweep_Lazy Sweep_Start Sweep_Ok Collection Cord_Rep Cord_Balance Cord_Ops Cord_Pos Cord_Extra
begin

text \<open>
  Verification of the memory manager below ECL on the iPhone: the conservative garbage collector
  in \<^verbatim>\<open>bdwgc\<close> and the cord (rope) library that comes with it.

  \<^bold>\<open>The program.\<close> The repository holds ECL, a Common Lisp system, and the Boehm-Demers-Weiser collector
  patched for the iPhone. The runtime of ECL itself is written in its own preprocessed dialect
  (\<^verbatim>\<open>.d\<close> files); the C code that carries logic of its own is the collector. Its parts are, from the
  bottom: black lists of addresses that look like pointers (\<^verbatim>\<open>blacklst.c\<close>); the index that leads from
  an address to the header of its heap block (\<^verbatim>\<open>headers.c\<close>, \<^verbatim>\<open>gc_hdrs.h\<close>); the maps that lead from
  an offset to the start of an object, and the mark bits (\<^verbatim>\<open>obj_map.c\<close>, \<^verbatim>\<open>mark.c\<close>, \<^verbatim>\<open>reclaim.c\<close>);
  the allocator of heap blocks, which reads the black lists and owns the headers (\<^verbatim>\<open>allchblk.c\<close>); the
  root sets (\<^verbatim>\<open>mark_rts.c\<close>); and the marker, which starts from the roots, looks up headers and
  maps, sets mark bits and enters false pointers into the black lists (\<^verbatim>\<open>mark.c\<close>, \<^verbatim>\<open>gc_pmark.h\<close>); and the
  sweeper, which reads the mark bits, gives empty blocks back to the allocator of blocks and threads
  unmarked objects into free lists (\<^verbatim>\<open>reclaim.c\<close>, \<^verbatim>\<open>new_hblk.c\<close>). The cord library (\<^verbatim>\<open>cord/*.c\<close>) is a client of the collector.

  \<^bold>\<open>Configuration.\<close> 32-bit words, \<open>HBLKSIZE = 4096\<close>, \<open>GRANULE_BYTES = 8\<close>, \<open>ALIGNMENT = 4\<close>, one mark bit per
  granule, no parallel marking, no unmapping, assertions off. Addresses are natural numbers below
  \<open>2 ^ 32\<close>, a heap block is the number of its page (\<open>hblk\<close>), and arithmetic that can wrap is written with
  \<open>wadd\<close>, \<open>wsub\<close> and \<open>word32\<close>; a \<open>NULL\<close> pointer to a block is block 0. \<open>None\<close> stands for \<open>ABORT\<close>, a read
  through a pointer that is not valid, or a loop that does not end, as each theory says; theorems
  that a routine returns are proved as such.

  \<^bold>\<open>Theories.\<close>
  \<^item> \<open>GC_Prelude\<close>: types, constants, words, bit tables, shared lemmas, \<open>gc_consts\<close>.
  \<^item> \<open>Blacklist\<close>: \<open>black_lists\<close> and the operations of \<^verbatim>\<open>blacklst.c\<close>. The scan that skips words agrees
    with a block by block search, false pointers are found again, promotion swaps the lists.
  \<^item> \<open>Heap_Headers\<close>: the two level index, forwarding counts, searches and the header cache miss. Forwarding
    counts lead to the first block of an object; the searches are exact; a cache miss is sound.
  \<^item> \<open>Obj_Map\<close>: object maps, valid displacements, mark bits. The count of marks stays exact.
  \<^item> \<open>Heap_Blocks\<close> holds the definitions of the block allocator; \<open>Heap_Lists\<close> the free lists as lists of
    blocks; \<open>Heap_Tiling\<close> the invariant \<open>heap_inv\<close> (the heap is tiled by headers, the
    free lists hold each free block once in the list of its size, neighbours are coalesced, the
    byte counters are right) and freeing; \<open>Heap_Alloc\<close> splitting and the take-over of a block;
    \<open>Heap_Search\<close> the search of one list; \<open>Heap_Allochblk\<close> the whole of \<open>GC_allochblk\<close>.
  \<^item> \<open>Mark_From\<close> holds the definitions of the marker; \<open>Mark_Shape\<close> what marking leaves alone; \<open>Marking\<close> refines
    the marker to an abstract one on sets of objects and shows that it marks precisely what is
    reachable from the ranges on the mark stack, unless the stack overflows, and that it returns.
  \<^item> \<open>Roots\<close>: the tables of roots and of exclusions, their invariant over all sequences of calls,
    and the exact effect of each call.
  \<^item> \<open>Mark_Phase\<close> holds the definitions of the mark phase: what pushes ranges, roots and stacks, the scans of the
    heap for marked objects, the state machine \<open>GC_mark_some\<close>, and the marking of a full collection.
    \<open>Mark_Steps\<close>, \<open>Mark_Blocks\<close> and \<open>Mark_Roots\<close> show what its steps keep; \<open>Mark_Complete\<close> that a full
    collection returns and marks precisely what is reachable from the roots and the
    uncollectable objects, even if the mark stack overflows again and again.
  \<^item> \<open>Free_Objs\<close>: a new block threaded into a free list (\<^verbatim>\<open>new_hblk.c\<close>); the unrolled versions agree with the general one.
  \<^item> \<open>Sweep\<close> holds the definitions of \<^verbatim>\<open>reclaim.c\<close>; \<open>Sweep_Inv\<close> the invariant of sweeping for a set of objects to
    keep and the exact effect of sweeping one block; \<open>Sweep_Lazy\<close> that lazy sweeping keeps the invariant;
    \<open>Sweep_Start\<close> that the start of a sweep establishes it and frees the other blocks; \<open>Sweep_Ok\<close> the
    properties, with a sample heap.
  \<^item> \<open>Collection\<close>: when a collection is due, and the whole of a stop-the-world collection (\<^verbatim>\<open>alloc.c\<close>). It joins the parts:
    a full collection returns, every object that is reachable keeps its contents and gets on no free
    list, and every block without such an object is free afterwards.
  \<^item> \<open>Cord_Rep\<close>, \<open>Cord_Balance\<close>, \<open>Cord_Ops\<close>, \<open>Cord_Pos\<close>, \<open>Cord_Extra\<close>: cords with all their node kinds,
    concatenation and rebalancing, substrings and iterators, positions, and the utilities of
    \<^verbatim>\<open>cordxtra.c\<close>, each against the string a cord spells.

  \<^bold>\<open>Interfaces.\<close> Contracts between parts are locales interpreted on the definitions of the model, such as
  \<open>exclusion_search\<close> in \<open>Roots\<close>, \<open>block_visitor\<close> in \<open>Heap_Headers\<close> (what a function must keep so that
  \<open>GC_apply_to_all_blocks\<close> visits each block once; interpreted for clearing marks and for sweeping) and \<open>stride_loop\<close>
  in \<open>Free_Objs\<close>; the code outside of a theory that it calls (memory from the
  system, client functions of cords, client mark procedures) is an argument.

  \<^bold>\<open>Bounds and fuel.\<close> Loops over lists in memory are \<open>partial_function (option)\<close>, and the theorems show that
  they end under the invariant. Loops with a bound are functions with a measure. No fuel is used
  in the collector.

  \<^bold>\<open>Not modelled.\<close> The runtime of ECL in \<^verbatim>\<open>.d\<close> files and its Lisp sources; GMP and the second copy of the
  collector that ECL bundles; threads, signals and the rest of the operating system interface;
  parallel marking; incremental collection and growing the heap; debugging and statistics output; the entry points of object
  allocation in \<^verbatim>\<open>malloc.c\<close> and \<^verbatim>\<open>mallocx.c\<close>; finalization and typed allocation, which would be the next
  parts to add.
\<close>

end
